(* ===== verification/Prelude.thy ===== *)
theory Prelude
  imports Main "HOL-Library.Word" "HOL-Library.Multiset" "HOL-Library.Monad_Syntax"
begin

unbundle bit_operations_syntax

text \<open>
  The shared base of the development: the machine types of the runtime
  (\<open>sanitizer_internal_defs.h\<close>), the fact collections the component theories fill, and
  the lemmas on lists, options and words that more than one component uses.
\<close>

section \<open>Machine types\<close>

type_synonym u8 = "8 word"
type_synonym u16 = "16 word"
type_synonym u32 = "32 word"
type_synonym u64 = "64 word"
type_synonym uptr = "64 word"

section \<open>Fact collections\<close>

named_theorems container_simps \<open>abstract effect of the container operations\<close>
named_theorems inv_intros \<open>preservation of the component invariants\<close>

section \<open>Lists\<close>

lemma find_upt_Some_iff:
  "List.find P [0..<n] = Some i \<longleftrightarrow> i < n \<and> P i \<and> (\<forall>j<i. \<not> P j)"
  by (auto simp: find_Some_iff intro: exI [of _ i])

lemma find_upt_None_iff: "List.find P [0..<n] = None \<longleftrightarrow> (\<forall>j<n. \<not> P j)"
  by (auto simp: find_None_iff)

lemma take_Suc_snoc: "n < length xs \<Longrightarrow> take (Suc n) xs = take n xs @ [xs ! n]"
  by (rule take_Suc_conv_app_nth)

lemma filter_take_update_off:
  assumes i: "i < length xs" and p: "P (xs ! i)" "\<not> P y" and n: "i < n"
  shows "filter_mset P (mset (take n (xs[i := y]))) = filter_mset P (mset (take n xs)) - {#xs ! i#}"
proof -
  have "take n (xs[i := y]) = (take n xs)[i := y]"
    using n by (simp add: take_update_swap)
  moreover have "i < length (take n xs)" "take n xs ! i = xs ! i"
    using i n by simp_all
  ultimately show ?thesis
    using p by (simp add: mset_update)
qed

lemma filter_update_off:
  "i < length xs \<Longrightarrow> P (xs ! i) \<Longrightarrow> \<not> P y \<Longrightarrow>
   filter_mset P (mset (xs[i := y])) = filter_mset P (mset xs) - {#xs ! i#}"
  using filter_take_update_off [of i xs P y "length xs"] by simp

lemma filter_update_on:
  "i < length xs \<Longrightarrow> \<not> P (xs ! i) \<Longrightarrow> P y \<Longrightarrow>
   filter_mset P (mset (xs[i := y])) = add_mset y (filter_mset P (mset xs))"
  by (simp add: mset_update)

text \<open>An element is replaced by the last one, which is dropped.\<close>

lemma mset_swap_out: "i < length xs \<Longrightarrow> mset (butlast (xs[i := last xs])) = mset xs - {#xs ! i#}"
proof -
  assume i: "i < length xs"
  then have ne: "xs \<noteq> []" by auto
  have l: "xs[i := last xs] \<noteq> []" using ne by simp
  have "last (xs[i := last xs]) = last xs" using ne by (simp add: last_list_update)
  define ys where "ys = butlast (xs[i := last xs])"
  have "xs[i := last xs] = ys @ [last xs]"
    using append_butlast_last_id [OF l] \<open>last (xs[i := last xs]) = last xs\<close> by (simp add: ys_def)
  moreover have "mset (xs[i := last xs]) = add_mset (last xs) (mset xs - {#xs ! i#})" using i by (rule mset_update)
  ultimately have "mset ys = mset xs - {#xs ! i#}" by simp
  then show ?thesis by (simp add: ys_def)
qed

section \<open>Words\<close>

lemma unat_of_nat_small: "n < 2 ^ LENGTH('a) \<Longrightarrow> unat (of_nat n :: 'a::len word) = n"
  by (simp add: unsigned_of_nat take_bit_nat_eq_self)

lemma unat_64_less: "unat (n :: u64) < 2 ^ 64"
  using unsigned_less [of n, where 'a = nat] by simp

lemma sint_64_small:
  assumes "unat (x :: u64) < 2 ^ 63"
  shows "sint x = int (unat x)"
proof -
  have "sint x = (int (unat x) + 2 ^ 63) mod 2 ^ 64 - 2 ^ 63"
    using int_word_sint [of "uint x", where 'a = 64] by (simp only: word_of_int_uint) simp
  moreover have "(int k + 2 ^ 63) mod 2 ^ 64 = int k + 2 ^ 63" if "k < 2 ^ 63" for k :: nat
    using that by (intro mod_pos_pos_trivial) simp_all
  note this [OF assms]
  ultimately show ?thesis by linarith
qed

lemma ucast_32_64_small: "(x :: u64) < 2 ^ 32 \<Longrightarrow> ucast (ucast x :: u32) = x"
  by (simp add: word_unat_eq_iff word_less_nat_alt unsigned_ucast_eq unsigned_take_bit_eq
      take_bit_nat_eq_self)

section \<open>Taking fallible computations apart\<close>

lemma bindE: "Option.bind x f = Some y \<Longrightarrow> (\<And>v. x = Some v \<Longrightarrow> f v = Some y \<Longrightarrow> P) \<Longrightarrow> P"
  by (cases x) simp_all

lemma bindE2: "Option.bind x (case_prod f) = Some y \<Longrightarrow> (\<And>a b. x = Some (a, b) \<Longrightarrow> f a b = Some y \<Longrightarrow> P) \<Longrightarrow> P"
  by (cases x) auto

lemma bindE3: "Option.bind x (\<lambda>(a, b, c). f a b c) = Some y \<Longrightarrow> (\<And>a b c. x = Some (a, b, c) \<Longrightarrow> f a b c = Some y \<Longrightarrow> P) \<Longrightarrow> P"
  by (cases x) auto

lemma letE: "Let x f = y \<Longrightarrow> (f x = y \<Longrightarrow> P) \<Longrightarrow> P"
  by simp

lemma letE2: "Let x (case_prod f) = y \<Longrightarrow> (\<And>a b. x = (a, b) \<Longrightarrow> f a b = y \<Longrightarrow> P) \<Longrightarrow> P"
  by (cases x) simp

end
