(* ===== verification/CprdContainers.thy ===== *)
theory CprdContainers
  imports Prelude
begin

text \<open>
  The two fixed-size containers of the persistent-memory runtime,
  \<open>tsan/rtl/cprd/cprd_array.h\<close> (\<open>Array\<close>) and
  \<open>tsan/rtl/cprd/cprd_unordered_collection.h\<close> (\<open>UnorderedCollection\<close>). The template
  argument \<open>MaxSize\<close> is the length of the slot list, which no operation changes.
  Both are instances of one contract, the locale \<open>slot_bag\<close>: a bag of live values whose
  \<open>remove\<close> takes out one occurrence.
\<close>

section \<open>The contract: a bounded bag\<close>

locale slot_bag =
  fixes inv :: "'c \<Rightarrow> bool"
    and content :: "'c \<Rightarrow> 'a multiset"
    and insert :: "'c \<Rightarrow> 'a \<Rightarrow> 'c option"
    and delete :: "'c \<Rightarrow> 'a \<Rightarrow> bool \<times> 'c"
    and mem :: "'c \<Rightarrow> 'a \<Rightarrow> bool"
  assumes insert_inv: "inv c \<Longrightarrow> insert c v = Some c' \<Longrightarrow> inv c'"
    and insert_content: "inv c \<Longrightarrow> insert c v = Some c' \<Longrightarrow> content c' = add_mset v (content c)"
    and delete_inv: "inv c \<Longrightarrow> inv (snd (delete c v))"
    and delete_content: "inv c \<Longrightarrow> content (snd (delete c v)) = content c - {#v#}"
    and delete_result: "inv c \<Longrightarrow> fst (delete c v) \<longleftrightarrow> v \<in># content c"
    and mem_iff: "inv c \<Longrightarrow> mem c v \<longleftrightarrow> v \<in># content c"
begin

text \<open>What a client may rely on, whatever the container.\<close>

lemma mem_insert:
  "inv c \<Longrightarrow> insert c v = Some c' \<Longrightarrow> mem c' w \<longleftrightarrow> w = v \<or> mem c w"
  by (auto simp: mem_iff insert_content insert_inv)

lemma delete_insert:
  "inv c \<Longrightarrow> insert c v = Some c' \<Longrightarrow> content (snd (delete c' v)) = content c \<and> fst (delete c' v)"
  by (simp add: insert_content insert_inv delete_content delete_result)

lemma mem_delete_other: "inv c \<Longrightarrow> w \<noteq> v \<Longrightarrow> mem (snd (delete c v)) w \<longleftrightarrow> mem c w"
  by (simp add: mem_iff delete_content delete_inv in_diff_count)

lemma delete_absent: "inv c \<Longrightarrow> \<not> mem c v \<Longrightarrow> content (snd (delete c v)) = content c"
  by (simp add: mem_iff delete_content)

lemma mem_delete_once:
  "inv c \<Longrightarrow> count (content c) v \<le> 1 \<Longrightarrow> \<not> mem (snd (delete c v)) v"
  by (simp add: mem_iff delete_content delete_inv not_in_iff)

end

section \<open>Slots\<close>

text \<open>\<open>_Item\<close> and \<open>Item\<close>: a validity flag and the data. An invalid slot keeps its old data.\<close>

record 'a slot =
  s_valid :: bool
  s_data :: 'a

lemma slot_update_all [simp]:
  "(x :: 'a slot)\<lparr>s_valid := b, s_data := v\<rparr> = \<lparr>s_valid = b, s_data = v\<rparr>"
  by (cases x) simp

lemma slot_set_data: "(x :: 'a slot)\<lparr>s_data := v\<rparr> = \<lparr>s_valid = s_valid x, s_data = v\<rparr>"
  by (cases x) simp

lemma slot_set_valid: "(x :: 'a slot)\<lparr>s_valid := b\<rparr> = \<lparr>s_valid = b, s_data = s_data x\<rparr>"
  by (cases x) simp

lemma slot_eta: "s_valid x \<Longrightarrow> \<lparr>s_valid = True, s_data = s_data x\<rparr> = (x :: 'a slot)"
  by (cases x) simp

section \<open>\<open>Array\<close>\<close>

record 'a carray =
  a_items :: "'a slot list"
  a_count :: nat

definition array_init :: "nat \<Rightarrow> 'a \<Rightarrow> 'a carray" where
  "array_init maxsize z = \<lparr>a_items = replicate maxsize \<lparr>s_valid = False, s_data = z\<rparr>, a_count = 0\<rparr>"

definition array_inv :: "'a carray \<Rightarrow> bool" where
  "array_inv a \<longleftrightarrow> a_count a \<le> length (a_items a)"

text \<open>\<open>_find\<close>: the first live slot below \<open>m_count\<close> that holds the value.\<close>

definition array_find :: "'a carray \<Rightarrow> 'a \<Rightarrow> nat option" where
  "array_find a v =
     List.find (\<lambda>i. s_valid (a_items a ! i) \<and> s_data (a_items a ! i) = v) [0..<a_count a]"

text \<open>
  \<open>push_back\<close>: the bound is a \<open>DCHECK\<close>, which a release build drops; \<open>None\<close> is the write
  past \<open>m_data\<close>.
\<close>

definition array_push_back :: "'a carray \<Rightarrow> 'a \<Rightarrow> 'a carray option" where
  "array_push_back a v =
     (if a_count a < length (a_items a)
      then Some (a\<lparr>a_items := (a_items a)[a_count a := \<lparr>s_valid = True, s_data = v\<rparr>],
                   a_count := Suc (a_count a)\<rparr>)
      else None)"

definition array_contains :: "'a carray \<Rightarrow> 'a \<Rightarrow> bool" where
  "array_contains a v \<longleftrightarrow> array_find a v \<noteq> None"

definition array_remove :: "'a carray \<Rightarrow> 'a \<Rightarrow> bool \<times> 'a carray" where
  "array_remove a v =
     (case array_find a v of
        None \<Rightarrow> (False, a)
      | Some i \<Rightarrow> (True, a\<lparr>a_items := (a_items a)[i := (a_items a ! i)\<lparr>s_valid := False\<rparr>]\<rparr>))"

text \<open>
  \<open>Iterator::operator++\<close>. The loop variable \<open>i\<close> and \<open>m_i\<close> both advance; the flag that is
  read is the one after the increment, so at the last element it is the flag of slot
  \<open>m_count\<close>. \<open>None\<close> is the read past \<open>m_data\<close>.
\<close>

function array_iter_next :: "'a carray \<Rightarrow> nat \<Rightarrow> nat \<Rightarrow> nat option" where
  "array_iter_next a i m_i =
     (if i < a_count a
      then (let m_i' = Suc m_i in
            if m_i' < length (a_items a)
            then if s_valid (a_items a ! m_i') then Some m_i'
                 else array_iter_next a (Suc i) m_i'
            else None)
      else Some m_i)"
  by pat_completeness auto
termination
  by (relation "measure (\<lambda>(a, i, m_i). a_count a - i)") auto

declare array_iter_next.simps [simp del]

text \<open>
  The range-based \<open>for\<close> that looks for an element: from \<open>begin()\<close>, which is slot 0 whatever
  its flag, to \<open>end()\<close>, which is \<open>m_count\<close>. \<open>None\<close> is an out-of-range read or a loop that
  steps past \<open>end()\<close>.
\<close>

partial_function (option) array_any_from :: "('a \<Rightarrow> bool) \<Rightarrow> 'a carray \<Rightarrow> nat \<Rightarrow> bool option" where
  "array_any_from p a it =
     (if it = a_count a then Some False
      else if p (s_data (a_items a ! it)) then Some True
      else do { it' \<leftarrow> array_iter_next a it it; array_any_from p a it' })"

definition array_any :: "('a \<Rightarrow> bool) \<Rightarrow> 'a carray \<Rightarrow> bool option" where
  "array_any p a = array_any_from p a 0"

subsection \<open>The live elements\<close>

definition array_live :: "'a carray \<Rightarrow> 'a multiset" where
  "array_live a = image_mset s_data (mset (filter s_valid (take (a_count a) (a_items a))))"

lemma array_live_iff:
  assumes "array_inv a"
  shows "v \<in># array_live a \<longleftrightarrow>
    (\<exists>i<a_count a. s_valid (a_items a ! i) \<and> s_data (a_items a ! i) = v)"
proof -
  have "v \<in># array_live a \<longleftrightarrow> (\<exists>x \<in> set (take (a_count a) (a_items a)). s_valid x \<and> s_data x = v)"
    by (auto simp: array_live_def)
  also have "\<dots> \<longleftrightarrow> (\<exists>i<a_count a. s_valid (a_items a ! i) \<and> s_data (a_items a ! i) = v)"
    using assms by (auto simp: array_inv_def simp flip: nth_image)
  finally show ?thesis .
qed

lemma array_live_find:
  "array_inv a \<Longrightarrow> v \<in># array_live a \<longleftrightarrow> (\<exists>i. array_find a v = Some i)"
  by (auto simp: array_find_def find_upt_None_iff array_live_iff simp flip: not_None_eq)

lemma array_find_Some:
  "array_find a v = Some i \<Longrightarrow>
     i < a_count a \<and> s_valid (a_items a ! i) \<and> s_data (a_items a ! i) = v"
  by (auto simp: array_find_def find_upt_Some_iff)

lemma array_init_inv [inv_intros]: "array_inv (array_init n z)"
  by (simp add: array_inv_def array_init_def)

lemma array_init_live [container_simps]: "array_live (array_init n z) = {#}"
  by (simp add: array_live_def array_init_def)

lemma array_push_back_inv: "array_push_back a v = Some a' \<Longrightarrow> array_inv a'"
  by (auto simp: array_push_back_def array_inv_def split: if_splits)

lemma array_push_back_live:
  "array_push_back a v = Some a' \<Longrightarrow> array_live a' = add_mset v (array_live a)"
  by (auto simp: array_push_back_def array_live_def take_Suc_snoc split: if_splits)

lemma array_remove_inv: "array_inv a \<Longrightarrow> array_inv (snd (array_remove a v))"
  by (auto simp: array_remove_def array_inv_def split: option.splits)

lemma array_remove_live:
  assumes inv: "array_inv a"
  shows "array_live (snd (array_remove a v)) = array_live a - {#v#}"
proof (cases "array_find a v")
  case None
  then show ?thesis
    using inv by (simp add: array_remove_def array_live_find diff_single_trivial)
next
  case (Some i)
  let ?x = "a_items a ! i"
  have i: "i < a_count a" "s_valid ?x" "s_data ?x = v" "i < length (a_items a)"
    using array_find_Some [OF Some] inv by (auto simp: array_inv_def)
  have "?x \<in># mset (filter s_valid (take (a_count a) (a_items a)))"
    using i by (auto simp: in_set_conv_nth)
  then show ?thesis
    using i Some
    by (simp add: array_remove_def array_live_def filter_take_update_off image_mset_Diff)
qed

interpretation arr: slot_bag array_inv array_live array_push_back array_remove array_contains
proof (unfold_locales, goal_cases)
  case (1 c v c')
  then show ?case by (simp add: array_push_back_inv)
next
  case (2 c v c')
  then show ?case by (simp add: array_push_back_live)
next
  case (3 c v)
  then show ?case by (simp add: array_remove_inv)
next
  case (4 c v)
  then show ?case by (simp add: array_remove_live)
next
  case (5 c v)
  then show ?case by (auto simp: array_remove_def array_live_find split: option.split)
next
  case (6 c v)
  then show ?case by (auto simp: array_contains_def array_live_find)
qed

subsection \<open>What the iteration sees\<close>

lemma array_iter_next_spec:
  assumes "i < a_count a" and "a_count a < length (a_items a)"
  shows "\<exists>j. array_iter_next a i i = Some j \<and> i < j \<and> j \<le> a_count a \<and>
    (j = a_count a \<or> s_valid (a_items a ! j)) \<and> (\<forall>k. i < k \<and> k < j \<longrightarrow> \<not> s_valid (a_items a ! k))"
  using assms
proof (induction "a_count a - i" arbitrary: i rule: less_induct)
  case less
  have step: "array_iter_next a i i =
      (if s_valid (a_items a ! Suc i) then Some (Suc i) else array_iter_next a (Suc i) (Suc i))"
    using less.prems by (simp add: array_iter_next.simps [of a i i])
  show ?case
  proof (cases "s_valid (a_items a ! Suc i)")
    case True
    then show ?thesis using step less.prems by auto
  next
    case inv: False
    show ?thesis
    proof (cases "Suc i < a_count a")
      case True
      have "a_count a - Suc i < a_count a - i" using less.prems by simp
      from less.hyps [OF this True less.prems(2)]
      obtain j where "array_iter_next a (Suc i) (Suc i) = Some j" "Suc i < j" "j \<le> a_count a"
        "j = a_count a \<or> s_valid (a_items a ! j)"
        "\<forall>k. Suc i < k \<and> k < j \<longrightarrow> \<not> s_valid (a_items a ! k)"
        by blast
      moreover from this inv have "\<forall>k. i < k \<and> k < j \<longrightarrow> \<not> s_valid (a_items a ! k)"
        by (metis Suc_lessI)
      ultimately show ?thesis
        using step inv by (intro exI [of _ j]) simp
    next
      case False
      then show ?thesis
        using step inv less.prems
        by (auto simp: array_iter_next.simps [of a "Suc i" "Suc i"])
    qed
  qed
qed

lemma array_any_from_spec:
  assumes "it \<le> a_count a" and "a_count a < length (a_items a)"
  shows "array_any_from p a it =
    Some (\<exists>i. it \<le> i \<and> i < a_count a \<and> (i = it \<or> s_valid (a_items a ! i)) \<and> p (s_data (a_items a ! i)))"
  using assms
proof (induction "a_count a - it" arbitrary: it rule: less_induct)
  case less
  show ?case
  proof (cases "it < a_count a \<and> \<not> p (s_data (a_items a ! it))")
    case True
    then obtain j where j: "array_iter_next a it it = Some j" "it < j" "j \<le> a_count a"
      "j = a_count a \<or> s_valid (a_items a ! j)" "\<forall>k. it < k \<and> k < j \<longrightarrow> \<not> s_valid (a_items a ! k)"
      using array_iter_next_spec less.prems by blast
    have "array_any_from p a it = array_any_from p a j"
      using True j by (simp add: array_any_from.simps [of p a it])
    also have "\<dots> = Some (\<exists>i. j \<le> i \<and> i < a_count a \<and> (i = j \<or> s_valid (a_items a ! i)) \<and> p (s_data (a_items a ! i)))"
      using less.hyps [of j] less.prems j by simp
    also have "(\<exists>i. j \<le> i \<and> i < a_count a \<and> (i = j \<or> s_valid (a_items a ! i)) \<and> p (s_data (a_items a ! i))) =
      (\<exists>i. it \<le> i \<and> i < a_count a \<and> (i = it \<or> s_valid (a_items a ! i)) \<and> p (s_data (a_items a ! i)))"
      using True j by (metis (no_types, lifting) less_imp_le_nat linorder_not_le nat_less_le order.trans)
    finally show ?thesis .
  next
    case False
    then show ?thesis
      using less.prems by (auto simp: array_any_from.simps [of p a it])
  qed
qed

lemma array_any_spec:
  assumes "a_count a < length (a_items a)"
  shows "array_any p a =
    Some (\<exists>i<a_count a. (i = 0 \<or> s_valid (a_items a ! i)) \<and> p (s_data (a_items a ! i)))"
  using array_any_from_spec [of 0 a p] assms by (simp add: array_any_def)

text \<open>On a full array a search that finds nothing reads one slot past the end.\<close>

lemma array_iter_next_full:
  assumes "a_count a = length (a_items a)" and "i < a_count a"
    and "\<forall>k. i < k \<and> k < a_count a \<longrightarrow> \<not> s_valid (a_items a ! k)"
  shows "array_iter_next a i i = None"
  using assms
proof (induction "a_count a - i" arbitrary: i rule: less_induct)
  case less
  then show ?case
    by (cases "Suc i < a_count a") (simp_all add: array_iter_next.simps [of a i i])
qed

section \<open>\<open>UnorderedCollection\<close>\<close>

record 'a ucoll =
  u_items :: "'a slot list"
  u_count :: nat

definition ucoll_init :: "nat \<Rightarrow> 'a \<Rightarrow> 'a ucoll" where
  "ucoll_init maxsize z = \<lparr>u_items = replicate maxsize \<lparr>s_valid = False, s_data = z\<rparr>, u_count = 0\<rparr>"

text \<open>\<open>_find\<close> and \<open>_find_next_free\<close> scan all \<open>MaxSize\<close> slots.\<close>

definition ucoll_find :: "'a ucoll \<Rightarrow> 'a \<Rightarrow> nat option" where
  "ucoll_find c v =
     List.find (\<lambda>i. s_valid (u_items c ! i) \<and> s_data (u_items c ! i) = v) [0..<length (u_items c)]"

definition ucoll_find_free :: "'a ucoll \<Rightarrow> nat option" where
  "ucoll_find_free c = List.find (\<lambda>i. \<not> s_valid (u_items c ! i)) [0..<length (u_items c)]"

text \<open>\<open>remove(Item &)\<close>, by the index of the item; it also serves \<open>remove(const Iterator &)\<close>.\<close>

definition ucoll_remove_at :: "'a ucoll \<Rightarrow> nat \<Rightarrow> bool \<times> 'a ucoll" where
  "ucoll_remove_at c i =
     (if \<not> s_valid (u_items c ! i) then (False, c)
      else (True, c\<lparr>u_items := (u_items c)[i := (u_items c ! i)\<lparr>s_valid := False\<rparr>],
                    u_count := u_count c - 1\<rparr>))"

definition ucoll_remove :: "'a ucoll \<Rightarrow> 'a \<Rightarrow> bool \<times> 'a ucoll" where
  "ucoll_remove c v =
     (case ucoll_find c v of None \<Rightarrow> (False, c) | Some i \<Rightarrow> ucoll_remove_at c i)"

text \<open>
  \<open>add()\<close> returns a pointer to the slot it took (here its index), whose data the caller fills;
  \<open>add(const T &)\<close> fills it. \<open>None\<close> is the null pointer of a full collection.
\<close>

definition ucoll_add_slot :: "'a ucoll \<Rightarrow> (nat \<times> 'a ucoll) option" where
  "ucoll_add_slot c =
     (case ucoll_find_free c of
        None \<Rightarrow> None
      | Some i \<Rightarrow> Some (i, c\<lparr>u_items := (u_items c)[i := (u_items c ! i)\<lparr>s_valid := True\<rparr>],
                            u_count := u_count c + 1\<rparr>))"

definition ucoll_add :: "'a ucoll \<Rightarrow> 'a \<Rightarrow> 'a ucoll option" where
  "ucoll_add c v =
     (case ucoll_find_free c of
        None \<Rightarrow> None
      | Some i \<Rightarrow> Some (c\<lparr>u_items := (u_items c)[i := \<lparr>s_valid = True, s_data = v\<rparr>],
                         u_count := u_count c + 1\<rparr>))"

definition ucoll_contains :: "'a ucoll \<Rightarrow> 'a \<Rightarrow> bool" where
  "ucoll_contains c v \<longleftrightarrow> ucoll_find c v \<noteq> None"

definition ucoll_set :: "'a ucoll \<Rightarrow> nat \<Rightarrow> 'a \<Rightarrow> 'a ucoll" where
  "ucoll_set c i v = c\<lparr>u_items := (u_items c)[i := (u_items c ! i)\<lparr>s_data := v\<rparr>]\<rparr>"

text \<open>\<open>Iterator::find_valid\<close>: the constructor and \<open>operator++\<close> both skip dead slots.\<close>

function ucoll_find_valid :: "'a ucoll \<Rightarrow> nat \<Rightarrow> nat" where
  "ucoll_find_valid c i =
     (if i < length (u_items c) \<and> \<not> s_valid (u_items c ! i) then ucoll_find_valid c (Suc i) else i)"
  by pat_completeness auto
termination
  by (relation "measure (\<lambda>(c, i). length (u_items c) - i)") auto

declare ucoll_find_valid.simps [simp del]

definition ucoll_begin :: "'a ucoll \<Rightarrow> nat" where
  "ucoll_begin c = ucoll_find_valid c 0"

definition ucoll_next :: "'a ucoll \<Rightarrow> nat \<Rightarrow> nat" where
  "ucoll_next c i = ucoll_find_valid c (Suc i)"

lemma ucoll_find_valid_ge: "i \<le> ucoll_find_valid c i"
proof (induction c i rule: ucoll_find_valid.induct)
  case (1 c i)
  then show ?case by (subst ucoll_find_valid.simps) (auto dest: Suc_leD)
qed

lemma ucoll_find_valid_le: "i \<le> length (u_items c) \<Longrightarrow> ucoll_find_valid c i \<le> length (u_items c)"
proof (induction c i rule: ucoll_find_valid.induct)
  case (1 c i)
  then show ?case by (subst ucoll_find_valid.simps) auto
qed

lemma ucoll_find_valid_valid:
  "ucoll_find_valid c i < length (u_items c) \<Longrightarrow> s_valid (u_items c ! ucoll_find_valid c i)"
proof (induction c i rule: ucoll_find_valid.induct)
  case (1 c i)
  then show ?case
    by (cases "i < length (u_items c) \<and> \<not> s_valid (u_items c ! i)")
      (auto simp: ucoll_find_valid.simps [of c i])
qed

lemma ucoll_find_valid_skips:
  "i \<le> j \<Longrightarrow> j < ucoll_find_valid c i \<Longrightarrow> \<not> s_valid (u_items c ! j)"
proof (induction c i rule: ucoll_find_valid.induct)
  case (1 c i)
  have "ucoll_find_valid c i =
      (if i < length (u_items c) \<and> \<not> s_valid (u_items c ! i) then ucoll_find_valid c (Suc i) else i)"
    by (rule ucoll_find_valid.simps)
  with 1 show ?case by (cases "i = j") (auto split: if_splits)
qed

text \<open>
  The loops of the runtime: \<open>for (auto it = c.begin(); it != c.end(); ++it) body\<close>, where the
  body may kill the slot it stands on. \<open>coll\<close> selects the collection from the loop state,
  \<open>n\<close> is \<open>MaxSize\<close>, where \<open>end()\<close> stands, and \<open>None\<close> a body that does not return.
\<close>

function ucoll_for ::
  "nat \<Rightarrow> ('s \<Rightarrow> 'a ucoll) \<Rightarrow> (nat \<Rightarrow> 's \<Rightarrow> 's option) \<Rightarrow> nat \<Rightarrow> 's \<Rightarrow> 's option" where
  "ucoll_for n coll body it s =
     (if it < n
      then (case body it s of
              None \<Rightarrow> None
            | Some s' \<Rightarrow> ucoll_for n coll body (ucoll_next (coll s') it) s')
      else Some s)"
  by pat_completeness auto
termination
  by (relation "measure (\<lambda>(n, coll, body, it, s). n - it)")
    (auto simp: ucoll_next_def intro: diff_less_mono2 less_le_trans [OF lessI ucoll_find_valid_ge])

declare ucoll_for.simps [simp del]

subsection \<open>The live elements\<close>

definition ucoll_live :: "'a ucoll \<Rightarrow> 'a multiset" where
  "ucoll_live c = image_mset s_data (filter_mset s_valid (mset (u_items c)))"

definition ucoll_inv :: "'a ucoll \<Rightarrow> bool" where
  "ucoll_inv c \<longleftrightarrow> u_count c = size (ucoll_live c)"

lemma ucoll_find_Some:
  "ucoll_find c v = Some i \<Longrightarrow>
     i < length (u_items c) \<and> s_valid (u_items c ! i) \<and> s_data (u_items c ! i) = v"
  by (auto simp: ucoll_find_def find_upt_Some_iff)

lemma ucoll_find_free_Some:
  "ucoll_find_free c = Some i \<Longrightarrow> i < length (u_items c) \<and> \<not> s_valid (u_items c ! i)"
  by (auto simp: ucoll_find_free_def find_upt_Some_iff)

lemma ucoll_live_iff:
  "v \<in># ucoll_live c \<longleftrightarrow> (\<exists>i<length (u_items c). s_valid (u_items c ! i) \<and> s_data (u_items c ! i) = v)"
  by (auto simp: ucoll_live_def in_set_conv_nth)

lemma ucoll_live_find: "v \<in># ucoll_live c \<longleftrightarrow> (\<exists>i. ucoll_find c v = Some i)"
  by (auto simp: ucoll_find_def find_upt_None_iff ucoll_live_iff simp flip: not_None_eq)

lemma ucoll_remove_at_live:
  assumes "i < length (u_items c)" "s_valid (u_items c ! i)"
  shows "ucoll_live (snd (ucoll_remove_at c i)) = ucoll_live c - {#s_data (u_items c ! i)#}"
  using assms
  by (simp add: ucoll_remove_at_def ucoll_live_def filter_update_off image_mset_Diff)

lemma ucoll_remove_at_inv:
  assumes "ucoll_inv c" "i < length (u_items c)"
  shows "ucoll_inv (snd (ucoll_remove_at c i))"
proof (cases "s_valid (u_items c ! i)")
  case True
  then have "s_data (u_items c ! i) \<in># ucoll_live c"
    using assms by (auto simp: ucoll_live_iff)
  then show ?thesis
    using assms True ucoll_remove_at_live [of i c]
    by (simp add: ucoll_inv_def size_Diff_singleton) (simp add: ucoll_remove_at_def)
next
  case False
  then show ?thesis using assms by (simp add: ucoll_remove_at_def)
qed

lemma ucoll_add_live:
  "ucoll_add c v = Some c' \<Longrightarrow> ucoll_live c' = add_mset v (ucoll_live c)"
  by (auto simp: ucoll_add_def ucoll_live_def filter_update_on
      dest!: ucoll_find_free_Some split: option.splits)

lemma ucoll_add_count: "ucoll_add c v = Some c' \<Longrightarrow> u_count c' = Suc (u_count c)"
  by (auto simp: ucoll_add_def split: option.splits)

text \<open>\<open>add()\<close> followed by the assignment through the pointer is \<open>add(v)\<close>.\<close>

lemma ucoll_add_slot_set:
  "map_option (\<lambda>(i, c'). ucoll_set c' i v) (ucoll_add_slot c) = ucoll_add c v"
  by (auto simp: ucoll_add_slot_def ucoll_add_def ucoll_set_def
      dest!: ucoll_find_free_Some split: option.splits)

interpretation ucl: slot_bag ucoll_inv ucoll_live ucoll_add ucoll_remove ucoll_contains
proof (unfold_locales, goal_cases)
  case (1 c v c')
  then show ?case by (simp add: ucoll_inv_def ucoll_add_live ucoll_add_count)
next
  case (2 c v c')
  then show ?case by (simp add: ucoll_add_live)
next
  case (3 c v)
  then show ?case
    by (auto simp: ucoll_remove_def ucoll_remove_at_inv dest: ucoll_find_Some split: option.split)
next
  case (4 c v)
  then show ?case
    by (cases "ucoll_find c v")
      (auto simp: ucoll_remove_def ucoll_live_find diff_single_trivial ucoll_remove_at_live
        dest: ucoll_find_Some)
next
  case (5 c v)
  then show ?case
    by (auto simp: ucoll_remove_def ucoll_live_find ucoll_remove_at_def
        dest: ucoll_find_Some split: option.split)
next
  case (6 c v)
  then show ?case by (auto simp: ucoll_contains_def ucoll_live_find)
qed

subsection \<open>What the loops do\<close>

fun run_slots :: "(nat \<Rightarrow> 's \<Rightarrow> 's option) \<Rightarrow> nat list \<Rightarrow> 's \<Rightarrow> 's option" where
  "run_slots body [] s = Some s"
| "run_slots body (j # js) s = do { s' \<leftarrow> body j s; run_slots body js s' }"

lemma run_slots_inv:
  assumes "run_slots body js s = Some s'" and "Q s"
    and "\<And>j s s'. j \<in> set js \<Longrightarrow> Q s \<Longrightarrow> body j s = Some s' \<Longrightarrow> Q s'"
  shows "Q s'"
  using assms
proof (induction js arbitrary: s)
  case (Cons j js)
  then obtain s1 where "body j s = Some s1" "run_slots body js s1 = Some s'"
    by (auto split: bind_splits)
  with Cons show ?case by (metis list.set_intros)
qed simp

lemma filter_upt_split:
  assumes "i \<le> j" "j < n" "P j" "\<And>k. i \<le> k \<Longrightarrow> k < j \<Longrightarrow> \<not> P k"
  shows "filter P [i..<n] = j # filter P [Suc j..<n]"
proof -
  have "[i..<n] = [i..<j] @ j # [Suc j..<n]"
    using assms(1,2) by (metis less_imp_le upt_add_eq_append upt_conv_Cons le_Suc_ex)
  moreover have "filter P [i..<j] = []"
    using assms(4) by (simp add: filter_empty_conv)
  ultimately show ?thesis using assms(3) by simp
qed

text \<open>A body that touches only its own slot is run once on every slot that is live at the start.\<close>

lemma ucoll_for_run:
  assumes "length (u_items (coll s)) = n"
    and local: "\<And>j s s'. j < n \<Longrightarrow> length (u_items (coll s)) = n \<Longrightarrow> body j s = Some s' \<Longrightarrow>
      length (u_items (coll s')) = n \<and> (\<forall>k. k \<noteq> j \<longrightarrow> u_items (coll s') ! k = u_items (coll s) ! k)"
  shows "ucoll_for n coll body (ucoll_find_valid (coll s) i) s =
    run_slots body (filter (\<lambda>j. s_valid (u_items (coll s) ! j)) [i..<n]) s"
  using assms(1)
proof (induction "n - i" arbitrary: i s rule: less_induct)
  case less
  define j where "j = ucoll_find_valid (coll s) i"
  have j: "i \<le> j" "\<And>k. i \<le> k \<Longrightarrow> k < j \<Longrightarrow> \<not> s_valid (u_items (coll s) ! k)"
    by (simp_all add: j_def ucoll_find_valid_ge ucoll_find_valid_skips)
  show ?case
  proof (cases "j < n")
    case False
    then have "filter (\<lambda>j. s_valid (u_items (coll s) ! j)) [i..<n] = []"
      using j by (auto simp: filter_empty_conv)
    then show ?thesis
      using False by (simp add: ucoll_for.simps j_def)
  next
    case True
    then have "s_valid (u_items (coll s) ! j)"
      using ucoll_find_valid_valid [of "coll s" i] less.prems by (simp add: j_def)
    note flt = filter_upt_split [of i j n "\<lambda>j. s_valid (u_items (coll s) ! j)", OF j(1) True this j(2)]
    show ?thesis
    proof (cases "body j s")
      case None
      then show ?thesis using True flt by (simp add: ucoll_for.simps flip: j_def)
    next
      case (Some s')
      have s': "length (u_items (coll s')) = n"
        "filter (\<lambda>k. s_valid (u_items (coll s') ! k)) [Suc j..<n] =
         filter (\<lambda>k. s_valid (u_items (coll s) ! k)) [Suc j..<n]"
        using local [OF True less.prems Some] by (auto intro: filter_cong)
      have "ucoll_for n coll body j s = ucoll_for n coll body (ucoll_find_valid (coll s') (Suc j)) s'"
        using True Some by (simp add: ucoll_for.simps [of n coll body j] ucoll_next_def)
      also have "\<dots> = run_slots body (filter (\<lambda>k. s_valid (u_items (coll s') ! k)) [Suc j..<n]) s'"
        using less.hyps [of "Suc j" s'] True j(1) s'(1) by simp
      finally show ?thesis using flt Some s'(2) by (simp flip: j_def)
    qed
  qed
qed

text \<open>
  The shape of both loops of the runtime: each live value is updated by \<open>f\<close>, and dies and is
  reported if \<open>P\<close> holds of it.
\<close>

definition sweep_slot :: "('a \<Rightarrow> 'a) \<Rightarrow> ('a \<Rightarrow> bool) \<Rightarrow> 'a slot \<Rightarrow> 'a slot" where
  "sweep_slot f P x =
     (if s_valid x then \<lparr>s_valid = \<not> P (f (s_data x)), s_data = f (s_data x)\<rparr> else x)"

definition swept :: "('a \<Rightarrow> 'a) \<Rightarrow> ('a \<Rightarrow> bool) \<Rightarrow> 'a slot list \<Rightarrow> 'a list" where
  "swept f P xs = filter P (map (f \<circ> s_data) (filter s_valid xs))"

lemma run_slots_sweep:
  assumes "length (u_items (coll s)) = n" and "i \<le> n"
    and step: "\<And>j s. j < n \<Longrightarrow> length (u_items (coll s)) = n \<Longrightarrow> s_valid (u_items (coll s) ! j) \<Longrightarrow>
      \<exists>s'. body j s = Some s' \<and> u_items (coll s') = (u_items (coll s))[j := sweep_slot f P (u_items (coll s) ! j)] \<and>
        acc s' = acc s @ (if P (f (s_data (u_items (coll s) ! j))) then [g (f (s_data (u_items (coll s) ! j)))] else [])"
  shows "\<exists>s'. run_slots body (filter (\<lambda>j. s_valid (u_items (coll s) ! j)) [i..<n]) s = Some s' \<and>
    u_items (coll s') = take i (u_items (coll s)) @ map (sweep_slot f P) (drop i (u_items (coll s))) \<and>
    acc s' = acc s @ map g (swept f P (drop i (u_items (coll s))))"
  using assms(1,2)
proof (induction "n - i" arbitrary: i s)
  case 0
  then show ?case by (simp add: swept_def)
next
  case (Suc d)
  let ?xs = "u_items (coll s)"
  have i: "i < n" "d = n - Suc i" using Suc.hyps(2) by simp_all
  then have dr: "drop i ?xs = ?xs ! i # drop (Suc i) ?xs" and up: "[i..<n] = i # [Suc i..<n]"
    using Suc.prems by (simp_all add: Cons_nth_drop_Suc upt_conv_Cons)
  show ?case
  proof (cases "s_valid (?xs ! i)")
    case False
    then show ?thesis
      using Suc.hyps(1) [OF i(2) Suc.prems(1)] i(1) Suc.prems(1)
      by (auto simp: up dr swept_def sweep_slot_def take_Suc_snoc)
  next
    case True
    from step [OF i(1) Suc.prems(1) True] obtain s1 where s1: "body i s = Some s1"
      "u_items (coll s1) = ?xs[i := sweep_slot f P (?xs ! i)]"
      "acc s1 = acc s @ (if P (f (s_data (?xs ! i))) then [g (f (s_data (?xs ! i)))] else [])"
      by blast
    have flt: "filter (\<lambda>j. s_valid (u_items (coll s1) ! j)) [Suc i..<n] = filter (\<lambda>j. s_valid (?xs ! j)) [Suc i..<n]"
      using s1(2) by (intro filter_cong) auto
    have len: "length (u_items (coll s1)) = n" using s1(2) Suc.prems by simp
    obtain s' where s': "run_slots body (filter (\<lambda>j. s_valid (?xs ! j)) [Suc i..<n]) s1 = Some s'"
      "u_items (coll s') = take (Suc i) (u_items (coll s1)) @ map (sweep_slot f P) (drop (Suc i) (u_items (coll s1)))"
      "acc s' = acc s1 @ map g (swept f P (drop (Suc i) (u_items (coll s1))))"
      using Suc.hyps(1) [OF i(2) len] i(1) flt by auto
    then have "run_slots body (filter (\<lambda>j. s_valid (?xs ! j)) [i..<n]) s = Some s'"
      using True s1(1) by (simp add: up)
    then show ?thesis
      using s' s1 i(1) Suc.prems(1) True
      by (auto simp: dr swept_def take_Suc_snoc)
  qed
qed

lemma ucoll_live_sweep:
  "u_items c' = map (sweep_slot f P) (u_items c) \<Longrightarrow>
   ucoll_live c' = filter_mset (\<lambda>x. \<not> P x) (image_mset f (ucoll_live c))"
proof -
  have "image_mset s_data (filter_mset s_valid (mset (map (sweep_slot f P) xs))) =
    filter_mset (\<lambda>x. \<not> P x) (image_mset f (image_mset s_data (filter_mset s_valid (mset xs))))" for xs
    by (induction xs) (auto simp: sweep_slot_def)
  then show "u_items c' = map (sweep_slot f P) (u_items c) \<Longrightarrow> ?thesis"
    by (simp add: ucoll_live_def)
qed

lemma mset_swept: "mset (swept f P (u_items c)) = filter_mset P (image_mset f (ucoll_live c))"
  by (simp add: swept_def ucoll_live_def multiset.map_comp)

lemma ucoll_set_live:
  assumes "i < length (u_items c)" "s_valid (u_items c ! i)"
  shows "ucoll_live (ucoll_set c i v) = add_mset v (ucoll_live c - {#s_data (u_items c ! i)#})"
proof -
  have "u_items c ! i \<in># mset (u_items c)" using assms(1) by simp
  then show ?thesis
    using assms by (simp add: ucoll_set_def ucoll_live_def mset_update image_mset_Diff filter_diff_mset)
qed

lemma ucoll_set_dead:
  "\<not> s_valid (u_items c ! i) \<Longrightarrow> ucoll_live (ucoll_set c i v) = ucoll_live c"
  by (cases "i < length (u_items c)")
    (simp_all add: ucoll_set_def ucoll_live_def mset_update list_update_beyond)

lemma ucoll_set_inv:
  assumes "ucoll_inv c" "i < length (u_items c)"
  shows "ucoll_inv (ucoll_set c i v)"
proof (cases "s_valid (u_items c ! i)")
  case True
  then have "s_data (u_items c ! i) \<in># ucoll_live c" using assms by (auto simp: ucoll_live_iff)
  then have "size (ucoll_live (ucoll_set c i v)) = size (ucoll_live c)"
    using ucoll_set_live [OF assms(2) True] by (simp add: size_Suc_Diff1)
  then show ?thesis
    using assms by (simp add: ucoll_inv_def) (simp add: ucoll_set_def)
next
  case False
  then show ?thesis
    using assms ucoll_set_dead [OF False] by (simp add: ucoll_inv_def) (simp add: ucoll_set_def)
qed

end
