(* ===== verification/CommonArith.thy ===== *)
theory CommonArith
  imports Prelude
begin

text \<open>
  The word arithmetic every runtime component calls: \<open>sanitizer_common.h\<close>
  (\<open>RoundUpTo\<close>, \<open>IsPowerOfTwo\<close>, \<open>MostSignificantSetBitIndex\<close>, \<open>Log2\<close>, the character tests) and
  \<open>tsan_defs.h\<close> (\<open>RoundUp\<close>, \<open>RoundDown\<close>, \<open>GetLsb\<close>). A failing \<open>CHECK\<close> is \<open>None\<close>; a
  \<open>DCHECK\<close> is not executed in the release build that is modelled.
\<close>

section \<open>Definitions\<close>

definition IsPowerOfTwo :: "u64 \<Rightarrow> bool" where
  "IsPowerOfTwo x \<longleftrightarrow> x AND (x - 1) = 0"

text \<open>\<open>63 - clz(x)\<close>: the highest set bit.\<close>

definition MostSignificantSetBitIndex :: "u64 \<Rightarrow> nat option" where
  "MostSignificantSetBitIndex x = (if x = 0 then None else List.find (bit x) (rev [0..<64]))"

text \<open>\<open>ctz(x)\<close>: the lowest set bit.\<close>

definition LeastSignificantSetBitIndex :: "u64 \<Rightarrow> nat option" where
  "LeastSignificantSetBitIndex x = (if x = 0 then None else List.find (bit x) [0..<64])"

definition RoundUpToPowerOfTwo :: "u64 \<Rightarrow> u64 option" where
  "RoundUpToPowerOfTwo x =
     (if x = 0 then None
      else if IsPowerOfTwo x then Some x
      else do { up \<leftarrow> MostSignificantSetBitIndex x;
                if x < push_bit (up + 1) 1 \<and> push_bit up 1 < x then Some (push_bit (up + 1) 1) else None })"

definition RoundUpTo :: "u64 \<Rightarrow> u64 \<Rightarrow> u64 option" where
  "RoundUpTo x boundary =
     (if IsPowerOfTwo boundary then Some ((x + boundary - 1) AND NOT (boundary - 1)) else None)"

definition RoundDownTo :: "u64 \<Rightarrow> u64 \<Rightarrow> u64" where
  "RoundDownTo x boundary = x AND NOT (boundary - 1)"

definition IsAligned :: "u64 \<Rightarrow> u64 \<Rightarrow> bool" where
  "IsAligned a alignment \<longleftrightarrow> a AND (alignment - 1) = 0"

definition Log2 :: "u64 \<Rightarrow> nat option" where
  "Log2 x = (if IsPowerOfTwo x then LeastSignificantSetBitIndex x else None)"

definition RoundUp :: "u64 \<Rightarrow> u64 \<Rightarrow> u64" where
  "RoundUp p align = (p + align - 1) AND NOT (align - 1)"

definition RoundDown :: "u64 \<Rightarrow> u64 \<Rightarrow> u64" where
  "RoundDown p align = p AND NOT (align - 1)"

definition GetLsb :: "u64 \<Rightarrow> nat \<Rightarrow> u64" where
  "GetLsb v bits = v AND (push_bit bits 1 - 1)"

definition IsSpace :: "int \<Rightarrow> bool" where
  "IsSpace c \<longleftrightarrow> c = 32 \<or> c = 10 \<or> c = 9 \<or> c = 12 \<or> c = 13 \<or> c = 11"

definition IsDigit :: "int \<Rightarrow> bool" where
  "IsDigit c \<longleftrightarrow> 48 \<le> c \<and> c \<le> 57"

definition ToLower :: "int \<Rightarrow> int" where
  "ToLower c = (if 65 \<le> c \<and> c \<le> 90 then c + 97 - 65 else c)"

section \<open>Masks as division\<close>

lemma unat_less_64: "unat (x :: u64) < 2 ^ 64"
  using unsigned_less [of x] by simp

lemma unat_2p:
  assumes "n < 64"
  shows "unat (2 ^ n :: u64) = 2 ^ n"
proof -
  have "(2 :: nat) ^ n < 2 ^ 64"
    using assms by (intro power_strict_increasing) simp_all
  then have "take_bit 64 ((2 :: nat) ^ n) = 2 ^ n"
    by (simp only: take_bit_nat_eq_self)
  then have "unat (word_of_nat (2 ^ n) :: u64) = 2 ^ n"
    by (simp only: unsigned_of_nat) simp
  then show ?thesis by simp
qed

lemma push_bit_1: "push_bit n (1 :: u64) = 2 ^ n"
  by (simp add: push_bit_eq_mult)

lemma mask_2p: "(2 :: u64) ^ n - 1 = mask n"
  by (simp add: mask_eq_decr_exp)

lemma unat_and_mask: "unat ((x :: u64) AND mask n) = unat x mod 2 ^ n"
  by (simp add: take_bit_eq_mask [symmetric] unsigned_take_bit_eq take_bit_eq_mod [where 'a = nat])

lemma and_not_mask: "(x :: u64) AND NOT (mask n) = push_bit n (drop_bit n x)"
  by (rule bit_eqI) (auto simp: bit_simps)

lemma unat_and_not_mask: "unat ((x :: u64) AND NOT (mask n)) = unat x div 2 ^ n * 2 ^ n"
proof (cases "n < 64")
  case True
  have d: "unat (drop_bit n x) = unat x div 2 ^ n"
    by (simp add: unat_drop_bit_eq drop_bit_eq_div [where 'a = nat])
  have "unat x div 2 ^ n * 2 ^ n \<le> unat x"
    by (rule div_times_less_eq_dividend)
  then have b: "unat x div 2 ^ n * 2 ^ n < 2 ^ 64"
    using unat_less_64 [of x] by linarith
  have "unat (push_bit n (drop_bit n x)) = (unat x div 2 ^ n * 2 ^ n) mod 2 ^ 64"
    using True by (simp add: push_bit_eq_mult unat_word_ariths d unat_2p)
  then show ?thesis
    using b by (simp add: and_not_mask)
next
  case False
  then have "unat x < 2 ^ n"
    using unat_less_64 [of x] by (meson le_less_trans less_le_trans linorder_not_le one_le_numeral power_increasing)
  then show ?thesis
    using False by (simp add: and_not_mask push_bit_eq_mult)
qed

lemma msb_bit:
  assumes "2 ^ m \<le> unat (x :: u64)" and "unat x < 2 ^ Suc m"
  shows "bit x m"
proof -
  have "unat x div 2 ^ m = 1"
    using assms by (intro div_nat_eqI) simp_all
  then have "bit (unat x) m"
    by (simp add: bit_iff_odd)
  then show ?thesis
    by (simp add: bit_unsigned_iff)
qed

lemma unat_log2:
  assumes "x \<noteq> (0 :: u64)"
  obtains m where "m < 64" "2 ^ m \<le> unat x" "unat x < 2 ^ Suc m"
proof -
  have "0 < unat x" using assms by (simp add: unat_gt_0)
  then obtain m where m: "2 ^ m \<le> unat x" "unat x < 2 ^ (m + 1)"
    using ex_power_ivl1 [of 2 "unat x"] by auto
  then have "(2::nat) ^ m < 2 ^ 64"
    using unat_less_64 [of x] by linarith
  then have "m < 64" using power_less_imp_less_exp [of 2 m 64] by simp
  with m that show ?thesis by simp
qed

lemma IsPowerOfTwo_iff: "IsPowerOfTwo x \<longleftrightarrow> x = 0 \<or> (\<exists>n<64. x = 2 ^ n)"
proof (cases "x = 0")
  case False
  then obtain m where m: "m < 64" "2 ^ m \<le> unat x" "unat x < 2 ^ Suc m"
    by (rule unat_log2)
  show ?thesis
  proof (cases "x = 2 ^ m")
    case True
    have "(2 :: u64) ^ m AND mask m = 0"
      by (rule bit_eqI) (auto simp: bit_simps)
    then show ?thesis
      using True m by (auto simp: IsPowerOfTwo_def mask_2p)
  next
    case neq: False
    then have "unat x \<noteq> 2 ^ m"
      using m unat_2p [of m] by (metis word_unat_eq_iff)
    then have "2 ^ m < unat x" using m by simp
    then have "unat (x - 1) = unat x - 1"
      using False by (simp add: unat_minus_one)
    then have "bit x m" "bit (x - 1) m"
      using m \<open>2 ^ m < unat x\<close> by (auto intro!: msb_bit)
    then have "x AND (x - 1) \<noteq> 0"
      by (metis bit_and_iff bit_0_eq bot_apply bot_bool_def)
    moreover have "x \<noteq> 2 ^ n" if "n < 64" for n
    proof
      assume "x = 2 ^ n"
      then have "(2 :: nat) ^ m \<le> 2 ^ n" "(2 :: nat) ^ n < 2 ^ Suc m"
        using m unat_2p [OF that] by simp_all
      then have "m \<le> n" "n < Suc m"
        using power_le_imp_le_exp [of 2 m n] power_less_imp_less_exp [of 2 n "Suc m"] by auto
      then have "n = m" by simp
      with neq \<open>x = 2 ^ n\<close> show False by simp
    qed
    ultimately show ?thesis
      using False by (auto simp: IsPowerOfTwo_def)
  qed
qed (simp add: IsPowerOfTwo_def)

lemma MostSignificantSetBitIndex_spec:
  assumes "MostSignificantSetBitIndex x = Some m"
  shows "m < 64 \<and> 2 ^ m \<le> unat x \<and> unat x < 2 ^ Suc m"
proof -
  have nz: "x \<noteq> 0" and f: "List.find (bit x) (rev [0..<64]) = Some m"
    using assms by (auto simp: MostSignificantSetBitIndex_def split: if_splits)
  obtain k where k: "k < 64" "2 ^ k \<le> unat x" "unat x < 2 ^ Suc k"
    using nz by (rule unat_log2)
  from f obtain i where i: "i < 64" "bit x (rev [0..<64] ! i)" "m = rev [0..<64] ! i"
      "\<forall>j<i. \<not> bit x (rev [0..<64] ! j)"
    by (auto simp: find_Some_iff)
  then have m: "m = 63 - i" "bit x m" and above: "\<forall>j<i. \<not> bit x (63 - j)"
    by (auto simp: rev_nth)
  have "\<not> i < 63 - k \<Longrightarrow> m \<le> k" using m k by simp
  moreover have "k \<le> m"
  proof (rule ccontr)
    assume "\<not> k \<le> m"
    then have "63 - k < i" using m i(1) k(1) by simp
    then have "\<not> bit x (63 - (63 - k))" using above by blast
    with msb_bit [OF k(2,3)] k(1) show False by simp
  qed
  moreover have "m \<le> k"
  proof (rule ccontr)
    assume "\<not> m \<le> k"
    then have "unat x < 2 ^ m"
      using k(3) by (meson Suc_leI less_le_trans linorder_not_le one_le_numeral power_increasing)
    then have "\<not> bit (unat x) m"
      by (simp add: bit_iff_odd)
    with m show False by (simp add: bit_unsigned_iff)
  qed
  ultimately show ?thesis using k by simp
qed

section \<open>Rounding\<close>

text \<open>Rounding down always gives the greatest multiple not above; rounding up the least not below,
  provided the sum does not wrap.\<close>

lemma RoundDown_2p: "unat (RoundDown x (2 ^ n)) = unat x div 2 ^ n * 2 ^ n"
  by (simp add: RoundDown_def mask_2p unat_and_not_mask)

lemma RoundDownTo_2p: "unat (RoundDownTo x (2 ^ n)) = unat x div 2 ^ n * 2 ^ n"
  by (simp add: RoundDownTo_def mask_2p unat_and_not_mask)

lemma RoundDownTo_le: "RoundDownTo x (2 ^ n) \<le> x"
  by (simp add: word_le_nat_alt RoundDownTo_2p)

lemma unat_add_mask:
  assumes "n < 64" and "unat x + 2 ^ n \<le> 2 ^ 64"
  shows "unat ((x :: u64) + 2 ^ n - 1) = unat x + 2 ^ n - 1"
proof -
  have m: "unat (mask n :: u64) = 2 ^ n - 1"
    using assms(1) by (simp add: mask_2p [symmetric] unat_minus_one unat_2p)
  have p: "(0::nat) < 2 ^ n" by simp
  have "unat x + unat (mask n :: u64) < 2 ^ 64"
    unfolding m using assms p by linarith
  then have "unat (x + mask n) = unat x + unat (mask n :: u64)"
    by (simp add: unat_word_ariths)
  moreover have e: "x + 2 ^ n - 1 = x + mask n"
    by (simp add: mask_2p [symmetric])
  ultimately show ?thesis
    unfolding e using m p by linarith
qed

lemma RoundUpTo_2p:
  assumes "n < 64" and "unat x + 2 ^ n \<le> 2 ^ 64"
  shows "\<exists>r. RoundUpTo x (2 ^ n) = Some r \<and> unat r = (unat x + 2 ^ n - 1) div 2 ^ n * 2 ^ n"
  using assms
  by (auto simp: RoundUpTo_def IsPowerOfTwo_iff mask_2p unat_and_not_mask unat_add_mask)

lemma RoundUpTo_bounds:
  assumes "n < 64" and "unat x + 2 ^ n \<le> 2 ^ 64" and "RoundUpTo x (2 ^ n) = Some r"
  shows "unat x \<le> unat r" and "unat r < unat x + 2 ^ n" and "2 ^ n dvd unat r"
proof -
  have r: "unat r = (unat x + 2 ^ n - 1) div 2 ^ n * 2 ^ n"
    using RoundUpTo_2p [OF assms(1,2)] assms(3) by auto
  then show "2 ^ n dvd unat r" by simp
  have p: "(0::nat) < 2 ^ n" by simp
  have "unat r + (unat x + 2 ^ n - 1) mod 2 ^ n = unat x + 2 ^ n - 1"
    unfolding r by (rule div_mult_mod_eq)
  moreover have "(unat x + 2 ^ n - 1) mod 2 ^ n < 2 ^ n" by simp
  ultimately show "unat x \<le> unat r" "unat r < unat x + 2 ^ n"
    using p by linarith+
qed

lemma aligned_room:
  assumes "n < 64" and "2 ^ n dvd unat (x :: u64)"
  shows "unat x + 2 ^ n \<le> 2 ^ 64"
proof -
  obtain k where k: "unat x = 2 ^ n * k" using assms(2) by (auto elim: dvdE)
  have p: "(2::nat) ^ 64 = 2 ^ n * 2 ^ (64 - n)"
    using assms(1) by (simp flip: power_add)
  have "2 ^ n * k < 2 ^ n * 2 ^ (64 - n)"
    using unat_less_64 [of x] k p by simp
  then have "Suc k \<le> 2 ^ (64 - n)" by simp
  then have "2 ^ n * Suc k \<le> 2 ^ n * 2 ^ (64 - n)" by (rule mult_le_mono2)
  then show ?thesis using k p by simp
qed

lemma RoundUpTo_aligned:
  assumes "n < 64" and "2 ^ n dvd unat x"
  shows "RoundUpTo x (2 ^ n) = Some x"
proof -
  obtain r where r: "RoundUpTo x (2 ^ n) = Some r" "unat r = (unat x + 2 ^ n - 1) div 2 ^ n * 2 ^ n"
    using RoundUpTo_2p [OF assms(1) aligned_room [OF assms]] by auto
  obtain k where k: "unat x = k * 2 ^ n" using assms(2) by (auto elim: dvdE)
  have p: "(0::nat) < 2 ^ n" by simp
  have "k * 2 ^ n + 2 ^ n - 1 = 2 ^ n - 1 + k * 2 ^ n" using p by linarith
  moreover have "(2 ^ n - 1 + k * 2 ^ n) div 2 ^ n = k + (2 ^ n - 1) div 2 ^ n"
    using p by (intro div_mult_self1) simp
  ultimately have "unat r = unat x"
    unfolding r(2) k using p by simp
  then show ?thesis using r(1) by (simp add: word_unat_eq_iff)
qed

lemma RoundDownTo_aligned: "2 ^ n dvd unat x \<Longrightarrow> RoundDownTo x (2 ^ n) = x"
  by (simp add: word_unat_eq_iff RoundDownTo_2p)

end
