(* ===== verification/DfsanLabels.thy ===== *)
theory DfsanLabels
  imports CommonArith
begin

text \<open>
  The label store of the data-flow runtime, \<open>dfsan/dfsan.cpp\<close>, on x86-64: label creation, the
  memoised union of two labels, the shadow memory that holds one 16-bit label per application
  byte, and the label queries. The persistent-memory runtime uses it to carry the identity of a
  read from load to store.
\<close>

section \<open>State\<close>

record dfsan_label_info =
  li_l1 :: u16
  li_l2 :: u16
  li_desc :: "string option"
  li_userdata :: u64

text \<open>
  \<open>last_label\<close> is \<open>__dfsan_last_label\<close>, \<open>label_info\<close> is \<open>__dfsan_label_info\<close>, \<open>union_table\<close> the table
  at \<open>UnionTableAddr()\<close>, \<open>shadow_mem\<close> the label cells by their byte address (a cell has two
  bytes).
\<close>

record dfsan =
  last_label :: u16
  label_info :: "u16 \<Rightarrow> dfsan_label_info"
  union_table :: "u16 \<Rightarrow> u16 \<Rightarrow> u16"
  shadow_mem :: "u64 \<Rightarrow> u16"

definition dfsan_zero :: dfsan where
  "dfsan_zero = \<lparr>last_label = 0,
     label_info = (\<lambda>_. \<lparr>li_l1 = 0, li_l2 = 0, li_desc = None, li_userdata = 0\<rparr>),
     union_table = (\<lambda>_ _. 0), shadow_mem = (\<lambda>_. 0)\<rparr>"

text \<open>How an operation can fail to return: \<open>Die()\<close>, a failed \<open>CHECK\<close>, or the wait for another
  thread that is initialising the table entry.\<close>

datatype dfsan_stop = OutOfLabels | CheckFailed | EntryBusy

text \<open>\<open>(dfsan_label)-1\<close>\<close>

definition kInitializingLabel :: u16 where
  "kInitializingLabel = 0xFFFF"

section \<open>Labels\<close>

definition fresh_label :: "dfsan \<Rightarrow> dfsan_stop + u16 \<times> dfsan" where
  "fresh_label s =
     (let label = last_label s + 1 in
      if label = kInitializingLabel then Inl OutOfLabels else Inr (label, s\<lparr>last_label := label\<rparr>))"

definition set_entry :: "u16 \<Rightarrow> u16 \<Rightarrow> u16 \<Rightarrow> dfsan \<Rightarrow> dfsan" where
  "set_entry l1 l2 v s = s\<lparr>union_table := (union_table s)(l1 := (union_table s l1)(l2 := v))\<rparr>"

text \<open>
  The table part of \<open>__dfsan_union\<close>, after the two labels are put in order: the entry is claimed with
  a compare-exchange, and filled with the subsuming or with a new label.
\<close>

definition union_entry :: "u16 \<Rightarrow> u16 \<Rightarrow> dfsan \<Rightarrow> dfsan_stop + u16 \<times> dfsan" where
  "union_entry l1 l2 s =
     (let entry = union_table s l1 l2
      in if entry = 0 then
           (let s0 = set_entry l1 l2 kInitializingLabel s in
            if li_l1 (label_info s0 l2) = l1 \<or> li_l2 (label_info s0 l2) = l1
            then Inr (l2, set_entry l1 l2 l2 s0)
            else (case fresh_label s0 of
                    Inl e \<Rightarrow> Inl e
                  | Inr (label, s1) \<Rightarrow>
                      (let s2 = s1\<lparr>label_info := (label_info s1)(label :=
                               (label_info s1 label)\<lparr>li_l1 := l1, li_l2 := l2\<rparr>)\<rparr>
                       in Inr (label, set_entry l1 l2 label s2))))
         else if entry = kInitializingLabel then Inl EntryBusy
         else Inr (entry, s))"

text \<open>\<open>__dfsan_union\<close>, for two labels that are not equal.\<close>

definition dfsan_union_neq :: "u16 \<Rightarrow> u16 \<Rightarrow> dfsan \<Rightarrow> dfsan_stop + u16 \<times> dfsan" where
  "dfsan_union_neq l1 l2 s =
     (if l1 = 0 then Inr (l2, s)
      else if l2 = 0 then Inr (l1, s)
      else if last_label s = 0 then Inr (l1 OR l2, s)
      else if l1 > l2 then union_entry l2 l1 s
      else union_entry l1 l2 s)"

definition dfsan_union :: "u16 \<Rightarrow> u16 \<Rightarrow> dfsan \<Rightarrow> dfsan_stop + u16 \<times> dfsan" where
  "dfsan_union l1 l2 s = (if l1 = l2 then Inr (l1, s) else dfsan_union_neq l1 l2 s)"

definition dfsan_create_label :: "string option \<Rightarrow> u64 \<Rightarrow> dfsan \<Rightarrow> dfsan_stop + u16 \<times> dfsan" where
  "dfsan_create_label desc userdata s =
     (case fresh_label s of
        Inl e \<Rightarrow> Inl e
      | Inr (label, s1) \<Rightarrow>
          Inr (label, s1\<lparr>label_info := (label_info s1)(label :=
             \<lparr>li_l1 = 0, li_l2 = 0, li_desc = desc, li_userdata = userdata\<rparr>)\<rparr>))"

text \<open>\<open>dfsan_has_label\<close>: \<open>None\<close> is a recursion that does not return.\<close>

partial_function (option) dfsan_has_label :: "dfsan \<Rightarrow> u16 \<Rightarrow> u16 \<Rightarrow> bool option" where
  "dfsan_has_label s label elem =
     (if label = elem then Some True
      else if li_l1 (label_info s label) \<noteq> 0
      then do { b \<leftarrow> dfsan_has_label s (li_l1 (label_info s label)) elem;
                if b then Some True else dfsan_has_label s (li_l2 (label_info s label)) elem }
      else Some False)"

text \<open>\<open>dfsan_has_label_with_desc\<close>: \<open>None\<close> is also the \<open>strcmp\<close> with a null description.\<close>

partial_function (option) dfsan_has_label_with_desc :: "dfsan \<Rightarrow> u16 \<Rightarrow> string \<Rightarrow> bool option" where
  "dfsan_has_label_with_desc s label desc =
     (if li_l1 (label_info s label) \<noteq> 0
      then do { b \<leftarrow> dfsan_has_label_with_desc s (li_l1 (label_info s label)) desc;
                if b then Some True
                else dfsan_has_label_with_desc s (li_l2 (label_info s label)) desc }
      else do { d \<leftarrow> li_desc (label_info s label); Some (d = desc) })"

definition dfsan_get_label_count :: "dfsan \<Rightarrow> u64" where
  "dfsan_get_label_count s = ucast (last_label s)"

section \<open>Shadow memory\<close>

text \<open>x86-64: \<open>kShadowMask = ~0x700000000000\<close>, and a label takes two bytes.\<close>

definition kShadowMask :: u64 where
  "kShadowMask = NOT 0x700000000000"

definition shadow_for :: "u64 \<Rightarrow> u64" where
  "shadow_for p = push_bit 1 (p AND kShadowMask)"

fun WriteShadowIfDifferent :: "u16 \<Rightarrow> u64 \<Rightarrow> nat \<Rightarrow> (u64 \<Rightarrow> u16) \<Rightarrow> u64 \<Rightarrow> u16" where
  "WriteShadowIfDifferent label labelp 0 m = m"
| "WriteShadowIfDifferent label labelp (Suc n) m =
     WriteShadowIfDifferent label (labelp + 2) n
       (if label = m labelp then m else m(labelp := label))"

text \<open>
  \<open>ReleaseMemoryPagesToOS\<close> (\<open>sanitizer_posix_libcdep.cpp\<close>): the pages inside the range are given
  back with \<open>madvise(MADV_DONTNEED)\<close>; private anonymous pages then read as zero.
\<close>

definition ReleaseMemoryPagesToOS :: "u64 \<Rightarrow> u64 \<Rightarrow> u64 \<Rightarrow> (u64 \<Rightarrow> u16) \<Rightarrow> (u64 \<Rightarrow> u16) option" where
  "ReleaseMemoryPagesToOS page_size beg end m =
     do { beg_aligned \<leftarrow> RoundUpTo beg page_size;
          let end_aligned = RoundDownTo end page_size;
          Some (if beg_aligned < end_aligned
                then (\<lambda>a. if beg_aligned \<le> a \<and> a < end_aligned then 0 else m a) else m) }"

definition kNumPagesThreshold :: u64 where
  "kNumPagesThreshold = 8"

text \<open>\<open>__dfsan_set_label\<close>; \<open>page_size\<close> is \<open>GetPageSizeCached()\<close>.\<close>

definition dfsan_set_label :: "u64 \<Rightarrow> u16 \<Rightarrow> u64 \<Rightarrow> u64 \<Rightarrow> dfsan \<Rightarrow> dfsan_stop + dfsan" where
  "dfsan_set_label page_size label addr sz s =
     (let beg_shadow_addr = shadow_for addr; m = shadow_mem s in
      if label \<noteq> 0
      then Inr (s\<lparr>shadow_mem := WriteShadowIfDifferent label beg_shadow_addr (unat sz) m\<rparr>)
      else
        (let end_shadow_addr = shadow_for (addr + sz);
             end_aligned = RoundDownTo end_shadow_addr page_size
         in case RoundUpTo beg_shadow_addr page_size of
              None \<Rightarrow> Inl CheckFailed
            | Some beg_aligned \<Rightarrow>
                if beg_aligned + kNumPagesThreshold * page_size \<ge> end_aligned
                then Inr (s\<lparr>shadow_mem := WriteShadowIfDifferent label beg_shadow_addr (unat sz) m\<rparr>)
                else
                  (let m1 = WriteShadowIfDifferent label beg_shadow_addr
                              (unat (beg_aligned - beg_shadow_addr)) m
                   in case ReleaseMemoryPagesToOS page_size beg_aligned end_aligned m1 of
                        None \<Rightarrow> Inl CheckFailed
                      | Some m2 \<Rightarrow>
                          Inr (s\<lparr>shadow_mem := WriteShadowIfDifferent label end_aligned
                                 (unat (end_shadow_addr - end_aligned)) m2\<rparr>))))"

text \<open>\<open>dfsan_add_label\<close>: the loop over the cells of the range.\<close>

fun add_label_loop :: "u16 \<Rightarrow> u64 \<Rightarrow> nat \<Rightarrow> dfsan \<Rightarrow> dfsan_stop + dfsan" where
  "add_label_loop label labelp 0 s = Inr s"
| "add_label_loop label labelp (Suc n) s =
     (if shadow_mem s labelp \<noteq> label
      then (case dfsan_union_neq (shadow_mem s labelp) label s of
              Inl e \<Rightarrow> Inl e
            | Inr (l, s') \<Rightarrow>
                add_label_loop label (labelp + 2) n
                  (s'\<lparr>shadow_mem := (shadow_mem s')(labelp := l)\<rparr>))
      else add_label_loop label (labelp + 2) n s)"

definition dfsan_add_label :: "u16 \<Rightarrow> u64 \<Rightarrow> u64 \<Rightarrow> dfsan \<Rightarrow> dfsan_stop + dfsan" where
  "dfsan_add_label label addr sz s = add_label_loop label (shadow_for addr) (unat sz) s"

text \<open>\<open>__dfsan_union_load\<close>: \<open>i\<close> runs from 1 until it equals \<open>n\<close>.\<close>

fun union_load_loop :: "u16 \<Rightarrow> u64 \<Rightarrow> nat \<Rightarrow> dfsan \<Rightarrow> dfsan_stop + u16 \<times> dfsan" where
  "union_load_loop label ls 0 s = Inr (label, s)"
| "union_load_loop label ls (Suc k) s =
     (let next_label = shadow_mem s ls in
      if label \<noteq> next_label
      then (case dfsan_union_neq label next_label s of
              Inl e \<Rightarrow> Inl e
            | Inr (l, s') \<Rightarrow> union_load_loop l (ls + 2) k s')
      else union_load_loop label (ls + 2) k s)"

definition dfsan_union_load :: "u64 \<Rightarrow> u64 \<Rightarrow> dfsan \<Rightarrow> dfsan_stop + u16 \<times> dfsan" where
  "dfsan_union_load ls n s = union_load_loop (shadow_mem s ls) (ls + 2) (unat (n - 1)) s"

definition dfsan_read_label :: "u64 \<Rightarrow> u64 \<Rightarrow> dfsan \<Rightarrow> dfsan_stop + u16 \<times> dfsan" where
  "dfsan_read_label addr sz s =
     (if sz = 0 then Inr (0, s) else dfsan_union_load (shadow_for addr) sz s)"


section \<open>What a label stands for\<close>

text \<open>
  \<open>sub_label s l e\<close>: label \<open>l\<close> was built from label \<open>e\<close>. The base labels of \<open>l\<close> are those below
  it that no union made.
\<close>

inductive sub_label :: "dfsan \<Rightarrow> u16 \<Rightarrow> u16 \<Rightarrow> bool" for s where
  sub_self: "sub_label s l l"
| sub_left: "li_l1 (label_info s l) \<noteq> 0 \<Longrightarrow> sub_label s (li_l1 (label_info s l)) e \<Longrightarrow> sub_label s l e"
| sub_right: "li_l1 (label_info s l) \<noteq> 0 \<Longrightarrow> sub_label s (li_l2 (label_info s l)) e \<Longrightarrow> sub_label s l e"

inductive_simps sub_label_unfold: "sub_label s l e"

definition base_labels :: "dfsan \<Rightarrow> u16 \<Rightarrow> u16 set" where
  "base_labels s l = {e. sub_label s l e \<and> li_l1 (label_info s e) = 0 \<and> e \<noteq> 0}"

text \<open>
  The invariant: a label is made from two smaller nonzero ones or from none, only allocated
  labels are made, and a table entry stands for exactly the labels it was asked to join.
\<close>

definition labels_acyclic :: "dfsan \<Rightarrow> bool" where
  "labels_acyclic s \<longleftrightarrow>
     (\<forall>l. if li_l1 (label_info s l) = 0 then li_l2 (label_info s l) = 0
          else li_l1 (label_info s l) < l \<and> li_l2 (label_info s l) < l \<and> li_l2 (label_info s l) \<noteq> 0 \<and> l \<le> last_label s)"

definition table_sound :: "dfsan \<Rightarrow> bool" where
  "table_sound s \<longleftrightarrow>
     (\<forall>a b. union_table s a b \<noteq> 0 \<longrightarrow>
        a \<le> last_label s \<and> b \<le> last_label s \<and> union_table s a b \<le> last_label s \<and>
        (\<forall>e. sub_label s (union_table s a b) e \<longleftrightarrow>
              e = union_table s a b \<or> sub_label s a e \<or> sub_label s b e) \<and>
        (union_table s a b = a \<or> union_table s a b = b \<or> li_l1 (label_info s (union_table s a b)) \<noteq> 0))"

definition labels_wf :: "dfsan \<Rightarrow> bool" where
  "labels_wf s \<longleftrightarrow> labels_acyclic s \<and> table_sound s \<and> last_label s < kInitializingLabel"

lemma labels_wf_zero: "labels_wf dfsan_zero"
  by (simp add: labels_wf_def labels_acyclic_def table_sound_def dfsan_zero_def kInitializingLabel_def)

lemma labels_acyclicD:
  assumes "labels_acyclic s" and "li_l1 (label_info s l) \<noteq> 0"
  shows "li_l1 (label_info s l) < l" "li_l2 (label_info s l) < l" "li_l2 (label_info s l) \<noteq> 0"
    "l \<le> last_label s"
  using assms by (auto simp: labels_acyclic_def)

lemma labels_acyclic_l2: "labels_acyclic s \<Longrightarrow> li_l2 (label_info s l) \<noteq> 0 \<Longrightarrow> li_l1 (label_info s l) \<noteq> 0"
  by (auto simp: labels_acyclic_def)

lemma sub_label_le: "labels_acyclic s \<Longrightarrow> sub_label s l e \<Longrightarrow> e \<le> l"
  by (rotate_tac, induction rule: sub_label.induct)
    (auto dest: labels_acyclicD intro: order.trans less_imp_le)

lemma label_induct [consumes 1, case_names less]:
  assumes "labels_acyclic s"
    and "\<And>l. (li_l1 (label_info s l) \<noteq> 0 \<Longrightarrow> P (li_l1 (label_info s l))) \<Longrightarrow>
              (li_l1 (label_info s l) \<noteq> 0 \<Longrightarrow> P (li_l2 (label_info s l))) \<Longrightarrow> P l"
  shows "P l"
proof (induction l rule: measure_induct_rule [where f = unat])
  case (less l)
  show ?case
  proof (rule assms(2))
    assume "li_l1 (label_info s l) \<noteq> 0"
    with assms(1) show "P (li_l1 (label_info s l))" and "P (li_l2 (label_info s l))"
      by (auto intro!: less dest: labels_acyclicD simp flip: word_less_nat_alt)
  qed
qed

text \<open>The query returns, and answers membership.\<close>

lemma dfsan_has_label_sub:
  assumes "labels_acyclic s"
  shows "dfsan_has_label s l e = Some (sub_label s l e)"
  using assms
proof (induction l rule: label_induct)
  case (less l)
  show ?case
    by (subst dfsan_has_label.simps, subst sub_label_unfold) (auto simp: less)
qed


subsection \<open>Growing the store\<close>

definition labels_extend :: "dfsan \<Rightarrow> dfsan \<Rightarrow> bool" where
  "labels_extend s s' \<longleftrightarrow>
     last_label s \<le> last_label s' \<and> (\<forall>l \<le> last_label s. label_info s' l = label_info s l)"

lemma labels_extend_refl [simp]: "labels_extend s s"
  by (simp add: labels_extend_def)

lemma labels_extend_trans: "labels_extend s s' \<Longrightarrow> labels_extend s' s'' \<Longrightarrow> labels_extend s s''"
  by (auto simp: labels_extend_def)

lemma labels_extend_cong:
  "last_label s' = last_label s \<Longrightarrow> label_info s' = label_info s \<Longrightarrow> labels_extend s s'"
  by (simp add: labels_extend_def)

lemma set_entry_sel [simp]:
  "last_label (set_entry a b v s) = last_label s"
  "label_info (set_entry a b v s) = label_info s"
  "shadow_mem (set_entry a b v s) = shadow_mem s"
  "union_table (set_entry a b v s) x y = (if x = a \<and> y = b then v else union_table s x y)"
  by (auto simp: set_entry_def)

lemma sub_label_extend:
  assumes "labels_acyclic s" and "labels_extend s s'" and "l \<le> last_label s"
  shows "sub_label s' l e \<longleftrightarrow> sub_label s l e"
  using assms(1,3)
proof (induction l rule: label_induct)
  case (less l)
  have same: "label_info s' l = label_info s l"
    using assms(2) less.prems by (simp add: labels_extend_def)
  have "li_l1 (label_info s l) \<le> last_label s \<and> li_l2 (label_info s l) \<le> last_label s"
    if "li_l1 (label_info s l) \<noteq> 0"
    using labels_acyclicD [OF assms(1) that] less.prems by (meson less_imp_le order.trans)
  then show ?case
    by (subst (1 2) sub_label_unfold) (auto simp: same less.IH)
qed

lemma sub_label_cong: "label_info s' = label_info s \<Longrightarrow> sub_label s' l e \<longleftrightarrow> sub_label s l e"
proof -
  have "sub_label t l e" if "sub_label s l e" "label_info t = label_info s" for s t
    using that by (induction rule: sub_label.induct) (auto intro: sub_label.intros)
  then show "label_info s' = label_info s \<Longrightarrow> ?thesis" by metis
qed

lemma base_labels_extend:
  assumes "labels_acyclic s" and "labels_extend s s'" and "l \<le> last_label s"
  shows "base_labels s' l = base_labels s l"
proof -
  have "label_info s' e = label_info s e" if "sub_label s l e" for e
    using sub_label_le [OF assms(1) that] assms(2,3) by (auto simp: labels_extend_def)
  then show ?thesis
    by (auto simp: base_labels_def sub_label_extend [OF assms])
qed

lemma base_labels_cong: "label_info s' = label_info s \<Longrightarrow> base_labels s' l = base_labels s l"
  using sub_label_cong [of s' s] by (simp add: base_labels_def)

lemma base_labels_0:
  assumes "labels_acyclic s"
  shows "base_labels s 0 = {}"
proof -
  have "e = 0" if "sub_label s 0 e" for e
    using sub_label_le [OF assms that] by simp
  then show ?thesis by (auto simp: base_labels_def)
qed

lemma succ_label:
  assumes "x < kInitializingLabel"
  shows "x < x + 1" and "y \<le> x \<Longrightarrow> y < x + 1" and "y < x + 1 \<Longrightarrow> y \<le> x" and "x + 1 \<le> kInitializingLabel"
    and "x + 1 \<noteq> 0"
proof -
  have x: "unat x < 65535"
    using assms by (simp add: kInitializingLabel_def word_less_nat_alt)
  then have s: "unat (x + 1) = Suc (unat x)"
    by (simp add: unat_word_ariths)
  show "x < x + 1" "y \<le> x \<Longrightarrow> y < x + 1" "y < x + 1 \<Longrightarrow> y \<le> x"
    by (simp_all add: word_less_nat_alt word_le_nat_alt s)
  show "x + 1 \<le> kInitializingLabel"
    using x by (simp add: kInitializingLabel_def word_le_nat_alt s)
  show "x + 1 \<noteq> 0"
    using s by (metis nat.distinct(1) unat_0)
qed

lemma labels_wf_cong:
  assumes "last_label s' = last_label s" "label_info s' = label_info s" "union_table s' = union_table s"
  shows "labels_wf s' = labels_wf s"
proof -
  have sub: "sub_label s' = sub_label s"
    by (intro ext sub_label_cong assms)
  show ?thesis
    unfolding labels_wf_def labels_acyclic_def table_sound_def assms sub ..
qed

text \<open>The three ways a union gives its label.\<close>

lemma union_subsumed:
  assumes wf: "labels_wf s" and nz: "a \<noteq> 0"
    and ab: "a \<le> last_label s" "b \<le> last_label s"
    and child: "li_l1 (label_info s b) = a \<or> li_l2 (label_info s b) = a"
    and info: "label_info s' = label_info s" "last_label s' = last_label s"
    and tab: "\<And>x y. union_table s' x y = (if x = a \<and> y = b then b else union_table s x y)"
  shows "labels_wf s'" and "base_labels s' b = base_labels s a \<union> base_labels s b"
proof -
  have ac: "labels_acyclic s" using wf by (simp add: labels_wf_def)
  have l1: "li_l1 (label_info s b) \<noteq> 0"
    using child nz labels_acyclic_l2 [OF ac] by auto
  have sub: "sub_label s b e" if "sub_label s a e" for e
    using that child l1 by (auto intro: sub_label.intros)
  have cong: "sub_label s' = sub_label s"
    using sub_label_cong [OF info(1)] by blast
  have "table_sound s'"
    using wf ab sub by (auto simp: labels_wf_def table_sound_def tab cong info intro: sub_self)
  then show "labels_wf s'"
    using wf by (simp add: labels_wf_def labels_acyclic_def info)
  show "base_labels s' b = base_labels s a \<union> base_labels s b"
    using sub by (auto simp: base_labels_def cong info)
qed

lemma union_fresh:
  assumes wf: "labels_wf s" and nz: "a \<noteq> 0" "b \<noteq> 0"
    and ab: "a \<le> last_label s" "b \<le> last_label s"
    and l: "l = last_label s + 1" "l \<noteq> kInitializingLabel"
    and last: "last_label s' = l"
    and info: "\<And>x. li_l1 (label_info s' x) = (if x = l then a else li_l1 (label_info s x))"
      "\<And>x. li_l2 (label_info s' x) = (if x = l then b else li_l2 (label_info s x))"
      "\<And>x. x \<noteq> l \<Longrightarrow> label_info s' x = label_info s x"
    and tab: "\<And>x y. union_table s' x y = (if x = a \<and> y = b then l else union_table s x y)"
  shows "labels_wf s'" and "labels_extend s s'"
    and "base_labels s' l = base_labels s a \<union> base_labels s b"
proof -
  have ac: "labels_acyclic s" and lt: "last_label s < kInitializingLabel"
    using wf by (auto simp: labels_wf_def)
  note sl = succ_label [OF lt]
  have neq: "x \<noteq> l" if "x \<le> last_label s" for x
    using sl(2) [OF that] l by auto
  show ext: "labels_extend s s'"
    using sl(1) neq info(3) by (simp add: labels_extend_def last l(1) less_imp_le)
  have ac': "labels_acyclic s'"
    unfolding labels_acyclic_def
  proof
    fix x
    show "if li_l1 (label_info s' x) = 0 then li_l2 (label_info s' x) = 0
      else li_l1 (label_info s' x) < x \<and> li_l2 (label_info s' x) < x \<and> li_l2 (label_info s' x) \<noteq> 0 \<and> x \<le> last_label s'"
    proof (cases "x = l")
      case True
      then show ?thesis using nz ab sl by (simp add: info last l)
    next
      case False
      then show ?thesis
        using ac labels_acyclicD [OF ac, of x] sl(2) [of x]
        by (auto simp: info last l labels_acyclic_def less_imp_le)
    qed
  qed
  have old: "sub_label s' x e \<longleftrightarrow> sub_label s x e" if "x \<le> last_label s" for x e
    using sub_label_extend [OF ac ext that] .
  have new: "sub_label s' l e \<longleftrightarrow> e = l \<or> sub_label s a e \<or> sub_label s b e" for e
    by (subst sub_label_unfold) (use nz ab in \<open>auto simp: info old\<close>)
  have "table_sound s'"
    unfolding table_sound_def
  proof (intro allI impI)
    fix x y assume nz': "union_table s' x y \<noteq> 0"
    show "x \<le> last_label s' \<and> y \<le> last_label s' \<and> union_table s' x y \<le> last_label s' \<and>
      (\<forall>e. sub_label s' (union_table s' x y) e \<longleftrightarrow>
         e = union_table s' x y \<or> sub_label s' x e \<or> sub_label s' y e) \<and>
      (union_table s' x y = x \<or> union_table s' x y = y \<or> li_l1 (label_info s' (union_table s' x y)) \<noteq> 0)"
    proof (cases "x = a \<and> y = b")
      case True
      then show ?thesis
        using ab sl(2) nz by (auto simp: tab last l(1) old info(1) less_imp_le) (simp_all add: new flip: l(1))
    next
      case False
      then have t: "union_table s' x y = union_table s x y" by (auto simp: tab)
      have "x \<le> last_label s \<and> y \<le> last_label s \<and> union_table s x y \<le> last_label s \<and>
        (\<forall>e. sub_label s (union_table s x y) e \<longleftrightarrow>
          e = union_table s x y \<or> sub_label s x e \<or> sub_label s y e) \<and>
        (union_table s x y = x \<or> union_table s x y = y \<or> li_l1 (label_info s (union_table s x y)) \<noteq> 0)"
        using wf nz' by (simp add: labels_wf_def table_sound_def t)
      then show ?thesis
        using sl(2) nz by (auto simp: t old last l(1) info(1) less_imp_le)
    qed
  qed
  then show "labels_wf s'"
    using ac' sl(4) l by (auto simp: labels_wf_def last)
  have "li_l1 (label_info s' e) = li_l1 (label_info s e)" if "sub_label s x e" "x \<le> last_label s" for x e
    using sub_label_le [OF ac that(1)] that(2) sl(1) by (auto simp: info l(1))
  moreover have "\<not> sub_label s x l" if "x \<le> last_label s" for x
    using sub_label_le [OF ac, of x l] that neq by (auto dest: order.trans)
  ultimately show "base_labels s' l = base_labels s a \<union> base_labels s b"
    using ab nz by (auto simp: base_labels_def new info(1) split: if_splits)
qed


lemma union_entry_cases:
  assumes "union_entry x y s = Inr (l, s')"
  obtains (memo) "union_table s x y = l" "l \<noteq> 0" "s' = s"
    | (subsumed) "li_l1 (label_info s y) = x \<or> li_l2 (label_info s y) = x"
        "l = y" "s' = set_entry x y y (set_entry x y kInitializingLabel s)"
    | (fresh) s1 where "fresh_label (set_entry x y kInitializingLabel s) = Inr (l, s1)"
        "s' = set_entry x y l (s1\<lparr>label_info := (label_info s1)(l :=
                            (label_info s1 l)\<lparr>li_l1 := x, li_l2 := y\<rparr>)\<rparr>)"
proof (cases "union_table s x y = 0")
  case False
  with assms show ?thesis
    by (intro memo) (auto simp: union_entry_def Let_def split: if_splits)
next
  case zero: True
  show ?thesis
  proof (cases "li_l1 (label_info s y) = x \<or> li_l2 (label_info s y) = x")
    case True
    with assms zero show ?thesis
      by (intro subsumed) (auto simp: union_entry_def Let_def)
  next
    case False
    show ?thesis
    proof (cases "fresh_label (set_entry x y kInitializingLabel s)")
      case (Inl e)
      with assms zero False show ?thesis by (simp add: union_entry_def)
    next
      case (Inr p)
      obtain label s1 where p: "p = (label, s1)" by (cases p)
      with assms zero False Inr show ?thesis
        by (intro fresh) (auto simp: union_entry_def Let_def)
    qed
  qed
qed

lemma union_entry_spec:
  assumes wf: "labels_wf s" and xy: "x \<noteq> 0" "y \<noteq> 0" "x \<le> last_label s" "y \<le> last_label s"
    and u: "union_entry x y s = Inr (l, s')"
  shows "labels_wf s' \<and> labels_extend s s' \<and> l \<le> last_label s' \<and>
    base_labels s' l = base_labels s x \<union> base_labels s y \<and> shadow_mem s' = shadow_mem s"
proof -
  show ?thesis
    using u
  proof (cases rule: union_entry_cases)
    case memo
    then have le: "l \<le> last_label s"
      and iff: "\<And>e. sub_label s l e \<longleftrightarrow> e = l \<or> sub_label s x e \<or> sub_label s y e"
      and l: "l = x \<or> l = y \<or> li_l1 (label_info s l) \<noteq> 0"
      using wf unfolding labels_wf_def table_sound_def by blast+
    have "e \<in> base_labels s l \<longleftrightarrow> e \<in> base_labels s x \<union> base_labels s y" for e
      unfolding base_labels_def mem_Collect_eq Un_iff iff using l by (blast intro: sub_self)
    then have "base_labels s l = base_labels s x \<union> base_labels s y"
      by blast
    then show ?thesis using memo wf le by simp
  next
    case subsumed
    from union_subsumed [OF wf xy(1,3,4) subsumed(1), of s']
    show ?thesis
      using subsumed xy by (simp add: labels_extend_cong)
  next
    case (fresh s1)
    then have l: "l = last_label s + 1" "l \<noteq> kInitializingLabel"
      and s1: "s1 = (set_entry x y kInitializingLabel s)\<lparr>last_label := l\<rparr>"
      by (auto simp: fresh_label_def Let_def split: if_splits)
    have s': "last_label s' = l" "shadow_mem s' = shadow_mem s"
      "label_info s' = (label_info s)(l := (label_info s l)\<lparr>li_l1 := x, li_l2 := y\<rparr>)"
      "\<And>c d. union_table s' c d = (if c = x \<and> d = y then l else union_table s c d)"
      by (auto simp: fresh(2) s1)
    show ?thesis
      using union_fresh [OF wf xy l s'(1)] s' by simp
  qed
qed

lemma dfsan_union_neq_spec:
  assumes wf: "labels_wf s" and ab: "a \<le> last_label s" "b \<le> last_label s"
    and u: "dfsan_union_neq a b s = Inr (l, s')"
  shows "labels_wf s' \<and> labels_extend s s' \<and> l \<le> last_label s' \<and>
    base_labels s' l = base_labels s a \<union> base_labels s b \<and> shadow_mem s' = shadow_mem s"
proof -
  have z: "base_labels s 0 = {}"
    using wf by (simp add: labels_wf_def base_labels_0)
  consider (zero) "a = 0 \<or> b = 0" | (pos) "a \<noteq> 0" "b \<noteq> 0" by auto
  then show ?thesis
  proof cases
    case zero
    then show ?thesis
      using u wf ab z by (cases "a = 0") (auto simp: dfsan_union_neq_def)
  next
    case pos
    then have "last_label s \<noteq> 0" using ab by auto
    then show ?thesis
      using u pos union_entry_spec [OF wf pos ab] union_entry_spec [OF wf pos(2,1) ab(2,1)]
      by (auto simp: dfsan_union_neq_def split: if_splits)
  qed
qed

lemma dfsan_union_spec:
  assumes "labels_wf s" "a \<le> last_label s" "b \<le> last_label s" "dfsan_union a b s = Inr (l, s')"
  shows "labels_wf s' \<and> labels_extend s s' \<and> l \<le> last_label s' \<and>
    base_labels s' l = base_labels s a \<union> base_labels s b \<and> shadow_mem s' = shadow_mem s"
  using assms dfsan_union_neq_spec [of s a b l s']
  by (auto simp: dfsan_union_def split: if_splits)


lemma dfsan_create_label_spec:
  assumes wf: "labels_wf s" and c: "dfsan_create_label d u s = Inr (l, s')"
  shows "labels_wf s' \<and> labels_extend s s' \<and> l = last_label s + 1 \<and> last_label s' = l \<and> l \<noteq> 0 \<and>
    base_labels s' l = {l} \<and> shadow_mem s' = shadow_mem s"
proof -
  have ac: "labels_acyclic s" and lt: "last_label s < kInitializingLabel"
    using wf by (auto simp: labels_wf_def)
  note sl = succ_label [OF lt]
  have l: "l = last_label s + 1" "l \<noteq> kInitializingLabel" and s': "s' = s\<lparr>last_label := l, label_info :=
      (label_info s)(l := \<lparr>li_l1 = 0, li_l2 = 0, li_desc = d, li_userdata = u\<rparr>)\<rparr>"
    using c by (auto simp: dfsan_create_label_def fresh_label_def Let_def split: if_splits)
  have neq: "x \<noteq> l" if "x \<le> last_label s" for x
    using sl(2) [OF that] l by auto
  then have ext: "labels_extend s s'"
    using sl(1) by (simp add: labels_extend_def s' l(1) less_imp_le)
  have old: "li_l1 (label_info s l) = 0"
    using labels_acyclicD(4) [OF ac, of l] neq by blast
  have ac': "labels_acyclic s'"
    using ac sl(1) by (auto simp: labels_acyclic_def s' l(1) split: if_splits intro: order.trans less_imp_le)
  have sub: "sub_label s' x e \<longleftrightarrow> sub_label s x e" if "x \<le> last_label s" for x e
    using sub_label_extend [OF ac ext that] .
  have "table_sound s'"
    using wf neq sl(2) unfolding labels_wf_def table_sound_def
    by (simp add: s' l(1) sub [unfolded s' l(1)] less_imp_le)
  then have "labels_wf s'"
    using ac' sl(4) l by (auto simp: labels_wf_def s')
  moreover have "base_labels s' l = {l}"
    using sl(5) l(1) by (subst base_labels_def, subst sub_label_unfold) (auto simp: s')
  ultimately show ?thesis
    using ext l sl(5) by (simp add: s')
qed

section \<open>Labels in memory\<close>

definition cells_valid :: "dfsan \<Rightarrow> bool" where
  "cells_valid s \<longleftrightarrow> (\<forall>a. shadow_mem s a \<le> last_label s)"

definition dfsan_wf :: "dfsan \<Rightarrow> bool" where
  "dfsan_wf s \<longleftrightarrow> labels_wf s \<and> cells_valid s"

text \<open>The labels that a cell stands for.\<close>

definition cell_labels :: "dfsan \<Rightarrow> u64 \<Rightarrow> u16 set" where
  "cell_labels s a = base_labels s (shadow_mem s a)"

definition cell_range :: "u64 \<Rightarrow> nat \<Rightarrow> u64 set" where
  "cell_range a n = (\<lambda>i. a + 2 * of_nat i) ` {..<n}"

lemma cell_range_0 [simp]: "cell_range a 0 = {}"
  by (simp add: cell_range_def)

lemma cell_range_Suc: "cell_range a (Suc n) = insert a (cell_range (a + 2) n)"
proof -
  have "cell_range a (Suc n) = insert a ((\<lambda>i. a + 2 * of_nat (Suc i)) ` {..<n})"
    by (simp add: cell_range_def lessThan_Suc_eq_insert_0 image_image)
  then show ?thesis
    by (simp add: cell_range_def algebra_simps)
qed

lemma WriteShadow_at:
  "WriteShadowIfDifferent label a n m x = (if x \<in> cell_range a n then label else m x)"
  by (induction label a n m rule: WriteShadowIfDifferent.induct) (auto simp: cell_range_Suc)

lemma labels_extend_cells:
  assumes "dfsan_wf s" and "labels_extend s s'"
  shows "base_labels s' (shadow_mem s a) = base_labels s (shadow_mem s a)"
  using assms by (intro base_labels_extend) (auto simp: dfsan_wf_def labels_wf_def cells_valid_def)

lemma union_load_loop_spec:
  assumes "dfsan_wf s" and "l0 \<le> last_label s" and "union_load_loop l0 ls k s = Inr (l, s')"
  shows "dfsan_wf s' \<and> labels_extend s s' \<and> l \<le> last_label s' \<and> shadow_mem s' = shadow_mem s \<and>
    base_labels s' l = base_labels s l0 \<union> (\<Union>a \<in> cell_range ls k. cell_labels s a)"
  using assms
proof (induction l0 ls k s rule: union_load_loop.induct)
  case (1 l0 ls s)
  then show ?case by simp
next
  case (2 l0 ls k s)
  have wf: "labels_wf s" and cell: "shadow_mem s ls \<le> last_label s"
    using "2.prems" by (auto simp: dfsan_wf_def cells_valid_def)
  show ?case
  proof (cases "l0 = shadow_mem s ls")
    case True
    then show ?thesis
      using "2.IH"(2) [OF refl] "2.prems" by (simp add: cell_range_Suc cell_labels_def)
  next
    case False
    then obtain l1 s1 where u: "dfsan_union_neq l0 (shadow_mem s ls) s = Inr (l1, s1)"
      and r: "union_load_loop l1 (ls + 2) k s1 = Inr (l, s')"
      using "2.prems" by (auto simp: Let_def split: sum.splits)
    note U = dfsan_union_neq_spec [OF wf "2.prems"(2) cell u]
    have wf1: "dfsan_wf s1"
      using U "2.prems"(1) by (auto simp: dfsan_wf_def cells_valid_def labels_extend_def intro: order.trans)
    have same: "cell_labels s1 a = cell_labels s a" for a
      using U labels_extend_cells [OF "2.prems"(1), of s1 a] by (simp add: cell_labels_def)
    from "2.IH"(1) [OF refl False u refl wf1 _ r] U show ?thesis
      by (auto simp: cell_range_Suc same cell_labels_def [of s ls] intro: labels_extend_trans)
  qed
qed

lemma add_label_loop_spec:
  assumes "dfsan_wf s" and "label \<le> last_label s" and "add_label_loop label a n s = Inr s'"
  shows "dfsan_wf s' \<and> labels_extend s s' \<and>
    (\<forall>x. cell_labels s' x = cell_labels s x \<union> (if x \<in> cell_range a n then base_labels s label else {})) \<and>
    (\<forall>x. x \<notin> cell_range a n \<longrightarrow> shadow_mem s' x = shadow_mem s x)"
  using assms
proof (induction label a n s rule: add_label_loop.induct)
  case (1 label a s)
  then show ?case by simp
next
  case (2 label a n s)
  have wf: "labels_wf s" and ac: "labels_acyclic s" and cell: "shadow_mem s a \<le> last_label s"
    using "2.prems" by (auto simp: dfsan_wf_def cells_valid_def labels_wf_def)
  show ?case
  proof (cases "shadow_mem s a = label")
    case True
    then have r: "add_label_loop label (a + 2) n s = Inr s'"
      using "2.prems" by simp
    from "2.IH"(2) [OF _ "2.prems"(1,2) r] True show ?thesis
      by (auto simp: cell_range_Suc) (auto simp: cell_labels_def [of s a])
  next
    case False
    then obtain l s1 where u: "dfsan_union_neq (shadow_mem s a) label s = Inr (l, s1)"
      and r: "add_label_loop label (a + 2) n (s1\<lparr>shadow_mem := (shadow_mem s1)(a := l)\<rparr>) = Inr s'"
      using "2.prems" by (auto split: sum.splits)
    define s2 where "s2 = s1\<lparr>shadow_mem := (shadow_mem s1)(a := l)\<rparr>"
    note U = dfsan_union_neq_spec [OF wf cell "2.prems"(2) u]
    have cong: "base_labels s2 x = base_labels s1 x" for x
      using base_labels_cong [of s2 s1] by (simp add: s2_def)
    have "labels_wf s2"
      using U labels_wf_cong [of s2 s1] by (simp add: s2_def)
    then have wf2: "dfsan_wf s2"
      using U "2.prems"(1)
      by (auto simp: s2_def dfsan_wf_def cells_valid_def labels_extend_def intro: order.trans)
    have ext2: "labels_extend s s2" and lab2: "label \<le> last_label s2"
      using U "2.prems"(2) by (auto simp: s2_def labels_extend_def intro: order.trans)
    have b2: "base_labels s2 label = base_labels s label"
      by (rule base_labels_extend [OF ac ext2 "2.prems"(2)])
    have c2: "cell_labels s2 x = cell_labels s x \<union> (if x = a then base_labels s label else {})" for x
      using U labels_extend_cells [OF "2.prems"(1) ext2, of x]
      by (auto simp: cell_labels_def cong) (auto simp: s2_def)
    have m2: "shadow_mem s2 x = shadow_mem s x" if "x \<noteq> a" for x
      using U that by (simp add: s2_def)
    from "2.IH"(1) [OF False u refl wf2 [unfolded s2_def] lab2 [unfolded s2_def] r]
    show ?thesis
      unfolding s2_def [symmetric] using ext2 b2 c2 m2
      by (auto simp: cell_range_Suc intro: labels_extend_trans)
  qed
qed

lemma dfsan_union_neq_fails:
  assumes "labels_wf s" and "dfsan_union_neq a b s = Inl e"
  shows "e = OutOfLabels \<and> last_label s = 0xFFFE"
proof -
  have busy: "union_table s x y \<noteq> kInitializingLabel" for x y
  proof
    assume t: "union_table s x y = kInitializingLabel"
    then have "union_table s x y \<noteq> 0" by (simp add: kInitializingLabel_def)
    then have "union_table s x y \<le> last_label s"
      using assms(1) unfolding labels_wf_def table_sound_def by blast
    then show False using t assms(1) by (auto simp: labels_wf_def dest: leD)
  qed
  obtain x y where "union_entry x y s = Inl e"
    using assms(2) by (auto simp: dfsan_union_neq_def split: if_splits)
  then have "fresh_label (set_entry x y kInitializingLabel s) = Inl e"
    using busy [of x y] by (auto simp: union_entry_def Let_def split: if_splits sum.splits prod.splits)
  then have "e = OutOfLabels" "last_label s + 1 = 0xFFFF"
    by (auto simp: fresh_label_def Let_def kInitializingLabel_def split: if_splits)
  then show ?thesis
    by (metis add_diff_cancel_right' diff_numeral_special(9) diff_eq_eq numeral_plus_one semiring_norm(5))
qed

text \<open>The loops fail only when the labels run out.\<close>

lemma union_load_loop_fails:
  assumes "dfsan_wf s" and "l0 \<le> last_label s" and "union_load_loop l0 ls k s = Inl e"
  shows "e = OutOfLabels"
  using assms
proof (induction l0 ls k s rule: union_load_loop.induct)
  case (1 l0 ls s)
  then show ?case by simp
next
  case (2 l0 ls k s)
  have wf: "labels_wf s" and cell: "shadow_mem s ls \<le> last_label s"
    using "2.prems" by (auto simp: dfsan_wf_def cells_valid_def)
  show ?case
  proof (cases "l0 = shadow_mem s ls")
    case True
    then show ?thesis using "2.IH"(2) [OF refl] "2.prems" by simp
  next
    case False
    show ?thesis
    proof (cases "dfsan_union_neq l0 (shadow_mem s ls) s")
      case (Inl e')
      then show ?thesis using False "2.prems" dfsan_union_neq_fails [OF wf Inl] by simp
    next
      case (Inr p)
      obtain l1 s1 where p: "p = (l1, s1)" by (cases p)
      note U = dfsan_union_neq_spec [OF wf "2.prems"(2) cell Inr [unfolded p]]
      have "dfsan_wf s1"
        using U "2.prems"(1) by (auto simp: dfsan_wf_def cells_valid_def labels_extend_def intro: order.trans)
      then show ?thesis
        using "2.IH"(1) [OF refl False Inr p [symmetric]] U "2.prems"(3) False Inr p by simp
    qed
  qed
qed

lemma dfsan_read_label_fails:
  assumes "dfsan_wf s" and "dfsan_read_label addr sz s = Inl e"
  shows "e = OutOfLabels"
proof -
  have "shadow_mem s (shadow_for addr) \<le> last_label s"
    using assms(1) by (simp add: dfsan_wf_def cells_valid_def)
  then show ?thesis
    using assms union_load_loop_fails
    by (auto simp: dfsan_read_label_def dfsan_union_load_def split: if_splits)
qed

lemma add_label_loop_fails:
  assumes "dfsan_wf s" and "label \<le> last_label s" and "add_label_loop label a n s = Inl e"
  shows "e = OutOfLabels"
  using assms
proof (induction label a n s rule: add_label_loop.induct)
  case (1 label a s)
  then show ?case by simp
next
  case (2 label a n s)
  have wf: "labels_wf s" and cell: "shadow_mem s a \<le> last_label s"
    using "2.prems" by (auto simp: dfsan_wf_def cells_valid_def)
  show ?case
  proof (cases "shadow_mem s a = label")
    case True
    then show ?thesis using "2.IH"(2) "2.prems" by simp
  next
    case False
    show ?thesis
    proof (cases "dfsan_union_neq (shadow_mem s a) label s")
      case (Inl e')
      then show ?thesis using False "2.prems" dfsan_union_neq_fails [OF wf Inl] by simp
    next
      case (Inr p)
      obtain l1 s1 where p: "p = (l1, s1)" by (cases p)
      note U = dfsan_union_neq_spec [OF wf cell "2.prems"(2) Inr [unfolded p]]
      let ?s2 = "s1\<lparr>shadow_mem := (shadow_mem s1)(a := l1)\<rparr>"
      have "labels_wf ?s2" using U labels_wf_cong [of ?s2 s1] by simp
      then have "dfsan_wf ?s2"
        using U "2.prems"(1) by (auto simp: dfsan_wf_def cells_valid_def labels_extend_def intro: order.trans)
      moreover have "label \<le> last_label ?s2"
        using U "2.prems"(2) by (auto simp: labels_extend_def intro: order.trans)
      ultimately show ?thesis
        using "2.IH"(1) [OF False Inr p [symmetric]] "2.prems"(3) False Inr p by simp
    qed
  qed
qed

lemma dfsan_read_label_effect:
  assumes "dfsan_wf s" and "dfsan_read_label addr sz s = Inr (l, s')"
  shows "dfsan_wf s' \<and> labels_extend s s' \<and> l \<le> last_label s' \<and> shadow_mem s' = shadow_mem s \<and>
    base_labels s' l = (\<Union>x \<in> cell_range (shadow_for addr) (unat sz). cell_labels s x)"
proof (cases "sz = 0")
  case True
  then show ?thesis
    using assms by (auto simp: dfsan_read_label_def dfsan_wf_def labels_wf_def base_labels_0)
next
  case False
  then have n: "unat sz = Suc (unat (sz - 1))"
    by (simp add: unat_minus_one unat_gt_0)
  have "shadow_mem s (shadow_for addr) \<le> last_label s"
    using assms(1) by (simp add: dfsan_wf_def cells_valid_def)
  from union_load_loop_spec [OF assms(1) this] assms(2) False show ?thesis
    unfolding n cell_range_Suc
    by (auto simp: dfsan_read_label_def dfsan_union_load_def cell_labels_def)
qed


lemma sub_label_0: "labels_acyclic s \<Longrightarrow> sub_label s 0 e \<Longrightarrow> e = 0"
  using sub_label_le by fastforce

text \<open>A union keeps every label below its arguments, made by a union or not.\<close>

lemma union_entry_sub:
  assumes wf: "labels_wf s" and xy: "x \<noteq> 0" "y \<noteq> 0" "x \<le> last_label s" "y \<le> last_label s"
    and u: "union_entry x y s = Inr (l, s')" and e: "sub_label s x e \<or> sub_label s y e"
  shows "sub_label s' l e"
proof -
  have ac: "labels_acyclic s" using wf by (simp add: labels_wf_def)
  note ext = union_entry_spec [OF wf xy u]
  have old: "sub_label s' z e \<longleftrightarrow> sub_label s z e" if "z \<le> last_label s" for z
    using sub_label_extend [OF ac _ that] ext by blast
  show ?thesis
    using u
  proof (cases rule: union_entry_cases)
    case memo
    then have "\<forall>e. sub_label s l e \<longleftrightarrow> e = l \<or> sub_label s x e \<or> sub_label s y e"
      using wf unfolding labels_wf_def table_sound_def by blast
    then show ?thesis using e memo(3) by blast
  next
    case subsumed
    have "li_l1 (label_info s y) \<noteq> 0" using subsumed(1) xy(1) labels_acyclic_l2 [OF ac] by auto
    then have "sub_label s y e" using e subsumed(1) by (auto intro: sub_label.intros)
    then show ?thesis using old [OF xy(4)] subsumed(2) by simp
  next
    case (fresh s1)
    then have "li_l1 (label_info s' l) = x" "li_l2 (label_info s' l) = y" by simp_all
    then show ?thesis using e xy old [OF xy(3)] old [OF xy(4)] by (auto intro: sub_label.intros)
  qed
qed

lemma union_neq_sub:
  assumes wf: "labels_wf s" and ab: "a \<le> last_label s" "b \<le> last_label s"
    and u: "dfsan_union_neq a b s = Inr (l, s')" and e: "e \<noteq> 0" "sub_label s a e \<or> sub_label s b e"
  shows "sub_label s' l e"
proof -
  have z: "\<not> sub_label s 0 e" using wf e(1) sub_label_0 by (auto simp: labels_wf_def)
  consider (zero) "a = 0 \<or> b = 0" | (pos) "a \<noteq> 0" "b \<noteq> 0" by auto
  then show ?thesis
  proof cases
    case zero
    then show ?thesis using u e z by (cases "a = 0") (auto simp: dfsan_union_neq_def)
  next
    case pos
    then have "last_label s \<noteq> 0" using ab by auto
    then show ?thesis
      using u pos union_entry_sub [OF wf pos ab] union_entry_sub [OF wf pos(2,1) ab(2,1)] e(2)
      by (auto simp: dfsan_union_neq_def split: if_splits)
  qed
qed

lemma union_load_loop_sub:
  assumes "dfsan_wf s" and "l0 \<le> last_label s" and "union_load_loop l0 ls k s = Inr (l, s')" and "e \<noteq> 0"
    and "sub_label s l0 e \<or> (\<exists>b \<in> cell_range ls k. sub_label s (shadow_mem s b) e)"
  shows "sub_label s' l e"
  using assms
proof (induction l0 ls k s rule: union_load_loop.induct)
  case (1 l0 ls s)
  then show ?case by simp
next
  case (2 l0 ls k s)
  have wf: "labels_wf s" and cell: "\<And>b. shadow_mem s b \<le> last_label s"
    using "2.prems" by (auto simp: dfsan_wf_def cells_valid_def)
  have ac: "labels_acyclic s" using wf by (simp add: labels_wf_def)
  have some: "(sub_label s l0 e \<or> sub_label s (shadow_mem s ls) e) \<or> (\<exists>b \<in> cell_range (ls + 2) k. sub_label s (shadow_mem s b) e)"
    using "2.prems"(5) by (simp add: cell_range_Suc)
  show ?case
  proof (cases "l0 = shadow_mem s ls")
    case True
    then have "union_load_loop l0 (ls + 2) k s = Inr (l, s')" using "2.prems"(3) by simp
    then show ?thesis using "2.IH"(2) [OF refl _ "2.prems"(1,2) _ "2.prems"(4)] some True by simp
  next
    case False
    then obtain l1 s1 where u: "dfsan_union_neq l0 (shadow_mem s ls) s = Inr (l1, s1)"
      and r: "union_load_loop l1 (ls + 2) k s1 = Inr (l, s')"
      using "2.prems" by (auto simp: Let_def split: sum.splits)
    note U = dfsan_union_neq_spec [OF wf "2.prems"(2) cell u]
    have wf1: "dfsan_wf s1"
      using U "2.prems"(1) by (auto simp: dfsan_wf_def cells_valid_def labels_extend_def intro: order.trans)
    have sh: "shadow_mem s1 = shadow_mem s" and ext: "labels_extend s s1" using U by blast+
    have "sub_label s1 (shadow_mem s1 b) e \<longleftrightarrow> sub_label s (shadow_mem s b) e" for b
      unfolding sh by (rule sub_label_extend [OF ac ext cell])
    moreover have "sub_label s1 l1 e" if "sub_label s l0 e \<or> sub_label s (shadow_mem s ls) e"
      using union_neq_sub [OF wf "2.prems"(2) cell u "2.prems"(4) that] .
    ultimately have "sub_label s1 l1 e \<or> (\<exists>b \<in> cell_range (ls + 2) k. sub_label s1 (shadow_mem s1 b) e)"
      using some by blast
    note n = this
    have le: "l1 \<le> last_label s1" using U by simp
    show ?thesis by (rule "2.IH"(1) [OF refl False u refl wf1 le r "2.prems"(4) n])
  qed
qed

text \<open>The label of a range contains every label that one of its bytes contains.\<close>

lemma dfsan_read_label_sub:
  assumes "dfsan_wf s" and "dfsan_read_label addr sz s = Inr (l, s')" and "e \<noteq> 0"
    and "b \<in> cell_range (shadow_for addr) (unat sz)" "sub_label s (shadow_mem s b) e"
  shows "sub_label s' l e"
proof (cases "sz = 0")
  case False
  then have n: "unat sz = Suc (unat (sz - 1))" by (simp add: unat_minus_one unat_gt_0)
  have "shadow_mem s (shadow_for addr) \<le> last_label s"
    using assms(1) by (simp add: dfsan_wf_def cells_valid_def)
  moreover have "union_load_loop (shadow_mem s (shadow_for addr)) (shadow_for addr + 2) (unat (sz - 1)) s = Inr (l, s')"
    using assms(2) False by (simp add: dfsan_read_label_def dfsan_union_load_def)
  moreover have "sub_label s (shadow_mem s (shadow_for addr)) e \<or>
      (\<exists>b \<in> cell_range (shadow_for addr + 2) (unat (sz - 1)). sub_label s (shadow_mem s b) e)"
    using assms(4,5) unfolding n cell_range_Suc by blast
  ultimately show ?thesis using union_load_loop_sub [OF assms(1) _ _ assms(3)] by blast
qed (use assms in simp)

section \<open>Properties\<close>

text \<open>C3: Joining two labels gives a label that contains a base label exactly when one of the two
  does, as \<open>dfsan_has_label\<close> answers it; the invariant is kept and no earlier label changes its
  meaning.\<close>

theorem dfsan_union_join:
  assumes "labels_wf s" and "a \<le> last_label s" and "b \<le> last_label s"
    and "dfsan_union a b s = Inr (l, s')"
    and "e \<noteq> 0" and "e \<le> last_label s" and "li_l1 (label_info s e) = 0"
  shows "labels_wf s' \<and>
    dfsan_has_label s' l e =
      Some (dfsan_has_label s a e = Some True \<or> dfsan_has_label s b e = Some True) \<and>
    (\<forall>x \<le> last_label s. dfsan_has_label s' x e = dfsan_has_label s x e)"
proof -
  have ac: "labels_acyclic s" using assms(1) by (simp add: labels_wf_def)
  note U = dfsan_union_spec [OF assms(1-4)]
  have ac': "labels_acyclic s'" using U by (simp add: labels_wf_def)
  have info: "label_info s' e = label_info s e"
    using U assms(6) by (simp add: labels_extend_def)
  have "e \<in> base_labels s' l \<longleftrightarrow> e \<in> base_labels s a \<union> base_labels s b"
    using U by simp
  then have "sub_label s' l e \<longleftrightarrow> sub_label s a e \<or> sub_label s b e"
    using assms(5,7) info by (simp add: base_labels_def)
  then show ?thesis
    using U sub_label_extend [OF ac, of s'] by (auto simp: dfsan_has_label_sub ac ac')
qed

text \<open>C38: A union that does not return a label has run out of labels: \<open>0xFFFE\<close> are taken. In
  particular a lone thread never waits for a table entry.\<close>

theorem dfsan_union_fails_only_full:
  assumes "labels_wf s" and "a \<le> last_label s" and "b \<le> last_label s" and "dfsan_union a b s = Inl e"
  shows "e = OutOfLabels \<and> last_label s = 0xFFFE"
  using assms(1,4) dfsan_union_neq_fails [of s a b e] by (auto simp: dfsan_union_def split: if_splits)

text \<open>The table makes the union a function of the unordered pair: asking again, in either order,
  returns the same label and leaves the state as it is.\<close>

theorem dfsan_union_memo:
  assumes "labels_wf s" and "a \<le> last_label s" and "b \<le> last_label s"
    and "dfsan_union a b s = Inr (l, s')"
  shows "dfsan_union a b s' = Inr (l, s') \<and> dfsan_union b a s' = Inr (l, s')"
proof -
  have again: "union_entry x y s' = Inr (l, s')" if xy: "union_entry x y s = Inr (l, s')"
    "x \<noteq> 0" "y \<noteq> 0" "x \<le> last_label s" "y \<le> last_label s" for x y
  proof -
    note U = union_entry_spec [OF assms(1) xy(2-5) xy(1)]
    have t: "union_table s' x y = l \<and> l \<noteq> 0"
      using xy(1)
    proof (cases rule: union_entry_cases)
      case (fresh s1)
      then show ?thesis
        using succ_label(5) [of "last_label s"] assms(1)
        by (auto simp: fresh_label_def Let_def labels_wf_def split: if_splits)
    qed (use xy in auto)
    moreover have "l < kInitializingLabel"
      using U by (auto simp: labels_wf_def)
    ultimately show ?thesis by (simp add: union_entry_def)
  qed
  have last: "last_label s' \<noteq> 0" if "a \<noteq> 0" "b \<noteq> 0"
  proof -
    have "last_label s \<noteq> 0" using that assms(2) by auto
    then show ?thesis
      using dfsan_union_spec [OF assms] by (auto simp: labels_extend_def)
  qed
  show ?thesis
    using assms again [of a b] again [of b a] last
    by (auto simp: dfsan_union_def dfsan_union_neq_def split: if_splits)
qed

text \<open>\<open>dfsan_add_label\<close> adds its label to every byte of the range and to no other, and loses none
  of the labels the bytes already had.\<close>

theorem dfsan_add_label_spec:
  assumes "dfsan_wf s" and "label \<le> last_label s" and "dfsan_add_label label addr sz s = Inr s'"
  shows "dfsan_wf s' \<and>
    (\<forall>x. cell_labels s' x =
       cell_labels s x \<union> (if x \<in> cell_range (shadow_for addr) (unat sz) then base_labels s label else {}))"
  using add_label_loop_spec [OF assms(1,2)] assms(3) by (simp add: dfsan_add_label_def)

text \<open>\<open>dfsan_read_label\<close> of a range returns a label that contains exactly the labels of its bytes.\<close>

theorem dfsan_read_label_spec:
  assumes "dfsan_wf s" and "dfsan_read_label addr sz s = Inr (l, s')"
  shows "dfsan_wf s' \<and> shadow_mem s' = shadow_mem s \<and>
    base_labels s' l = (\<Union>x \<in> cell_range (shadow_for addr) (unat sz). cell_labels s x)"
  using dfsan_read_label_effect [OF assms] by simp


lemma shadow_for_even: "unat (shadow_for p) mod 2 = 0"
  by (simp add: shadow_for_def push_bit_eq_mult unat_word_ariths mod_mod_cancel)

lemma unat_cell:
  assumes "unat a + 2 * n \<le> 2 ^ 64" and "i < n"
  shows "unat ((a :: u64) + 2 * of_nat i) = unat a + 2 * i"
proof -
  have "unat a + 2 * i < 2 ^ 64" using assms by linarith
  then have "unat (word_of_nat (unat a + 2 * i) :: u64) = unat a + 2 * i"
    by (intro unat_of_nat_small) simp
  then show ?thesis by simp
qed

text \<open>Without wrap-around the cells of a range are the even addresses between its ends.\<close>

lemma cell_range_iff:
  assumes "unat a + 2 * n \<le> 2 ^ 64" and "unat a mod 2 = 0" and "unat x mod 2 = 0"
  shows "x \<in> cell_range a n \<longleftrightarrow> unat a \<le> unat x \<and> unat x < unat a + 2 * n"
proof
  assume "x \<in> cell_range a n"
  then show "unat a \<le> unat x \<and> unat x < unat a + 2 * n"
    using unat_cell [OF assms(1)] by (auto simp: cell_range_def)
next
  assume x: "unat a \<le> unat x \<and> unat x < unat a + 2 * n"
  define i where "i = (unat x - unat a) div 2"
  have i: "unat x = unat a + 2 * i" "i < n"
    using x assms(2,3) unfolding i_def by presburger+
  then have "x = a + 2 * of_nat i"
    using unat_cell [OF assms(1) i(2)] by (simp add: word_unat_eq_iff)
  then show "x \<in> cell_range a n"
    using i(2) by (auto simp: cell_range_def)
qed

text \<open>Setting a nonzero label writes it to the bytes of the range and to nothing else.\<close>

theorem dfsan_set_label_nonzero:
  assumes "label \<noteq> 0"
  shows "\<exists>s'. dfsan_set_label page_size label addr sz s = Inr s' \<and>
    shadow_mem s' = (\<lambda>x. if x \<in> cell_range (shadow_for addr) (unat sz) then label else shadow_mem s x) \<and>
    label_info s' = label_info s"
  using assms by (simp add: dfsan_set_label_def Let_def WriteShadow_at fun_eq_iff)

text \<open>Clearing a page-aligned shadow range is exact, whether the cells are written one by one or
  their pages are given back. This is how the runtime clears a mapping on \<open>mmap\<close> and \<open>munmap\<close>.\<close>

theorem dfsan_clear_aligned_exact:
  assumes ps: "page_size = 2 ^ n" "n < 64"
    and beg: "2 ^ n dvd unat (shadow_for addr)"
    and sz: "2 ^ n dvd 2 * unat sz" "unat (shadow_for addr) + 2 * unat sz < 2 ^ 64"
    and fin: "shadow_for (addr + sz) = shadow_for addr + 2 * sz"
  shows "\<exists>s'. dfsan_set_label page_size 0 addr sz s = Inr s' \<and>
    (\<forall>p. shadow_mem s' (shadow_for p) =
      (if shadow_for p \<in> cell_range (shadow_for addr) (unat sz) then 0 else shadow_mem s (shadow_for p)))"
proof -
  let ?b = "shadow_for addr" and ?e = "shadow_for (addr + sz)"
  have e: "unat ?e = unat ?b + 2 * unat sz"
    using sz(2) by (simp add: fin unat_word_ariths)
  have "2 ^ n dvd unat ?e"
    using beg sz(1) by (simp add: e)
  then have al: "RoundDownTo ?e page_size = ?e" "RoundUpTo ?b page_size = Some ?b"
    using beg ps by (simp_all add: RoundDownTo_aligned RoundUpTo_aligned)
  have range: "shadow_for p \<in> cell_range ?b (unat sz) \<longleftrightarrow> ?b \<le> shadow_for p \<and> shadow_for p < ?e" for p
    using cell_range_iff [of ?b "unat sz" "shadow_for p"] sz(2)
    by (simp add: shadow_for_even word_le_nat_alt word_less_nat_alt e)
  show ?thesis
  proof (cases "?b + kNumPagesThreshold * page_size \<ge> ?e")
    case True
    then have "dfsan_set_label page_size 0 addr sz s =
        Inr (s\<lparr>shadow_mem := WriteShadowIfDifferent 0 ?b (unat sz) (shadow_mem s)\<rparr>)"
      by (simp add: dfsan_set_label_def Let_def al)
    then show ?thesis by (simp add: WriteShadow_at)
  next
    case False
    then have "dfsan_set_label page_size 0 addr sz s =
        Inr (s\<lparr>shadow_mem := (if ?b < ?e then (\<lambda>a. if ?b \<le> a \<and> a < ?e then 0 else shadow_mem s a)
                            else shadow_mem s)\<rparr>)"
      by (simp add: dfsan_set_label_def Let_def al ReleaseMemoryPagesToOS_def)
    then show ?thesis using range by (auto dest: le_less_trans)
  qed
qed

text \<open>Clearing a large range whose shadow does not end on a page boundary also clears labels of
  bytes behind the range: the two border writes take a number of bytes for a number of labels.\<close>

theorem dfsan_clear_runs_past_end:
  "\<exists>s s' addr sz k. dfsan_set_label 4096 0 addr sz s = Inr s' \<and> unat sz \<le> k \<and>
     shadow_mem s (shadow_for (addr + of_nat k)) = 1 \<and> shadow_mem s' (shadow_for (addr + of_nat k)) = 0"
proof (intro exI conjI)
  let ?s = "dfsan_zero\<lparr>shadow_mem := (\<lambda>_. 1)\<rparr>"
  let ?m = "\<lambda>a :: u64. if 0x20000 \<le> a \<and> a < 0x2A000 then 0 else (1 :: u16)"
  have cell: "0x2A200 = (0x2A000 :: u64) + 2 * of_nat 0x100" by simp
  show "dfsan_set_label 4096 0 0x700000010000 0x5100 ?s =
      Inr (?s\<lparr>shadow_mem := WriteShadowIfDifferent 0 0x2A000 0x200 ?m\<rparr>)"
    by (simp add: dfsan_set_label_def shadow_for_def kShadowMask_def RoundUpTo_def RoundDownTo_def
        IsPowerOfTwo_def kNumPagesThreshold_def ReleaseMemoryPagesToOS_def Let_def)
  show "unat (0x5100 :: u64) \<le> 0x5100" by simp
  show "shadow_mem ?s (shadow_for (0x700000010000 + of_nat 0x5100)) = 1" by simp
  have "shadow_for (0x700000010000 + of_nat 0x5100) = 0x2A200"
    by (simp add: shadow_for_def kShadowMask_def)
  moreover have "0x2A200 \<in> cell_range 0x2A000 0x200"
    unfolding cell_range_def cell by (rule imageI) simp
  ultimately show "shadow_mem (?s\<lparr>shadow_mem := WriteShadowIfDifferent 0 0x2A000 0x200 ?m\<rparr>)
      (shadow_for (0x700000010000 + of_nat 0x5100)) = 0"
    by (simp only: WriteShadow_at dfsan.select_convs dfsan.update_convs dfsan.simps) (simp add: WriteShadow_at)
qed


section \<open>The properties at concrete states\<close>

text \<open>Two fresh labels, and their union as a third.\<close>

definition two_labels :: dfsan where
  "two_labels = dfsan_zero\<lparr>last_label := 2\<rparr>"

definition three_labels :: dfsan where
  "three_labels = set_entry 1 2 3 (two_labels\<lparr>last_label := 3, label_info := (label_info two_labels)
     (3 := (label_info two_labels 3)\<lparr>li_l1 := 1, li_l2 := 2\<rparr>)\<rparr>)"

lemma two_labels_wf: "labels_wf two_labels"
  by (simp add: labels_wf_def labels_acyclic_def table_sound_def two_labels_def dfsan_zero_def
      kInitializingLabel_def)

lemma two_labels_dfsan_wf: "dfsan_wf two_labels"
  using two_labels_wf by (simp add: dfsan_wf_def cells_valid_def two_labels_def dfsan_zero_def)

lemma two_labels_union: "dfsan_union 1 2 two_labels = Inr (3, three_labels)"
  by (simp add: dfsan_union_def dfsan_union_neq_def union_entry_def fresh_label_def Let_def two_labels_def
      three_labels_def dfsan_zero_def set_entry_def kInitializingLabel_def fun_eq_iff)

theorem dfsan_union_join_witness: "dfsan_has_label three_labels 3 1 = Some True"
  using dfsan_union_join [OF two_labels_wf _ _ two_labels_union, of 1]
  by (simp add: two_labels_def dfsan_zero_def dfsan_has_label.simps [of _ 1 1])

theorem dfsan_union_fails_only_full_witness:
  "\<exists>e. dfsan_union 1 2 (dfsan_zero\<lparr>last_label := 0xFFFE\<rparr>) = Inl e \<and> labels_wf (dfsan_zero\<lparr>last_label := 0xFFFE\<rparr>) \<and> e = OutOfLabels"
proof -
  let ?s = "dfsan_zero\<lparr>last_label := 0xFFFE\<rparr>"
  have wf: "labels_wf ?s"
    by (simp add: labels_wf_def labels_acyclic_def table_sound_def dfsan_zero_def kInitializingLabel_def)
  have "\<exists>e. dfsan_union 1 2 ?s = Inl e"
    by (simp add: dfsan_union_def dfsan_union_neq_def union_entry_def fresh_label_def Let_def
        dfsan_zero_def set_entry_def kInitializingLabel_def)
  then obtain e where u: "dfsan_union 1 2 ?s = Inl e" by blast
  have "(1 :: u16) \<le> last_label ?s" "(2 :: u16) \<le> last_label ?s" by simp_all
  from dfsan_union_fails_only_full [OF wf this u] show ?thesis using u wf by simp
qed

theorem dfsan_union_memo_witness: "dfsan_union 2 1 three_labels = Inr (3, three_labels)"
  using dfsan_union_memo [OF two_labels_wf _ _ two_labels_union] by (simp add: two_labels_def)

theorem dfsan_add_label_spec_witness:
  "\<exists>s'. dfsan_add_label 1 0x700000010000 1 two_labels = Inr s' \<and> 1 \<in> cell_labels s' 0x20000"
proof -
  have sh: "shadow_for 0x700000010000 = 0x20000"
    by (simp add: shadow_for_def kShadowMask_def)
  obtain s' where a: "dfsan_add_label 1 0x700000010000 1 two_labels = Inr s'"
    by (simp add: dfsan_add_label_def dfsan_union_neq_def two_labels_def dfsan_zero_def)
  have "base_labels two_labels 1 = {1}"
    unfolding base_labels_def by (subst sub_label_unfold) (auto simp: two_labels_def dfsan_zero_def)
  with dfsan_add_label_spec [OF two_labels_dfsan_wf _ a] have "1 \<in> cell_labels s' 0x20000"
    by (simp add: sh two_labels_def cell_range_Suc)
  with a show ?thesis by blast
qed

theorem dfsan_read_label_spec_witness:
  "\<exists>l s'. dfsan_read_label 0x700000010000 2 two_labels = Inr (l, s') \<and> shadow_mem s' = shadow_mem two_labels"
proof -
  obtain l s' where r: "dfsan_read_label 0x700000010000 2 two_labels = Inr (l, s')"
    by (simp add: dfsan_read_label_def dfsan_union_load_def two_labels_def dfsan_zero_def)
  with dfsan_read_label_spec [OF two_labels_dfsan_wf r] show ?thesis by blast
qed

theorem dfsan_set_label_nonzero_witness:
  "\<exists>s'. dfsan_set_label 4096 1 0x700000010000 1 dfsan_zero = Inr s' \<and> shadow_mem s' 0x20000 = 1"
  using dfsan_set_label_nonzero [of 1 4096 "0x700000010000" 1 dfsan_zero]
  by (auto simp: shadow_for_def kShadowMask_def cell_range_Suc)

theorem dfsan_clear_aligned_exact_witness:
  "\<exists>s'. dfsan_set_label 4096 0 0x700000010000 0x5000 (dfsan_zero\<lparr>shadow_mem := (\<lambda>_. 1)\<rparr>) = Inr s' \<and>
     shadow_mem s' (shadow_for 0x700000010000) = 0"
proof -
  let ?s = "dfsan_zero\<lparr>shadow_mem := (\<lambda>_. 1)\<rparr>"
  have sh: "shadow_for 0x700000010000 = 0x20000" "shadow_for 0x700000015000 = 0x2A000"
    by (simp_all add: shadow_for_def kShadowMask_def)
  have "\<exists>s'. dfsan_set_label 4096 0 0x700000010000 0x5000 ?s = Inr s' \<and>
    (\<forall>p. shadow_mem s' (shadow_for p) =
      (if shadow_for p \<in> cell_range (shadow_for 0x700000010000) (unat (0x5000 :: u64)) then 0
       else shadow_mem ?s (shadow_for p)))"
    by (rule dfsan_clear_aligned_exact [where n = 12]) (simp_all add: sh)
  moreover have "shadow_for 0x700000010000 \<in> cell_range (shadow_for 0x700000010000) (unat (0x5000 :: u64))"
    unfolding cell_range_def by (rule image_eqI [of _ _ 0]) simp_all
  ultimately show ?thesis by metis
qed

end
