(* ===== verification/SanitizerLibc.thy ===== *)
theory SanitizerLibc
  imports CommonArith
begin

text \<open>
  \<open>sanitizer_common/sanitizer_libc.cpp\<close>: the runtime's own string and memory routines, over a
  byte memory with 64-bit addresses. A \<open>char\<close> is signed, as on x86-64. A loop whose end is a
  terminator in memory is a partial function: \<open>None\<close> is a loop that does not end (or a failed
  \<open>CHECK\<close>).
\<close>

type_synonym bytes = "u64 \<Rightarrow> u8"

section \<open>Memory blocks\<close>

text \<open>\<open>*t == c\<close> promotes the signed \<open>char\<close> to \<open>int\<close>.\<close>

fun internal_memchr :: "bytes \<Rightarrow> u64 \<Rightarrow> int \<Rightarrow> nat \<Rightarrow> u64 option" where
  "internal_memchr m t c 0 = None"
| "internal_memchr m t c (Suc n) = (if sint (m t) = c then Some t else internal_memchr m (t + 1) c n)"

fun memrchr_loop :: "bytes \<Rightarrow> u64 \<Rightarrow> int \<Rightarrow> nat \<Rightarrow> u64 option \<Rightarrow> u64 option" where
  "memrchr_loop m t c 0 res = res"
| "memrchr_loop m t c (Suc n) res = memrchr_loop m (t + 1) c n (if sint (m t) = c then Some t else res)"

definition internal_memrchr :: "bytes \<Rightarrow> u64 \<Rightarrow> int \<Rightarrow> nat \<Rightarrow> u64 option" where
  "internal_memrchr m s c n = memrchr_loop m s c n None"

fun internal_memcmp :: "bytes \<Rightarrow> u64 \<Rightarrow> u64 \<Rightarrow> nat \<Rightarrow> int" where
  "internal_memcmp m t1 t2 0 = 0"
| "internal_memcmp m t1 t2 (Suc n) =
     (if m t1 \<noteq> m t2 then (if sint (m t1) < sint (m t2) then -1 else 1)
      else internal_memcmp m (t1 + 1) (t2 + 1) n)"

text \<open>Copy upwards (\<open>memcpy\<close>, and \<open>memmove\<close> to a lower address), and downwards from the end.\<close>

fun copy_up :: "bytes \<Rightarrow> u64 \<Rightarrow> u64 \<Rightarrow> nat \<Rightarrow> bytes" where
  "copy_up m d s 0 = m"
| "copy_up m d s (Suc n) = copy_up (m(d := m s)) (d + 1) (s + 1) n"

fun copy_down :: "bytes \<Rightarrow> u64 \<Rightarrow> u64 \<Rightarrow> nat \<Rightarrow> bytes" where
  "copy_down m d s 0 = m"
| "copy_down m d s (Suc n) = copy_down (m(d + of_nat n := m (s + of_nat n))) d s n"

definition internal_memcpy :: "bytes \<Rightarrow> u64 \<Rightarrow> u64 \<Rightarrow> u64 \<Rightarrow> bytes" where
  "internal_memcpy m dest src n = copy_up m dest src (unat n)"

definition internal_memmove :: "bytes \<Rightarrow> u64 \<Rightarrow> u64 \<Rightarrow> u64 \<Rightarrow> bytes option" where
  "internal_memmove m d s n =
     (if sint n < 0 then None
      else Some (if d < s then copy_up m d s (unat n)
                 else if d > s then copy_down m d s (unat n)
                 else m))"

text \<open>\<open>memset\<close>: a block aligned to 16 is filled with 64-bit stores of the replicated value.\<close>

fun store64 :: "bytes \<Rightarrow> u64 \<Rightarrow> u64 \<Rightarrow> nat \<Rightarrow> bytes" where
  "store64 m p v 0 = m"
| "store64 m p v (Suc k) = store64 (m(p := ucast v)) (p + 1) (drop_bit 8 v) k"

fun memset_fast :: "bytes \<Rightarrow> u64 \<Rightarrow> u64 \<Rightarrow> nat \<Rightarrow> bytes" where
  "memset_fast m p v 0 = m"
| "memset_fast m p v (Suc k) = memset_fast (store64 (store64 m (p + 8) v 8) p v 8) (p + 16) v k"

fun memset_slow :: "bytes \<Rightarrow> u64 \<Rightarrow> u8 \<Rightarrow> nat \<Rightarrow> bytes" where
  "memset_slow m t c 0 = m"
| "memset_slow m t c (Suc n) = memset_slow (m(t := c)) (t + 1) c n"

definition memset_pattern :: "int \<Rightarrow> u64" where
  "memset_pattern c =
     (let v = word_of_int c; v1 = v OR push_bit 8 v; v2 = v1 OR push_bit 16 v1
      in v2 OR push_bit 32 v2)"

definition internal_memset :: "bytes \<Rightarrow> u64 \<Rightarrow> int \<Rightarrow> u64 \<Rightarrow> bytes" where
  "internal_memset m s c n =
     (if s mod 16 = 0 \<and> n mod 16 = 0
      then memset_fast m s (memset_pattern c) (unat n div 16)
      else memset_slow m s (word_of_int c) (unat n))"

section \<open>Strings\<close>

partial_function (option) strlen_from :: "bytes \<Rightarrow> u64 \<Rightarrow> u64 \<Rightarrow> u64 option" where
  "strlen_from m s i = (if m (s + i) \<noteq> 0 then strlen_from m s (i + 1) else Some i)"

definition internal_strlen :: "bytes \<Rightarrow> u64 \<Rightarrow> u64 option" where
  "internal_strlen m s = strlen_from m s 0"

fun strnlen_loop :: "bytes \<Rightarrow> u64 \<Rightarrow> u64 \<Rightarrow> nat \<Rightarrow> u64" where
  "strnlen_loop m s i 0 = i"
| "strnlen_loop m s i (Suc k) = (if m (s + i) \<noteq> 0 then strnlen_loop m s (i + 1) k else i)"

definition internal_strnlen :: "bytes \<Rightarrow> u64 \<Rightarrow> u64 \<Rightarrow> u64" where
  "internal_strnlen m s maxlen = strnlen_loop m s 0 (unat maxlen)"

text \<open>\<open>unsigned c1 = *s1\<close> sign-extends the \<open>char\<close> to 32 bits.\<close>

definition char_to_unsigned :: "u8 \<Rightarrow> u32" where
  "char_to_unsigned c = scast c"

partial_function (option) internal_strcmp :: "bytes \<Rightarrow> u64 \<Rightarrow> u64 \<Rightarrow> int option" where
  "internal_strcmp m s1 s2 =
     (let c1 = char_to_unsigned (m s1); c2 = char_to_unsigned (m s2) in
      if c1 \<noteq> c2 then Some (if c1 < c2 then -1 else 1)
      else if c1 = 0 then Some 0
      else internal_strcmp m (s1 + 1) (s2 + 1))"

fun internal_strncmp :: "bytes \<Rightarrow> u64 \<Rightarrow> u64 \<Rightarrow> nat \<Rightarrow> int" where
  "internal_strncmp m s1 s2 0 = 0"
| "internal_strncmp m s1 s2 (Suc n) =
     (let c1 = char_to_unsigned (m s1); c2 = char_to_unsigned (m s2) in
      if c1 \<noteq> c2 then (if c1 < c2 then -1 else 1)
      else if c1 = 0 then 0
      else internal_strncmp m (s1 + 1) (s2 + 1) n)"

text \<open>A found position is \<open>Some (Some p)\<close>, the null pointer \<open>Some None\<close>.\<close>

partial_function (option) internal_strchr :: "bytes \<Rightarrow> u64 \<Rightarrow> int \<Rightarrow> u64 option option" where
  "internal_strchr m s c =
     (if m s = word_of_int c then Some (Some s)
      else if m s = 0 then Some None
      else internal_strchr m (s + 1) c)"

definition internal_strchrnul :: "bytes \<Rightarrow> u64 \<Rightarrow> int \<Rightarrow> u64 option" where
  "internal_strchrnul m s c =
     do { r \<leftarrow> internal_strchr m s c;
          case r of Some p \<Rightarrow> Some p
                  | None \<Rightarrow> do { n \<leftarrow> internal_strlen m s; Some (s + n) } }"

partial_function (option) strrchr_from :: "bytes \<Rightarrow> u64 \<Rightarrow> int \<Rightarrow> u64 \<Rightarrow> u64 option \<Rightarrow> u64 option option" where
  "strrchr_from m s c i res =
     (if m (s + i) \<noteq> 0
      then strrchr_from m s c (i + 1) (if sint (m (s + i)) = c then Some (s + i) else res)
      else Some res)"

definition internal_strrchr :: "bytes \<Rightarrow> u64 \<Rightarrow> int \<Rightarrow> u64 option option" where
  "internal_strrchr m s c = strrchr_from m s c 0 None"

text \<open>\<open>strstr\<close>: the first position at which the needle's bytes match.\<close>

fun strstr_loop :: "bytes \<Rightarrow> u64 \<Rightarrow> u64 \<Rightarrow> nat \<Rightarrow> u64 \<Rightarrow> nat \<Rightarrow> u64 option" where
  "strstr_loop m haystack needle len2 pos 0 = None"
| "strstr_loop m haystack needle len2 pos (Suc k) =
     (if internal_memcmp m (haystack + pos) needle len2 = 0 then Some (haystack + pos)
      else strstr_loop m haystack needle len2 (pos + 1) k)"

definition internal_strstr :: "bytes \<Rightarrow> u64 \<Rightarrow> u64 \<Rightarrow> u64 option option" where
  "internal_strstr m haystack needle =
     do { len1 \<leftarrow> internal_strlen m haystack;
          len2 \<leftarrow> internal_strlen m needle;
          Some (if len1 < len2 then None
                else strstr_loop m haystack needle (unat len2) 0 (Suc (unat (len1 - len2)))) }"

partial_function (option) strcspn_from :: "bytes \<Rightarrow> u64 \<Rightarrow> u64 \<Rightarrow> u64 \<Rightarrow> u64 option" where
  "strcspn_from m s reject i =
     (if m (s + i) = 0 then Some i
      else do { r \<leftarrow> internal_strchr m reject (sint (m (s + i)));
                if r \<noteq> None then Some i else strcspn_from m s reject (i + 1) })"

definition internal_strcspn :: "bytes \<Rightarrow> u64 \<Rightarrow> u64 \<Rightarrow> u64 option" where
  "internal_strcspn m s reject = strcspn_from m s reject 0"

text \<open>The copy loop of \<open>strncpy\<close> and \<open>strncat\<close>: at most \<open>k\<close> characters, and where it stopped.\<close>

fun strn_copy :: "bytes \<Rightarrow> u64 \<Rightarrow> u64 \<Rightarrow> u64 \<Rightarrow> nat \<Rightarrow> u64 \<times> bytes" where
  "strn_copy m dst src i 0 = (i, m)"
| "strn_copy m dst src i (Suc k) =
     (if m (src + i) \<noteq> 0 then strn_copy (m(dst + i := m (src + i))) dst src (i + 1) k else (i, m))"

definition internal_strncat :: "bytes \<Rightarrow> u64 \<Rightarrow> u64 \<Rightarrow> u64 \<Rightarrow> bytes option" where
  "internal_strncat m dst src n =
     do { len \<leftarrow> internal_strlen m dst;
          let (i, m1) = strn_copy m (dst + len) src 0 (unat n);
          Some (m1(dst + len + i := 0)) }"

definition internal_strncpy :: "bytes \<Rightarrow> u64 \<Rightarrow> u64 \<Rightarrow> u64 \<Rightarrow> bytes" where
  "internal_strncpy m dst src n =
     (let (i, m1) = strn_copy m dst src 0 (unat n) in internal_memset m1 (dst + i) 0 (n - i))"

definition internal_strlcpy :: "bytes \<Rightarrow> u64 \<Rightarrow> u64 \<Rightarrow> u64 \<Rightarrow> (u64 \<times> bytes) option" where
  "internal_strlcpy m dst src maxlen =
     do { srclen \<leftarrow> internal_strlen m src;
          m' \<leftarrow> (if srclen < maxlen then internal_memmove m dst src (srclen + 1)
                 else if maxlen \<noteq> 0
                 then do { m1 \<leftarrow> internal_memmove m dst src (maxlen - 1);
                           Some (m1(dst + (maxlen - 1) := 0)) }
                 else Some m);
          Some (srclen, m') }"

definition internal_strlcat :: "bytes \<Rightarrow> u64 \<Rightarrow> u64 \<Rightarrow> u64 \<Rightarrow> (u64 \<times> bytes) option" where
  "internal_strlcat m dst src maxlen =
     do { srclen \<leftarrow> internal_strlen m src;
          let dstlen = internal_strnlen m dst maxlen;
          if dstlen = maxlen then Some (maxlen + srclen, m)
          else do {
            m' \<leftarrow> (if srclen < maxlen - dstlen
                   then internal_memmove m (dst + dstlen) src (srclen + 1)
                   else do { m1 \<leftarrow> internal_memmove m (dst + dstlen) src (maxlen - dstlen - 1);
                             Some (m1(dst + (maxlen - 1) := 0)) });
            Some (dstlen + srclen, m') } }"

section \<open>Number parsing\<close>

definition UINT64_MAX :: u64 where
  "UINT64_MAX = - 1"

definition INT64_MAX :: u64 where
  "INT64_MAX = 0x7FFFFFFFFFFFFFFF"

text \<open>\<open>IsSpace(*nptr)\<close> and \<open>IsDigit(*nptr)\<close> on the promoted \<open>char\<close>.\<close>

partial_function (option) skip_spaces :: "bytes \<Rightarrow> u64 \<Rightarrow> u64 option" where
  "skip_spaces m nptr = (if IsSpace (sint (m nptr)) then skip_spaces m (nptr + 1) else Some nptr)"

definition add_digit :: "u64 \<Rightarrow> u64 \<Rightarrow> u64" where
  "add_digit res digit =
     (let r = (if res \<le> UINT64_MAX div 10 then res * 10 else UINT64_MAX)
      in if r \<le> UINT64_MAX - digit then r + digit else UINT64_MAX)"

partial_function (option) parse_digits :: "bytes \<Rightarrow> u64 \<Rightarrow> u64 \<Rightarrow> bool \<Rightarrow> (u64 \<times> u64 \<times> bool) option" where
  "parse_digits m nptr res have_digits =
     (if IsDigit (sint (m nptr))
      then parse_digits m (nptr + 1) (add_digit res (word_of_int (sint (m nptr) - 48))) True
      else Some (nptr, res, have_digits))"

text \<open>The result and the end pointer.\<close>

definition internal_simple_strtoll :: "bytes \<Rightarrow> u64 \<Rightarrow> int \<Rightarrow> (int \<times> u64) option" where
  "internal_simple_strtoll m nptr base =
     (if base \<noteq> 10 then None
      else do {
        old_nptr \<leftarrow> skip_spaces m nptr;
        let neg = (m old_nptr = 45);
        let start = (if m old_nptr = 43 \<or> m old_nptr = 45 then old_nptr + 1 else old_nptr);
        (fin, res, have_digits) \<leftarrow> parse_digits m start 0 False;
        let v = (if neg then (if res > INT64_MAX then - (2 ^ 63) else sint res * - 1)
                 else sint (min INT64_MAX res));
        Some (v, if have_digits then fin else old_nptr) })"

section \<open>The block routines\<close>

text \<open>An address is one of the \<open>n\<close> bytes from \<open>d\<close> exactly when its offset, taken modulo the address
  space, is below \<open>n\<close>.\<close>

lemma unat_minus_1: "unat (- 1 :: u64) = 2 ^ 64 - 1"
  by (simp add: unsigned_minus_1_eq_mask mask_eq_exp_minus_1)

lemma offset_pred:
  assumes "(a :: u64) \<noteq> d"
  shows "unat (a - d) = Suc (unat (a - (d + 1)))"
proof -
  have nz: "a - d \<noteq> 0" using assms by simp
  have "a - (d + 1) = a - d - 1" by simp
  then have k: "unat (a - (d + 1)) = unat (a - d) - 1"
    using unat_minus_one [OF nz] by (simp only:)
  have "unat (a - d) \<noteq> 0" using nz by (simp add: unat_eq_0)
  then show ?thesis using k by linarith
qed

lemma offset_Suc: "unat ((a :: u64) - d) < Suc n \<longleftrightarrow> a = d \<or> unat (a - (d + 1)) < n"
  by (cases "a = d") (simp_all add: offset_pred)

lemma copy_up_spec:
  assumes "n \<le> 2 ^ 64" and "n \<le> unat (d - s)"
  shows "copy_up m d s n = (\<lambda>a. if unat (a - d) < n then m (s + (a - d)) else m a)"
  using assms
proof (induction n arbitrary: m d s)
  case (Suc n)
  have eq: "(d + 1) - (s + 1) = d - s" by simp
  have off: "s + 1 + (a - (d + 1)) = s + (a - d)" for a :: u64 by (simp add: algebra_simps)
  have ne: "s + (a - d) \<noteq> d" if "unat (a - (d + 1)) < n" for a
  proof
    assume "s + (a - d) = d"
    then have "a - d = d - s" by (metis add_diff_cancel_left')
    moreover have "unat (a - d) < Suc n"
      using that offset_Suc [of a d n] Suc.prems(1) by simp
    ultimately show False using Suc.prems(2) by simp
  qed
  have self: "\<not> unat (d - (d + 1)) < n"
    using Suc.prems(1) by (simp add: unat_minus_1)
  have IH: "copy_up m' (d + 1) (s + 1) n
      = (\<lambda>a. if unat (a - (d + 1)) < n then m' (s + (a - d)) else m' a)" for m'
    using Suc.IH [of "d + 1" "s + 1" m'] Suc.prems by (simp only: eq off)
  show ?case
    by (rule ext) (use IH ne self offset_Suc [of _ d n] Suc.prems(1) in auto)
qed simp

lemma copy_down_spec:
  assumes "n \<le> 2 ^ 64" and "n \<le> unat (s - d)"
  shows "copy_down m d s n = (\<lambda>a. if unat (a - d) < n then m (s + (a - d)) else m a)"
  using assms
proof (induction n arbitrary: m)
  case (Suc n)
  have n: "unat (of_nat n :: u64) = n"
    using Suc.prems(1) by (simp add: unat_of_nat_small)
  have split: "unat (a - d) < Suc n \<longleftrightarrow> unat (a - d) < n \<or> a = d + of_nat n" for a
    using n by (metis add_diff_cancel_left' diff_add_cancel add.commute less_Suc_eq word_unat_eq_iff)
  have ne: "s + (a - d) \<noteq> d + of_nat n" if "unat (a - d) < n" for a
  proof
    assume "s + (a - d) = d + of_nat n"
    then have e: "s - d = of_nat n - (a - d)" by (simp add: algebra_simps)
    have "a - d \<le> of_nat n" using that n by (simp add: word_le_nat_alt)
    then have "unat (s - d) = n - unat (a - d)" using n by (simp add: e unat_sub)
    then show False using Suc.prems(2) by simp
  qed
  have self: "\<not> unat (d + of_nat n - d) < n" by (simp add: n)
  show ?case
    by (rule ext) (use Suc.IH Suc.prems ne self split in auto)
qed simp

lemma memset_slow_spec:
  assumes "n \<le> 2 ^ 64"
  shows "memset_slow m t c n = (\<lambda>a. if unat (a - t) < n then c else m a)"
  using assms
proof (induction n arbitrary: m t)
  case (Suc n)
  then show ?case
    using offset_Suc [of _ t n] by (auto simp: fun_eq_iff)
qed simp

text \<open>The replicated pattern is the byte eight times when the fill value is a byte.\<close>

lemma store64_spec:
  assumes "k \<le> 8" and "\<And>j. j < 8 * k \<Longrightarrow> bit v j \<longleftrightarrow> bit (c :: u8) (j mod 8)"
  shows "store64 m p v k = memset_slow m p c k"
  using assms
proof (induction k arbitrary: m p v)
  case (Suc k)
  have "ucast v = c"
    using Suc.prems(2) by (intro bit_word_eqI) (simp add: bit_simps)
  moreover have "bit (drop_bit 8 v) j \<longleftrightarrow> bit c (j mod 8)" if "j < 8 * k" for j
    using Suc.prems(2) [of "8 + j"] that by (simp add: bit_simps)
  ultimately show ?case using Suc by simp
qed simp

lemma store64_at:
  "k \<le> 8 \<Longrightarrow> store64 m p v k = (\<lambda>a. if unat (a - p) < k then ucast (drop_bit (8 * unat (a - p)) v) else m a)"
proof (induction k arbitrary: m p v)
  case (Suc k)
  have sh: "8 * unat (a - p) = 8 + 8 * unat (a - (p + 1))" if "a \<noteq> p" for a
    using offset_pred [OF that] by simp
  have self: "\<not> unat (p - (p + 1)) < k" using Suc.prems by (simp add: unat_minus_1)
  show ?case
  proof (rule ext)
    fix a
    show "store64 m p v (Suc k) a = (if unat (a - p) < Suc k then ucast (drop_bit (8 * unat (a - p)) v) else m a)"
      using fun_cong [OF Suc.IH [of "m(p := ucast v)" "p + 1" "drop_bit 8 v"], of a] Suc.prems self
        sh [of a] offset_Suc [of a p k]
      by (cases "a = p") (simp_all only: store64.simps, simp_all add: drop_bit_drop_bit add.commute)
  qed
qed simp

lemma memset_slow_append: "memset_slow m p c (i + j) = memset_slow (memset_slow m p c i) (p + of_nat i) c j"
  by (induction i arbitrary: m p) (simp_all add: algebra_simps)

lemma memset_pattern_byte:
  assumes "0 \<le> c" "c < 256" and "j < 64"
  shows "bit (memset_pattern c) j \<longleftrightarrow> bit (word_of_int c :: u8) (j mod 8)"
proof -
  have hi: "\<not> bit c i" if "8 \<le> i" for i
  proof -
    have "c < 2 ^ i" using assms(2) power_increasing [OF that, of "2 :: int"] by simp
    then show ?thesis using assms(1) by (simp add: bit_iff_odd)
  qed
  obtain q k where j: "j = 8 * q + k" "k < 8" "q < 8"
    using assms(3) by (intro that [of "j div 8" "j mod 8"]) auto
  moreover from j have "j mod 8 = k" by simp
  moreover from j have "q \<in> {0, 1, 2, 3, 4, 5, 6, 7}" by auto
  ultimately show ?thesis
    by (elim insertE emptyE) (use j in \<open>simp_all add: memset_pattern_def Let_def bit_simps hi\<close>)
qed

lemma memset_fast_slow:
  assumes "0 \<le> c" "c < 256"
  shows "16 * k \<le> 2 ^ 64 \<Longrightarrow>
    memset_fast m p (memset_pattern c) k = memset_slow m p (word_of_int c) (16 * k)"
proof (induction k arbitrary: m p)
  case (Suc k)
  let ?c = "word_of_int c :: u8"
  have st: "store64 m p (memset_pattern c) 8 = memset_slow m p ?c 8" for m p
    using store64_spec [of 8 "memset_pattern c" ?c m p] memset_pattern_byte [OF assms] by simp
  have blk: "memset_slow (memset_slow m (p + 8) ?c 8) p ?c 8 = memset_slow m p ?c 16"
  proof -
    have "unat (a - p) < 16 \<longleftrightarrow> unat (a - p) < 8 \<or> unat (a - (p + 8)) < 8" for a
    proof -
      have "a - (p + 8) = (a - p) - 8" by simp
      then have "unat (a - (p + 8)) = unat (a - p - 8)" by (simp only:)
      moreover have "unat (x - 8) = unat x - 8" if "8 \<le> unat x" for x :: u64
        using that by (simp add: unat_sub word_le_nat_alt)
      moreover have "8 \<le> unat (x - 8)" if "unat x < 8" for x :: u64
        using that by (simp add: unat_sub_if')
      ultimately show ?thesis by (cases "unat (a - p) < 8") (simp, simp only: not_less, linarith)
    qed
    then show ?thesis by (auto simp: memset_slow_spec fun_eq_iff)
  qed
  have "16 * Suc k = 16 + 16 * k" by simp
  then show ?case
    using Suc.IH [of "memset_slow m p ?c 16" "p + 16"] Suc.prems
    by (simp only: memset_fast.simps st blk memset_slow_append) simp
qed simp

theorem internal_memset_spec:
  assumes "0 \<le> c" "c < 256"
  shows "internal_memset m s c n = (\<lambda>a. if a - s < n then word_of_int c else m a)"
proof -
  have "16 * (unat n div 16) = unat n" if "n mod 16 = 0"
  proof -
    have "unat n mod 16 = 0" using arg_cong [OF that, of unat] by (simp add: unat_mod_distrib)
    then show ?thesis by auto
  qed
  then show ?thesis
    using memset_fast_slow [OF assms, of "unat n div 16" m s] unat_64_less [of n]
    by (auto simp: internal_memset_def memset_slow_spec fun_eq_iff word_less_nat_alt)
qed

theorem internal_memcpy_spec:
  assumes "n \<le> dest - src"
  shows "internal_memcpy m dest src n = (\<lambda>a. if a - dest < n then m (src + (a - dest)) else m a)"
  using copy_up_spec [of "unat n" dest src m] assms unat_64_less [of n]
  by (simp add: internal_memcpy_def word_less_nat_alt word_le_nat_alt)

theorem internal_memmove_spec:
  assumes "0 \<le> sint n" and "unat s + unat n \<le> 2 ^ 64" and "unat d + unat n \<le> 2 ^ 64"
  shows "internal_memmove m d s n = Some (\<lambda>a. if a - d < n then m (s + (a - d)) else m a)"
proof -
  have n: "unat n \<le> 2 ^ 64" using unat_64_less [of n] by simp
  have gap: "unat n \<le> unat (x - y)" if "x < y" "unat y + unat n \<le> 2 ^ 64" for x y :: u64
    using that by (simp add: unat_sub_if' word_less_nat_alt)
  show ?thesis
    using assms copy_up_spec [OF n, of d s m] copy_down_spec [OF n, of s d m] gap [of d s] gap [of s d]
    by (cases d s rule: linorder_cases) (auto simp: internal_memmove_def word_less_nat_alt fun_eq_iff)
qed

section \<open>The string routines\<close>

text \<open>The zero-terminated string at an address.\<close>

fun cstr :: "bytes \<Rightarrow> u64 \<Rightarrow> u8 list \<Rightarrow> bool" where
  "cstr m p [] \<longleftrightarrow> m p = 0"
| "cstr m p (x # xs) \<longleftrightarrow> m p = x \<and> x \<noteq> 0 \<and> cstr m (p + 1) xs"

lemma succ_offset: "p + of_nat (Suc i) = (p + 1) + (of_nat i :: u64)"
  by simp

lemma cstr_nth: "cstr m p xs \<Longrightarrow> i < length xs \<Longrightarrow> m (p + of_nat i) = xs ! i \<and> xs ! i \<noteq> 0"
proof (induction xs arbitrary: p i)
  case (Cons x xs)
  show ?case
  proof (cases i)
    case (Suc j)
    then show ?thesis using Cons.IH [of "p + 1" j] Cons.prems by (simp add: succ_offset del: of_nat_Suc)
  qed (use Cons.prems in simp)
qed simp

lemma cstr_end: "cstr m p xs \<Longrightarrow> m (p + of_nat (length xs)) = 0"
  by (induction xs arbitrary: p) (simp_all add: succ_offset del: of_nat_Suc)

lemma cstr_length:
  assumes "cstr m p xs"
  shows "length xs < 2 ^ 64"
proof (rule ccontr)
  let ?i = "length xs - 2 ^ 64"
  assume "\<not> ?thesis"
  then have "length xs = ?i + 2 ^ 64" by simp
  then have "of_nat (length xs) = (of_nat ?i :: u64) + of_nat (2 ^ 64)" and "?i < length xs"
    by (metis of_nat_add) (metis \<open>length xs = ?i + 2 ^ 64\<close> less_add_same_cancel1 zero_less_numeral zero_less_power)
  moreover have "of_nat (2 ^ 64) = (0 :: u64)"
    using of_nat_2p [where 'a = 64] by simp
  ultimately have "of_nat (length xs) = (of_nat ?i :: u64)" and "?i < length xs" by simp_all
  then show False using cstr_nth [OF assms, of ?i] cstr_end [OF assms] by simp
qed

lemma strlen_from_spec: "cstr m (s + i) xs \<Longrightarrow> strlen_from m s i = Some (i + of_nat (length xs))"
  by (induction xs arbitrary: i) (subst strlen_from.simps, simp add: algebra_simps)+

lemma internal_strlen_spec: "cstr m s xs \<Longrightarrow> internal_strlen m s = Some (of_nat (length xs))"
  using strlen_from_spec [of m s 0 xs] by (simp add: internal_strlen_def)

lemma unat_cstr_length: "cstr m p xs \<Longrightarrow> unat (of_nat (length xs) :: u64) = length xs"
  using cstr_length by (simp add: unat_of_nat_small)

lemma internal_memcmp_0_iff:
  "internal_memcmp m a b n = 0 \<longleftrightarrow> (\<forall>i<n. m (a + of_nat i) = m (b + of_nat i))"
proof (induction n arbitrary: a b)
  case (Suc n)
  then show ?case by (simp add: All_less_Suc2 algebra_simps)
qed simp

text \<open>Bytes as unsigned numbers decide \<open>strcmp\<close>, although \<open>char\<close> is signed.\<close>

fun lex_compare :: "u8 list \<Rightarrow> u8 list \<Rightarrow> int" where
  "lex_compare [] [] = 0"
| "lex_compare [] (y # ys) = -1"
| "lex_compare (x # xs) [] = 1"
| "lex_compare (x # xs) (y # ys) = (if x < y then -1 else if y < x then 1 else lex_compare xs ys)"

lemma uint_scast_8: "uint (scast (c :: u8) :: u32) = (if uint c < 128 then uint c else uint c + (2 ^ 32 - 2 ^ 8))"
proof -
  have b: "0 \<le> uint c" "uint c < 256" using uint_bounded [of c] by simp_all
  have "sint c = (uint c + 128) mod 256 - 128"
    using int_word_sint [of "uint c", where 'a = 8] by simp
  also have "\<dots> = (if uint c < 128 then uint c else uint c - 256)"
    using b by (auto simp: not_less mod_pos_pos_trivial mod_pos_geq)
  finally have s: "sint c = (if uint c < 128 then uint c else uint c - 256)" .
  have "uint (scast c :: u32) = sint c mod 2 ^ 32"
    by (simp only: scast_eq uint_word_of_int) simp
  also have "\<dots> = (if uint c < 128 then uint c else uint c + (2 ^ 32 - 2 ^ 8))"
  proof (cases "uint c < 128")
    case False
    have "(uint c - 256) mod 2 ^ 32 = (uint c - 256 + 2 ^ 32) mod 2 ^ 32"
      by (rule mod_add_self2 [symmetric])
    also have "\<dots> = uint c - 256 + 2 ^ 32" using b False by (intro mod_pos_pos_trivial) simp_all
    finally show ?thesis using False by (simp add: s)
  qed (use b in \<open>simp add: s\<close>)
  finally show ?thesis .
qed

lemma char_to_unsigned_less: "char_to_unsigned x < char_to_unsigned y \<longleftrightarrow> x < y"
  using uint_bounded [of x] uint_bounded [of y]
  by (simp add: char_to_unsigned_def word_less_def uint_scast_8)

lemma char_to_unsigned_eq: "char_to_unsigned x = char_to_unsigned y \<longleftrightarrow> x = y"
  using char_to_unsigned_less [of x y] char_to_unsigned_less [of y x]
  by (metis less_irrefl linorder_neqE)

lemma char_to_unsigned_0: "char_to_unsigned x = 0 \<longleftrightarrow> x = 0"
  using char_to_unsigned_eq [of x 0] by (simp add: char_to_unsigned_def)

lemma internal_strcmp_unfold:
  "internal_strcmp m s1 s2 =
     (if m s1 < m s2 then Some (- 1) else if m s2 < m s1 then Some 1
      else if m s1 = 0 then Some 0 else internal_strcmp m (s1 + 1) (s2 + 1))"
  by (subst internal_strcmp.simps)
    (auto simp: Let_def char_to_unsigned_eq char_to_unsigned_less char_to_unsigned_0)

theorem internal_strcmp_spec:
  "cstr m s1 xs \<Longrightarrow> cstr m s2 ys \<Longrightarrow> internal_strcmp m s1 s2 = Some (lex_compare xs ys)"
proof (induction xs ys arbitrary: s1 s2 rule: lex_compare.induct)
  case (4 x xs y ys)
  then show ?case by (subst internal_strcmp_unfold) auto
qed (subst internal_strcmp_unfold, force simp: word_gt_0)+

lemma lex_compare_0: "lex_compare xs ys = 0 \<longleftrightarrow> xs = ys"
  by (induction xs ys rule: lex_compare.induct) auto

text \<open>\<open>occurs_at xs ys i\<close>: the string \<open>ys\<close> is in \<open>xs\<close> at position \<open>i\<close>.\<close>

definition occurs_at :: "u8 list \<Rightarrow> u8 list \<Rightarrow> nat \<Rightarrow> bool" where
  "occurs_at xs ys i \<longleftrightarrow> i + length ys \<le> length xs \<and> take (length ys) (drop i xs) = ys"

lemma memcmp_occurs:
  assumes "cstr m h xs" "cstr m n ys" and "i + length ys \<le> length xs"
  shows "internal_memcmp m (h + of_nat i) n (length ys) = 0 \<longleftrightarrow> occurs_at xs ys i"
proof -
  have "m (h + of_nat i + of_nat j) = xs ! (i + j) \<and> m (n + of_nat j) = ys ! j" if "j < length ys" for j
    using cstr_nth [OF assms(1), of "i + j"] cstr_nth [OF assms(2) that] assms(3) that
    by (simp add: algebra_simps)
  then have "internal_memcmp m (h + of_nat i) n (length ys) = 0 \<longleftrightarrow> (\<forall>j<length ys. xs ! (i + j) = ys ! j)"
    by (simp add: internal_memcmp_0_iff)
  then show ?thesis
    using assms(3) by (simp add: occurs_at_def list_eq_iff_nth_eq)
qed

lemma strstr_loop_spec:
  assumes "cstr m h xs" "cstr m n ys" and "pos + k = Suc (length xs - length ys)" "length ys \<le> length xs"
  shows "strstr_loop m h n (length ys) (of_nat pos) k =
     (if \<exists>i \<ge> pos. occurs_at xs ys i then Some (h + of_nat (LEAST i. pos \<le> i \<and> occurs_at xs ys i)) else None)"
  using assms(3)
proof (induction k arbitrary: pos)
  case 0
  then have "\<not> occurs_at xs ys i" if "pos \<le> i" for i
    using that by (auto simp: occurs_at_def)
  then show ?case by auto
next
  case (Suc k)
  have here: "internal_memcmp m (h + of_nat pos) n (length ys) = 0 \<longleftrightarrow> occurs_at xs ys pos"
    using Suc.prems assms by (intro memcmp_occurs) simp_all
  show ?case
  proof (cases "occurs_at xs ys pos")
    case True
    then have "(LEAST i. pos \<le> i \<and> occurs_at xs ys i) = pos" by (intro Least_equality) auto
    with True here show ?thesis by auto
  next
    case False
    then have "pos \<le> i \<and> occurs_at xs ys i \<longleftrightarrow> Suc pos \<le> i \<and> occurs_at xs ys i" for i
      by (metis Suc_leD le_antisym not_less_eq_eq)
    with False here Suc show ?thesis
      using Suc.IH [of "Suc pos"] by (simp add: add.commute)
  qed
qed

theorem internal_strstr_spec:
  assumes "cstr m h xs" "cstr m n ys"
  shows "internal_strstr m h n = Some
     (if \<exists>i. occurs_at xs ys i then Some (h + of_nat (LEAST i. occurs_at xs ys i)) else None)"
proof -
  have len: "unat (of_nat (length xs) :: u64) = length xs" "unat (of_nat (length ys) :: u64) = length ys"
    using unat_cstr_length assms by auto
  show ?thesis
  proof (cases "length xs < length ys")
    case True
    then have "\<not> occurs_at xs ys i" for i by (simp add: occurs_at_def)
    with True len show ?thesis
      by (simp add: internal_strstr_def internal_strlen_spec [OF assms(1)] internal_strlen_spec [OF assms(2)]
          word_less_nat_alt)
  next
    case False
    then have sub: "unat (of_nat (length xs) - of_nat (length ys) :: u64) = length xs - length ys"
      using len by (simp add: unat_sub word_le_nat_alt)
    have "strstr_loop m h n (length ys) 0 (Suc (length xs - length ys)) =
      (if \<exists>i. occurs_at xs ys i then Some (h + of_nat (LEAST i. occurs_at xs ys i)) else None)"
      using strstr_loop_spec [OF assms, of 0 "Suc (length xs - length ys)"] False by simp
    then show ?thesis
      using False sub len
      by (simp add: internal_strstr_def internal_strlen_spec [OF assms(1)] internal_strlen_spec [OF assms(2)]
          word_less_nat_alt del: strstr_loop.simps)
  qed
qed

section \<open>Number parsing saturates\<close>

text \<open>The bytes at an address.\<close>

fun text_at :: "bytes \<Rightarrow> u64 \<Rightarrow> u8 list \<Rightarrow> bool" where
  "text_at m p [] \<longleftrightarrow> True"
| "text_at m p (x # xs) \<longleftrightarrow> m p = x \<and> text_at m (p + 1) xs"

lemma text_at_append: "text_at m p (xs @ ys) \<longleftrightarrow> text_at m p xs \<and> text_at m (p + of_nat (length xs)) ys"
  by (induction xs arbitrary: p) (simp_all add: add.assoc)

definition char_digit :: "nat \<Rightarrow> u8" where
  "char_digit d = of_nat (48 + d)"

definition digits_value :: "nat list \<Rightarrow> nat" where
  "digits_value ds = foldl (\<lambda>v d. 10 * v + d) 0 ds"

lemma sint_char_digit: "d \<le> 9 \<Longrightarrow> sint (char_digit d) = 48 + int d"
  by (auto simp: le_Suc_eq numeral_eq_Suc char_digit_def)

lemma add_digit_saturates:
  assumes "unat r = min v (2 ^ 64 - 1)" and "d \<le> 9"
  shows "unat (add_digit r (of_nat d)) = min (10 * v + d) (2 ^ 64 - 1)"
proof -
  have d: "unat (of_nat d :: u64) = d" using assms(2) by (simp add: unat_of_nat_small)
  have "unat (r * 10) = unat r * 10" if "unat r \<le> 1844674407370955161"
    using that by (simp add: unat_word_ariths)
  moreover have "unat (x + of_nat d) = unat x + d" if "unat x + d < 2 ^ 64" for x :: u64
    using that by (simp add: unat_word_ariths d)
  moreover have "unat (- 1 - of_nat d :: u64) = 18446744073709551615 - d"
    using assms(2) by (simp add: unat_sub word_le_nat_alt unat_minus_1 d)
  ultimately show ?thesis
    using assms by (auto simp: add_digit_def Let_def UINT64_MAX_def word_le_nat_alt unat_minus_1 unat_div)
qed

lemma parse_digits_spec:
  assumes "text_at m p (map char_digit ds @ [e])" "\<forall>d \<in> set ds. d \<le> 9" "\<not> IsDigit (sint e)"
    and "unat r = min v (2 ^ 64 - 1)"
  shows "\<exists>r'. parse_digits m p r h = Some (p + of_nat (length ds), r', h \<or> ds \<noteq> [])
     \<and> unat r' = min (foldl (\<lambda>v d. 10 * v + d) v ds) (2 ^ 64 - 1)"
  using assms
proof (induction ds arbitrary: p r v h)
  case Nil
  then show ?case by (subst parse_digits.simps) simp
next
  case (Cons d ds)
  have "sint (m p) = 48 + int d" "IsDigit (48 + int d)"
    using Cons.prems by (auto simp: sint_char_digit IsDigit_def)
  then have "parse_digits m p r h = parse_digits m (p + 1) (add_digit r (of_nat d)) True"
    by (subst parse_digits.simps) simp
  then show ?case
    using Cons.IH [of "p + 1" "add_digit r (of_nat d)" "10 * v + d" True] Cons.prems
      add_digit_saturates [of r v d] by (auto simp: add.assoc)
qed

lemma skip_spaces_spec:
  "text_at m p (sp @ [e]) \<Longrightarrow> \<forall>c \<in> set sp. IsSpace (sint c) \<Longrightarrow> \<not> IsSpace (sint e) \<Longrightarrow>
   skip_spaces m p = Some (p + of_nat (length sp))"
  by (induction sp arbitrary: p) (subst skip_spaces.simps, simp add: add.assoc)+

lemma clamp_result:
  assumes "unat r = min v (2 ^ 64 - 1)"
  shows "(r > INT64_MAX) = (2 ^ 63 \<le> v)"
    and "v < 2 ^ 63 \<Longrightarrow> sint r = int v"
    and "sint (min INT64_MAX r) = min (int v) (2 ^ 63 - 1)"
proof -
  have mx: "unat INT64_MAX = 2 ^ 63 - 1" "sint INT64_MAX = 2 ^ 63 - 1"
    by (simp_all add: INT64_MAX_def)
  show gt: "(r > INT64_MAX) = (2 ^ 63 \<le> v)"
    unfolding word_less_nat_alt mx assms by (simp add: min_def) linarith
  show small: "sint r = int v" if "v < 2 ^ 63"
    using assms that sint_64_small [of r] by simp
  show "sint (min INT64_MAX r) = min (int v) (2 ^ 63 - 1)"
  proof (cases "2 ^ 63 \<le> v")
    case True
    then have "min INT64_MAX r = INT64_MAX" using gt less_imp_le [of INT64_MAX r] by (simp add: min_def)
    then show ?thesis using True mx by simp
  next
    case False
    then have "min INT64_MAX r = r" using gt by (simp add: min_def)
    then show ?thesis using False small by simp
  qed
qed

theorem internal_simple_strtoll_spec:
  assumes tx: "text_at m p (sp @ sg @ map char_digit ds @ [e])"
    and sp: "\<forall>c \<in> set sp. IsSpace (sint c)" and sg: "sg = [] \<or> sg = [43] \<or> sg = [45]"
    and ds: "ds \<noteq> []" "\<forall>d \<in> set ds. d \<le> 9" and e: "\<not> IsDigit (sint e)"
  shows "internal_simple_strtoll m p 10 = Some
     (if sg = [45] then max (- int (digits_value ds)) (- (2 ^ 63)) else min (int (digits_value ds)) (2 ^ 63 - 1),
      p + of_nat (length sp) + of_nat (length sg) + of_nat (length ds))"
proof -
  let ?q = "p + of_nat (length sp)" and ?s = "p + of_nat (length sp) + of_nat (length sg)"
  obtain d ds' where d: "ds = d # ds'" using ds(1) by (cases ds) auto
  have dig: "sint (char_digit d) = 48 + int d" "d \<le> 9" using ds d by (auto simp: sint_char_digit)
  then have nd: "char_digit d \<noteq> 43" "char_digit d \<noteq> 45" by auto
  have hd: "m ?q = hd (sg @ map char_digit ds)" and "\<not> IsSpace (sint (m ?q))"
    using tx sg d dig by (auto simp: text_at_append IsSpace_def)
  then have sk: "skip_spaces m p = Some ?q"
    using skip_spaces_spec [of m p sp "m ?q"] tx sp by (simp add: text_at_append)
  have start: "(if m ?q = 43 \<or> sg = [45] then ?q + 1 else ?q) = ?s" and neg: "m ?q = 45 \<longleftrightarrow> sg = [45]"
    using hd sg d nd by auto
  obtain r where r: "parse_digits m ?s 0 False = Some (?s + of_nat (length ds), r, True)"
    "unat r = min (digits_value ds) (2 ^ 64 - 1)"
    using parse_digits_spec [of m ?s ds e 0 0 False] tx ds e by (auto simp: text_at_append digits_value_def)
  note res = clamp_result [OF r(2)]
  have "internal_simple_strtoll m p 10 = Some
      (if sg = [45] then (if r > INT64_MAX then - (2 ^ 63) else sint r * - 1) else sint (min INT64_MAX r),
       ?s + of_nat (length ds))"
    by (simp only: internal_simple_strtoll_def sk Let_def Option.bind.simps neg start r(1) prod.case
        simp_thms if_True if_False)
  then show ?thesis
    using res by auto
qed

section \<open>Copying a string\<close>

lemma text_at_nth: "text_at m p xs \<longleftrightarrow> (\<forall>i<length xs. m (p + of_nat i) = xs ! i)"
  by (induction xs arbitrary: p) (simp_all add: All_less_Suc2 add.assoc)

lemma cstr_text: "cstr m p xs \<longleftrightarrow> text_at m p (xs @ [0]) \<and> 0 \<notin> set xs"
  by (induction xs arbitrary: p) auto

lemma text_at_moved:
  assumes "text_at m s xs" "length xs \<le> unat n"
  shows "text_at (\<lambda>a. if a - d < n then m (s + (a - d)) else m' a) d xs"
proof -
  have "of_nat i < n" if "i < length xs" for i
    using that assms(2) unat_64_less [of n] by (simp add: word_less_nat_alt unat_of_nat_small)
  then show ?thesis using assms(1) by (simp add: text_at_nth)
qed

lemma strlcpy_fits:
  assumes src: "cstr m src xs" and fits: "length xs < unat maxlen" "unat maxlen < 2 ^ 63"
    and room: "unat src + unat maxlen \<le> 2 ^ 64" "unat dst + unat maxlen \<le> 2 ^ 64"
  shows "\<exists>m'. internal_strlcpy m dst src maxlen = Some (of_nat (length xs), m') \<and> cstr m' dst xs
      \<and> (\<forall>a. maxlen \<le> a - dst \<longrightarrow> m' a = m a)"
proof -
  let ?n = "of_nat (length xs) + 1 :: u64"
  have l: "unat (of_nat (length xs) :: u64) = length xs" using unat_cstr_length [OF src] .
  then have n: "unat ?n = Suc (length xs)" using fits by (simp add: unat_word_ariths)
  then have "sint ?n = int (unat ?n)" using fits by (intro sint_64_small) simp
  then have mv: "internal_memmove m dst src ?n = Some (\<lambda>a. if a - dst < ?n then m (src + (a - dst)) else m a)"
    using fits room n by (intro internal_memmove_spec) simp_all
  have "cstr (\<lambda>a. if a - dst < ?n then m (src + (a - dst)) else m a) dst xs"
    using src text_at_moved [of m src "xs @ [0]" ?n dst m] n by (simp add: cstr_text)
  moreover have "?n \<le> maxlen" using n fits by (simp add: word_le_nat_alt)
  ultimately show ?thesis
    using mv fits l
    by (auto simp: internal_strlcpy_def internal_strlen_spec [OF src] word_less_nat_alt not_less word_le_nat_alt)
qed

lemma strlcpy_truncates:
  assumes src: "cstr m src xs" and cut: "unat maxlen \<le> length xs" "maxlen \<noteq> 0" "unat maxlen < 2 ^ 63"
    and room: "unat src + unat maxlen \<le> 2 ^ 64" "unat dst + unat maxlen \<le> 2 ^ 64"
  shows "\<exists>m'. internal_strlcpy m dst src maxlen = Some (of_nat (length xs), m')
      \<and> cstr m' dst (take (unat maxlen - 1) xs) \<and> (\<forall>a. maxlen \<le> a - dst \<longrightarrow> m' a = m a)"
proof -
  let ?n = "maxlen - 1" and ?k = "unat maxlen - 1"
  have n: "unat ?n = ?k" "0 < unat maxlen" using cut(2) by (simp_all add: unat_minus_one unat_gt_0)
  have l: "unat (of_nat (length xs) :: u64) = length xs" using unat_cstr_length [OF src] .
  let ?m1 = "\<lambda>a. if a - dst < ?n then m (src + (a - dst)) else m a"
  let ?m' = "?m1(dst + ?n := 0)"
  have "0 \<le> sint ?n" using sint_64_small [of ?n] cut n by (metis diff_le_self le_less_trans of_nat_0_le_iff)
  then have mv: "internal_memmove m dst src ?n = Some ?m1"
    using room n by (intro internal_memmove_spec) auto
  have k: "of_nat i < ?n" if "i < ?k" for i
    using that n cut by (simp add: word_less_nat_alt unat_of_nat_small)
  then have xs: "?m' (dst + of_nat i) = xs ! i" if "i < ?k" for i
    using that cut k [OF that] less_imp_neq [OF k [OF that]] cstr_nth [OF src, of i] by auto
  have "of_nat ?k = ?n" by (subst n(1) [symmetric]) simp
  moreover have len: "length (take ?k xs) = ?k" using cut n by simp
  moreover have "text_at ?m' dst (take ?k xs)"
    unfolding text_at_nth len using xs by simp
  ultimately have "text_at ?m' dst (take ?k xs @ [0])"
    by (simp only: text_at_append) simp
  then have "cstr ?m' dst (take ?k xs)"
    using src by (auto simp: cstr_text dest: in_set_takeD)
  moreover have "?m' a = m a" if "maxlen \<le> a - dst" for a
  proof -
    have "?n < a - dst" using that n by (simp add: word_less_nat_alt word_le_nat_alt)
    then show ?thesis by auto
  qed
  ultimately show ?thesis
    using mv cut l
    by (auto simp: internal_strlcpy_def internal_strlen_spec [OF src] word_less_nat_alt not_less)
qed

section \<open>Properties\<close>

text \<open>\<open>strlcpy\<close> returns the length of the source, leaves a terminated copy of as much of it as
  fits in \<open>maxlen\<close> bytes, and writes nothing outside those bytes, whether or not it truncates.\<close>

theorem strlcpy_correct:
  assumes "cstr m src xs" and "maxlen \<noteq> 0" "unat maxlen < 2 ^ 63"
    and "unat src + unat maxlen \<le> 2 ^ 64" "unat dst + unat maxlen \<le> 2 ^ 64"
  shows "\<exists>m'. internal_strlcpy m dst src maxlen = Some (of_nat (length xs), m')
      \<and> cstr m' dst (take (unat maxlen - 1) xs) \<and> (\<forall>a. maxlen \<le> a - dst \<longrightarrow> m' a = m a)"
proof (cases "length xs < unat maxlen")
  case True
  then have "take (unat maxlen - 1) xs = xs" by simp
  then show ?thesis using strlcpy_fits [OF assms(1) True assms(3-5)] by simp
next
  case False
  then show ?thesis using strlcpy_truncates [OF assms(1) _ assms(2-5)] by simp
qed

definition demo_mem :: bytes where
  "demo_mem a = (if a = 16 then 112 else if a = 17 then 109 else if a = 18 then 200 else 0)"

theorem strlcpy_correct_witness:
  "\<exists>m'. internal_strlcpy demo_mem 64 16 3 = Some (3, m') \<and> cstr m' 64 [112, 109]"
  using strlcpy_correct [of demo_mem 16 "[112, 109, 200]" 3 64] by (auto simp: demo_mem_def)

text \<open>\<open>memmove\<close> is correct for overlapping blocks in both directions: every byte of the
  destination gets the byte the source had before the call, and no other byte changes.\<close>

theorem memmove_correct:
  assumes "0 \<le> sint n" and "unat s + unat n \<le> 2 ^ 64" and "unat d + unat n \<le> 2 ^ 64"
  shows "\<exists>m'. internal_memmove m d s n = Some m' \<and> (\<forall>i<n. m' (d + i) = m (s + i))
    \<and> (\<forall>a. n \<le> a - d \<longrightarrow> m' a = m a)"
  using internal_memmove_spec [OF assms] by (auto simp: not_less)

theorem memmove_correct_witness:
  "\<exists>m'. internal_memmove demo_mem 17 16 3 = Some m' \<and> m' 17 = 112 \<and> m' 18 = 109 \<and> m' 19 = 200"
proof -
  obtain m' where m': "internal_memmove demo_mem 17 16 3 = Some m'"
    "\<forall>i<3. m' (17 + i) = demo_mem (16 + i)"
    using memmove_correct [of 3 16 17 demo_mem] by auto
  from m'(2) have "m' 17 = 112" "m' 18 = 109" "m' 19 = 200"
    by (auto simp: demo_mem_def dest: spec [of _ 0] spec [of _ 1] spec [of _ 2])
  with m'(1) show ?thesis by blast
qed

text \<open>a decimal number with leading blanks and an optional sign is parsed to its value,
  saturated at the ends of the signed 64-bit range instead of wrapping, for any number of digits.\<close>

theorem strtoll_saturates:
  assumes "text_at m p (sp @ sg @ map char_digit ds @ [e])"
    and "\<forall>c \<in> set sp. IsSpace (sint c)" and "sg = [] \<or> sg = [43] \<or> sg = [45]"
    and "ds \<noteq> []" "\<forall>d \<in> set ds. d \<le> 9" and "\<not> IsDigit (sint e)"
  shows "internal_simple_strtoll m p 10 = Some
     (if sg = [45] then max (- int (digits_value ds)) (- (2 ^ 63)) else min (int (digits_value ds)) (2 ^ 63 - 1),
      p + of_nat (length sp) + of_nat (length sg) + of_nat (length ds))"
  using assms by (rule internal_simple_strtoll_spec)

definition demo_number :: bytes where
  "demo_number a = (if a = 0 then 32 else if a = 1 then 45 else if a = 2 then 52 else if a = 3 then 50 else 0)"

theorem strtoll_saturates_witness: "internal_simple_strtoll demo_number 0 10 = Some (- 42, 4)"
  using strtoll_saturates [of demo_number 0 "[32]" "[45]" "[4, 2]" 0]
  by (simp add: demo_number_def char_digit_def IsSpace_def IsDigit_def digits_value_def)

lemma memset_fast_one: "memset_fast m p v (Suc 0) = store64 (store64 m (p + 8) v 8) p v 8"
  by (simp del: store64.simps)

text \<open>for a fill value that is not a byte, \<open>memset\<close> writes different bytes depending on the
  alignment of the block: the fast path replicates the sign bits of the \<open>int\<close>.\<close>

theorem memset_alignment_dependent:
  "internal_memset m 16 (- 2) 16 17 = 255 \<and> internal_memset m 17 (- 2) 16 17 = 254"
proof -
  have "memset_pattern (- 2) = 0xFFFFFFFFFFFFFFFE"
    by (simp add: memset_pattern_def)
  then have "internal_memset m 16 (- 2) 16 17 = 255"
    by (simp add: internal_memset_def memset_fast_one store64_at)
  moreover have "internal_memset m 17 (- 2) 16 17 = 254"
    by (simp add: internal_memset_def memset_slow_spec)
  ultimately show ?thesis ..
qed

text \<open>\<open>strcmp\<close> orders terminated strings by their unsigned bytes, although \<open>char\<close> is signed on
  this platform, and returns 0 exactly for equal strings.\<close>

theorem strcmp_correct:
  assumes "cstr m s1 xs" "cstr m s2 ys"
  shows "\<exists>r. internal_strcmp m s1 s2 = Some r \<and> r = lex_compare xs ys \<and> (r = 0 \<longleftrightarrow> xs = ys)"
  using internal_strcmp_spec [OF assms] lex_compare_0 by simp

theorem strcmp_correct_witness: "internal_strcmp demo_mem 17 18 = Some (- 1)"
  using strcmp_correct [of demo_mem 17 "[109, 200]" 18 "[200]"] by (simp add: demo_mem_def)

end
