(* ===== verification/CprdRuntime.thy ===== *)
theory CprdRuntime
  imports CprdContainers DfsanLabels SanitizerLibc
begin

text \<open>
  The persistent-memory runtime, \<open>tsan/rtl/cprd/cprd.cpp\<close> and \<open>cprd.h\<close>: which mappings are
  persistent memory, the event log, the cache-line flushes a thread has buffered, and the
  tracking of program dependencies (a value read from one cache line and written to
  another) through the labels of the data-flow runtime.
\<close>

section \<open>State\<close>

record pm_region =
  r_begin :: u64
  r_end :: u64

definition region_contains :: "pm_region \<Rightarrow> u64 \<Rightarrow> bool" where
  "region_contains r addr \<longleftrightarrow> r_begin r \<le> addr \<and> addr < r_end r"

record dep_state =
  d_label :: u16
  d_event_id :: u64
  d_addr :: u64
  d_size :: u64
  d_pc :: u64
  d_life :: u32

definition PM_POOL_CAND_MAX :: nat where
  "PM_POOL_CAND_MAX = 128"

definition PENDING_READS_MAX :: nat where
  "PENDING_READS_MAX = 1000"

definition PENDING_READS_LIFE_MAX :: u32 where
  "PENDING_READS_LIFE_MAX = 30"

text \<open>\<open>Cprd\<close>, the process-wide state, and \<open>CprdThreadState\<close>, one per thread. All start zeroed.\<close>

record cprd =
  pm_pool_candidates :: "int carray"
  pm_regions :: "pm_region carray"

record cprd_thread =
  df_pending_reads :: "dep_state ucoll"
  event_counter :: u64
  unused_labels :: "u16 list"

definition cprd_init :: cprd where
  "cprd_init = \<lparr>pm_pool_candidates = array_init PM_POOL_CAND_MAX 0,
                pm_regions = array_init PM_POOL_CAND_MAX \<lparr>r_begin = 0, r_end = 0\<rparr>\<rparr>"

definition cprd_thread_init :: cprd_thread where
  "cprd_thread_init = \<lparr>df_pending_reads = ucoll_init PENDING_READS_MAX
       \<lparr>d_label = 0, d_event_id = 0, d_addr = 0, d_size = 0, d_pc = 0, d_life = 0\<rparr>,
     event_counter = 0, unused_labels = []\<rparr>"

text \<open>The lines of the log, by their fields.\<close>

datatype log_line =
    Access (ev_id: u64) (ev_tid: int) (ev_write: bool) (ev_pc: u64) (ev_addr: u64) (ev_size: int)
      (ev_symbol: u64) (ev_atomic: bool) (ev_nontemporal: bool) (ev_stack: "u64 list")
  | Flush (fl_tid: int) (fl_pc: u64) (fl_line: u64) (fl_size: int) (fl_symbol: u64)
  | Dependency (pd_tid: u64) (pd_read_pc: u64) (pd_read: u64) (pd_write_pc: u64) (pd_write: u64)
  | HbEdge (hb_log: int) (hb_src: int) (hb_src_epoch: int) (hb_dst: int) (hb_dst_epoch: int)
  | EpochInc (ei_tid: int) (ei_from: int) (ei_to: int)

text \<open>Why an operation does not return: the data-flow runtime stops, a fixed array is indexed out
  of range, or a loop does not end.\<close>

datatype cprd_stop = Dfsan dfsan_stop | OutOfRange | NoReturn

section \<open>Regions\<close>

definition handle_open_file :: "bytes \<Rightarrow> u64 \<Rightarrow> u64 \<Rightarrow> int \<Rightarrow> cprd \<Rightarrow> cprd_stop + cprd" where
  "handle_open_file m pattern path fd g =
     (case internal_strstr m path pattern of
        None \<Rightarrow> Inl NoReturn
      | Some None \<Rightarrow> Inr g
      | Some (Some _) \<Rightarrow>
          (case array_push_back (pm_pool_candidates g) fd of
             None \<Rightarrow> Inl OutOfRange
           | Some c \<Rightarrow> Inr (g\<lparr>pm_pool_candidates := c\<rparr>)))"

definition handle_close_file :: "int \<Rightarrow> cprd \<Rightarrow> cprd" where
  "handle_close_file fd g = g\<lparr>pm_pool_candidates := snd (array_remove (pm_pool_candidates g) fd)\<rparr>"

text \<open>\<open>dfsan_set_label(0, (void *)addr, RoundUpTo(size, GetPageSizeCached()))\<close>\<close>

definition clear_labels :: "u64 \<Rightarrow> u64 \<Rightarrow> u32 \<Rightarrow> dfsan \<Rightarrow> cprd_stop + dfsan" where
  "clear_labels page_size addr sz d =
     (case RoundUpTo (ucast sz) page_size of
        None \<Rightarrow> Inl (Dfsan CheckFailed)
      | Some n \<Rightarrow> (case dfsan_set_label page_size 0 addr n d of
                    Inl e \<Rightarrow> Inl (Dfsan e) | Inr d' \<Rightarrow> Inr d'))"

definition handle_mmap :: "u64 \<Rightarrow> u64 \<Rightarrow> u32 \<Rightarrow> int \<Rightarrow> cprd \<times> dfsan \<Rightarrow> cprd_stop + cprd \<times> dfsan" where
  "handle_mmap page_size addr sz fd s =
     (case s of (g, d) \<Rightarrow>
        (case clear_labels page_size addr sz d of
           Inl e \<Rightarrow> Inl e
         | Inr d' \<Rightarrow>
             if \<not> array_contains (pm_pool_candidates g) fd then Inr (g, d')
             else (case array_push_back (pm_regions g) \<lparr>r_begin = addr, r_end = addr + ucast sz\<rparr> of
                     None \<Rightarrow> Inl OutOfRange
                   | Some c \<Rightarrow> Inr (g\<lparr>pm_regions := c\<rparr>, d'))))"

definition handle_munmap :: "u64 \<Rightarrow> u64 \<Rightarrow> u32 \<Rightarrow> cprd \<times> dfsan \<Rightarrow> cprd_stop + cprd \<times> dfsan" where
  "handle_munmap page_size addr sz s =
     (case s of (g, d) \<Rightarrow>
        (case clear_labels page_size addr sz d of
           Inl e \<Rightarrow> Inl e
         | Inr d' \<Rightarrow>
             Inr (g\<lparr>pm_regions := snd (array_remove (pm_regions g)
                                        \<lparr>r_begin = addr, r_end = addr + ucast sz\<rparr>)\<rparr>, d')))"

definition is_pm_address :: "u64 \<Rightarrow> cprd \<Rightarrow> bool option" where
  "is_pm_address addr g = array_any (\<lambda>r. region_contains r addr) (pm_regions g)"

text \<open>
  The calls in \<open>tsan_interceptors_posix.cpp\<close>, after the real \<open>mmap\<close> or \<open>munmap\<close> succeeded: the
  64-bit length is converted to the 32-bit parameter.
\<close>

definition on_mmap :: "u64 \<Rightarrow> u64 \<Rightarrow> u64 \<Rightarrow> int \<Rightarrow> cprd \<times> dfsan \<Rightarrow> cprd_stop + cprd \<times> dfsan" where
  "on_mmap page_size addr len fd s =
     (if fd > 0 then handle_mmap page_size addr (ucast len) fd s else Inr s)"

definition on_munmap :: "u64 \<Rightarrow> u64 \<Rightarrow> u64 \<Rightarrow> int \<Rightarrow> cprd \<times> dfsan \<Rightarrow> cprd_stop + cprd \<times> dfsan" where
  "on_munmap page_size addr len res s =
     (if res = 0 then handle_munmap page_size addr (ucast len) s else Inr s)"

section \<open>Program dependencies\<close>

definition get_unused_label :: "cprd_thread \<times> dfsan \<Rightarrow> dfsan_stop + u16 \<times> cprd_thread \<times> dfsan" where
  "get_unused_label s =
     (case s of (c, d) \<Rightarrow>
        if unused_labels c \<noteq> []
        then Inr (last (unused_labels c), c\<lparr>unused_labels := butlast (unused_labels c)\<rparr>, d)
        else (case dfsan_create_label None 0 d of
                Inl e \<Rightarrow> Inl e | Inr (label, d') \<Rightarrow> Inr (label, c, d')))"

definition remove_pending_read :: "nat \<Rightarrow> cprd_thread \<Rightarrow> cprd_thread" where
  "remove_pending_read it c =
     c\<lparr>unused_labels := unused_labels c @ [d_label (s_data (u_items (df_pending_reads c) ! it))],
       df_pending_reads := snd (ucoll_remove_at (df_pending_reads c) it)\<rparr>"

text \<open>The body of the ageing loop: \<open>if (0 == --it->life) remove_pending_read(it);\<close>\<close>

definition age_pending :: "nat \<Rightarrow> cprd_thread \<Rightarrow> cprd_thread option" where
  "age_pending it c =
     (let x = s_data (u_items (df_pending_reads c) ! it);
          life = d_life x - 1;
          c1 = c\<lparr>df_pending_reads := ucoll_set (df_pending_reads c) it (x\<lparr>d_life := life\<rparr>)\<rparr>
      in Some (if life = 0 then remove_pending_read it c1 else c1))"

definition age_all :: "cprd_thread \<Rightarrow> cprd_thread option" where
  "age_all c = ucoll_for PENDING_READS_MAX df_pending_reads age_pending
                 (ucoll_begin (df_pending_reads c)) c"

definition add_pending :: "dep_state \<Rightarrow> cprd_thread \<Rightarrow> cprd_thread" where
  "add_pending x c =
     (case ucoll_add_slot (df_pending_reads c) of
        None \<Rightarrow> c
      | Some (i, p) \<Rightarrow> c\<lparr>df_pending_reads := ucoll_set p i x\<rparr>)"

text \<open>The label of a read: the one its bytes carry, or an unused one that is added to them.\<close>

definition label_read :: "u64 \<Rightarrow> u32 \<Rightarrow> cprd_thread \<times> dfsan \<Rightarrow> dfsan_stop + u16 \<times> cprd_thread \<times> dfsan" where
  "label_read addr sz s =
     (case s of (c, d) \<Rightarrow>
        (case dfsan_read_label addr (ucast sz) d of
           Inl e \<Rightarrow> Inl e
         | Inr (label, d1) \<Rightarrow>
             if label \<noteq> 0 then Inr (label, c, d1)
             else (case get_unused_label (c, d1) of
                     Inl e \<Rightarrow> Inl e
                   | Inr (l, c2, d2) \<Rightarrow>
                       (case dfsan_add_label l addr (ucast sz) d2 of
                          Inl e \<Rightarrow> Inl e | Inr d3 \<Rightarrow> Inr (l, c2, d3)))))"

definition df_mark_read ::
  "u64 \<Rightarrow> u64 \<Rightarrow> u64 \<Rightarrow> u64 \<Rightarrow> u32 \<Rightarrow> cprd_thread \<times> dfsan \<Rightarrow> cprd_stop + cprd_thread \<times> dfsan" where
  "df_mark_read event_id tid pc addr sz s =
     (case label_read addr sz s of
        Inl e \<Rightarrow> Inl (Dfsan e)
      | Inr (label, c1, d1) \<Rightarrow>
          (case age_all c1 of
             None \<Rightarrow> Inl NoReturn
           | Some c2 \<Rightarrow>
               Inr (add_pending \<lparr>d_label = label, d_event_id = event_id, d_addr = addr,
                      d_size = ucast sz, d_pc = pc, d_life = PENDING_READS_LIFE_MAX\<rparr> c2, d1)))"

definition kCacheLineSize :: u64 where
  "kCacheLineSize = 64"

text \<open>
  The body of the loop over the pending reads at a write: \<open>lc\<close> is the label of the bytes that were
  written, \<open>la\<close> the label of the address.
\<close>

definition process_pending ::
  "dfsan \<Rightarrow> u16 \<Rightarrow> u16 \<Rightarrow> u64 \<Rightarrow> u64 \<Rightarrow> u64 \<Rightarrow> u64 \<Rightarrow> nat \<Rightarrow> cprd_thread \<times> log_line list
     \<Rightarrow> (cprd_thread \<times> log_line list) option" where
  "process_pending d lc la event_id tid pc addr it s =
     (case s of (c, out) \<Rightarrow>
        (let x = s_data (u_items (df_pending_reads c) ! it) in
         if RoundDown addr kCacheLineSize = RoundDown (d_addr x) kCacheLineSize then Some (c, out)
         else do {
           in_content \<leftarrow> dfsan_has_label d lc (d_label x);
           in_any \<leftarrow> (if in_content then Some True else dfsan_has_label d la (d_label x));
           Some (if \<not> in_any then (c, out)
                 else (remove_pending_read it c,
                       out @ [Dependency tid (d_pc x) (d_event_id x) pc event_id]))
         }))"

text \<open>\<open>dfsan_get_label(addr)\<close> is provided by the instrumentation: the parameter \<open>address_label\<close>.\<close>

definition df_process_write ::
  "(u64 \<Rightarrow> u16) \<Rightarrow> u64 \<Rightarrow> u64 \<Rightarrow> u64 \<Rightarrow> u64 \<Rightarrow> u32 \<Rightarrow> cprd_thread \<times> dfsan
     \<Rightarrow> cprd_stop + cprd_thread \<times> dfsan \<times> log_line list" where
  "df_process_write address_label event_id tid pc addr sz s =
     (case s of (c, d) \<Rightarrow>
        (case dfsan_read_label addr (ucast sz) d of
           Inl e \<Rightarrow> Inl (Dfsan e)
         | Inr (lc, d1) \<Rightarrow>
             (let la = address_label addr in
              if lc = 0 \<and> la = 0 then Inr (c, d1, [])
              else (case ucoll_for PENDING_READS_MAX (\<lambda>(c, _). df_pending_reads c)
                           (process_pending d1 lc la event_id tid pc addr)
                           (ucoll_begin (df_pending_reads c)) (c, []) of
                      None \<Rightarrow> Inl NoReturn
                    | Some (c', out) \<Rightarrow> Inr (c', d1, out)))))"

section \<open>Instrumentation\<close>

text \<open>The part of \<open>ThreadState\<close> the runtime uses, with the thread's \<open>CprdThreadState\<close>.\<close>

record pm_thread =
  th_tid :: int
  th_fast_tid :: u64
  flushes_cache :: "u64 list"
  th_cprd :: cprd_thread

definition make_event_id :: "cprd_thread \<Rightarrow> u64 \<times> cprd_thread" where
  "make_event_id c = (event_counter c, c\<lparr>event_counter := event_counter c + 1\<rparr>)"

text \<open>\<open>kExternalPCBit\<close> is bit 60; \<open>GetPreviousInstructionPc\<close> subtracts one on x86-64.\<close>

definition kExternalPCBit :: u64 where
  "kExternalPCBit = 0x1000000000000000"

definition symbol_pc :: "u64 \<Rightarrow> u64" where
  "symbol_pc pc = (if pc AND kExternalPCBit = 0 then pc - 1 else pc)"

text \<open>\<open>_s_log_callstack\<close>: \<open>trace\<close> is what \<open>ObtainCurrentStack\<close> gives, outermost frame first; the line starts with the innermost.\<close>

definition log_callstack :: "u64 list \<Rightarrow> u64 list" where
  "log_callstack trace = map symbol_pc (rev trace)"

definition instrument_memory_access ::
  "(u64 \<Rightarrow> u16) \<Rightarrow> u64 list \<Rightarrow> u64 \<Rightarrow> u64 \<Rightarrow> nat \<Rightarrow> bool \<Rightarrow> bool \<Rightarrow> bool \<Rightarrow> cprd \<Rightarrow> pm_thread \<times> dfsan
     \<Rightarrow> cprd_stop + pm_thread \<times> dfsan \<times> log_line list" where
  "instrument_memory_access address_label trace addr pc size_log is_write is_atomic is_nt g s =
     (case s of (thr, d) \<Rightarrow>
        (case is_pm_address addr g of
           None \<Rightarrow> Inl OutOfRange
         | Some False \<Rightarrow> Inr (thr, d, [])
         | Some True \<Rightarrow>
             (let (event_id, c) = make_event_id (th_cprd thr);
                  line = Access event_id (sint (ucast (th_fast_tid thr) :: u32)) is_write pc addr
                           (2 ^ size_log) (symbol_pc pc) is_atomic is_nt (log_callstack trace);
                  tid = th_fast_tid thr; sz = 2 ^ size_log
              in if \<not> is_write
                 then (case df_mark_read event_id tid pc addr sz (c, d) of
                         Inl e \<Rightarrow> Inl e
                       | Inr (c', d') \<Rightarrow> Inr (thr\<lparr>th_cprd := c'\<rparr>, d', [line]))
                 else (case df_process_write address_label event_id tid pc addr sz (c, d) of
                         Inl e \<Rightarrow> Inl e
                       | Inr (c', d', out) \<Rightarrow> Inr (thr\<lparr>th_cprd := c'\<rparr>, d', line # out)))))"

definition instrument_flush :: "u64 \<Rightarrow> pm_thread \<Rightarrow> pm_thread" where
  "instrument_flush addr thr =
     thr\<lparr>flushes_cache := flushes_cache thr @ [RoundDown addr kCacheLineSize]\<rparr>"

definition instrument_fence :: "u64 \<Rightarrow> pm_thread \<Rightarrow> log_line list \<times> pm_thread" where
  "instrument_fence pc thr =
     (map (\<lambda>line. Flush (th_tid thr) pc line (uint kCacheLineSize) (symbol_pc pc)) (flushes_cache thr),
      thr\<lparr>flushes_cache := []\<rparr>)"

text \<open>The clock events: \<open>%d\<close> prints the low 32 bits of a 64-bit argument, as a signed number.\<close>

definition printed_d :: "u64 \<Rightarrow> int" where
  "printed_d x = sint (ucast x :: u32)"

definition log_happens_before_edge :: "u64 \<Rightarrow> u64 \<Rightarrow> u64 \<Rightarrow> u64 \<Rightarrow> log_line" where
  "log_happens_before_edge source_thread source_epoch target_thread target_epoch =
     HbEdge (printed_d target_thread) (printed_d source_thread) (printed_d source_epoch)
       (printed_d target_thread) (printed_d target_epoch)"

definition log_epoch_inc :: "u64 \<Rightarrow> u64 \<Rightarrow> u64 \<Rightarrow> log_line" where
  "log_epoch_inc thread source_epoch target_epoch =
     EpochInc (printed_d thread) (printed_d source_epoch) (printed_d target_epoch)"

section \<open>The pending reads\<close>

definition pending :: "cprd_thread \<Rightarrow> dep_state multiset" where
  "pending c = ucoll_live (df_pending_reads c)"

definition pending_ok :: "cprd_thread \<Rightarrow> bool" where
  "pending_ok c \<longleftrightarrow> length (u_items (df_pending_reads c)) = PENDING_READS_MAX \<and> ucoll_inv (df_pending_reads c)"

lemma ucoll_set_sel [simp]:
  "length (u_items (ucoll_set p i x)) = length (u_items p)"
  "k \<noteq> i \<Longrightarrow> u_items (ucoll_set p i x) ! k = u_items p ! k"
  by (simp_all add: ucoll_set_def)

lemma ucoll_remove_at_sel [simp]:
  "length (u_items (snd (ucoll_remove_at p i))) = length (u_items p)"
  "k \<noteq> i \<Longrightarrow> u_items (snd (ucoll_remove_at p i)) ! k = u_items p ! k"
  by (simp_all add: ucoll_remove_at_def)

lemma remove_pending_read_sel [simp]:
  "df_pending_reads (remove_pending_read i c) = snd (ucoll_remove_at (df_pending_reads c) i)"
  "event_counter (remove_pending_read i c) = event_counter c"
  "unused_labels (remove_pending_read i c) =
     unused_labels c @ [d_label (s_data (u_items (df_pending_reads c) ! i))]"
  by (simp_all add: remove_pending_read_def)

lemma pending_ok_remove:
  "pending_ok c \<Longrightarrow> i < PENDING_READS_MAX \<Longrightarrow> pending_ok (remove_pending_read i c)"
  by (simp add: pending_ok_def ucoll_remove_at_inv)

subsection \<open>Ageing\<close>

definition aged :: "dep_state \<Rightarrow> dep_state" where
  "aged x = x\<lparr>d_life := d_life x - 1\<rparr>"

lemma age_pending_step:
  assumes "i < length (u_items (df_pending_reads c))" "s_valid (u_items (df_pending_reads c) ! i)"
  shows "\<exists>c'. age_pending i c = Some c' \<and>
    u_items (df_pending_reads c') = (u_items (df_pending_reads c))
      [i := sweep_slot aged (\<lambda>x. d_life x = 0) (u_items (df_pending_reads c) ! i)] \<and>
    unused_labels c' = unused_labels c @
      (if d_life (aged (s_data (u_items (df_pending_reads c) ! i))) = 0
       then [d_label (aged (s_data (u_items (df_pending_reads c) ! i)))] else [])"
  using assms
  by (simp add: age_pending_def Let_def sweep_slot_def aged_def ucoll_set_def ucoll_remove_at_def
      slot_set_data)

lemma age_pending_local:
  assumes "age_pending j c = Some c'"
  shows "length (u_items (df_pending_reads c')) = length (u_items (df_pending_reads c))"
    and "k \<noteq> j \<Longrightarrow> u_items (df_pending_reads c') ! k = u_items (df_pending_reads c) ! k"
    and "event_counter c' = event_counter c"
    and "pending_ok c \<Longrightarrow> j < PENDING_READS_MAX \<Longrightarrow> pending_ok c'"
  using assms
  by (auto simp: age_pending_def Let_def pending_ok_def ucoll_set_inv ucoll_remove_at_inv split: if_splits)

lemma age_all_spec:
  assumes ok: "pending_ok c"
  shows "\<exists>c'. age_all c = Some c' \<and> pending_ok c' \<and> event_counter c' = event_counter c \<and>
    pending c' = filter_mset (\<lambda>x. d_life x \<noteq> 0) (image_mset aged (pending c)) \<and>
    unused_labels c' = unused_labels c @
      map d_label (swept aged (\<lambda>x. d_life x = 0) (u_items (df_pending_reads c)))"
proof -
  let ?n = PENDING_READS_MAX and ?xs = "u_items (df_pending_reads c)"
  have len: "length ?xs = ?n" using ok by (simp add: pending_ok_def)
  let ?js = "filter (\<lambda>j. s_valid (?xs ! j)) [0..<?n]"
  have run: "age_all c = run_slots age_pending ?js c"
    unfolding age_all_def ucoll_begin_def
    by (rule ucoll_for_run) (auto simp: len age_pending_local)
  obtain c' where c': "run_slots age_pending ?js c = Some c'"
    "u_items (df_pending_reads c') = map (sweep_slot aged (\<lambda>x. d_life x = 0)) ?xs"
    "unused_labels c' = unused_labels c @ map d_label (swept aged (\<lambda>x. d_life x = 0) ?xs)"
    using run_slots_sweep [where coll = df_pending_reads and acc = unused_labels and n = ?n and i = 0
        and body = age_pending and f = aged and P = "\<lambda>x. d_life x = 0" and g = d_label and s = c]
      len age_pending_step by auto
  have "pending_ok c' \<and> event_counter c' = event_counter c"
    using c'(1) by (rule run_slots_inv) (use ok age_pending_local in auto)
  then show ?thesis
    using run c' ucoll_live_sweep [OF c'(2)] by (auto simp: pending_def)
qed

subsection \<open>Adding\<close>

lemma add_pending_alt:
  "add_pending x c =
     (case ucoll_add (df_pending_reads c) x of None \<Rightarrow> c | Some p \<Rightarrow> c\<lparr>df_pending_reads := p\<rparr>)"
  using ucoll_add_slot_set [of x "df_pending_reads c"]
  by (auto simp: add_pending_def split: option.splits prod.splits)

lemma ucoll_add_room:
  assumes "size (ucoll_live p) < length (u_items p)"
  shows "\<exists>p'. ucoll_add p x = Some p'"
proof -
  have False if "ucoll_find_free p = None"
  proof -
    from that have "\<forall>y \<in> set (u_items p). s_valid y"
      by (auto simp: ucoll_find_free_def find_upt_None_iff in_set_conv_nth)
    then have "filter s_valid (u_items p) = u_items p" by (simp add: filter_id_conv)
    then show False using assms by (simp add: ucoll_live_def flip: mset_filter)
  qed
  then show ?thesis by (cases "ucoll_find_free p") (auto simp: ucoll_add_def)
qed

lemma add_pending_spec:
  assumes "pending_ok c" "size (pending c) < PENDING_READS_MAX"
  shows "pending_ok (add_pending x c)" "pending (add_pending x c) = add_mset x (pending c)"
proof -
  obtain p where p: "ucoll_add (df_pending_reads c) x = Some p"
    using ucoll_add_room [of "df_pending_reads c" x] assms by (auto simp: pending_ok_def pending_def)
  then have "length (u_items p) = length (u_items (df_pending_reads c))"
    by (auto simp: ucoll_add_def split: option.splits)
  then show "pending_ok (add_pending x c)" "pending (add_pending x c) = add_mset x (pending c)"
    using assms p ucl.insert_inv [OF _ p] ucl.insert_content [OF _ p]
    by (simp_all add: add_pending_alt pending_ok_def pending_def)
qed

lemma add_pending_sel [simp]:
  "event_counter (add_pending x c) = event_counter c"
  "unused_labels (add_pending x c) = unused_labels c"
  by (auto simp: add_pending_def split: option.split)

text \<open>
  The lives of the pending reads are distinct and between 1 and 30: each marked read ages them all
  and adds one of life 30. So there are never more than 30.
\<close>

definition lives_ok :: "cprd_thread \<Rightarrow> bool" where
  "lives_ok c \<longleftrightarrow> (\<forall>x \<in># pending c. 0 < d_life x \<and> d_life x \<le> PENDING_READS_LIFE_MAX) \<and>
     (\<forall>l. size (filter_mset (\<lambda>x. d_life x = l) (pending c)) \<le> 1)"

lemma size_filter_key: "size (filter_mset (\<lambda>x. f x = l) M) = count (image_mset f M) l"
  by (induction M) auto

lemma size_by_key:
  assumes "\<forall>x \<in># M. f x \<in> S" "finite S" "\<forall>l. size (filter_mset (\<lambda>x. f x = l) M) \<le> 1"
  shows "size M \<le> card S"
proof -
  have "size M = size (image_mset f M)" by simp
  also have "\<dots> = (\<Sum>l \<in> set_mset (image_mset f M). count (image_mset f M) l)"
    by (rule size_multiset_overloaded_eq)
  also have "\<dots> \<le> (\<Sum>l \<in> set_mset (image_mset f M). 1)"
    using assms(3) by (intro sum_mono) (simp add: size_filter_key)
  also have "\<dots> = card (f ` set_mset M)" by simp
  also have "\<dots> \<le> card S" using assms(1,2) by (intro card_mono) auto
  finally show ?thesis .
qed

lemma lives_ok_age:
  assumes "lives_ok c" "pending c' = filter_mset (\<lambda>x. d_life x \<noteq> 0) (image_mset aged (pending c))"
  shows "size (pending c') \<le> 29"
    and "\<forall>x \<in># pending c'. 0 < d_life x \<and> d_life x < PENDING_READS_LIFE_MAX"
    and "\<forall>l. size (filter_mset (\<lambda>x. d_life x = l) (pending c')) \<le> 1"
proof -
  show lt: "\<forall>x \<in># pending c'. 0 < d_life x \<and> d_life x < PENDING_READS_LIFE_MAX"
  proof
    fix x assume "x \<in># pending c'"
    then obtain y where y: "y \<in># pending c" "x = aged y" "d_life x \<noteq> 0" by (auto simp: assms(2))
    then have "0 < d_life y" "d_life y \<le> 30" "d_life y \<noteq> 1"
      using assms(1) by (auto simp: lives_ok_def aged_def PENDING_READS_LIFE_MAX_def)
    then have "unat (d_life y - 1) = unat (d_life y) - 1" "0 < unat (d_life y)" "unat (d_life y) \<le> 30"
        "unat (d_life y) \<noteq> 1"
      by (simp_all add: unat_minus_one unat_gt_0 word_le_nat_alt) (metis One_nat_def unat_1 word_unat_eq_iff)
    then show "0 < d_life x \<and> d_life x < PENDING_READS_LIFE_MAX"
      using y by (simp add: aged_def PENDING_READS_LIFE_MAX_def word_less_nat_alt word_gt_0)
  qed
  show one: "\<forall>l. size (filter_mset (\<lambda>x. d_life x = l) (pending c')) \<le> 1"
  proof
    fix l
    have "filter_mset (\<lambda>x. d_life x = l) (pending c') =
        filter_mset (\<lambda>x. d_life x \<noteq> 0) (image_mset aged (filter_mset (\<lambda>x. d_life x = l + 1) (pending c)))"
    proof -
      have e: "d_life (aged x) = l \<longleftrightarrow> d_life x = l + 1" for x by (auto simp: aged_def)
      show ?thesis
        by (simp add: assms(2) filter_mset_image_mset filter_filter_mset e conj_commute o_def)
    qed
    then have "size (filter_mset (\<lambda>x. d_life x = l) (pending c')) \<le>
        size (filter_mset (\<lambda>x. d_life x = l + 1) (pending c))"
      by (metis size_filter_mset_lesseq size_image_mset)
    also have "\<dots> \<le> 1" using assms(1) by (simp add: lives_ok_def)
    finally show "size (filter_mset (\<lambda>x. d_life x = l) (pending c')) \<le> 1" .
  qed
  have "unat (d_life x) \<in> {1..29}" if "x \<in># pending c'" for x
    using lt that by (auto simp: PENDING_READS_LIFE_MAX_def word_less_nat_alt unat_gt_0 Suc_le_eq)
  moreover have "size (filter_mset (\<lambda>x. unat (d_life x) = k) (pending c')) \<le> 1" for k
  proof (cases "k < 2 ^ 32")
    case True
    then have "unat (d_life x) = k \<longleftrightarrow> d_life x = of_nat k" for x :: dep_state
      by (auto simp: unat_of_nat_small)
    then have "filter_mset (\<lambda>x. unat (d_life x) = k) (pending c') = filter_mset (\<lambda>x. d_life x = of_nat k) (pending c')"
      by (rule filter_mset_cong0)
    then show ?thesis using one by simp
  next
    case False
    then have "unat (d_life x) \<noteq> k" for x :: dep_state using unsigned_less [of "d_life x", where 'a = nat] by auto
    then show ?thesis by simp
  qed
  ultimately show "size (pending c') \<le> 29"
    using size_by_key [of "pending c'" "\<lambda>x. unat (d_life x)" "{1..29}"] by simp
qed

definition thread_ok :: "cprd_thread \<Rightarrow> bool" where
  "thread_ok c \<longleftrightarrow> pending_ok c \<and> lives_ok c"

lemma thread_ok_init: "thread_ok cprd_thread_init"
proof -
  have "pending cprd_thread_init = {#}"
    by (simp add: pending_def cprd_thread_init_def ucoll_live_def ucoll_init_def)
  then show ?thesis
    by (simp add: thread_ok_def lives_ok_def pending_ok_def ucoll_inv_def)
      (simp add: pending_def cprd_thread_init_def ucoll_init_def ucoll_inv_def)
qed

lemma get_unused_label_sel:
  "get_unused_label (c, d) = Inr (l, c', d') \<Longrightarrow>
     df_pending_reads c' = df_pending_reads c \<and> event_counter c' = event_counter c"
  by (auto simp: get_unused_label_def split: if_splits sum.splits)

lemma label_read_sel:
  "label_read addr sz (c, d) = Inr (l, c', d') \<Longrightarrow>
     df_pending_reads c' = df_pending_reads c \<and> event_counter c' = event_counter c"
  by (auto simp: label_read_def dest!: get_unused_label_sel split: if_splits sum.splits)

lemma ok_cong:
  "df_pending_reads c' = df_pending_reads c \<Longrightarrow> pending c' = pending c"
  "df_pending_reads c' = df_pending_reads c \<Longrightarrow> pending_ok c' = pending_ok c"
  "df_pending_reads c' = df_pending_reads c \<Longrightarrow> lives_ok c' = lives_ok c"
  by (simp_all add: pending_def pending_ok_def lives_ok_def)

lemma df_mark_read_effect:
  fixes event_id pc tid addr :: u64 and sz :: u32 and l :: u16
  assumes ok: "thread_ok c" and r: "label_read addr sz (c, d) = Inr (l, c1, d1)"
  defines "new \<equiv> \<lparr>d_label = l, d_event_id = event_id, d_addr = addr, d_size = ucast sz, d_pc = pc,
                   d_life = PENDING_READS_LIFE_MAX\<rparr>"
  shows "\<exists>c'. df_mark_read event_id tid pc addr sz (c, d) = Inr (c', d1) \<and> thread_ok c' \<and>
    event_counter c' = event_counter c \<and>
    pending c' = add_mset new (filter_mset (\<lambda>x. d_life x \<noteq> 0) (image_mset aged (pending c))) \<and>
    unused_labels c' = unused_labels c1 @
      map d_label (swept aged (\<lambda>x. d_life x = 0) (u_items (df_pending_reads c)))"
proof -
  note same = label_read_sel [OF r] ok_cong [of c1 c]
  have ok1: "pending_ok c1" "lives_ok c1" using ok same by (simp_all add: thread_ok_def)
  obtain c2 where c2: "age_all c1 = Some c2" "pending_ok c2" "event_counter c2 = event_counter c1"
    "pending c2 = filter_mset (\<lambda>x. d_life x \<noteq> 0) (image_mset aged (pending c1))"
    "unused_labels c2 = unused_labels c1 @
      map d_label (swept aged (\<lambda>x. d_life x = 0) (u_items (df_pending_reads c1)))"
    using age_all_spec [OF ok1(1)] by blast
  note L = lives_ok_age [OF ok1(2) c2(4)]
  have room: "size (pending c2) < PENDING_READS_MAX" using L(1) by (simp add: PENDING_READS_MAX_def)
  note A = add_pending_spec [OF c2(2) room, of new]
  have "lives_ok (add_pending new c2)"
    unfolding lives_ok_def A(2)
  proof (intro conjI allI)
    show "\<forall>x \<in># add_mset new (pending c2). 0 < d_life x \<and> d_life x \<le> PENDING_READS_LIFE_MAX"
      using L(2) by (auto simp: new_def PENDING_READS_LIFE_MAX_def)
  next
    fix l
    have "filter_mset (\<lambda>x. d_life x = PENDING_READS_LIFE_MAX) (pending c2) = {#}"
      using L(2) filter_mset_cong [of "pending c2" "pending c2" "\<lambda>x. d_life x = PENDING_READS_LIFE_MAX" "\<lambda>_. False"]
      by auto
    then show "size (filter_mset (\<lambda>x. d_life x = l) (add_mset new (pending c2))) \<le> 1"
      using L(3) by (auto simp: new_def)
  qed
  then show ?thesis
    using c2 A same r by (auto simp: df_mark_read_def thread_ok_def new_def)
qed

subsection \<open>Reporting\<close>

text \<open>Which pending reads a write reports: on another cache line, with a label the write carries.\<close>

definition reported :: "dfsan \<Rightarrow> u16 \<Rightarrow> u16 \<Rightarrow> u64 \<Rightarrow> dep_state \<Rightarrow> bool" where
  "reported d lc la addr x \<longleftrightarrow>
     RoundDown addr kCacheLineSize \<noteq> RoundDown (d_addr x) kCacheLineSize \<and>
     (sub_label d lc (d_label x) \<or> sub_label d la (d_label x))"

lemma process_pending_alt:
  assumes "labels_acyclic d"
  shows "process_pending d lc la event_id tid pc addr it (c, out) =
    (let x = s_data (u_items (df_pending_reads c) ! it) in
     Some (if reported d lc la addr x
           then (remove_pending_read it c, out @ [Dependency tid (d_pc x) (d_event_id x) pc event_id])
           else (c, out)))"
  by (simp add: process_pending_def reported_def Let_def dfsan_has_label_sub [OF assms])

lemma process_all_spec:
  fixes event_id pc tid addr :: u64 and lc la :: u16 and c :: cprd_thread and d :: dfsan
  assumes ok: "pending_ok c" and ac: "labels_acyclic d"
  defines "R \<equiv> reported d lc la addr" and "xs \<equiv> u_items (df_pending_reads c)"
    and "line \<equiv> \<lambda>x. Dependency tid (d_pc x) (d_event_id x) pc event_id"
  shows "\<exists>c'. ucoll_for PENDING_READS_MAX (\<lambda>(c, _). df_pending_reads c)
      (process_pending d lc la event_id tid pc addr) (ucoll_begin (df_pending_reads c)) (c, [])
      = Some (c', map line (swept id R xs)) \<and>
    pending_ok c' \<and> event_counter c' = event_counter c \<and>
    pending c' = filter_mset (\<lambda>x. \<not> R x) (pending c) \<and>
    unused_labels c' = unused_labels c @ map d_label (swept id R xs)"
proof -
  let ?n = PENDING_READS_MAX and ?coll = "\<lambda>(c, _). df_pending_reads c"
    and ?body = "process_pending d lc la event_id tid pc addr"
  let ?js = "filter (\<lambda>j. s_valid (xs ! j)) [0..<?n]" and ?s = "(c, [] :: log_line list)"
  have len: "length xs = ?n" using ok by (simp add: pending_ok_def xs_def)
  have xs: "u_items (?coll ?s) = xs" by (simp add: xs_def)
  have run: "ucoll_for ?n ?coll ?body (ucoll_begin (df_pending_reads c)) ?s = run_slots ?body ?js ?s"
    using ucoll_for_run [of ?coll ?s ?n ?body 0] len
    by (fastforce simp: process_pending_alt [OF ac] ucoll_begin_def xs_def Let_def split: if_splits)
  have step: "\<exists>s'. ?body j s = Some s' \<and>
      u_items (?coll s') = (u_items (?coll s))[j := sweep_slot id R (u_items (?coll s) ! j)] \<and>
      (unused_labels (fst s') = unused_labels (fst s) @
        (if R (id (s_data (u_items (?coll s) ! j))) then [d_label (id (s_data (u_items (?coll s) ! j)))] else [])) \<and>
      (snd s' = snd s @
        (if R (id (s_data (u_items (?coll s) ! j))) then [line (id (s_data (u_items (?coll s) ! j)))] else []))"
    if "j < ?n" "length (u_items (?coll s)) = ?n" "s_valid (u_items (?coll s) ! j)" for j s
  proof (cases s)
    case (Pair c1 out)
    then show ?thesis
      using that
      by (auto simp: process_pending_alt [OF ac] Let_def R_def line_def sweep_slot_def ucoll_remove_at_def
          slot_set_valid slot_eta)
  qed
  have len': "length (u_items (?coll ?s)) = ?n" using len xs by simp
  have step1: "\<exists>s'. ?body j s = Some s' \<and>
      u_items (?coll s') = (u_items (?coll s))[j := sweep_slot id R (u_items (?coll s) ! j)] \<and>
      unused_labels (fst s') = unused_labels (fst s) @
        (if R (id (s_data (u_items (?coll s) ! j))) then [d_label (id (s_data (u_items (?coll s) ! j)))] else [])"
    if "j < ?n" "length (u_items (?coll s)) = ?n" "s_valid (u_items (?coll s) ! j)" for j s
    using step [OF that] by blast
  have step2: "\<exists>s'. ?body j s = Some s' \<and>
      u_items (?coll s') = (u_items (?coll s))[j := sweep_slot id R (u_items (?coll s) ! j)] \<and>
      snd s' = snd s @
        (if R (id (s_data (u_items (?coll s) ! j))) then [line (id (s_data (u_items (?coll s) ! j)))] else [])"
    if "j < ?n" "length (u_items (?coll s)) = ?n" "s_valid (u_items (?coll s) ! j)" for j s
    using step [OF that] by blast
  have "\<exists>s'. run_slots ?body (filter (\<lambda>j. s_valid (u_items (?coll ?s) ! j)) [0..<?n]) ?s = Some s' \<and>
      u_items (?coll s') = take 0 (u_items (?coll ?s)) @ map (sweep_slot id R) (drop 0 (u_items (?coll ?s))) \<and>
      unused_labels (fst s') = unused_labels (fst ?s) @ map d_label (swept id R (drop 0 (u_items (?coll ?s))))"
    by (rule run_slots_sweep [where acc = "\<lambda>s. unused_labels (fst s)"]; (rule len' | (rule step1; assumption) | simp))
  then obtain s1 where s1: "run_slots ?body ?js ?s = Some s1" "u_items (?coll s1) = map (sweep_slot id R) xs"
    "unused_labels (fst s1) = unused_labels c @ map d_label (swept id R xs)"
    by (auto simp only: xs take_0 append_Nil drop_0 fst_conv)
  have "\<exists>s'. run_slots ?body (filter (\<lambda>j. s_valid (u_items (?coll ?s) ! j)) [0..<?n]) ?s = Some s' \<and>
      u_items (?coll s') = take 0 (u_items (?coll ?s)) @ map (sweep_slot id R) (drop 0 (u_items (?coll ?s))) \<and>
      snd s' = snd ?s @ map line (swept id R (drop 0 (u_items (?coll ?s))))"
    by (rule run_slots_sweep [where acc = snd]; (rule len' | (rule step2; assumption) | simp))
  then obtain s2 where s2: "run_slots ?body ?js ?s = Some s2" "snd s2 = map line (swept id R xs)"
    by (auto simp only: xs take_0 append_Nil drop_0 snd_conv)
  obtain c' where c': "s1 = (c', map line (swept id R xs))"
    using s1 s2 by (cases s1) auto
  have "pending_ok (fst s1) \<and> event_counter (fst s1) = event_counter c"
    using s1(1)
    by (rule run_slots_inv)
      (use ok pending_ok_remove in \<open>auto simp: process_pending_alt [OF ac] Let_def split: if_splits\<close>)
  then show ?thesis
    using run s1 c' ucoll_live_sweep [of "df_pending_reads c'" id R "df_pending_reads c"]
    by (auto simp: pending_def xs_def)
qed

end
