(* ===== verification/CprdProperties.thy ===== *)
theory CprdProperties
  imports CprdRuntime
begin

text \<open>
  What the persistent-memory runtime guarantees, over the operations of \<open>CprdRuntime\<close>: which
  addresses are taken for persistent memory, what the log holds, and which program
  dependencies are reported.
\<close>

section \<open>Recognising persistent memory\<close>

definition cprd_ok :: "cprd \<Rightarrow> bool" where
  "cprd_ok g \<longleftrightarrow> array_inv (pm_pool_candidates g) \<and> array_inv (pm_regions g) \<and>
     length (a_items (pm_pool_candidates g)) = PM_POOL_CAND_MAX \<and>
     length (a_items (pm_regions g)) = PM_POOL_CAND_MAX"

lemma cprd_ok_init: "cprd_ok cprd_init"
  by (simp add: cprd_ok_def cprd_init_def array_init_inv) (simp add: array_init_def)

lemma array_push_back_length:
  "array_push_back a v = Some a' \<Longrightarrow> length (a_items a') = length (a_items a) \<and> a_count a' = Suc (a_count a)"
  by (auto simp: array_push_back_def split: if_splits)

lemma update_off_data: "s_data ((xs[j := (xs ! j)\<lparr>s_valid := b\<rparr>]) ! i) = s_data (xs ! i)"
  by (cases "j < length xs"; cases "i = j") (simp_all add: list_update_beyond)

lemma array_remove_sel [simp]:
  "length (a_items (snd (array_remove a v))) = length (a_items a)"
  "a_count (snd (array_remove a v)) = a_count a"
  "s_data (a_items (snd (array_remove a v)) ! i) = s_data (a_items a ! i)"
  by (auto simp: array_remove_def update_off_data split: option.split)

lemma is_pm_address_live:
  assumes "array_inv (pm_regions g)" "a_count (pm_regions g) < length (a_items (pm_regions g))"
    and "r \<in># array_live (pm_regions g)" "region_contains r a"
  shows "is_pm_address a g = Some True"
  using assms array_any_spec [OF assms(2), of "\<lambda>r. region_contains r a"]
  by (auto simp: is_pm_address_def array_live_iff)

lemma is_pm_address_spec:
  assumes "array_inv (pm_regions g)" "a_count (pm_regions g) < length (a_items (pm_regions g))"
  shows "is_pm_address a g = Some
    ((\<exists>r \<in># array_live (pm_regions g). region_contains r a) \<or>
     (0 < a_count (pm_regions g) \<and> region_contains (s_data (a_items (pm_regions g) ! 0)) a))"
  using array_any_spec [OF assms(2), of "\<lambda>r. region_contains r a"] array_live_iff [OF assms(1)]
  by (auto simp: is_pm_address_def)

lemma handle_mmap_cases:
  assumes "handle_mmap ps addr sz fd (g, d) = Inr (g', d')"
  shows "if array_contains (pm_pool_candidates g) fd
    then \<exists>c. array_push_back (pm_regions g) \<lparr>r_begin = addr, r_end = addr + ucast sz\<rparr> = Some c \<and> g' = g\<lparr>pm_regions := c\<rparr>
    else g' = g"
  using assms by (auto simp: handle_mmap_def split: sum.splits option.splits if_splits)

lemma handle_open_cases:
  assumes "cstr m path xs" "cstr m pattern ys"
  shows "handle_open_file m pattern path fd g =
    (if \<exists>i. occurs_at xs ys i
     then (case array_push_back (pm_pool_candidates g) fd of
             None \<Rightarrow> Inl OutOfRange | Some c \<Rightarrow> Inr (g\<lparr>pm_pool_candidates := c\<rparr>))
     else Inr g)"
  by (auto simp: handle_open_file_def internal_strstr_spec [OF assms])

lemma dfsan_set_label_returns:
  "IsPowerOfTwo ps \<Longrightarrow> \<exists>s'. dfsan_set_label ps label addr sz s = Inr s'"
  by (simp add: dfsan_set_label_def Let_def RoundUpTo_def ReleaseMemoryPagesToOS_def)

lemma clear_labels_returns: "IsPowerOfTwo ps \<Longrightarrow> \<exists>d'. clear_labels ps addr sz d = Inr d'"
  using dfsan_set_label_returns [of ps 0 addr _ d]
  by (auto simp: clear_labels_def RoundUpTo_def split: sum.split) (metis Inl_Inr_False)

text \<open>C37: While the region table has a free slot, an address is taken for persistent memory exactly
  when a live region contains it, or the first slot, live or not, does.\<close>

theorem is_pm_address_exact:
  assumes "cprd_ok g" "a_count (pm_regions g) < PM_POOL_CAND_MAX"
  shows "is_pm_address a g = Some
    ((\<exists>r \<in># array_live (pm_regions g). r_begin r \<le> a \<and> a < r_end r) \<or>
     (0 < a_count (pm_regions g) \<and> region_contains (s_data (a_items (pm_regions g) ! 0)) a))"
  using is_pm_address_spec [of g a] assms by (simp add: cprd_ok_def region_contains_def)

theorem is_pm_address_exact_witness: "is_pm_address 7 cprd_init = Some False"
proof -
  have "a_count (pm_regions cprd_init) = 0" "array_live (pm_regions cprd_init) = {#}"
    by (simp_all add: cprd_init_def array_init_live) (simp add: array_init_def)
  then show ?thesis
    using is_pm_address_exact [OF cprd_ok_init, of 7] by (simp add: PM_POOL_CAND_MAX_def)
qed

text \<open>After a file whose path contains the pool pattern is opened and mapped, every address of the
  mapping is taken for persistent memory, for mappings shorter than 4 GiB.\<close>

theorem mapped_pool_is_pm:
  assumes "cprd_ok g" "cstr m path xs" "cstr m pattern ys" "occurs_at xs ys i"
    and "handle_open_file m pattern path fd g = Inr g1" "fd > 0"
    and "on_mmap ps addr len fd (g1, d) = Inr (g2, d')"
    and "Suc (a_count (pm_regions g)) < PM_POOL_CAND_MAX"
    and "len < 2 ^ 32" "addr \<le> a" "a < addr + len"
  shows "is_pm_address a g2 = Some True"
proof -
  obtain c where c: "array_push_back (pm_pool_candidates g) fd = Some c" "g1 = g\<lparr>pm_pool_candidates := c\<rparr>"
    using assms(4,5) handle_open_cases [OF assms(2,3), of fd g] by (auto split: option.splits if_splits)
  have "array_contains c fd"
    using arr.mem_insert [OF _ c(1)] assms(1) by (simp add: cprd_ok_def)
  then obtain r where r: "array_push_back (pm_regions g) \<lparr>r_begin = addr, r_end = addr + ucast (ucast len :: u32)\<rparr> = Some r"
      "g2 = g1\<lparr>pm_regions := r\<rparr>"
    using assms(6,7) handle_mmap_cases [of ps addr "ucast len" fd g1 d g2 d'] c(2)
    by (auto simp: on_mmap_def)
  have "ucast (ucast len :: u32) = len"
    using assms(9) by (rule ucast_32_64_small)
  then have "region_contains \<lparr>r_begin = addr, r_end = addr + ucast (ucast len :: u32)\<rparr> a"
    using assms(10,11) by (simp add: region_contains_def)
  then show ?thesis
    using is_pm_address_live [of g2 "\<lparr>r_begin = addr, r_end = addr + ucast (ucast len :: u32)\<rparr>" a] arr.insert_content [OF _ r(1)] arr.insert_inv [OF _ r(1)]
      array_push_back_length [OF r(1)] assms(1,8) r(2)
    by (simp add: cprd_ok_def c(2))
qed

definition demo_path :: bytes where
  "demo_path a = (if a = 0 \<or> a = 16 then 112 else if a = 1 \<or> a = 17 then 109
     else if a = 2 \<or> a = 18 then 101 else if a = 3 \<or> a = 19 then 109 else 0)"

lemma demo_path_cstr: "cstr demo_path 0 [112, 109, 101, 109]" "cstr demo_path 16 [112, 109, 101, 109]"
  by (simp_all add: demo_path_def)

lemma on_mmap_returns:
  assumes "fd > 0" "IsPowerOfTwo ps" "Suc (a_count (pm_regions g)) < length (a_items (pm_regions g))"
  shows "\<exists>g' d'. on_mmap ps addr len fd (g, d) = Inr (g', d')"
proof -
  obtain d' where "clear_labels ps addr (ucast len) d = Inr d'"
    using clear_labels_returns [OF assms(2)] by blast
  then show ?thesis
    using assms by (simp add: on_mmap_def handle_mmap_def array_push_back_def)
qed

lemma demo_open:
  "\<exists>g1. handle_open_file demo_path 16 0 3 cprd_init = Inr g1 \<and> pm_regions g1 = pm_regions cprd_init"
proof -
  have "occurs_at [112, 109, 101, 109 :: u8] [112, 109, 101, 109] 0" by (simp add: occurs_at_def)
  then show ?thesis
    using handle_open_cases [OF demo_path_cstr(1) demo_path_cstr(2), of 3 cprd_init]
    by (auto simp: cprd_init_def array_push_back_def array_init_def PM_POOL_CAND_MAX_def)
qed

theorem mapped_pool_is_pm_witness:
  "\<exists>g1 g2 d. handle_open_file demo_path 16 0 3 cprd_init = Inr g1 \<and>
     on_mmap 4096 0x1000 0x2000 3 (g1, dfsan_zero) = Inr (g2, d) \<and> is_pm_address 0x2FFF g2 = Some True"
proof -
  obtain g1 where g1: "handle_open_file demo_path 16 0 3 cprd_init = Inr g1" "pm_regions g1 = pm_regions cprd_init"
    using demo_open by blast
  have cnt: "a_count (pm_regions cprd_init) = 0" "length (a_items (pm_regions cprd_init)) = 128"
    by (simp_all add: cprd_init_def array_init_def PM_POOL_CAND_MAX_def)
  have "IsPowerOfTwo 4096" by (simp add: IsPowerOfTwo_def)
  then obtain g2 d where g2: "on_mmap 4096 0x1000 0x2000 3 (g1, dfsan_zero) = Inr (g2, d)"
    using on_mmap_returns [of 3 4096 g1 "0x1000" "0x2000" dfsan_zero] g1(2) cnt by auto
  have "occurs_at [112, 109, 101, 109 :: u8] [112, 109, 101, 109] 0" by (simp add: occurs_at_def)
  from mapped_pool_is_pm [OF cprd_ok_init demo_path_cstr(1) demo_path_cstr(2) this g1(1) _ g2]
  have "is_pm_address 0x2FFF g2 = Some True"
    using cnt by (simp add: PM_POOL_CAND_MAX_def)
  then show ?thesis using g1 g2 by blast
qed

text \<open>The first mapping ever registered stays persistent memory after it is unmapped: no region
  is live, and its addresses are still recognised.\<close>

theorem first_region_survives_unmap:
  assumes "cprd_ok g" "a_count (pm_regions g) = 0" "array_contains (pm_pool_candidates g) fd"
    and "handle_mmap ps addr sz fd (g, d) = Inr (g1, d1)"
    and "handle_munmap ps addr sz (g1, d1) = Inr (g2, d2)"
    and "addr \<le> a" "a < addr + ucast sz"
  shows "array_live (pm_regions g2) = {#} \<and> is_pm_address a g2 = Some True"
proof -
  let ?r = "\<lparr>r_begin = addr, r_end = addr + ucast sz\<rparr>"
  obtain c where c: "array_push_back (pm_regions g) ?r = Some c" "g1 = g\<lparr>pm_regions := c\<rparr>"
    using assms(3,4) handle_mmap_cases [OF assms(4)] by auto
  have g2: "pm_regions g2 = snd (array_remove c ?r)"
    using assms(5) c(2) by (auto simp: handle_munmap_def split: sum.splits)
  have "array_live (pm_regions g) = {#}" using assms(2) by (simp add: array_live_def)
  then have "array_live (pm_regions g2) = {#}"
    using arr.delete_insert [OF _ c(1)] assms(1) g2 by (simp add: cprd_ok_def)
  moreover have "s_data (a_items c ! 0) = ?r"
    using c(1) assms(2) by (auto simp: array_push_back_def split: if_splits)
  then have "region_contains (s_data (a_items (pm_regions g2) ! 0)) a"
    using assms(6,7) g2 by (simp add: region_contains_def)
  moreover have "array_inv (pm_regions g2)" "a_count (pm_regions g2) = 1"
      "length (a_items (pm_regions g2)) = PM_POOL_CAND_MAX"
    using arr.delete_inv arr.insert_inv [OF _ c(1)] array_push_back_length [OF c(1)] assms(1,2) g2
    by (auto simp: cprd_ok_def)
  ultimately show ?thesis
    using is_pm_address_spec [of g2 a] by (simp add: PM_POOL_CAND_MAX_def)
qed

theorem first_region_survives_unmap_witness:
  "\<exists>g d g1 d1 g2 d2. handle_mmap 4096 0x1000 0x2000 3 (g, d) = Inr (g1, d1) \<and>
     handle_munmap 4096 0x1000 0x2000 (g1, d1) = Inr (g2, d2) \<and> is_pm_address 0x1000 g2 = Some True"
proof -
  let ?g = "cprd_init\<lparr>pm_pool_candidates := \<lparr>a_items = replicate 128 \<lparr>s_valid = True, s_data = 3\<rparr>, a_count = 1\<rparr>\<rparr>"
  have ok: "cprd_ok ?g" "a_count (pm_regions ?g) = 0" "array_contains (pm_pool_candidates ?g) 3"
    "array_push_back (pm_regions ?g) r \<noteq> None" for r
    by (simp_all add: cprd_ok_def cprd_init_def array_init_def array_inv_def array_contains_def array_find_def
        PM_POOL_CAND_MAX_def array_push_back_def)
  have pow: "IsPowerOfTwo 4096" by (simp add: IsPowerOfTwo_def)
  obtain d1 where d1: "clear_labels 4096 0x1000 0x2000 dfsan_zero = Inr d1"
    using clear_labels_returns [OF pow] by blast
  obtain d2 where d2: "clear_labels 4096 0x1000 0x2000 d1 = Inr d2"
    using clear_labels_returns [OF pow] by blast
  obtain c where "array_push_back (pm_regions ?g) \<lparr>r_begin = 0x1000, r_end = 0x1000 + ucast (0x2000 :: u32)\<rparr> = Some c"
    using ok(4) by blast
  then obtain g1 where g1: "handle_mmap 4096 0x1000 0x2000 3 (?g, dfsan_zero) = Inr (g1, d1)"
    using ok(3) d1 by (auto simp: handle_mmap_def)
  obtain g2 where g2: "handle_munmap 4096 0x1000 0x2000 (g1, d1) = Inr (g2, d2)"
    using d2 by (auto simp: handle_munmap_def)
  have "is_pm_address 0x1000 g2 = Some True"
    using first_region_survives_unmap [OF ok(1-3) g1 g2, of "0x1000"] by simp
  with g1 g2 show ?thesis by blast
qed

text \<open>A mapping whose length is a multiple of 4 GiB is registered as an empty region: no address
  is recognised because of it.\<close>

theorem huge_mapping_not_pm:
  assumes "cprd_ok g" "0 < a_count (pm_regions g)" "Suc (a_count (pm_regions g)) < PM_POOL_CAND_MAX"
    and "len AND 0xFFFFFFFF = 0" and "on_mmap ps addr len fd (g, d) = Inr (g', d')"
  shows "is_pm_address a g' = is_pm_address a g"
proof -
  have len: "ucast (ucast len :: u32) = (0 :: u64)"
  proof -
    have "ucast (ucast len :: u32) = len AND mask 32" by (simp add: unsigned_ucast_eq take_bit_eq_mask)
    also have "mask 32 = (0xFFFFFFFF :: u64)" by (simp add: mask_eq_exp_minus_1)
    finally show ?thesis using assms(4) by simp
  qed
  show ?thesis
  proof (cases "fd > 0 \<and> array_contains (pm_pool_candidates g) fd")
    case True
    then obtain c where c: "array_push_back (pm_regions g) \<lparr>r_begin = addr, r_end = addr\<rparr> = Some c"
        "g' = g\<lparr>pm_regions := c\<rparr>"
      using handle_mmap_cases [of ps addr "ucast len" fd g d g' d'] assms(5) by (auto simp: on_mmap_def len)
    have none: "\<not> region_contains \<lparr>r_begin = addr, r_end = addr\<rparr> a"
      by (auto simp: region_contains_def)
    have "s_data (a_items c ! 0) = s_data (a_items (pm_regions g) ! 0)"
      using c(1) assms(2) by (auto simp: array_push_back_def split: if_splits)
    then show ?thesis
      using is_pm_address_spec [of g a] is_pm_address_spec [of g' a] assms(1-3) c none
        arr.insert_content [OF _ c(1)] arr.insert_inv [OF _ c(1)] array_push_back_length [OF c(1)]
      by (simp add: cprd_ok_def)
  next
    case False
    then show ?thesis
      using assms(5) handle_mmap_cases [of ps addr "ucast len" fd g d g' d'] by (auto simp: on_mmap_def split: if_splits)
  qed
qed

theorem huge_mapping_not_pm_witness:
  "\<exists>g g' d'. on_mmap 4096 0x100000000 0x100000000 3 (g, dfsan_zero) = Inr (g', d') \<and>
     is_pm_address 0x100000000 g' = is_pm_address 0x100000000 g"
proof -
  let ?g = "cprd_init\<lparr>pm_regions := (pm_regions cprd_init)\<lparr>a_count := 1\<rparr>\<rparr>"
  have ok: "cprd_ok ?g" "0 < a_count (pm_regions ?g)" "Suc (a_count (pm_regions ?g)) < PM_POOL_CAND_MAX"
     "Suc (a_count (pm_regions ?g)) < length (a_items (pm_regions ?g))"
    by (simp_all add: cprd_ok_def cprd_init_def array_init_def array_inv_def PM_POOL_CAND_MAX_def)
  have "IsPowerOfTwo 4096" by (simp add: IsPowerOfTwo_def)
  then obtain g' d' where "on_mmap 4096 0x100000000 0x100000000 3 (?g, dfsan_zero) = Inr (g', d')"
    using on_mmap_returns [of 3 4096 ?g] ok(4) by fastforce
  with huge_mapping_not_pm [OF ok(1-3) _ this, of "0x100000000"] show ?thesis by auto
qed

text \<open>Opening and closing pool files, in any order.\<close>

datatype fd_op = OpenPool int | CloseFile int

fun run_fd_ops :: "bytes \<Rightarrow> u64 \<Rightarrow> u64 \<Rightarrow> fd_op list \<Rightarrow> cprd \<Rightarrow> cprd_stop + cprd" where
  "run_fd_ops m pattern path [] g = Inr g"
| "run_fd_ops m pattern path (OpenPool fd # ops) g =
     (case handle_open_file m pattern path fd g of Inl e \<Rightarrow> Inl e | Inr g' \<Rightarrow> run_fd_ops m pattern path ops g')"
| "run_fd_ops m pattern path (CloseFile fd # ops) g = run_fd_ops m pattern path ops (handle_close_file fd g)"

definition opens :: "fd_op list \<Rightarrow> nat" where
  "opens ops = length (filter (\<lambda>x. case x of OpenPool _ \<Rightarrow> True | CloseFile _ \<Rightarrow> False) ops)"

lemma run_fd_ops_overflow:
  assumes path: "cstr m path xs" "cstr m pattern ys" "occurs_at xs ys i"
    and "length (a_items (pm_pool_candidates g)) = PM_POOL_CAND_MAX"
    and "PM_POOL_CAND_MAX < a_count (pm_pool_candidates g) + opens ops" "a_count (pm_pool_candidates g) \<le> PM_POOL_CAND_MAX"
  shows "run_fd_ops m pattern path ops g = Inl OutOfRange"
  using assms(4-6)
proof (induction ops arbitrary: g)
  case (Cons x ops)
  show ?case
  proof (cases x)
    case (OpenPool fd)
    show ?thesis
    proof (cases "array_push_back (pm_pool_candidates g) fd")
      case None
      then show ?thesis using path(3) by (auto simp: OpenPool handle_open_cases [OF path(1,2)])
    next
      case (Some c)
      note L = array_push_back_length [OF Some]
      have "a_count c \<le> PM_POOL_CAND_MAX" using Some Cons.prems(1) L by (auto simp: array_push_back_def split: if_splits)
      then have "run_fd_ops m pattern path ops (g\<lparr>pm_pool_candidates := c\<rparr>) = Inl OutOfRange"
        using Cons.prems L by (intro Cons.IH) (simp_all add: OpenPool opens_def)
      then show ?thesis using path(3) Some by (auto simp: OpenPool handle_open_cases [OF path(1,2)])
    qed
  next
    case (CloseFile fd)
    then show ?thesis using Cons by (simp add: handle_close_file_def opens_def)
  qed
qed (simp add: opens_def)

text \<open>No sequence of opens and closes survives 129 opens of pool files: closing a file never gives
  its slot back, so the candidate array is written out of range.\<close>

theorem pool_candidates_overflow:
  assumes "cstr m path xs" "cstr m pattern ys" "occurs_at xs ys i" and "PM_POOL_CAND_MAX < opens ops"
  shows "run_fd_ops m pattern path ops cprd_init = Inl OutOfRange"
  by (rule run_fd_ops_overflow [OF assms(1-3)])
    (use assms(4) in \<open>simp_all add: cprd_init_def array_init_def\<close>)

theorem pool_candidates_overflow_witness:
  "run_fd_ops demo_path 16 0 (concat (replicate 129 [OpenPool 3, CloseFile 3])) cprd_init = Inl OutOfRange"
proof (rule pool_candidates_overflow [OF demo_path_cstr])
  show "occurs_at [112, 109, 101, 109 :: u8] [112, 109, 101, 109] 0" by (simp add: occurs_at_def)
  have "opens (concat (replicate n [OpenPool 3, CloseFile 3])) = n" for n
    by (induction n) (simp_all add: opens_def)
  then show "PM_POOL_CAND_MAX < opens (concat (replicate 129 [OpenPool 3, CloseFile 3]))"
    by (simp add: PM_POOL_CAND_MAX_def)
qed

section \<open>The log\<close>

lemma lives_ok_filter: "lives_ok c \<Longrightarrow> pending c' = filter_mset P (pending c) \<Longrightarrow> lives_ok c'"
proof -
  assume ok: "lives_ok c" and p: "pending c' = filter_mset P (pending c)"
  have "size (filter_mset (\<lambda>x. d_life x = l) (filter_mset P (pending c))) \<le>
      size (filter_mset (\<lambda>x. d_life x = l) (pending c))" for l
    by (intro size_mset_mono multiset_filter_mono multiset_filter_subset)
  then show "lives_ok c'"
    using ok by (auto simp: lives_ok_def p intro: order.trans)
qed

definition carried :: "dfsan \<Rightarrow> u16 \<Rightarrow> u16 \<Rightarrow> u64 \<Rightarrow> dep_state \<Rightarrow> bool" where
  "carried d lc la addr x \<longleftrightarrow> \<not> (lc = 0 \<and> la = 0) \<and> reported d lc la addr x"

lemma df_process_write_effect:
  fixes event_id pc tid addr :: u64 and lc :: u16 and c :: cprd_thread and d1 :: dfsan and al :: "u64 \<Rightarrow> u16"
  assumes ok: "thread_ok c" and wf: "dfsan_wf d" and r: "dfsan_read_label addr (ucast sz) d = Inr (lc, d1)"
  defines "R \<equiv> carried d1 lc (al addr) addr"
    and "line \<equiv> \<lambda>x. Dependency tid (d_pc x) (d_event_id x) pc event_id"
  shows "\<exists>c'. df_process_write al event_id tid pc addr sz (c, d) =
      Inr (c', d1, map line (swept id R (u_items (df_pending_reads c)))) \<and>
    thread_ok c' \<and> event_counter c' = event_counter c \<and>
    pending c' = filter_mset (\<lambda>x. \<not> R x) (pending c) \<and>
    unused_labels c' = unused_labels c @ map d_label (swept id R (u_items (df_pending_reads c)))"
proof (cases "lc = 0 \<and> al addr = 0")
  case True
  then have "\<not> R x" for x by (simp add: R_def carried_def)
  then show ?thesis
    using True ok r by (simp add: df_process_write_def swept_def)
next
  case False
  then have R: "R = reported d1 lc (al addr) addr" by (auto simp: R_def carried_def fun_eq_iff)
  have ac: "labels_acyclic d1"
    using dfsan_read_label_effect [OF wf r] by (simp add: dfsan_wf_def labels_wf_def)
  have pok: "pending_ok c" using ok by (simp add: thread_ok_def)
  from process_all_spec [OF pok ac, of lc "al addr" event_id tid pc addr]
  obtain c' where c': "ucoll_for PENDING_READS_MAX (\<lambda>(c, _). df_pending_reads c)
      (process_pending d1 lc (al addr) event_id tid pc addr) (ucoll_begin (df_pending_reads c)) (c, [])
      = Some (c', map line (swept id R (u_items (df_pending_reads c))))"
    "pending_ok c'" "event_counter c' = event_counter c" "pending c' = filter_mset (\<lambda>x. \<not> R x) (pending c)"
    "unused_labels c' = unused_labels c @ map d_label (swept id R (u_items (df_pending_reads c)))"
    unfolding R line_def by blast
  have "thread_ok c'"
    using ok c'(2) lives_ok_filter [OF _ c'(4)] by (simp add: thread_ok_def)
  then show ?thesis
    using False r c' by (auto simp: df_process_write_def Let_def)
qed

lemma get_unused_label_wf:
  assumes "dfsan_wf d" "get_unused_label (c, d) = Inr (l, c', d')" "\<forall>l \<in> set (unused_labels c). l \<le> last_label d"
  shows "dfsan_wf d' \<and> labels_extend d d' \<and> l \<le> last_label d'"
proof (cases "unused_labels c = []")
  case True
  then have cr: "dfsan_create_label None 0 d = Inr (l, d')"
    using assms(2) by (auto simp: get_unused_label_def split: sum.splits)
  have wf: "labels_wf d" using assms(1) by (simp add: dfsan_wf_def)
  have "shadow_mem d' = shadow_mem d"
    using cr by (auto simp: dfsan_create_label_def fresh_label_def Let_def split: if_splits)
  then show ?thesis
    using dfsan_create_label_spec [OF wf cr] assms(1)
    by (auto simp: dfsan_wf_def cells_valid_def labels_extend_def intro: order.trans)
next
  case False
  then show ?thesis
    using assms last_in_set [OF False] by (auto simp: get_unused_label_def)
qed

text \<open>C1: An access outside persistent memory changes nothing and is not logged; one inside it takes
  the thread's next event number and logs exactly one access line, first.\<close>

theorem access_logged_once:
  assumes "thread_ok (th_cprd thr)" "dfsan_wf d"
    and "instrument_memory_access al trace addr pc szl w at nt g (thr, d) = Inr (thr', d', out)"
  shows "if is_pm_address addr g = Some True
    then event_counter (th_cprd thr') = event_counter (th_cprd thr) + 1 \<and>
      (\<exists>ps. out = Access (event_counter (th_cprd thr)) (sint (ucast (th_fast_tid thr) :: u32)) w pc addr
               (2 ^ szl) (symbol_pc pc) at nt (map symbol_pc (rev trace)) # ps \<and>
         (\<forall>x \<in> set ps. w \<and> is_Dependency x))
    else thr' = thr \<and> d' = d \<and> out = []"
proof (cases "is_pm_address addr g = Some True")
  case False
  then show ?thesis
    using assms(3) by (auto simp: instrument_memory_access_def split: option.splits bool.splits)
next
  case True
  let ?c = "th_cprd thr" and ?id = "event_counter (th_cprd thr)" and ?tid = "th_fast_tid thr"
  let ?c1 = "?c\<lparr>event_counter := ?id + 1\<rparr>"
  have ok1: "thread_ok ?c1" using assms(1) by (simp add: thread_ok_def pending_ok_def lives_ok_def pending_def)
  show ?thesis
  proof (cases w)
    case False
    then obtain c' where m: "df_mark_read ?id ?tid pc addr (2 ^ szl) (?c1, d) = Inr (c', d')" "thr' = thr\<lparr>th_cprd := c'\<rparr>"
      "out = [Access ?id (sint (ucast ?tid :: u32)) False pc addr (2 ^ szl) (symbol_pc pc) at nt (log_callstack trace)]"
      using assms(3) True by (auto simp: instrument_memory_access_def make_event_id_def Let_def split: sum.splits)
    obtain l c2 d2 where lr: "label_read addr (2 ^ szl) (?c1, d) = Inr (l, c2, d2)"
      using m(1) by (auto simp: df_mark_read_def split: sum.splits)
    show ?thesis
      using df_mark_read_effect [OF ok1 lr, of ?id ?tid pc] m True False by (auto simp: log_callstack_def)
  next
    case wr: True
    then obtain c' ps where m: "df_process_write al ?id ?tid pc addr (2 ^ szl) (?c1, d) = Inr (c', d', ps)"
      "thr' = thr\<lparr>th_cprd := c'\<rparr>"
      "out = Access ?id (sint (ucast ?tid :: u32)) True pc addr (2 ^ szl) (symbol_pc pc) at nt (log_callstack trace) # ps"
      using assms(3) True by (auto simp: instrument_memory_access_def make_event_id_def Let_def split: sum.splits)
    obtain lc d1 where lr: "dfsan_read_label addr (ucast (2 ^ szl :: u32)) d = Inr (lc, d1)"
      using m(1) by (auto simp: df_process_write_def split: sum.splits)
    show ?thesis
      using df_process_write_effect [OF ok1 assms(2) lr, of al ?id ?tid pc] m True wr by (auto simp: log_callstack_def)
  qed
qed

definition pm_init :: cprd where
  "pm_init = cprd_init\<lparr>pm_regions := \<lparr>a_items = replicate 128 \<lparr>s_valid = True,
     s_data = \<lparr>r_begin = 0x1000, r_end = 0x3000\<rparr>\<rparr>, a_count = 1\<rparr>\<rparr>"

definition thread_init :: pm_thread where
  "thread_init = \<lparr>th_tid = 1, th_fast_tid = 1, flushes_cache = [], th_cprd = cprd_thread_init\<rparr>"

lemma pm_init_pm: "0x1000 \<le> a \<Longrightarrow> a < 0x3000 \<Longrightarrow> is_pm_address a pm_init = Some True"
  using is_pm_address_spec [of pm_init a]
  by (simp add: pm_init_def array_inv_def region_contains_def)

lemma dfsan_zero_wf: "dfsan_wf dfsan_zero"
  using labels_wf_zero by (simp add: dfsan_wf_def cells_valid_def dfsan_zero_def)

text \<open>A write in the initial state: no byte has a label.\<close>

lemma first_write:
  "\<exists>thr' d' out. instrument_memory_access (\<lambda>_. 0) [] 0x1000 5 0 True False False pm_init (thread_init, dfsan_zero)
     = Inr (thr', d', out)"
  by (simp add: instrument_memory_access_def pm_init_pm make_event_id_def Let_def df_process_write_def
      dfsan_read_label_def dfsan_union_load_def dfsan_zero_def)

theorem access_logged_once_witness:
  "\<exists>thr' d' out. instrument_memory_access (\<lambda>_. 0) [] 0x1000 5 0 True False False pm_init (thread_init, dfsan_zero)
     = Inr (thr', d', out) \<and> out \<noteq> [] \<and> event_counter (th_cprd thr') = 1"
proof -
  have ok: "thread_ok (th_cprd thread_init)" by (simp add: thread_init_def thread_ok_init)
  obtain thr' d' out where r: "instrument_memory_access (\<lambda>_. 0) [] 0x1000 5 0 True False False pm_init
      (thread_init, dfsan_zero) = Inr (thr', d', out)"
    using first_write by blast
  have "event_counter (th_cprd thread_init) = 0" by (simp add: thread_init_def cprd_thread_init_def)
  then show ?thesis
    using access_logged_once [OF ok dfsan_zero_wf r] r by (auto simp: pm_init_pm)
qed

text \<open>C17: A fence logs the cache line of every flush since the last fence, once per flush and in order,
  each line 64-byte aligned and containing the flushed address; afterwards none is pending.\<close>

theorem fence_logs_flushed_lines:
  assumes "flushes_cache thr = []"
  shows "\<exists>lines. instrument_fence pc (fold instrument_flush addrs thr) =
      (map (\<lambda>l. Flush (th_tid thr) pc l 64 (symbol_pc pc)) lines, thr) \<and>
    list_all2 (\<lambda>l a. 64 dvd unat l \<and> l \<le> a \<and> unat a < unat l + 64) lines addrs"
proof -
  let ?lines = "map (\<lambda>a. RoundDown a kCacheLineSize) addrs"
  have fl: "fold instrument_flush as t = t\<lparr>flushes_cache := flushes_cache t @ map (\<lambda>a. RoundDown a kCacheLineSize) as\<rparr>"
    for as and t :: pm_thread
    by (induction as arbitrary: t) (simp_all add: instrument_flush_def)
  have "unat (RoundDown a kCacheLineSize) = 64 * (unat a div 64)" for a
    using RoundDown_2p [of a 6] by (simp add: kCacheLineSize_def)
  then have "64 dvd unat (RoundDown a kCacheLineSize) \<and> RoundDown a kCacheLineSize \<le> a \<and>
      unat a < unat (RoundDown a kCacheLineSize) + 64" for a
    by (auto simp: word_le_nat_alt)
  then have "list_all2 (\<lambda>l a. 64 dvd unat l \<and> l \<le> a \<and> unat a < unat l + 64) ?lines addrs"
    by (simp add: list_all2_conv_all_nth)
  moreover have "instrument_fence pc (fold instrument_flush addrs thr) =
      (map (\<lambda>l. Flush (th_tid thr) pc l 64 (symbol_pc pc)) ?lines, thr)"
    using assms by (simp add: instrument_fence_def fl kCacheLineSize_def)
  ultimately show ?thesis by blast
qed

theorem fence_logs_flushed_lines_witness:
  "fst (instrument_fence 9 (fold instrument_flush [0x1007, 0x1047] thread_init)) \<noteq> []"
proof -
  have "flushes_cache thread_init = []" by (simp add: thread_init_def)
  from fence_logs_flushed_lines [OF this, of 9 "[0x1007, 0x1047]"] show ?thesis
    by (auto simp: list_all2_Cons2)
qed

lemma printed_exact: "printed_d x = uint x \<longleftrightarrow> x < 2 ^ 31"
proof -
  have "uint (ucast x :: u32) = uint x mod 2 ^ 32"
    by (simp add: unsigned_ucast_eq take_bit_eq_mod)
  moreover have "sint y = (uint y + 2 ^ 31) mod 2 ^ 32 - 2 ^ 31" for y :: u32
    using int_word_sint [of "uint y", where 'a = 32] by (simp only: word_of_int_uint) simp
  ultimately have p: "printed_d x = (uint x mod 2 ^ 32 + 2 ^ 31) mod 2 ^ 32 - 2 ^ 31"
    by (simp add: printed_d_def)
  have "0 \<le> uint x" by simp
  have "(n mod 2 ^ 32 + 2 ^ 31) mod 2 ^ 32 - 2 ^ 31 = n \<longleftrightarrow> n < 2 ^ 31" if "0 \<le> n" for n :: int
  proof
    assume e: "(n mod 2 ^ 32 + 2 ^ 31) mod 2 ^ 32 - 2 ^ 31 = n"
    have "(n mod 2 ^ 32 + 2 ^ 31) mod 2 ^ 32 < (2 ^ 32 :: int)" by (rule pos_mod_bound) simp
    with e show "n < 2 ^ 31" by simp
  qed (use that in simp)
  from this [of "uint x"] show ?thesis
    by (simp add: p word_less_def)
qed

text \<open>The clock events print an epoch exactly when it is below 2^31; the epochs themselves have 42
  bits.\<close>

theorem hb_edge_epochs_exact_iff:
  "hb_src_epoch (log_happens_before_edge src_tid src_epoch dst_tid dst_epoch) = uint src_epoch \<and>
   hb_dst_epoch (log_happens_before_edge src_tid src_epoch dst_tid dst_epoch) = uint dst_epoch
   \<longleftrightarrow> src_epoch < 2 ^ 31 \<and> dst_epoch < 2 ^ 31"
  by (simp add: log_happens_before_edge_def printed_exact)

section \<open>Dependencies\<close>

text \<open>C35: A marked read is always recorded: the other pending reads lose one life and the expired ones
  leave, the new one is added with its full life, and at most 30 are ever pending, so that the table
  of 1000 never fills and the warning branch is dead.\<close>

theorem mark_read_recorded:
  assumes "thread_ok c" and "df_mark_read event_id tid pc addr sz (c, d) = Inr (c', d')"
  shows "\<exists>l. pending c' = add_mset \<lparr>d_label = l, d_event_id = event_id, d_addr = addr, d_size = ucast sz,
        d_pc = pc, d_life = 30\<rparr>
      (image_mset (\<lambda>x. x\<lparr>d_life := d_life x - 1\<rparr>) (filter_mset (\<lambda>x. d_life x \<noteq> 1) (pending c))) \<and>
    thread_ok c' \<and> size (pending c') \<le> 30"
proof -
  obtain l c1 d1 where lr: "label_read addr sz (c, d) = Inr (l, c1, d1)"
    using assms(2) by (auto simp: df_mark_read_def split: sum.splits)
  have e: "filter_mset (\<lambda>x. d_life x \<noteq> 0) (image_mset aged (pending c)) =
      image_mset (\<lambda>x. x\<lparr>d_life := d_life x - 1\<rparr>) (filter_mset (\<lambda>x. d_life x \<noteq> 1) (pending c))"
  proof -
    have "aged = (\<lambda>x :: dep_state. x\<lparr>d_life := d_life x - 1\<rparr>)" by (simp add: aged_def fun_eq_iff)
    moreover have "d_life (aged x) \<noteq> 0 \<longleftrightarrow> d_life x \<noteq> 1" for x :: dep_state
      by (simp add: aged_def)
    ultimately show ?thesis by (simp only: filter_mset_image_mset o_def)
  qed
  obtain c2 where c2: "pending c2 = filter_mset (\<lambda>x. d_life x \<noteq> 0) (image_mset aged (pending c))"
    by (metis add_pending_alt age_all_spec assms(1) thread_ok_def)
  have "size (pending c2) \<le> 29"
    using lives_ok_age(1) [OF _ c2] assms(1) by (simp add: thread_ok_def)
  then show ?thesis
    using df_mark_read_effect [OF assms(1) lr, of event_id tid pc] assms(2) c2
    by (auto simp: e PENDING_READS_LIFE_MAX_def)
qed

theorem mark_read_recorded_witness:
  "\<exists>c' d'. df_mark_read 0 1 5 0x1000 1 (cprd_thread_init, dfsan_zero) = Inr (c', d') \<and> pending c' \<noteq> {#}"
proof -
  have lr: "\<exists>l c1 d1. label_read 0x1000 1 (cprd_thread_init, dfsan_zero) = Inr (l, c1, d1)"
    by (simp add: label_read_def dfsan_read_label_def dfsan_union_load_def dfsan_zero_def get_unused_label_def
        cprd_thread_init_def dfsan_create_label_def fresh_label_def kInitializingLabel_def dfsan_add_label_def
        dfsan_union_neq_def)
  then obtain c' d' where r: "df_mark_read 0 1 5 0x1000 1 (cprd_thread_init, dfsan_zero) = Inr (c', d')"
    using df_mark_read_effect [OF thread_ok_init] by blast
  with mark_read_recorded [OF thread_ok_init r] show ?thesis by auto
qed

text \<open>C2: A write reports exactly the pending reads that lie on another cache line and whose label is
  in the label of the written bytes or of the address, each once; exactly these stop being
  pending.\<close>

theorem write_reports_exactly:
  assumes "thread_ok c" "dfsan_wf d" "dfsan_read_label addr (ucast sz) d = Inr (lc, d1)"
    and "df_process_write al event_id tid pc addr sz (c, d) = Inr (c', d', out)"
  defines "R \<equiv> \<lambda>x. \<not> (lc = 0 \<and> al addr = 0) \<and> unat addr div 64 \<noteq> unat (d_addr x) div 64 \<and>
    (dfsan_has_label d1 lc (d_label x) = Some True \<or> dfsan_has_label d1 (al addr) (d_label x) = Some True)"
  shows "mset out = image_mset (\<lambda>x. Dependency tid (d_pc x) (d_event_id x) pc event_id) (filter_mset R (pending c)) \<and>
    pending c' = filter_mset (\<lambda>x. \<not> R x) (pending c)"
proof -
  have ac: "labels_acyclic d1"
    using dfsan_read_label_effect [OF assms(2,3)] by (simp add: dfsan_wf_def labels_wf_def)
  have line: "RoundDown a kCacheLineSize = RoundDown b kCacheLineSize \<longleftrightarrow> unat a div 64 = unat b div 64" for a b
    using RoundDown_2p [of a 6] RoundDown_2p [of b 6] by (simp add: word_unat_eq_iff kCacheLineSize_def)
  have R: "R = carried d1 lc (al addr) addr"
    by (auto simp: R_def carried_def reported_def fun_eq_iff line dfsan_has_label_sub [OF ac])
  have "mset (map f (swept id R (u_items (df_pending_reads c)))) = image_mset f (filter_mset R (pending c))"
    for f :: "dep_state \<Rightarrow> log_line"
    using mset_swept [of id R "df_pending_reads c"] by (simp add: pending_def)
  then show ?thesis
    using df_process_write_effect [OF assms(1-3), of al event_id tid pc] assms(4) by (auto simp: R)
qed

lemma pending_carried:
  assumes "thread_ok c" "dfsan_wf d" and "x \<in># pending c" "d_label x \<noteq> 0"
    and "dfsan_has_label d (shadow_mem d b) (d_label x) = Some True"
    and "b \<in> cell_range (shadow_for addr) (unat (ucast sz :: u64))"
    and "unat addr div 64 \<noteq> unat (d_addr x) div 64"
    and "df_process_write al event_id tid pc addr sz (c, d) = Inr (c', d', out)"
  shows "Dependency tid (d_pc x) (d_event_id x) pc event_id \<in> set out"
proof -
  obtain lc d1 where lr: "dfsan_read_label addr (ucast sz) d = Inr (lc, d1)"
    using assms(8) by (auto simp: df_process_write_def split: sum.splits)
  have ac: "labels_acyclic d" "labels_acyclic d1"
    using dfsan_read_label_effect [OF assms(2) lr] assms(2) by (simp_all add: dfsan_wf_def labels_wf_def)
  have "sub_label d (shadow_mem d b) (d_label x)" using assms(5) by (simp add: dfsan_has_label_sub [OF ac(1)])
  then have sub: "sub_label d1 lc (d_label x)" by (rule dfsan_read_label_sub [OF assms(2) lr assms(4,6)])
  then have nz: "lc \<noteq> 0" using sub_label_0 [OF ac(2)] assms(4) by auto
  have "RoundDown addr kCacheLineSize \<noteq> RoundDown (d_addr x) kCacheLineSize"
    using assms(7) RoundDown_2p [of addr 6] RoundDown_2p [of "d_addr x" 6]
    by (simp add: word_unat_eq_iff kCacheLineSize_def)
  then have R: "carried d1 lc (al addr) addr x" using sub nz by (simp add: carried_def reported_def)
  have "x \<in># mset (swept id (carried d1 lc (al addr) addr) (u_items (df_pending_reads c)))"
    unfolding mset_swept using R assms(3) by (simp add: pending_def)
  then show ?thesis
    using df_process_write_effect [OF assms(1,2) lr, of al event_id tid pc] assms(8) by auto
qed

text \<open>C7: A dependency is not missed: if a byte that is written carries the label of a pending read of
  another cache line, as \<open>dfsan_has_label\<close> answers it, the write reports that read. The label may be one
  that a union made: a read of labelled bytes is pending with the label they already have.\<close>

theorem copied_value_reported:
  assumes "thread_ok c" "dfsan_wf d" and "x \<in># pending c" "d_label x \<noteq> 0"
    and "dfsan_has_label d (shadow_mem d b) (d_label x) = Some True"
    and "b \<in> cell_range (shadow_for addr) (unat (ucast sz :: u64))"
    and "unat addr div 64 \<noteq> unat (d_addr x) div 64"
    and "df_process_write al event_id tid pc addr sz (c, d) = Inr (c', d', out)"
  shows "Dependency tid (d_pc x) (d_event_id x) pc event_id \<in> set out"
  using pending_carried [OF assms] .

text \<open>A read of address 0x1000 is pending with label 1, which byte 0x2000 carries.\<close>

definition demo_read :: dep_state where
  "demo_read = \<lparr>d_label = 1, d_event_id = 0, d_addr = 0x1000, d_size = 1, d_pc = 5, d_life = 30\<rparr>"

definition demo_thread :: cprd_thread where
  "demo_thread = add_pending demo_read cprd_thread_init"

definition demo_labels :: dfsan where
  "demo_labels = dfsan_zero\<lparr>last_label := 1, shadow_mem := (\<lambda>a. if a = shadow_for 0x2000 then 1 else 0)\<rparr>"

lemma demo_thread_ok: "thread_ok demo_thread" "pending demo_thread = {#demo_read#}"
proof -
  have p0: "pending cprd_thread_init = {#}" "pending_ok cprd_thread_init"
    using thread_ok_init
    by (simp_all add: thread_ok_def pending_def cprd_thread_init_def ucoll_live_def ucoll_init_def)
  note A = add_pending_spec [OF p0(2), of demo_read]
  show p: "pending demo_thread = {#demo_read#}"
    using A p0 by (simp add: demo_thread_def PENDING_READS_MAX_def)
  show "thread_ok demo_thread"
    using A(1) p0 p
    by (simp add: thread_ok_def lives_ok_def demo_read_def PENDING_READS_LIFE_MAX_def)
      (simp add: demo_thread_def demo_read_def PENDING_READS_MAX_def)
qed

lemma demo_labels_wf: "dfsan_wf demo_labels"
  by (simp add: dfsan_wf_def cells_valid_def demo_labels_def labels_wf_def labels_acyclic_def table_sound_def
      dfsan_zero_def kInitializingLabel_def)

lemma demo_labels_base: "base_labels demo_labels 1 = {1}"
  unfolding base_labels_def by (subst sub_label_unfold) (auto simp: demo_labels_def dfsan_zero_def)

lemma demo_read_label: "dfsan_read_label 0x2000 (ucast (1 :: u32)) demo_labels = Inr (1, demo_labels)"
  by (simp add: dfsan_read_label_def dfsan_union_load_def demo_labels_def)

lemma demo_write:
  "\<exists>c' d' out. df_process_write (\<lambda>_. 0) 7 1 9 0x2000 1 (demo_thread, demo_labels) = Inr (c', d', out)"
  using df_process_write_effect [OF demo_thread_ok(1) demo_labels_wf demo_read_label, of "\<lambda>_. 0" 7 1 9]
  by auto

theorem write_reports_exactly_witness:
  "\<exists>c' d' out. df_process_write (\<lambda>_. 0) 7 1 9 0x2000 1 (demo_thread, demo_labels) = Inr (c', d', out) \<and>
     pending c' = {#} \<and> size (mset out) = 1"
proof -
  obtain c' d' out where r: "df_process_write (\<lambda>_. 0) 7 1 9 0x2000 1 (demo_thread, demo_labels) = Inr (c', d', out)"
    using demo_write by blast
  have h: "dfsan_has_label demo_labels 1 1 = Some True" by (simp add: dfsan_has_label.simps)
  show ?thesis
    using write_reports_exactly [OF demo_thread_ok(1) demo_labels_wf demo_read_label r] r h
    by (simp add: demo_thread_ok(2)) (simp add: demo_read_def)
qed

theorem copied_value_reported_witness:
  "\<exists>c' d' out. df_process_write (\<lambda>_. 0) 7 1 9 0x2000 1 (demo_thread, demo_labels) = Inr (c', d', out) \<and>
     Dependency 1 5 0 9 7 \<in> set out"
proof -
  obtain c' d' out where r: "df_process_write (\<lambda>_. 0) 7 1 9 0x2000 1 (demo_thread, demo_labels) = Inr (c', d', out)"
    using demo_write by blast
  have "dfsan_has_label demo_labels (shadow_mem demo_labels (shadow_for 0x2000)) (d_label demo_read) = Some True"
    by (simp add: demo_labels_def demo_read_def dfsan_has_label.simps)
  moreover have "shadow_for 0x2000 \<in> cell_range (shadow_for 0x2000) (unat (ucast (1 :: u32) :: u64))"
    by (simp add: cell_range_Suc)
  ultimately have "Dependency 1 (d_pc demo_read) (d_event_id demo_read) 9 7 \<in> set out"
    using copied_value_reported [OF demo_thread_ok(1) demo_labels_wf _ _ _ _ _ r, of demo_read "shadow_for 0x2000"]
    by (simp add: demo_thread_ok(2) demo_read_def)
  with r show ?thesis by (simp add: demo_read_def)
qed

lemma mark_read_pool:
  assumes "thread_ok c" "label_read addr sz (c, d) = Inr (l, c, d1)"
    and "df_mark_read event_id tid pc addr sz (c, d) = Inr (c', d')"
  shows "thread_ok c' \<and> mset (unused_labels c') = mset (unused_labels c) +
      image_mset d_label (filter_mset (\<lambda>x. d_life x = 1) (pending c)) \<and>
    (\<forall>x \<in># pending c. d_life x \<noteq> 1 \<longrightarrow> aged x \<in># pending c')"
proof -
  let ?xs = "u_items (df_pending_reads c)"
  have life: "(d_life (aged x) = 0) = (d_life x = 1)" for x :: dep_state by (auto simp: aged_def)
  have lab: "d_label (aged x) = d_label x" for x :: dep_state by (simp add: aged_def)
  have "mset (map d_label (swept aged (\<lambda>x. d_life x = 0) ?xs)) =
      image_mset d_label (filter_mset (\<lambda>x. d_life x = 1) (pending c))"
    by (simp add: mset_swept filter_mset_image_mset o_def life lab multiset.map_comp flip: pending_def)
  then show ?thesis
    using df_mark_read_effect [OF assms(1,2), of event_id tid pc] assms(3) life by auto
qed

section \<open>Whole runs\<close>

text \<open>The invariant of a thread and the label store: labels in use have been created.\<close>

definition run_ok :: "cprd_thread \<Rightarrow> dfsan \<Rightarrow> bool" where
  "run_ok c d \<longleftrightarrow> thread_ok c \<and> dfsan_wf d \<and> (\<forall>l \<in> set (unused_labels c). l \<le> last_label d) \<and>
     (\<forall>x \<in># pending c. d_label x \<le> last_label d)"

lemma run_ok_other: "run_ok c d \<Longrightarrow> dfsan_wf d' \<Longrightarrow> labels_extend d d' \<Longrightarrow> run_ok c d'"
  by (auto simp: run_ok_def labels_extend_def intro: order.trans)

lemma label_read_ok:
  assumes "run_ok c d" "label_read addr sz (c, d) = Inr (l, c1, d1)"
  shows "dfsan_wf d1 \<and> labels_extend d d1 \<and> l \<le> last_label d1 \<and> set (unused_labels c1) \<subseteq> set (unused_labels c)"
proof -
  have wf: "dfsan_wf d" using assms(1) by (simp add: run_ok_def)
  obtain l0 d0 where r: "dfsan_read_label addr (ucast sz) d = Inr (l0, d0)"
    using assms(2) by (auto simp: label_read_def split: sum.splits)
  note R = dfsan_read_label_effect [OF wf r]
  show ?thesis
  proof (cases "l0 = 0")
    case False
    then show ?thesis using assms(2) r R by (auto simp: label_read_def)
  next
    case True
    then obtain d2 where g: "get_unused_label (c, d0) = Inr (l, c1, d2)" and a: "dfsan_add_label l addr (ucast sz) d2 = Inr d1"
      using assms(2) r by (auto simp: label_read_def split: sum.splits)
    have "\<forall>l \<in> set (unused_labels c). l \<le> last_label d0"
      using R assms(1) by (auto simp: run_ok_def labels_extend_def intro: order.trans)
    from get_unused_label_wf [OF _ g this] R have G: "dfsan_wf d2" "labels_extend d0 d2" "l \<le> last_label d2" by auto
    have A: "dfsan_wf d1" "labels_extend d2 d1"
      using add_label_loop_spec [OF G(1,3)] a by (auto simp: dfsan_add_label_def)
    have "set (unused_labels c1) \<subseteq> set (unused_labels c)"
      using g by (auto simp: get_unused_label_def split: if_splits sum.splits dest: in_set_butlastD)
    then show ?thesis
      using R G A by (auto simp: labels_extend_def intro: order.trans)
  qed
qed

lemma label_read_fails:
  assumes "run_ok c d" "label_read addr sz (c, d) = Inl e"
  shows "e = OutOfLabels"
proof -
  have wf: "dfsan_wf d" using assms(1) by (simp add: run_ok_def)
  show ?thesis
  proof (cases "dfsan_read_label addr (ucast sz) d")
    case (Inl e')
    then show ?thesis using assms(2) dfsan_read_label_fails [OF wf Inl] by (simp add: label_read_def)
  next
    case (Inr p)
    obtain l0 d0 where r: "dfsan_read_label addr (ucast sz) d = Inr (l0, d0)" using Inr by (cases p) auto
    note R = dfsan_read_label_effect [OF wf r]
    have un: "\<forall>l \<in> set (unused_labels c). l \<le> last_label d0"
      using R assms(1) by (auto simp: run_ok_def labels_extend_def intro: order.trans)
    show ?thesis
    proof (cases "get_unused_label (c, d0)")
      case (Inl e')
      then have "e' = OutOfLabels"
        by (auto simp: get_unused_label_def dfsan_create_label_def fresh_label_def Let_def split: if_splits)
      then show ?thesis using assms(2) r Inl by (auto simp: label_read_def split: if_splits)
    next
      case (Inr q)
      then obtain l c1 d2 where g: "get_unused_label (c, d0) = Inr (l, c1, d2)" by (cases q) auto
      have "dfsan_wf d2" "l \<le> last_label d2" using get_unused_label_wf [OF _ g un] R by auto
      then show ?thesis
        using assms(2) r g add_label_loop_fails
        by (auto simp: label_read_def dfsan_add_label_def split: if_splits sum.splits)
    qed
  qed
qed

lemma df_mark_read_ok:
  assumes ok: "run_ok c d"
  shows "case df_mark_read event_id tid pc addr sz (c, d) of
      Inl e \<Rightarrow> e = Dfsan OutOfLabels
    | Inr (c', d') \<Rightarrow> run_ok c' d' \<and> labels_extend d d' \<and> event_counter c' = event_counter c"
proof (cases "label_read addr sz (c, d)")
  case (Inl e)
  then show ?thesis using label_read_fails [OF ok Inl] by (simp add: df_mark_read_def)
next
  case (Inr p)
  then obtain l c1 d1 where lr: "label_read addr sz (c, d) = Inr (l, c1, d1)" by (cases p) auto
  have th: "thread_ok c" using ok by (simp add: run_ok_def)
  note L = label_read_ok [OF ok lr]
  obtain c' where c': "df_mark_read event_id tid pc addr sz (c, d) = Inr (c', d1)" "thread_ok c'"
    "event_counter c' = event_counter c"
    "pending c' = add_mset \<lparr>d_label = l, d_event_id = event_id, d_addr = addr, d_size = ucast sz, d_pc = pc,
        d_life = PENDING_READS_LIFE_MAX\<rparr> (filter_mset (\<lambda>x. d_life x \<noteq> 0) (image_mset aged (pending c)))"
    "unused_labels c' = unused_labels c1 @ map d_label (swept aged (\<lambda>x. d_life x = 0) (u_items (df_pending_reads c)))"
    using df_mark_read_effect [OF th lr] by blast
  have old: "d_label x \<le> last_label d1" if "x \<in># pending c" for x
    using ok L that by (auto simp: run_ok_def labels_extend_def intro: order.trans)
  have "set (map d_label (swept aged (\<lambda>x. d_life x = 0) (u_items (df_pending_reads c)))) \<subseteq> d_label ` set_mset (pending c)"
  proof -
    have "set (swept aged (\<lambda>x. d_life x = 0) (u_items (df_pending_reads c))) \<subseteq> aged ` set_mset (pending c)"
      using arg_cong [OF mset_swept [of aged "\<lambda>x. d_life x = 0" "df_pending_reads c"], of set_mset]
      by (auto simp: pending_def)
    then have "d_label ` set (swept aged (\<lambda>x. d_life x = 0) (u_items (df_pending_reads c))) \<subseteq> d_label ` aged ` set_mset (pending c)"
      by (rule image_mono)
    also have "\<dots> = d_label ` set_mset (pending c)" by (simp add: image_image aged_def)
    finally show ?thesis by simp
  qed
  then have "\<forall>l \<in> set (unused_labels c'). l \<le> last_label d1"
    using c'(5) old L ok by (auto simp: run_ok_def labels_extend_def dest!: subsetD intro: order.trans)
  moreover have "\<forall>x \<in># pending c'. d_label x \<le> last_label d1"
    using c'(4) old L by (auto simp: aged_def)
  ultimately show ?thesis using c' L by (simp add: run_ok_def)
qed

lemma df_process_write_ok:
  assumes ok: "run_ok c d"
  shows "case df_process_write al event_id tid pc addr sz (c, d) of
      Inl e \<Rightarrow> e = Dfsan OutOfLabels
    | Inr (c', d', out) \<Rightarrow> run_ok c' d' \<and> labels_extend d d' \<and> event_counter c' = event_counter c \<and>
        (\<forall>x \<in> set out. is_Dependency x)"
proof (cases "dfsan_read_label addr (ucast sz) d")
  case (Inl e)
  then show ?thesis
    using dfsan_read_label_fails [OF _ Inl] ok by (simp add: df_process_write_def run_ok_def)
next
  case (Inr p)
  then obtain lc d1 where lr: "dfsan_read_label addr (ucast sz) d = Inr (lc, d1)" by (cases p) auto
  have th: "thread_ok c" "dfsan_wf d" using ok by (simp_all add: run_ok_def)
  note R = dfsan_read_label_effect [OF th(2) lr]
  let ?R = "carried d1 lc (al addr) addr"
  have "set (swept id ?R (u_items (df_pending_reads c))) \<subseteq> set_mset (pending c)"
    using arg_cong [OF mset_swept [of id ?R "df_pending_reads c"], of set_mset] by (auto simp: pending_def)
  then have "d_label x \<le> last_label d1" if "x \<in> set (swept id ?R (u_items (df_pending_reads c))) \<or> x \<in># pending c" for x
    using that ok R by (auto simp: run_ok_def labels_extend_def intro: order.trans)
  moreover have "l \<le> last_label d1" if "l \<in> set (unused_labels c)" for l
    using that ok R by (auto simp: run_ok_def labels_extend_def intro: order.trans)
  ultimately show ?thesis
    using df_process_write_effect [OF th lr, of al event_id tid pc] R by (auto simp: run_ok_def)
qed

lemma shared_pool:
  assumes "thread_ok c" "unused_labels c = []" "x \<in># pending c" "y \<in># pending c"
    and "d_life x = 1" "d_life y = 2" "d_label x = l" "d_label y = l" and third: "\<forall>z \<in># pending c. d_life z \<noteq> 3"
    and "label_read a1 s1 (c, d) = Inr (l1, c, d1)" "df_mark_read e1 t1 p1 a1 s1 (c, d) = Inr (c1, d1)"
    and "label_read a2 s2 (c1, d1) = Inr (l2, c1, d2)" "df_mark_read e2 t2 p2 a2 s2 (c1, d1) = Inr (c2, d2)"
  shows "unused_labels c2 = [l, l]" "\<forall>z \<in># pending c2. d_life z \<noteq> 1"
proof -
  note M1 = mark_read_pool [OF assms(1,10,11)]
  then have ok1: "thread_ok c1" by blast
  note M2 = mark_read_pool [OF ok1 assms(12,13)]
  have single: "filter_mset (\<lambda>x. d_life x = 1) (pending t) = {#z#}"
    if "thread_ok t" "z \<in># pending t" "d_life z = 1" for t and z :: dep_state
  proof -
    have "z \<in># filter_mset (\<lambda>x. d_life x = 1) (pending t)" using that by simp
    moreover have "size (filter_mset (\<lambda>x. d_life x = 1) (pending t)) \<le> 1"
      using that(1) by (simp add: thread_ok_def lives_ok_def)
    ultimately show ?thesis by (auto dest!: multi_member_split)
  qed
  have "aged y \<in># pending c1" "d_life (aged y) = 1" "d_label (aged y) = l"
    using M1 assms(4,6,8) by (auto simp: aged_def)
  then have "mset (unused_labels c2) = {#l, l#}"
    using M1 M2 single [OF assms(1,3,5)] single [OF ok1, of "aged y"] assms(2,7) by simp
  then show "unused_labels c2 = [l, l]"
    by (cases "unused_labels c2" rule: rev_cases) (auto simp: add_eq_conv_ex)
  have P: "d_life z = 30 \<or> (\<exists>w \<in># pending t. d_life z = d_life w - 1)"
    if "thread_ok t" "label_read a s (t, d) = Inr (l, t', d')" "df_mark_read e ti p a s (t, d) = Inr (t2, d')" "z \<in># pending t2"
    for t t' t2 :: cprd_thread and z a s d l d' e ti p
    using df_mark_read_effect [OF that(1,2), of e ti p] that(3,4) by (auto simp: aged_def PENDING_READS_LIFE_MAX_def)
  show "\<forall>z \<in># pending c2. d_life z \<noteq> 1"
  proof
    fix z
    assume z: "z \<in># pending c2"
    have two: "d_life w \<noteq> 2" if "w \<in># pending c1" for w
      using P [OF assms(1,10,11) that] third by auto
    show "d_life z \<noteq> 1" using P [OF ok1 assms(12,13) z] two by auto
  qed
qed

text \<open>A read of bytes without a label, with a label waiting in the pool.\<close>

lemma recycled_read:
  assumes ok: "run_ok c d" and pool: "unused_labels c = ls @ [l]"
    and un: "dfsan_read_label a (ucast s) d = Inr (0, d)" and m: "df_mark_read e t p a s (c, d) = Inr (c', d')"
  shows "run_ok c' d'" "\<forall>z \<in># pending c. d_life z \<noteq> 1 \<Longrightarrow> unused_labels c' = ls" "\<forall>z \<in># pending c. d_life z \<noteq> 1 \<longrightarrow> aged z \<in># pending c'"
    and "\<lparr>d_label = l, d_event_id = e, d_addr = a, d_size = ucast s, d_pc = p, d_life = PENDING_READS_LIFE_MAX\<rparr> \<in># pending c'"
proof -
  have th: "thread_ok c" using ok by (simp add: run_ok_def)
  have g: "get_unused_label (c, d) = Inr (l, c\<lparr>unused_labels := ls\<rparr>, d)" using pool by (simp add: get_unused_label_def)
  obtain l1 c1 d1 where lr: "label_read a s (c, d) = Inr (l1, c1, d1)"
    using m by (auto simp: df_mark_read_def split: sum.splits)
  then have e: "l1 = l" "c1 = c\<lparr>unused_labels := ls\<rparr>" using un g by (auto simp: label_read_def split: sum.splits)
  have life: "(d_life (aged x) = 0) = (d_life x = 1)" for x :: dep_state by (auto simp: aged_def)
  note E = df_mark_read_effect [OF th lr, of e t p]
  show "run_ok c' d'" using df_mark_read_ok [OF ok, of e t p a s] by (simp add: m)
  show "\<forall>z \<in># pending c. d_life z \<noteq> 1 \<longrightarrow> aged z \<in># pending c'" using E m life by auto
  show "\<lparr>d_label = l, d_event_id = e, d_addr = a, d_size = ucast s, d_pc = p, d_life = PENDING_READS_LIFE_MAX\<rparr> \<in># pending c'"
    using E m e(1) by auto
  assume exp: "\<forall>z \<in># pending c. d_life z \<noteq> 1"
  have "\<not> (\<exists>z. z \<in># filter_mset (\<lambda>x. d_life x = 0) (image_mset aged (pending c)))" using exp life by auto
  then have "filter_mset (\<lambda>x. d_life x = 0) (image_mset aged (pending c)) = {#}" by (metis multiset_nonemptyE)
  then have "mset (swept aged (\<lambda>x. d_life x = 0) (u_items (df_pending_reads c))) = {#}"
    by (simp add: mset_swept pending_def)
  then have sw: "swept aged (\<lambda>x. d_life x = 0) (u_items (df_pending_reads c)) = []" by simp
  then show "unused_labels c' = ls" using E m e(2) by auto
qed

text \<open>C36: When two pending reads share a label, as two reads of the same labelled byte do, the label
  goes to the pool of unused labels twice: with lives 1 and 2 they expire at the next two reads
  (of labelled bytes, so that the pool is not drawn from; the pool was empty and no third read expires
  right behind them). The two reads of unlabelled bytes after that, of \<open>a3\<close> and \<open>a4\<close>, both get this label:
  a write of any byte that carries it, on a line other than theirs, is reported as coming from both reads,
  whichever of the two the byte was copied from.\<close>

theorem shared_label_recycled_twice:
  assumes "run_ok c d" "unused_labels c = []" "x \<in># pending c" "y \<in># pending c" "\<forall>z \<in># pending c. d_life z \<noteq> 3"
    and "d_life x = 1" "d_life y = 2" "d_label x = l" "d_label y = l" "l \<noteq> 0"
    and "label_read a1 s1 (c, d) = Inr (l1, c, d1)" "df_mark_read e1 t1 p1 a1 s1 (c, d) = Inr (c1, d1)"
    and "label_read a2 s2 (c1, d1) = Inr (l2, c1, d2)" "df_mark_read e2 t2 p2 a2 s2 (c1, d1) = Inr (c2, d2)"
    and "dfsan_read_label a3 (ucast s3) d2 = Inr (0, d2)" "df_mark_read e3 t3 p3 a3 s3 (c2, d2) = Inr (c3, d3)"
    and "dfsan_read_label a4 (ucast s4) d3 = Inr (0, d3)" "df_mark_read e4 t4 p4 a4 s4 (c3, d3) = Inr (c4, d4)"
    and "b \<in> cell_range (shadow_for addr) (unat (ucast sz :: u64))" "dfsan_has_label d4 (shadow_mem d4 b) l = Some True"
    and "unat addr div 64 \<noteq> unat a3 div 64" "unat addr div 64 \<noteq> unat a4 div 64"
    and "df_process_write al e t p addr sz (c4, d4) = Inr (c5, d5, out)"
  shows "{Dependency t p3 e3 p e, Dependency t p4 e4 p e} \<subseteq> set out"
proof -
  have th: "thread_ok c" using assms(1) by (simp add: run_ok_def)
  note S = shared_pool [OF th assms(2-4,6-9,5,11-14)]
  have ok1: "run_ok c1 d1" using df_mark_read_ok [OF assms(1), of e1 t1 p1 a1 s1] by (simp add: assms(12))
  have ok2: "run_ok c2 d2" using df_mark_read_ok [OF ok1, of e2 t2 p2 a2 s2] by (simp add: assms(14))
  have pool: "unused_labels c2 = [l] @ [l]" using S(1) by simp
  note R3 = recycled_read [OF ok2 pool assms(15,16)]
  have pool3: "unused_labels c3 = [] @ [l]" using R3(2) [OF S(2)] by simp
  note R4 = recycled_read [OF R3(1) pool3 assms(17,18)]
  have ok4: "thread_ok c4" "dfsan_wf d4" using R4(1) by (simp_all add: run_ok_def)
  let ?n = "\<lambda>e a s p. \<lparr>d_label = l, d_event_id = e, d_addr = a, d_size = ucast s, d_pc = p, d_life = PENDING_READS_LIFE_MAX\<rparr>"
  have x3: "aged (?n e3 a3 s3 p3) \<in># pending c4" using R3(4) R4(3) by (simp add: PENDING_READS_LIFE_MAX_def)
  have "Dependency t p3 e3 p e \<in> set out"
    using pending_carried [OF ok4 x3 _ _ assms(19) _ assms(23)] assms(10,20,21) by (simp add: aged_def)
  moreover have "Dependency t p4 e4 p e \<in> set out"
    using pending_carried [OF ok4 R4(4) _ _ assms(19) _ assms(23)] assms(10,20,22) by simp
  ultimately show ?thesis by simp
qed

definition demo_pair :: cprd_thread where
  "demo_pair = add_pending (demo_read\<lparr>d_life := 1\<rparr>) (add_pending (demo_read\<lparr>d_life := 2\<rparr>) cprd_thread_init)"

theorem shared_label_recycled_twice_witness:
  "\<exists>c1 c2 c3 c4 c5 d3 d4 d5 out.
     df_mark_read 0 1 5 0x2000 1 (demo_pair, demo_labels) = Inr (c1, demo_labels) \<and>
     df_mark_read 1 1 5 0x2000 1 (c1, demo_labels) = Inr (c2, demo_labels) \<and>
     df_mark_read 3 1 5 0x3000 1 (c2, demo_labels) = Inr (c3, d3) \<and> df_mark_read 4 1 6 0x3800 1 (c3, d3) = Inr (c4, d4) \<and>
     df_process_write (\<lambda>_. 0) 7 1 9 0x2000 1 (c4, d4) = Inr (c5, d5, out) \<and>
     {Dependency 1 5 3 9 7, Dependency 1 6 4 9 7} \<subseteq> set out"
proof -
  let ?x = "demo_read\<lparr>d_life := 1\<rparr>" and ?y = "demo_read\<lparr>d_life := 2\<rparr>"
  let ?c1 = "add_pending ?y cprd_thread_init"
  have p0: "pending cprd_thread_init = {#}" "pending_ok cprd_thread_init"
    using thread_ok_init
    by (simp_all add: thread_ok_def pending_def cprd_thread_init_def ucoll_live_def ucoll_init_def)
  have p1: "pending ?c1 = {#?y#}" "pending_ok ?c1"
    using add_pending_spec [OF p0(2), of ?y] p0(1) by (simp_all add: PENDING_READS_MAX_def)
  have p2: "pending demo_pair = {#?x, ?y#}" "pending_ok demo_pair"
    using add_pending_spec [OF p1(2), of ?x] p1(1) by (simp_all add: PENDING_READS_MAX_def demo_pair_def)
  have th: "thread_ok demo_pair"
    using p2 by (auto simp: thread_ok_def lives_ok_def PENDING_READS_LIFE_MAX_def)
  have un: "unused_labels demo_pair = []" by (simp add: demo_pair_def cprd_thread_init_def)
  have ok: "run_ok demo_pair demo_labels"
    using th demo_labels_wf p2(1) un by (auto simp: run_ok_def demo_read_def demo_labels_def)
  have lr: "label_read 0x2000 1 (c, demo_labels) = Inr (1, c, demo_labels)" for c
    using demo_read_label by (simp add: label_read_def)
  obtain c1 where m1: "df_mark_read 0 1 5 0x2000 1 (demo_pair, demo_labels) = Inr (c1, demo_labels)" "thread_ok c1"
    using df_mark_read_effect [OF th lr] by blast
  obtain c2 where m2: "df_mark_read 1 1 5 0x2000 1 (c1, demo_labels) = Inr (c2, demo_labels)" "thread_ok c2"
    using df_mark_read_effect [OF m1(2) lr] by blast
  have xy: "?x \<in># pending demo_pair" "?y \<in># pending demo_pair" "\<forall>z \<in># pending demo_pair. d_life z \<noteq> 3"
      "d_life ?x = 1" "d_life ?y = 2" "d_label ?x = 1" "d_label ?y = 1"
    using p2(1) by (auto simp: demo_read_def)
  note S = shared_pool [OF th un xy(1,2,4-7,3) lr m1(1) lr m2(1)]
  let ?mem = "\<lambda>A a. if a \<in> A then 1 else 0 :: u16"
  have sh: "shadow_for 0x2000 = 0x4000" "shadow_for 0x3000 = 0x6000" "shadow_for 0x3800 = 0x7000"
    by (simp_all add: shadow_for_def kShadowMask_def)
  let ?d = "\<lambda>A. dfsan_zero\<lparr>last_label := 1, shadow_mem := ?mem A\<rparr>"
  have d0: "demo_labels = ?d {0x4000}" by (simp add: demo_labels_def sh fun_eq_iff)
  have u3: "dfsan_read_label 0x3000 (ucast (1 :: u32)) demo_labels = Inr (0, demo_labels)"
    by (simp add: dfsan_read_label_def dfsan_union_load_def d0 sh)
  have "\<exists>c3. df_mark_read 3 1 5 0x3000 1 (c2, demo_labels) = Inr (c3, ?d {0x6000, 0x4000})"
  proof -
    have "label_read 0x3000 1 (c2, demo_labels) = Inr (1, c2\<lparr>unused_labels := [1]\<rparr>, ?d {0x6000, 0x4000})"
      using u3 S(1) by (simp add: label_read_def get_unused_label_def dfsan_add_label_def dfsan_union_neq_def sh d0 fun_eq_iff)
    from df_mark_read_effect [OF m2(2) this] show ?thesis by blast
  qed
  then obtain c3 where m3: "df_mark_read 3 1 5 0x3000 1 (c2, demo_labels) = Inr (c3, ?d {0x6000, 0x4000})" by blast
  have ok1: "run_ok c1 demo_labels" using df_mark_read_ok [OF ok, of 0 1 5 "0x2000" 1] by (simp add: m1(1))
  have ok2: "run_ok c2 demo_labels" using df_mark_read_ok [OF ok1, of 1 1 5 "0x2000" 1] by (simp add: m2(1))
  have pool: "unused_labels c2 = [1] @ [1]" using S(1) by simp
  note R3 = recycled_read [OF ok2 pool u3 m3]
  have u4: "dfsan_read_label 0x3800 (ucast (1 :: u32)) (?d {0x6000, 0x4000}) = Inr (0, ?d {0x6000, 0x4000})"
    by (simp add: dfsan_read_label_def dfsan_union_load_def sh)
  have "\<exists>c4. df_mark_read 4 1 6 0x3800 1 (c3, ?d {0x6000, 0x4000}) = Inr (c4, ?d {0x7000, 0x6000, 0x4000})"
  proof -
    have "label_read 0x3800 1 (c3, ?d {0x6000, 0x4000}) = Inr (1, c3\<lparr>unused_labels := []\<rparr>, ?d {0x7000, 0x6000, 0x4000})"
      using u4 R3(2) [OF S(2)] by (simp add: label_read_def get_unused_label_def dfsan_add_label_def dfsan_union_neq_def sh fun_eq_iff)
    moreover have "thread_ok c3" using R3(1) by (simp add: run_ok_def)
    ultimately show ?thesis using df_mark_read_effect by blast
  qed
  then obtain c4 where m4: "df_mark_read 4 1 6 0x3800 1 (c3, ?d {0x6000, 0x4000}) = Inr (c4, ?d {0x7000, 0x6000, 0x4000})" by blast
  let ?d4 = "?d {0x7000, 0x6000, 0x4000}"
  have pool3: "unused_labels c3 = [] @ [1]" using R3(2) [OF S(2)] by simp
  have ok4: "run_ok c4 ?d4" using recycled_read(1) [OF R3(1) pool3 u4 m4] .
  have r: "dfsan_read_label 0x2000 (ucast (1 :: u32)) ?d4 = Inr (1, ?d4)"
    by (simp add: dfsan_read_label_def dfsan_union_load_def sh)
  have "thread_ok c4" "dfsan_wf ?d4" using ok4 by (simp_all add: run_ok_def)
  then obtain c5 out where w: "df_process_write (\<lambda>_. 0) 7 1 9 0x2000 1 (c4, ?d4) = Inr (c5, ?d4, out)"
    using df_process_write_effect [OF _ _ r, of c4 "\<lambda>_. 0" 7 1 9] by blast
  have b: "(0x4000 :: u64) \<in> cell_range (shadow_for 0x2000) (unat (ucast (1 :: u32) :: u64))"
    by (simp add: sh cell_range_Suc)
  have h: "dfsan_has_label ?d4 (shadow_mem ?d4 0x4000) 1 = Some True" by (simp add: dfsan_has_label.simps)
  have "{Dependency 1 5 3 9 7, Dependency 1 6 4 9 7} \<subseteq> set out"
    by (rule shared_label_recycled_twice [OF ok un xy(1-3,4-7) _ lr m1(1) lr m2(1) u3 m3 u4 m4 b h _ _ w]) simp_all
  then show ?thesis using m1(1) m2(1) m3 m4 w by blast
qed

text \<open>C6: In a process whose tables are well formed (\<open>cprd_ok\<close>), an instrumented access keeps the invariant
  of the thread and of the label store, and that of every other thread. It always returns, unless the 65534
  labels are used up or the table of 128 regions is full, where \<open>is_pm_address\<close> looks behind its end. In particular
  the loops over the pending reads end, and the label queries in them.\<close>

theorem access_keeps_invariant:
  assumes "run_ok (th_cprd thr) d" "cprd_ok g"
  shows "case instrument_memory_access al trace addr pc szl w at nt g (thr, d) of
      Inl e \<Rightarrow> e = Dfsan OutOfLabels \<or> e = OutOfRange \<and> PM_POOL_CAND_MAX \<le> a_count (pm_regions g)
    | Inr (thr', d', out) \<Rightarrow> run_ok (th_cprd thr') d' \<and> (\<forall>c. run_ok c d \<longrightarrow> run_ok c d')"
proof (cases "is_pm_address addr g")
  case None
  then have "PM_POOL_CAND_MAX \<le> a_count (pm_regions g)"
    using is_pm_address_spec [of g addr] assms(2) by (fastforce simp: cprd_ok_def)
  then show ?thesis using None by (simp add: instrument_memory_access_def)
next
  case (Some b)
  then have b: "is_pm_address addr g = Some b" .
  let ?c = "(th_cprd thr)\<lparr>event_counter := event_counter (th_cprd thr) + 1\<rparr>"
  have ok: "run_ok ?c d"
    using assms(1) by (simp add: run_ok_def thread_ok_def pending_ok_def lives_ok_def pending_def)
  have other: "\<forall>c. run_ok c d \<longrightarrow> run_ok c d'" if "run_ok c' d'" "labels_extend d d'" for c' d'
  proof -
    have "dfsan_wf d'" using that(1) by (simp add: run_ok_def)
    then show ?thesis using run_ok_other that(2) by blast
  qed
  let ?id = "event_counter (th_cprd thr)" and ?tid = "th_fast_tid thr"
  show ?thesis
  proof (cases b)
    case False
    then show ?thesis using b assms(1) by (simp add: instrument_memory_access_def)
  next
    case True
    show ?thesis
    proof (cases w)
      case False
      note M = df_mark_read_ok [OF ok, of ?id ?tid pc addr "2 ^ szl"]
      show ?thesis
      proof (cases "df_mark_read ?id ?tid pc addr (2 ^ szl) (?c, d)")
        case (Inl e)
        then show ?thesis
          using M b True False by (simp add: instrument_memory_access_def make_event_id_def Let_def)
      next
        case (Inr p)
        obtain c' d' where p: "p = (c', d')" by (cases p)
        have "run_ok c' d'" "labels_extend d d'" using M by (simp_all add: Inr p)
        note this(1) other [OF this]
        then show ?thesis
          using b True False Inr p by (simp add: instrument_memory_access_def make_event_id_def Let_def)
      qed
    next
      case wr: True
      note W = df_process_write_ok [OF ok, of al ?id ?tid pc addr "2 ^ szl"]
      show ?thesis
      proof (cases "df_process_write al ?id ?tid pc addr (2 ^ szl) (?c, d)")
        case (Inl e)
        then show ?thesis
          using W b True wr by (simp add: instrument_memory_access_def make_event_id_def Let_def)
      next
        case (Inr p)
        obtain c' d' out where p: "p = (c', d', out)" by (cases p)
        have "run_ok c' d'" "labels_extend d d'" using W by (simp_all add: Inr p)
        note this(1) other [OF this]
        then show ?thesis
          using b True wr Inr p by (simp add: instrument_memory_access_def make_event_id_def Let_def)
      qed
    qed
  qed
qed

lemma run_ok_init: "run_ok cprd_thread_init dfsan_zero"
proof -
  have "pending cprd_thread_init = {#}"
    by (simp add: pending_def cprd_thread_init_def ucoll_live_def ucoll_init_def)
  then show ?thesis
    using thread_ok_init dfsan_zero_wf by (simp add: run_ok_def) (simp add: cprd_thread_init_def)
qed

lemma pm_init_ok: "cprd_ok pm_init" "a_count (pm_regions pm_init) < PM_POOL_CAND_MAX"
  by (simp_all add: cprd_ok_def pm_init_def cprd_init_def array_inv_def PM_POOL_CAND_MAX_def)
    (simp add: array_init_def)

theorem access_keeps_invariant_witness:
  "\<exists>thr' d' out. instrument_memory_access (\<lambda>_. 0) [] 0x1000 5 0 True False False pm_init (thread_init, dfsan_zero)
     = Inr (thr', d', out) \<and> run_ok (th_cprd thr') d'"
proof -
  have "run_ok (th_cprd thread_init) dfsan_zero" by (simp add: thread_init_def run_ok_init)
  from access_keeps_invariant [OF this pm_init_ok(1), of "\<lambda>_. 0" "[]" "0x1000" 5 0 True False False] first_write
  show ?thesis by auto
qed

end
