(* ===== verification/DenseAlloc.thy ===== *)
theory DenseAlloc
  imports Prelude
begin

text \<open>
  \<open>tsan/rtl/tsan_dense_alloc.h\<close>: the allocator that hands out 32-bit indices of equally sized
  objects, with a per-processor cache and a free list threaded through the first word of the
  free objects. The template arguments \<open>kL1Size\<close> and \<open>kL2Size\<close> are the arguments \<open>l1\<close> and
  \<open>l2\<close>. The locale \<open>index_alloc\<close> is what its clients rely on.
\<close>

section \<open>The contract\<close>

text \<open>\<open>ok s used\<close>: the indices in \<open>used\<close> are handed out. \<open>word s i k\<close> is word \<open>k\<close> of object \<open>i\<close>.\<close>

locale index_alloc =
  fixes ok :: "'s \<Rightarrow> u32 set \<Rightarrow> bool"
    and alloc :: "'s \<Rightarrow> (u32 \<times> 's) option"
    and free :: "u32 \<Rightarrow> 's \<Rightarrow> 's"
    and word :: "'s \<Rightarrow> u32 \<Rightarrow> nat \<Rightarrow> u32"
  assumes alloc_fresh: "ok s used \<Longrightarrow> alloc s = Some (i, s') \<Longrightarrow> i \<noteq> 0 \<and> i \<notin> used \<and> ok s' (insert i used)"
    and alloc_frame: "ok s used \<Longrightarrow> alloc s = Some (i, s') \<Longrightarrow> j \<in> used \<Longrightarrow> word s' j = word s j"
    and free_ok: "ok s used \<Longrightarrow> i \<in> used \<Longrightarrow> ok (free i s) (used - {i})"
    and free_frame: "ok s used \<Longrightarrow> i \<in> used \<Longrightarrow> j \<in> used - {i} \<Longrightarrow> word (free i s) j = word s j"
begin

fun alloc_many :: "nat \<Rightarrow> 's \<Rightarrow> (u32 list \<times> 's) option" where
  "alloc_many 0 s = Some ([], s)"
| "alloc_many (Suc n) s =
     do { (i, s1) \<leftarrow> alloc s; (is, s2) \<leftarrow> alloc_many n s1; Some (i # is, s2) }"

lemma alloc_many_distinct:
  "ok s used \<Longrightarrow> alloc_many n s = Some (is, s') \<Longrightarrow>
     distinct is \<and> set is \<inter> used = {} \<and> ok s' (set is \<union> used) \<and> (\<forall>j \<in> used. word s' j = word s j)"
proof (induction n arbitrary: s used "is")
  case (Suc n)
  then obtain i s1 is' where i: "alloc s = Some (i, s1)" "alloc_many n s1 = Some (is', s')" "is = i # is'"
    by (auto split: bind_splits)
  have ok1: "ok s1 (insert i used)" "i \<notin> used" using alloc_fresh [OF Suc.prems(1) i(1)] by auto
  show ?case
    using Suc.IH [OF ok1(1) i(2)] ok1(2) i(3) alloc_frame [OF Suc.prems(1) i(1)] by auto
qed simp

lemma alloc_free: "ok s used \<Longrightarrow> alloc s = Some (i, s') \<Longrightarrow> ok (free i s') used"
  using alloc_fresh [of s used i s'] free_ok [of s' "insert i used" i] by auto

end

section \<open>Operations\<close>

record dense_alloc =
  da_mem :: "u32 \<Rightarrow> nat \<Rightarrow> u32"
  da_freelist :: u32
  da_fillpos :: nat

definition da_init :: dense_alloc where
  "da_init = \<lparr>da_mem = (\<lambda>_ _. 0), da_freelist = 0, da_fillpos = 0\<rparr>"

text \<open>\<open>*(IndexT *)Map(idx) = v\<close>\<close>

definition set_link :: "u32 \<Rightarrow> u32 \<Rightarrow> (u32 \<Rightarrow> nat \<Rightarrow> u32) \<Rightarrow> u32 \<Rightarrow> nat \<Rightarrow> u32" where
  "set_link idx v m = m(idx := (m idx)(0 := v))"

definition kCacheSize :: nat where
  "kCacheSize = 128"

text \<open>The part of \<open>Refill\<close> that maps a new slab and links its objects.\<close>

definition da_grow :: "nat \<Rightarrow> dense_alloc \<Rightarrow> dense_alloc" where
  "da_grow l2 a =
     (let base = da_fillpos a * l2;
          start = (if da_fillpos a = 0 then 1 else 0);
          fresh = (\<lambda>i. if base \<le> unat i \<and> unat i < base + l2 then (\<lambda>_. 0) else da_mem a i);
          linked = fold (\<lambda>i. set_link (of_nat (base + i)) (of_nat (i + 1 + base))) [start..<l2] fresh
      in \<lparr>da_mem = set_link (of_nat (base + (l2 - 1))) 0 linked,
          da_freelist = of_nat (base + start), da_fillpos = da_fillpos a + 1\<rparr>)"

text \<open>The cache is the list of its first \<open>pos\<close> entries, the top entry first.\<close>

fun take_free :: "nat \<Rightarrow> dense_alloc \<times> u32 list \<Rightarrow> dense_alloc \<times> u32 list" where
  "take_free 0 s = s"
| "take_free (Suc n) (a, c) =
     (if da_freelist a \<noteq> 0
      then take_free n (a\<lparr>da_freelist := da_mem a (da_freelist a) 0\<rparr>, da_freelist a # c)
      else (a, c))"

text \<open>\<open>None\<close> is \<open>Die()\<close> on overflow.\<close>

definition da_refill :: "nat \<Rightarrow> nat \<Rightarrow> dense_alloc \<times> u32 list \<Rightarrow> (dense_alloc \<times> u32 list) option" where
  "da_refill l1 l2 s =
     (case s of (a, c) \<Rightarrow>
        if da_freelist a = 0
        then if da_fillpos a = l1 then None else Some (take_free (kCacheSize div 2) (da_grow l2 a, c))
        else Some (take_free (kCacheSize div 2) (a, c)))"

definition da_alloc :: "nat \<Rightarrow> nat \<Rightarrow> dense_alloc \<times> u32 list \<Rightarrow> (u32 \<times> dense_alloc \<times> u32 list) option" where
  "da_alloc l1 l2 s =
     do { (a, c) \<leftarrow> (if snd s = [] then da_refill l1 l2 s else Some s);
          Some (hd c, a, tl c) }"

fun put_free :: "nat \<Rightarrow> dense_alloc \<times> u32 list \<Rightarrow> dense_alloc \<times> u32 list" where
  "put_free (Suc n) (a, idx # c) =
     put_free n (a\<lparr>da_mem := set_link idx (da_freelist a) (da_mem a), da_freelist := idx\<rparr>, c)"
| "put_free _ s = s"

definition da_drain :: "dense_alloc \<times> u32 list \<Rightarrow> dense_alloc \<times> u32 list" where
  "da_drain s = put_free (kCacheSize div 2) s"

definition da_free :: "u32 \<Rightarrow> dense_alloc \<times> u32 list \<Rightarrow> dense_alloc \<times> u32 list" where
  "da_free idx s =
     (let (a, c) = (if length (snd s) = kCacheSize then da_drain s else s) in (a, idx # c))"

definition da_flush_cache :: "dense_alloc \<times> u32 list \<Rightarrow> dense_alloc \<times> u32 list" where
  "da_flush_cache s = put_free (length (snd s)) s"

section \<open>The free list\<close>

fun chain :: "(u32 \<Rightarrow> nat \<Rightarrow> u32) \<Rightarrow> u32 \<Rightarrow> u32 list \<Rightarrow> bool" where
  "chain m f [] \<longleftrightarrow> f = 0"
| "chain m f (x # xs) \<longleftrightarrow> f = x \<and> x \<noteq> 0 \<and> chain m (m x 0) xs"

text \<open>Free list, cache and the indices handed out partition the indices of the mapped slabs.\<close>

definition da_indices :: "nat \<Rightarrow> dense_alloc \<Rightarrow> u32 set" where
  "da_indices l2 a = {i. 0 < unat i \<and> unat i < da_fillpos a * l2}"

definition da_ok :: "nat \<Rightarrow> nat \<Rightarrow> dense_alloc \<times> u32 list \<Rightarrow> u32 set \<Rightarrow> bool" where
  "da_ok l1 l2 s used \<longleftrightarrow>
     (case s of (a, c) \<Rightarrow>
        \<exists>xs. chain (da_mem a) (da_freelist a) xs \<and> distinct (xs @ c) \<and> set (xs @ c) \<inter> used = {} \<and>
          set (xs @ c) \<union> used = da_indices l2 a \<and> da_fillpos a \<le> l1 \<and> length c \<le> kCacheSize \<and>
          1 < l2 \<and> l1 * l2 \<le> 2 ^ 32)"

lemma chain_frame: "\<forall>x \<in> set xs. m' x 0 = m x 0 \<Longrightarrow> chain m' f xs \<longleftrightarrow> chain m f xs"
  by (induction xs arbitrary: f) auto

lemma chain_nz: "chain m f xs \<Longrightarrow> 0 \<notin> set xs"
  by (induction xs arbitrary: f) auto

lemma set_link_at: "set_link i v m j = (if j = i then (m i)(0 := v) else m j)"
  by (simp add: set_link_def)

lemma take_free_ok:
  assumes "da_ok l1 l2 (a, c) used" "length c + n \<le> kCacheSize"
  shows "da_ok l1 l2 (take_free n (a, c)) used \<and> da_mem (fst (take_free n (a, c))) = da_mem a \<and>
    da_fillpos (fst (take_free n (a, c))) = da_fillpos a \<and>
    (0 < n \<longrightarrow> da_freelist a \<noteq> 0 \<longrightarrow> snd (take_free n (a, c)) \<noteq> [])"
  using assms
proof (induction n arbitrary: a c)
  case (Suc n)
  obtain xs where xs: "chain (da_mem a) (da_freelist a) xs" "distinct (xs @ c)" "set (xs @ c) \<inter> used = {}"
    "set (xs @ c) \<union> used = da_indices l2 a" "da_fillpos a \<le> l1" "length c \<le> kCacheSize" "1 < l2" "l1 * l2 \<le> 2 ^ 32"
    using Suc.prems(1) by (auto simp: da_ok_def)
  show ?case
  proof (cases "da_freelist a = 0")
    case False
    then obtain ys where ys: "xs = da_freelist a # ys" "chain (da_mem a) (da_mem a (da_freelist a) 0) ys"
      using xs(1) by (cases xs) auto
    let ?a = "a\<lparr>da_freelist := da_mem a (da_freelist a) 0\<rparr>" and ?c = "da_freelist a # c"
    have "da_ok l1 l2 (?a, ?c) used"
      unfolding da_ok_def using xs ys Suc.prems(2)
      by (auto simp: da_indices_def intro!: exI [of _ ys])
    moreover have "snd (take_free n (?a, ?c)) \<noteq> []"
    proof -
      have "c' \<noteq> [] \<Longrightarrow> snd (take_free k (b, c')) \<noteq> []" for k b c'
        by (induction k "(b, c')" arbitrary: b c' rule: take_free.induct) auto
      then show ?thesis by blast
    qed
    ultimately show ?thesis
      using Suc.IH [of ?a ?c] Suc.prems(2) False by simp
  qed (use Suc.prems in simp)
qed simp

lemma put_free_ok:
  assumes "da_ok l1 l2 (a, c) used"
  shows "da_ok l1 l2 (put_free n (a, c)) used \<and> da_fillpos (fst (put_free n (a, c))) = da_fillpos a \<and>
    (\<forall>j. j \<notin> set c \<longrightarrow> da_mem (fst (put_free n (a, c))) j = da_mem a j) \<and>
    length (snd (put_free n (a, c))) = length c - n"
  using assms
proof (induction n "(a, c)" arbitrary: a c rule: put_free.induct)
  case (1 n a idx c)
  obtain xs where xs: "chain (da_mem a) (da_freelist a) xs" "distinct (xs @ idx # c)" "set (xs @ idx # c) \<inter> used = {}"
    "set (xs @ idx # c) \<union> used = da_indices l2 a" "da_fillpos a \<le> l1" "length (idx # c) \<le> kCacheSize" "1 < l2" "l1 * l2 \<le> 2 ^ 32"
    using 1(2) by (auto simp: da_ok_def)
  let ?a = "a\<lparr>da_mem := set_link idx (da_freelist a) (da_mem a), da_freelist := idx\<rparr>"
  have "idx \<in> da_indices l2 a" using xs(4) by auto
  then have "idx \<noteq> 0" by (auto simp: da_indices_def)
  moreover have "chain (da_mem ?a) (da_freelist a) xs"
    using xs(1,2) chain_frame [of xs "da_mem ?a" "da_mem a"] by (auto simp: set_link_at)
  ultimately have "da_ok l1 l2 (?a, c) used"
    unfolding da_ok_def using xs
    by (auto simp: da_indices_def set_link_at intro!: exI [of _ "idx # xs"])
  then show ?case
    using 1(1) by (auto simp: set_link_at)
qed simp_all

section \<open>A new slab\<close>

lemma unat_32: "k < 2 ^ 32 \<Longrightarrow> unat (of_nat k :: u32) = k"
  by (simp add: unat_of_nat_small)

lemma of_nat_32_eq: "k < 2 ^ 32 \<Longrightarrow> (of_nat k = (j :: u32)) = (unat j = k)"
  by (auto simp: unat_32)

lemma fold_links:
  assumes "base + n \<le> 2 ^ 32" "s \<le> n"
  shows "fold (\<lambda>i. set_link (of_nat (base + i)) (of_nat (i + 1 + base))) [s..<n] m j =
    (if base + s \<le> unat j \<and> unat j < base + n then (m j)(0 := of_nat (unat j + 1)) else m j)"
  using assms
proof (induction n)
  case (Suc n)
  show ?case
  proof (cases "s = Suc n")
    case False
    then have "[s..<Suc n] = [s..<n] @ [n]" using Suc.prems by simp
    then show ?thesis
      using Suc False of_nat_32_eq [of "base + n" j]
      by (auto simp: set_link_at less_Suc_eq eq_commute [of j] add.commute)
  qed auto
qed auto

lemma chain_seq:
  assumes "0 < lo" "lo < hi" "hi \<le> 2 ^ 32" "\<forall>k. lo \<le> k \<and> k < hi - 1 \<longrightarrow> m (of_nat k) 0 = of_nat (k + 1)"
    and "m (of_nat (hi - 1)) 0 = 0"
  shows "chain m (of_nat lo) (map of_nat [lo..<hi])"
  using assms
proof (induction "hi - lo" arbitrary: lo)
  case (Suc d)
  have nz: "(of_nat lo :: u32) \<noteq> 0" using Suc.prems of_nat_32_eq [of lo 0] by simp
  show ?case
  proof (cases "Suc lo < hi")
    case True
    have "chain m (of_nat (Suc lo)) (map of_nat [Suc lo..<hi])"
      using Suc.hyps(2) Suc.prems True by (intro Suc.hyps(1)) auto
    moreover have "m (of_nat lo) 0 = of_nat (Suc lo)" using Suc.prems(4) True by auto
    ultimately show ?thesis using nz Suc.prems by (simp add: upt_conv_Cons del: of_nat_Suc)
  next
    case False
    then have "hi = Suc lo" using Suc.prems(2) by simp
    then show ?thesis using nz Suc.prems(5) by (simp add: upt_conv_Cons)
  qed
qed simp

lemma da_grow_ok:
  assumes "da_ok l1 l2 (a, c) used" "da_freelist a = 0" "da_fillpos a \<noteq> l1"
  shows "da_ok l1 l2 (da_grow l2 a, c) used \<and> da_freelist (da_grow l2 a) \<noteq> 0 \<and>
    (\<forall>j \<in> da_indices l2 a. da_mem (da_grow l2 a) j = da_mem a j)"
proof -
  let ?base = "da_fillpos a * l2" and ?s = "if da_fillpos a = 0 then 1 else 0 :: nat"
  have d: "distinct c" "set c \<inter> used = {}" "set c \<union> used = da_indices l2 a" "da_fillpos a < l1"
    "length c \<le> kCacheSize" "1 < l2" "l1 * l2 \<le> 2 ^ 32"
  proof -
    obtain xs where xs: "chain (da_mem a) (da_freelist a) xs" "distinct (xs @ c)" "set (xs @ c) \<inter> used = {}"
      "set (xs @ c) \<union> used = da_indices l2 a" "da_fillpos a \<le> l1" "length c \<le> kCacheSize" "1 < l2" "l1 * l2 \<le> 2 ^ 32"
      using assms(1) by (auto simp: da_ok_def)
    then have "xs = []" using assms(2) by (cases xs) auto
    then show "distinct c" "set c \<inter> used = {}" "set c \<union> used = da_indices l2 a" "da_fillpos a < l1"
      "length c \<le> kCacheSize" "1 < l2" "l1 * l2 \<le> 2 ^ 32"
      using xs assms(3) by simp_all
  qed
  have top: "?base + l2 \<le> 2 ^ 32"
  proof -
    have "(da_fillpos a + 1) * l2 \<le> l1 * l2" using d(4) by (intro mult_le_mono1) simp
    then show ?thesis using d(7) by (simp add: algebra_simps)
  qed
  have s: "?s \<le> l2" "0 < ?base + ?s" "?base + ?s < ?base + l2" using d(6) by (auto simp: zero_less_mult_iff)
  define m where "m = da_mem (da_grow l2 a)"
  have last: "(of_nat (?base + (l2 - 1)) = (j :: u32)) = (unat j = ?base + (l2 - 1))" for j
    using top d(6) by (intro of_nat_32_eq) simp
  define old where "old = (\<lambda>i. if ?base \<le> unat i \<and> unat i < ?base + l2 then (\<lambda>_. 0) else da_mem a i)"
  define L where "L = fold (\<lambda>i. set_link (of_nat (?base + i)) (of_nat (i + 1 + ?base))) [?s..<l2] old"
  have mL: "m = set_link (of_nat (?base + (l2 - 1))) 0 L"
    by (simp only: m_def da_grow_def Let_def L_def old_def dense_alloc.select_convs)
  have "m j = (if unat j = ?base + (l2 - 1) then (L j)(0 := 0) else L j)" for j
    unfolding mL set_link_at using last [of j] by metis
  then have m: "m j = (if unat j = ?base + (l2 - 1) then (\<lambda>_. 0)
      else if ?base + ?s \<le> unat j \<and> unat j < ?base + l2 then (\<lambda>_. 0)(0 := of_nat (unat j + 1))
      else if ?base \<le> unat j \<and> unat j < ?base + l2 then (\<lambda>_. 0) else da_mem a j)" for j
    using s(3) by (simp only: L_def fold_links [OF top s(1)]) (auto simp: old_def fun_eq_iff)
  have link: "chain m (of_nat (?base + ?s)) (map of_nat [?base + ?s..<?base + l2])"
  proof (rule chain_seq)
    have at: "m (of_nat k) 0 = (if k = ?base + (l2 - 1) then 0 else of_nat (k + 1))"
      if "?base + ?s \<le> k" "k < ?base + l2" for k
    proof -
      have "unat (of_nat k :: u32) = k" using that top by (intro unat_32) simp
      then show ?thesis using m [of "of_nat k"] that by simp
    qed
    show "\<forall>k. ?base + ?s \<le> k \<and> k < ?base + l2 - 1 \<longrightarrow> m (of_nat k) 0 = of_nat (k + 1)"
      using at by auto
    show "m (of_nat (?base + l2 - 1)) 0 = 0"
      using at [of "?base + l2 - 1"] s d(6) by auto
  qed (use s top in auto)
  have fl: "da_freelist (da_grow l2 a) = of_nat (?base + ?s)" "da_fillpos (da_grow l2 a) = da_fillpos a + 1"
    by (simp_all add: da_grow_def Let_def)
  have new: "set (map of_nat [?base + ?s..<?base + l2]) = {i :: u32. ?base + ?s \<le> unat i \<and> unat i < ?base + l2}"
  proof -
    have "i \<in> of_nat ` {?base + ?s..<?base + l2}" if "?base + ?s \<le> unat i" "unat i < ?base + l2" for i :: u32
      using that by (intro image_eqI [of _ _ "unat i"]) simp_all
    then show ?thesis using top by (auto simp: unat_32)
  qed
  have dist: "distinct (map of_nat [?base + ?s..<?base + l2] :: u32 list)"
    using top by (auto simp: distinct_map inj_on_def dest!: arg_cong [of _ _ unat] simp: unat_32)
  have idx: "da_indices l2 (da_grow l2 a) = {i. ?base + ?s \<le> unat i \<and> unat i < ?base + l2} \<union> da_indices l2 a"
  proof (cases "da_fillpos a = 0")
    case False
    then have pos: "0 < ?base" using d(6) by simp
    show ?thesis using False by (auto simp: da_indices_def fl dest: less_le_trans [OF pos])
  qed (auto simp: da_indices_def fl)
  have sep: "{i. ?base + ?s \<le> unat i \<and> unat i < ?base + l2} \<inter> da_indices l2 a = {}"
    by (auto simp: da_indices_def)
  have "da_ok l1 l2 (da_grow l2 a, c) used"
    unfolding da_ok_def split
    by (rule exI [of _ "map of_nat [?base + ?s..<?base + l2]"])
      (use d link dist new idx sep fl m_def in auto)
  moreover have "da_freelist (da_grow l2 a) \<noteq> 0"
    using s top of_nat_32_eq [of "?base + ?s" 0] by (simp add: fl del: of_nat_add)
  moreover have "da_mem (da_grow l2 a) j = da_mem a j" if "j \<in> da_indices l2 a" for j
    using that m [of j] by (simp add: m_def da_indices_def)
  ultimately show ?thesis by blast
qed

lemma da_refill_ok:
  assumes "da_ok l1 l2 (a, []) used" "da_refill l1 l2 (a, []) = Some (a', c')"
  shows "da_ok l1 l2 (a', c') used \<and> c' \<noteq> [] \<and> (\<forall>j \<in> used. da_mem a' j = da_mem a j)"
proof (cases "da_freelist a = 0")
  case True
  have fp: "da_fillpos a \<noteq> l1" using assms(2) True by (auto simp: da_refill_def)
  have r: "take_free (kCacheSize div 2) (da_grow l2 a, []) = (a', c')"
    using assms(2) True fp by (simp add: da_refill_def)
  note G = da_grow_ok [OF assms(1) True fp]
  have "used \<subseteq> da_indices l2 a" using assms(1) by (auto simp: da_ok_def)
  then show ?thesis
    using take_free_ok [of l1 l2 "da_grow l2 a" "[]" used "kCacheSize div 2"] G r by (auto simp: kCacheSize_def)
next
  case False
  have r: "take_free (kCacheSize div 2) (a, []) = (a', c')" using assms(2) False by (simp add: da_refill_def)
  show ?thesis
    using take_free_ok [OF assms(1), of "kCacheSize div 2"] False r by (auto simp: kCacheSize_def)
qed

lemma da_alloc_ok:
  assumes "da_ok l1 l2 s used" "da_alloc l1 l2 s = Some (i, s')"
  shows "i \<noteq> 0 \<and> i \<notin> used \<and> da_ok l1 l2 s' (insert i used) \<and> (\<forall>j \<in> used. da_mem (fst s') j = da_mem (fst s) j)"
proof -
  obtain a0 c0 where s: "s = (a0, c0)" by (cases s)
  obtain a c where ac: "da_ok l1 l2 (a, c) used" "c \<noteq> []" "i = hd c" "s' = (a, tl c)"
      "\<forall>j \<in> used. da_mem a j = da_mem a0 j"
  proof (cases "c0 = []")
    case True
    then obtain a c where r: "da_refill l1 l2 (a0, []) = Some (a, c)" "i = hd c" "s' = (a, tl c)"
      using assms(2) by (auto simp: s da_alloc_def split: bind_splits)
    from da_refill_ok [OF _ r(1)] assms(1) that r(2,3) True show ?thesis by (auto simp: s)
  next
    case False
    then show ?thesis using assms that [of a0 c0] by (simp add: s da_alloc_def)
  qed
  then obtain cs where c: "c = i # cs" by (cases c) auto
  have "i \<in> da_indices l2 a" using ac(1) by (auto simp: da_ok_def c)
  then have "i \<noteq> 0" by (auto simp: da_indices_def)
  moreover have "da_ok l1 l2 (a, cs) (insert i used)"
    using ac(1) by (auto simp: da_ok_def c)
  ultimately have "i \<noteq> 0" "da_ok l1 l2 (a, cs) (insert i used)" .
  moreover have "i \<notin> used" using ac(1) by (auto simp: da_ok_def c)
  ultimately show ?thesis using ac(4,5) c by (simp add: s)
qed

lemma da_free_ok:
  assumes "da_ok l1 l2 s used" "i \<in> used"
  shows "da_ok l1 l2 (da_free i s) (used - {i}) \<and>
    (\<forall>j \<in> used. da_mem (fst (da_free i s)) j = da_mem (fst s) j)"
proof -
  obtain a c where s: "s = (a, c)" by (cases s)
  obtain a' c' where p: "(if length c = kCacheSize then da_drain (a, c) else (a, c)) = (a', c')"
    by (metis surj_pair)
  have ok': "da_ok l1 l2 (a', c') used" "length c' < kCacheSize" "\<forall>j \<in> used. da_mem a' j = da_mem a j"
  proof -
    have len: "length c \<le> kCacheSize" "set c \<inter> used = {}" using assms(1) by (auto simp: s da_ok_def)
    note P = put_free_ok [OF assms(1) [unfolded s], of "kCacheSize div 2"]
    show "da_ok l1 l2 (a', c') used" "length c' < kCacheSize" "\<forall>j \<in> used. da_mem a' j = da_mem a j"
      using P p len assms(1) by (auto simp: s da_drain_def kCacheSize_def split: if_splits)
  qed
  then have "da_ok l1 l2 (a', i # c') (used - {i})"
    using assms(2) unfolding da_ok_def split by (elim exE, intro exI) (auto simp: Suc_le_eq)
  then show ?thesis using p ok'(3) by (simp add: da_free_def s)
qed

definition da_word :: "dense_alloc \<times> u32 list \<Rightarrow> u32 \<Rightarrow> nat \<Rightarrow> u32" where
  "da_word s = da_mem (fst s)"

text \<open>The clocks' allocator, \<open>ClockAlloc\<close>, in \<open>tsan_clock.h\<close>.\<close>

definition kL1Size :: nat where "kL1Size = 2 ^ 16"
definition kL2Size :: nat where "kL2Size = 2 ^ 10"

interpretation clock_alloc: index_alloc "da_ok kL1Size kL2Size" "da_alloc kL1Size kL2Size" da_free da_word
proof (unfold_locales, goal_cases)
  case (1 s used i s')
  then show ?case using da_alloc_ok [of kL1Size kL2Size s used i s'] by (cases s') auto
next
  case (2 s used i s' j)
  then show ?case using da_alloc_ok [of kL1Size kL2Size s used i s'] by (simp add: da_word_def)
next
  case (3 s used i)
  then show ?case using da_free_ok by blast
next
  case (4 s used i j)
  then show ?case using da_free_ok by (fastforce simp: da_word_def)
qed

lemma da_init_ok: "da_ok kL1Size kL2Size (da_init, []) {}"
  by (auto simp: da_ok_def da_init_def da_indices_def kL1Size_def kL2Size_def intro!: exI [of _ "[]"])

section \<open>Properties\<close>

lemma da_alloc_freed: "\<exists>s'. da_alloc l1 l2 (da_free i s) = Some (i, s')"
  by (simp add: da_alloc_def da_free_def split: prod.split)

text \<open>C21: Any number of objects allocated in a row have distinct nonzero indices, none of which was
  in use, and no object in use changes. Freeing an object that is in use takes exactly its index out of those
  in use, changes none of them, and makes it available again: the next allocation from the same cache
  returns it.\<close>

theorem dense_alloc_distinct:
  assumes "da_ok kL1Size kL2Size s used" "clock_alloc.alloc_many n s = Some (is, s')" "i \<in> set is \<union> used"
  shows "distinct is \<and> 0 \<notin> set is \<and> set is \<inter> used = {} \<and> da_ok kL1Size kL2Size s' (set is \<union> used) \<and>
    (\<forall>j \<in> used. da_word s' j = da_word s j) \<and>
    da_ok kL1Size kL2Size (da_free i s') (set is \<union> used - {i}) \<and>
    (\<forall>j \<in> set is \<union> used. da_word (da_free i s') j = da_word s' j) \<and>
    (\<exists>s''. da_alloc kL1Size kL2Size (da_free i s') = Some (i, s''))"
proof -
  note m = clock_alloc.alloc_many_distinct [OF assms(1,2)]
  then have ok: "da_ok kL1Size kL2Size s' (set is \<union> used)" by blast
  then have "set is \<subseteq> da_indices kL2Size (fst s')" by (auto simp: da_ok_def)
  then have "0 \<notin> set is" by (auto simp: da_indices_def)
  then show ?thesis using m da_free_ok [OF ok assms(3)] da_alloc_freed [of kL1Size kL2Size i s'] by (simp add: da_word_def)
qed

lemma da_alloc_first: "\<exists>i s'. da_alloc kL1Size kL2Size (da_init, []) = Some (i, s')"
  by (simp add: da_alloc_def da_refill_def da_init_def kL1Size_def split: prod.split)

theorem dense_alloc_distinct_witness:
  "\<exists>i s' s''. clock_alloc.alloc_many 1 (da_init, []) = Some ([i], s') \<and> i \<noteq> 0 \<and> da_ok kL1Size kL2Size s' {i} \<and>
    da_ok kL1Size kL2Size (da_free i s') {} \<and> da_alloc kL1Size kL2Size (da_free i s') = Some (i, s'')"
proof -
  obtain i s' where "da_alloc kL1Size kL2Size (da_init, []) = Some (i, s')" using da_alloc_first by blast
  then have "clock_alloc.alloc_many 1 (da_init, []) = Some ([i], s')" by (simp add: One_nat_def)
  with dense_alloc_distinct [OF da_init_ok this, of i] show ?thesis by auto
qed

text \<open>Allocation fails only when every index of every slab is in use or in another cache: nothing
  is lost on the free list.\<close>

theorem dense_alloc_fails_only_full:
  assumes "da_ok l1 l2 (a, c) used" "da_alloc l1 l2 (a, c) = None"
  shows "da_fillpos a = l1 \<and> used = {i. 0 < unat i \<and> unat i < l1 * l2}"
proof -
  have c: "c = []" and fl: "da_freelist a = 0" and fp: "da_fillpos a = l1"
    using assms(2) by (auto simp: da_alloc_def da_refill_def split: if_splits prod.splits)
  obtain xs where "chain (da_mem a) (da_freelist a) xs" "set (xs @ c) \<union> used = da_indices l2 a"
    using assms(1) by (auto simp: da_ok_def)
  moreover from this fl have "xs = []" by (cases xs) auto
  ultimately show ?thesis using c fp by (auto simp: da_indices_def)
qed

theorem dense_alloc_fails_only_full_witness:
  "da_alloc 1 2 (\<lparr>da_mem = (\<lambda>_ _. 0), da_freelist = 0, da_fillpos = 1\<rparr>, []) = None \<and> {1 :: u32} = {i. 0 < unat i \<and> unat i < 2}"
proof -
  let ?s = "(\<lparr>da_mem = (\<lambda>_ _. 0), da_freelist = 0, da_fillpos = 1\<rparr>, []) :: dense_alloc \<times> u32 list"
  have one: "{1 :: u32} = {i. 0 < unat i \<and> unat i < 2}"
    by (auto simp: word_unat_eq_iff)
  then have "da_ok 1 2 ?s {1}"
    unfolding da_ok_def split by (intro exI [of _ "[]"]) (simp add: da_indices_def)
  moreover have "da_alloc 1 2 ?s = None" by (simp add: da_alloc_def da_refill_def)
  ultimately show ?thesis using dense_alloc_fails_only_full [of 1 2 _ "[]" "{1}"] one by auto
qed

end
