(* ===== verification/SyncClock.thy ===== *)
theory SyncClock
  imports DenseAlloc
begin

text \<open>
  The vector clock of a synchronisation variable, \<open>SyncClock\<close> in \<open>tsan/rtl/tsan_clock.cpp\<close> and
  \<open>tsan_clock.h\<close>, on the memory of its allocator: a first-level block of 512 bytes holds clock
  elements from the front and, from the back, a reference counter and the indices of
  second-level blocks. Thread numbers and sizes are \<open>nat\<close>; the 16-bit \<open>size_\<close> and \<open>blocks_\<close> are
  written modulo \<open>2 ^ 16\<close>. \<open>None\<close> is a failed \<open>CHECK\<close> or the death of the allocator.
\<close>

section \<open>Blocks\<close>

definition kClkBits :: nat where "kClkBits = 42"
definition kClockCount :: nat where "kClockCount = 64"
definition kTableSize :: nat where "kTableSize = 128"
definition kRefIdx :: nat where "kRefIdx = kTableSize - 1"
definition kBlockIdx :: nat where "kBlockIdx = kTableSize - 2"
definition kMaxTid :: nat where "kMaxTid = 2 ^ 13 - kClockCount"
definition kInvalidTid :: nat where "kInvalidTid = kMaxTid + 1"

lemmas clock_consts = kClkBits_def kClockCount_def kTableSize_def kRefIdx_def kBlockIdx_def

record clock_elem =
  ce_epoch :: u64
  ce_reused :: u64

text \<open>The bit fields of \<open>ClockElem\<close>: 42 bits of epoch, 22 of reuse count.\<close>

definition pack_elem :: "clock_elem \<Rightarrow> u64" where
  "pack_elem e = (ce_epoch e AND mask kClkBits) OR push_bit kClkBits (ce_reused e)"

definition unpack_elem :: "u64 \<Rightarrow> clock_elem" where
  "unpack_elem w = \<lparr>ce_epoch = w AND mask kClkBits, ce_reused = drop_bit kClkBits w\<rparr>"

type_synonym clk_heap = "dense_alloc \<times> u32 list"

definition heap_word :: "clk_heap \<Rightarrow> u32 \<Rightarrow> nat \<Rightarrow> u32" where
  "heap_word h idx k = da_mem (fst h) idx k"

definition set_heap_word :: "u32 \<Rightarrow> nat \<Rightarrow> u32 \<Rightarrow> clk_heap \<Rightarrow> clk_heap" where
  "set_heap_word idx k v h =
     ((fst h)\<lparr>da_mem := (da_mem (fst h))(idx := (da_mem (fst h) idx)(k := v))\<rparr>, snd h)"

text \<open>The union of \<open>table\<close> and \<open>clock\<close>: element \<open>i\<close> is the words \<open>2 i\<close> and \<open>2 i + 1\<close>.\<close>

definition read_elem :: "clk_heap \<Rightarrow> u32 \<Rightarrow> nat \<Rightarrow> clock_elem" where
  "read_elem h idx i =
     unpack_elem (ucast (heap_word h idx (2 * i)) OR push_bit 32 (ucast (heap_word h idx (2 * i + 1))))"

definition write_elem :: "u32 \<Rightarrow> nat \<Rightarrow> clock_elem \<Rightarrow> clk_heap \<Rightarrow> clk_heap" where
  "write_elem idx i e h =
     (let w = pack_elem e in
      set_heap_word idx (2 * i + 1) (ucast (drop_bit 32 w)) (set_heap_word idx (2 * i) (ucast w) h))"

text \<open>\<open>internal_memset\<close> and \<open>internal_memcpy\<close> on the words of blocks.\<close>

definition clear_words :: "u32 \<Rightarrow> nat \<Rightarrow> nat \<Rightarrow> clk_heap \<Rightarrow> clk_heap" where
  "clear_words idx lo n h = fold (\<lambda>k. set_heap_word idx k 0) [lo..<lo + n] h"

definition copy_words :: "u32 \<Rightarrow> u32 \<Rightarrow> nat \<Rightarrow> clk_heap \<Rightarrow> clk_heap" where
  "copy_words dst src n h = fold (\<lambda>k h. set_heap_word dst k (heap_word h src k) h) [0..<n] h"

definition clk_alloc :: "clk_heap \<Rightarrow> (u32 \<times> clk_heap) option" where
  "clk_alloc h = da_alloc kL1Size kL2Size h"

text \<open>\<open>UnrefClockBlock\<close>\<close>

definition UnrefClockBlock :: "u32 \<Rightarrow> nat \<Rightarrow> clk_heap \<Rightarrow> clk_heap option" where
  "UnrefClockBlock idx blocks h =
     (let v = heap_word h idx kRefIdx in
      if v = 0 then None
      else if v = 1
      then Some (da_free idx (fold (\<lambda>i h. da_free (heap_word h idx (kBlockIdx - i)) h) [0..<blocks] h))
      else Some (set_heap_word idx kRefIdx (v - 1) h))"

section \<open>The clock\<close>

record dirty =
  dt_epoch :: u64
  dt_tid :: nat

text \<open>\<open>tab_\<close> is the block of \<open>tab_idx_\<close>. The second-level blocks hold the elements from 0 on.\<close>

record sync_clock =
  release_store_tid :: nat
  release_store_reused :: u64
  sc_dirty :: "dirty list"
  tab_idx :: u32
  sc_size :: nat
  sc_blocks :: nat

definition ResetImpl :: "sync_clock \<Rightarrow> sync_clock" where
  "ResetImpl sc = sc\<lparr>tab_idx := 0, sc_size := 0, sc_blocks := 0, release_store_tid := kInvalidTid,
     release_store_reused := 0, sc_dirty := map (\<lambda>d. d\<lparr>dt_tid := kInvalidTid\<rparr>) (sc_dirty sc)\<rparr>"

definition sync_clock_new :: sync_clock where
  "sync_clock_new = ResetImpl \<lparr>release_store_tid = 0, release_store_reused = 0,
     sc_dirty = replicate 2 \<lparr>dt_epoch = 0, dt_tid = 0\<rparr>, tab_idx = 0, sc_size = 0, sc_blocks = 0\<rparr>"

definition SyncClock_Reset :: "sync_clock \<Rightarrow> clk_heap \<Rightarrow> (sync_clock \<times> clk_heap) option" where
  "SyncClock_Reset sc h =
     do { h' \<leftarrow> (if sc_size sc \<noteq> 0 then UnrefClockBlock (tab_idx sc) (sc_blocks sc) h else Some h);
          Some (ResetImpl sc, h') }"

definition get_block :: "clk_heap \<Rightarrow> sync_clock \<Rightarrow> nat \<Rightarrow> u32" where
  "get_block h sc bi = heap_word h (tab_idx sc) (kBlockIdx - bi)"

definition append_block :: "u32 \<Rightarrow> sync_clock \<Rightarrow> clk_heap \<Rightarrow> (sync_clock \<times> clk_heap) option" where
  "append_block idx sc h =
     (let bi = sc_blocks sc; sc' = sc\<lparr>sc_blocks := (bi + 1) mod 2 ^ 16\<rparr> in
      if get_block h sc' bi \<noteq> 0 then None
      else Some (sc', set_heap_word (tab_idx sc) (kBlockIdx - bi) idx h))"

text \<open>\<open>RoundUpTo(blocks_ + 1, 2) / 2\<close> elements of the first-level block are taken by its table.\<close>

definition capacity :: "sync_clock \<Rightarrow> nat" where
  "capacity sc =
     (if sc_size sc = 0 then 0
      else sc_blocks sc * kClockCount + (kClockCount - (sc_blocks sc + 2) div 2))"

definition IsShared :: "sync_clock \<Rightarrow> clk_heap \<Rightarrow> bool option" where
  "IsShared sc h =
     (if sc_size sc = 0 then Some False
      else (let v = heap_word h (tab_idx sc) kRefIdx in if v = 0 then None else Some (v > 1)))"

definition elem_loc :: "clk_heap \<Rightarrow> sync_clock \<Rightarrow> nat \<Rightarrow> u32 \<times> nat" where
  "elem_loc h sc tid =
     (let block = tid div kClockCount; tid' = tid mod kClockCount in
      if block = sc_blocks sc then (tab_idx sc, tid') else (get_block h sc block, tid'))"

definition elem :: "clk_heap \<Rightarrow> sync_clock \<Rightarrow> nat \<Rightarrow> clock_elem" where
  "elem h sc tid = (case elem_loc h sc tid of (idx, i) \<Rightarrow> read_elem h idx i)"

definition set_elem :: "sync_clock \<Rightarrow> nat \<Rightarrow> clock_elem \<Rightarrow> clk_heap \<Rightarrow> clk_heap" where
  "set_elem sc tid e h = (case elem_loc h sc tid of (idx, i) \<Rightarrow> write_elem idx i e h)"

subsection \<open>Iteration\<close>

text \<open>\<open>Iter::Next\<close>: the next range of elements, as its block and length. The subtraction wraps.\<close>

definition next_range :: "clk_heap \<Rightarrow> sync_clock \<Rightarrow> nat \<Rightarrow> (u32 \<times> nat) option" where
  "next_range h sc block =
     (let n = (if block * kClockCount \<le> sc_size sc
               then min (sc_size sc - block * kClockCount) kClockCount else kClockCount) in
      if block < sc_blocks sc then Some (get_block h sc block, n)
      else if block = sc_blocks sc \<and> sc_size sc > sc_blocks sc * kClockCount then Some (tab_idx sc, n)
      else None)"

text \<open>
  \<open>for (ClockElem &ce : *sc) body\<close>. The body gets the number of the element and its value, and
  gives the value it leaves there. The first element of a range is visited before the end of the
  range is looked at.
\<close>

definition range_for :: "(nat \<Rightarrow> clock_elem \<Rightarrow> 's \<Rightarrow> clock_elem \<times> 's) \<Rightarrow> nat \<Rightarrow> u32 \<Rightarrow> nat \<Rightarrow> clk_heap \<times> 's \<Rightarrow> clk_heap \<times> 's" where
  "range_for body i idx n s =
     fold (\<lambda>k (h, s). let (e, s') = body (i + k) (read_elem h idx k) s in (write_elem idx k e h, s'))
       [0..<max 1 n] s"

function clock_for_from ::
  "(nat \<Rightarrow> clock_elem \<Rightarrow> 's \<Rightarrow> clock_elem \<times> 's) \<Rightarrow> sync_clock \<Rightarrow> nat \<Rightarrow> nat \<Rightarrow> clk_heap \<times> 's \<Rightarrow> clk_heap \<times> 's" where
  "clock_for_from body sc block i s =
     (case next_range (fst s) sc block of
        None \<Rightarrow> s
      | Some (idx, n) \<Rightarrow> clock_for_from body sc (Suc block) (i + max 1 n) (range_for body i idx n s))"
  by pat_completeness auto
termination
  by (relation "measure (\<lambda>(body, sc, block, i, s). sc_blocks sc + 1 - block)")
    (auto simp: next_range_def Let_def split: if_splits)

declare clock_for_from.simps [simp del]

definition clock_for :: "(nat \<Rightarrow> clock_elem \<Rightarrow> 's \<Rightarrow> clock_elem \<times> 's) \<Rightarrow> sync_clock \<Rightarrow> clk_heap \<times> 's \<Rightarrow> clk_heap \<times> 's" where
  "clock_for body sc s = clock_for_from body sc 0 0 s"

text \<open>The values an iterator passes over.\<close>

definition clock_vals :: "clk_heap \<Rightarrow> sync_clock \<Rightarrow> clock_elem list" where
  "clock_vals h sc = snd (clock_for (\<lambda>_ e vs. (e, vs @ [e])) sc (h, []))"

subsection \<open>Growing and sharing\<close>

text \<open>The loop of \<open>Resize\<close> that appends second-level blocks.\<close>

partial_function (option) grow_blocks :: "nat \<Rightarrow> sync_clock \<Rightarrow> clk_heap \<Rightarrow> (sync_clock \<times> clk_heap) option" where
  "grow_blocks nclk sc h =
     (if nclk > capacity sc
      then do { (idx, h1) \<leftarrow> clk_alloc h;
                (sc', h2) \<leftarrow> append_block idx sc (clear_words idx 0 kTableSize h1);
                grow_blocks nclk sc' h2 }
      else Some (sc, h))"

text \<open>The first-level block of an empty clock, and the evacuation of its elements to a new block.\<close>

definition first_block :: "sync_clock \<Rightarrow> clk_heap \<Rightarrow> (sync_clock \<times> clk_heap) option" where
  "first_block sc h =
     (if sc_blocks sc \<noteq> 0 \<or> tab_idx sc \<noteq> 0 then None
      else do { (idx, h1) \<leftarrow> clk_alloc h;
                Some (sc\<lparr>tab_idx := idx, sc_size := 1\<rparr>,
                      set_heap_word idx kRefIdx 1 (clear_words idx 0 kTableSize h1)) })"

definition evacuate :: "sync_clock \<Rightarrow> clk_heap \<Rightarrow> (sync_clock \<times> clk_heap) option" where
  "evacuate sc h =
     do { (idx, h1) \<leftarrow> clk_alloc h;
          let top = sc_size sc - sc_blocks sc * kClockCount;
          if \<not> top < kClockCount then None
          else append_block idx sc
                 (clear_words (tab_idx sc) 0 (2 * top)
                   (clear_words idx (2 * top) (kTableSize - 2 * top)
                     (copy_words idx (tab_idx sc) (2 * top) h1))) }"

text \<open>\<open>Resize\<close> of a clock that is not shared, then \<open>Unshare\<close>, which calls it on a cleared clock.\<close>

definition resize_unshared :: "nat \<Rightarrow> sync_clock \<Rightarrow> clk_heap \<Rightarrow> (sync_clock \<times> clk_heap) option" where
  "resize_unshared nclk sc h =
     (if nclk \<le> capacity sc then Some (sc\<lparr>sc_size := nclk mod 2 ^ 16\<rparr>, h)
      else do {
        (sc1, h1) \<leftarrow> (if sc_size sc = 0 then first_block sc h
                      else if sc_size sc > sc_blocks sc * kClockCount then evacuate sc h
                      else Some (sc, h));
        (sc2, h2) \<leftarrow> grow_blocks nclk sc1 h1;
        Some (sc2\<lparr>sc_size := nclk mod 2 ^ 16\<rparr>, h2) })"

definition Unshare :: "sync_clock \<Rightarrow> clk_heap \<Rightarrow> (sync_clock \<times> clk_heap) option" where
  "Unshare sc h =
     do { shared \<leftarrow> IsShared sc h;
          if \<not> shared then Some (sc, h)
          else do {
            (sc1, h1) \<leftarrow> resize_unshared (sc_size sc) (ResetImpl sc) h;
            let old = clock_vals h1 sc;
            let (h2, _) = clock_for (\<lambda>i _ u. (old ! i, u)) sc1 (h1, ());
            (_, h3) \<leftarrow> SyncClock_Reset sc h2;
            Some (sc1\<lparr>release_store_tid := release_store_tid sc, release_store_reused := release_store_reused sc,
                      sc_dirty := sc_dirty sc\<rparr>, h3) } }"

definition Resize :: "nat \<Rightarrow> sync_clock \<Rightarrow> clk_heap \<Rightarrow> (sync_clock \<times> clk_heap) option" where
  "Resize nclk sc h = do { (sc1, h1) \<leftarrow> Unshare sc h; resize_unshared nclk sc1 h1 }"

text \<open>\<open>FlushDirty\<close>\<close>

fun flush_dirty_at :: "nat list \<Rightarrow> sync_clock \<Rightarrow> clk_heap \<Rightarrow> (sync_clock \<times> clk_heap) option" where
  "flush_dirty_at [] sc h = Some (sc, h)"
| "flush_dirty_at (i # is) sc h =
     (let d = sc_dirty sc ! i in
      if dt_tid d \<noteq> kInvalidTid
      then if \<not> dt_tid d < sc_size sc then None
           else flush_dirty_at is (sc\<lparr>sc_dirty := (sc_dirty sc)[i := d\<lparr>dt_tid := kInvalidTid\<rparr>]\<rparr>)
                  (set_elem sc (dt_tid d) ((elem h sc (dt_tid d))\<lparr>ce_epoch := dt_epoch d\<rparr>) h)
      else flush_dirty_at is sc h)"

definition FlushDirty :: "sync_clock \<Rightarrow> clk_heap \<Rightarrow> (sync_clock \<times> clk_heap) option" where
  "FlushDirty sc h = flush_dirty_at [0, 1] sc h"

definition Cachable :: "sync_clock \<Rightarrow> clk_heap \<Rightarrow> bool" where
  "Cachable sc h \<longleftrightarrow> sc_size sc \<noteq> 0 \<and> (\<forall>d \<in> set (sc_dirty sc). dt_tid d = kInvalidTid) \<and>
     heap_word h (tab_idx sc) kRefIdx = 1"

definition SyncClock_get :: "clk_heap \<Rightarrow> sync_clock \<Rightarrow> nat \<Rightarrow> u64" where
  "SyncClock_get h sc tid =
     (case List.find (\<lambda>d. dt_tid d = tid) (sc_dirty sc) of
        Some d \<Rightarrow> dt_epoch d | None \<Rightarrow> ce_epoch (elem h sc tid))"

definition SyncClock_get_clean :: "clk_heap \<Rightarrow> sync_clock \<Rightarrow> nat \<Rightarrow> u64" where
  "SyncClock_get_clean h sc tid = ce_epoch (elem h sc tid)"

end
