(* ===== verification/ThreadClock.thy ===== *)
theory ThreadClock
  imports SyncClock CprdRuntime
begin

text \<open>
  The vector clock of a thread, \<open>ThreadClock\<close> in \<open>tsan/rtl/tsan_clock.cpp\<close> and \<open>tsan_clock.h\<close>,
  over the synchronisation clocks of \<open>SyncClock\<close>: acquire, the four kinds of release with their
  constant-time shortcuts, and the happens-before lines they log.
\<close>

section \<open>State\<close>

definition kMaxTidInClock :: nat where "kMaxTidInClock = kMaxTid * 2"

record thread_clock =
  tc_tid :: nat
  tc_reused :: u64
  last_acquire :: u64
  global_acquire :: u64
  cached_idx :: u32
  cached_size :: nat
  cached_blocks :: nat
  tc_nclk :: nat
  tc_clk :: "nat \<Rightarrow> u64"
  prd_trace :: bool

definition ThreadClock_new :: "nat \<Rightarrow> u32 \<Rightarrow> bool \<Rightarrow> thread_clock option" where
  "ThreadClock_new tid reused trace =
     (let r = ucast (reused + 1) :: u64 in
      if tid < kMaxTidInClock \<and> r = drop_bit kClkBits (push_bit kClkBits r)
      then Some \<lparr>tc_tid = tid, tc_reused = r, last_acquire = 0, global_acquire = 0, cached_idx = 0,
                 cached_size = 0, cached_blocks = 0, tc_nclk = tid + 1, tc_clk = (\<lambda>_. 0), prd_trace = trace\<rparr>
      else None)"

definition own_epoch :: "thread_clock \<Rightarrow> u64" where
  "own_epoch tc = tc_clk tc (tc_tid tc)"

definition ResetCached :: "thread_clock \<Rightarrow> clk_heap \<Rightarrow> (thread_clock \<times> clk_heap) option" where
  "ResetCached tc h =
     (if cached_idx tc \<noteq> 0
      then do { h' \<leftarrow> UnrefClockBlock (cached_idx tc) (cached_blocks tc) h;
                Some (tc\<lparr>cached_idx := 0, cached_size := 0, cached_blocks := 0\<rparr>, h') }
      else Some (tc, h))"

section \<open>Acquire\<close>

text \<open>One element: take over a later epoch, with its log line, and remember that something was acquired.\<close>

definition acquire_elem :: "nat \<Rightarrow> u64 \<Rightarrow> thread_clock \<times> bool \<times> log_line list \<Rightarrow> thread_clock \<times> bool \<times> log_line list" where
  "acquire_elem tid epoch s =
     (case s of (tc, acquired, out) \<Rightarrow>
        if tc_clk tc tid < epoch
        then (tc\<lparr>tc_clk := (tc_clk tc)(tid := epoch)\<rparr>, True,
              if prd_trace tc \<and> tc_tid tc \<noteq> tid
              then out @ [log_happens_before_edge (of_nat tid) epoch (of_nat (tc_tid tc)) (own_epoch tc)]
              else out)
        else (tc, acquired, out))"

definition acquire_dirty :: "sync_clock \<Rightarrow> thread_clock \<times> bool \<times> log_line list \<Rightarrow> thread_clock \<times> bool \<times> log_line list" where
  "acquire_dirty src s =
     fold (\<lambda>d s. if dt_tid d \<noteq> kInvalidTid then acquire_elem (dt_tid d) (dt_epoch d) s else s) (sc_dirty src) s"

definition finish_acquire :: "bool \<Rightarrow> thread_clock \<Rightarrow> clk_heap \<Rightarrow> (thread_clock \<times> clk_heap) option" where
  "finish_acquire acquired tc h =
     (if acquired then ResetCached (tc\<lparr>last_acquire := own_epoch tc\<rparr>) h else Some (tc, h))"

definition acquire :: "thread_clock \<Rightarrow> sync_clock \<Rightarrow> clk_heap \<Rightarrow> (thread_clock \<times> clk_heap \<times> log_line list) option" where
  "acquire tc src h =
     (let nclk = sc_size src in
      if nclk = 0 then Some (tc, h, [])
      else
        (let (tc1, acq1, out1) = acquire_dirty src (tc, False, []);
             (h2, tc2, acq2, out2) =
               (if tc_tid tc \<ge> nclk \<or> ce_reused (elem h src (tc_tid tc)) \<noteq> tc_reused tc
                then (let (h', s') = clock_for (\<lambda>i e s. (e, acquire_elem i (ce_epoch e) s)) src
                                       (h, tc1\<lparr>tc_nclk := max (tc_nclk tc1) nclk\<rparr>, acq1, out1);
                          h'' = (if nclk > tc_tid tc
                                 then set_elem src (tc_tid tc) ((elem h' src (tc_tid tc))\<lparr>ce_reused := tc_reused tc\<rparr>) h'
                                 else h')
                      in (h'', s'))
                else (h, tc1, acq1, out1))
         in do { (tc3, h3) \<leftarrow> finish_acquire acq2 tc2 h2; Some (tc3, h3, out2) }))"

section \<open>Release\<close>

text \<open>\<open>UpdateCurrentThread\<close>: a dirty slot that is free or already the thread's, else the element itself.\<close>

definition UpdateCurrentThread :: "thread_clock \<Rightarrow> sync_clock \<Rightarrow> clk_heap \<Rightarrow> (sync_clock \<times> clk_heap) option" where
  "UpdateCurrentThread tc dst h =
     (case List.find (\<lambda>i. dt_tid (sc_dirty dst ! i) = tc_tid tc \<or> dt_tid (sc_dirty dst ! i) = kInvalidTid) [0, 1] of
        Some i \<Rightarrow> Some (dst\<lparr>sc_dirty := (sc_dirty dst)[i := \<lparr>dt_epoch = own_epoch tc AND mask kClkBits, dt_tid = tc_tid tc\<rparr>]\<rparr>, h)
      | None \<Rightarrow>
          do { (dst1, h1) \<leftarrow> Unshare dst h;
               let h2 = set_elem dst1 (tc_tid tc) ((elem h1 dst1 (tc_tid tc))\<lparr>ce_epoch := own_epoch tc\<rparr>) h1;
               let h3 = fold (\<lambda>i h. set_elem dst1 i ((elem h dst1 i)\<lparr>ce_reused := 0\<rparr>) h) [0..<sc_size dst1] h2;
               FlushDirty dst1 h3 })"

definition IsAlreadyAcquired :: "thread_clock \<Rightarrow> sync_clock \<Rightarrow> clk_heap \<Rightarrow> bool" where
  "IsAlreadyAcquired tc src h \<longleftrightarrow>
     ce_reused (elem h src (tc_tid tc)) = tc_reused tc \<and>
     (\<forall>d \<in> set (sc_dirty src). dt_tid d \<noteq> kInvalidTid \<longrightarrow> \<not> tc_clk tc (dt_tid d) < dt_epoch d)"

definition HasAcquiredAfterRelease :: "thread_clock \<Rightarrow> sync_clock \<Rightarrow> clk_heap \<Rightarrow> bool" where
  "HasAcquiredAfterRelease tc dst h \<longleftrightarrow>
     (let my_epoch = ce_epoch (elem h dst (tc_tid tc)) in
      my_epoch \<le> last_acquire tc \<or> my_epoch \<le> global_acquire tc)"

definition set_own_reused :: "thread_clock \<Rightarrow> sync_clock \<Rightarrow> clk_heap \<Rightarrow> clk_heap" where
  "set_own_reused tc sc h = set_elem sc (tc_tid tc) ((elem h sc (tc_tid tc))\<lparr>ce_reused := tc_reused tc\<rparr>) h"

text \<open>\<open>ReleaseStore\<close> to an empty clock from the cached one.\<close>

definition store_cached :: "thread_clock \<Rightarrow> sync_clock \<Rightarrow> clk_heap \<Rightarrow> (sync_clock \<times> clk_heap) option" where
  "store_cached tc dst h =
     (if dt_tid (sc_dirty dst ! 0) \<noteq> kInvalidTid then None
      else
        (let dst1 = dst\<lparr>tab_idx := cached_idx tc, sc_size := cached_size tc, sc_blocks := cached_blocks tc,
                        sc_dirty := (sc_dirty dst)[0 := \<lparr>dt_epoch = own_epoch tc AND mask kClkBits, dt_tid = tc_tid tc\<rparr>],
                        release_store_tid := tc_tid tc, release_store_reused := tc_reused tc\<rparr>;
             h1 = set_own_reused tc dst1 h
         in Some (dst1, set_heap_word (tab_idx dst1) kRefIdx (heap_word h1 (tab_idx dst1) kRefIdx + 1) h1)))"

text \<open>The full \<open>ReleaseStore\<close>, and the caching of its result.\<close>

definition store_full :: "thread_clock \<Rightarrow> sync_clock \<Rightarrow> clk_heap \<Rightarrow> (thread_clock \<times> sync_clock \<times> clk_heap) option" where
  "store_full tc dst h =
     do { (dst1, h1) \<leftarrow> Unshare dst h;
          let (h2, _) = clock_for (\<lambda>i e u. (\<lparr>ce_epoch = tc_clk tc i, ce_reused = 0\<rparr>, u)) dst1 (h1, ());
          let dst2 = dst1\<lparr>sc_dirty := map (\<lambda>d. d\<lparr>dt_tid := kInvalidTid\<rparr>) (sc_dirty dst1),
                          release_store_tid := tc_tid tc, release_store_reused := tc_reused tc\<rparr>;
          let h3 = set_own_reused tc dst2 h2;
          Some (if cached_idx tc = 0 \<and> Cachable dst2 h3
                then (tc\<lparr>cached_idx := tab_idx dst2, cached_size := sc_size dst2, cached_blocks := sc_blocks dst2\<rparr>,
                      dst2, set_heap_word (tab_idx dst2) kRefIdx (heap_word h3 (tab_idx dst2) kRefIdx + 1) h3)
                else (tc, dst2, h3)) }"

definition ReleaseStore :: "thread_clock \<Rightarrow> sync_clock \<Rightarrow> clk_heap \<Rightarrow> (thread_clock \<times> sync_clock \<times> clk_heap) option" where
  "ReleaseStore tc dst h =
     (if sc_size dst = 0 \<and> cached_idx tc \<noteq> 0
      then do { (dst', h') \<leftarrow> store_cached tc dst h; Some (tc, dst', h') }
      else do {
        (dst1, h1) \<leftarrow> (if sc_size dst < tc_nclk tc then Resize (tc_nclk tc) dst h else Some (dst, h));
        if release_store_tid dst1 = tc_tid tc \<and> release_store_reused dst1 = tc_reused tc \<and>
           \<not> HasAcquiredAfterRelease tc dst1 h1
        then do { (dst2, h2) \<leftarrow> UpdateCurrentThread tc dst1 h1; Some (tc, dst2, h2) }
        else store_full tc dst1 h1 })"

definition release :: "thread_clock \<Rightarrow> sync_clock \<Rightarrow> clk_heap \<Rightarrow> (thread_clock \<times> sync_clock \<times> clk_heap) option" where
  "release tc dst h =
     (if sc_size dst = 0 then ReleaseStore tc dst h
      else do {
        (dst1, h1) \<leftarrow> (if sc_size dst < tc_nclk tc then Resize (tc_nclk tc) dst h else Some (dst, h));
        if \<not> HasAcquiredAfterRelease tc dst1 h1
        then do {
          (dst2, h2) \<leftarrow> UpdateCurrentThread tc dst1 h1;
          Some (tc, if release_store_tid dst2 \<noteq> tc_tid tc \<or> release_store_reused dst2 \<noteq> tc_reused tc
                    then dst2\<lparr>release_store_tid := kInvalidTid\<rparr> else dst2, h2) }
        else do {
          (dst2, h2) \<leftarrow> Unshare dst1 h1;
          let acquired = IsAlreadyAcquired tc dst2 h2;
          (dst3, h3) \<leftarrow> FlushDirty dst2 h2;
          let (h4, _) = clock_for (\<lambda>i e u. (\<lparr>ce_epoch = max (ce_epoch e) (tc_clk tc i), ce_reused = 0\<rparr>, u)) dst3 (h3, ());
          let dst4 = dst3\<lparr>release_store_tid := kInvalidTid, release_store_reused := 0\<rparr>;
          Some (tc, dst4, if acquired then set_own_reused tc dst4 h4 else h4) } })"

definition releaseStoreAcquire ::
  "thread_clock \<Rightarrow> sync_clock \<Rightarrow> clk_heap \<Rightarrow> (thread_clock \<times> sync_clock \<times> clk_heap \<times> log_line list) option" where
  "releaseStoreAcquire tc sc h =
     (if sc_size sc = 0 then do { (tc', sc', h') \<leftarrow> ReleaseStore tc sc h; Some (tc', sc', h', []) }
      else
        (let tc1 = tc\<lparr>tc_nclk := max (tc_nclk tc) (sc_size sc)\<rparr> in do {
           (sc1, h1) \<leftarrow> (if sc_size sc < tc_nclk tc1 then Resize (tc_nclk tc1) sc h else Some (sc, h));
           (sc2, h2) \<leftarrow> Unshare sc1 h1;
           (sc3, h3) \<leftarrow> FlushDirty sc2 h2;
           let (h4, tc4, acq, out) =
             clock_for (\<lambda>i e s. (\<lparr>ce_epoch = tc_clk (fst s) i, ce_reused = 0\<rparr>, acquire_elem i (ce_epoch e) s))
               sc3 (h3, tc1, False, []);
           let sc4 = sc3\<lparr>release_store_tid := kInvalidTid, release_store_reused := 0\<rparr>;
           (tc5, h5) \<leftarrow> finish_acquire acq tc4 h4;
           Some (tc5, sc4, h5, out) }))"

definition acq_rel :: "thread_clock \<Rightarrow> sync_clock \<Rightarrow> clk_heap \<Rightarrow> (thread_clock \<times> sync_clock \<times> clk_heap \<times> log_line list) option" where
  "acq_rel tc dst h =
     do { (tc1, h1, out) \<leftarrow> acquire tc dst h;
          (tc2, dst2, h2) \<leftarrow> ReleaseStore tc1 dst h1;
          Some (tc2, dst2, h2, out) }"

section \<open>Single elements\<close>

text \<open>\<open>set(ClockCache *, unsigned, u64)\<close>\<close>

definition ThreadClock_set ::
  "thread_clock \<Rightarrow> nat \<Rightarrow> u64 \<Rightarrow> clk_heap \<Rightarrow> (thread_clock \<times> clk_heap \<times> log_line list) option" where
  "ThreadClock_set tc tid v h =
     (let out = (if prd_trace tc
                 then if tc_tid tc = tid then [log_epoch_inc (of_nat (tc_tid tc)) (own_epoch tc) v]
                      else if tc_clk tc tid \<noteq> v
                      then [log_happens_before_edge (of_nat tid) v (of_nat (tc_tid tc)) (own_epoch tc)] else []
                 else []);
          tc1 = tc\<lparr>tc_clk := (tc_clk tc)(tid := v), tc_nclk := (if tc_nclk tc \<le> tid then tid + 1 else tc_nclk tc)\<rparr>
      in do { (tc2, h') \<leftarrow> ResetCached (tc1\<lparr>last_acquire := own_epoch tc1\<rparr>) h; Some (tc2, h', out) })"

text \<open>\<open>set(u64)\<close> and \<open>tick\<close>\<close>

definition set_own :: "thread_clock \<Rightarrow> u64 \<Rightarrow> thread_clock \<times> log_line list" where
  "set_own tc v =
     (tc\<lparr>tc_clk := (tc_clk tc)(tc_tid tc := v)\<rparr>,
      if prd_trace tc \<and> own_epoch tc \<noteq> v then [log_epoch_inc (of_nat (tc_tid tc)) (own_epoch tc) v] else [])"

definition tick :: "thread_clock \<Rightarrow> thread_clock \<times> log_line list" where
  "tick tc =
     (tc\<lparr>tc_clk := (tc_clk tc)(tc_tid tc := own_epoch tc + 1)\<rparr>,
      if prd_trace tc then [log_epoch_inc (of_nat (tc_tid tc)) (own_epoch tc) (own_epoch tc + 1)] else [])"

definition ThreadClock_get :: "thread_clock \<Rightarrow> nat \<Rightarrow> u64" where
  "ThreadClock_get tc tid = tc_clk tc tid"

definition NoteGlobalAcquire :: "u64 \<Rightarrow> thread_clock \<Rightarrow> thread_clock option" where
  "NoteGlobalAcquire v tc = (if global_acquire tc \<le> v then Some (tc\<lparr>global_acquire := v\<rparr>) else None)"

end
