(* ===== verification/SyncClockLayout.thy ===== *)
theory SyncClockLayout
  imports SyncClock
begin

text \<open>
  The two-level layout of \<open>SyncClock\<close> behaves as a flat array: elements have disjoint places that
  overlap neither the block table nor the reference counter, iteration passes them in order, and
  growing and unsharing keep their values.
\<close>

section \<open>Elements in blocks\<close>

text \<open>What the bit fields keep of a value.\<close>

definition norm_elem :: "clock_elem \<Rightarrow> clock_elem" where
  "norm_elem e = \<lparr>ce_epoch = ce_epoch e AND mask kClkBits, ce_reused = ce_reused e AND mask (64 - kClkBits)\<rparr>"

lemma unpack_pack: "unpack_elem (pack_elem e) = norm_elem e"
  by (auto simp: unpack_elem_def pack_elem_def norm_elem_def kClkBits_def bit_simps intro!: bit_word_eqI)

lemma pack_unpack: "pack_elem (unpack_elem w) = w"
  by (auto simp: unpack_elem_def pack_elem_def kClkBits_def bit_simps intro!: bit_word_eqI)

lemma norm_elem_unpack [simp]: "norm_elem (unpack_elem w) = unpack_elem w"
  using unpack_pack [of "unpack_elem w"] by (simp add: pack_unpack)

lemma norm_elem_idem [simp]: "norm_elem (norm_elem e) = norm_elem e"
  using norm_elem_unpack [of "pack_elem e"] by (simp add: unpack_pack)

lemma join_halves: "ucast (ucast w :: u32) OR push_bit 32 (ucast (ucast (drop_bit 32 w) :: u32)) = (w :: u64)"
  by (rule bit_word_eqI) (auto simp: bit_simps)

lemma heap_word_set [simp]:
  "heap_word (set_heap_word idx k v h) idx' k' = (if idx' = idx \<and> k' = k then v else heap_word h idx' k')"
  by (simp add: heap_word_def set_heap_word_def)

lemma snd_set_heap_word [simp]: "snd (set_heap_word idx k v h) = snd h"
  by (simp add: set_heap_word_def)

lemma heap_word_write:
  "heap_word (write_elem idx i e h) idx' k =
     (if idx' = idx \<and> k div 2 = i
      then if even k then ucast (pack_elem e) else ucast (drop_bit 32 (pack_elem e))
      else heap_word h idx' k)"
  by (auto simp: write_elem_def Let_def elim!: evenE oddE)

lemma read_write: "read_elem (write_elem idx i e h) idx' j = (if idx' = idx \<and> j = i then norm_elem e else read_elem h idx' j)"
  by (auto simp: read_elem_def heap_word_write join_halves unpack_pack)

lemma read_elem_norm [simp]: "norm_elem (read_elem h idx i) = read_elem h idx i"
  by (simp add: read_elem_def)

lemma heap_eqI: "snd h = snd h' \<Longrightarrow> da_freelist (fst h) = da_freelist (fst h') \<Longrightarrow> da_fillpos (fst h) = da_fillpos (fst h')
    \<Longrightarrow> (\<And>i k. heap_word h i k = heap_word h' i k) \<Longrightarrow> h = h'"
  by (cases h; cases h') (auto simp: heap_word_def intro!: dense_alloc.equality ext)

section \<open>Places\<close>

text \<open>The first-level block has room for \<open>kClockCount - (blocks + 2) div 2\<close> elements.\<close>

definition layout_ok :: "clk_heap \<Rightarrow> sync_clock \<Rightarrow> bool" where
  "layout_ok h sc \<longleftrightarrow>
     (if sc_size sc = 0 then sc_blocks sc = 0 \<and> tab_idx sc = 0
      else sc_blocks sc < kTableSize \<and> sc_size sc \<le> capacity sc \<and>
        (sc_blocks sc \<noteq> 0 \<longrightarrow> (sc_blocks sc - 1) * kClockCount < sc_size sc) \<and>
        (\<forall>b < sc_blocks sc. get_block h sc b \<noteq> tab_idx sc) \<and> inj_on (get_block h sc) {..<sc_blocks sc})"

lemma elem_loc_block:
  assumes "layout_ok h sc" "tid < sc_size sc"
  shows "tid div kClockCount \<le> sc_blocks sc"
    and "tid div kClockCount = sc_blocks sc \<Longrightarrow> 2 * (tid mod kClockCount) + 1 < kBlockIdx + 1 - sc_blocks sc"
proof -
  have cap: "tid < sc_blocks sc * 64 + (64 - (sc_blocks sc + 2) div 2)" "sc_blocks sc < 128"
    using assms by (auto simp: layout_ok_def capacity_def clock_consts split: if_splits)
  have "tid < (sc_blocks sc + 1) * 64" using cap(1) by simp
  then have "tid div 64 < sc_blocks sc + 1" by (rule less_mult_imp_div_less)
  then show "tid div kClockCount \<le> sc_blocks sc" by (simp add: kClockCount_def)
  assume "tid div kClockCount = sc_blocks sc"
  then have "tid = sc_blocks sc * 64 + tid mod 64" by (metis div_mult_mod_eq kClockCount_def)
  then have "tid mod 64 + (sc_blocks sc + 2) div 2 < 64" using cap by linarith
  moreover have "sc_blocks sc + 1 \<le> 2 * ((sc_blocks sc + 2) div 2)" by linarith
  ultimately show "2 * (tid mod kClockCount) + 1 < kBlockIdx + 1 - sc_blocks sc"
    unfolding clock_consts by linarith
qed

lemma elem_loc_cases:
  assumes "layout_ok h sc" "tid < sc_size sc"
  obtains (second) b where "b < sc_blocks sc" "tid = b * 64 + tid mod 64" "elem_loc h sc tid = (get_block h sc b, tid mod 64)"
    | (first) "tid = sc_blocks sc * 64 + tid mod 64" "elem_loc h sc tid = (tab_idx sc, tid mod 64)"
        "2 * (tid mod 64) + 1 < kBlockIdx + 1 - sc_blocks sc"
proof (cases "tid div 64 = sc_blocks sc")
  case True
  then have "tid = sc_blocks sc * 64 + tid mod 64" by (metis div_mult_mod_eq)
  moreover have "elem_loc h sc tid = (tab_idx sc, tid mod 64)"
    using True by (simp add: elem_loc_def Let_def kClockCount_def)
  ultimately show ?thesis
    using first elem_loc_block(2) [OF assms] True by (simp add: kClockCount_def)
next
  case False
  then have "tid div 64 < sc_blocks sc" using elem_loc_block(1) [OF assms] by (simp add: kClockCount_def)
  moreover have "tid = (tid div 64) * 64 + tid mod 64" by simp
  ultimately show ?thesis
    using second [of "tid div 64"] False by (simp add: elem_loc_def Let_def kClockCount_def)
qed

lemma elem_loc_inj:
  assumes "layout_ok h sc" "tid < sc_size sc" "tid' < sc_size sc" "elem_loc h sc tid = elem_loc h sc tid'"
  shows "tid = tid'"
proof -
  have inj: "b = b'" if "b < sc_blocks sc" "b' < sc_blocks sc" "get_block h sc b = get_block h sc b'" for b b'
    using assms(1,2) that by (auto simp: layout_ok_def inj_on_def split: if_splits)
  have ne: "get_block h sc b \<noteq> tab_idx sc" if "b < sc_blocks sc" for b
    using assms(1,2) that by (auto simp: layout_ok_def split: if_splits)
  from assms(1,2) show ?thesis
  proof (cases rule: elem_loc_cases)
    case (second b)
    note s1 = this
    from assms(1,3) show ?thesis
    proof (cases rule: elem_loc_cases)
      case (second b')
      then show ?thesis using s1 assms(4) inj [of b b'] by (metis Pair_inject)
    next
      case first
      then show ?thesis using s1 assms(4) ne [of b] by (metis Pair_inject)
    qed
  next
    case first
    note f1 = this
    from assms(1,3) show ?thesis
    proof (cases rule: elem_loc_cases)
      case (second b')
      then show ?thesis using f1 assms(4) ne [of b'] by (metis Pair_inject)
    next
      case first
      then show ?thesis using f1 assms(4) by (metis Pair_inject)
    qed
  qed
qed

text \<open>Writing an element disturbs neither the block table nor the counter.\<close>

lemma set_elem_table:
  assumes "layout_ok h sc" "tid < sc_size sc" and "b < sc_blocks sc"
  shows "get_block (set_elem sc tid e h) sc b = get_block h sc b"
proof -
  have dist: "get_block h sc b' \<noteq> tab_idx sc" if "b' < sc_blocks sc" for b'
    using assms(1,2) that by (auto simp: layout_ok_def split: if_splits)
  from assms(1,2) show ?thesis
  proof (cases rule: elem_loc_cases)
    case (second b')
    then show ?thesis using dist [of b'] by (simp add: set_elem_def get_block_def heap_word_write)
  next
    case first
    then have "(kBlockIdx - b) div 2 \<noteq> tid mod 64"
      using assms(3) by (auto simp: clock_consts)
    then show ?thesis using first by (simp add: set_elem_def get_block_def heap_word_write)
  qed
qed

lemma set_elem_ref:
  assumes "layout_ok h sc" "tid < sc_size sc"
  shows "heap_word (set_elem sc tid e h) (tab_idx sc) kRefIdx = heap_word h (tab_idx sc) kRefIdx"
proof -
  have dist: "get_block h sc b' \<noteq> tab_idx sc" if "b' < sc_blocks sc" for b'
    using assms(1,2) that by (auto simp: layout_ok_def split: if_splits)
  from assms(1,2) show ?thesis
  proof (cases rule: elem_loc_cases)
    case (second b')
    then show ?thesis using dist [of b'] by (auto simp: set_elem_def heap_word_write)
  next
    case first
    then have "kRefIdx div 2 \<noteq> tid mod 64" by (auto simp: clock_consts)
    then show ?thesis using first by (simp add: set_elem_def heap_word_write)
  qed
qed

lemma set_elem_loc:
  assumes "layout_ok h sc" "tid < sc_size sc" "tid' < sc_size sc"
  shows "elem_loc (set_elem sc tid e h) sc tid' = elem_loc h sc tid'"
proof -
  have "tid' div kClockCount \<le> sc_blocks sc" using elem_loc_block(1) [OF assms(1,3)] .
  then show ?thesis
    using set_elem_table [OF assms(1,2)] by (simp add: elem_loc_def Let_def)
qed

lemma set_elem_layout:
  assumes "layout_ok h sc" "tid < sc_size sc"
  shows "layout_ok (set_elem sc tid e h) sc"
proof -
  have "inj_on (get_block (set_elem sc tid e h) sc) {..<sc_blocks sc} = inj_on (get_block h sc) {..<sc_blocks sc}"
    using set_elem_table [OF assms] by (auto simp: inj_on_def)
  then show ?thesis using assms set_elem_table [OF assms] unfolding layout_ok_def by simp
qed

lemma elem_set_elem:
  assumes "layout_ok h sc" "tid < sc_size sc" "tid' < sc_size sc"
  shows "elem (set_elem sc tid e h) sc tid' = (if tid' = tid then norm_elem e else elem h sc tid')"
proof -
  obtain a i where l: "elem_loc h sc tid = (a, i)" by (cases "elem_loc h sc tid")
  obtain a' i' where l': "elem_loc h sc tid' = (a', i')" by (cases "elem_loc h sc tid'")
  have "(a' = a \<and> i' = i) = (tid' = tid)"
    using elem_loc_inj [OF assms] l l' by auto
  then show ?thesis
    using set_elem_loc [OF assms] l l' by (simp add: elem_def set_elem_def read_write)
qed

section \<open>Iteration passes the elements in order\<close>

definition flat_step :: "(nat \<Rightarrow> clock_elem \<Rightarrow> 's \<Rightarrow> clock_elem \<times> 's) \<Rightarrow> sync_clock \<Rightarrow> nat \<Rightarrow> clk_heap \<times> 's \<Rightarrow> clk_heap \<times> 's" where
  "flat_step body sc i hs =
     (case hs of (h, s) \<Rightarrow> let (e, s') = body i (elem h sc i) s in (set_elem sc i e h, s'))"

lemma flat_step_pair:
  "flat_step body sc i (h, s) = (case body i (elem h sc i) s of (e, s') \<Rightarrow> (set_elem sc i e h, s'))"
  by (simp add: flat_step_def)

lemma flat_fold_frame:
  assumes "layout_ok h sc" "set is \<subseteq> {..<sc_size sc}" "fold (flat_step body sc) is (h, s) = (h', s')"
  shows "layout_ok h' sc \<and> (\<forall>b < sc_blocks sc. get_block h' sc b = get_block h sc b) \<and>
    (\<forall>tid. tid \<notin> set is \<longrightarrow> tid < sc_size sc \<longrightarrow> elem h' sc tid = elem h sc tid)"
  using assms
proof (induction "is" arbitrary: h s)
  case (Cons i "is")
  obtain e s1 where b: "body i (elem h sc i) s = (e, s1)" by (cases "body i (elem h sc i) s")
  have i: "i < sc_size sc" using Cons.prems(2) by simp
  have f: "fold (flat_step body sc) is (set_elem sc i e h, s1) = (h', s')"
    using Cons.prems(3) b by (simp add: flat_step_pair)
  have sub: "set is \<subseteq> {..<sc_size sc}" using Cons.prems(2) by simp
  note IH = Cons.IH [OF set_elem_layout [OF Cons.prems(1) i] sub f]
  show ?case
    using IH set_elem_table [OF Cons.prems(1) i] elem_set_elem [OF Cons.prems(1) i] by auto
qed simp

lemma block_loc:
  assumes "b \<le> sc_blocks sc" "m < 64"
  shows "elem_loc h sc (b * 64 + m) = (if b < sc_blocks sc then get_block h sc b else tab_idx sc, m)"
  using assms by (auto simp: elem_loc_def Let_def kClockCount_def)

lemma range_for_flat:
  assumes "layout_ok h sc" "b \<le> sc_blocks sc" "m \<le> 64" "b * 64 + m \<le> sc_size sc"
    and "idx = (if b < sc_blocks sc then get_block h sc b else tab_idx sc)"
  shows "fold (\<lambda>k (h, s). let (e, s') = body (b * 64 + k) (read_elem h idx k) s in (write_elem idx k e h, s')) [0..<m] (h, s)
    = fold (flat_step body sc) [b * 64..<b * 64 + m] (h, s)"
  using assms(3,4)
proof (induction m)
  case (Suc m)
  obtain h' s' where f: "fold (flat_step body sc) [b * 64..<b * 64 + m] (h, s) = (h', s')"
    by (metis surj_pair)
  have sub: "set [b * 64..<b * 64 + m] \<subseteq> {..<sc_size sc}" using Suc.prems by auto
  have "get_block h' sc b = get_block h sc b" if "b < sc_blocks sc"
    using flat_fold_frame [OF assms(1) sub f] that by blast
  then have loc: "elem_loc h' sc (b * 64 + m) = (idx, m)"
    using block_loc [OF assms(2), of m h'] Suc.prems assms(5) by simp
  show ?case
    using Suc f loc by (simp add: flat_step_pair elem_def set_elem_def)
qed simp

lemma clock_for_from_flat:
  assumes "layout_ok h sc" "sc_size sc \<noteq> 0" "i = min (b * 64) (sc_size sc)"
  shows "clock_for_from body sc b i (h, s) = fold (flat_step body sc) [i..<sc_size sc] (h, s)"
  using assms
proof (induction "sc_blocks sc + 1 - b" arbitrary: b i h s rule: less_induct)
  case less
  have lay: "sc_size sc \<le> sc_blocks sc * 64 + 63" "sc_blocks sc \<noteq> 0 \<Longrightarrow> (sc_blocks sc - 1) * 64 < sc_size sc"
    using less.prems by (auto simp: layout_ok_def capacity_def kClockCount_def split: if_splits)
  consider (second) "b < sc_blocks sc" | (first) "b = sc_blocks sc" "sc_size sc > b * 64"
    | (fin) "b \<ge> sc_blocks sc" "sc_size sc \<le> b * 64"
    using lay(1) by linarith
  then show ?case
  proof cases
    case fin
    then have "next_range h sc b = None" by (auto simp: next_range_def Let_def kClockCount_def)
    then show ?thesis
      using less.prems(3) fin by (simp add: clock_for_from.simps [of body sc b])
  next
    case second
    then have "b * 64 \<le> (sc_blocks sc - 1) * 64" by simp
    then have lt: "b * 64 < sc_size sc" using lay(2) second by linarith
    define n where "n = min (sc_size sc - b * 64) 64"
    have i: "i = b * 64" "1 \<le> n" "n \<le> 64" "b * 64 + n \<le> sc_size sc" "i + n = min (Suc b * 64) (sc_size sc)"
      using less.prems(3) lt by (auto simp: n_def)
    have nr: "next_range h sc b = Some (get_block h sc b, n)"
      using second lt by (simp add: next_range_def Let_def kClockCount_def n_def)
    obtain h' s' where f: "fold (flat_step body sc) [b * 64..<b * 64 + n] (h, s) = (h', s')" by (metis surj_pair)
    have "range_for body i (get_block h sc b) n (h, s) = (h', s')"
      using range_for_flat [OF less.prems(1) _ i(3,4), of "get_block h sc b" body s] second i(1,2) f
      by (simp add: range_for_def max_absorb2)
    then have step: "clock_for_from body sc b i (h, s) = clock_for_from body sc (Suc b) (i + n) (h', s')"
      using nr i(2) by (simp add: clock_for_from.simps [of body sc b] max_absorb2)
    have sub: "set [b * 64..<b * 64 + n] \<subseteq> {..<sc_size sc}" using i(4) by auto
    have "clock_for_from body sc (Suc b) (i + n) (h', s') = fold (flat_step body sc) [i + n..<sc_size sc] (h', s')"
      using flat_fold_frame [OF less.prems(1) sub f] second i(5) less.prems(2) by (intro less.hyps) auto
    moreover have "[i..<sc_size sc] = [i..<i + n] @ [i + n..<sc_size sc]"
      using i by (metis le_add1 upt_add_eq_append le_add_diff_inverse)
    ultimately show ?thesis using step f i(1) by simp
  next
    case first
    define n where "n = sc_size sc - b * 64"
    have i: "i = b * 64" "1 \<le> n" "n \<le> 64" "b * 64 + n = sc_size sc"
      using less.prems(3) first lay(1) by (auto simp: n_def)
    have nr: "next_range h sc b = Some (tab_idx sc, n)"
      using first i(3) by (simp add: next_range_def Let_def kClockCount_def n_def)
    obtain h' s' where f: "fold (flat_step body sc) [b * 64..<b * 64 + n] (h, s) = (h', s')" by (metis surj_pair)
    have "range_for body i (tab_idx sc) n (h, s) = (h', s')"
      using range_for_flat [OF less.prems(1) _ i(3), of b "tab_idx sc" body s] first i f
      by (simp add: range_for_def max_absorb2)
    then have "clock_for_from body sc b i (h, s) = clock_for_from body sc (Suc b) (i + n) (h', s')"
      using nr i(2) by (simp add: clock_for_from.simps [of body sc b] max_absorb2)
    also have "\<dots> = (h', s')"
      using first by (subst clock_for_from.simps) (simp add: next_range_def Let_def)
    finally show ?thesis using f i by simp
  qed
qed

lemma clock_for_flat:
  assumes "layout_ok h sc"
  shows "clock_for body sc (h, s) = fold (flat_step body sc) [0..<sc_size sc] (h, s)"
proof (cases "sc_size sc = 0")
  case True
  then show ?thesis
    using assms by (simp add: clock_for_def clock_for_from.simps [of body sc 0] next_range_def layout_ok_def Let_def)
next
  case False
  then show ?thesis using clock_for_from_flat [OF assms False, of 0 0] by (simp add: clock_for_def)
qed

lemma flat_fold_upt:
  assumes "layout_ok h sc" "n \<le> sc_size sc"
    and "fold (flat_step body sc) [0..<n] (h, s) = (h', s')"
  shows "layout_ok h' sc \<and> (\<forall>b < sc_blocks sc. get_block h' sc b = get_block h sc b) \<and>
    s' = fold (\<lambda>i s. snd (body i (elem h sc i) s)) [0..<n] s \<and>
    (\<forall>i < sc_size sc. elem h' sc i =
      (if i < n then norm_elem (fst (body i (elem h sc i) (fold (\<lambda>i s. snd (body i (elem h sc i) s)) [0..<i] s)))
       else elem h sc i))"
  using assms(2,3)
proof (induction n arbitrary: h' s')
  case 0
  then show ?case using assms(1) by simp
next
  case (Suc n)
  obtain h1 s1 where f: "fold (flat_step body sc) [0..<n] (h, s) = (h1, s1)" by (metis surj_pair)
  have IH: "layout_ok h1 sc" "\<forall>b < sc_blocks sc. get_block h1 sc b = get_block h sc b"
    "s1 = fold (\<lambda>i s. snd (body i (elem h sc i) s)) [0..<n] s"
    "\<forall>i < sc_size sc. elem h1 sc i =
      (if i < n then norm_elem (fst (body i (elem h sc i) (fold (\<lambda>i s. snd (body i (elem h sc i) s)) [0..<i] s)))
       else elem h sc i)"
    using Suc.IH [OF _ f] Suc.prems(1) by auto
  have n: "n < sc_size sc" using Suc.prems(1) by simp
  obtain e s2 where b: "body n (elem h sc n) s1 = (e, s2)" by (metis surj_pair)
  have "h' = set_elem sc n e h1" "s' = s2"
    using Suc.prems(2) f b IH(4) n by (auto simp: flat_step_pair)
  then show ?case
    using set_elem_layout [OF IH(1) n] set_elem_table [OF IH(1) n] elem_set_elem [OF IH(1) n] IH b n
    by (auto simp: less_Suc_eq)
qed

text \<open>A loop over a clock visits element 0, 1, 2, ... once each, and replaces it by what the body gives.\<close>

lemma clock_for_spec:
  assumes "layout_ok h sc" "clock_for body sc (h, s) = (h', s')"
  shows "layout_ok h' sc \<and> (\<forall>b < sc_blocks sc. get_block h' sc b = get_block h sc b) \<and>
    s' = fold (\<lambda>i s. snd (body i (elem h sc i) s)) [0..<sc_size sc] s \<and>
    (\<forall>i < sc_size sc. elem h' sc i =
       norm_elem (fst (body i (elem h sc i) (fold (\<lambda>i s. snd (body i (elem h sc i) s)) [0..<i] s))))"
proof -
  have "fold (flat_step body sc) [0..<sc_size sc] (h, s) = (h', s')"
    using assms(2) clock_for_flat [OF assms(1), of body s] by simp
  from flat_fold_upt [OF assms(1) order.refl this] show ?thesis by simp
qed

end
