(* ===== verification/ClockProperties.thy ===== *)
theory ClockProperties
  imports ThreadClock SyncClockLayout
begin

text \<open>
  What the operations of a thread's clock compute, in terms of the value of a synchronisation
  clock: the clock of the comment at the head of \<open>tsan_clock.cpp\<close>, where acquire and release are
  pointwise maxima.
\<close>

section \<open>The value of a synchronisation clock\<close>

definition sync_value :: "clk_heap \<Rightarrow> sync_clock \<Rightarrow> nat \<Rightarrow> u64" where
  "sync_value h sc t = (if t < sc_size sc then SyncClock_get h sc t else 0)"

definition sync_ok :: "clk_heap \<Rightarrow> sync_clock \<Rightarrow> bool" where
  "sync_ok h sc \<longleftrightarrow> layout_ok h sc \<and> sc_size sc \<le> kMaxTid \<and>
     (\<exists>d0 d1. sc_dirty sc = [d0, d1] \<and>
        (dt_tid d0 = dt_tid d1 \<longrightarrow> dt_tid d0 = kInvalidTid) \<and>
        (dt_tid d0 = kInvalidTid \<longrightarrow> dt_tid d1 = kInvalidTid) \<and>
        (\<forall>d \<in> {d0, d1}. dt_tid d \<noteq> kInvalidTid \<longrightarrow>
           dt_tid d < sc_size sc \<and> ce_epoch (elem h sc (dt_tid d)) \<le> dt_epoch d \<and>
           dt_epoch d AND mask kClkBits = dt_epoch d))"

lemma size_not_invalid: "t < kMaxTid \<Longrightarrow> t \<noteq> kInvalidTid"
  by (simp add: kInvalidTid_def)

lemma sync_value_cases:
  assumes "sync_ok h sc" "t < sc_size sc"
  shows "sync_value h sc t =
    (if dt_tid (sc_dirty sc ! 0) = t then dt_epoch (sc_dirty sc ! 0)
     else if dt_tid (sc_dirty sc ! 1) = t then dt_epoch (sc_dirty sc ! 1)
     else ce_epoch (elem h sc t))"
  using assms by (auto simp: sync_value_def SyncClock_get_def sync_ok_def)

text \<open>A dirty entry is never older than the element it overrides.\<close>

lemma clean_le_value:
  assumes "sync_ok h sc" "t < sc_size sc"
  shows "ce_epoch (elem h sc t) \<le> sync_value h sc t"
  using assms sync_value_cases [OF assms] size_not_invalid [of t]
  by (auto simp: sync_ok_def)

section \<open>Acquire\<close>

definition join :: "(nat \<Rightarrow> u64) \<Rightarrow> (nat \<Rightarrow> u64) \<Rightarrow> nat \<Rightarrow> u64" where
  "join f g t = max (f t) (g t)"

definition edge :: "thread_clock \<Rightarrow> nat \<Rightarrow> u64 \<Rightarrow> log_line" where
  "edge tc t e = log_happens_before_edge (of_nat t) e (of_nat (tc_tid tc)) (own_epoch tc)"

lemma acquire_elem_unfold:
  "acquire_elem t e (tc, a, out) =
     (tc\<lparr>tc_clk := (tc_clk tc)(t := max (tc_clk tc t) e)\<rparr>, a \<or> tc_clk tc t < e,
      out @ (if tc_clk tc t < e \<and> prd_trace tc \<and> tc_tid tc \<noteq> t then [edge tc t e] else []))"
proof (cases "tc_clk tc t < e")
  case True
  then have "max (tc_clk tc t) e = e" by simp
  then show ?thesis using True by (simp add: acquire_elem_def edge_def)
next
  case False
  then have "max (tc_clk tc t) e = tc_clk tc t" by simp
  then show ?thesis using False by (simp add: acquire_elem_def)
qed

lemma acquire_fold:
  assumes "f (tc_tid tc) \<le> own_epoch tc"
  shows "fold (\<lambda>i. acquire_elem i (f i)) [0..<n] (tc, a, out) =
    (tc\<lparr>tc_clk := (\<lambda>t. if t < n then max (tc_clk tc t) (f t) else tc_clk tc t)\<rparr>,
     a \<or> (\<exists>t<n. tc_clk tc t < f t),
     out @ map (\<lambda>t. edge tc t (f t)) (filter (\<lambda>t. tc_clk tc t < f t \<and> prd_trace tc \<and> tc_tid tc \<noteq> t) [0..<n]))"
proof (induction n)
  case (Suc n)
  let ?tc = "tc\<lparr>tc_clk := (\<lambda>t. if t < n then max (tc_clk tc t) (f t) else tc_clk tc t)\<rparr>"
  have own: "own_epoch ?tc = own_epoch tc"
    using assms by (simp add: own_epoch_def max_absorb1)
  have e: "edge ?tc n (f n) = edge tc n (f n)" using own by (simp add: edge_def)
  have c: "(\<lambda>t. if t < n then max (tc_clk tc t) (f t) else tc_clk tc t)(n := max (tc_clk tc n) (f n)) =
      (\<lambda>t. if t < Suc n then max (tc_clk tc t) (f t) else tc_clk tc t)"
    by (auto simp: fun_eq_iff less_Suc_eq)
  show ?case
    by (auto simp: Suc acquire_elem_unfold e c less_Suc_eq)
qed simp

text \<open>The lines for the elements in a set, each once.\<close>

definition edges :: "thread_clock \<Rightarrow> (nat \<Rightarrow> u64) \<Rightarrow> nat set \<Rightarrow> log_line multiset" where
  "edges tc f A = image_mset (\<lambda>t. edge tc t (f t))
     (mset_set {t \<in> A. tc_clk tc t < f t \<and> prd_trace tc \<and> tc_tid tc \<noteq> t})"

lemma edges_Un:
  assumes "finite A" "finite B" "A \<inter> B = {}"
  shows "edges tc f (A \<union> B) = edges tc f A + edges tc f B"
proof -
  let ?P = "\<lambda>t. tc_clk tc t < f t \<and> prd_trace tc \<and> tc_tid tc \<noteq> t"
  have "{t \<in> A \<union> B. ?P t} = {t \<in> A. ?P t} \<union> {t \<in> B. ?P t}" by auto
  moreover have "mset_set ({t \<in> A. ?P t} \<union> {t \<in> B. ?P t}) = mset_set {t \<in> A. ?P t} + mset_set {t \<in> B. ?P t}"
    using assms by (intro mset_set_Union) auto
  ultimately show ?thesis by (simp add: edges_def)
qed

lemma edges_cong:
  assumes "finite A" "\<And>t. t \<in> A \<Longrightarrow> f t = g t"
  shows "edges tc f A = edges tc g A"
proof -
  have s: "{t \<in> A. tc_clk tc t < f t \<and> prd_trace tc \<and> tc_tid tc \<noteq> t} =
      {t \<in> A. tc_clk tc t < g t \<and> prd_trace tc \<and> tc_tid tc \<noteq> t}"
    using assms(2) by auto
  show ?thesis
    unfolding edges_def s by (rule image_mset_cong) (use assms in auto)
qed

lemma edges_single: "edges tc f {t} = (if tc_clk tc t < f t \<and> prd_trace tc \<and> tc_tid tc \<noteq> t then {#edge tc t (f t)#} else {#})"
proof -
  have "{s \<in> {t}. tc_clk tc s < f s \<and> prd_trace tc \<and> tc_tid tc \<noteq> s} =
      (if tc_clk tc t < f t \<and> prd_trace tc \<and> tc_tid tc \<noteq> t then {t} else {})" by auto
  then show ?thesis by (simp add: edges_def)
qed

lemma edges_empty: "edges tc f {} = {#}"
  by (simp add: edges_def)

definition dirty_tids :: "sync_clock \<Rightarrow> nat set" where
  "dirty_tids sc = {t. t \<noteq> kInvalidTid \<and> (\<exists>d \<in> set (sc_dirty sc). dt_tid d = t)}"

lemma finite_dirty_tids [simp]: "finite (dirty_tids sc)"
  by (rule finite_subset [of _ "dt_tid ` set (sc_dirty sc)"]) (auto simp: dirty_tids_def)

lemma dirty_tids_less: "sync_ok h sc \<Longrightarrow> t \<in> dirty_tids sc \<Longrightarrow> t < sc_size sc"
  by (auto simp: sync_ok_def dirty_tids_def)

lemma not_dirty_value: "sync_ok h sc \<Longrightarrow> t < sc_size sc \<Longrightarrow> t \<notin> dirty_tids sc \<Longrightarrow> sync_value h sc t = ce_epoch (elem h sc t)"
  using sync_value_cases [of h sc t] size_not_invalid [of t] by (auto simp: sync_ok_def dirty_tids_def)

lemma acquire_dirty_effect:
  assumes ok: "sync_ok h sc" and own: "sync_value h sc (tc_tid tc) \<le> own_epoch tc"
  shows "\<exists>out. acquire_dirty sc (tc, False, []) =
      (tc\<lparr>tc_clk := (\<lambda>t. if t \<in> dirty_tids sc then max (tc_clk tc t) (sync_value h sc t) else tc_clk tc t)\<rparr>,
       \<exists>t \<in> dirty_tids sc. tc_clk tc t < sync_value h sc t, out) \<and>
    mset out = edges tc (sync_value h sc) (dirty_tids sc)"
proof -
  obtain d0 d1 where d: "sc_dirty sc = [d0, d1]" "dt_tid d0 = dt_tid d1 \<longrightarrow> dt_tid d0 = kInvalidTid"
    using ok by (auto simp: sync_ok_def)
  let ?a0 = "dt_tid d0 \<noteq> kInvalidTid" and ?a1 = "dt_tid d1 \<noteq> kInvalidTid"
  have v0: "sync_value h sc (dt_tid d0) = dt_epoch d0" if ?a0
    using sync_value_cases [OF ok, of "dt_tid d0"] that ok d by (auto simp: sync_ok_def)
  have v1: "sync_value h sc (dt_tid d1) = dt_epoch d1" if ?a1
    using sync_value_cases [OF ok, of "dt_tid d1"] that ok d by (auto simp: sync_ok_def)
  have D: "dirty_tids sc = (if ?a0 then {dt_tid d0} else {}) \<union> (if ?a1 then {dt_tid d1} else {})"
    by (auto simp: dirty_tids_def d)
  let ?tc0 = "tc\<lparr>tc_clk := (tc_clk tc)(dt_tid d0 := max (tc_clk tc (dt_tid d0)) (dt_epoch d0))\<rparr>"
  have own0: "own_epoch ?tc0 = own_epoch tc" if ?a0
    using own v0 [OF that] by (auto simp: own_epoch_def max_absorb1)
  have e0: "edge ?tc0 (dt_tid d1) x = edge tc (dt_tid d1) x" if ?a0 for x
    using own0 [OF that] by (simp add: edge_def)
  show ?thesis
  proof (cases ?a0; cases ?a1)
    assume a: ?a0 ?a1
    then have ne: "dt_tid d0 \<noteq> dt_tid d1" using d(2) by auto
    have D': "dirty_tids sc = {dt_tid d0} \<union> {dt_tid d1}" using D a by simp
    have c: "(tc_clk tc)(dt_tid d0 := max (tc_clk tc (dt_tid d0)) (dt_epoch d0), dt_tid d1 := max (tc_clk tc (dt_tid d1)) (dt_epoch d1))
      = (\<lambda>t. if t \<in> dirty_tids sc then max (tc_clk tc t) (sync_value h sc t) else tc_clk tc t)"
      using a ne v0 v1 D' by (auto simp: fun_eq_iff)
    have e: "edges tc (sync_value h sc) (dirty_tids sc) =
        edges tc (sync_value h sc) {dt_tid d0} + edges tc (sync_value h sc) {dt_tid d1}"
      unfolding D' using ne by (intro edges_Un) auto
    show ?thesis
      using a ne v0 v1 e0 by (simp add: acquire_dirty_def d(1) acquire_elem_unfold c [symmetric] e edges_single) (auto simp: D')
  next
    assume a: ?a0 "\<not> ?a1"
    then have D': "dirty_tids sc = {dt_tid d0}" using D by simp
    have c: "(tc_clk tc)(dt_tid d0 := max (tc_clk tc (dt_tid d0)) (dt_epoch d0))
      = (\<lambda>t. if t \<in> dirty_tids sc then max (tc_clk tc t) (sync_value h sc t) else tc_clk tc t)"
      using a v0 D' by (auto simp: fun_eq_iff)
    show ?thesis
      using a v0 by (simp add: acquire_dirty_def d(1) acquire_elem_unfold c [symmetric]) (simp add: D' edges_single)
  next
    assume a: "\<not> ?a0" ?a1
    then have D': "dirty_tids sc = {dt_tid d1}" using D by simp
    have c: "(tc_clk tc)(dt_tid d1 := max (tc_clk tc (dt_tid d1)) (dt_epoch d1))
      = (\<lambda>t. if t \<in> dirty_tids sc then max (tc_clk tc t) (sync_value h sc t) else tc_clk tc t)"
      using a v1 D' by (auto simp: fun_eq_iff)
    show ?thesis
      using a v1 by (simp add: acquire_dirty_def d(1) acquire_elem_unfold c [symmetric]) (simp add: D' edges_single)
  next
    assume a: "\<not> ?a0" "\<not> ?a1"
    then have "dirty_tids sc = {}" using D by simp
    then show ?thesis
      using a by (simp add: acquire_dirty_def d(1) edges_empty)
  qed
qed

lemma elem_norm: "norm_elem (elem h sc t) = elem h sc t"
  by (simp add: elem_def split: prod.split)

lemma finish_acquire_sel:
  assumes "finish_acquire a tc h = Some (tc', h')"
  shows "tc_clk tc' = tc_clk tc" "last_acquire tc' = (if a then own_epoch tc else last_acquire tc)"
    "tc_tid tc' = tc_tid tc" "tc_reused tc' = tc_reused tc" "tc_nclk tc' = tc_nclk tc" "prd_trace tc' = prd_trace tc"
    "global_acquire tc' = global_acquire tc"
  using assms by (auto simp: finish_acquire_def ResetCached_def split: if_splits bind_splits)

lemma acquire_full_effect:
  assumes ok: "sync_ok h src" and own: "sync_value h src (tc_tid tc) \<le> own_epoch tc"
    and d: "acquire_dirty src (tc, False, []) = (tc1, acq1, out1)"
    and loop: "clock_for (\<lambda>i e s. (e, acquire_elem i (ce_epoch e) s)) src (h, tc1\<lparr>tc_nclk := n\<rparr>, acq1, out1) = (h2, tc2, acq2, out2)"
  shows "tc_clk tc2 = join (tc_clk tc) (sync_value h src)"
    and "acq2 = (\<exists>t. tc_clk tc t < sync_value h src t)"
    and "mset out2 = edges tc (sync_value h src) {..<sc_size src}"
    and "tc2 = tc1\<lparr>tc_nclk := n, tc_clk := tc_clk tc2\<rparr>"
    and "layout_ok h2 src" "\<forall>t < sc_size src. elem h2 src t = elem h src t"
proof -
  have lay: "layout_ok h src" using ok by (simp add: sync_ok_def)
  let ?v = "sync_value h src" and ?f = "\<lambda>i. ce_epoch (elem h src i)" and ?N = "sc_size src"
  from acquire_dirty_effect [OF ok own] d
  have tc1: "tc1 = tc\<lparr>tc_clk := (\<lambda>t. if t \<in> dirty_tids src then max (tc_clk tc t) (?v t) else tc_clk tc t)\<rparr>"
    and acq1: "acq1 = (\<exists>t \<in> dirty_tids src. tc_clk tc t < ?v t)"
    and out1: "mset out1 = edges tc ?v (dirty_tids src)" by auto
  note S = clock_for_spec [OF lay loop]
  have own1: "own_epoch (tc1\<lparr>tc_nclk := n\<rparr>) = own_epoch tc"
    using own by (auto simp: own_epoch_def tc1 max_absorb1)
  have small: "?f i \<le> ?v i" if "i < ?N" for i using clean_le_value [OF ok that] .
  define g where "g i = (if i < ?N then ?f i else 0)" for i
  have "?f (tc_tid tc) \<le> own_epoch tc" if "tc_tid tc < ?N" using small [OF that] own by (rule order.trans)
  then have g_own: "g (tc_tid (tc1\<lparr>tc_nclk := n\<rparr>)) \<le> own_epoch (tc1\<lparr>tc_nclk := n\<rparr>)"
    unfolding own1 by (simp add: g_def tc1)
  have "fold (\<lambda>i. acquire_elem i (?f i)) [0..<?N] s = fold (\<lambda>i. acquire_elem i (g i)) [0..<?N] s" for s
    by (intro fold_cong) (auto simp: g_def)
  then have r: "(tc2, acq2, out2) = fold (\<lambda>i. acquire_elem i (g i)) [0..<?N] (tc1\<lparr>tc_nclk := n\<rparr>, acq1, out1)"
    using S by simp
  note F = r [unfolded acquire_fold [where f = g, OF g_own]]
  have gN: "g t = (if t < ?N then ?f t else 0)" for t by (simp add: g_def)
  have val: "max (tc_clk tc1 t) (g t) = max (tc_clk tc t) (?v t)" for t
  proof (cases "t < ?N")
    case True
    show ?thesis
    proof (cases "t \<in> dirty_tids src")
      case True
      then show ?thesis using small [OF \<open>t < ?N\<close>] \<open>t < ?N\<close>
        by (simp add: tc1 gN max.absorb1 le_max_iff_disj)
    next
      case False
      then show ?thesis using not_dirty_value [OF ok \<open>t < ?N\<close> False] \<open>t < ?N\<close> by (simp add: tc1 gN)
    qed
  next
    case False
    then have "t \<notin> dirty_tids src" using dirty_tids_less [OF ok] by blast
    then show ?thesis using False by (simp add: tc1 gN sync_value_def)
  qed
  have out_N: "max (tc_clk tc1 t) 0 = tc_clk tc1 t" for t by (simp add: max_def)
  show clk: "tc_clk tc2 = join (tc_clk tc) ?v"
  proof
    fix t
    have "tc_clk tc2 t = max (tc_clk tc1 t) (g t)"
      using F by (auto simp: gN out_N)
    then show "tc_clk tc2 t = join (tc_clk tc) ?v t" using val by (simp add: join_def)
  qed
  show "tc2 = tc1\<lparr>tc_nclk := n, tc_clk := tc_clk tc2\<rparr>" using F by simp
  show "layout_ok h2 src" "\<forall>t < ?N. elem h2 src t = elem h src t"
    using S by (simp_all add: elem_norm)
  have adv: "tc_clk tc1 t < g t \<longleftrightarrow> t \<notin> dirty_tids src \<and> tc_clk tc t < ?v t" if "t < ?N" for t
  proof (cases "t \<in> dirty_tids src")
    case True
    then show ?thesis using small [OF that] that by (auto simp: tc1 gN not_less le_max_iff_disj)
  next
    case False
    then show ?thesis using not_dirty_value [OF ok that False] that by (simp add: tc1 gN)
  qed
  have "acq2 = (acq1 \<or> (\<exists>t<?N. tc_clk tc1 t < g t))" using F by simp
  also have "\<dots> = (\<exists>t. tc_clk tc t < ?v t)"
    using adv dirty_tids_less [OF ok] by (auto simp: acq1) (metis not_less_zero sync_value_def word_not_simps(1))
  finally show "acq2 = (\<exists>t. tc_clk tc t < ?v t)" .
  have e: "edge (tc1\<lparr>tc_nclk := n\<rparr>) t x = edge tc t x" for t x
    using own1 by (simp add: edge_def tc1)
  have "mset out2 = mset out1 + mset (map (\<lambda>t. edge tc t (g t))
      (filter (\<lambda>t. tc_clk tc1 t < g t \<and> prd_trace tc \<and> tc_tid tc \<noteq> t) [0..<?N]))"
    using F by (simp add: e) (simp add: tc1)
  also have "mset (map (\<lambda>t. edge tc t (g t)) (filter (\<lambda>t. tc_clk tc1 t < g t \<and> prd_trace tc \<and> tc_tid tc \<noteq> t) [0..<?N]))
      = edges tc ?v ({..<?N} - dirty_tids src)"
  proof -
    have "mset (filter (\<lambda>t. tc_clk tc1 t < g t \<and> prd_trace tc \<and> tc_tid tc \<noteq> t) [0..<?N]) =
        mset_set {t \<in> {..<?N} - dirty_tids src. tc_clk tc t < ?v t \<and> prd_trace tc \<and> tc_tid tc \<noteq> t}"
    proof -
      have "filter_mset (\<lambda>t. tc_clk tc1 t < g t \<and> prd_trace tc \<and> tc_tid tc \<noteq> t) (mset_set {0..<?N}) =
          mset_set {t \<in> {0..<?N}. tc_clk tc1 t < g t \<and> prd_trace tc \<and> tc_tid tc \<noteq> t}"
        by (rule filter_mset_mset_set) simp
      also have "{t \<in> {0..<?N}. tc_clk tc1 t < g t \<and> prd_trace tc \<and> tc_tid tc \<noteq> t} =
          {t \<in> {..<?N} - dirty_tids src. tc_clk tc t < ?v t \<and> prd_trace tc \<and> tc_tid tc \<noteq> t}"
        using adv by auto
      finally show ?thesis by simp
    qed
    then show ?thesis
      unfolding edges_def using not_dirty_value [OF ok] by (auto simp: gN intro!: image_mset_cong)
  qed
  also have "mset out1 + edges tc ?v ({..<?N} - dirty_tids src) = edges tc ?v (dirty_tids src \<union> ({..<?N} - dirty_tids src))"
    unfolding out1 by (rule edges_Un [symmetric]) auto
  also have "dirty_tids src \<union> ({..<?N} - dirty_tids src) = {..<?N}" using dirty_tids_less [OF ok] by auto
  finally show "mset out2 = edges tc ?v {..<?N}" .
qed

section \<open>Flushing\<close>

lemma loc_cong [simp]:
  "elem h (sc\<lparr>sc_dirty := D\<rparr>) = elem h sc" "elem h (sc\<lparr>release_store_tid := x\<rparr>) = elem h sc"
  "elem h (sc\<lparr>release_store_reused := y\<rparr>) = elem h sc"
  "layout_ok h (sc\<lparr>sc_dirty := D\<rparr>) = layout_ok h sc" "layout_ok h (sc\<lparr>release_store_tid := x\<rparr>) = layout_ok h sc"
  "layout_ok h (sc\<lparr>release_store_reused := y\<rparr>) = layout_ok h sc"
proof -
  have b: "get_block h (sc\<lparr>sc_dirty := D\<rparr>) = get_block h sc" "get_block h (sc\<lparr>release_store_tid := x\<rparr>) = get_block h sc"
    "get_block h (sc\<lparr>release_store_reused := y\<rparr>) = get_block h sc"
    by (simp_all add: get_block_def fun_eq_iff)
  show "elem h (sc\<lparr>sc_dirty := D\<rparr>) = elem h sc" "elem h (sc\<lparr>release_store_tid := x\<rparr>) = elem h sc"
    "elem h (sc\<lparr>release_store_reused := y\<rparr>) = elem h sc"
    by (simp_all add: elem_def elem_loc_def Let_def b fun_eq_iff)
  show "layout_ok h (sc\<lparr>sc_dirty := D\<rparr>) = layout_ok h sc" "layout_ok h (sc\<lparr>release_store_tid := x\<rparr>) = layout_ok h sc"
    "layout_ok h (sc\<lparr>release_store_reused := y\<rparr>) = layout_ok h sc"
    by (simp_all add: layout_ok_def capacity_def b)
qed

lemma value_cong [simp]:
  "sync_value h (sc\<lparr>release_store_tid := x\<rparr>) = sync_value h sc" "sync_ok h (sc\<lparr>release_store_tid := x\<rparr>) = sync_ok h sc"
  "sync_value h (sc\<lparr>release_store_reused := y\<rparr>) = sync_value h sc" "sync_ok h (sc\<lparr>release_store_reused := y\<rparr>) = sync_ok h sc"
  by (simp_all add: sync_value_def SyncClock_get_def sync_ok_def fun_eq_iff cong: option.case_cong)

definition clean :: "sync_clock \<Rightarrow> sync_clock" where
  "clean sc = sc\<lparr>sc_dirty := map (\<lambda>d. d\<lparr>dt_tid := kInvalidTid\<rparr>) (sc_dirty sc)\<rparr>"

lemma clean_ok: "sync_ok h sc \<Longrightarrow> layout_ok h' sc \<Longrightarrow> sync_ok h' (clean sc)"
  by (auto simp: sync_ok_def clean_def)

lemma clean_value: "sync_ok h sc \<Longrightarrow> sync_value h' (clean sc) t = (if t < sc_size sc then ce_epoch (elem h' sc t) else 0)"
  using size_not_invalid [of t] by (auto simp: sync_ok_def sync_value_def SyncClock_get_def clean_def)

lemma masked: "x < 2 ^ 42 \<Longrightarrow> x AND mask kClkBits = (x :: u64)"
  unfolding kClkBits_def
  by (simp add: word_unat_eq_iff unat_and_mask word_less_nat_alt)

lemma clean_epoch_masked: "ce_epoch (elem h sc t) AND mask kClkBits = ce_epoch (elem h sc t)"
proof -
  have "ce_epoch (norm_elem (elem h sc t)) = ce_epoch (elem h sc t)" by (simp add: elem_norm)
  then show ?thesis by (simp add: norm_elem_def)
qed

lemma flush_effect:
  assumes ok: "sync_ok h sc"
  shows "\<exists>h'. FlushDirty sc h = Some (clean sc, h') \<and> layout_ok h' sc \<and>
    (\<forall>t < sc_size sc. elem h' sc t = (elem h sc t)\<lparr>ce_epoch := sync_value h sc t\<rparr>)"
proof -
  obtain d0 d1 where d: "sc_dirty sc = [d0, d1]" and lay: "layout_ok h sc" "sc_size sc \<le> kMaxTid"
    and same: "dt_tid d0 = dt_tid d1 \<longrightarrow> dt_tid d0 = kInvalidTid"
    and ds: "\<forall>d \<in> {d0, d1}. dt_tid d \<noteq> kInvalidTid \<longrightarrow> dt_tid d < sc_size sc \<and> dt_epoch d AND mask kClkBits = dt_epoch d"
    using ok by (auto simp: sync_ok_def)
  have nE: "norm_elem ((elem h2 sc2 t)\<lparr>ce_epoch := e\<rparr>) = (elem h2 sc2 t)\<lparr>ce_epoch := e AND mask kClkBits\<rparr>" for h2 sc2 t e
  proof -
    have "ce_reused (norm_elem (elem h2 sc2 t)) = ce_reused (elem h2 sc2 t)" by (simp add: elem_norm)
    then have "ce_reused (elem h2 sc2 t) AND mask (64 - kClkBits) = ce_reused (elem h2 sc2 t)" by (simp add: norm_elem_def)
    then show ?thesis by (cases "elem h2 sc2 t") (simp add: norm_elem_def)
  qed
  define h1 where "h1 = (if dt_tid d0 \<noteq> kInvalidTid then set_elem sc (dt_tid d0) ((elem h sc (dt_tid d0))\<lparr>ce_epoch := dt_epoch d0\<rparr>) h else h)"
  have l1: "layout_ok h1 sc" using lay(1) ds set_elem_layout by (auto simp: h1_def)
  have e1: "elem h1 sc t = (if dt_tid d0 = t then (elem h sc t)\<lparr>ce_epoch := dt_epoch d0\<rparr> else elem h sc t)" if "t < sc_size sc" for t
    using elem_set_elem [OF lay(1) _ that] ds that size_not_invalid [of t] lay(2) by (auto simp: h1_def nE)
  let ?sc1 = "if dt_tid d0 \<noteq> kInvalidTid then sc\<lparr>sc_dirty := [d0\<lparr>dt_tid := kInvalidTid\<rparr>, d1]\<rparr> else sc"
  define h2 where "h2 = (if dt_tid d1 \<noteq> kInvalidTid then set_elem sc (dt_tid d1) ((elem h1 sc (dt_tid d1))\<lparr>ce_epoch := dt_epoch d1\<rparr>) h1 else h1)"
  have l2: "layout_ok h2 sc" using l1 ds set_elem_layout by (auto simp: h2_def)
  have e2: "elem h2 sc t = (if dt_tid d1 = t then (elem h1 sc t)\<lparr>ce_epoch := dt_epoch d1\<rparr> else elem h1 sc t)" if "t < sc_size sc" for t
    using elem_set_elem [OF l1 _ that] ds that size_not_invalid [of t] lay(2) by (auto simp: h2_def nE)
  have se: "set_elem (sc\<lparr>sc_dirty := D\<rparr>) t e hh = set_elem sc t e hh" for D t e hh
    by (simp add: set_elem_def elem_loc_def get_block_def Let_def)
  have inv: "d\<lparr>dt_tid := kInvalidTid\<rparr> = d" if "dt_tid d = kInvalidTid" for d :: dirty
    using that by (cases d) simp
  have "FlushDirty sc h = Some (clean sc, h2)"
    using ds inv by (auto simp: FlushDirty_def Let_def d h1_def h2_def clean_def se)
  moreover have "elem h2 sc t = (elem h sc t)\<lparr>ce_epoch := sync_value h sc t\<rparr>" if "t < sc_size sc" for t
    using e1 [OF that] e2 [OF that] sync_value_cases [OF ok that] same size_not_invalid [of t] that lay(2)
    by (auto simp: d)
  ultimately show ?thesis using l2 by blast
qed

subsection \<open>Acquiring returns\<close>

text \<open>Writing elements keeps the counters of all blocks that hold no second-level part of the clock.\<close>

lemma set_elem_count:
  assumes "layout_ok h sc" "tid < sc_size sc" "idx \<notin> get_block h sc ` {..<sc_blocks sc}"
  shows "heap_word (set_elem sc tid e h) idx kRefIdx = heap_word h idx kRefIdx"
  using assms(1,2)
proof (cases rule: elem_loc_cases)
  case (second b)
  then show ?thesis using assms(3) by (auto simp: set_elem_def heap_word_write)
next
  case first
  then have "kRefIdx div 2 \<noteq> tid mod 64" by (auto simp: clock_consts)
  then show ?thesis using first by (simp add: set_elem_def heap_word_write)
qed

lemma flat_fold_count:
  assumes "layout_ok h sc" "set is \<subseteq> {..<sc_size sc}" "idx \<notin> get_block h sc ` {..<sc_blocks sc}"
  shows "heap_word (fst (fold (flat_step body sc) is (h, s))) idx kRefIdx = heap_word h idx kRefIdx"
  using assms
proof (induction "is" arbitrary: h s)
  case (Cons i "is")
  obtain e s1 where b: "body i (elem h sc i) s = (e, s1)" by (cases "body i (elem h sc i) s")
  have i: "i < sc_size sc" "set is \<subseteq> {..<sc_size sc}" using Cons.prems(2) by simp_all
  have "get_block (set_elem sc i e h) sc ` {..<sc_blocks sc} = get_block h sc ` {..<sc_blocks sc}"
    using set_elem_table [OF Cons.prems(1) i(1)] by auto
  then show ?case
    using Cons.IH [OF set_elem_layout [OF Cons.prems(1) i(1)] i(2)] Cons.prems(3)
      set_elem_count [OF Cons.prems(1) i(1) Cons.prems(3)] b by (simp add: flat_step_pair)
qed simp

lemma finish_acquire_returns:
  assumes "cached_idx tc \<noteq> 0 \<Longrightarrow> heap_word h (cached_idx tc) kRefIdx \<noteq> 0"
  shows "\<exists>tc' h'. finish_acquire a tc h = Some (tc', h')"
  using assms by (auto simp: finish_acquire_def ResetCached_def UnrefClockBlock_def Let_def)

text \<open>
  What the per-thread flag of a clock promises: everything but the dirty entries has been acquired
  by its thread before.
\<close>

definition flag_sound :: "thread_clock \<Rightarrow> clk_heap \<Rightarrow> sync_clock \<Rightarrow> bool" where
  "flag_sound tc h sc \<longleftrightarrow>
     (tc_tid tc < sc_size sc \<and> ce_reused (elem h sc (tc_tid tc)) = tc_reused tc \<longrightarrow>
        (\<forall>t < sc_size sc. ce_epoch (elem h sc t) \<le> tc_clk tc t))"

text \<open>The block a thread keeps for its next release is counted, and no second-level block of \<open>sc\<close>.\<close>

definition cached_ok :: "thread_clock \<Rightarrow> clk_heap \<Rightarrow> sync_clock \<Rightarrow> bool" where
  "cached_ok tc h sc \<longleftrightarrow>
     (cached_idx tc \<noteq> 0 \<longrightarrow> heap_word h (cached_idx tc) kRefIdx \<noteq> 0 \<and>
        cached_idx tc \<notin> get_block h sc ` {..<sc_blocks sc})"

lemma acquire_flagged_effect:
  assumes ok: "sync_ok h src" and own: "sync_value h src (tc_tid tc) \<le> own_epoch tc"
    and dom: "\<forall>t < sc_size src. ce_epoch (elem h src t) \<le> tc_clk tc t"
    and d: "acquire_dirty src (tc, False, []) = (tc1, acq1, out1)"
  shows "tc1 = tc\<lparr>tc_clk := join (tc_clk tc) (sync_value h src)\<rparr>"
    and "acq1 = (\<exists>t. tc_clk tc t < sync_value h src t)"
    and "mset out1 = edges tc (sync_value h src) {..<sc_size src}"
proof -
  let ?v = "sync_value h src" and ?D = "dirty_tids src"
  note E = acquire_dirty_effect [OF ok own] d
  have le: "?v t \<le> tc_clk tc t" if "t \<notin> ?D" for t
    using that not_dirty_value [OF ok, of t] dom by (cases "t < sc_size src") (auto simp: sync_value_def)
  have c: "(\<lambda>t. if t \<in> ?D then max (tc_clk tc t) (?v t) else tc_clk tc t) = join (tc_clk tc) ?v"
    using le by (auto simp: fun_eq_iff join_def max_absorb1)
  show "tc1 = tc\<lparr>tc_clk := join (tc_clk tc) ?v\<rparr>" using E unfolding c by auto
  show "acq1 = (\<exists>t. tc_clk tc t < ?v t)" using E le by (auto dest: leD)
  have "edges tc ?v {..<sc_size src} = edges tc ?v ?D"
  proof -
    have "{t \<in> {..<sc_size src}. tc_clk tc t < ?v t \<and> prd_trace tc \<and> tc_tid tc \<noteq> t} =
        {t \<in> ?D. tc_clk tc t < ?v t \<and> prd_trace tc \<and> tc_tid tc \<noteq> t}"
      using le dirty_tids_less [OF ok] by (auto dest: leD)
    then show ?thesis by (simp add: edges_def)
  qed
  then show "mset out1 = edges tc ?v {..<sc_size src}" using E by auto
qed

lemma acquire_effect:
  assumes ok: "sync_ok h src" and own: "sync_value h src (tc_tid tc) \<le> own_epoch tc"
    and flag: "flag_sound tc h src" and cache: "cached_ok tc h src"
  shows "\<exists>tc' h' out. acquire tc src h = Some (tc', h', out) \<and>
    tc_clk tc' = join (tc_clk tc) (sync_value h src) \<and>
    last_acquire tc' = (if \<exists>t. tc_clk tc t < sync_value h src t then own_epoch tc else last_acquire tc) \<and>
    mset out = edges tc (sync_value h src) {..<sc_size src}"
proof -
  let ?v = "sync_value h src"
  obtain tc1 acq1 out1 where d: "acquire_dirty src (tc, False, []) = (tc1, acq1, out1)"
    by (rule prod_cases3)
  have join_own: "join (tc_clk tc) ?v (tc_tid tc) = own_epoch tc"
    using own by (simp add: join_def own_epoch_def max_absorb1)
  consider (empty) "sc_size src = 0" | (flagged) "sc_size src \<noteq> 0" "tc_tid tc < sc_size src" "ce_reused (elem h src (tc_tid tc)) = tc_reused tc"
    | (full) "sc_size src \<noteq> 0" "tc_tid tc \<ge> sc_size src \<or> ce_reused (elem h src (tc_tid tc)) \<noteq> tc_reused tc" by linarith
  then show ?thesis
  proof cases
    case empty
    have "join (tc_clk tc) ?v = tc_clk tc" using empty by (simp add: fun_eq_iff join_def sync_value_def max_def)
    then show ?thesis using empty by (simp add: acquire_def edges_empty sync_value_def)
  next
    case flagged
    have dom: "\<forall>t < sc_size src. ce_epoch (elem h src t) \<le> tc_clk tc t"
      using flag flagged by (simp add: flag_sound_def)
    note E = acquire_flagged_effect [OF ok own dom d]
    obtain tc' h' where f: "finish_acquire acq1 tc1 h = Some (tc', h')"
      using finish_acquire_returns [of tc1 h acq1] cache by (auto simp: E(1) cached_ok_def)
    have "acquire tc src h = Some (tc', h', out1)"
      using flagged d f by (simp add: acquire_def Let_def)
    then show ?thesis
      using finish_acquire_sel [OF f] E join_own by (simp add: own_epoch_def)
  next
    case full
    obtain h2 tc2 acq2 out2 where loop: "clock_for (\<lambda>i e s. (e, acquire_elem i (ce_epoch e) s)) src
        (h, tc1\<lparr>tc_nclk := max (tc_nclk tc1) (sc_size src)\<rparr>, acq1, out1) = (h2, tc2, acq2, out2)"
      by (rule prod_cases4)
    note E = acquire_full_effect [OF ok own d loop]
    have lay: "layout_ok h src" using ok by (simp add: sync_ok_def)
    from acquire_dirty_effect [OF ok own] d have tc1: "cached_idx tc1 = cached_idx tc" "tc_tid tc1 = tc_tid tc" "tc_nclk tc1 = tc_nclk tc" by auto
    define h3 where "h3 = (if sc_size src > tc_tid tc
        then set_elem src (tc_tid tc) ((elem h2 src (tc_tid tc))\<lparr>ce_reused := tc_reused tc\<rparr>) h2 else h2)"
    have count: "heap_word h3 (cached_idx tc) kRefIdx = heap_word h (cached_idx tc) kRefIdx" if "cached_idx tc \<noteq> 0"
    proof -
      have c: "cached_idx tc \<notin> get_block h src ` {..<sc_blocks src}" using cache that by (simp add: cached_ok_def)
      have fl: "(h2, tc2, acq2, out2) = fold (flat_step (\<lambda>i e s. (e, acquire_elem i (ce_epoch e) s)) src) [0..<sc_size src]
          (h, tc1\<lparr>tc_nclk := max (tc_nclk tc1) (sc_size src)\<rparr>, acq1, out1)"
        by (rule trans [OF loop [symmetric] clock_for_flat [OF lay]])
      have r: "set [0..<sc_size src] \<subseteq> {..<sc_size src}" by auto
      have "heap_word h2 (cached_idx tc) kRefIdx = heap_word h (cached_idx tc) kRefIdx"
        by (subst arg_cong [OF fl, of fst, unfolded fst_conv]) (rule flat_fold_count [OF lay r c])
      moreover have "get_block h2 src ` {..<sc_blocks src} = get_block h src ` {..<sc_blocks src}"
        using clock_for_spec [OF lay loop] by auto
      ultimately show ?thesis using c set_elem_count [OF E(5)] by (auto simp: h3_def)
    qed
    have "cached_idx tc2 = cached_idx tc" "tc_tid tc2 = tc_tid tc"
      using arg_cong [OF E(4), of cached_idx] arg_cong [OF E(4), of tc_tid] tc1 by simp_all
    moreover from this obtain tc' h' where f: "finish_acquire acq2 tc2 h3 = Some (tc', h')"
      using finish_acquire_returns [of tc2 h3 acq2] cache count by (auto simp: cached_ok_def)
    moreover have "acquire tc src h = Some (tc', h', out2)"
    proof -
      have c: "(sc_size src \<le> tc_tid tc \<or> ce_reused (elem h src (tc_tid tc)) \<noteq> tc_reused tc) = True" using full by simp
      show ?thesis
        unfolding acquire_def Let_def d prod.case c if_True using full(1) loop f tc1 by (simp add: h3_def)
    qed
    moreover have "last_acquire tc2 = last_acquire tc"
      using arg_cong [OF E(4), of last_acquire] acquire_dirty_effect [OF ok own] d by auto
    ultimately show ?thesis
      using finish_acquire_sel [OF f] E(1-3) join_own by (simp add: own_epoch_def)
  qed
qed

section \<open>Release\<close>

lemma reuse_norm: "norm_elem ((elem h sc t)\<lparr>ce_reused := 0\<rparr>) = (elem h sc t)\<lparr>ce_reused := 0\<rparr>"
  using clean_epoch_masked [of h sc t] by (cases "elem h sc t") (simp add: norm_elem_def)

lemma epoch_norm: "e AND mask kClkBits = e \<Longrightarrow> norm_elem ((elem h sc t)\<lparr>ce_epoch := e\<rparr>) = (elem h sc t)\<lparr>ce_epoch := e\<rparr>"
  using arg_cong [OF elem_norm [of h sc t], of ce_reused] by (cases "elem h sc t") (simp add: norm_elem_def)

lemma clear_flags:
  assumes "layout_ok h sc" "n \<le> sc_size sc"
    and "h' = fold (\<lambda>i h. set_elem sc i ((elem h sc i)\<lparr>ce_reused := 0\<rparr>) h) [0..<n] h"
  shows "layout_ok h' sc \<and>
    (\<forall>t < sc_size sc. elem h' sc t = (if t < n then (elem h sc t)\<lparr>ce_reused := 0\<rparr> else elem h sc t))"
  using assms(2,3)
proof (induction n arbitrary: h')
  case 0
  then show ?case using assms(1) by simp
next
  case (Suc n)
  define h1 where "h1 = fold (\<lambda>i h. set_elem sc i ((elem h sc i)\<lparr>ce_reused := 0\<rparr>) h) [0..<n] h"
  have IH: "layout_ok h1 sc" "\<forall>t < sc_size sc. elem h1 sc t = (if t < n then (elem h sc t)\<lparr>ce_reused := 0\<rparr> else elem h sc t)"
    using Suc.IH [OF _ h1_def] Suc.prems(1) by auto
  have n: "n < sc_size sc" using Suc.prems(1) by simp
  have "h' = set_elem sc n ((elem h1 sc n)\<lparr>ce_reused := 0\<rparr>) h1" by (simp add: Suc.prems(2) h1_def)
  then show ?case
    using set_elem_layout [OF IH(1) n] elem_set_elem [OF IH(1) n] IH(2) n by (auto simp: reuse_norm less_Suc_eq)
qed

text \<open>A clock that is not shared is its own private copy.\<close>

lemma Unshare_private: "IsShared sc h = Some False \<Longrightarrow> Unshare sc h = Some (sc, h)"
  by (simp add: Unshare_def)

lemma set_own_reused_effect:
  assumes "layout_ok h sc" "tc_tid tc < sc_size sc"
  shows "layout_ok (set_own_reused tc sc h) sc \<and>
    (\<forall>t < sc_size sc. ce_epoch (elem (set_own_reused tc sc h) sc t) = ce_epoch (elem h sc t))"
  using set_elem_layout [OF assms] elem_set_elem [OF assms] clean_epoch_masked
  by (auto simp: set_own_reused_def norm_elem_def)

text \<open>What a thread knows of a clock it only updates: it is ahead of it nowhere but in its own element.\<close>

definition only_own_news :: "thread_clock \<Rightarrow> clk_heap \<Rightarrow> sync_clock \<Rightarrow> bool" where
  "only_own_news tc h sc \<longleftrightarrow> (\<forall>t. t \<noteq> tc_tid tc \<longrightarrow> tc_clk tc t \<le> sync_value h sc t)"

lemma UpdateCurrentThread_effect:
  assumes ok: "sync_ok h dst" and priv: "IsShared dst h = Some False" and tid: "tc_tid tc < sc_size dst"
    and own: "sync_value h dst (tc_tid tc) \<le> own_epoch tc" and masked: "own_epoch tc AND mask kClkBits = own_epoch tc"
  shows "\<exists>dst' h'. UpdateCurrentThread tc dst h = Some (dst', h') \<and> sync_ok h' dst' \<and> sc_size dst' = sc_size dst \<and>
    sync_value h' dst' = (sync_value h dst)(tc_tid tc := own_epoch tc)"
proof -
  let ?t = "tc_tid tc" and ?v = "sync_value h dst"
  have lay: "layout_ok h dst" and small: "sc_size dst \<le> kMaxTid" using ok by (simp_all add: sync_ok_def)
  obtain d0 d1 where d: "sc_dirty dst = [d0, d1]" using ok by (auto simp: sync_ok_def)
  have tv: "?t \<noteq> kInvalidTid" using tid small size_not_invalid by auto
  have el: "ce_epoch (elem h dst ?t) \<le> own_epoch tc" using clean_le_value [OF ok tid] own by (rule order.trans)
  let ?n = "\<lparr>dt_epoch = own_epoch tc AND mask kClkBits, dt_tid = ?t\<rparr>"
  consider (s0) "dt_tid d0 = ?t \<or> dt_tid d0 = kInvalidTid"
    | (s1) "\<not> (dt_tid d0 = ?t \<or> dt_tid d0 = kInvalidTid)" "dt_tid d1 = ?t \<or> dt_tid d1 = kInvalidTid"
    | (none) "dt_tid d0 \<noteq> ?t" "dt_tid d0 \<noteq> kInvalidTid" "dt_tid d1 \<noteq> ?t" "dt_tid d1 \<noteq> kInvalidTid" by blast
  then show ?thesis
  proof cases
    case s0
    let ?dst = "dst\<lparr>sc_dirty := [?n, d1]\<rparr>"
    have u: "UpdateCurrentThread tc dst h = Some (?dst, h)"
      using s0 d by (simp add: UpdateCurrentThread_def)
    have ok': "sync_ok h ?dst" using ok s0 tid el tv masked by (auto simp: sync_ok_def d)
    have "sync_value h ?dst t = (?v(?t := own_epoch tc)) t" for t
    proof (cases "t < sc_size dst")
      case True
      then show ?thesis
        using sync_value_cases [OF ok True] sync_value_cases [OF ok', of t] s0 ok tv size_not_invalid [of t] small masked
        by (auto simp: d sync_ok_def)
    next
      case False
      then show ?thesis using tid by (auto simp: sync_value_def)
    qed
    then show ?thesis using u ok' by (auto simp: fun_eq_iff)
  next
    case s1
    let ?dst = "dst\<lparr>sc_dirty := [d0, ?n]\<rparr>"
    have u: "UpdateCurrentThread tc dst h = Some (?dst, h)"
      using s1 d by (simp add: UpdateCurrentThread_def)
    have ok': "sync_ok h ?dst" using ok s1 tid el tv masked by (auto simp: sync_ok_def d)
    have "sync_value h ?dst t = (?v(?t := own_epoch tc)) t" for t
    proof (cases "t < sc_size dst")
      case True
      then show ?thesis
        using sync_value_cases [OF ok True] sync_value_cases [OF ok', of t] s1 ok tv size_not_invalid [of t] small masked
        by (auto simp: d sync_ok_def)
    next
      case False
      then show ?thesis using tid by (auto simp: sync_value_def)
    qed
    then show ?thesis using u ok' by (auto simp: fun_eq_iff)
  next
    case none
    define h2 where "h2 = set_elem dst ?t ((elem h dst ?t)\<lparr>ce_epoch := own_epoch tc\<rparr>) h"
    define h3 where "h3 = fold (\<lambda>i h. set_elem dst i ((elem h dst i)\<lparr>ce_reused := 0\<rparr>) h) [0..<sc_size dst] h2"
    have l2: "layout_ok h2 dst" using set_elem_layout [OF lay tid] by (simp add: h2_def)
    note C = clear_flags [OF l2 order.refl h3_def]
    have e3: "ce_epoch (elem h3 dst t) = (if t = ?t then own_epoch tc else ce_epoch (elem h dst t))" if "t < sc_size dst" for t
      using C elem_set_elem [OF lay tid that] that masked by (auto simp: h2_def epoch_norm)
    have ok3: "sync_ok h3 dst" using ok C e3 none by (auto simp: sync_ok_def d)
    obtain h' where f: "FlushDirty dst h3 = Some (clean dst, h')" "layout_ok h' dst"
        "\<forall>t < sc_size dst. elem h' dst t = (elem h3 dst t)\<lparr>ce_epoch := sync_value h3 dst t\<rparr>"
      using flush_effect [OF ok3] by blast
    have u: "UpdateCurrentThread tc dst h = Some (clean dst, h')"
      using none d f(1) Unshare_private [OF priv]
      by (simp add: UpdateCurrentThread_def h3_def h2_def Let_def)
    have "sync_value h' (clean dst) t = (?v(?t := own_epoch tc)) t" for t
      using clean_value [OF ok, of h' t] f(3) tid sync_value_cases [OF ok3, of t] sync_value_cases [OF ok, of t] e3 none
      by (auto simp: d sync_value_def [of h dst])
    then show ?thesis using u clean_ok [OF ok f(2)] by (auto simp: fun_eq_iff clean_def)
  qed
qed

lemma unit_pair: obtains h' where "p = (h', ())"
  by (cases p) auto

lemma join_fold_norm:
  assumes "layout_ok h sc" "clock_for (\<lambda>i e u. (\<lparr>ce_epoch = g i (ce_epoch e), ce_reused = 0\<rparr>, u)) sc (h, ()) = (h', u)"
  shows "layout_ok h' sc" "\<And>t. t < sc_size sc \<Longrightarrow> ce_epoch (elem h' sc t) = g t (ce_epoch (elem h sc t)) AND mask kClkBits"
  using clock_for_spec [OF assms] by (auto simp: norm_elem_def)

text \<open>
  A release to a private clock that is large enough. The shortcut changes the thread's own element alone; the thread has not acquired
  anything since it last stored its epoch there, so nothing else may be new.
\<close>

lemma release_effect:
  assumes ok: "sync_ok h dst" and n: "sc_size dst \<noteq> 0" "tc_nclk tc \<le> sc_size dst" and priv: "IsShared dst h = Some False"
    and tid: "tc_tid tc < tc_nclk tc" and zero: "\<forall>t \<ge> tc_nclk tc. tc_clk tc t = 0" and small: "\<forall>t. tc_clk tc t < 2 ^ 42"
    and own: "sync_value h dst (tc_tid tc) \<le> own_epoch tc"
  shows "\<exists>dst' h'. release tc dst h = Some (tc, dst', h') \<and> sync_ok h' dst' \<and>
    sync_value h' dst' = (if HasAcquiredAfterRelease tc dst h then join (sync_value h dst) (tc_clk tc)
      else (sync_value h dst)(tc_tid tc := own_epoch tc))"
proof (cases "HasAcquiredAfterRelease tc dst h")
  case False
  have m: "own_epoch tc AND mask kClkBits = own_epoch tc" using masked small by (simp add: own_epoch_def)
  have t: "tc_tid tc < sc_size dst" using tid n by simp
  obtain dst' h' where u: "UpdateCurrentThread tc dst h = Some (dst', h')" "sync_ok h' dst'"
      "sync_value h' dst' = (sync_value h dst)(tc_tid tc := own_epoch tc)"
    using UpdateCurrentThread_effect [OF ok priv t own m] by blast
  have "release tc dst h = Some (tc, if release_store_tid dst' \<noteq> tc_tid tc \<or> release_store_reused dst' \<noteq> tc_reused tc
      then dst'\<lparr>release_store_tid := kInvalidTid\<rparr> else dst', h')"
    using n u(1) False by (simp add: release_def)
  then show ?thesis using u(2,3) False by auto
next
  case True
  have lay: "layout_ok h dst" using ok by (simp add: sync_ok_def)
  obtain h3 where f: "FlushDirty dst h = Some (clean dst, h3)" "layout_ok h3 dst"
      "\<forall>t < sc_size dst. elem h3 dst t = (elem h dst t)\<lparr>ce_epoch := sync_value h dst t\<rparr>"
    using flush_effect [OF ok] by blast
  have l3: "layout_ok h3 (clean dst)" using f(2) by (simp add: clean_def)
  obtain h4 where loop: "clock_for (\<lambda>i e u. (\<lparr>ce_epoch = max (ce_epoch e) (tc_clk tc i), ce_reused = 0\<rparr>, u)) (clean dst) (h3, ()) = (h4, ())"
    by (rule unit_pair)
  note J = join_fold_norm [OF l3 loop]
  have sz: "sc_size (clean dst) = sc_size dst" by (simp add: clean_def)
  have el: "elem hh (clean dst) = elem hh dst" for hh by (simp add: clean_def)
  have vm: "sync_value h dst t AND mask kClkBits = sync_value h dst t" if "t < sc_size dst" for t
    using f(3) that clean_epoch_masked [of h3 dst t] by simp
  have e4: "ce_epoch (elem h4 dst t) = max (sync_value h dst t) (tc_clk tc t)" if "t < sc_size dst" for t
    using J(2) [of t] that f(3) vm [OF that] masked [of "tc_clk tc t"] small by (auto simp: sz el max_def)
  define dst4 where "dst4 = (clean dst)\<lparr>release_store_tid := kInvalidTid, release_store_reused := 0\<rparr>"
  define h5 where "h5 = (if IsAlreadyAcquired tc dst h then set_own_reused tc dst4 h4 else h4)"
  have r: "release tc dst h = Some (tc, dst4, h5)"
    using n True f(1) loop Unshare_private [OF priv] by (simp add: release_def Let_def dst4_def h5_def)
  have s4: "sc_size dst4 = sc_size dst" "elem hh dst4 = elem hh dst" "layout_ok hh dst4 = layout_ok hh dst" for hh
    by (simp_all add: dst4_def clean_def)
  have l4: "layout_ok h4 dst" using J(1) by (simp add: clean_def)
  have l5: "layout_ok h5 dst" and e5: "\<forall>t < sc_size dst. ce_epoch (elem h5 dst t) = ce_epoch (elem h4 dst t)"
    using set_own_reused_effect [of h4 dst4 tc] tid n l4 by (auto simp: h5_def s4)
  have "sync_value h5 dst4 t = join (sync_value h dst) (tc_clk tc) t" for t
    using clean_value [OF ok, of h5 t] e5 e4 zero n(2) by (auto simp: dst4_def join_def sync_value_def [of h dst])
  moreover have "sync_ok h5 dst4" using clean_ok [OF ok l5] by (simp add: dst4_def)
  ultimately show ?thesis using r True by (auto simp: fun_eq_iff)
qed

text \<open>The same for \<open>ReleaseStore\<close>, which overwrites what the clock held.\<close>

lemma ReleaseStore_effect:
  assumes ok: "sync_ok h dst" and n: "sc_size dst \<noteq> 0" "tc_nclk tc \<le> sc_size dst" and priv: "IsShared dst h = Some False"
    and tid: "tc_tid tc < tc_nclk tc" and zero: "\<forall>t \<ge> tc_nclk tc. tc_clk tc t = 0" and small: "\<forall>t. tc_clk tc t < 2 ^ 42"
    and own: "sync_value h dst (tc_tid tc) \<le> own_epoch tc"
    and fast: "\<not> HasAcquiredAfterRelease tc dst h \<and> release_store_tid dst = tc_tid tc \<and> release_store_reused dst = tc_reused tc
      \<longrightarrow> (\<forall>t. t \<noteq> tc_tid tc \<longrightarrow> sync_value h dst t = tc_clk tc t)"
  shows "\<exists>tc' dst' h'. ReleaseStore tc dst h = Some (tc', dst', h') \<and> tc_clk tc' = tc_clk tc \<and> sync_ok h' dst' \<and>
    sync_value h' dst' = tc_clk tc"
proof (cases "release_store_tid dst = tc_tid tc \<and> release_store_reused dst = tc_reused tc \<and> \<not> HasAcquiredAfterRelease tc dst h")
  case True
  have m: "own_epoch tc AND mask kClkBits = own_epoch tc" using masked small by (simp add: own_epoch_def)
  have t: "tc_tid tc < sc_size dst" using tid n by simp
  obtain dst' h' where u: "UpdateCurrentThread tc dst h = Some (dst', h')" "sync_ok h' dst'"
      "sync_value h' dst' = (sync_value h dst)(tc_tid tc := own_epoch tc)"
    using UpdateCurrentThread_effect [OF ok priv t own m] by blast
  have "sync_value h' dst' = tc_clk tc" using fast True by (auto simp: fun_eq_iff u(3) own_epoch_def)
  moreover have "ReleaseStore tc dst h = Some (tc, dst', h')" using n u(1) True by (simp add: ReleaseStore_def)
  ultimately show ?thesis using u(2) by blast
next
  case False
  have lay: "layout_ok h dst" using ok by (simp add: sync_ok_def)
  obtain h2 where loop: "clock_for (\<lambda>i e u. (\<lparr>ce_epoch = tc_clk tc i, ce_reused = 0\<rparr>, u)) dst (h, ()) = (h2, ())"
    by (rule unit_pair)
  note J = join_fold_norm [where g = "\<lambda>i _. tc_clk tc i", OF lay loop]
  define dst2 where "dst2 = (clean dst)\<lparr>release_store_tid := tc_tid tc, release_store_reused := tc_reused tc\<rparr>"
  define h3 where "h3 = set_own_reused tc dst2 h2"
  have s2: "sc_size dst2 = sc_size dst" "elem hh dst2 = elem hh dst" "layout_ok hh dst2 = layout_ok hh dst"
      "tab_idx dst2 = tab_idx dst" "get_block hh dst2 = get_block hh dst" "sc_blocks dst2 = sc_blocks dst" for hh
    by (simp_all add: dst2_def clean_def get_block_def fun_eq_iff)
  have t: "tc_tid tc < sc_size dst2" using tid n by (simp add: s2)
  have l3: "layout_ok h3 dst" and e3: "\<forall>t < sc_size dst. ce_epoch (elem h3 dst t) = tc_clk tc t"
    using set_own_reused_effect [of h2 dst2 tc] t J masked small by (auto simp: h3_def s2)
  define h4 where "h4 = (if cached_idx tc = 0 \<and> Cachable dst2 h3
      then set_heap_word (tab_idx dst) kRefIdx (heap_word h3 (tab_idx dst) kRefIdx + 1) h3 else h3)"
  have st: "store_full tc dst h = Some (if cached_idx tc = 0 \<and> Cachable dst2 h3
      then tc\<lparr>cached_idx := tab_idx dst2, cached_size := sc_size dst2, cached_blocks := sc_blocks dst2\<rparr> else tc, dst2, h4)"
    using loop Unshare_private [OF priv] by (simp add: store_full_def Let_def dst2_def clean_def h3_def h4_def)
  have gb: "get_block h4 dst b = get_block h3 dst b" if "b < sc_blocks dst" for b
  proof -
    have "kBlockIdx - b \<noteq> kRefIdx" unfolding clock_consts by linarith
    then show ?thesis by (simp add: h4_def get_block_def)
  qed
  have re: "read_elem h4 idx i = read_elem h3 idx i" if "idx \<noteq> tab_idx dst \<or> 2 * i + 1 < kRefIdx" for idx i
    using that by (auto simp: h4_def read_elem_def)
  have l4: "layout_ok h4 dst"
  proof -
    have "inj_on (get_block h4 dst) {..<sc_blocks dst} = inj_on (get_block h3 dst) {..<sc_blocks dst}"
      using gb by (auto simp: inj_on_def)
    then show ?thesis using l3 gb n(1) unfolding layout_ok_def by (simp split: if_splits)
  qed
  have e4: "elem h4 dst t = elem h3 dst t" if "t < sc_size dst" for t
  proof -
    have lc: "elem_loc h4 dst t = elem_loc h3 dst t"
      using elem_loc_block(1) [OF l3 that] gb by (simp add: elem_loc_def Let_def)
    from l3 that show ?thesis
    proof (cases rule: elem_loc_cases)
      case (second b)
      have "get_block h3 dst b \<noteq> tab_idx dst" using l3 n(1) second(1) by (simp add: layout_ok_def)
      then show ?thesis using second re lc by (simp add: elem_def)
    next
      case first
      then have "2 * (t mod 64) + 1 < kRefIdx" by (simp add: clock_consts)
      then show ?thesis using first re lc by (simp add: elem_def)
    qed
  qed
  have "\<exists>tc'. ReleaseStore tc dst h = Some (tc', dst2, h4) \<and> tc_clk tc' = tc_clk tc"
    using n st False by (auto simp: ReleaseStore_def)
  moreover have "sync_value h4 dst2 t = tc_clk tc t" for t
    using clean_value [OF ok, of h4 t] e4 e3 zero n(2) by (auto simp: dst2_def)
  moreover have "sync_ok h4 dst2" using clean_ok [OF ok l4] by (simp add: dst2_def)
  ultimately show ?thesis by (blast intro: ext)
qed

section \<open>Properties\<close>

text \<open>A clock of two elements, one of them overridden by a dirty entry, and a thread that meets it.\<close>

definition ex_heap :: clk_heap where
  "ex_heap = set_heap_word 1 kRefIdx 1 (set_heap_word 1 0 5 (set_heap_word 1 2 7
     (\<lparr>da_mem = (\<lambda>_ _. 0), da_freelist = 0, da_fillpos = 1\<rparr>, [])))"

definition ex_sync :: sync_clock where
  "ex_sync = \<lparr>release_store_tid = kInvalidTid, release_store_reused = 0,
     sc_dirty = [\<lparr>dt_epoch = 9, dt_tid = 0\<rparr>, \<lparr>dt_epoch = 0, dt_tid = kInvalidTid\<rparr>],
     tab_idx = 1, sc_size = 2, sc_blocks = 0\<rparr>"

definition ex_thread :: thread_clock where
  "ex_thread = \<lparr>tc_tid = 1, tc_reused = 1, last_acquire = 0, global_acquire = 0, cached_idx = 0,
     cached_size = 0, cached_blocks = 0, tc_nclk = 2, tc_clk = (\<lambda>_. 0)(1 := 8), prd_trace = True\<rparr>"

lemma ex_masked: "(5 :: u64) AND mask 42 = 5" "(7 :: u64) AND mask 42 = 7" "(9 :: u64) AND mask 42 = 9"
  using masked [of 5] masked [of 7] masked [of 9] by (simp_all add: kClkBits_def)

lemma ex_elem: "elem ex_heap ex_sync 0 = \<lparr>ce_epoch = 5, ce_reused = 0\<rparr>" "elem ex_heap ex_sync 1 = \<lparr>ce_epoch = 7, ce_reused = 0\<rparr>"
  by (simp_all add: elem_def elem_loc_def ex_sync_def ex_heap_def read_elem_def unpack_elem_def heap_word_def set_heap_word_def clock_consts ex_masked)

lemma less_two: "(t :: nat) < 2 \<longleftrightarrow> t = 0 \<or> t = 1" by auto

lemma ex_ok: "sync_ok ex_heap ex_sync"
proof -
  have "layout_ok ex_heap ex_sync" by (simp add: layout_ok_def ex_sync_def capacity_def clock_consts)
  then show ?thesis using ex_elem(1)
    by (simp add: sync_ok_def) (simp add: ex_sync_def kInvalidTid_def kMaxTid_def clock_consts ex_masked)
qed

lemma ex_value: "sync_value ex_heap ex_sync = (\<lambda>_. 0)(0 := 9, 1 := 7)"
  using sync_value_cases [OF ex_ok] ex_elem
  by (auto simp: fun_eq_iff ex_sync_def less_two kInvalidTid_def kMaxTid_def clock_consts sync_value_def)

text \<open>
  C4: Acquiring a clock joins its value into the thread's clock, on every path: the constant-time
  one over the dirty entries, taken when the clock's per-thread flag says that the rest has been
  acquired before, and the full scan. One happens-before line is logged for each component of
  another thread that moves forward, with the epoch it moves to and the thread's own epoch, and
  none for any other; \<open>last_acquire\<close> is set exactly when something moved.
\<close>

theorem acquire_joins:
  assumes "sync_ok h src" "sync_value h src (tc_tid tc) \<le> own_epoch tc" "flag_sound tc h src" "cached_ok tc h src"
  shows "\<exists>tc' h' out. acquire tc src h = Some (tc', h', out) \<and>
    tc_clk tc' = join (tc_clk tc) (sync_value h src) \<and>
    last_acquire tc' = (if \<exists>t. tc_clk tc t < sync_value h src t then own_epoch tc else last_acquire tc) \<and>
    mset out = image_mset (\<lambda>t. log_happens_before_edge (of_nat t) (sync_value h src t) (of_nat (tc_tid tc)) (own_epoch tc))
      (mset_set {t. t < sc_size src \<and> tc_clk tc t < sync_value h src t \<and> prd_trace tc \<and> tc_tid tc \<noteq> t})"
  using acquire_effect [OF assms] by (simp add: edges_def edge_def lessThan_def)

theorem acquire_joins_witness:
  "\<exists>tc' h' out. acquire ex_thread ex_sync ex_heap = Some (tc', h', out) \<and>
     tc_clk tc' 0 = 9 \<and> tc_clk tc' 1 = 8 \<and> last_acquire tc' = 8 \<and> out = [log_happens_before_edge 0 9 1 8]"
proof -
  have own: "own_epoch ex_thread = 8" "tc_tid ex_thread = 1" "prd_trace ex_thread" by (simp_all add: own_epoch_def ex_thread_def)
  have p: "sync_value ex_heap ex_sync (tc_tid ex_thread) \<le> own_epoch ex_thread" by (simp add: ex_value own)
  have f: "flag_sound ex_thread ex_heap ex_sync" using ex_elem(2) by (simp add: flag_sound_def ex_thread_def)
  have c: "cached_ok ex_thread ex_heap ex_sync" by (simp add: cached_ok_def ex_thread_def)
  have clk: "tc_clk ex_thread = (\<lambda>_. 0)(1 := 8)" by (simp add: ex_thread_def)
  have s: "{t. t < sc_size ex_sync \<and> tc_clk ex_thread t < sync_value ex_heap ex_sync t \<and> prd_trace ex_thread \<and> tc_tid ex_thread \<noteq> t} = {0}"
    by (auto simp: own ex_value clk)  (simp add: ex_sync_def)
  have a: "\<exists>t. tc_clk ex_thread t < sync_value ex_heap ex_sync t" by (rule exI [of _ 0]) (simp add: ex_value clk)
  obtain tc' h' out where r: "acquire ex_thread ex_sync ex_heap = Some (tc', h', out)"
      "tc_clk tc' = join (tc_clk ex_thread) (sync_value ex_heap ex_sync)" "last_acquire tc' = own_epoch ex_thread"
      "mset out = {#log_happens_before_edge (of_nat 0) (sync_value ex_heap ex_sync 0) (of_nat 1) 8#}"
    using acquire_joins [OF ex_ok p f c] a unfolding s by (auto simp: own)
  then show ?thesis by (simp add: join_def ex_value clk own)
qed

text \<open>
  C5: Releasing to a private clock that is large enough, on both paths. When the epoch that the clock's table holds of the
  thread is not after the thread's last acquire, the whole clock of the thread is joined in, dirty entries included. Otherwise the
  thread has acquired nothing since it last stored its epoch there, and the constant-time path raises the thread's own
  component and changes no other; this is the same join whenever the clock lacks nothing else of what the thread
  knows. The thread's clock does not change, and the clock stays well formed.
\<close>

theorem release_joins:
  assumes "sync_ok h dst" "sc_size dst \<noteq> 0" "tc_nclk tc \<le> sc_size dst" "IsShared dst h = Some False"
    and "tc_tid tc < tc_nclk tc" "\<forall>t \<ge> tc_nclk tc. tc_clk tc t = 0" "\<forall>t. tc_clk tc t < 2 ^ 42"
    and "sync_value h dst (tc_tid tc) \<le> tc_clk tc (tc_tid tc)"
  shows "\<exists>dst' h'. release tc dst h = Some (tc, dst', h') \<and> sync_ok h' dst' \<and>
    sync_value h' dst' =
      (if ce_epoch (elem h dst (tc_tid tc)) \<le> last_acquire tc \<or> ce_epoch (elem h dst (tc_tid tc)) \<le> global_acquire tc
       then join (sync_value h dst) (tc_clk tc) else (sync_value h dst)(tc_tid tc := tc_clk tc (tc_tid tc))) \<and>
    (only_own_news tc h dst \<longrightarrow> sync_value h' dst' = join (sync_value h dst) (tc_clk tc))"
proof -
  have "(sync_value h dst)(tc_tid tc := tc_clk tc (tc_tid tc)) = join (sync_value h dst) (tc_clk tc)" if "only_own_news tc h dst"
    using that assms(8) by (auto simp: fun_eq_iff join_def only_own_news_def max_absorb1 max_absorb2)
  then show ?thesis
    using release_effect [OF assms(1-7)] assms(8) by (auto simp: own_epoch_def HasAcquiredAfterRelease_def Let_def)
qed

lemma ex_private: "IsShared ex_sync ex_heap = Some False"
  by (simp add: IsShared_def ex_sync_def ex_heap_def)

lemma ex_thread_facts:
  "tc_tid ex_thread = 1" "tc_nclk ex_thread = 2" "own_epoch ex_thread = 8" "tc_clk ex_thread = (\<lambda>_. 0)(1 := 8)" "sc_size ex_sync = 2"
  by (simp_all add: ex_thread_def own_epoch_def ex_sync_def)

lemma ex_small: "(if t = Suc 0 then 8 else 0) < (4398046511104 :: u64)" by simp

text \<open>The same thread with a last acquire before and after the epoch 7 that the clock holds of it.\<close>

theorem release_joins_witness:
  "(\<exists>dst' h'. release (ex_thread\<lparr>tc_clk := (\<lambda>_. 0)(0 := 20, 1 := 8), last_acquire := 7\<rparr>) ex_sync ex_heap =
       Some (ex_thread\<lparr>tc_clk := (\<lambda>_. 0)(0 := 20, 1 := 8), last_acquire := 7\<rparr>, dst', h') \<and>
     sync_value h' dst' 0 = 20 \<and> sync_value h' dst' 1 = 8) \<and>
   (\<exists>dst' h'. release ex_thread ex_sync ex_heap = Some (ex_thread, dst', h') \<and>
     sync_value h' dst' 0 = 9 \<and> sync_value h' dst' 1 = 8)"
proof -
  let ?tc = "ex_thread\<lparr>tc_clk := (\<lambda>_. 0)(0 := 20, 1 := 8), last_acquire := 7\<rparr>"
  have f: "tc_tid ?tc = 1" "tc_nclk ?tc = 2" "last_acquire ?tc = 7" "tc_clk ?tc = (\<lambda>_. 0)(0 := 20, 1 := 8)" by (simp_all add: ex_thread_def)
  have "\<forall>t \<ge> 2. ((\<lambda>_. 0)(0 := 20, 1 := 8)) (t :: nat) = (0 :: u64)" "\<forall>t. ((\<lambda>_. 0)(0 := 20, 1 := 8)) (t :: nat) < (2 ^ 42 :: u64)" by simp_all
  then have "\<exists>dst' h'. release ?tc ex_sync ex_heap = Some (?tc, dst', h') \<and> sync_value h' dst' = join (sync_value ex_heap ex_sync) (tc_clk ?tc)"
    using release_joins [OF ex_ok _ _ ex_private, of ?tc] ex_elem(2) by (simp only: f ex_thread_facts ex_value) auto
  moreover have "only_own_news ex_thread ex_heap ex_sync" by (simp add: only_own_news_def ex_thread_facts)
  then have "\<exists>dst' h'. release ex_thread ex_sync ex_heap = Some (ex_thread, dst', h') \<and> sync_value h' dst' = join (sync_value ex_heap ex_sync) (tc_clk ex_thread)"
    using release_joins [OF ex_ok _ _ ex_private, of ex_thread] ex_small by (auto simp: ex_thread_facts ex_value)
  ultimately show ?thesis by (auto simp: ex_value join_def f ex_thread_facts)
qed

text \<open>
  A release-store to a private clock that is large enough leaves exactly the thread's clock in
  it, on both paths; its shortcut is taken only when the thread itself stored the clock last and has
  acquired nothing since, and then changes the thread's own element alone.
\<close>

theorem ReleaseStore_overwrites:
  assumes "sync_ok h dst" "sc_size dst \<noteq> 0" "tc_nclk tc \<le> sc_size dst" "IsShared dst h = Some False"
    and "tc_tid tc < tc_nclk tc" "\<forall>t \<ge> tc_nclk tc. tc_clk tc t = 0" "\<forall>t. tc_clk tc t < 2 ^ 42"
    and "sync_value h dst (tc_tid tc) \<le> own_epoch tc"
    and "\<not> HasAcquiredAfterRelease tc dst h \<and> release_store_tid dst = tc_tid tc \<and> release_store_reused dst = tc_reused tc
      \<longrightarrow> (\<forall>t. t \<noteq> tc_tid tc \<longrightarrow> sync_value h dst t = tc_clk tc t)"
  shows "\<exists>tc' dst' h'. ReleaseStore tc dst h = Some (tc', dst', h') \<and> tc_clk tc' = tc_clk tc \<and> sync_ok h' dst' \<and>
    sync_value h' dst' = tc_clk tc"
  using ReleaseStore_effect [OF assms] .

theorem ReleaseStore_overwrites_witness:
  "\<exists>tc' dst' h'. ReleaseStore ex_thread ex_sync ex_heap = Some (tc', dst', h') \<and>
     sync_value h' dst' 0 = 0 \<and> sync_value h' dst' 1 = 8"
proof -
  have "release_store_tid ex_sync \<noteq> 1" by (simp add: ex_sync_def kInvalidTid_def kMaxTid_def clock_consts)
  then obtain tc' dst' h' where "ReleaseStore ex_thread ex_sync ex_heap = Some (tc', dst', h')"
      "sync_value h' dst' = tc_clk ex_thread"
    using ReleaseStore_overwrites [OF ex_ok _ _ ex_private, of ex_thread] ex_small by (auto simp: ex_thread_facts ex_value)
  then show ?thesis by (simp add: ex_thread_facts)
qed

text \<open>
  The elements of a clock are independent cells although they share blocks with the block table
  and the reference counter: writing one is read back within its bit fields, and leaves every other
  element, the table and the counter as they were.
\<close>

theorem clock_elements_independent:
  assumes "layout_ok h sc" "t < sc_size sc" "t' < sc_size sc"
  shows "elem (set_elem sc t e h) sc t' =
      (if t' = t then \<lparr>ce_epoch = ce_epoch e AND mask kClkBits, ce_reused = ce_reused e AND mask (64 - kClkBits)\<rparr>
       else elem h sc t') \<and>
    layout_ok (set_elem sc t e h) sc \<and>
    heap_word (set_elem sc t e h) (tab_idx sc) kRefIdx = heap_word h (tab_idx sc) kRefIdx"
  using elem_set_elem [OF assms] set_elem_layout [OF assms(1,2)] set_elem_ref [OF assms(1,2)]
  by (simp_all add: norm_elem_def)

theorem clock_elements_independent_witness:
  "elem (set_elem ex_sync 1 \<lparr>ce_epoch = 2 ^ 42 + 3, ce_reused = 2\<rparr> ex_heap) ex_sync 0 = \<lparr>ce_epoch = 5, ce_reused = 0\<rparr> \<and>
   elem (set_elem ex_sync 1 \<lparr>ce_epoch = 2 ^ 42 + 3, ce_reused = 2\<rparr> ex_heap) ex_sync 1 = \<lparr>ce_epoch = 3, ce_reused = 2\<rparr>"
proof -
  have l: "layout_ok ex_heap ex_sync" using ex_ok by (simp add: sync_ok_def)
  show ?thesis
    using clock_elements_independent [OF l, of 1 0 "\<lparr>ce_epoch = 2 ^ 42 + 3, ce_reused = 2\<rparr>"]
      clock_elements_independent [OF l, of 1 1 "\<lparr>ce_epoch = 2 ^ 42 + 3, ce_reused = 2\<rparr>"] ex_elem(1)
    by (simp add: ex_thread_facts kClkBits_def mask_eq_exp_minus_1)
qed

end
