(* ===== verification/ShadowMapping.thy ===== *)
theory ShadowMapping
  imports CommonArith
begin

text \<open>
  The address map of \<open>tsan/rtl/tsan_platform.h\<close> for Linux on x86-64: application memory in four
  regions, its shadow (four words for each cell of eight bytes), its metadata, and the threads'
  traces. A \<open>DCHECK\<close> is not executed in the release build.
\<close>

section \<open>Definitions\<close>

text \<open>\<open>struct Mapping\<close>, and the sizes of \<open>tsan_defs.h\<close>\<close>

definition kMetaShadowBeg :: u64 where "kMetaShadowBeg = 0x300000000000"
definition kMetaShadowEnd :: u64 where "kMetaShadowEnd = 0x340000000000"
definition kTraceMemBeg :: u64 where "kTraceMemBeg = 0x600000000000"
definition kTraceMemEnd :: u64 where "kTraceMemEnd = 0x620000000000"
definition kShadowBeg :: u64 where "kShadowBeg = 0x010000000000"
definition kShadowEnd :: u64 where "kShadowEnd = 0x200000000000"
definition kHeapMemBeg :: u64 where "kHeapMemBeg = 0x7b0000000000"
definition kHeapMemEnd :: u64 where "kHeapMemEnd = 0x7c0000000000"
definition kLoAppMemBeg :: u64 where "kLoAppMemBeg = 0x000000001000"
definition kLoAppMemEnd :: u64 where "kLoAppMemEnd = 0x008000000000"
definition kMidAppMemBeg :: u64 where "kMidAppMemBeg = 0x550000000000"
definition kMidAppMemEnd :: u64 where "kMidAppMemEnd = 0x568000000000"
definition kHiAppMemBeg :: u64 where "kHiAppMemBeg = 0x7e8000000000"
definition kHiAppMemEnd :: u64 where "kHiAppMemEnd = 0x800000000000"
definition kAppMemMsk :: u64 where "kAppMemMsk = 0x780000000000"
definition kAppMemXor :: u64 where "kAppMemXor = 0x040000000000"

definition kShadowCnt :: u64 where "kShadowCnt = 4"
definition kShadowCell :: u64 where "kShadowCell = 8"
definition kShadowSize :: u64 where "kShadowSize = 8"
definition kMetaShadowCell :: u64 where "kMetaShadowCell = 8"
definition kMetaShadowSize :: u64 where "kMetaShadowSize = 4"

lemmas mapping_consts = kMetaShadowBeg_def kMetaShadowEnd_def kTraceMemBeg_def kTraceMemEnd_def kShadowBeg_def
  kShadowEnd_def kHeapMemBeg_def kHeapMemEnd_def kLoAppMemBeg_def kLoAppMemEnd_def kMidAppMemBeg_def
  kMidAppMemEnd_def kHiAppMemBeg_def kHiAppMemEnd_def kAppMemMsk_def kAppMemXor_def kShadowCnt_def
  kShadowCell_def kShadowSize_def kMetaShadowCell_def kMetaShadowSize_def

definition GetUserRegion :: "nat \<Rightarrow> (u64 \<times> u64) option" where
  "GetUserRegion i =
     (if i = 0 then Some (kLoAppMemBeg, kLoAppMemEnd)
      else if i = 1 then Some (kHiAppMemBeg, kHiAppMemEnd)
      else if i = 2 then Some (kHeapMemBeg, kHeapMemEnd)
      else if i = 3 then Some (kMidAppMemBeg, kMidAppMemEnd)
      else None)"

definition IsAppMem :: "u64 \<Rightarrow> bool" where
  "IsAppMem mem \<longleftrightarrow>
     (mem \<ge> kHeapMemBeg \<and> mem < kHeapMemEnd) \<or> (mem \<ge> kMidAppMemBeg \<and> mem < kMidAppMemEnd) \<or>
     (mem \<ge> kLoAppMemBeg \<and> mem < kLoAppMemEnd) \<or> (mem \<ge> kHiAppMemBeg \<and> mem < kHiAppMemEnd)"

definition IsShadowMem :: "u64 \<Rightarrow> bool" where
  "IsShadowMem mem \<longleftrightarrow> mem \<ge> kShadowBeg \<and> mem \<le> kShadowEnd"

definition IsMetaMem :: "u64 \<Rightarrow> bool" where
  "IsMetaMem mem \<longleftrightarrow> mem \<ge> kMetaShadowBeg \<and> mem \<le> kMetaShadowEnd"

definition MemToShadow :: "u64 \<Rightarrow> u64" where
  "MemToShadow x = ((x AND NOT (kAppMemMsk OR (kShadowCell - 1))) XOR kAppMemXor) * kShadowCnt"

definition MemToMeta :: "u64 \<Rightarrow> u64" where
  "MemToMeta x =
     ((x AND NOT (kAppMemMsk OR (kMetaShadowCell - 1))) div kMetaShadowCell * kMetaShadowSize) OR kMetaShadowBeg"

definition ShadowToMem :: "u64 \<Rightarrow> u64" where
  "ShadowToMem s =
     (let p = (s div kShadowCnt) XOR kAppMemXor;
          q = ((s div kShadowCnt) XOR kAppMemXor) + (kMidAppMemBeg AND kAppMemMsk) in
      if p \<ge> kLoAppMemBeg \<and> p < kLoAppMemEnd \<and> MemToShadow p = s then p
      else if q \<ge> kMidAppMemBeg \<and> q < kMidAppMemEnd \<and> MemToShadow q = s then q
      else ((s div kShadowCnt) XOR kAppMemXor) OR kAppMemMsk)"

text \<open>
  The traces: \<open>trace_size\<close> stands for \<open>kTraceSize * sizeof(Event) + sizeof(Trace)\<close>, \<open>events_size\<close> for
  its first term.
\<close>

definition kTotalTraceSize :: "u64 \<Rightarrow> u64" where
  "kTotalTraceSize trace_size = (trace_size + push_bit 10 64 + push_bit 10 64 - 1) AND NOT (push_bit 10 64 - 1)"

definition GetThreadTrace :: "u64 \<Rightarrow> u64 \<Rightarrow> u64" where
  "GetThreadTrace trace_size tid = kTraceMemBeg + tid * kTotalTraceSize trace_size"

definition GetThreadTraceHeader :: "u64 \<Rightarrow> u64 \<Rightarrow> u64 \<Rightarrow> u64" where
  "GetThreadTraceHeader trace_size events_size tid = kTraceMemBeg + tid * kTotalTraceSize trace_size + events_size"

section \<open>Addresses by their upper byte and lower forty bits\<close>

definition at :: "u64 \<Rightarrow> u64 \<Rightarrow> u64" where
  "at c l = push_bit 40 c OR take_bit 40 l"

lemma at_split: "a = at (drop_bit 40 a) a"
  by (rule bit_word_eqI) (auto simp: at_def bit_simps)

lemma at_plus: "at c l = push_bit 40 c + take_bit 40 l"
proof -
  have "push_bit 40 c AND take_bit 40 l = 0" by (rule bit_word_eqI) (auto simp: bit_simps)
  then show ?thesis by (simp add: at_def disjunctive_add_eq_or)
qed

lemma unat_at:
  assumes "c < 2 ^ 24"
  shows "unat (at c l) = unat c * 2 ^ 40 + unat (take_bit 40 l)"
proof -
  have "at c l = push_bit 40 c + take_bit 40 l" by (rule at_plus)
  moreover have c: "unat c < 2 ^ 24" using assms by (simp add: word_less_nat_alt)
  moreover have "unat (push_bit 40 c) = unat c * 2 ^ 40"
  proof -
    have "unat c * 2 ^ 40 < 2 ^ 64" using c by simp
    then have "take_bit 64 (unat c * 2 ^ 40) = unat c * 2 ^ 40" by (rule take_bit_nat_eq_self)
    moreover have "unat (push_bit 40 c) = take_bit LENGTH(64) (push_bit 40 (unat c))" by (rule unsigned_push_bit_eq)
    ultimately show ?thesis by (simp only: push_bit_eq_mult) simp
  qed
  moreover have "unat (take_bit 40 l) < 2 ^ 40" by (simp only: unsigned_take_bit_eq) (rule take_bit_nat_less_exp)
  ultimately show ?thesis by (simp add: unat_plus_if')
qed

lemma unat_low: "unat (take_bit 40 l :: u64) < 2 ^ 40"
  by (simp only: unsigned_take_bit_eq) (rule take_bit_nat_less_exp)

lemma mask_at: "kAppMemMsk = push_bit 40 0x78" "kAppMemXor = push_bit 40 4" "kShadowCell - 1 = mask 3" "kMetaShadowCell - 1 = mask 3"
  by (simp_all add: mapping_consts mask_eq_exp_minus_1)

lemma at_ops:
  "at c l AND NOT (push_bit 40 m OR mask 3) = at (c AND NOT m) (l AND NOT (mask 3))"
  "at c l XOR push_bit 40 m = at (c XOR m) l" "at c l OR push_bit 40 m = at (c OR m) l"
  unfolding at_def by (rule bit_word_eqI; auto simp: bit_simps)+

lemma cell_of_at: "at c l AND NOT (kAppMemMsk OR mask 3) = at (c AND NOT 0x78) (l AND NOT (mask 3))"
  and at_xor: "at c l XOR kAppMemXor = at (c XOR 4) l" and at_or: "at c l OR kAppMemMsk = at (c OR 0x78) l"
  unfolding mask_at by (rule at_ops)+

lemma MemToShadow_at: "MemToShadow (at c l) = push_bit 2 (at ((c AND NOT 0x78) XOR 4) (l AND NOT (mask 3)))"
  by (simp only: MemToShadow_def mask_at(3) cell_of_at at_xor) (simp add: kShadowCnt_def push_bit_eq_mult)

text \<open>Comparisons with an address at a multiple of \<open>2 ^ 40\<close> look at the upper byte only.\<close>

lemma div_cnt: "c < 2 ^ 22 \<Longrightarrow> push_bit 2 (at c l) div kShadowCnt = at c l"
proof -
  assume c: "c < 2 ^ 22"
  have u: "unat (at c l) < 2 ^ 62"
    using c unat_at [of c l] unat_low [of l] by (simp add: word_less_nat_alt)
  have "push_bit 2 (at c l) div kShadowCnt = drop_bit 2 (push_bit 2 (at c l))"
    by (simp add: kShadowCnt_def drop_bit_eq_div)
  also have "\<dots> = take_bit 62 (at c l)" by (rule bit_word_eqI) (auto simp: bit_simps)
  also have "\<dots> = at c l" using u by (simp add: word_unat_eq_iff unsigned_take_bit_eq take_bit_nat_eq_self)
  finally show ?thesis .
qed


definition cell_of :: "u64 \<Rightarrow> u64" where
  "cell_of a = a AND NOT (mask 3)"

lemma cell_of_split: "cell_of a = at (drop_bit 40 a) (a AND NOT (mask 3))"
proof -
  have "drop_bit 40 (cell_of a) = drop_bit 40 a" by (rule bit_word_eqI) (auto simp: cell_of_def bit_simps dest: bit_imp_le_length)
  then show ?thesis using at_split [of "cell_of a"] by (simp add: cell_of_def)
qed

lemma cell_of_le: "unat (cell_of a) \<le> unat a" "unat a \<le> unat (cell_of a) + 7" "2 ^ 3 dvd unat (cell_of a)"
  and cell_of_unat: "unat (cell_of a) = unat a div 8 * 8"
proof -
  have c: "cell_of a = push_bit 3 (drop_bit 3 a)"
    by (rule bit_word_eqI) (auto simp: cell_of_def bit_simps)
  have "unat (drop_bit 3 a) = unat a div 8" by (simp add: drop_bit_eq_div unat_div)
  moreover have "unat (push_bit 3 (drop_bit 3 a)) = take_bit LENGTH(64) (push_bit 3 (unat (drop_bit 3 a)))"
    by (rule unsigned_push_bit_eq)
  moreover have "take_bit 64 (unat a div 8 * 8) = unat a div 8 * 8"
    using unat_64_less [of a] by (intro take_bit_nat_eq_self) simp
  ultimately have "unat (cell_of a) = unat a div 8 * 8" by (simp add: c push_bit_eq_mult)
  then show "unat (cell_of a) \<le> unat a" "unat a \<le> unat (cell_of a) + 7" "2 ^ 3 dvd unat (cell_of a)"
    "unat (cell_of a) = unat a div 8 * 8" by simp_all
qed


lemma MemToShadow_cell: "MemToShadow (cell_of a) = MemToShadow a"
proof -
  have "cell_of a AND NOT (kAppMemMsk OR mask 3) = a AND NOT (kAppMemMsk OR mask 3)"
    by (rule bit_word_eqI) (auto simp: cell_of_def bit_simps)
  then show ?thesis by (simp add: MemToShadow_def mask_at(3))
qed

lemma at_add: "at c l + push_bit 40 d = at (c + d) l"
  unfolding at_plus push_bit_add by (simp only: ac_simps)

text \<open>The three candidates \<open>ShadowToMem\<close> tries, by the upper byte of the address.\<close>

lemma ShadowToMem_MemToShadow:
  assumes c: "drop_bit 40 a AND NOT 0x78 = m" "m < 2 ^ 8"
  shows "ShadowToMem (MemToShadow a) =
    (let p = at m (cell_of a); q = at (m + 0x50) (cell_of a) in
     if p \<ge> kLoAppMemBeg \<and> p < kLoAppMemEnd \<and> MemToShadow p = MemToShadow a then p
     else if q \<ge> kMidAppMemBeg \<and> q < kMidAppMemEnd \<and> MemToShadow q = MemToShadow a then q
     else at (m OR 0x78) (cell_of a))"
proof -
  have s: "MemToShadow a = push_bit 2 (at (m XOR 4) (cell_of a))"
    using MemToShadow_at [of "drop_bit 40 a" a] c(1) at_split [of a] by (simp add: cell_of_def)
  have x: "m XOR 4 < 2 ^ 22"
  proof -
    have "m = take_bit 8 m" using c(2) by (simp add: word_unat_eq_iff word_less_nat_alt unsigned_take_bit_eq take_bit_nat_eq_self)
    then have "m XOR 4 = take_bit 8 (m XOR 4)" by (simp add: take_bit_xor)
    then have "unat (m XOR 4) = take_bit 8 (unat (m XOR 4))" by (metis unsigned_take_bit_eq)
    then have "unat (m XOR 4) < 2 ^ 8" by (metis take_bit_nat_less_exp)
    then show ?thesis by (simp add: word_less_nat_alt)
  qed
  have p: "(MemToShadow a div kShadowCnt) XOR kAppMemXor = at m (cell_of a)"
    unfolding s div_cnt [OF x] at_xor by (simp add: xor.assoc)
  have msk: "kMidAppMemBeg AND kAppMemMsk = push_bit 40 0x50" by (simp add: mapping_consts)
  have q: "at m (cell_of a) + (kMidAppMemBeg AND kAppMemMsk) = at (m + 0x50) (cell_of a)"
    unfolding msk by (rule at_add)
  show ?thesis
    unfolding ShadowToMem_def Let_def p q at_or by simp
qed


section \<open>Properties\<close>

lemma upper_byte: "unat (a :: u64) = unat (drop_bit 40 a) * 2 ^ 40 + unat (take_bit 40 a)"
proof -
  have "drop_bit 40 a < 2 ^ 24"
    using unat_64_less [of a] by (simp add: word_less_nat_alt drop_bit_eq_div unat_div)
  then show ?thesis using unat_at [of "drop_bit 40 a" a] at_split [of a] by simp
qed

lemma app_bytes:
  assumes "IsAppMem a"
  shows "drop_bit 40 a = 0 \<or> drop_bit 40 a \<in> {0x55, 0x56} \<or> drop_bit 40 a = 0x7b \<or> drop_bit 40 a \<in> {0x7e, 0x7f}"
proof -
  have d: "unat (drop_bit 40 a) = unat a div 2 ^ 40" by (simp add: drop_bit_eq_div unat_div)
  have "unat a div 2 ^ 40 \<in> {0, 0x55, 0x56, 0x7b, 0x7e, 0x7f}"
    using assms unfolding IsAppMem_def mapping_consts word_le_nat_alt word_less_nat_alt by auto
  then show ?thesis unfolding d [symmetric] by (auto simp: word_unat_eq_iff)
qed

lemma app_roundtrip:
  assumes "IsAppMem a"
  shows "ShadowToMem (MemToShadow a) = a AND NOT 7"
proof -
  have cell: "a AND NOT 7 = cell_of a" by (simp add: cell_of_def mask_eq_exp_minus_1)
  note app = assms [unfolded IsAppMem_def mapping_consts word_le_nat_alt word_less_nat_alt]
  have l: "unat (take_bit 40 (cell_of a)) < 2 ^ 40" by (rule unat_low)
  have hi: "drop_bit 40 (cell_of a) = drop_bit 40 a"
    by (rule bit_word_eqI) (auto simp: cell_of_def bit_simps dest: bit_imp_le_length)
  have u: "unat (cell_of a) = unat (drop_bit 40 a) * 2 ^ 40 + unat (take_bit 40 (cell_of a))"
    using upper_byte [of "cell_of a"] hi by simp
  have same: "at (drop_bit 40 a) (cell_of a) = cell_of a" using at_split [of "cell_of a"] hi by simp
  have lo: "\<not> (at m (cell_of a) \<ge> kLoAppMemBeg \<and> at m (cell_of a) < kLoAppMemEnd)" if "m \<noteq> 0" "m < 2 ^ 8" for m
  proof -
    have "1 \<le> unat m" using that(1) by (simp add: unat_gt_0 Suc_le_eq)
    then have "2 ^ 40 \<le> unat (at m (cell_of a))"
      using unat_at [of m "cell_of a"] that(2) by (simp add: word_less_nat_alt)
    then show ?thesis unfolding mapping_consts word_le_nat_alt word_less_nat_alt by simp
  qed
  have "ShadowToMem (MemToShadow a) = cell_of a"
    using app_bytes [OF assms]
  proof (elim disjE)
    assume b: "drop_bit 40 a = 0"
    then have "at 0 (cell_of a) = cell_of a" using same by simp
    moreover have "kLoAppMemBeg \<le> cell_of a \<and> cell_of a < kLoAppMemEnd"
      using app u l cell_of_le [of a] b unfolding mapping_consts word_le_nat_alt word_less_nat_alt by auto
    ultimately show ?thesis
      using ShadowToMem_MemToShadow [of a 0] b MemToShadow_cell [of a] by (auto simp: Let_def)
  next
    assume b: "drop_bit 40 a \<in> {0x55, 0x56}"
    define m where "m = drop_bit 40 a AND NOT 0x78"
    have m: "m < 2 ^ 8" "m \<noteq> 0" "at (m + 0x50) (cell_of a) = cell_of a" using b same by (auto simp: m_def)
    have "kMidAppMemBeg \<le> cell_of a \<and> cell_of a < kMidAppMemEnd"
      using app u l cell_of_le [of a] b unfolding mapping_consts word_le_nat_alt word_less_nat_alt by auto
    then show ?thesis
      using ShadowToMem_MemToShadow [OF m_def [symmetric] m(1)] lo [OF m(2,1)] m(3) MemToShadow_cell [of a] by (auto simp: Let_def)
  next
    assume b: "drop_bit 40 a = 0x7b"
    have "\<not> at 0x53 (cell_of a) \<ge> kMidAppMemBeg"
      using unat_at [of "0x53" "cell_of a"] l unfolding mapping_consts word_le_nat_alt by simp
    then show ?thesis
      using ShadowToMem_MemToShadow [of a 3] lo [of 3] b same by (auto simp: Let_def)
  next
    assume b: "drop_bit 40 a \<in> {0x7e, 0x7f}"
    define m where "m = drop_bit 40 a AND NOT 0x78"
    have m: "m < 2 ^ 8" "m \<noteq> 0" "m OR 0x78 = drop_bit 40 a" using b by (auto simp: m_def)
    have "unat (m + 0x50) = unat (drop_bit 40 a) - 0x28" using b by (auto simp: m_def)
    moreover have "0x7e8000000000 \<le> unat (cell_of a)" unfolding cell_of_unat using app u cell_of_le [of a] l b by auto
    ultimately have "\<not> at (m + 0x50) (cell_of a) < kMidAppMemEnd"
      using unat_at [of "m + 0x50" "cell_of a"] app u l cell_of_le [of a] b
      unfolding mapping_consts word_less_nat_alt by auto
    then show ?thesis
      using ShadowToMem_MemToShadow [OF m_def [symmetric] m(1)] lo [OF m(2,1)] m(3) same by (auto simp: Let_def)
  qed
  then show ?thesis unfolding cell .
qed

text \<open>
  C20: The shadow mapping loses nothing: from the shadow address of any application address,
  \<open>ShadowToMem\<close> finds the start of its eight-byte cell, although the mapping drops four bits
  of the address and folds the four regions into one.
\<close>

theorem shadow_roundtrip:
  assumes "IsAppMem a"
  shows "ShadowToMem (MemToShadow a) = a AND NOT 7"
  by (rule app_roundtrip [OF assms])

theorem shadow_roundtrip_witness:
  "ShadowToMem (MemToShadow 0x7fff12345678) = 0x7fff12345678 \<and> ShadowToMem (MemToShadow 0x563412345677) = 0x563412345670"
  using shadow_roundtrip [of "0x7fff12345678"] shadow_roundtrip [of "0x563412345677"]
  by (simp add: IsAppMem_def mapping_consts)


lemma MemToShadow_unat:
  assumes "drop_bit 40 a AND NOT 0x78 XOR 4 = m" "m < 2 ^ 8"
  shows "unat (MemToShadow a) = 4 * (unat m * 2 ^ 40 + unat (take_bit 40 (cell_of a)))"
proof -
  have s: "MemToShadow a = push_bit 2 (at m (cell_of a))"
    using MemToShadow_at [of "drop_bit 40 a" a] assms(1) at_split [of a] by (simp add: cell_of_def)
  have u: "unat (at m (cell_of a)) = unat m * 2 ^ 40 + unat (take_bit 40 (cell_of a))"
    using assms(2) by (intro unat_at) (simp add: word_less_nat_alt)
  have "unat m < 2 ^ 8" using assms(2) by (simp add: word_less_nat_alt)
  then have "unat (at m (cell_of a)) * 4 < 2 ^ 64" using u unat_low [of "cell_of a"] by simp
  then have "take_bit 64 (unat (at m (cell_of a)) * 4) = unat (at m (cell_of a)) * 4" by (rule take_bit_nat_eq_self)
  moreover have "unat (push_bit 2 (at m (cell_of a))) = take_bit LENGTH(64) (push_bit 2 (unat (at m (cell_of a))))"
    by (rule unsigned_push_bit_eq)
  ultimately show ?thesis using s u by (simp add: push_bit_eq_mult)
qed

lemma MemToShadow_bounds:
  assumes "IsAppMem a"
  shows "unat kShadowBeg \<le> unat (MemToShadow a)" "unat (MemToShadow a) + 32 \<le> unat kShadowEnd" "32 dvd unat (MemToShadow a)"
proof -
  define m where "m = drop_bit 40 a AND NOT 0x78 XOR 4"
  have m: "m \<in> {4, 1, 2, 7, 3}" "m < 2 ^ 8" using app_bytes [OF assms] by (auto simp: m_def)
  note s = MemToShadow_unat [OF m_def [symmetric] m(2)]
  have hi: "drop_bit 40 (cell_of a) = drop_bit 40 a"
    by (rule bit_word_eqI) (auto simp: cell_of_def bit_simps dest: bit_imp_le_length)
  have d: "8 dvd unat (take_bit 40 (cell_of a))"
    using cell_of_le(3) [of a] upper_byte [of "cell_of a"] by (simp add: dvd_add_right_iff)
  then show "32 dvd unat (MemToShadow a)" unfolding s by (auto elim!: dvdE intro!: dvdI [of _ _ "unat m * 2 ^ 37 + k" for k])
  show "unat kShadowBeg \<le> unat (MemToShadow a)" using m unfolding s by (auto simp: mapping_consts)
  obtain k where k: "unat (take_bit 40 (cell_of a)) = 8 * k" using d by blast
  then have "k < 2 ^ 37" using unat_low [of "cell_of a"] by simp
  then show "unat (MemToShadow a) + 32 \<le> unat kShadowEnd" using m k unfolding s by (auto simp: mapping_consts)
qed

text \<open>
  Every cell of application memory has four shadow words of its own, inside the shadow
  region: the shadow ranges of addresses in different cells are disjoint.
\<close>

theorem shadow_cells_disjoint:
  assumes "IsAppMem a" "IsAppMem b" "a AND NOT 7 \<noteq> b AND NOT 7"
  shows "unat kShadowBeg \<le> unat (MemToShadow a) \<and> unat (MemToShadow a) + 32 \<le> unat kShadowEnd \<and>
    (unat (MemToShadow a) + 32 \<le> unat (MemToShadow b) \<or> unat (MemToShadow b) + 32 \<le> unat (MemToShadow a))"
proof -
  have "MemToShadow a \<noteq> MemToShadow b"
    using app_roundtrip [OF assms(1)] app_roundtrip [OF assms(2)] assms(3) by metis
  then have "unat (MemToShadow a) \<noteq> unat (MemToShadow b)" by (simp only: word_unat_eq_iff not_False_eq_True)
  moreover obtain i j where "unat (MemToShadow a) = 32 * i" "unat (MemToShadow b) = 32 * j"
    using MemToShadow_bounds(3) assms(1,2) by (metis dvdE)
  ultimately show ?thesis using MemToShadow_bounds(1,2) [OF assms(1)] by auto
qed

theorem shadow_cells_disjoint_witness:
  "unat (MemToShadow 0x7fff12345678) + 32 \<le> unat (MemToShadow 0x7fff12345680)"
  using shadow_cells_disjoint [of "0x7fff12345678" "0x7fff12345680"]
  by (simp add: IsAppMem_def mapping_consts) (simp add: MemToShadow_def mapping_consts)

end
