(* ===== verification/Shadow.thy ===== *)
theory Shadow
  imports ShadowMapping SyncClock
begin

text \<open>
  The packed words of \<open>tsan/rtl/tsan_rtl.h\<close>: the state of a thread that every access looks at
  (\<open>FastState\<close>) and the record of an access in shadow memory (\<open>Shadow\<close>), and the two searches of
  \<open>tsan_rtl.cpp\<close> for an access that is already recorded, the plain one and the SSE one.
\<close>

section \<open>FastState\<close>

text \<open>From bit 63 down: ignore, 13 bits of thread number, unused, 3 bits of history size, 42 bits of epoch.\<close>

definition kTidBits :: nat where "kTidBits = 13"
definition kTidShift :: nat where "kTidShift = 64 - kTidBits - 1"
definition kIgnoreBit :: u64 where "kIgnoreBit = push_bit 63 1"
definition kFreedBit :: u64 where "kFreedBit = push_bit 63 1"
definition kHistoryShift :: nat where "kHistoryShift = kClkBits"
definition kHistoryMask :: u64 where "kHistoryMask = 7"

definition FastState_new :: "u64 \<Rightarrow> u64 \<Rightarrow> u64" where
  "FastState_new tid epoch = push_bit kTidShift tid OR epoch"

definition fs_tid :: "u64 \<Rightarrow> u64" where
  "fs_tid x = drop_bit kTidShift (x AND NOT kIgnoreBit)"

definition TidWithIgnore :: "u64 \<Rightarrow> u64" where
  "TidWithIgnore x = drop_bit kTidShift x"

definition fs_epoch :: "u64 \<Rightarrow> u64" where
  "fs_epoch x = x AND (push_bit kClkBits 1 - 1)"

definition IncrementEpoch :: "u64 \<Rightarrow> u64" where
  "IncrementEpoch x = x + 1"

definition SetIgnoreBit :: "u64 \<Rightarrow> u64" where
  "SetIgnoreBit x = x OR kIgnoreBit"

definition ClearIgnoreBit :: "u64 \<Rightarrow> u64" where
  "ClearIgnoreBit x = x AND NOT kIgnoreBit"

definition GetIgnoreBit :: "u64 \<Rightarrow> bool" where
  "GetIgnoreBit x \<longleftrightarrow> x <s 0"

definition SetHistorySize :: "int \<Rightarrow> u64 \<Rightarrow> u64 option" where
  "SetHistorySize hs x =
     (if hs < 0 \<or> hs > 7 then None
      else Some ((x AND NOT (push_bit kHistoryShift kHistoryMask)) OR push_bit kHistoryShift (of_int hs)))"

definition GetHistorySize :: "u64 \<Rightarrow> int" where
  "GetHistorySize x = uint (drop_bit kHistoryShift x AND kHistoryMask)"

definition ClearHistorySize :: "u64 \<Rightarrow> u64 option" where
  "ClearHistorySize x = SetHistorySize 0 x"

text \<open>\<open>kTracePartSizeBits\<close> is 13 (\<open>tsan_trace.h\<close>).\<close>

definition kTracePartSizeBits :: nat where "kTracePartSizeBits = 13"

definition GetTracePos :: "u64 \<Rightarrow> u64" where
  "GetTracePos x =
     (let hs = GetHistorySize x; m = push_bit (kTracePartSizeBits + nat hs + 1) 1 - 1 in fs_epoch x AND m)"

section \<open>Shadow\<close>

text \<open>
  From bit 63 down: freed, 13 bits of thread number, one unused bit, atomic, read, 2 bits of the
  logarithm of the size, 3 bits of the offset in the cell, 42 bits of epoch.
\<close>

definition kReadShift :: nat where "kReadShift = 5 + kClkBits"
definition kReadBit :: u64 where "kReadBit = push_bit kReadShift 1"
definition kAtomicShift :: nat where "kAtomicShift = 6 + kClkBits"
definition kAtomicBit :: u64 where "kAtomicBit = push_bit kAtomicShift 1"

definition Shadow_of :: "u64 \<Rightarrow> u64" where
  "Shadow_of fs = the (ClearHistorySize fs)"

definition SetAddr0AndSizeLog :: "u64 \<Rightarrow> u64 \<Rightarrow> u64 \<Rightarrow> u64" where
  "SetAddr0AndSizeLog addr0 size_log x = x OR push_bit kClkBits (push_bit 3 size_log OR addr0)"

definition SetWrite :: "bool \<Rightarrow> u64 \<Rightarrow> u64" where
  "SetWrite is_write x = (if \<not> is_write then x OR kReadBit else x)"

definition SetAtomic :: "bool \<Rightarrow> u64 \<Rightarrow> u64" where
  "SetAtomic is_atomic x = (if is_atomic then x OR kAtomicBit else x)"

definition IsAtomic :: "u64 \<Rightarrow> bool" where
  "IsAtomic x \<longleftrightarrow> x AND kAtomicBit \<noteq> 0"

definition IsZero :: "u64 \<Rightarrow> bool" where
  "IsZero x \<longleftrightarrow> x = 0"

definition TidsAreEqual :: "u64 \<Rightarrow> u64 \<Rightarrow> bool" where
  "TidsAreEqual s1 s2 \<longleftrightarrow> drop_bit kTidShift (s1 XOR s2) = 0"

definition Addr0AndSizeAreEqual :: "u64 \<Rightarrow> u64 \<Rightarrow> bool" where
  "Addr0AndSizeAreEqual s1 s2 \<longleftrightarrow> drop_bit kClkBits (s1 XOR s2) AND 31 = 0"

definition addr0 :: "u64 \<Rightarrow> u64" where
  "addr0 x = drop_bit kClkBits x AND 7"

definition size_log :: "u64 \<Rightarrow> u64" where
  "size_log x = drop_bit (3 + kClkBits) x AND 3"

definition sh_size :: "u64 \<Rightarrow> u64" where
  "sh_size x = push_bit (unat (size_log x)) 1"

definition IsRead :: "u64 \<Rightarrow> bool" where
  "IsRead x \<longleftrightarrow> x AND kReadBit \<noteq> 0"

definition IsWrite :: "u64 \<Rightarrow> bool" where
  "IsWrite x \<longleftrightarrow> \<not> IsRead x"

text \<open>The size of the second access is a \<open>unsigned\<close>; its comparisons are made at 64 bits.\<close>

definition TwoRangesIntersect :: "u64 \<Rightarrow> u64 \<Rightarrow> u32 \<Rightarrow> bool" where
  "TwoRangesIntersect s1 s2 s2_size =
     (let diff = addr0 s1 - addr0 s2 in
      if diff <s 0 then sh_size s1 > - diff else ucast s2_size > diff)"

definition TwoRangesIntersectSlow :: "u64 \<Rightarrow> u64 \<Rightarrow> bool" where
  "TwoRangesIntersectSlow s1 s2 =
     (if addr0 s1 = addr0 s2 then True
      else if addr0 s1 < addr0 s2 \<and> addr0 s1 + sh_size s1 > addr0 s2 then True
      else if addr0 s2 < addr0 s1 \<and> addr0 s2 + sh_size s2 > addr0 s1 then True
      else False)"

definition MarkAsFreed :: "u64 \<Rightarrow> u64" where
  "MarkAsFreed x = x OR kFreedBit"

definition IsFreed :: "u64 \<Rightarrow> bool" where
  "IsFreed x \<longleftrightarrow> x AND kFreedBit \<noteq> 0"

definition GetFreedAndReset :: "u64 \<Rightarrow> bool \<times> u64" where
  "GetFreedAndReset x = (x AND kFreedBit \<noteq> 0, x AND NOT kFreedBit)"

definition IsBothReadsOrAtomic :: "bool \<Rightarrow> bool \<Rightarrow> u64 \<Rightarrow> bool" where
  "IsBothReadsOrAtomic is_write is_atomic x \<longleftrightarrow>
     x AND (push_bit kReadShift (of_bool is_write XOR 1) OR push_bit kAtomicShift (of_bool is_atomic)) \<noteq> 0"

definition IsRWNotWeaker :: "bool \<Rightarrow> bool \<Rightarrow> u64 \<Rightarrow> bool" where
  "IsRWNotWeaker is_write is_atomic x \<longleftrightarrow>
     drop_bit kReadShift x AND 3 \<le> ((of_bool is_write XOR 1) OR push_bit 1 (of_bool is_atomic))"

definition IsRWWeakerOrEqual :: "bool \<Rightarrow> bool \<Rightarrow> u64 \<Rightarrow> bool" where
  "IsRWWeakerOrEqual is_write is_atomic x \<longleftrightarrow>
     drop_bit kReadShift x AND 3 \<ge> ((of_bool is_write XOR 1) OR push_bit 1 (of_bool is_atomic))"

section \<open>The search for the same access\<close>

text \<open>\<open>ContainsSameAccessSlow\<close>: \<open>s\<close> holds the four shadow words of the cell.\<close>

definition ContainsSameAccessSlow :: "u64 list \<Rightarrow> u64 \<Rightarrow> u64 \<Rightarrow> bool \<Rightarrow> bool" where
  "ContainsSameAccessSlow s a sync_epoch is_write =
     list_ex (\<lambda>i. let cur = a; old = s ! i in
        Addr0AndSizeAreEqual cur old \<and> TidWithIgnore old = TidWithIgnore cur \<and>
        fs_epoch old > sync_epoch \<and> IsAtomic old = IsAtomic cur \<and> IsRead old \<le> IsRead cur) [0..<4]"

text \<open>
  \<open>ContainsSameAccessFast\<close>, on vectors of four 32-bit lanes. \<open>SHUF\<close> takes two lanes of each of
  its vectors; the comparisons give a mask of ones and zeros in each lane, the greater-than one as signed.
\<close>

type_synonym m128 = "u32 list"

definition mm_cvtsi64 :: "u64 \<Rightarrow> m128" where
  "mm_cvtsi64 a = [ucast a, ucast (drop_bit 32 a), 0, 0]"

definition mm_load :: "u64 list \<Rightarrow> nat \<Rightarrow> m128" where
  "mm_load s i = [ucast (s ! i), ucast (drop_bit 32 (s ! i)), ucast (s ! Suc i), ucast (drop_bit 32 (s ! Suc i))]"

definition SHUF :: "m128 \<Rightarrow> m128 \<Rightarrow> nat \<Rightarrow> nat \<Rightarrow> nat \<Rightarrow> nat \<Rightarrow> m128" where
  "SHUF v0 v1 i0 i1 i2 i3 = [v0 ! i0, v0 ! i1, v1 ! i2, v1 ! i3]"

definition mm_or :: "m128 \<Rightarrow> m128 \<Rightarrow> m128" where
  "mm_or = map2 (OR)"

definition mm_and :: "m128 \<Rightarrow> m128 \<Rightarrow> m128" where
  "mm_and = map2 (AND)"

definition mm_cmpeq :: "m128 \<Rightarrow> m128 \<Rightarrow> m128" where
  "mm_cmpeq = map2 (\<lambda>x y. if x = y then - 1 else 0)"

definition mm_cmpgt :: "m128 \<Rightarrow> m128 \<Rightarrow> m128" where
  "mm_cmpgt = map2 (\<lambda>x y. if y <s x then - 1 else 0)"

text \<open>The sign bits of the sixteen bytes.\<close>

definition mm_movemask :: "m128 \<Rightarrow> bool list" where
  "mm_movemask v = concat (map (\<lambda>x. [bit x 7, bit x 15, bit x 23, bit x 31]) v)"

definition ContainsSameAccessFast :: "u64 list \<Rightarrow> u64 \<Rightarrow> u64 \<Rightarrow> bool \<Rightarrow> bool" where
  "ContainsSameAccessFast s a sync_epoch is_write =
     (let access = mm_cvtsi64 a;
          addr0 = SHUF access access 1 1 1 1;
          shadow0 = mm_load s 0;
          shadow1 = mm_load s 2;
          addr_vect = SHUF shadow0 shadow1 1 3 1 3;
          addr_vect = (if \<not> is_write
                       then (let rw_mask1 = mm_cvtsi64 (push_bit 15 1) in mm_or addr_vect (SHUF rw_mask1 rw_mask1 0 0 0 0))
                       else addr_vect);
          addr_res = mm_cmpeq addr0 addr_vect;
          epoch1 = mm_cvtsi64 sync_epoch;
          epoch = SHUF epoch1 epoch1 0 0 0 0;
          epoch_vect = SHUF shadow0 shadow1 0 2 0 2;
          epoch_res = mm_cmpgt epoch_vect epoch;
          res = mm_and addr_res epoch_res
      in True \<in> set (mm_movemask res))"

section \<open>Fields as bits\<close>

lemmas shadow_shifts = kTidBits_def kTidShift_def kHistoryShift_def kReadShift_def kAtomicShift_def kClkBits_def

lemma mask_shift: "push_bit n 1 - 1 = (mask n :: u64)"
  by (simp add: mask_eq_exp_minus_1)

lemma fs_epoch_bits: "fs_epoch x = take_bit 42 x"
  unfolding fs_epoch_def mask_shift shadow_shifts by (simp add: take_bit_eq_mask)

lemma addr0_bits: "addr0 x = take_bit 3 (drop_bit 42 x)"
  by (simp add: addr0_def shadow_shifts take_bit_eq_mask mask_eq_exp_minus_1)

lemma size_log_bits: "size_log x = take_bit 2 (drop_bit 45 x)"
  by (simp add: size_log_def shadow_shifts take_bit_eq_mask mask_eq_exp_minus_1)

lemma IsRead_bit: "IsRead x \<longleftrightarrow> bit x 47"
  unfolding IsRead_def kReadBit_def shadow_shifts by (simp add: bit_iff_and_push_bit_not_eq_0 del: push_bit_of_1)

lemma IsAtomic_bit: "IsAtomic x \<longleftrightarrow> bit x 48"
  unfolding IsAtomic_def kAtomicBit_def shadow_shifts by (simp add: bit_iff_and_push_bit_not_eq_0 del: push_bit_of_1)

lemma IsFreed_bit: "IsFreed x \<longleftrightarrow> bit x 63"
  unfolding IsFreed_def kFreedBit_def by (simp add: bit_iff_and_push_bit_not_eq_0 del: push_bit_of_1)

lemma GetIgnoreBit_bit: "GetIgnoreBit x \<longleftrightarrow> bit x 63"
  using bit_last_iff [of x] by (simp add: GetIgnoreBit_def word_sless_alt)

lemma TidWithIgnore_bits: "TidWithIgnore x = drop_bit 50 x"
  by (simp add: TidWithIgnore_def shadow_shifts)

lemma fs_tid_bits: "fs_tid x = take_bit 13 (drop_bit 50 x)"
  by (rule bit_word_eqI) (auto simp: fs_tid_def kIgnoreBit_def shadow_shifts bit_simps simp del: push_bit_of_1)

lemma xor_zero_iff: "x XOR y = 0 \<longleftrightarrow> x = (y :: u64)"
  by (auto simp: bit_eq_iff bit_simps)

lemma Addr0AndSizeAreEqual_bits: "Addr0AndSizeAreEqual x y \<longleftrightarrow> take_bit 5 (drop_bit 42 x) = take_bit 5 (drop_bit 42 y)"
proof -
  have "drop_bit kClkBits (x XOR y) AND 31 = take_bit 5 (drop_bit 42 x) XOR take_bit 5 (drop_bit 42 y)"
  proof -
    have m: "31 = (mask 5 :: u64)" by (simp add: mask_eq_exp_minus_1)
    show ?thesis unfolding shadow_shifts m by (rule bit_word_eqI) (auto simp: bit_simps)
  qed
  then show ?thesis by (simp add: Addr0AndSizeAreEqual_def xor_zero_iff)
qed

lemma TidsAreEqual_bits: "TidsAreEqual x y \<longleftrightarrow> TidWithIgnore x = TidWithIgnore y"
  by (simp add: TidsAreEqual_def TidWithIgnore_def drop_bit_xor xor_zero_iff)

lemmas shadow_bits = fs_epoch_bits addr0_bits size_log_bits IsRead_bit IsAtomic_bit IsFreed_bit GetIgnoreBit_bit
  TidWithIgnore_bits fs_tid_bits Addr0AndSizeAreEqual_bits

end
