(* ===== verification/ShadowProperties.thy ===== *)
theory ShadowProperties
  imports Shadow
begin

text \<open>
  The packed access record keeps its fields apart, its comparisons mean what the debug checks of
  the source say, and the SSE search for a recorded access agrees with the plain one as long as
  epochs are below \<open>2 ^ 31\<close>.
\<close>

section \<open>Fields\<close>

text \<open>A \<open>FastState\<close> as the runtime builds it: the five bits between the history size and the thread
  number are clear, and accesses are not ignored.\<close>

definition fs_wf :: "u64 \<Rightarrow> bool" where
  "fs_wf x \<longleftrightarrow> take_bit 5 (drop_bit 45 x) = 0 \<and> \<not> GetIgnoreBit x"

lemma fs_wf_bits: "fs_wf x \<longleftrightarrow> (\<forall>n \<in> {45, 46, 47, 48, 49, 63}. \<not> bit x n)"
proof -
  have "take_bit 5 (drop_bit 45 x) = 0 \<longleftrightarrow> (\<forall>n < 5. \<not> bit x (45 + n))"
    by (auto simp: bit_eq_iff bit_simps dest: bit_imp_le_length)
  also have "\<dots> \<longleftrightarrow> (\<forall>n \<in> {45, 46, 47, 48, 49}. \<not> bit x n)"
    by (auto simp: numeral_eq_Suc less_Suc_eq)
  finally show ?thesis by (auto simp: fs_wf_def GetIgnoreBit_bit)
qed

lemma Shadow_of_bits: "Shadow_of x = x AND NOT (push_bit 42 7)"
  by (simp add: Shadow_of_def ClearHistorySize_def SetHistorySize_def kHistoryMask_def shadow_shifts)

definition shadow_cur :: "u64 \<Rightarrow> u64 \<Rightarrow> u64 \<Rightarrow> bool \<Rightarrow> bool \<Rightarrow> u64" where
  "shadow_cur fast_state off szl is_write is_atomic =
     SetAtomic is_atomic (SetWrite is_write (SetAddr0AndSizeLog off szl (Shadow_of fast_state)))"

lemma set_field_bits:
  "bit (SetAtomic a x) n \<longleftrightarrow> bit x n \<or> (a \<and> n = 48)" "bit (SetWrite w x) n \<longleftrightarrow> bit x n \<or> (\<not> w \<and> n = 47)"
  "bit (SetAddr0AndSizeLog off szl x) n \<longleftrightarrow>
     bit x n \<or> (42 \<le> n \<and> n < 64 \<and> (bit off (n - 42) \<or> 45 \<le> n \<and> bit szl (n - 45)))"
  "bit (Shadow_of x) n \<longleftrightarrow> bit x n \<and> \<not> (42 \<le> n \<and> n < 45)"
proof -
  show "bit (SetAtomic a x) n \<longleftrightarrow> bit x n \<or> (a \<and> n = 48)"
    by (auto simp: SetAtomic_def kAtomicBit_def shadow_shifts bit_simps simp del: push_bit_of_1)
  show "bit (SetWrite w x) n \<longleftrightarrow> bit x n \<or> (\<not> w \<and> n = 47)"
    by (auto simp: SetWrite_def kReadBit_def shadow_shifts bit_simps simp del: push_bit_of_1)
  show "bit (SetAddr0AndSizeLog off szl x) n \<longleftrightarrow>
     bit x n \<or> (42 \<le> n \<and> n < 64 \<and> (bit off (n - 42) \<or> 45 \<le> n \<and> bit szl (n - 45)))"
    by (auto simp: SetAddr0AndSizeLog_def shadow_shifts bit_simps)
  have seven: "(7 :: u64) = mask 3" by (simp add: mask_eq_exp_minus_1)
  show "bit (Shadow_of x) n \<longleftrightarrow> bit x n \<and> \<not> (42 \<le> n \<and> n < 45)"
    unfolding Shadow_of_bits seven by (auto simp: bit_simps dest: bit_imp_le_length)
qed

lemma small_bits: "unat (x :: u64) < 2 ^ k \<Longrightarrow> k \<le> n \<Longrightarrow> \<not> bit x n"
proof -
  assume "unat x < 2 ^ k" "k \<le> n"
  then have "take_bit k x = x" by (simp add: word_unat_eq_iff unsigned_take_bit_eq take_bit_nat_eq_self)
  then show ?thesis using \<open>k \<le> n\<close> by (metis bit_take_bit_iff not_less)
qed

lemma shadow_cur_bit:
  assumes "fs_wf fs" "off < 8" "szl < 4"
  shows "bit (shadow_cur fs off szl w a) n \<longleftrightarrow>
    (if n < 42 \<or> 50 \<le> n then bit fs n else if n < 45 then bit off (n - 42) else if n < 47 then bit szl (n - 45)
     else if n = 47 then \<not> w else if n = 48 then a else False)"
proof -
  have off: "\<not> bit off k" if "3 \<le> k" for k using small_bits [of off 3 k] assms(2) that by (simp add: word_less_nat_alt)
  have szl: "\<not> bit szl k" if "2 \<le> k" for k using small_bits [of szl 2 k] assms(3) that by (simp add: word_less_nat_alt)
  consider "n < 42" | "42 \<le> n" "n < 45" | "n = 45" | "n = 46" | "n = 47" | "n = 48" | "n = 49" | "50 \<le> n" by linarith
  then show ?thesis
    using assms(1) off szl
    by cases (auto simp: shadow_cur_def set_field_bits fs_wf_bits dest: bit_imp_le_length)
qed

lemma shadow_cur_fields:
  fixes w a :: bool
  assumes "fs_wf fs" "off < 8" "szl < 4"
  defines "cur \<equiv> shadow_cur fs off szl w a"
  shows "fs_epoch cur = fs_epoch fs" "TidWithIgnore cur = TidWithIgnore fs" "fs_tid cur = fs_tid fs" "addr0 cur = off"
    "size_log cur = szl" "IsWrite cur \<longleftrightarrow> w" "IsAtomic cur \<longleftrightarrow> a" "\<not> IsFreed cur" "\<not> bit cur 49"
proof -
  note B = shadow_cur_bit [OF assms(1-3), of w a, folded cur_def]
  have off: "\<not> bit off k" if "3 \<le> k" for k using small_bits [of off 3 k] assms(2) that by (simp add: word_less_nat_alt)
  have szl: "\<not> bit szl k" if "2 \<le> k" for k using small_bits [of szl 2 k] assms(3) that by (simp add: word_less_nat_alt)
  show "fs_epoch cur = fs_epoch fs" "TidWithIgnore cur = TidWithIgnore fs" "fs_tid cur = fs_tid fs"
    unfolding shadow_bits by (rule bit_word_eqI; auto simp: B bit_simps)+
  show "addr0 cur = off" unfolding shadow_bits
    by (rule bit_word_eqI) (auto simp: B bit_simps not_less dest: off)
  show "size_log cur = szl" unfolding shadow_bits
    by (rule bit_word_eqI) (auto simp: B bit_simps not_less dest: szl)
  show "IsWrite cur \<longleftrightarrow> w" "IsAtomic cur \<longleftrightarrow> a" "\<not> IsFreed cur" "\<not> bit cur 49"
    using assms(1) by (simp_all add: IsWrite_def shadow_bits B fs_wf_bits)
qed

section \<open>Comparisons\<close>

lemma rw_field: "drop_bit kReadShift x AND 3 = of_bool (IsRead x) OR push_bit 1 (of_bool (IsAtomic x))"
proof -
  have three: "(3 :: u64) = mask 2" by (simp add: mask_eq_exp_minus_1)
  have two: "n < 2 \<longleftrightarrow> n = 0 \<or> n = 1" for n :: nat by auto
  show ?thesis unfolding three shadow_shifts IsRead_bit IsAtomic_bit
    by (rule bit_word_eqI) (auto simp: bit_simps two)
qed

lemma addr0_less: "unat (addr0 x) < 8" and size_log_less: "unat (size_log x) < 4"
  unfolding addr0_bits size_log_bits unsigned_take_bit_eq
  using take_bit_nat_less_exp [of 3 "unat (drop_bit 42 x)"] take_bit_nat_less_exp [of 2 "unat (drop_bit 45 x)"] by simp_all

lemma sh_size_unat: "unat (sh_size x) = 2 ^ unat (size_log x)" "unat (sh_size x) \<le> 8"
proof -
  have "unat (size_log x) \<in> {0, 1, 2, 3}" using size_log_less [of x] by auto
  then show "unat (sh_size x) = 2 ^ unat (size_log x)" "unat (sh_size x) \<le> 8" by (auto simp: sh_size_def)
qed

text \<open>The bytes of its cell an access covers.\<close>

definition sh_bytes :: "u64 \<Rightarrow> nat set" where
  "sh_bytes x = {unat (addr0 x)..<unat (addr0 x) + unat (sh_size x)}"

lemma intersect_slow: "TwoRangesIntersectSlow s1 s2 \<longleftrightarrow> sh_bytes s1 \<inter> sh_bytes s2 \<noteq> {}"
proof -
  have pos: "1 \<le> unat (sh_size x)" for x by (simp add: sh_size_unat)
  have p: "unat (addr0 x + sh_size x) = unat (addr0 x) + unat (sh_size x)" for x
    using addr0_less [of x] sh_size_unat(2) [of x] by (simp add: unat_plus_if')
  have ne: "{a..<a + m} \<inter> {b..<b + n} \<noteq> {} \<longleftrightarrow> a < b + n \<and> b < a + m" if "1 \<le> m" "1 \<le> n" for a b m n :: nat
  proof
    assume "a < b + n \<and> b < a + m"
    then have "max a b \<in> {a..<a + m} \<inter> {b..<b + n}" using that by auto
    then show "{a..<a + m} \<inter> {b..<b + n} \<noteq> {}" by blast
  qed auto
  show ?thesis
    unfolding sh_bytes_def ne [OF pos pos] TwoRangesIntersectSlow_def word_less_nat_alt p word_unat_eq_iff
    using pos [of s1] pos [of s2] by auto
qed

lemma intersect_fast:
  assumes "unat sz = unat (sh_size s2)"
  shows "TwoRangesIntersect s1 s2 sz = TwoRangesIntersectSlow s1 s2"
proof -
  let ?a = "unat (addr0 s1)" and ?b = "unat (addr0 s2)"
  have ab: "?a < 8" "?b < 8" using addr0_less by blast+
  have u: "unat (ucast sz :: u64) = unat (sh_size s2)" using assms unat_64_less [of "sh_size s2"] by (simp add: unsigned_ucast_eq take_bit_nat_eq_self)
  have sz: "unat (sh_size s1) \<le> 8" "unat (sh_size s2) \<le> 8" "1 \<le> unat (sh_size s1)" "1 \<le> unat (sh_size s2)"
    by (simp_all add: sh_size_unat(2)) (simp_all add: sh_size_unat(1))
  have p: "unat (addr0 x + sh_size x) = unat (addr0 x) + unat (sh_size x)" for x
    using addr0_less [of x] sh_size_unat(2) [of x] by (simp add: unat_plus_if')
  show ?thesis
  proof (cases "?a < ?b")
    case True
    have d: "unat (addr0 s1 - addr0 s2) = 2 ^ 64 - (?b - ?a)" using True ab by (simp add: unat_sub_if')
    have "- (addr0 s1 - addr0 s2) = addr0 s2 - addr0 s1" by simp
    then have n: "unat (- (addr0 s1 - addr0 s2)) = ?b - ?a" using True by (simp add: unat_sub_if')
    have neg: "addr0 s1 - addr0 s2 <s 0"
    proof -
      have "unat (addr0 s1 - addr0 s2) div 2 ^ 63 = 1" using d True ab by (intro div_nat_eqI) simp_all
      then have "bit (unat (addr0 s1 - addr0 s2)) 63" by (simp add: bit_iff_odd)
      then show ?thesis by (simp add: bit_unsigned_iff GetIgnoreBit_bit flip: GetIgnoreBit_def)
    qed
    show ?thesis
      unfolding TwoRangesIntersect_def TwoRangesIntersectSlow_def Let_def word_less_nat_alt p word_unat_eq_iff n
      using True neg sz by auto
  next
    case False
    have d: "unat (addr0 s1 - addr0 s2) = ?a - ?b" using False by (simp add: unat_sub_if')
    have nn: "\<not> addr0 s1 - addr0 s2 <s 0"
      using small_bits [of "addr0 s1 - addr0 s2" 3 63] d ab by (simp add: GetIgnoreBit_bit flip: GetIgnoreBit_def)
    show ?thesis
      unfolding TwoRangesIntersect_def TwoRangesIntersectSlow_def Let_def word_less_nat_alt p word_unat_eq_iff d u
      using False nn sz by auto
  qed
qed

lemma rw_compare:
  "IsBothReadsOrAtomic w a x \<longleftrightarrow> (\<not> IsWrite x \<and> \<not> w) \<or> (IsAtomic x \<and> a)"
  "IsRWNotWeaker w a x \<longleftrightarrow> (\<not> IsAtomic x \<and> a) \<or> (IsAtomic x = a \<and> (\<not> IsWrite x \<longrightarrow> \<not> w))"
  "IsRWWeakerOrEqual w a x \<longleftrightarrow> (IsAtomic x \<and> \<not> a) \<or> (IsAtomic x = a \<and> (\<not> w \<longrightarrow> \<not> IsWrite x))"
proof -
  have single: "x AND push_bit n 1 \<noteq> 0 \<longleftrightarrow> bit x n" for n by (simp add: bit_iff_and_push_bit_not_eq_0 del: push_bit_of_1)
  have both: "x AND (push_bit m 1 OR push_bit n 1) \<noteq> 0 \<longleftrightarrow> bit x m \<or> bit x n" for m n
    unfolding single [symmetric] by (simp add: bit.conj_disj_distrib or_eq_0_iff del: push_bit_of_1)
  show "IsBothReadsOrAtomic w a x \<longleftrightarrow> (\<not> IsWrite x \<and> \<not> w) \<or> (IsAtomic x \<and> a)"
    unfolding IsBothReadsOrAtomic_def shadow_shifts IsWrite_def IsRead_bit IsAtomic_bit
    by (cases w; cases a) (simp_all add: single both del: push_bit_of_1)
  show "IsRWNotWeaker w a x \<longleftrightarrow> (\<not> IsAtomic x \<and> a) \<or> (IsAtomic x = a \<and> (\<not> IsWrite x \<longrightarrow> \<not> w))"
    unfolding IsRWNotWeaker_def rw_field IsWrite_def by (cases w; cases a; cases "IsRead x"; cases "IsAtomic x") (simp_all add: word_le_nat_alt)
  show "IsRWWeakerOrEqual w a x \<longleftrightarrow> (IsAtomic x \<and> \<not> a) \<or> (IsAtomic x = a \<and> (\<not> w \<longrightarrow> \<not> IsWrite x))"
    unfolding IsRWWeakerOrEqual_def rw_field IsWrite_def by (cases w; cases a; cases "IsRead x"; cases "IsAtomic x") (simp_all add: word_le_nat_alt)
qed


section \<open>The SSE search\<close>

definition hi :: "u64 \<Rightarrow> u32" where "hi x = ucast (drop_bit 32 x)"
definition lo :: "u64 \<Rightarrow> u32" where "lo x = ucast x"

lemma lanes:
  "SHUF (mm_load s 0) (mm_load s 2) 1 3 1 3 = [hi (s ! 0), hi (s ! 1), hi (s ! 2), hi (s ! 3)]"
  "SHUF (mm_load s 0) (mm_load s 2) 0 2 0 2 = [lo (s ! 0), lo (s ! 1), lo (s ! 2), lo (s ! 3)]"
  "SHUF (mm_cvtsi64 x) (mm_cvtsi64 x) 1 1 1 1 = [hi x, hi x, hi x, hi x]"
  "SHUF (mm_cvtsi64 x) (mm_cvtsi64 x) 0 0 0 0 = [lo x, lo x, lo x, lo x]"
  by (simp_all add: SHUF_def mm_load_def mm_cvtsi64_def hi_def lo_def eval_nat_numeral)

lemma movemask_bools:
  "True \<in> set (mm_movemask [if p then - 1 else 0, if q then - 1 else 0, if r then - 1 else 0, if t then - 1 else 0])
     \<longleftrightarrow> p \<or> q \<or> r \<or> t"
  by (simp add: mm_movemask_def)

lemma and_bools: "(if p then - 1 else 0) AND (if q then - 1 else 0) = (if p \<and> q then - 1 else 0 :: u32)"
  by simp

lemma map2_four: "map2 f [a, b, c, d] [a', b', c', d'] = [f a a', f b b', f c c', f d d']"
  by simp

lemma fast_lanes:
  "ContainsSameAccessFast s a sync_epoch w \<longleftrightarrow>
    (\<exists>i \<in> {0, 1, 2, 3}. hi a = (if w then hi (s ! i) else hi (s ! i) OR push_bit 15 1) \<and> lo sync_epoch <s lo (s ! i))"
proof -
  have d: "lo (push_bit 15 1) = push_bit 15 1" by (simp add: lo_def)
  show ?thesis
  proof (cases w)
    case True
    show ?thesis
      unfolding ContainsSameAccessFast_def Let_def mm_and_def mm_cmpeq_def mm_cmpgt_def lanes map2_four and_bools
      using True by (simp only: lanes map2_four and_bools movemask_bools not_True_eq_False if_False if_True) auto
  next
    case False
    show ?thesis
      unfolding ContainsSameAccessFast_def Let_def mm_and_def mm_cmpeq_def mm_cmpgt_def mm_or_def lanes map2_four and_bools
      using False by (simp only: lanes map2_four and_bools movemask_bools not_False_eq_True if_False if_True d) auto
  qed
qed

text \<open>The upper halves agree exactly when every field above the epoch and the upper epoch bits do.\<close>

lemma hi_eq:
  "hi a = (if w then hi x else hi x OR push_bit 15 1) \<longleftrightarrow>
    (\<forall>n. 32 \<le> n \<and> n < 64 \<longrightarrow> bit a n = (bit x n \<or> (\<not> w \<and> n = 47)))"
proof -
  have "hi a = (if w then hi x else hi x OR push_bit 15 1) \<longleftrightarrow>
      (\<forall>k < 32. bit a (32 + k) = (bit x (32 + k) \<or> (\<not> w \<and> k = 15)))"
  proof -
    have e: "u = v \<longleftrightarrow> (\<forall>k < 32. bit u k = bit v k)" for u v :: u32 by (auto intro: bit_word_eqI)
    show ?thesis unfolding e by (cases w) (auto simp: hi_def bit_simps simp del: push_bit_of_1)
  qed
  also have "\<dots> \<longleftrightarrow> (\<forall>n. 32 \<le> n \<and> n < 64 \<longrightarrow> bit a n = (bit x n \<or> (\<not> w \<and> n = 47)))"
  proof (rule iffI; intro allI impI)
    fix n :: nat assume a: "\<forall>k < 32. bit a (32 + k) = (bit x (32 + k) \<or> (\<not> w \<and> k = 15))" "32 \<le> n \<and> n < 64"
    obtain k where "n = 32 + k" using a(2) le_Suc_ex by blast
    then show "bit a n = (bit x n \<or> (\<not> w \<and> n = 47))" using a by auto
  qed auto
  finally show ?thesis .
qed

text \<open>Signed and unsigned order agree below \<open>2 ^ 31\<close>.\<close>

lemma lo_less:
  assumes "unat y < 2 ^ 31" "unat (fs_epoch x) < 2 ^ 31"
  shows "lo y <s lo x \<longleftrightarrow> y < fs_epoch x"
proof -
  have s: "sint (lo z) = int (take_bit 32 (unat z))" if "take_bit 32 (unat z) < 2 ^ 31" for z
  proof -
    have "unat (lo z) = take_bit 32 (unat z)" by (simp add: lo_def unsigned_ucast_eq)
    then have "uint (lo z) = int (take_bit 32 (unat z))" by (simp only: uint_nat)
    then show ?thesis using that by (simp add: sint_uint signed_take_bit_int_eq_self)
  qed
  have x: "take_bit 32 (unat x) = unat (fs_epoch x)"
  proof -
    have e: "unat (fs_epoch x) = take_bit 42 (unat x)" by (simp add: fs_epoch_bits unsigned_take_bit_eq)
    have "take_bit 32 (unat x) = take_bit 32 (take_bit 42 (unat x))" by simp
    also have "\<dots> = take_bit 42 (unat x)" using assms(2) e by (intro take_bit_nat_eq_self) simp
    finally show ?thesis using e by simp
  qed
  have y: "take_bit 32 (unat y) = unat y" using assms(1) by (intro take_bit_nat_eq_self) simp
  have "sint (lo x) = int (unat (fs_epoch x))" "sint (lo y) = int (unat y)"
    using s [of x] s [of y] x y assms by simp_all
  then show ?thesis by (simp only: word_sless_alt word_less_nat_alt of_nat_less_iff)
qed

definition recordable :: "u64 \<Rightarrow> bool" where
  "recordable x \<longleftrightarrow> unat (fs_epoch x) < 2 ^ 31 \<and> \<not> bit x 49"

lemma high_epoch_clear: "unat (fs_epoch x) < 2 ^ 31 \<Longrightarrow> 32 \<le> n \<Longrightarrow> n < 42 \<Longrightarrow> \<not> bit x n"
  using small_bits [of "fs_epoch x" 31 n] by (simp add: fs_epoch_bits bit_simps)

lemma same_record:
  assumes "recordable a" "recordable x" "w = IsWrite a"
  shows "hi a = (if w then hi x else hi x OR push_bit 15 1) \<longleftrightarrow>
    Addr0AndSizeAreEqual a x \<and> TidWithIgnore x = TidWithIgnore a \<and> IsAtomic x = IsAtomic a \<and> IsRead x \<le> IsRead a"
    (is "?L \<longleftrightarrow> ?R")
proof
  assume ?L
  then have B: "\<And>n. 32 \<le> n \<Longrightarrow> n < 64 \<Longrightarrow> bit a n = (bit x n \<or> (\<not> w \<and> n = 47))" unfolding hi_eq by blast
  have "Addr0AndSizeAreEqual a x" unfolding shadow_bits by (rule bit_word_eqI) (use B in \<open>auto simp: bit_simps\<close>)
  moreover have "TidWithIgnore x = TidWithIgnore a"
    unfolding shadow_bits
  proof (rule bit_word_eqI)
    fix n
    show "bit (drop_bit 50 x) n \<longleftrightarrow> bit (drop_bit 50 a) n"
      using B [of "50 + n"] by (cases "n < 14") (auto simp: bit_simps dest: bit_imp_le_length)
  qed
  ultimately show ?R using B [of 47] B [of 48] by (auto simp: shadow_bits)
next
  assume R: ?R
  have c: "bit a n = bit x n" if "42 \<le> n" "n < 47" for n
  proof -
    have "bit (take_bit 5 (drop_bit 42 a)) (n - 42) = bit (take_bit 5 (drop_bit 42 x)) (n - 42)"
      using R unfolding shadow_bits by simp
    then show ?thesis using that by (auto simp: bit_simps)
  qed
  have t: "bit a n = bit x n" if "50 \<le> n" "n < 64" for n
  proof -
    have "bit (drop_bit 50 a) (n - 50) = bit (drop_bit 50 x) (n - 50)" using R unfolding shadow_bits by simp
    then show ?thesis using that by (auto simp: bit_simps)
  qed
  have "bit a n = (bit x n \<or> (\<not> w \<and> n = 47))" if "32 \<le> n" "n < 64" for n
  proof -
    have R': "IsAtomic x = IsAtomic a" "IsRead x \<le> IsRead a" using R by blast+
    have clear: "\<not> bit a m" "\<not> bit x m" if "32 \<le> m" "m < 42" for m
      using high_epoch_clear that assms(1,2) by (auto simp: recordable_def)
    consider "n < 42" | "42 \<le> n" "n < 47" | "n = 47" | "n = 48" | "n = 49" | "50 \<le> n" using that by linarith
    then show ?thesis
    proof cases
      case 1 then show ?thesis using clear [of n] that by simp
    next
      case 2 then show ?thesis using c [of n] by simp
    next
      case 3 then show ?thesis using R'(2) assms(3) by (auto simp: IsWrite_def IsRead_bit)
    next
      case 4 then show ?thesis using R'(1) by (simp add: IsAtomic_bit)
    next
      case 5 then show ?thesis using assms(1,2) by (simp add: recordable_def)
    next
      case 6 then show ?thesis using t [of n] that by simp
    qed
  qed
  then show ?L unfolding hi_eq by blast
qed

text \<open>
  C18: Below epoch \<open>2 ^ 31\<close> the SSE search for an access that is already recorded gives the same
  answer as the plain one, on any cell of recorded accesses and for reads and writes.
\<close>

theorem same_access_fast_slow:
  assumes "recordable a" "\<forall>i < 4. recordable (s ! i)" "unat sync_epoch < 2 ^ 31" "is_write = IsWrite a"
  shows "ContainsSameAccessFast s a sync_epoch is_write = ContainsSameAccessSlow s a sync_epoch is_write"
proof -
  have r: "recordable (s ! i)" if "i \<in> {0, 1, 2, 3}" for i using assms(2) that by auto
  have u: "set [0..<4] = {0 :: nat, 1, 2, 3}" by auto
  show ?thesis
    unfolding fast_lanes ContainsSameAccessSlow_def list_ex_iff u Let_def
    using same_record [OF assms(1) r assms(4)] lo_less [OF assms(3)] r by (auto simp: recordable_def)
qed


text \<open>An access of thread 1 at epoch 9, recorded in the second slot, and the same access at epoch 12.\<close>

definition ex_fast :: "u64 \<Rightarrow> u64" where
  "ex_fast epoch = FastState_new 1 epoch"

definition ex_record :: "u64 \<Rightarrow> u64" where
  "ex_record epoch = shadow_cur (ex_fast epoch) 0 3 True False"

lemma ex_record_value: "ex_record epoch = (ex_fast epoch AND NOT (push_bit 42 7)) OR push_bit 45 3"
  by (simp add: ex_record_def shadow_cur_def SetAtomic_def SetWrite_def SetAddr0AndSizeLog_def Shadow_of_bits shadow_shifts)

theorem same_access_fast_slow_witness:
  "ContainsSameAccessFast [0, ex_record 9, 0, 0] (ex_record 12) 8 True \<and>
   \<not> ContainsSameAccessFast [0, ex_record 9, 0, 0] (ex_record 12) 9 True"
proof -
  have r: "recordable 0" "recordable (ex_record 9)" "recordable (ex_record 12)"
    by (simp_all add: recordable_def ex_record_value ex_fast_def FastState_new_def shadow_shifts fs_epoch_bits)
  have w: "IsWrite (ex_record 12)"
    by (simp add: ex_record_value ex_fast_def FastState_new_def shadow_shifts IsWrite_def IsRead_bit)
  have four: "i < 4 \<longleftrightarrow> i = 0 \<or> i = 1 \<or> i = 2 \<or> i = 3" for i :: nat by auto
  have all: "\<forall>i < 4. recordable ([0, ex_record 9, 0, 0] ! i)"
    using r unfolding four by (auto simp: numeral_2_eq_2 numeral_3_eq_3)
  have s: "ContainsSameAccessSlow [0, ex_record 9, 0, 0] (ex_record 12) e True \<longleftrightarrow> e < 9" for e
    by (simp add: ContainsSameAccessSlow_def upt_rec numeral_2_eq_2 numeral_3_eq_3)
      (simp add: Let_def shadow_bits ex_record_value ex_fast_def FastState_new_def shadow_shifts)
  show ?thesis
    using same_access_fast_slow [OF r(3) all, of 8 True] same_access_fast_slow [OF r(3) all, of 9 True] w
    unfolding s by simp
qed

text \<open>
  From epoch \<open>2 ^ 31\<close> on the SSE search compares the lower halves of the epochs as signed
  numbers: a record from before the last synchronisation, with an epoch below \<open>2 ^ 31\<close>, then counts as
  recent, so the new access is taken for one that is already recorded. The plain search rejects it.
\<close>

theorem stale_access_taken_as_recorded:
  assumes "fs_wf fs" "fs_wf fs'" "TidWithIgnore fs' = TidWithIgnore fs" "off < 8" "szl < 4"
    and "unat (fs_epoch fs) < 2 ^ 31" "unat (fs_epoch fs') < 2 ^ 32"
    and "2 ^ 31 \<le> unat sync_epoch" "unat sync_epoch < 2 ^ 32"
  shows "ContainsSameAccessFast [shadow_cur fs off szl w a, 0, 0, 0] (shadow_cur fs' off szl w a) sync_epoch w \<and>
    \<not> ContainsSameAccessSlow [shadow_cur fs off szl w a, 0, 0, 0] (shadow_cur fs' off szl w a) sync_epoch w"
proof
  let ?old = "shadow_cur fs off szl w a" and ?cur = "shadow_cur fs' off szl w a"
  have e: "fs_epoch ?old = fs_epoch fs" using shadow_cur_fields(1) assms(1,4,5) .
  have clear: "\<not> bit fs n" "\<not> bit fs' n" if "32 \<le> n" "n < 42" for n
    using small_bits [of "fs_epoch fs" 31 n] small_bits [of "fs_epoch fs'" 32 n] assms(6,7) that
    by (simp_all add: fs_epoch_bits bit_simps)
  have top: "bit fs n = bit fs' n" if "50 \<le> n" "n < 64" for n
  proof -
    have "bit (drop_bit 50 fs) (n - 50) = bit (drop_bit 50 fs') (n - 50)" using assms(3) by (simp add: TidWithIgnore_bits)
    then show ?thesis using that by (auto simp: bit_simps)
  qed
  have "bit ?cur n = (bit ?old n \<or> (\<not> w \<and> n = 47))" if "32 \<le> n" "n < 64" for n
    unfolding shadow_cur_bit [OF assms(1,4,5)] shadow_cur_bit [OF assms(2,4,5)]
    using clear [of n] top [of n] that by auto
  then have h: "hi ?cur = (if w then hi ?old else hi ?old OR push_bit 15 1)" unfolding hi_eq by blast
  have neg: "sint (lo sync_epoch) < 0"
  proof -
    have "unat sync_epoch div 2 ^ 31 = 1" using assms(8,9) by (intro div_nat_eqI) simp_all
    then have "bit (unat sync_epoch) 31" by (simp add: bit_iff_odd)
    then have "bit (lo sync_epoch) 31" by (simp add: lo_def bit_simps bit_unsigned_iff)
    then show ?thesis using bit_last_iff [of "lo sync_epoch"] by simp
  qed
  have "\<not> bit (lo ?old) 31"
    using shadow_cur_bit [OF assms(1,4,5), of w a 31] small_bits [of "fs_epoch fs" 31 31] assms(6)
    by (simp add: lo_def bit_simps fs_epoch_bits)
  then have "\<not> sint (lo ?old) < 0" using bit_last_iff [of "lo ?old"] by simp
  then have "lo sync_epoch <s lo ?old" using neg by (simp add: word_sless_alt)
  then show "ContainsSameAccessFast [?old, 0, 0, 0] ?cur sync_epoch w" using h by (simp add: fast_lanes)
  have "\<not> fs_epoch ?old > sync_epoch" "\<not> fs_epoch 0 > sync_epoch"
    using e assms(6,8) by (simp_all add: word_less_nat_alt fs_epoch_bits)
  then show "\<not> ContainsSameAccessSlow [?old, 0, 0, 0] ?cur sync_epoch w"
    by (simp add: ContainsSameAccessSlow_def upt_rec numeral_2_eq_2 numeral_3_eq_3)
qed

theorem stale_access_taken_as_recorded_witness:
  "ContainsSameAccessFast [ex_record 9, 0, 0, 0] (ex_record 0x80000020) 0x80000010 True \<and>
   \<not> ContainsSameAccessSlow [ex_record 9, 0, 0, 0] (ex_record 0x80000020) 0x80000010 True"
proof -
  have f: "fs_wf (ex_fast 9)" "fs_wf (ex_fast 0x80000020)"
    by (simp_all add: fs_wf_bits ex_fast_def FastState_new_def shadow_shifts)
  have t: "TidWithIgnore (ex_fast 0x80000020) = TidWithIgnore (ex_fast 9)"
    "unat (fs_epoch (ex_fast 9)) < 2 ^ 31" "unat (fs_epoch (ex_fast 0x80000020)) < 2 ^ 32"
    by (simp_all add: TidWithIgnore_bits fs_epoch_bits ex_fast_def FastState_new_def shadow_shifts)
  show ?thesis
    unfolding ex_record_def by (rule stale_access_taken_as_recorded [OF f t(1) _ _ t(2,3)]) simp_all
qed

text \<open>
  The record an access writes reads back as the access: the epoch and thread of the thread's
  state, the offset and size in the cell, and the two flags, each unaffected by the others.
\<close>

theorem shadow_fields_roundtrip:
  assumes "fs_wf fs" "off < 8" "szl < 4"
  shows "let cur = shadow_cur fs off szl w a in
    fs_epoch cur = fs_epoch fs \<and> fs_tid cur = fs_tid fs \<and> addr0 cur = off \<and> unat (sh_size cur) = 2 ^ unat szl \<and>
    IsWrite cur = w \<and> IsAtomic cur = a \<and> \<not> IsFreed cur"
  using shadow_cur_fields [OF assms, of w a] by (simp add: Let_def sh_size_unat)

theorem shadow_fields_roundtrip_witness:
  "fs_epoch (shadow_cur (ex_fast 77) 5 1 False True) = 77 \<and> addr0 (shadow_cur (ex_fast 77) 5 1 False True) = 5"
proof -
  have f: "fs_wf (ex_fast 77)" "fs_epoch (ex_fast 77) = 77"
    by (simp_all add: fs_wf_bits ex_fast_def FastState_new_def shadow_shifts fs_epoch_bits)
  show ?thesis using shadow_fields_roundtrip [OF f(1), of 5 1 False True] f(2) by (simp add: Let_def)
qed

text \<open>
  The comparisons of access records mean what their debug checks say: two records intersect
  exactly when they have a byte of the cell in common, and the three combined tests of the read and
  atomic bits are the logical conditions on the two accesses.
\<close>

theorem shadow_compare_spec:
  assumes "unat sz = unat (sh_size s2)"
  shows "(TwoRangesIntersect s1 s2 sz \<longleftrightarrow>
      {unat (addr0 s1)..<unat (addr0 s1) + unat (sh_size s1)} \<inter> {unat (addr0 s2)..<unat (addr0 s2) + unat (sh_size s2)} \<noteq> {}) \<and>
    (IsBothReadsOrAtomic w a s1 \<longleftrightarrow> (IsRead s1 \<and> \<not> w) \<or> (IsAtomic s1 \<and> a)) \<and>
    (IsRWWeakerOrEqual w a s1 \<longleftrightarrow> (a < IsAtomic s1) \<or> (IsAtomic s1 = a \<and> ((\<not> w) \<le> IsRead s1))) \<and>
    (IsRWNotWeaker w a s1 \<longleftrightarrow> (IsAtomic s1 < a) \<or> (IsAtomic s1 = a \<and> (IsRead s1 \<le> (\<not> w))))"
  using intersect_fast [OF assms, of s1] intersect_slow [of s1 s2]
  by (auto simp: sh_bytes_def rw_compare IsWrite_def)

theorem shadow_compare_spec_witness:
  "TwoRangesIntersect (ex_record 9) (ex_record 12) 8"
proof -
  have z: "sh_size (ex_record 12) = 8" "sh_size (ex_record 9) = 8" "addr0 (ex_record 9) = 0" "addr0 (ex_record 12) = 0"
    by (simp_all add: sh_size_def shadow_bits ex_record_value ex_fast_def FastState_new_def shadow_shifts)
  have "unat (8 :: u32) = unat (sh_size (ex_record 12))" by (simp add: z)
  from shadow_compare_spec [OF this, of "ex_record 9"] show ?thesis by (simp add: z)
qed

end
