(* ===== verification/MemoryAccess.thy ===== *)
theory MemoryAccess
  imports Shadow CprdRuntime
begin

text \<open>
  The entry points of instrumented code in \<open>tsan/rtl/tsan_rtl.cpp\<close>, \<open>tsan_rtl_thread.cpp\<close>,
  \<open>tsan_interface_inl.h\<close> and \<open>tsan_external.cpp\<close>: plain, unaligned and range accesses, flushes and
  fences, function entry and exit, regions in which accesses are ignored, and the ranges of shadow
  memory that are set when memory is mapped or freed. The race check itself is commented out in
  this version of \<open>MemoryAccessImpl1\<close>; the access is passed on to the persistent-memory runtime.
\<close>

section \<open>State\<close>

text \<open>\<open>tsan_ignoreset.cpp\<close>: the first \<open>size_\<close> elements of \<open>stacks_\<close>.\<close>

type_synonym ignore_set = "u32 list"

definition kMaxIgnoreSize :: nat where "kMaxIgnoreSize = 16"

definition IgnoreSet_Add :: "u32 \<Rightarrow> ignore_set \<Rightarrow> ignore_set" where
  "IgnoreSet_Add stack_id s =
     (if length s = kMaxIgnoreSize then s
      else if list_ex (\<lambda>i. s ! i = stack_id) [0..<length s] then s
      else s @ [stack_id])"

definition IgnoreSet_Reset :: "ignore_set \<Rightarrow> ignore_set" where
  "IgnoreSet_Reset s = []"

definition IgnoreSet_At :: "nat \<Rightarrow> ignore_set \<Rightarrow> u32 option" where
  "IgnoreSet_At i s = (if i < length s \<and> length s \<le> kMaxIgnoreSize then Some (s ! i) else None)"

text \<open>The part of \<open>ThreadState\<close> the accesses use. The shadow stack is \<open>[shadow_stack, shadow_stack_pos)\<close>.\<close>

record thread_state =
  fast_state :: u64
  fast_synch_epoch :: u64
  ignore_reads_and_writes :: int
  ignore_sync :: int
  mop_ignore_set :: ignore_set
  sync_ignore_set :: ignore_set
  shadow_stack :: "u64 list"
  is_freeing :: bool
  is_vptr_access :: bool
  ts_pm :: pm_thread

text \<open>Shadow memory by byte address of its words.\<close>

type_synonym shadow = "u64 \<Rightarrow> u64"

text \<open>
  What the operations read and do not change: the label of an address (from the instrumentation),
  the address and number of the registered tags, the regions, the page size, the flag
  \<open>clear_shadow_mmap_threshold\<close>, \<open>after_multithreaded_fork\<close>, whether the system can unmap and map
  again a range of the shadow (by start and length), and which program counters belong to ignored
  libraries.
\<close>

record access_env =
  e_address_label :: "u64 \<Rightarrow> u16"
  e_tags :: u64
  e_used_tags :: u64
  e_cprd :: cprd
  e_page_size :: u64
  e_threshold :: u64
  e_after_fork :: bool
  e_remap_ok :: "u64 \<Rightarrow> u64 \<Rightarrow> bool"
  e_lib_ignored :: "u64 \<Rightarrow> bool"

text \<open>The runtime below stops, a \<open>CHECK\<close> fails, the process dies, or a write leaves the shadow stack.\<close>

datatype access_stop = Runtime cprd_stop | CheckAbort | Died | Diverges | StackBounds

section \<open>The current stack\<close>

definition kStackTraceMax :: nat where "kStackTraceMax = 256"

text \<open>A \<open>TagData\<close> takes 16 bytes. \<open>GetTagData\<close> gives the address of the tag in the array, which is the frame of the tag.\<close>

definition GetTagData :: "access_env \<Rightarrow> u64 \<Rightarrow> u64" where
  "GetTagData env tag = (if tag \<ge> e_used_tags env then 0 else e_tags env + 16 * tag)"

definition TagFromShadowStackFrame :: "access_env \<Rightarrow> u64 \<Rightarrow> u64" where
  "TagFromShadowStackFrame env pc =
     (if pc < GetTagData env 0 \<or> pc > GetTagData env (e_used_tags env - 1) then 0 else (pc - GetTagData env 0) div 16)"

definition ExtractTagFromStack :: "access_env \<Rightarrow> u64 list \<Rightarrow> u64 list" where
  "ExtractTagFromStack env stack =
     (if length stack < 2 then stack
      else if TagFromShadowStackFrame env (stack ! (length stack - 2)) = 0 then stack
      else butlast (stack[length stack - 2 := stack ! (length stack - 1)]))"

text \<open>\<open>Init\<close> copies \<open>cnt\<close> frames and appends the top one unless it is null.\<close>

definition ObtainCurrentStack :: "access_env \<Rightarrow> thread_state \<Rightarrow> u64 \<Rightarrow> u64 list" where
  "ObtainCurrentStack env thr toppc =
     (let n = length (shadow_stack thr); top = (if toppc \<noteq> 0 then 1 else 0);
          (start, cnt) = (if n + top > kStackTraceMax then (n + top - kStackTraceMax, kStackTraceMax - top) else (0, n))
      in ExtractTagFromStack env (take cnt (drop start (shadow_stack thr)) @ (if toppc \<noteq> 0 then [toppc] else [])))"

section \<open>Accesses\<close>

definition kShadowRodata :: u64 where "kShadowRodata = - 1"

definition shadow_cell :: "shadow \<Rightarrow> u64 \<Rightarrow> u64 list" where
  "shadow_cell sh p = map (\<lambda>i. sh (p + 8 * of_nat i)) [0..<4]"

definition StoreShadow :: "u64 \<Rightarrow> u64 \<Rightarrow> shadow \<Rightarrow> shadow" where
  "StoreShadow sp s sh = sh(sp := s)"

text \<open>With SSE3, as the build for x86-64 has it.\<close>

definition ContainsSameAccess :: "shadow \<Rightarrow> u64 \<Rightarrow> u64 \<Rightarrow> u64 \<Rightarrow> bool \<Rightarrow> bool" where
  "ContainsSameAccess sh s a sync_epoch is_write = ContainsSameAccessFast (shadow_cell sh s) a sync_epoch is_write"

type_synonym access_state = "thread_state \<times> dfsan \<times> shadow"

definition MemoryAccessImpl1 ::
  "access_env \<Rightarrow> u64 \<Rightarrow> nat \<Rightarrow> bool \<Rightarrow> bool \<Rightarrow> u64 \<Rightarrow> u64 \<Rightarrow> u64 \<Rightarrow> bool \<Rightarrow> access_state \<Rightarrow> access_stop + access_state \<times> log_line list" where
  "MemoryAccessImpl1 env addr szl is_write is_atomic sm cur pc is_nt s =
     (case s of (thr, d, sh) \<Rightarrow>
        (case instrument_memory_access (e_address_label env) (ObtainCurrentStack env thr pc) addr pc szl
                is_write is_atomic is_nt (e_cprd env) ((ts_pm thr)\<lparr>th_fast_tid := fs_tid (fast_state thr)\<rparr>, d) of
           Inl e \<Rightarrow> Inl (Runtime e)
         | Inr (pm, d', out) \<Rightarrow>
             Inr ((thr\<lparr>ts_pm := pm\<rparr>, d', StoreShadow (sm + 8 * (fs_epoch cur mod kShadowCnt)) cur sh), out)))"

definition MemoryAccess ::
  "access_env \<Rightarrow> u64 \<Rightarrow> u64 \<Rightarrow> nat \<Rightarrow> bool \<Rightarrow> bool \<Rightarrow> bool \<Rightarrow> access_state \<Rightarrow> access_stop + access_state \<times> log_line list" where
  "MemoryAccess env pc addr szl is_write is_atomic is_nt s =
     (case s of (thr, d, sh) \<Rightarrow>
        (let sm = MemToShadow addr in
         if \<not> is_write \<and> sh sm = kShadowRodata then Inr ((thr, d, sh), [])
         else if GetIgnoreBit (fast_state thr) then Inr ((thr, d, sh), [])
         else
           (let cur = SetAtomic is_atomic (SetWrite is_write
                        (SetAddr0AndSizeLog (addr AND 7) (of_nat szl) (Shadow_of (fast_state thr)))) in
            if ContainsSameAccess sh sm cur (fast_synch_epoch thr) is_write then Inr ((thr, d, sh), [])
            else MemoryAccessImpl1 env addr szl is_write is_atomic sm (IncrementEpoch cur) pc is_nt
                   (thr\<lparr>fast_state := IncrementEpoch (fast_state thr)\<rparr>, d, sh))))"

definition MemoryAccessImpl ::
  "access_env \<Rightarrow> u64 \<Rightarrow> nat \<Rightarrow> bool \<Rightarrow> bool \<Rightarrow> u64 \<Rightarrow> u64 \<Rightarrow> u64 \<Rightarrow> bool \<Rightarrow> access_state \<Rightarrow> access_stop + access_state \<times> log_line list" where
  "MemoryAccessImpl env addr szl is_write is_atomic sm cur pc is_nt s =
     (case s of (thr, d, sh) \<Rightarrow>
        if ContainsSameAccess sh sm cur (fast_synch_epoch thr) is_write then Inr ((thr, d, sh), [])
        else MemoryAccessImpl1 env addr szl is_write is_atomic sm cur pc is_nt (thr, d, sh))"

text \<open>Two steps in a row, with their lines.\<close>

definition then_access ::
  "access_stop + access_state \<times> log_line list \<Rightarrow> (access_state \<Rightarrow> access_stop + access_state \<times> log_line list)
     \<Rightarrow> access_stop + access_state \<times> log_line list" where
  "then_access r f =
     (case r of Inl e \<Rightarrow> Inl e
      | Inr (s, out) \<Rightarrow> (case f s of Inl e \<Rightarrow> Inl e | Inr (s', out') \<Rightarrow> Inr (s', out @ out')))"

text \<open>\<open>MemoryRead\<close>, \<open>MemoryWrite\<close> and their variants, behind \<open>__tsan_read8\<close> and the like.\<close>

definition MemoryRead :: "access_env \<Rightarrow> u64 \<Rightarrow> u64 \<Rightarrow> nat \<Rightarrow> access_state \<Rightarrow> access_stop + access_state \<times> log_line list" where
  "MemoryRead env pc addr szl = MemoryAccess env pc addr szl False False False"

definition MemoryWrite :: "access_env \<Rightarrow> u64 \<Rightarrow> u64 \<Rightarrow> nat \<Rightarrow> access_state \<Rightarrow> access_stop + access_state \<times> log_line list" where
  "MemoryWrite env pc addr szl = MemoryAccess env pc addr szl True False False"

definition MemoryNonTemporalWrite :: "access_env \<Rightarrow> u64 \<Rightarrow> u64 \<Rightarrow> nat \<Rightarrow> access_state \<Rightarrow> access_stop + access_state \<times> log_line list" where
  "MemoryNonTemporalWrite env pc addr szl = MemoryAccess env pc addr szl True False True"

definition MemoryReadAtomic :: "access_env \<Rightarrow> u64 \<Rightarrow> u64 \<Rightarrow> nat \<Rightarrow> access_state \<Rightarrow> access_stop + access_state \<times> log_line list" where
  "MemoryReadAtomic env pc addr szl = MemoryAccess env pc addr szl False True False"

definition MemoryWriteAtomic :: "access_env \<Rightarrow> u64 \<Rightarrow> u64 \<Rightarrow> nat \<Rightarrow> access_state \<Rightarrow> access_stop + access_state \<times> log_line list" where
  "MemoryWriteAtomic env pc addr szl = MemoryAccess env pc addr szl True True False"

subsection \<open>Unaligned accesses\<close>

definition unaligned_size_log :: "u64 \<Rightarrow> nat \<Rightarrow> nat" where
  "unaligned_size_log addr sz =
     (if sz \<ge> 8 \<and> addr AND NOT 7 = (addr + 7) AND NOT 7 then 3
      else if sz \<ge> 4 \<and> addr AND NOT 7 = (addr + 3) AND NOT 7 then 2
      else if sz \<ge> 2 \<and> addr AND NOT 7 = (addr + 1) AND NOT 7 then 1
      else 0)"

function UnalignedMemoryAccess ::
  "access_env \<Rightarrow> u64 \<Rightarrow> u64 \<Rightarrow> nat \<Rightarrow> bool \<Rightarrow> bool \<Rightarrow> access_state \<Rightarrow> access_stop + access_state \<times> log_line list" where
  "UnalignedMemoryAccess env pc addr sz is_write is_atomic s =
     (if sz = 0 then Inr (s, [])
      else
        (let szl = unaligned_size_log addr sz in
         then_access (MemoryAccess env pc addr szl is_write is_atomic False s)
           (UnalignedMemoryAccess env pc (addr + 2 ^ szl) (sz - 2 ^ szl) is_write is_atomic)))"
  by pat_completeness auto
termination
  by (relation "measure (\<lambda>(_, _, _, sz, _). sz)") auto

declare UnalignedMemoryAccess.simps [simp del]

subsection \<open>Range accesses\<close>

text \<open>
  The record of a range piece, in the order of the calls in \<open>MemoryAccessRange\<close>; the accesses of one
  range share the epoch.
\<close>

definition range_piece ::
  "access_env \<Rightarrow> u64 \<Rightarrow> u64 \<Rightarrow> u64 \<Rightarrow> nat \<Rightarrow> bool \<Rightarrow> u64 \<Rightarrow> access_state \<Rightarrow> access_stop + access_state \<times> log_line list" where
  "range_piece env pc fs addr szl is_write sm =
     MemoryAccessImpl env addr szl is_write False sm
       (SetAddr0AndSizeLog (if szl = 0 then addr AND (kShadowCell - 1) else 0) (of_nat szl) (SetWrite is_write (Shadow_of fs)))
       pc False"

text \<open>The three loops: bytes up to the next cell, whole cells, remaining bytes.\<close>

function range_head ::
  "access_env \<Rightarrow> u64 \<Rightarrow> u64 \<Rightarrow> bool \<Rightarrow> u64 \<Rightarrow> u64 \<Rightarrow> u64 \<Rightarrow> access_state \<Rightarrow> (access_stop + access_state \<times> log_line list) \<times> u64 \<times> u64" where
  "range_head env pc fs is_write sm addr sz s =
     (if addr mod kShadowCell \<noteq> 0 \<and> sz \<noteq> 0
      then (case range_piece env pc fs addr 0 is_write sm s of
              Inl e \<Rightarrow> (Inl e, addr, sz)
            | Inr (s', out) \<Rightarrow>
                (case range_head env pc fs is_write sm (addr + 1) (sz - 1) s' of
                   (r, addr', sz') \<Rightarrow> (then_access (Inr (s', out)) (\<lambda>_. r), addr', sz')))
      else (Inr (s, []), addr, sz))"
  by pat_completeness auto
termination
  by (relation "measure (\<lambda>(_, _, _, _, _, _, sz, _). unat sz)") (auto simp: unat_gt_0 measure_unat)

function range_middle ::
  "access_env \<Rightarrow> u64 \<Rightarrow> u64 \<Rightarrow> bool \<Rightarrow> u64 \<Rightarrow> u64 \<Rightarrow> u64 \<Rightarrow> access_state \<Rightarrow> (access_stop + access_state \<times> log_line list) \<times> u64 \<times> u64 \<times> u64" where
  "range_middle env pc fs is_write sm addr sz s =
     (if sz \<ge> kShadowCell
      then (case range_piece env pc fs addr 3 is_write sm s of
              Inl e \<Rightarrow> (Inl e, sm, addr, sz)
            | Inr (s', out) \<Rightarrow>
                (case range_middle env pc fs is_write (sm + 8 * kShadowCnt) (addr + kShadowCell) (sz - kShadowCell) s' of
                   (r, sm', addr', sz') \<Rightarrow> (then_access (Inr (s', out)) (\<lambda>_. r), sm', addr', sz')))
      else (Inr (s, []), sm, addr, sz))"
  by pat_completeness auto
termination
  by (relation "measure (\<lambda>(_, _, _, _, _, _, sz, _). unat sz)")
    (auto simp: kShadowCell_def word_le_nat_alt unat_sub)

function range_tail ::
  "access_env \<Rightarrow> u64 \<Rightarrow> u64 \<Rightarrow> bool \<Rightarrow> u64 \<Rightarrow> u64 \<Rightarrow> u64 \<Rightarrow> access_state \<Rightarrow> access_stop + access_state \<times> log_line list" where
  "range_tail env pc fs is_write sm addr sz s =
     (if sz \<noteq> 0
      then then_access (range_piece env pc fs addr 0 is_write sm s)
             (range_tail env pc fs is_write sm (addr + 1) (sz - 1))
      else Inr (s, []))"
  by pat_completeness auto
termination
  by (relation "measure (\<lambda>(_, _, _, _, _, _, sz, _). unat sz)") (auto simp: measure_unat)

declare range_head.simps [simp del] range_middle.simps [simp del] range_tail.simps [simp del]

definition MemoryAccessRange ::
  "access_env \<Rightarrow> u64 \<Rightarrow> u64 \<Rightarrow> u64 \<Rightarrow> bool \<Rightarrow> access_state \<Rightarrow> access_stop + access_state \<times> log_line list" where
  "MemoryAccessRange env pc addr sz is_write s =
     (case s of (thr, d, sh) \<Rightarrow>
        (if sz = 0 then Inr (s, [])
         else if sh (MemToShadow addr) = kShadowRodata then Inr (s, [])
         else if GetIgnoreBit (fast_state thr) then Inr (s, [])
         else
           (let sm = MemToShadow addr; fs = IncrementEpoch (fast_state thr); unaligned = (addr mod kShadowCell \<noteq> 0);
                (r1, addr1, sz1) = range_head env pc fs is_write sm addr sz (thr\<lparr>fast_state := fs\<rparr>, d, sh);
                sm1 = (if unaligned then sm + 8 * kShadowCnt else sm)
            in (case r1 of Inl e \<Rightarrow> Inl e
                | Inr (s1, out1) \<Rightarrow>
                    (let (r2, sm2, addr2, sz2) = range_middle env pc fs is_write sm1 addr1 sz1 s1 in
                     then_access (then_access r1 (\<lambda>_. r2)) (range_tail env pc fs is_write sm2 addr2 sz2))))))"

section \<open>Flushes and fences\<close>

definition MemoryFlushAccess :: "u64 \<Rightarrow> u64 \<Rightarrow> access_state \<Rightarrow> access_state" where
  "MemoryFlushAccess pc addr s = (case s of (thr, d, sh) \<Rightarrow> (thr\<lparr>ts_pm := instrument_flush addr (ts_pm thr)\<rparr>, d, sh))"

definition MemoryFenceAccess :: "u64 \<Rightarrow> access_state \<Rightarrow> access_state \<times> log_line list" where
  "MemoryFenceAccess pc s =
     (case s of (thr, d, sh) \<Rightarrow>
        (let (out, pm) = instrument_fence pc (ts_pm thr) in ((thr\<lparr>ts_pm := pm\<rparr>, d, sh), out)))"

section \<open>Functions\<close>

definition kShadowStackSize :: nat where "kShadowStackSize = 64 * 1024"

text \<open>Leaving the stack's array is guarded by debug checks only.\<close>

definition FuncEntry :: "u64 \<Rightarrow> thread_state \<Rightarrow> access_stop + thread_state" where
  "FuncEntry pc thr =
     (if length (shadow_stack thr) < kShadowStackSize
      then Inr (thr\<lparr>fast_state := IncrementEpoch (fast_state thr), shadow_stack := shadow_stack thr @ [pc]\<rparr>)
      else Inl StackBounds)"

definition FuncExit :: "thread_state \<Rightarrow> access_stop + thread_state" where
  "FuncExit thr =
     (if shadow_stack thr \<noteq> []
      then Inr (thr\<lparr>fast_state := IncrementEpoch (fast_state thr), shadow_stack := butlast (shadow_stack thr)\<rparr>)
      else Inl StackBounds)"

section \<open>Ignored regions\<close>

text \<open>\<open>stack_id\<close> is what \<open>CurrentStackId\<close> gives.\<close>

definition ThreadIgnoreBegin :: "access_env \<Rightarrow> u32 \<Rightarrow> bool \<Rightarrow> thread_state \<Rightarrow> access_stop + thread_state" where
  "ThreadIgnoreBegin env stack_id save_stack thr =
     (let n = ignore_reads_and_writes thr + 1 in
      if \<not> n > 0 then Inl CheckAbort
      else Inr (thr\<lparr>ignore_reads_and_writes := n, fast_state := SetIgnoreBit (fast_state thr),
                    mop_ignore_set := (if save_stack \<and> \<not> e_after_fork env then IgnoreSet_Add stack_id (mop_ignore_set thr)
                                       else mop_ignore_set thr)\<rparr>))"

definition ThreadIgnoreEnd :: "thread_state \<Rightarrow> access_stop + thread_state" where
  "ThreadIgnoreEnd thr =
     (if \<not> ignore_reads_and_writes thr > 0 then Inl CheckAbort
      else
        (let n = ignore_reads_and_writes thr - 1; thr1 = thr\<lparr>ignore_reads_and_writes := n\<rparr> in
         Inr (if n = 0
              then thr1\<lparr>fast_state := ClearIgnoreBit (fast_state thr), mop_ignore_set := IgnoreSet_Reset (mop_ignore_set thr)\<rparr>
              else thr1)))"

definition ThreadIgnoreSyncBegin :: "access_env \<Rightarrow> u32 \<Rightarrow> bool \<Rightarrow> thread_state \<Rightarrow> access_stop + thread_state" where
  "ThreadIgnoreSyncBegin env stack_id save_stack thr =
     (let n = ignore_sync thr + 1 in
      if \<not> n > 0 then Inl CheckAbort
      else Inr (thr\<lparr>ignore_sync := n,
                    sync_ignore_set := (if save_stack \<and> \<not> e_after_fork env then IgnoreSet_Add stack_id (sync_ignore_set thr)
                                        else sync_ignore_set thr)\<rparr>))"

definition ThreadIgnoreSyncEnd :: "thread_state \<Rightarrow> access_stop + thread_state" where
  "ThreadIgnoreSyncEnd thr =
     (if \<not> ignore_sync thr > 0 then Inl CheckAbort
      else
        (let n = ignore_sync thr - 1 in
         Inr (thr\<lparr>ignore_sync := n, sync_ignore_set := (if n = 0 then IgnoreSet_Reset (sync_ignore_set thr) else sync_ignore_set thr)\<rparr>)))"

section \<open>Setting ranges of shadow memory\<close>

text \<open>The words of one cell: the value, then zeros.\<close>

definition set_cell :: "u64 \<Rightarrow> u64 \<Rightarrow> shadow \<Rightarrow> shadow" where
  "set_cell p val sh = sh(p := val, p + 8 := 0, p + 16 := 0, p + 24 := 0)"

text \<open>The loop of the small branch: \<open>n\<close> cells from \<open>p\<close>.\<close>

primrec set_cells :: "nat \<Rightarrow> u64 \<Rightarrow> u64 \<Rightarrow> shadow \<Rightarrow> shadow" where
  "set_cells 0 p val sh = sh"
| "set_cells (Suc n) p val sh = set_cells n (p + 32) val (set_cell p val sh)"

text \<open>The two loops of the large branch; \<open>None\<close> is a loop that does not end.\<close>

partial_function (option) set_first :: "u64 \<Rightarrow> u64 \<Rightarrow> u64 \<Rightarrow> u64 \<Rightarrow> shadow \<Rightarrow> (u64 \<times> shadow) option" where
  "set_first bound page p val sh =
     (if p < bound \<or> p mod page \<noteq> 0 then set_first bound page (p + 32) val (set_cell p val sh) else Some (p, sh))"

partial_function (option) set_last :: "u64 \<Rightarrow> u64 \<Rightarrow> u64 \<Rightarrow> shadow \<Rightarrow> shadow option" where
  "set_last stop p val sh = (if p < stop then set_last stop (p + 32) val (set_cell p val sh) else Some sh)"

text \<open>Fresh pages read as zero.\<close>

definition remap :: "u64 \<Rightarrow> u64 \<Rightarrow> shadow \<Rightarrow> shadow" where
  "remap p n sh = (\<lambda>a. if a - p < n then 0 else sh a)"

datatype range_stop = SetCheck | SetDied | SetDiverges

definition range_set_large :: "access_env \<Rightarrow> u64 \<Rightarrow> u64 \<Rightarrow> u64 \<Rightarrow> shadow \<Rightarrow> range_stop + shadow" where
  "range_set_large env addr sz val sh =
     (let kPageSize = e_page_size env;
          begin' = MemToShadow addr;
          end' = begin' + 8 * (sz div kShadowCell * kShadowCnt)
      in case set_first (begin' + 8 * (kPageSize div 8 div 2)) kPageSize begin' val sh of
           None \<Rightarrow> Inl SetDiverges
         | Some (p1, sh1) \<Rightarrow>
             (let p = RoundDown end' kPageSize in
              if \<not> e_remap_ok env p1 (p - p1) then Inl SetDied
              else (case set_last end' p val (remap p1 (p - p1) sh1) of None \<Rightarrow> Inl SetDiverges | Some sh' \<Rightarrow> Inr sh')))"

definition MemoryRangeSet :: "access_env \<Rightarrow> u64 \<Rightarrow> u64 \<Rightarrow> u64 \<Rightarrow> shadow \<Rightarrow> range_stop + shadow" where
  "MemoryRangeSet env addr sz val sh =
     (if sz = 0 then Inr sh
      else
        (let offset = addr mod kShadowCell; rest = kShadowCell - offset in
         if offset \<noteq> 0 \<and> sz \<le> rest then Inr sh
         else
           (let (addr, sz) = (if offset \<noteq> 0 then (addr + rest, sz - rest) else (addr, sz)) in
            if \<not> IsAppMem addr \<or> \<not> IsAppMem (addr + sz - 1) then Inr sh
            else
              (let sz = (sz + (kShadowCell - 1)) AND NOT (kShadowCell - 1) in
               if sz < e_threshold env
               then (let p = MemToShadow addr in
                     if \<not> IsShadowMem p \<or> \<not> IsShadowMem (p + 8 * (sz * kShadowCnt div kShadowCell - 1)) then Inl SetCheck
                     else Inr (set_cells (unat (sz div kShadowCell)) p val sh))
               else range_set_large env addr sz val sh))))"

text \<open>The callers put the result back into the state of the thread.\<close>

definition with_shadow :: "access_state \<Rightarrow> range_stop + shadow \<Rightarrow> access_stop + access_state" where
  "with_shadow s r =
     (case s of (thr, d, sh) \<Rightarrow>
        (case r of Inl SetCheck \<Rightarrow> Inl CheckAbort | Inl SetDied \<Rightarrow> Inl Died | Inl SetDiverges \<Rightarrow> Inl Diverges
         | Inr sh' \<Rightarrow> Inr (thr, d, sh')))"

definition MemoryResetRange :: "access_env \<Rightarrow> u64 \<Rightarrow> u64 \<Rightarrow> u64 \<Rightarrow> access_state \<Rightarrow> access_stop + access_state" where
  "MemoryResetRange env pc addr sz s =
     (case s of (thr, d, sh) \<Rightarrow> with_shadow s (MemoryRangeSet env addr sz 0 sh))"

definition MemoryRangeFreed ::
  "access_env \<Rightarrow> u64 \<Rightarrow> u64 \<Rightarrow> u64 \<Rightarrow> access_state \<Rightarrow> access_stop + access_state \<times> log_line list" where
  "MemoryRangeFreed env pc addr sz s =
     (case s of (thr, d, sh) \<Rightarrow>
        (let sz = (if sz > 1024 then 1024 else sz) in
         if is_freeing thr then Inl CheckAbort
         else (case MemoryAccessRange env pc addr sz True (thr\<lparr>is_freeing := True\<rparr>, d, sh) of
                 Inl e \<Rightarrow> Inl e
               | Inr ((thr1, d1, sh1), out) \<Rightarrow>
                   (let thr2 = thr1\<lparr>is_freeing := False, fast_state := IncrementEpoch (fast_state thr1)\<rparr>;
                        val = SetAddr0AndSizeLog 0 3 (SetWrite True (MarkAsFreed (ClearIgnoreBit (Shadow_of (fast_state thr2)))))
                    in case with_shadow (thr2, d1, sh1) (MemoryRangeSet env addr sz val sh1) of
                         Inl e \<Rightarrow> Inl e | Inr s' \<Rightarrow> Inr (s', out)))))"

definition MemoryRangeImitateWrite :: "access_env \<Rightarrow> u64 \<Rightarrow> u64 \<Rightarrow> u64 \<Rightarrow> access_state \<Rightarrow> access_stop + access_state" where
  "MemoryRangeImitateWrite env pc addr sz s =
     (case s of (thr, d, sh) \<Rightarrow>
        (let thr1 = thr\<lparr>fast_state := IncrementEpoch (fast_state thr)\<rparr>;
             val = SetAddr0AndSizeLog 0 3 (SetWrite True (ClearIgnoreBit (Shadow_of (fast_state thr1))))
         in with_shadow (thr1, d, sh) (MemoryRangeSet env addr sz val sh)))"

definition MemoryRangeImitateWriteOrResetRange ::
  "access_env \<Rightarrow> u64 \<Rightarrow> u64 \<Rightarrow> u64 \<Rightarrow> access_state \<Rightarrow> access_stop + access_state" where
  "MemoryRangeImitateWriteOrResetRange env pc addr sz s =
     (if ignore_reads_and_writes (fst s) = 0 then MemoryRangeImitateWrite env pc addr sz s
      else MemoryResetRange env pc addr sz s)"

section \<open>Wider, virtual-table and external accesses\<close>

definition tsan_read16 :: "access_env \<Rightarrow> u64 \<Rightarrow> u64 \<Rightarrow> access_state \<Rightarrow> access_stop + access_state \<times> log_line list" where
  "tsan_read16 env pc addr s = then_access (MemoryRead env pc addr 3 s) (MemoryRead env pc (addr + 8) 3)"

definition tsan_write16 :: "access_env \<Rightarrow> u64 \<Rightarrow> u64 \<Rightarrow> access_state \<Rightarrow> access_stop + access_state \<times> log_line list" where
  "tsan_write16 env pc addr s = then_access (MemoryWrite env pc addr 3 s) (MemoryWrite env pc (addr + 8) 3)"

text \<open>An access with \<open>is_vptr_access\<close> set for its duration.\<close>

definition as_vptr ::
  "(access_state \<Rightarrow> access_stop + access_state \<times> log_line list) \<Rightarrow> access_state \<Rightarrow> access_stop + access_state \<times> log_line list" where
  "as_vptr f s =
     (case s of (thr, d, sh) \<Rightarrow>
        (case f (thr\<lparr>is_vptr_access := True\<rparr>, d, sh) of
           Inl e \<Rightarrow> Inl e
         | Inr ((thr', d', sh'), out) \<Rightarrow> Inr ((thr'\<lparr>is_vptr_access := False\<rparr>, d', sh'), out)))"

definition tsan_vptr_update ::
  "access_env \<Rightarrow> u64 \<Rightarrow> u64 \<Rightarrow> u64 \<Rightarrow> u64 \<Rightarrow> access_state \<Rightarrow> access_stop + access_state \<times> log_line list" where
  "tsan_vptr_update env pc vptr_p old_val new_val s =
     (if old_val \<noteq> new_val then as_vptr (MemoryWrite env pc vptr_p 3) s else Inr (s, []))"

definition tsan_vptr_read :: "access_env \<Rightarrow> u64 \<Rightarrow> u64 \<Rightarrow> access_state \<Rightarrow> access_stop + access_state \<times> log_line list" where
  "tsan_vptr_read env pc vptr_p s = as_vptr (MemoryRead env pc vptr_p 3) s"

definition InsertShadowStackFrameForTag :: "access_env \<Rightarrow> u64 \<Rightarrow> thread_state \<Rightarrow> access_stop + thread_state" where
  "InsertShadowStackFrameForTag env tag thr = FuncEntry (e_tags env + 16 * tag) thr"

definition ExternalAccess ::
  "access_env \<Rightarrow> u64 \<Rightarrow> u64 \<Rightarrow> u64 \<Rightarrow> bool \<Rightarrow> u64 \<Rightarrow> access_state \<Rightarrow> access_stop + access_state \<times> log_line list" where
  "ExternalAccess env addr caller_pc tag is_write pc s =
     (case s of (thr, d, sh) \<Rightarrow>
        if \<not> tag < e_used_tags env then Inl CheckAbort
        else (case (if caller_pc \<noteq> 0 then FuncEntry caller_pc thr else Inr thr) of
                Inl e \<Rightarrow> Inl e
              | Inr thr1 \<Rightarrow>
             (case InsertShadowStackFrameForTag env tag thr1 of
                Inl e \<Rightarrow> Inl e
              | Inr thr2 \<Rightarrow>
             (case (if caller_pc = 0 \<or> \<not> e_lib_ignored env caller_pc
                    then (if is_write then MemoryWrite env pc addr 0 else MemoryRead env pc addr 0) (thr2, d, sh)
                    else Inr ((thr2, d, sh), [])) of
                Inl e \<Rightarrow> Inl e
              | Inr ((thr3, d3, sh3), out) \<Rightarrow>
             (case FuncExit thr3 of
                Inl e \<Rightarrow> Inl e
              | Inr thr4 \<Rightarrow>
             (case (if caller_pc \<noteq> 0 then FuncExit thr4 else Inr thr4) of
                Inl e \<Rightarrow> Inl e
              | Inr thr5 \<Rightarrow> Inr ((thr5, d3, sh3), out)))))))"

end
