(* ===== verification/MemoryProperties.thy ===== *)
theory MemoryProperties
  imports ShadowProperties MemoryAccess CprdProperties
begin

text \<open>
  Properties of the entry points for accesses: which accesses reach the log, the pieces wide and
  unaligned accesses are cut into, the shadow cells that are set for a range, the stack that is
  logged, and the regions in which accesses are ignored.
\<close>

section \<open>Ranges of application memory\<close>

text \<open>The shadow of an address is four times its cell, less a constant of its region.\<close>

definition region_base :: "u64 \<Rightarrow> int" where
  "region_base a =
     (if unat a < 0x8000000000 then - 4 else if unat a < 0x568000000000 then 0x54
      else if unat a < 0x7c0000000000 then 0x74 else 0x7c)"

lemma app_cases:
  assumes "IsAppMem a"
  shows "drop_bit 40 a = 0 \<and> unat a < 0x8000000000 \<or>
    drop_bit 40 a \<in> {0x55, 0x56} \<and> 0x550000000000 \<le> unat a \<and> unat a < 0x568000000000 \<or>
    drop_bit 40 a = 0x7b \<and> 0x7b0000000000 \<le> unat a \<and> unat a < 0x7c0000000000 \<or>
    drop_bit 40 a \<in> {0x7e, 0x7f} \<and> 0x7e8000000000 \<le> unat a \<and> unat a < 0x800000000000"
proof -
  have d: "unat (drop_bit 40 a) = unat a div 2 ^ 40" by (simp add: drop_bit_eq_div unat_div)
  have app: "0x7b0000000000 \<le> unat a \<and> unat a < 0x7c0000000000 \<or> 0x550000000000 \<le> unat a \<and> unat a < 0x568000000000 \<or>
      0x1000 \<le> unat a \<and> unat a < 0x8000000000 \<or> 0x7e8000000000 \<le> unat a \<and> unat a < 0x800000000000"
    using assms unfolding IsAppMem_def mapping_consts word_le_nat_alt word_less_nat_alt by simp
  have i: "drop_bit 40 a = c \<longleftrightarrow> unat a div 2 ^ 40 = unat c" for c by (simp only: word_unat_eq_iff d)
  show ?thesis unfolding i insert_iff empty_iff using app by auto
qed

lemma app_small: "IsAppMem a \<Longrightarrow> unat a < 2 ^ 47"
  using app_cases [of a] by auto

lemma MemToShadow_linear:
  assumes "IsAppMem a"
  shows "int (unat (MemToShadow a)) = 4 * int (unat a div 8 * 8) - 4 * region_base a * 2 ^ 40"
proof -
  define m where "m = drop_bit 40 a AND NOT 0x78 XOR 4"
  have m: "m < 2 ^ 8" "int (unat (drop_bit 40 a)) - int (unat m) = region_base a"
    using app_cases [OF assms] by (auto simp: m_def region_base_def)
  have hi: "drop_bit 40 (cell_of a) = drop_bit 40 a"
    by (rule bit_word_eqI) (auto simp: cell_of_def bit_simps dest: bit_imp_le_length)
  have "unat a div 8 * 8 = unat (drop_bit 40 a) * 2 ^ 40 + unat (take_bit 40 (cell_of a))"
    using upper_byte [of "cell_of a"] hi by (simp add: cell_of_unat)
  then show ?thesis
    using MemToShadow_unat [OF m_def [symmetric] m(1)] m(2) by (simp add: algebra_simps)
qed

lemma region_base_mono:
  assumes "IsAppMem a" "IsAppMem b" "unat a \<le> unat b" "\<forall>x. unat a \<le> unat x \<and> unat x \<le> unat b \<longrightarrow> IsAppMem x"
  shows "region_base a = region_base b"
proof -
  have gap: "n < unat a \<or> unat b < n" if "n \<in> {0x8000000000, 0x568000000000, 0x7c0000000000}" for n
  proof (rule ccontr)
    assume n: "\<not> (n < unat a \<or> unat b < n)"
    have u: "unat (of_nat n :: u64) = n" using that by auto
    then have "IsAppMem (of_nat n)" using n assms(4) by auto
    then show False using app_cases [of "of_nat n"] that u by auto
  qed
  define x y where "x = unat a" and "y = unat b"
  have g: "0x8000000000 < x \<or> y < 0x8000000000" "0x568000000000 < x \<or> y < 0x568000000000"
      "0x7c0000000000 < x \<or> y < 0x7c0000000000" "x \<le> y"
    using gap assms(3) unfolding x_def y_def by blast+
  show ?thesis unfolding region_base_def x_def [symmetric] y_def [symmetric] using g by (auto split: if_splits)
qed

lemma app_range:
  fixes a :: u64 and n :: nat
  assumes "\<forall>i < n. IsAppMem (a + of_nat i)"
  shows "i < n \<Longrightarrow> unat (a + of_nat i) = unat a + i" "n \<noteq> 0 \<Longrightarrow> unat a + n \<le> 2 ^ 47"
    "i < n \<Longrightarrow> region_base (a + of_nat i) = region_base a"
proof -
  have u: "unat (a + of_nat i) = unat a + i" if "i < n" for i
    using that
  proof (induction i)
    case (Suc i)
    have "unat a + i < 2 ^ 47"
      using Suc app_small [of "a + of_nat i"] assms by simp
    moreover have "unat (a + of_nat (Suc i)) = unat ((a + of_nat i) + 1)" by (simp add: ac_simps)
    ultimately show ?case using Suc by (simp add: unat_plus_if')
  qed simp
  then show "i < n \<Longrightarrow> unat (a + of_nat i) = unat a + i" by simp
  show "unat a + n \<le> 2 ^ 47" if "n \<noteq> 0"
  proof -
    have "unat (a + of_nat (n - 1)) = unat a + (n - 1)" "IsAppMem (a + of_nat (n - 1))" using u [of "n - 1"] that assms [rule_format, of "n - 1"] by (simp_all del: of_nat_diff)
    then show ?thesis using app_small [of "a + of_nat (n - 1)"] that by linarith
  qed
  show "region_base (a + of_nat i) = region_base a" if i: "i < n"
  proof (rule region_base_mono [symmetric])
    show "IsAppMem a" using assms i by (auto dest: spec [of _ 0])
    show "IsAppMem (a + of_nat i)" using assms i by simp
    show "unat a \<le> unat (a + of_nat i)" using u [OF i] by simp
    show "\<forall>x. unat a \<le> unat x \<and> unat x \<le> unat (a + of_nat i) \<longrightarrow> IsAppMem x"
    proof (intro allI impI)
      fix x :: u64 assume x: "unat a \<le> unat x \<and> unat x \<le> unat (a + of_nat i)"
      define j where "j = unat x - unat a"
      have "j < n" using x u [OF i] i unfolding j_def by linarith
      moreover have "x = a + of_nat j" using u [OF \<open>j < n\<close>] x by (simp add: word_unat_eq_iff j_def)
      ultimately show "IsAppMem x" using assms by simp
    qed
  qed
qed

lemma MemToShadow_range:
  assumes "\<forall>i < n. IsAppMem (a + of_nat i)" "i < n"
  shows "int (unat (MemToShadow (a + of_nat i))) = 4 * int ((unat a + i) div 8 * 8) - 4 * region_base a * 2 ^ 40"
  using MemToShadow_linear [of "a + of_nat i"] app_range [OF assms(1)] assms by simp

text \<open>The next cell's shadow follows.\<close>

lemma MemToShadow_next:
  assumes "\<forall>i < n. IsAppMem (a + of_nat i)" "i < n" "j < n" "(unat a + j) div 8 = (unat a + i) div 8 + k"
  shows "MemToShadow (a + of_nat j) = MemToShadow (a + of_nat i) + 32 * of_nat k"
proof -
  have b: "int (unat (MemToShadow (a + of_nat j))) = int (unat (MemToShadow (a + of_nat i))) + 32 * int k"
    using MemToShadow_range [OF assms(1,2)] MemToShadow_range [OF assms(1,3)] assms(4) by (simp add: algebra_simps)
  have "unat (MemToShadow (a + of_nat j)) < 2 ^ 64" by (rule unat_64_less)
  then have k: "32 * k < 2 ^ 64" using b by linarith
  have "unat (of_nat (32 * k) :: u64) = 32 * k" using k by (intro unat_of_nat_small) simp
  then have "unat (MemToShadow (a + of_nat i) + of_nat (32 * k)) = unat (MemToShadow (a + of_nat i)) + 32 * k"
  proof -
    have "unat (MemToShadow (a + of_nat i)) + 32 * k < 2 ^ 64"
      using b unat_64_less [of "MemToShadow (a + of_nat j)"] by linarith
    then show ?thesis using \<open>unat (of_nat (32 * k)) = 32 * k\<close> by (simp only: unat_plus_if') simp
  qed
  moreover have "unat (MemToShadow (a + of_nat j)) = unat (MemToShadow (a + of_nat i)) + 32 * k" using b by linarith
  ultimately have "MemToShadow (a + of_nat j) = MemToShadow (a + of_nat i) + of_nat (32 * k)"
    by (simp only: word_unat_eq_iff)
  then show ?thesis by simp
qed

section \<open>The pieces of a range\<close>

text \<open>Single bytes, and whole cells from the first boundary on.\<close>

fun access_pieces :: "u64 \<Rightarrow> nat \<Rightarrow> (u64 \<times> nat) list" where
  "access_pieces a n =
     (if n = 0 then []
      else if a mod 8 = 0 \<and> 8 \<le> n then (a, 3) # access_pieces (a + 8) (n - 8)
      else (a, 0) # access_pieces (a + 1) (n - 1))"

declare access_pieces.simps [simp del]

primrec in_turn :: "('p \<Rightarrow> access_state \<Rightarrow> access_stop + access_state \<times> log_line list) \<Rightarrow> 'p list \<Rightarrow>
    access_state \<Rightarrow> access_stop + access_state \<times> log_line list" where
  "in_turn f [] s = Inr (s, [])"
| "in_turn f (p # ps) s = then_access (f p s) (in_turn f ps)"

definition piece_bytes :: "(u64 \<times> nat) list \<Rightarrow> u64 list" where
  "piece_bytes ps = concat (map (\<lambda>(a, k). map (\<lambda>i. a + of_nat i) [0..<2 ^ k]) ps)"

lemma piece_bytes_simps: "piece_bytes [] = []"
  "piece_bytes ((a, k) # ps) = map (\<lambda>i. a + of_nat i) [0..<2 ^ k] @ piece_bytes ps"
  by (simp_all add: piece_bytes_def)

lemma bytes_split:
  assumes "m \<le> n"
  shows "map (\<lambda>i. a + of_nat i) [0..<m] @ map (\<lambda>i. a + of_nat m + of_nat i) [0..<n - m] = map (\<lambda>i. (a :: u64) + of_nat i) [0..<n]"
proof -
  have "[0..<n] = [0..<m] @ map (\<lambda>i. i + m) [0..<n - m]"
    using assms upt_add_eq_append [of 0 m "n - m"] by (simp add: map_add_upt)
  then show ?thesis by (simp add: ac_simps del: map_add_upt upt_add_eq_append)
qed

lemma access_pieces_unfold:
  "n = 0 \<Longrightarrow> access_pieces a n = []"
  "a mod 8 = 0 \<Longrightarrow> 8 \<le> n \<Longrightarrow> access_pieces a n = (a, 3) # access_pieces (a + 8) (n - 8)"
  "n \<noteq> 0 \<Longrightarrow> a mod 8 \<noteq> 0 \<or> n < 8 \<Longrightarrow> access_pieces a n = (a, 0) # access_pieces (a + 1) (n - 1)"
  by (subst access_pieces.simps, auto; fail)+

lemma access_pieces_bytes: "piece_bytes (access_pieces a n) = map (\<lambda>i. a + of_nat i) [0..<n]"
proof (induction a n rule: access_pieces.induct)
  case (1 a n)
  consider "n = 0" | "a mod 8 = 0" "8 \<le> n" | "n \<noteq> 0" "a mod 8 \<noteq> 0 \<or> n < 8" by linarith
  then show ?case
  proof cases
    case 2
    have "piece_bytes (access_pieces a n) = map (\<lambda>i. a + of_nat i) [0..<8] @ map (\<lambda>i. a + 8 + of_nat i) [0..<n - 8]"
      using 1 2 by (simp only: access_pieces_unfold(2) piece_bytes_simps) simp
    then show ?thesis using bytes_split [of 8 n a] 2 by simp
  next
    case 3
    have h: "\<not> (a mod 8 = 0 \<and> 8 \<le> n)" using 3 by auto
    have "piece_bytes (access_pieces a n) = map (\<lambda>i. a + of_nat i) [0..<1] @ map (\<lambda>i. a + 1 + of_nat i) [0..<n - 1]"
      using 1(2) [OF 3(1) h] 3 by (simp add: access_pieces_unfold(3) piece_bytes_simps)
    then show ?thesis using bytes_split [of 1 n a] 3 by simp
  qed (simp add: access_pieces_unfold piece_bytes_simps)
qed

lemma then_access_simps [simp]:
  "then_access (Inl e) f = Inl e" "then_access (Inr (s, [])) f = f s" "then_access r (\<lambda>s. Inr (s, [])) = r"
  by (auto simp: then_access_def split: sum.splits prod.splits)

lemma then_access_assoc: "then_access (then_access r f) g = then_access r (\<lambda>s. then_access (f s) g)"
  by (auto simp: then_access_def split: sum.splits prod.splits)

lemma then_access_Inr: "then_access r f = Inr (s', out) \<longleftrightarrow>
    (\<exists>s1 o1 o2. r = Inr (s1, o1) \<and> f s1 = Inr (s', o2) \<and> out = o1 @ o2)"
  by (auto simp: then_access_def split: sum.splits prod.splits)

lemma in_turn_append: "in_turn f (ps @ qs) s = then_access (in_turn f ps s) (in_turn f qs)"
proof (induction ps arbitrary: s)
  case (Cons p ps)
  then have "in_turn f (ps @ qs) = (\<lambda>s. then_access (in_turn f ps s) (in_turn f qs))" by (intro ext) simp
  then show ?case by (simp add: then_access_assoc)
qed simp

lemma in_turn_Suc: "in_turn f (map g [0..<Suc k]) s = then_access (f (g 0) s) (in_turn f (map (\<lambda>i. g (Suc i)) [0..<k]))"
  by (simp only: upt_conv_Cons zero_less_Suc list.map in_turn.simps)
    (simp only: map_Suc_upt [symmetric] list.map_comp comp_def)

text \<open>The three loops, with the number of their rounds; \<open>F\<close> is the access of a piece at its own shadow.\<close>

definition piece_at ::
  "access_env \<Rightarrow> u64 \<Rightarrow> u64 \<Rightarrow> bool \<Rightarrow> u64 \<times> nat \<Rightarrow> access_state \<Rightarrow> access_stop + access_state \<times> log_line list" where
  "piece_at env pc fs w = (\<lambda>(a, k). range_piece env pc fs a k w (MemToShadow a))"

lemma unat_mod8: "unat ((a :: u64) mod 8) = unat a mod 8"
  by (simp add: unat_mod_distrib)

lemma mod8_zero: "(a :: u64) mod 8 = 0 \<longleftrightarrow> unat a mod 8 = 0"
  by (simp add: word_unat_eq_iff unat_mod8)

lemma mod8_add: "((a :: u64) + 8) mod 8 = a mod 8"
proof -
  have "(unat a + 8) mod 2 ^ 64 mod 8 = unat a mod 8"
    by (subst mod_mod_cancel) simp_all
  then show ?thesis by (simp add: word_unat_eq_iff unat_mod8 unat_word_ariths)
qed

lemma unat_pred: "z \<noteq> 0 \<Longrightarrow> unat (z - 1 :: u64) = unat z - 1"
  by (simp add: unat_minus_one)

lemma range_tail_pieces:
  assumes "n = unat z" "\<forall>i < n. MemToShadow (a + of_nat i) = sm"
  shows "range_tail env pc fs w sm a z s = in_turn (piece_at env pc fs w) (map (\<lambda>i. (a + of_nat i, 0)) [0..<n]) s"
  using assms
proof (induction n arbitrary: a z s)
  case 0
  then show ?case by (simp add: range_tail.simps unat_eq_zero [symmetric])
next
  case (Suc n)
  have "z \<noteq> 0" using Suc.prems(1) by (intro notI) simp
  then have z: "z \<noteq> 0" "unat (z - 1) = n" using Suc.prems(1) unat_pred [of z] by auto
  have "\<forall>i < n. MemToShadow (a + 1 + of_nat i) = sm"
  proof (intro allI impI)
    fix i assume "i < n"
    then show "MemToShadow (a + 1 + of_nat i) = sm" using Suc.prems(2) [rule_format, of "Suc i"] by (simp add: ac_simps)
  qed
  then have ih: "range_tail env pc fs w sm (a + 1) (z - 1) =
      in_turn (piece_at env pc fs w) (map (\<lambda>i. (a + 1 + of_nat i, 0)) [0..<n])"
    using Suc.IH z(2) by (intro ext) simp
  have "range_tail env pc fs w sm a z s =
      then_access (range_piece env pc fs a 0 w sm s) (range_tail env pc fs w sm (a + 1) (z - 1))"
    using z(1) by (subst range_tail.simps) simp
  moreover have "MemToShadow a = sm" using Suc.prems(2) [rule_format, of 0] by simp
  ultimately show ?case unfolding in_turn_Suc ih by (simp add: piece_at_def ac_simps)
qed

lemma range_head_pieces:
  assumes "k \<le> unat z" "k = unat z \<or> (a + of_nat k) mod 8 = 0" "\<forall>i < k. (a + of_nat i) mod 8 \<noteq> 0"
    "\<forall>i < k. MemToShadow (a + of_nat i) = sm"
  shows "\<exists>a' z'. range_head env pc fs w sm a z s =
      (in_turn (piece_at env pc fs w) (map (\<lambda>i. (a + of_nat i, 0)) [0..<k]) s, a', z') \<and>
    (isl (in_turn (piece_at env pc fs w) (map (\<lambda>i. (a + of_nat i, 0)) [0..<k]) s) \<or> a' = a + of_nat k \<and> z' = z - of_nat k)"
  using assms
proof (induction k arbitrary: a z s)
  case 0
  then show ?case by (subst range_head.simps) (auto simp: kShadowCell_def unat_eq_zero)
next
  case (Suc k)
  let ?F = "piece_at env pc fs w" and ?ps = "map (\<lambda>i. (a + 1 + of_nat i, 0)) [0..<k]"
  have "z \<noteq> 0" using Suc.prems(1) by (intro notI) simp
  then have z: "z \<noteq> 0" "unat (z - 1) = unat z - 1" using unat_pred [of z] by auto
  have m: "a mod 8 \<noteq> 0" "MemToShadow a = sm"
    using Suc.prems(3) [rule_format, of 0] Suc.prems(4) [rule_format, of 0] by simp_all
  have nx: "a + 1 + of_nat i = a + of_nat (Suc i)" for i by (simp add: ac_simps)
  have ps: "in_turn ?F (map (\<lambda>i. (a + of_nat i, 0)) [0..<Suc k]) s = then_access (?F (a, 0) s) (in_turn ?F ?ps)"
    unfolding in_turn_Suc nx by simp
  have P: "?F (a, 0) s = range_piece env pc fs a 0 w sm s" by (simp add: piece_at_def m(2))
  have step: "range_head env pc fs w sm a z s =
     (case ?F (a, 0) s of Inl e \<Rightarrow> (Inl e, a, z)
      | Inr (s', out) \<Rightarrow> (case range_head env pc fs w sm (a + 1) (z - 1) s' of
             (r, a', z') \<Rightarrow> (then_access (Inr (s', out)) (\<lambda>_. r), a', z')))"
    using z(1) m(1) by (subst range_head.simps) (simp add: kShadowCell_def P)
  show ?case
  proof (cases "?F (a, 0) s")
    case (Inl e)
    then show ?thesis unfolding ps step by (simp add: then_access_def)
  next
    case (Inr p)
    obtain s' out where p: "p = (s', out)" by (cases p)
    have "\<exists>a' z'. range_head env pc fs w sm (a + 1) (z - 1) s' = (in_turn ?F ?ps s', a', z') \<and>
        (isl (in_turn ?F ?ps s') \<or> a' = a + 1 + of_nat k \<and> z' = z - 1 - of_nat k)"
    proof (rule Suc.IH)
      show "k \<le> unat (z - 1)" "k = unat (z - 1) \<or> (a + 1 + of_nat k) mod 8 = 0"
        using Suc.prems(1,2) z unfolding nx by (auto simp del: of_nat_Suc)
      show "\<forall>i < k. (a + 1 + of_nat i) mod 8 \<noteq> 0" "\<forall>i < k. MemToShadow (a + 1 + of_nat i) = sm"
        using Suc.prems(3,4) unfolding nx by (auto simp del: of_nat_Suc)
    qed
    then obtain a' z' where r: "range_head env pc fs w sm (a + 1) (z - 1) s' = (in_turn ?F ?ps s', a', z')"
      "isl (in_turn ?F ?ps s') \<or> a' = a + 1 + of_nat k \<and> z' = z - 1 - of_nat k" by blast
    have t: "then_access (Inr (s', out)) (in_turn ?F ?ps) = then_access (Inr (s', out)) (\<lambda>_. in_turn ?F ?ps s')"
      by (simp add: then_access_def)
    show ?thesis unfolding ps step Inr p
      using r by (auto simp: t ac_simps then_access_def split: sum.splits)
  qed
qed

lemma range_middle_pieces:
  assumes "k = unat z div 8" "a mod 8 = 0" "\<forall>i < k. MemToShadow (a + 8 * of_nat i) = sm + 32 * of_nat i"
  shows "\<exists>sm' a' z'. range_middle env pc fs w sm a z s =
      (in_turn (piece_at env pc fs w) (map (\<lambda>i. (a + 8 * of_nat i, 3)) [0..<k]) s, sm', a', z') \<and>
    (isl (in_turn (piece_at env pc fs w) (map (\<lambda>i. (a + 8 * of_nat i, 3)) [0..<k]) s) \<or>
      sm' = sm + 32 * of_nat k \<and> a' = a + 8 * of_nat k \<and> z' = z - 8 * of_nat k)"
  using assms
proof (induction k arbitrary: a z s sm)
  case 0
  then show ?case by (subst range_middle.simps) (auto simp: kShadowCell_def word_le_nat_alt)
next
  case (Suc k)
  let ?F = "piece_at env pc fs w" and ?ps = "map (\<lambda>i. (a + 8 + 8 * of_nat i, 3)) [0..<k]"
  have z: "8 \<le> unat z" using Suc.prems(1) by linarith
  have z8: "unat (z - 8) = unat z - 8" using z by (simp add: unat_sub word_le_nat_alt)
  have m: "MemToShadow a = sm" using Suc.prems(3) by (auto dest: spec [of _ 0])
  have nx: "a + 8 + 8 * of_nat i = a + 8 * of_nat (Suc i)" for i by (simp add: algebra_simps)
  have ps: "in_turn ?F (map (\<lambda>i. (a + 8 * of_nat i, 3)) [0..<Suc k]) s = then_access (?F (a, 3) s) (in_turn ?F ?ps)"
    unfolding in_turn_Suc nx by simp
  have P: "?F (a, 3) s = range_piece env pc fs a 3 w sm s" by (simp add: piece_at_def m)
  have step: "range_middle env pc fs w sm a z s =
     (case ?F (a, 3) s of Inl e \<Rightarrow> (Inl e, sm, a, z)
      | Inr (s', out) \<Rightarrow> (case range_middle env pc fs w (sm + 32) (a + 8) (z - 8) s' of
             (r, sm', a', z') \<Rightarrow> (then_access (Inr (s', out)) (\<lambda>_. r), sm', a', z')))"
    using z by (subst range_middle.simps) (simp add: kShadowCell_def kShadowCnt_def word_le_nat_alt P cong: sum.case_cong)
  show ?case
  proof (cases "?F (a, 3) s")
    case (Inl e)
    then show ?thesis unfolding ps step by (simp add: then_access_def)
  next
    case (Inr p)
    obtain s' out where p: "p = (s', out)" by (cases p)
    have a8: "(a + 8) mod 8 = 0" using Suc.prems(2) by (simp only: mod8_add)
    have sm8: "\<forall>i < k. MemToShadow (a + 8 + 8 * of_nat i) = sm + 32 + 32 * of_nat i"
    proof (intro allI impI)
      fix i assume "i < k"
      then show "MemToShadow (a + 8 + 8 * of_nat i) = sm + 32 + 32 * of_nat i"
        using Suc.prems(3) [rule_format, of "Suc i"] by (simp add: algebra_simps)
    qed
    have "k = unat (z - 8) div 8" using Suc.prems(1) z z8 by linarith
    note ih = Suc.IH [OF this a8 sm8, of s']
    then obtain sm' a' z' where r: "range_middle env pc fs w (sm + 32) (a + 8) (z - 8) s' = (in_turn ?F ?ps s', sm', a', z')"
      "isl (in_turn ?F ?ps s') \<or> sm' = sm + 32 + 32 * of_nat k \<and> a' = a + 8 + 8 * of_nat k \<and> z' = z - 8 - 8 * of_nat k"
      by blast
    have t: "then_access (Inr (s', out)) (in_turn ?F ?ps) = then_access (Inr (s', out)) (\<lambda>_. in_turn ?F ?ps s')"
      by (simp add: then_access_def)
    show ?thesis unfolding ps step Inr p
      using r by (auto simp: t algebra_simps then_access_def split: sum.splits)
  qed
qed

text \<open>The pieces in the order of the three loops.\<close>

lemma access_pieces_head:
  assumes "k \<le> n" "\<forall>i < k. (a + of_nat i) mod 8 \<noteq> 0"
  shows "access_pieces a n = map (\<lambda>i. (a + of_nat i, 0)) [0..<k] @ access_pieces (a + of_nat k) (n - k)"
  using assms
proof (induction k arbitrary: a n)
  case (Suc k)
  have "a mod 8 \<noteq> 0" using Suc.prems(2) [rule_format, of 0] by simp
  moreover have "n \<noteq> 0" using Suc.prems(1) by simp
  moreover have "access_pieces (a + 1) (n - 1) =
      map (\<lambda>i. (a + 1 + of_nat i, 0)) [0..<k] @ access_pieces (a + 1 + of_nat k) (n - 1 - k)"
  proof (rule Suc.IH)
    show "\<forall>i < k. (a + 1 + of_nat i) mod 8 \<noteq> 0"
    proof (intro allI impI)
      fix i assume "i < k"
      then show "(a + 1 + of_nat i) mod 8 \<noteq> 0" using Suc.prems(2) [rule_format, of "Suc i"] by (simp add: ac_simps)
    qed
  qed (use Suc.prems in simp)
  moreover have "map (\<lambda>i. (a + of_nat i, 0 :: nat)) [0..<Suc k] = (a, 0) # map (\<lambda>i. (a + 1 + of_nat i, 0)) [0..<k]"
    by (simp only: upt_conv_Cons zero_less_Suc list.map)
      (simp only: map_Suc_upt [symmetric] list.map_comp comp_def of_nat_Suc ac_simps, simp)
  ultimately show ?case by (simp add: access_pieces_unfold(3) ac_simps)
qed simp

lemma access_pieces_middle:
  assumes "a mod 8 = 0" "8 * k \<le> n"
  shows "access_pieces a n = map (\<lambda>i. (a + 8 * of_nat i, 3)) [0..<k] @ access_pieces (a + 8 * of_nat k) (n - 8 * k)"
  using assms
proof (induction k arbitrary: a n)
  case (Suc k)
  have a8: "(a + 8) mod 8 = 0" using Suc.prems(1) by (simp only: mod8_add)
  have "access_pieces (a + 8) (n - 8) =
      map (\<lambda>i. (a + 8 + 8 * of_nat i, 3)) [0..<k] @ access_pieces (a + 8 + 8 * of_nat k) (n - 8 - 8 * k)"
    using Suc.prems(2) by (intro Suc.IH a8) simp
  moreover have "map (\<lambda>i. (a + 8 * of_nat i, 3 :: nat)) [0..<Suc k] = (a, 3) # map (\<lambda>i. (a + 8 + 8 * of_nat i, 3)) [0..<k]"
    by (simp only: upt_conv_Cons zero_less_Suc list.map)
      (simp only: map_Suc_upt [symmetric] list.map_comp comp_def of_nat_Suc algebra_simps, simp)
  ultimately show ?case using Suc.prems by (simp add: access_pieces_unfold(2) algebra_simps)
qed simp

lemma access_pieces_tail:
  assumes "n < 8"
  shows "access_pieces a n = map (\<lambda>i. (a + of_nat i, 0)) [0..<n]"
  using assms
proof (induction n arbitrary: a)
  case (Suc n)
  have "map (\<lambda>i. (a + of_nat i, 0 :: nat)) [0..<Suc n] = (a, 0) # map (\<lambda>i. (a + 1 + of_nat i, 0)) [0..<n]"
    by (simp only: upt_conv_Cons zero_less_Suc list.map)
      (simp only: map_Suc_upt [symmetric] list.map_comp comp_def of_nat_Suc ac_simps, simp)
  then show ?case using Suc by (simp add: access_pieces_unfold(3))
qed (simp add: access_pieces_unfold)

lemma boundary:
  fixes x n k :: nat
  assumes "k = min n ((8 - x mod 8) mod 8)"
  shows "k \<le> n" "k = n \<or> (x + k) mod 8 = 0" "i < k \<Longrightarrow> (x + i) mod 8 \<noteq> 0" "i < k \<Longrightarrow> (x + i) div 8 = x div 8"
    "k \<noteq> 0 \<Longrightarrow> k \<noteq> n \<Longrightarrow> (x + k) div 8 = x div 8 + 1" "k \<noteq> n \<Longrightarrow> k = 0 \<longleftrightarrow> x mod 8 = 0"
proof -
  define q r where "q = x div 8" and "r = x mod 8"
  have x: "x = 8 * q + r" "r < 8" by (simp_all add: q_def r_def)
  have k: "k = min n ((8 - r) mod 8)" using assms by (simp add: r_def)
  have c: "(8 - r) mod 8 = (if r = 0 then 0 else 8 - r)" using x(2) by auto
  show "k \<le> n" using k by simp
  show "k = n \<or> (x + k) mod 8 = 0" using k x c by (auto simp: min_def)
  have i: "r \<noteq> 0 \<and> r + i < 8" if "i < k" using that k c x(2) by (auto split: if_splits)
  have "(x + i) mod 8 = (r + i) mod 8" by (simp add: r_def mod_simps)
  then show "i < k \<Longrightarrow> (x + i) mod 8 \<noteq> 0" using i by auto
  show "i < k \<Longrightarrow> (x + i) div 8 = x div 8" using i x by auto
  show "k \<noteq> 0 \<Longrightarrow> k \<noteq> n \<Longrightarrow> (x + k) div 8 = x div 8 + 1" using k x c by (auto simp: min_def split: if_splits)
  show "k \<noteq> n \<Longrightarrow> k = 0 \<longleftrightarrow> x mod 8 = 0" using k x c by (auto simp: min_def split: if_splits)
qed

lemma div8_step:
  fixes x k c i :: nat
  assumes "(x + k) mod 8 = 0" "k + 8 * c \<le> i" "i < k + 8 * c + 8"
  shows "(x + i) div 8 = (x + k) div 8 + c"
proof (rule div_nat_eqI)
  obtain q where q: "x + k = 8 * q" using assms(1) by auto
  then have d: "(x + k) div 8 = q" by simp
  show "8 * ((x + k) div 8 + c) \<le> x + i" "x + i < 8 * Suc ((x + k) div 8 + c)"
    unfolding d using q assms(2,3) by simp_all
qed

lemma range_pieces:
  fixes sz :: u64
  assumes app: "\<forall>i < unat sz. IsAppMem (addr + of_nat i)" and "sz \<noteq> 0"
    and "sh (MemToShadow addr) \<noteq> kShadowRodata" "\<not> GetIgnoreBit (fast_state thr)"
  defines "fs \<equiv> IncrementEpoch (fast_state thr)"
  shows "MemoryAccessRange env pc addr sz w (thr, d, sh) =
    in_turn (piece_at env pc fs w) (access_pieces addr (unat sz)) (thr\<lparr>fast_state := fs\<rparr>, d, sh)"
proof -
  let ?n = "unat sz" and ?F = "piece_at env pc fs w" and ?s = "(thr\<lparr>fast_state := fs\<rparr>, d, sh)" and ?sm = "MemToShadow addr"
  define k where "k = min ?n ((8 - unat addr mod 8) mod 8)"
  define j where "j = (?n - k) div 8"
  let ?hd = "map (\<lambda>i. (addr + of_nat i, 0)) [0..<k]" and ?a1 = "addr + of_nat k" and ?z1 = "sz - of_nat k"
  have u: "unat (addr + of_nat i) = unat addr + i" if "i < ?n" for i using app_range(1) [OF app that] .
  have len: "unat addr + ?n \<le> 2 ^ 47" using app_range(2) [OF app] \<open>sz \<noteq> 0\<close> by (simp add: unat_eq_zero)
  have u': "unat (addr + of_nat i) = unat addr + i" if "i \<le> ?n" for i
  proof -
    have "i < 2 ^ 64" using that unat_64_less [of sz] by linarith
    then have "unat (of_nat i :: u64) = i" by (intro unat_of_nat_small) simp
    then show ?thesis using that len by (simp add: unat_plus_if')
  qed
  have next_cell: "MemToShadow (addr + of_nat i) = ?sm + 32 * of_nat c"
    if "i < ?n" "(unat addr + i) div 8 = unat addr div 8 + c" for i c
    using MemToShadow_next [OF app _ that(1), of 0 c] that by auto
  note bd = boundary [OF k_def]
  have k: "k \<le> ?n" "k = ?n \<or> ?a1 mod 8 = 0" "\<forall>i < k. (addr + of_nat i) mod 8 \<noteq> 0" "\<forall>i < k. MemToShadow (addr + of_nat i) = ?sm"
  proof -
    show kn: "k \<le> ?n" by (rule bd(1))
    show "k = ?n \<or> ?a1 mod 8 = 0" using bd(2) u' [OF kn] by (simp add: mod8_zero)
    show "\<forall>i < k. (addr + of_nat i) mod 8 \<noteq> 0" unfolding mod8_zero using bd(3) u kn by simp
    show "\<forall>i < k. MemToShadow (addr + of_nat i) = ?sm" using bd(4) kn next_cell [of _ 0] by simp
  qed
  have z1: "unat ?z1 = ?n - k"
  proof -
    have "unat (of_nat k :: u64) = k" using k(1) unat_64_less [of sz] by (intro unat_of_nat_small) simp
    then show ?thesis using k(1) by (simp add: unat_sub word_le_nat_alt)
  qed
  have j: "8 * j \<le> ?n - k" "?n - k - 8 * j < 8" unfolding j_def minus_mult_div_eq_mod by (rule times_div_less_eq_dividend) simp
  let ?sm1 = "if addr mod 8 \<noteq> 0 then ?sm + 32 else ?sm"
  let ?md = "map (\<lambda>i. (?a1 + 8 * of_nat i, 3)) [0..<j]" and ?a2 = "?a1 + 8 * of_nat j" and ?z2 = "?z1 - 8 * of_nat j"
  have cells: "MemToShadow (addr + of_nat i) = ?sm1 + 32 * of_nat c"
    if "k \<noteq> ?n" "i < ?n" "k + 8 * c \<le> i" "i < k + 8 * c + 8" for i c
  proof -
    define e where "e = (if addr mod 8 \<noteq> 0 then 1 else 0 :: nat)"
    have "(unat addr + k) mod 8 = 0" using bd(2) that(1) by simp
    then have "(unat addr + i) div 8 = (unat addr + k) div 8 + c" using that(3,4) by (intro div8_step)
    moreover have "(unat addr + k) div 8 = unat addr div 8 + e"
      using bd(5,6) that(1) unfolding e_def mod8_zero by (cases "k = 0") auto
    ultimately have "(unat addr + i) div 8 = unat addr div 8 + (e + c)" by simp
    then show ?thesis using next_cell [OF that(2)] by (auto simp: e_def algebra_simps)
  qed
  have z2: "unat ?z2 = ?n - k - 8 * j"
  proof -
    have "8 * j < 2 ^ 64" using j(1) unat_64_less [of sz] by linarith
    then have "unat (of_nat (8 * j) :: u64) = 8 * j" by (intro unat_of_nat_small) simp
    then have "unat (8 * of_nat j :: u64) = 8 * j" by simp
    then show ?thesis using j(1) z1 by (simp add: unat_sub word_le_nat_alt)
  qed
  have tail: "range_tail env pc fs w (?sm1 + 32 * of_nat j) ?a2 ?z2 s = in_turn ?F (access_pieces ?a2 (?n - k - 8 * j)) s" for s
  proof -
    have "\<forall>i < ?n - k - 8 * j. MemToShadow (?a2 + of_nat i) = ?sm1 + 32 * of_nat j"
    proof (intro allI impI)
      fix i assume i: "i < ?n - k - 8 * j"
      then have "MemToShadow (addr + of_nat (k + 8 * j + i)) = ?sm1 + 32 * of_nat j"
        using j(2) by (intro cells) auto
      then show "MemToShadow (?a2 + of_nat i) = ?sm1 + 32 * of_nat j" by (simp add: add.assoc)
    qed
    then show ?thesis
      using range_tail_pieces [OF z2 [symmetric]] access_pieces_tail [OF j(2)] by simp
  qed
  have mid_cells: "\<forall>i < j. MemToShadow (?a1 + 8 * of_nat i) = ?sm1 + 32 * of_nat i"
  proof (intro allI impI)
    fix i assume "i < j"
    then have "MemToShadow (addr + of_nat (k + 8 * i)) = ?sm1 + 32 * of_nat i"
      using j(1) by (intro cells) auto
    then show "MemToShadow (?a1 + 8 * of_nat i) = ?sm1 + 32 * of_nat i" by (simp add: add.assoc)
  qed
  have pcs: "access_pieces addr ?n = ?hd @ ?md @ access_pieces ?a2 (?n - k - 8 * j)"
  proof (cases "k = ?n")
    case True
    then show ?thesis using access_pieces_head [OF k(1,3)] by (simp add: j_def)
  next
    case False
    then have "?a1 mod 8 = 0" using k(2) by simp
    then show ?thesis using access_pieces_head [OF k(1,3)] access_pieces_middle [OF _ j(1), of ?a1] by simp
  qed
  obtain a' z' where hd: "range_head env pc fs w ?sm addr sz ?s = (in_turn ?F ?hd ?s, a', z')"
    "isl (in_turn ?F ?hd ?s) \<or> a' = ?a1 \<and> z' = ?z1"
    using range_head_pieces [OF k] by blast
  have md: "\<exists>sm' a' z'. range_middle env pc fs w ?sm1 ?a1 ?z1 s = (in_turn ?F ?md s, sm', a', z') \<and>
      (isl (in_turn ?F ?md s) \<or> sm' = ?sm1 + 32 * of_nat j \<and> a' = ?a2 \<and> z' = ?z2)" for s
  proof (cases "k = ?n")
    case True
    then have "j = 0" "unat ?z1 < 8" using z1 by (simp_all add: j_def)
    then show ?thesis by (subst range_middle.simps) (simp add: kShadowCell_def word_le_nat_alt)
  next
    case False
    then show ?thesis using k(2) z1 mid_cells by (intro range_middle_pieces) (auto simp: j_def)
  qed
  have run: "MemoryAccessRange env pc addr sz w (thr, d, sh) =
     (case in_turn ?F ?hd ?s of Inl e \<Rightarrow> Inl e
      | Inr (s1, out1) \<Rightarrow>
          (let (r2, sm2, addr2, sz2) = range_middle env pc fs w ?sm1 a' z' s1 in
           then_access (then_access (in_turn ?F ?hd ?s) (\<lambda>_. r2)) (range_tail env pc fs w sm2 addr2 sz2)))"
    using assms(2,3,4) hd(1)
    by (simp add: MemoryAccessRange_def fs_def kShadowCell_def kShadowCnt_def Let_def split: sum.splits)
  show ?thesis
  proof (cases "in_turn ?F ?hd ?s")
    case (Inl e)
    then show ?thesis unfolding pcs in_turn_append run by simp
  next
    case (Inr p)
    obtain s1 out1 where p: "p = (s1, out1)" by (cases p)
    obtain sm2 a2 z2 where m: "range_middle env pc fs w ?sm1 ?a1 ?z1 s1 = (in_turn ?F ?md s1, sm2, a2, z2)"
      "isl (in_turn ?F ?md s1) \<or> sm2 = ?sm1 + 32 * of_nat j \<and> a2 = ?a2 \<and> z2 = ?z2"
      using md by blast
    have az: "a' = ?a1" "z' = ?z1" using hd(2) Inr by simp_all
    have "MemoryAccessRange env pc addr sz w (thr, d, sh) =
        then_access (then_access (Inr p) (\<lambda>_. in_turn ?F ?md s1)) (range_tail env pc fs w sm2 a2 z2)"
      unfolding run Inr p sum.case prod.case az m(1) Let_def by simp
    also have "\<dots> = then_access (Inr p) (\<lambda>_. then_access (in_turn ?F ?md s1) (range_tail env pc fs w sm2 a2 z2))"
      by (rule then_access_assoc)
    also have "then_access (in_turn ?F ?md s1) (range_tail env pc fs w sm2 a2 z2) =
        then_access (in_turn ?F ?md s1) (in_turn ?F (access_pieces ?a2 (?n - k - 8 * j)))"
    proof (cases "isl (in_turn ?F ?md s1)")
      case False
      moreover have "range_tail env pc fs w (?sm1 + 32 * of_nat j) ?a2 ?z2 = in_turn ?F (access_pieces ?a2 (?n - k - 8 * j))"
        by (rule ext) (rule tail)
      ultimately show ?thesis using m(2) by simp
    qed (auto simp: isl_def)
    also have "then_access (Inr p) (\<lambda>_. then_access (in_turn ?F ?md s1) (in_turn ?F (access_pieces ?a2 (?n - k - 8 * j)))) =
        then_access (Inr p) (\<lambda>s. then_access (in_turn ?F ?md s) (in_turn ?F (access_pieces ?a2 (?n - k - 8 * j))))"
      unfolding p by (simp add: then_access_def)
    finally show ?thesis unfolding pcs in_turn_append Inr .
  qed
qed

lemma access_pieces_cells: "(b, k) \<in> set (access_pieces a n) \<Longrightarrow> k = 0 \<or> k = 3 \<and> b mod 8 = 0"
proof (induction a n rule: access_pieces.induct)
  case (1 a n)
  consider "n = 0" | "a mod 8 = 0" "8 \<le> n" | "n \<noteq> 0" "\<not> (a mod 8 = 0 \<and> 8 \<le> n)" by linarith
  then show ?case
  proof cases
    case 2
    have "(b, k) = (a, 3) \<or> (b, k) \<in> set (access_pieces (a + 8) (n - 8))"
      using 1(3) unfolding access_pieces_unfold(2) [OF 2] by simp
    moreover have "n \<noteq> 0" using 2(2) by linarith
    ultimately show ?thesis using 1(1) 2 by blast
  next
    case 3
    then show ?thesis using 1(2,3) by (auto simp: access_pieces_unfold(3))
  qed (use 1(3) in \<open>simp add: access_pieces_unfold\<close>)
qed

text \<open>
  C16: A range access (as for \<open>memcpy\<close> of persistent data) is the same as accesses of its bytes up
  to the first cell boundary, of its whole cells, and of its remaining bytes, in this order, each
  recorded in the shadow of its own cell: the shadow pointer the loops advance by hand is always
  the one \<open>MemToShadow\<close> gives. The pieces cover every byte of the range once.
\<close>

theorem range_access_pieces:
  fixes sz :: u64
  assumes "\<forall>i < unat sz. IsAppMem (addr + of_nat i)" "sz \<noteq> 0"
    and "sh (MemToShadow addr) \<noteq> kShadowRodata" "\<not> GetIgnoreBit (fast_state thr)"
  shows "MemoryAccessRange env pc addr sz w (thr, d, sh) =
      in_turn (\<lambda>(a, k). range_piece env pc (IncrementEpoch (fast_state thr)) a k w (MemToShadow a))
        (access_pieces addr (unat sz)) (thr\<lparr>fast_state := IncrementEpoch (fast_state thr)\<rparr>, d, sh) \<and>
    concat (map (\<lambda>(a, k). map (\<lambda>i. a + of_nat i) [0..<2 ^ k]) (access_pieces addr (unat sz))) =
      map (\<lambda>i. addr + of_nat i) [0..<unat sz] \<and>
    (\<forall>(a, k) \<in> set (access_pieces addr (unat sz)). k = 0 \<or> k = 3 \<and> a mod 8 = 0)"
  using range_pieces [of sz addr sh thr env pc w d] assms access_pieces_bytes [of addr "unat sz"]
    access_pieces_cells [of _ _ addr "unat sz"]
  by (auto simp: piece_at_def piece_bytes_def)

definition acc_env :: access_env where
  "acc_env = \<lparr>e_address_label = (\<lambda>_. 0), e_tags = 0x400000, e_used_tags = 2, e_cprd = pm_init, e_page_size = 4096,
     e_threshold = 65536, e_after_fork = False, e_remap_ok = (\<lambda>_ _. True), e_lib_ignored = (\<lambda>_. False)\<rparr>"

definition acc_thread :: thread_state where
  "acc_thread = \<lparr>fast_state = FastState_new 1 7, fast_synch_epoch = 3, ignore_reads_and_writes = 0, ignore_sync = 0,
     mop_ignore_set = [], sync_ignore_set = [], shadow_stack = [0x401000], is_freeing = False, is_vptr_access = False,
     ts_pm = thread_init\<rparr>"

lemma acc_thread_fields [simp]: "\<not> GetIgnoreBit (fast_state acc_thread)" "unat (fs_epoch (fast_state acc_thread)) = 7"
    "fast_synch_epoch acc_thread = 3"
  by (simp_all add: acc_thread_def FastState_new_def GetIgnoreBit_bit shadow_shifts fs_epoch_bits)

theorem range_access_pieces_witness:
  "MemoryAccessRange acc_env 5 0x1007 10 True (acc_thread, dfsan_zero, \<lambda>_. 0) =
     in_turn (\<lambda>(a, k). range_piece acc_env 5 (IncrementEpoch (fast_state acc_thread)) a k True (MemToShadow a))
       [(0x1007, 0), (0x1008, 3), (0x1010, 0)]
       (acc_thread\<lparr>fast_state := IncrementEpoch (fast_state acc_thread)\<rparr>, dfsan_zero, \<lambda>_. 0)"
proof -
  have "\<forall>i < unat (10 :: u64). IsAppMem (0x1007 + of_nat i)"
  proof (intro allI impI)
    fix i assume "i < unat (10 :: u64)"
    then have "i < 10" by simp
    then have "unat (0x1007 + of_nat i :: u64) = 0x1007 + i" by (simp add: unat_word_ariths unsigned_of_nat take_bit_nat_eq_self)
    then show "IsAppMem (0x1007 + of_nat i)"
      using \<open>i < 10\<close> unfolding IsAppMem_def mapping_consts word_le_nat_alt word_less_nat_alt by simp
  qed
  moreover have "access_pieces 0x1007 10 = [(0x1007, 0), (0x1008, 3), (0x1010, 0)]"
    by (simp add: access_pieces.simps)
  ultimately show ?thesis
    using range_access_pieces [of 10 "0x1007" "\<lambda>_. 0" acc_thread acc_env 5 True dfsan_zero] by (simp add: kShadowRodata_def)
qed

section \<open>The pieces of an unaligned access\<close>

fun unaligned_pieces :: "u64 \<Rightarrow> nat \<Rightarrow> (u64 \<times> nat) list" where
  "unaligned_pieces a n =
     (if n = 0 then []
      else (a, unaligned_size_log a n) # unaligned_pieces (a + 2 ^ unaligned_size_log a n) (n - 2 ^ unaligned_size_log a n))"

declare unaligned_pieces.simps [simp del]

lemma unaligned_size: "n \<noteq> 0 \<Longrightarrow> 2 ^ unaligned_size_log a n \<le> n"
  by (auto simp: unaligned_size_log_def)

lemma unaligned_cell: "(a + 2 ^ unaligned_size_log a n - 1) AND NOT 7 = a AND NOT 7"
  by (auto simp: unaligned_size_log_def add.commute)

lemma unaligned_pieces_cover:
  "piece_bytes (unaligned_pieces a n) = map (\<lambda>i. a + of_nat i) [0..<n] \<and>
    (\<forall>(b, k) \<in> set (unaligned_pieces a n). (b + 2 ^ k - 1) AND NOT 7 = b AND NOT 7)"
proof (induction a n rule: unaligned_pieces.induct)
  case (1 a n)
  let ?k = "unaligned_size_log a n"
  show ?case
  proof (cases "n = 0")
    case False
    have u: "unaligned_pieces a n = (a, ?k) # unaligned_pieces (a + 2 ^ ?k) (n - 2 ^ ?k)"
      using False by (subst unaligned_pieces.simps) simp
    have "map (\<lambda>i. a + of_nat i) [0..<2 ^ ?k] @ map (\<lambda>i. a + 2 ^ ?k + of_nat i) [0..<n - 2 ^ ?k] = map (\<lambda>i. a + of_nat i) [0..<n]"
      using bytes_split [OF unaligned_size [OF False], of a a] by simp
    then show ?thesis using 1 [OF False] unaligned_cell [of a n] unfolding u by (simp add: piece_bytes_simps)
  qed (simp add: unaligned_pieces.simps piece_bytes_simps)
qed

lemma unaligned_run:
  "UnalignedMemoryAccess env pc addr sz w at' s =
    in_turn (\<lambda>(a, k). MemoryAccess env pc a k w at' False) (unaligned_pieces addr sz) s"
proof (induction addr sz arbitrary: s rule: unaligned_pieces.induct)
  case (1 a n)
  let ?k = "unaligned_size_log a n"
  show ?case
  proof (cases "n = 0")
    case True
    then show ?thesis by (simp add: UnalignedMemoryAccess.simps unaligned_pieces.simps)
  next
    case False
    have u: "unaligned_pieces a n = (a, ?k) # unaligned_pieces (a + 2 ^ ?k) (n - 2 ^ ?k)"
      using False by (subst unaligned_pieces.simps) simp
    have "UnalignedMemoryAccess env pc (a + 2 ^ ?k) (n - 2 ^ ?k) w at' =
        in_turn (\<lambda>(a, k). MemoryAccess env pc a k w at' False) (unaligned_pieces (a + 2 ^ ?k) (n - 2 ^ ?k))"
      using 1 [OF False] by (intro ext)
    then show ?thesis using False unfolding u by (subst UnalignedMemoryAccess.simps) (simp add: Let_def)
  qed
qed

text \<open>
  An unaligned access is split into aligned-in-cell accesses of 8, 4, 2 or 1 bytes that cover
  every byte once, in order, and none of which crosses into the next cell; the loop always
  ends.
\<close>

theorem unaligned_access_pieces:
  "UnalignedMemoryAccess env pc addr sz w at' s =
      in_turn (\<lambda>(a, k). MemoryAccess env pc a k w at' False) (unaligned_pieces addr sz) s \<and>
    concat (map (\<lambda>(a, k). map (\<lambda>i. a + of_nat i) [0..<2 ^ k]) (unaligned_pieces addr sz)) = map (\<lambda>i. addr + of_nat i) [0..<sz] \<and>
    (\<forall>p \<in> set (unaligned_pieces addr sz). (fst p + 2 ^ snd p - 1) AND NOT 7 = fst p AND NOT 7)"
  using unaligned_run [of env pc addr sz w at' s] unaligned_pieces_cover [of addr sz]
  by (auto simp: piece_bytes_def)

theorem unaligned_access_pieces_witness:
  "UnalignedMemoryAccess acc_env 5 0x1006 8 True False (acc_thread, dfsan_zero, \<lambda>_. 0) =
     in_turn (\<lambda>(a, k). MemoryAccess acc_env 5 a k True False False) [(0x1006, 1), (0x1008, 2), (0x100c, 1)]
       (acc_thread, dfsan_zero, \<lambda>_. 0)"
proof -
  have "unaligned_pieces 0x1006 8 = [(0x1006, 1), (0x1008, 2), (0x100c, 1)]"
    by (simp add: unaligned_pieces.simps unaligned_size_log_def)
  then show ?thesis using unaligned_access_pieces [of acc_env 5 "0x1006" 8 True False "(acc_thread, dfsan_zero, \<lambda>_. 0)"] by simp
qed

section \<open>Accesses that are not logged\<close>

lemma hi_bits: "hi x = hi y \<longleftrightarrow> (\<forall>n. 32 \<le> n \<and> n < 64 \<longrightarrow> bit x n = bit y n)"
  using hi_eq [of x True y] by simp

lemma increment_bits:
  assumes "unat (fs_epoch x) < 2 ^ 31 - 1"
  shows "32 \<le> n \<Longrightarrow> bit (IncrementEpoch x) n = bit x n" "unat (fs_epoch (IncrementEpoch x)) = unat (fs_epoch x) + 1"
proof -
  have e: "unat (take_bit 42 x) < 2 ^ 31 - 1" using assms by (simp add: fs_epoch_bits)
  have split: "x = (push_bit 42 (drop_bit 42 x)) OR take_bit 42 x" by (rule bit_word_eqI) (auto simp: bit_simps)
  have d: "push_bit 42 (drop_bit 42 x) AND y = 0" if "unat y < 2 ^ 31" for y :: u64
    using small_bits [OF that, of _] by (intro bit_word_eqI) (auto simp: bit_simps)
  have u1: "unat (take_bit 42 x + 1) = unat (take_bit 42 x) + 1" using e by (simp add: unat_plus_if')
  have "x + 1 = push_bit 42 (drop_bit 42 x) + (take_bit 42 x + 1)"
    by (subst split) (use d [of "take_bit 42 x"] e in \<open>simp add: disjunctive_add_eq_or [symmetric] ac_simps\<close>)
  also have "\<dots> = push_bit 42 (drop_bit 42 x) OR (take_bit 42 x + 1)"
    using d [of "take_bit 42 x + 1"] e u1 by (simp add: disjunctive_add_eq_or)
  finally have s: "IncrementEpoch x = push_bit 42 (drop_bit 42 x) OR (take_bit 42 x + 1)" by (simp add: IncrementEpoch_def)
  have nb: "\<not> bit (take_bit 42 x + 1) k" "\<not> bit (take_bit 42 x) k" if "32 \<le> k" for k
    using small_bits [of "take_bit 42 x + 1" 31 k] small_bits [of "take_bit 42 x" 31 k] e u1 that by simp_all
  show "bit (IncrementEpoch x) n = bit x n" if "32 \<le> n"
    using nb [OF that] unfolding s by (subst (3) split) (simp add: bit_or_iff)
  have "take_bit 42 (IncrementEpoch x) = take_bit 42 x + 1"
    unfolding s using nb(1) by (intro bit_word_eqI) (auto simp: bit_simps)
  then show "unat (fs_epoch (IncrementEpoch x)) = unat (fs_epoch x) + 1" using u1 by (simp add: fs_epoch_bits)
qed

lemma cur_high:
  assumes "\<And>n. 32 \<le> n \<Longrightarrow> bit x n = bit y n"
  shows "32 \<le> n \<Longrightarrow> bit (shadow_cur x off szl w a) n = bit (shadow_cur y off szl w a) n"
  unfolding shadow_cur_def set_field_bits by (simp add: assms)

lemma cur_epoch: "fs_epoch (shadow_cur x off szl w a) = fs_epoch x"
  unfolding fs_epoch_bits by (rule bit_word_eqI) (auto simp: bit_take_bit_iff shadow_cur_def set_field_bits)

text \<open>The record of an access in its slot makes the search find it until the epoch is synchronised.\<close>

lemma recorded_found:
  assumes e: "unat (fs_epoch fs) < 2 ^ 31 - 1" "sync \<le> fs_epoch fs"
    and slot: "i < 4" "s ! i = IncrementEpoch (shadow_cur fs off szl True a)"
    and hi: "\<And>n. 32 \<le> n \<Longrightarrow> bit fs' n = bit fs n"
  shows "ContainsSameAccessFast s (shadow_cur fs' off szl True a) sync True"
proof -
  let ?r = "IncrementEpoch (shadow_cur fs off szl True a)"
  have ep: "unat (fs_epoch (shadow_cur fs off szl True a)) < 2 ^ 31 - 1" using e(1) by (simp add: cur_epoch)
  have "hi (shadow_cur fs' off szl True a) = hi ?r"
    unfolding hi_bits using increment_bits(1) [OF ep] cur_high [OF hi, of _ off szl True a] by simp
  moreover have "lo sync <s lo ?r"
  proof -
    have r: "unat (fs_epoch ?r) = unat (fs_epoch fs) + 1" using increment_bits(2) [OF ep] by (simp add: cur_epoch)
    have "unat sync < 2 ^ 31" "unat (fs_epoch ?r) < 2 ^ 31" using e r by (simp_all add: word_le_nat_alt)
    then have "lo sync <s lo ?r \<longleftrightarrow> sync < fs_epoch ?r" by (rule lo_less)
    then show ?thesis using e(2) r by (simp add: word_le_nat_alt word_less_nat_alt)
  qed
  moreover have "i \<in> {0, 1, 2, 3}" using slot(1) by auto
  ultimately show ?thesis unfolding fast_lanes using slot(2) by auto
qed

lemma MemoryAccess_unfold:
  assumes "\<not> GetIgnoreBit (fast_state thr)" "is_write \<or> sh (MemToShadow addr) \<noteq> kShadowRodata"
  shows "MemoryAccess env pc addr szl is_write a nt (thr, d, sh) =
    (let cur = shadow_cur (fast_state thr) (addr AND 7) (of_nat szl) is_write a in
     if ContainsSameAccess sh (MemToShadow addr) cur (fast_synch_epoch thr) is_write then Inr ((thr, d, sh), [])
     else MemoryAccessImpl1 env addr szl is_write a (MemToShadow addr) (IncrementEpoch cur) pc nt
            (thr\<lparr>fast_state := IncrementEpoch (fast_state thr)\<rparr>, d, sh))"
  using assms by (auto simp: MemoryAccess_def shadow_cur_def Let_def)

lemma MemoryAccessImpl1_effect:
  assumes "MemoryAccessImpl1 env addr szl w a sm cur pc nt (thr, d, sh) = Inr ((thr1, d1, sh1), out)"
  shows "\<exists>pm. thr1 = thr\<lparr>ts_pm := pm\<rparr>" "sh1 = sh(sm + 8 * (fs_epoch cur mod 4) := cur)"
  using assms by (auto simp: MemoryAccessImpl1_def StoreShadow_def kShadowCnt_def split: sum.splits prod.splits)

lemma slot_stored:
  fixes e :: u64
  shows "\<exists>i < 4. shadow_cell (sh(p + 8 * (e mod 4) := v)) p ! i = v"
proof -
  define i where "i = unat (e mod 4)"
  have "i < 4" by (simp add: i_def unat_mod_distrib)
  moreover have "of_nat i = e mod 4" by (simp add: i_def)
  ultimately show ?thesis by (intro exI [of _ i]) (simp add: shadow_cell_def)
qed

lemma aligned_offset:
  fixes p p' :: u64
  assumes "32 dvd unat p" "32 dvd unat p'" "i < 4" "j < 4"
  shows "p + 8 * of_nat i = p' + 8 * of_nat j \<longleftrightarrow> p = p' \<and> i = j"
proof
  have u: "unat (q + 8 * of_nat k) = unat q + 8 * k" if q: "32 dvd unat q" and "k < 4" for q :: u64 and k
  proof -
    obtain m where m: "unat q = 32 * m" using q by blast
    have k8: "unat (8 * of_nat k :: u64) = 8 * k"
      using unat_of_nat_small [of "8 * k", where 'a = 64] that(2) by simp
    have "32 * m < 2 ^ 64" using unat_64_less [of q] m by simp
    then have "32 * m + 8 * k < 2 ^ 64" using that(2) by simp
    then show ?thesis using k8 m by (simp add: unat_plus_if')
  qed
  assume "p + 8 * of_nat i = p' + 8 * of_nat j"
  then have "unat p + 8 * i = unat p' + 8 * j" using u assms by metis
  moreover obtain m m' where "unat p = 32 * m" "unat p' = 32 * m'" using assms(1,2) by (metis dvdE)
  ultimately have "unat p = unat p'" "i = j" using assms(3,4) by presburger+
  then show "p = p' \<and> i = j" by (simp add: word_unat_eq_iff)
qed simp

text \<open>The search depends on the bits of the access above the lower half only.\<close>

lemma search_high:
  assumes "\<And>n. 32 \<le> n \<Longrightarrow> bit x n = bit y n"
  shows "ContainsSameAccessFast s (shadow_cur x off szl w a) sync w = ContainsSameAccessFast s (shadow_cur y off szl w a) sync w"
proof -
  have "hi (shadow_cur x off szl w a) = hi (shadow_cur y off szl w a)"
    unfolding hi_bits using cur_high [of x y, OF assms] by simp
  then show ?thesis unfolding fast_lanes by simp
qed

text \<open>What a store leaves behind: the thread's next store to the same bytes finds it recorded.\<close>

lemma write_then_same:
  assumes run: "MemoryAccess env pc addr szl True a nt (thr, d, sh) = Inr ((thr1, d1, sh1), out)"
    and ig: "\<not> GetIgnoreBit (fast_state thr)"
    and e: "unat (fs_epoch (fast_state thr)) < 2 ^ 31 - 1" "fast_synch_epoch thr \<le> fs_epoch (fast_state thr)"
  shows "ContainsSameAccess sh1 (MemToShadow addr) (shadow_cur (fast_state thr) (addr AND 7) (of_nat szl) True a)
      (fast_synch_epoch thr) True"
proof (cases "ContainsSameAccess sh (MemToShadow addr) (shadow_cur (fast_state thr) (addr AND 7) (of_nat szl) True a)
    (fast_synch_epoch thr) True")
  case True
  then show ?thesis using run ig by (simp add: MemoryAccess_unfold Let_def)
next
  case False
  let ?fs = "fast_state thr" and ?p = "MemToShadow addr"
  let ?cur = "IncrementEpoch (shadow_cur ?fs (addr AND 7) (of_nat szl) True a)"
  have "MemoryAccessImpl1 env addr szl True a ?p ?cur pc nt
      (thr\<lparr>fast_state := IncrementEpoch ?fs\<rparr>, d, sh) = Inr ((thr1, d1, sh1), out)"
    using run ig False by (simp add: MemoryAccess_unfold Let_def)
  from MemoryAccessImpl1_effect [OF this]
  have sh: "sh1 = sh(?p + 8 * (fs_epoch ?cur mod 4) := ?cur)" by auto
  obtain i where i: "i < 4" "shadow_cell sh1 ?p ! i = ?cur"
    using slot_stored [of sh ?p "fs_epoch ?cur" ?cur] unfolding sh by blast
  show ?thesis unfolding ContainsSameAccess_def by (rule recorded_found [OF e i refl])
qed

text \<open>The steps of a thread that neither synchronise nor touch the cell of an address, and records stored by other threads.\<close>

datatype quiet_op = DoFlush u64 u64 | DoFence u64 | DoEntry u64 | DoExit | DoAccess u64 u64 nat bool bool bool | DoOthers u64 u64

definition on_thread :: "(thread_state \<Rightarrow> access_stop + thread_state) \<Rightarrow> access_state \<Rightarrow> access_stop + access_state \<times> log_line list" where
  "on_thread f s = (case s of (thr, d, sh) \<Rightarrow> (case f thr of Inl e \<Rightarrow> Inl e | Inr thr' \<Rightarrow> Inr ((thr', d, sh), [])))"

fun quiet_op_step :: "access_env \<Rightarrow> quiet_op \<Rightarrow> access_state \<Rightarrow> access_stop + access_state \<times> log_line list" where
  "quiet_op_step env (DoFlush pc a) s = Inr (MemoryFlushAccess pc a s, [])"
| "quiet_op_step env (DoFence pc) s = Inr (MemoryFenceAccess pc s)"
| "quiet_op_step env (DoEntry pc) s = on_thread (FuncEntry pc) s"
| "quiet_op_step env DoExit s = on_thread FuncExit s"
| "quiet_op_step env (DoAccess pc a szl w at' nt) s = MemoryAccess env pc a szl w at' nt s"
| "quiet_op_step env (DoOthers sp v) (thr, d, sh) = Inr ((thr, d, StoreShadow sp v sh), [])"

definition apart :: "u64 \<Rightarrow> quiet_op \<Rightarrow> bool" where
  "apart addr op = (case op of
      DoAccess pc a szl w at' nt \<Rightarrow> IsAppMem a \<and> a AND NOT 7 \<noteq> addr AND NOT 7
    | DoOthers sp v \<Rightarrow> (\<forall>i < 4. sp \<noteq> MemToShadow addr + 8 * of_nat i)
    | _ \<Rightarrow> True)"

definition undisturbed :: "u64 \<Rightarrow> nat \<Rightarrow> thread_state \<times> shadow \<Rightarrow> thread_state \<times> shadow \<Rightarrow> bool" where
  "undisturbed p k s s' = (case (s, s') of ((thr, sh), (thr', sh')) \<Rightarrow>
     fast_synch_epoch thr' = fast_synch_epoch thr \<and> (\<forall>n \<ge> 32. bit (fast_state thr') n = bit (fast_state thr) n) \<and>
     unat (fs_epoch (fast_state thr')) \<le> unat (fs_epoch (fast_state thr)) + k \<and> shadow_cell sh' p = shadow_cell sh p)"

lemma undisturbed_trans: "undisturbed p k s s1 \<Longrightarrow> undisturbed p k' s1 s2 \<Longrightarrow> undisturbed p (k + k') s s2"
  by (cases s; cases s1; cases s2) (force simp: undisturbed_def)

lemma undisturbed_same:
  "fast_synch_epoch thr' = fast_synch_epoch thr \<Longrightarrow> fast_state thr' = fast_state thr \<Longrightarrow> undisturbed p 1 (thr, sh) (thr', sh)"
  by (simp add: undisturbed_def)

lemma undisturbed_tick:
  assumes "unat (fs_epoch (fast_state thr)) < 2 ^ 31 - 1" "fast_synch_epoch thr' = fast_synch_epoch thr"
    and "fast_state thr' = IncrementEpoch (fast_state thr)" "shadow_cell sh' p = shadow_cell sh p"
  shows "undisturbed p 1 (thr, sh) (thr', sh')"
  using increment_bits [OF assms(1)] assms(2-4) by (simp add: undisturbed_def)

lemma cell_elsewhere:
  assumes "\<forall>i < 4. q \<noteq> p + 8 * of_nat i"
  shows "shadow_cell (sh(q := v)) p = shadow_cell sh p"
  using assms by (auto simp: shadow_cell_def)

lemma other_cell:
  assumes "IsAppMem a" "IsAppMem addr" "a AND NOT 7 \<noteq> addr AND NOT 7" "i < 4"
  shows "MemToShadow a + 8 * (e mod 4) \<noteq> MemToShadow addr + 8 * of_nat i"
proof
  have "unat (e mod 4) < 4" by (simp add: unat_mod_distrib)
  moreover have "of_nat (unat (e mod 4)) = e mod 4" by simp
  moreover assume "MemToShadow a + 8 * (e mod 4) = MemToShadow addr + 8 * of_nat i"
  ultimately have "MemToShadow a = MemToShadow addr"
    using aligned_offset [OF MemToShadow_bounds(3) [OF assms(1)] MemToShadow_bounds(3) [OF assms(2)], of "unat (e mod 4)" i] assms(4)
    by simp
  then show False using app_roundtrip [OF assms(1)] app_roundtrip [OF assms(2)] assms(3) by metis
qed

lemma access_apart:
  assumes run: "MemoryAccess env pc a szl w at' nt (thr, d, sh) = Inr ((thr1, d1, sh1), out)"
    and e: "unat (fs_epoch (fast_state thr)) < 2 ^ 31 - 1"
    and cells: "IsAppMem a" "IsAppMem addr" "a AND NOT 7 \<noteq> addr AND NOT 7"
  shows "undisturbed (MemToShadow addr) 1 (thr, sh) (thr1, sh1)"
proof -
  let ?cur = "shadow_cur (fast_state thr) (a AND 7) (of_nat szl) w at'"
  consider "thr1 = thr" "sh1 = sh"
    | "MemoryAccessImpl1 env a szl w at' (MemToShadow a) (IncrementEpoch ?cur) pc nt
         (thr\<lparr>fast_state := IncrementEpoch (fast_state thr)\<rparr>, d, sh) = Inr ((thr1, d1, sh1), out)"
    using run by (auto simp: MemoryAccess_def shadow_cur_def Let_def split: if_splits)
  then show ?thesis
  proof cases
    case 2
    from MemoryAccessImpl1_effect [OF this] obtain pm v where
      "thr1 = thr\<lparr>fast_state := IncrementEpoch (fast_state thr), ts_pm := pm\<rparr>"
      "sh1 = sh(MemToShadow a + 8 * (fs_epoch (IncrementEpoch ?cur) mod 4) := v)" by auto
    then show ?thesis using undisturbed_tick [OF e] cell_elsewhere other_cell [OF cells] by simp
  qed (use undisturbed_same in auto)
qed

lemma quiet_op_effect:
  assumes "quiet_op_step env op (thr, d, sh) = Inr ((thr1, d1, sh1), out)" "apart addr op" "IsAppMem addr"
    and "unat (fs_epoch (fast_state thr)) < 2 ^ 31 - 1"
  shows "undisturbed (MemToShadow addr) 1 (thr, sh) (thr1, sh1)"
proof (cases op)
  case (DoFlush pc a)
  then show ?thesis using assms(1) undisturbed_same [of "thr\<lparr>ts_pm := x\<rparr>" thr for x] by (auto simp: MemoryFlushAccess_def)
next
  case (DoFence pc)
  then show ?thesis using assms(1) undisturbed_same [of "thr\<lparr>ts_pm := x\<rparr>" thr for x]
    by (auto simp: MemoryFenceAccess_def split: prod.splits)
next
  case (DoEntry pc)
  then show ?thesis using assms(1,4) undisturbed_tick
    by (auto simp: on_thread_def FuncEntry_def split: if_splits)
next
  case DoExit
  then show ?thesis using assms(1,4) undisturbed_tick
    by (auto simp: on_thread_def FuncExit_def split: if_splits)
next
  case (DoAccess pc a szl w at' nt)
  then show ?thesis using assms access_apart [of env pc a szl w at' nt thr d sh thr1 d1 sh1 out addr] by (simp add: apart_def)
next
  case (DoOthers sp v)
  then show ?thesis using assms(1,2) cell_elsewhere by (auto simp: undisturbed_def StoreShadow_def apart_def)
qed

lemma quiet_ops_effect:
  assumes "in_turn (quiet_op_step env) ops (thr, d, sh) = Inr ((thr1, d1, sh1), out)" "\<forall>op \<in> set ops. apart addr op" "IsAppMem addr"
    and "unat (fs_epoch (fast_state thr)) + length ops < 2 ^ 31"
  shows "undisturbed (MemToShadow addr) (length ops) (thr, sh) (thr1, sh1)"
  using assms
proof (induction ops arbitrary: thr d sh out)
  case Nil
  then show ?case by (simp add: undisturbed_def)
next
  case (Cons op ops)
  obtain thr0 d0 sh0 o1 o2 where s: "quiet_op_step env op (thr, d, sh) = Inr ((thr0, d0, sh0), o1)"
      "in_turn (quiet_op_step env) ops (thr0, d0, sh0) = Inr ((thr1, d1, sh1), o2)"
    using Cons.prems(1) by (auto simp: then_access_Inr)
  have u: "undisturbed (MemToShadow addr) 1 (thr, sh) (thr0, sh0)"
    using quiet_op_effect [OF s(1)] Cons.prems(2-4) by simp
  then have "unat (fs_epoch (fast_state thr0)) + length ops < 2 ^ 31" using Cons.prems(4) by (simp add: undisturbed_def)
  from undisturbed_trans [OF u Cons.IH [OF s(2) _ _ this]] show ?case using Cons.prems(2,3) by simp
qed

text \<open>
  C8: The filter for repeated accesses, made for race detection, also filters the persistency log. A store to bytes the
  thread has just stored to is neither logged nor recorded again, although the first store may have been flushed and
  fenced meanwhile and only the second one is still volatile. This holds whatever the thread does in between,
  as long as it is flushing, fencing, entering and leaving functions and accessing other cells, and as the other threads
  leave the shadow of the cell alone: an access to the cell itself may take the place of the record, and a
  synchronisation may outdate it. The epochs of these steps stay below \<open>2 ^ 31\<close>.
\<close>

theorem repeated_write_not_logged:
  assumes "MemoryAccess env pc addr szl True a nt (thr, d, sh) = Inr (s1, out1)"
    and "in_turn (quiet_op_step env) ops s1 = Inr (s2, out2)" "\<forall>op \<in> set ops. apart addr op" "IsAppMem addr"
    and "\<not> GetIgnoreBit (fast_state thr)" "fast_synch_epoch thr \<le> fs_epoch (fast_state thr)"
    and "unat (fs_epoch (fast_state thr)) + length ops < 2 ^ 31 - 1"
  shows "MemoryAccess env pc' addr szl True a nt' s2 = Inr (s2, [])"
proof -
  let ?p = "MemToShadow addr" and ?cur = "\<lambda>t. shadow_cur (fast_state t) (addr AND 7) (of_nat szl) True a"
  obtain thr1 d1 sh1 where s1: "s1 = (thr1, d1, sh1)" by (cases s1)
  obtain thr2 d2 sh2 where s2: "s2 = (thr2, d2, sh2)" by (cases s2)
  have e: "unat (fs_epoch (fast_state thr)) < 2 ^ 31 - 1" using assms(7) by simp
  note w = write_then_same [OF assms(1) [unfolded s1] assms(5) e assms(6)]
  have u1: "fast_synch_epoch thr1 = fast_synch_epoch thr" "\<And>n. 32 \<le> n \<Longrightarrow> bit (fast_state thr1) n = bit (fast_state thr) n"
      "unat (fs_epoch (fast_state thr1)) + length ops < 2 ^ 31"
  proof -
    have "fast_synch_epoch thr1 = fast_synch_epoch thr \<and> (fast_state thr1 = fast_state thr \<or> fast_state thr1 = IncrementEpoch (fast_state thr))"
      using assms(1,5) unfolding s1
      by (auto simp: MemoryAccess_unfold Let_def split: if_splits dest!: MemoryAccessImpl1_effect(1))
    then show "fast_synch_epoch thr1 = fast_synch_epoch thr" "\<And>n. 32 \<le> n \<Longrightarrow> bit (fast_state thr1) n = bit (fast_state thr) n"
        "unat (fs_epoch (fast_state thr1)) + length ops < 2 ^ 31"
      using increment_bits [OF e] assms(7) by auto
  qed
  have u2: "fast_synch_epoch thr2 = fast_synch_epoch thr1" "\<And>n. 32 \<le> n \<Longrightarrow> bit (fast_state thr2) n = bit (fast_state thr1) n"
      "shadow_cell sh2 ?p = shadow_cell sh1 ?p"
    using quiet_ops_effect [OF assms(2) [unfolded s1 s2] assms(3,4) u1(3)] by (simp_all add: undisturbed_def)
  have b: "bit (fast_state thr2) n = bit (fast_state thr) n" if "32 \<le> n" for n using u1(2) u2(2) that by simp
  have "ContainsSameAccess sh2 ?p (?cur thr2) (fast_synch_epoch thr2) True"
    using w u1(1) u2(1,3) search_high [OF b, of _ "addr AND 7" "of_nat szl" True a] by (simp add: ContainsSameAccess_def)
  moreover have "\<not> GetIgnoreBit (fast_state thr2)" using assms(5) b [of 63] by (simp add: GetIgnoreBit_bit)
  ultimately show ?thesis unfolding s2 by (simp add: MemoryAccess_unfold Let_def)
qed

definition acc_state1 :: access_state where
  "acc_state1 = (acc_thread, dfsan_zero, \<lambda>_. 0)"

text \<open>A write to a cell without records, of bytes without labels.\<close>

lemma unlabelled_write:
  assumes "0x1000 \<le> a" "a < 0x3000"
  shows "\<exists>line. instrument_memory_access (\<lambda>_. 0) tr a pc 0 True at' nt pm_init (t, dfsan_zero) =
    Inr (t\<lparr>th_cprd := snd (make_event_id (th_cprd t))\<rparr>, dfsan_zero, [line])"
  by (simp add: instrument_memory_access_def pm_init_pm [OF assms] make_event_id_def Let_def df_process_write_def
      dfsan_read_label_def dfsan_union_load_def dfsan_zero_def)

lemma unrecorded_write:
  assumes a: "0x1000 \<le> a" "a < 0x3000" and ig: "\<not> GetIgnoreBit (fast_state thr)" and sync: "fast_synch_epoch thr = 3"
    and cell: "shadow_cell sh (MemToShadow a) = [0, 0, 0, 0]"
  shows "\<exists>pm v line. flushes_cache pm = flushes_cache (ts_pm thr) \<and> MemoryAccess acc_env pc a 0 True at' nt (thr, dfsan_zero, sh) =
    Inr ((thr\<lparr>fast_state := IncrementEpoch (fast_state thr), ts_pm := pm\<rparr>, dfsan_zero,
      sh(MemToShadow a + 8 * (fs_epoch (IncrementEpoch (shadow_cur (fast_state thr) (a AND 7) 0 True at')) mod 4) := v)), [line])"
proof -
  let ?cur = "shadow_cur (fast_state thr) (a AND 7) 0 True at'"
  have "\<not> ContainsSameAccess sh (MemToShadow a) ?cur 3 True"
    unfolding ContainsSameAccess_def cell fast_lanes by (simp add: lo_def word_sless_alt)
  then have m: "MemoryAccess acc_env pc a 0 True at' nt (thr, dfsan_zero, sh) = MemoryAccessImpl1 acc_env a 0 True at' (MemToShadow a)
      (IncrementEpoch ?cur) pc nt (thr\<lparr>fast_state := IncrementEpoch (fast_state thr)\<rparr>, dfsan_zero, sh)"
    using ig sync by (simp add: MemoryAccess_unfold Let_def)
  have f: "e_address_label acc_env = (\<lambda>_. 0)" "e_cprd acc_env = pm_init" by (simp_all add: acc_env_def)
  obtain line where "instrument_memory_access (\<lambda>_. 0) (ObtainCurrentStack acc_env (thr\<lparr>fast_state := IncrementEpoch (fast_state thr)\<rparr>) pc) a pc 0
      True at' nt pm_init ((ts_pm thr)\<lparr>th_fast_tid := fs_tid (IncrementEpoch (fast_state thr))\<rparr>, dfsan_zero) =
      Inr ((ts_pm thr)\<lparr>th_fast_tid := fs_tid (IncrementEpoch (fast_state thr)),
        th_cprd := snd (make_event_id (th_cprd (ts_pm thr)))\<rparr>, dfsan_zero, [line])"
    using unlabelled_write [OF a, of _ pc at' nt "(ts_pm thr)\<lparr>th_fast_tid := fs_tid (IncrementEpoch (fast_state thr))\<rparr>"] by auto
  then show ?thesis unfolding m MemoryAccessImpl1_def
    by (intro exI [of _ "(ts_pm thr)\<lparr>th_fast_tid := fs_tid (IncrementEpoch (fast_state thr)),
        th_cprd := snd (make_event_id (th_cprd (ts_pm thr)))\<rparr>"] exI [of _ "IncrementEpoch ?cur"] exI [of _ line])
      (simp add: f StoreShadow_def kShadowCnt_def)
qed

lemma zero_cell: "shadow_cell (\<lambda>_. 0) p = [0, 0, 0, 0]"
  by (simp add: shadow_cell_def upt_rec)

definition ex_between :: "quiet_op list" where
  "ex_between = [DoFlush 6 0x1000, DoEntry 0x402000, DoAccess 7 0x2000 0 True False False, DoFence 8, DoExit]"

lemma ex_between_run:
  "\<exists>thr1 d1 sh1 line s2 out. MemoryWrite acc_env 5 0x1000 0 acc_state1 = Inr ((thr1, d1, sh1), [line]) \<and>
    in_turn (quiet_op_step acc_env) ex_between (thr1, d1, sh1) = Inr (s2, out) \<and> length out = 2"
proof -
  have app: "IsAppMem 0x1000" "IsAppMem 0x2000" by (simp_all add: IsAppMem_def mapping_consts)
  have cells: "(0x2000 :: u64) AND NOT 7 \<noteq> 0x1000 AND NOT 7" by simp
  have fl: "flushes_cache (ts_pm acc_thread) = []" by (simp add: acc_thread_def thread_init_def)
  obtain pm v line where pm: "flushes_cache pm = []" and w: "MemoryWrite acc_env 5 0x1000 0 acc_state1 =
      Inr ((acc_thread\<lparr>fast_state := IncrementEpoch (fast_state acc_thread), ts_pm := pm\<rparr>, dfsan_zero,
        (\<lambda>_. 0)(MemToShadow 0x1000 + 8 * (fs_epoch (IncrementEpoch (shadow_cur (fast_state acc_thread) (0x1000 AND 7) 0 True False)) mod 4) := v)), [line])"
    using unrecorded_write [of "0x1000" acc_thread "\<lambda>_. 0" 5 False False] zero_cell fl unfolding MemoryWrite_def acc_state1_def by auto
  define thr1 where "thr1 = acc_thread\<lparr>fast_state := IncrementEpoch (fast_state acc_thread), ts_pm := pm\<rparr>"
  define sh1 where "sh1 = (\<lambda>_. 0)(MemToShadow 0x1000 + 8 * (fs_epoch (IncrementEpoch (shadow_cur (fast_state acc_thread) (0x1000 AND 7) 0 True False)) mod 4) := v)"
  have w1: "MemoryWrite acc_env 5 0x1000 0 acc_state1 = Inr ((thr1, dfsan_zero, sh1), [line])" unfolding thr1_def sh1_def by (rule w)
  have c1: "shadow_cell sh1 (MemToShadow 0x2000) = [0, 0, 0, 0]"
    unfolding sh1_def zero_cell [of "MemToShadow 0x2000", symmetric]
    by (rule cell_elsewhere) (use other_cell [OF app] cells in auto)
  define thr2 where "thr2 = thr1\<lparr>ts_pm := instrument_flush 0x1000 pm, fast_state := IncrementEpoch (fast_state thr1),
    shadow_stack := [0x401000, 0x402000]\<rparr>"
  have t2: "on_thread (FuncEntry 0x402000) (MemoryFlushAccess 6 0x1000 (thr1, dfsan_zero, sh1)) = Inr ((thr2, dfsan_zero, sh1), [])"
    by (simp add: on_thread_def FuncEntry_def MemoryFlushAccess_def thr2_def thr1_def acc_thread_def kShadowStackSize_def)
  have e: "unat (fs_epoch (fast_state acc_thread)) < 2 ^ 31 - 1" by simp
  have e1: "unat (fs_epoch (fast_state thr1)) < 2 ^ 31 - 1" using increment_bits(2) [OF e] by (simp add: thr1_def)
  have "bit (fast_state thr2) 63 = bit (fast_state acc_thread) 63"
    using increment_bits(1) [OF e, of 63] increment_bits(1) [OF e1, of 63] by (simp add: thr1_def thr2_def)
  then have ig: "\<not> GetIgnoreBit (fast_state thr2)" using acc_thread_fields(1) by (simp add: GetIgnoreBit_bit)
  have "fast_synch_epoch thr2 = 3" by (simp add: thr2_def thr1_def)
  from unrecorded_write [OF _ _ ig this c1, of 7 False False] obtain pm3 sh3 line3 where
    pm3: "flushes_cache pm3 = flushes_cache (ts_pm thr2)" and w3: "MemoryAccess acc_env 7 0x2000 0 True False False (thr2, dfsan_zero, sh1) =
      Inr ((thr2\<lparr>fast_state := IncrementEpoch (fast_state thr2), ts_pm := pm3\<rparr>, dfsan_zero, sh3), [line3])" by auto
  obtain out4 pm4 where f: "instrument_fence 8 pm3 = (out4, pm4)" by (cases "instrument_fence 8 pm3")
  have out4: "length out4 = 1"
    using f pm3 pm by (auto simp: instrument_fence_def thr2_def instrument_flush_def)
  define thr3 where "thr3 = thr2\<lparr>fast_state := IncrementEpoch (fast_state thr2), ts_pm := pm4\<rparr>"
  define thr4 where "thr4 = thr3\<lparr>fast_state := IncrementEpoch (fast_state thr3), shadow_stack := [0x401000]\<rparr>"
  have f3: "MemoryFenceAccess 8 (thr2\<lparr>fast_state := IncrementEpoch (fast_state thr2), ts_pm := pm3\<rparr>, dfsan_zero, sh3) = ((thr3, dfsan_zero, sh3), out4)"
    by (simp add: MemoryFenceAccess_def f thr3_def)
  have x4: "on_thread FuncExit (thr3, dfsan_zero, sh3) = Inr ((thr4, dfsan_zero, sh3), [])"
    by (simp add: on_thread_def FuncExit_def thr4_def) (simp add: thr3_def thr2_def)
  have r: "in_turn (quiet_op_step acc_env) ex_between (thr1, dfsan_zero, sh1) = Inr ((thr4, dfsan_zero, sh3), [line3] @ out4)"
    unfolding ex_between_def in_turn.simps quiet_op_step.simps then_access_simps t2 w3 x4
    by (simp add: then_access_def f3 x4)
  show ?thesis
    by (rule exI [of _ thr1], rule exI [of _ dfsan_zero], rule exI [of _ sh1], rule exI [of _ line], rule exI [of _ "(thr4, dfsan_zero, sh3)"],
        rule exI [of _ "[line3] @ out4"]) (use w1 r out4 in simp)
qed

theorem repeated_write_not_logged_witness:
  "\<exists>thr1 d1 sh1 line s2 out. MemoryWrite acc_env 5 0x1000 0 acc_state1 = Inr ((thr1, d1, sh1), [line]) \<and>
    in_turn (quiet_op_step acc_env) ex_between (thr1, d1, sh1) = Inr (s2, out) \<and> length out = 2 \<and>
    MemoryWrite acc_env 9 0x1000 0 s2 = Inr (s2, [])"
proof -
  obtain thr1 d1 sh1 line s2 out where w: "MemoryWrite acc_env 5 0x1000 0 acc_state1 = Inr ((thr1, d1, sh1), [line])"
      "in_turn (quiet_op_step acc_env) ex_between (thr1, d1, sh1) = Inr (s2, out)" "length out = 2"
    using ex_between_run by blast
  have "IsAppMem 0x1000" "IsAppMem 0x2000" by (simp_all add: IsAppMem_def mapping_consts)
  then have "MemoryWrite acc_env 9 0x1000 0 s2 = Inr (s2, [])"
    using repeated_write_not_logged [OF w(1) [unfolded MemoryWrite_def acc_state1_def] w(2), of 9 False]
    by (simp add: MemoryWrite_def ex_between_def apart_def word_le_nat_alt)
  then show ?thesis using w by blast
qed

section \<open>Setting the shadow of a range\<close>

lemma set_cell_read:
  assumes "32 dvd unat p" "32 dvd unat p'"
  shows "shadow_cell (set_cell p val sh) p' = (if p' = p then [val, 0, 0, 0] else shadow_cell sh p')"
proof -
  have n: "p' + 8 * of_nat i = p + 8 * of_nat j \<longleftrightarrow> p' = p \<and> i = j" if "i < 4" "j < 4" for i j
    using aligned_offset [OF assms(2,1) that] .
  note nn = n [of _ 0, simplified] n [of _ 1, simplified] n [of _ 2, simplified] n [of _ 3, simplified]
  have u: "[0..<4] = [0, 1, 2, 3 :: nat]" by (simp add: upt_rec)
  show ?thesis
    unfolding shadow_cell_def u list.map set_cell_def fun_upd_apply
    using nn [of 0] nn [of 1] nn [of 2] nn [of 3] by (simp split del: if_split) simp
qed

lemma set_cells_read:
  assumes "unat p + 32 * n \<le> 2 ^ 63" "32 dvd unat p" "32 dvd unat p'"
  shows "shadow_cell (set_cells n p val sh) p' =
    (if \<exists>i < n. p' = p + 32 * of_nat i then [val, 0, 0, 0] else shadow_cell sh p')"
  using assms
proof (induction n arbitrary: p sh)
  case (Suc n)
  have u: "unat (p + 32) = unat p + 32" using Suc.prems(1) by (simp add: unat_plus_if')
  have ih: "shadow_cell (set_cells n (p + 32) val (set_cell p val sh)) p' =
      (if \<exists>i < n. p' = p + 32 + 32 * of_nat i then [val, 0, 0, 0] else shadow_cell (set_cell p val sh) p')"
    using Suc.prems u by (intro Suc.IH) simp_all
  have "(\<exists>i < Suc n. p' = p + 32 * of_nat i) \<longleftrightarrow> p' = p \<or> (\<exists>i < n. p' = p + 32 + 32 * of_nat i)"
    by (subst Ex_less_Suc2) (simp add: algebra_simps)
  then show ?case unfolding set_cells.simps ih set_cell_read [OF Suc.prems(2,3)] by (cases "p' = p") auto
qed simp

lemma round_up8:
  assumes "unat x < 2 ^ 63"
  shows "unat ((x + (kShadowCell - 1)) AND NOT (kShadowCell - 1)) = (unat x + 7) div 8 * 8"
proof -
  have "unat (x + 7) = unat x + 7" using assms by (simp add: unat_plus_if')
  moreover have "(x + (kShadowCell - 1)) AND NOT (kShadowCell - 1) = cell_of (x + 7)"
    unfolding mask_at(3) cell_of_def by (simp add: mask_eq_exp_minus_1)
  ultimately show ?thesis using cell_of_unat [of "x + 7"] by simp
qed

text \<open>The main part, from a cell boundary on.\<close>

lemma range_set_cells:
  fixes a1 sz1 :: u64
  defines "N \<equiv> (unat sz1 + 7) div 8"
  assumes app: "\<forall>i < unat sz1. IsAppMem (a1 + of_nat i)" and ne: "sz1 \<noteq> 0" and al: "unat a1 mod 8 = 0" and x: "IsAppMem x"
  shows "IsShadowMem (MemToShadow a1) \<and> IsShadowMem (MemToShadow a1 + 8 * of_nat (4 * N - 1)) \<and>
    shadow_cell (set_cells N (MemToShadow a1) val sh) (MemToShadow x) =
      (if unat a1 \<le> unat x div 8 * 8 \<and> unat x div 8 * 8 < unat a1 + unat sz1 then [val, 0, 0, 0] else shadow_cell sh (MemToShadow x))"
proof -
  let ?n = "unat sz1" and ?p = "MemToShadow a1"
  have n0: "?n \<noteq> 0" using ne by (simp add: unat_eq_zero)
  have N: "8 * (N - 1) < ?n" "?n \<le> 8 * N" "N \<noteq> 0" using n0 unfolding N_def by presburger+
  have len: "unat a1 + ?n \<le> 2 ^ 47" by (rule app_range(2) [OF app n0])
  have a1: "IsAppMem a1" using app n0 by (auto dest: spec [of _ 0])
  have cell: "MemToShadow (a1 + of_nat (8 * i)) = ?p + 32 * of_nat i" if "i < N" for i
  proof -
    have "8 * i < ?n" using that N by linarith
    moreover have d: "(unat a1 + 8 * i) div 8 = (unat a1 + 0) div 8 + i" by simp
    ultimately show ?thesis using MemToShadow_next [OF app _ _ d] n0 by simp
  qed
  have end': "unat ?p + 32 * N \<le> unat kShadowEnd"
  proof -
    have i: "8 * (N - 1) < ?n" "N - 1 < N" using N by simp_all
    have "int (unat (MemToShadow (a1 + of_nat (8 * (N - 1))))) = int (unat ?p) + 32 * int (N - 1)"
    proof -
      have d: "(unat a1 + 8 * (N - 1)) div 8 = unat a1 div 8 + (N - 1)" by simp
      have z: "0 < ?n" using n0 by simp
      show ?thesis using MemToShadow_range [OF app i(1)] MemToShadow_range [OF app z] unfolding d by simp
    qed
    moreover have "unat (MemToShadow (a1 + of_nat (8 * (N - 1)))) + 32 \<le> unat kShadowEnd"
      using app i(1) by (intro MemToShadow_bounds) blast
    ultimately show ?thesis using N(3) by linarith
  qed
  have beg: "unat kShadowBeg \<le> unat ?p" by (rule MemToShadow_bounds(1) [OF a1])
  have chk: "IsShadowMem ?p" "IsShadowMem (?p + 8 * of_nat (4 * N - 1))"
  proof -
    show "IsShadowMem ?p" using beg end' by (simp add: IsShadowMem_def word_le_nat_alt)
    have "unat (of_nat (8 * (4 * N - 1)) :: u64) = 8 * (4 * N - 1)"
      using end' by (intro unat_of_nat_small) (simp add: mapping_consts)
    moreover have "8 * of_nat (4 * N - 1) = (of_nat (8 * (4 * N - 1)) :: u64)" by simp
    ultimately have "unat (?p + 8 * of_nat (4 * N - 1)) = unat ?p + 8 * (4 * N - 1)"
    proof -
      have "8 * (4 * N - 1) \<le> 32 * N" by simp
      moreover have "unat kShadowEnd < 2 ^ 64" by (simp add: mapping_consts)
      ultimately have "unat ?p + 8 * (4 * N - 1) < 2 ^ 64" using end' by linarith
      then show ?thesis using \<open>unat (of_nat (8 * (4 * N - 1))) = 8 * (4 * N - 1)\<close> by (simp add: unat_plus_if')
    qed
    then show "IsShadowMem (?p + 8 * of_nat (4 * N - 1))"
      using beg end' N(3) by (simp add: IsShadowMem_def word_le_nat_alt)
  qed
  have hit: "(\<exists>i < N. MemToShadow x = ?p + 32 * of_nat i) \<longleftrightarrow> unat a1 \<le> unat x div 8 * 8 \<and> unat x div 8 * 8 < unat a1 + ?n"
    (is "?L \<longleftrightarrow> ?R")
  proof
    assume ?L
    then obtain i where i: "i < N" "MemToShadow x = MemToShadow (a1 + of_nat (8 * i))" using cell by metis
    have n: "8 * i < ?n" using i N by linarith
    then have y: "IsAppMem (a1 + of_nat (8 * i))" "unat (a1 + of_nat (8 * i)) = unat a1 + 8 * i"
      using app app_range(1) [OF app] by blast+
    have "cell_of x = cell_of (a1 + of_nat (8 * i))"
      using app_roundtrip [OF x] app_roundtrip [OF y(1)] i(2) by (simp add: cell_of_def mask_eq_exp_minus_1)
    then have "unat x div 8 * 8 = (unat a1 + 8 * i) div 8 * 8" using cell_of_unat y(2) by metis
    also have "\<dots> = unat a1 + 8 * i" using al div_mult_mod_eq [of "unat a1" 8] by simp
    finally show ?R using n by simp
  next
    assume r: ?R
    define i where "i = unat x div 8 - unat a1 div 8"
    have "unat a1 div 8 * 8 = unat a1" using al div_mult_mod_eq [of "unat a1" 8] by simp
    then have i: "unat x div 8 * 8 = unat a1 + 8 * i" using r unfolding i_def by linarith
    have n: "8 * i < ?n" using i r by simp
    have "unat (a1 + of_nat (8 * i)) = unat a1 + 8 * i" using app_range(1) [OF app n] .
    then have "cell_of x = a1 + of_nat (8 * i)" using i cell_of_unat [of x] by (simp add: word_unat_eq_iff)
    then have "MemToShadow x = MemToShadow (a1 + of_nat (8 * i))" using MemToShadow_cell [of x] by simp
    moreover have "i < N" using n N(2) by linarith
    ultimately show ?L using cell by metis
  qed
  have "unat ?p + 32 * N \<le> 2 ^ 63" using end' by (simp add: mapping_consts)
  from set_cells_read [OF this MemToShadow_bounds(3) [OF a1] MemToShadow_bounds(3) [OF x]]
  show ?thesis using chk hit by simp
qed

lemma of_nat_unat_id: "of_nat (unat w) = (w :: u64)"
  by simp

lemma cell_gap:
  fixes x Q r n q :: nat
  assumes "x = 8 * Q + r" "r < 8" "r \<noteq> 0" "n \<le> 8 - r"
  shows "\<not> (x \<le> q * 8 \<and> q * 8 < x + n)"
proof (cases "q \<le> Q")
  case False
  then have "Q + 1 \<le> q" by simp
  then have "8 * Q + 8 \<le> q * 8" by linarith
  then show ?thesis using assms by linarith
qed (use assms in linarith)

lemma cell_shift:
  fixes x Q r n k c :: nat
  assumes "x = 8 * Q + r" "r < 8" "k = (if r = 0 then 0 else 8 - r)" "k < n"
  shows "(x + k) mod 8 = 0" "(x + k \<le> c * 8 \<and> c * 8 < x + k + (n - k)) \<longleftrightarrow> (x \<le> c * 8 \<and> c * 8 < x + n)"
proof -
  show "(x + k) mod 8 = 0" using assms by auto
  have "x \<le> c * 8 \<longleftrightarrow> x + k \<le> c * 8"
  proof (cases "r = 0")
    case False
    then have k: "x + k = 8 * (Q + 1)" using assms by simp
    have "x \<le> c * 8 \<longleftrightarrow> Q + 1 \<le> c" using assms(1,2) False by auto
    then show ?thesis using k by auto
  qed (use assms in simp)
  then show "(x + k \<le> c * 8 \<and> c * 8 < x + k + (n - k)) \<longleftrightarrow> (x \<le> c * 8 \<and> c * 8 < x + n)" using assms(4) by auto
qed

lemma range_set_effect:
  assumes app: "\<forall>i < unat sz. IsAppMem (addr + of_nat i)" and small: "unat sz + 8 \<le> unat (e_threshold env)"
  shows "\<exists>sh'. MemoryRangeSet env addr sz val sh = Inr sh' \<and> (\<forall>x. IsAppMem x \<longrightarrow> shadow_cell sh' (MemToShadow x) =
    (if unat addr \<le> unat x div 8 * 8 \<and> unat x div 8 * 8 < unat addr + unat sz then [val, 0, 0, 0] else shadow_cell sh (MemToShadow x)))"
proof (cases "sz = 0")
  case True
  then show ?thesis by (auto simp: MemoryRangeSet_def)
next
  case False
  define r k where "r = unat addr mod 8" and "k = (8 - r) mod 8"
  let ?n = "unat sz"
  have n0: "?n \<noteq> 0" using False by (simp add: unat_eq_zero)
  have len: "unat addr + ?n \<le> 2 ^ 47" by (rule app_range(2) [OF app n0])
  have r8: "r < 8" by (simp add: r_def)
  have xQ: "unat addr = 8 * (unat addr div 8) + r" by (simp add: r_def)
  have off: "addr mod kShadowCell = 0 \<longleftrightarrow> r = 0" "unat (addr mod kShadowCell) = r"
    by (simp_all add: kShadowCell_def mod8_zero unat_mod8 r_def)
  have rest: "unat (kShadowCell - addr mod kShadowCell) = 8 - r"
    using off(2) r8 by (simp add: unat_sub word_le_nat_alt kShadowCell_def)
  show ?thesis
  proof (cases "r \<noteq> 0 \<and> ?n \<le> 8 - r")
    case True
    have "\<not> (unat addr \<le> q * 8 \<and> q * 8 < unat addr + ?n)" for q
      using cell_gap [OF xQ r8] True by blast
    then have none: "(unat addr \<le> unat x div 8 * 8 \<and> unat x div 8 * 8 < unat addr + ?n) = False" for x :: u64 by blast
    have "MemoryRangeSet env addr sz val sh = Inr sh"
      using True off rest False by (simp add: MemoryRangeSet_def word_le_nat_alt Let_def)
    then show ?thesis unfolding none if_False by simp
  next
    case in': False
    define a1 sz1 where "a1 = (if r \<noteq> 0 then addr + (kShadowCell - addr mod kShadowCell) else addr)"
      and "sz1 = (if r \<noteq> 0 then sz - (kShadowCell - addr mod kShadowCell) else sz)"
    have k: "k = (if r = 0 then 0 else 8 - r)" "k < ?n" using r8 in' n0 by (auto simp: k_def)
    have a1: "a1 = addr + of_nat k" and sz1: "unat sz1 = ?n - k"
    proof -
      have o: "kShadowCell - addr mod kShadowCell = of_nat (8 - r)" using rest r8
        by (metis of_nat_unat_id)
      then show "a1 = addr + of_nat k" using k by (simp add: a1_def)
      show "unat sz1 = ?n - k"
      proof (cases "r = 0")
        case False
        then have "kShadowCell - addr mod kShadowCell \<le> sz" using k rest by (simp add: word_le_nat_alt)
        then show ?thesis using k rest False by (simp add: sz1_def unat_sub)
      qed (use k in \<open>simp add: sz1_def\<close>)
    qed
    have app1: "\<forall>i < unat sz1. IsAppMem (a1 + of_nat i)"
    proof (intro allI impI)
      fix i assume "i < unat sz1"
      then have "k + i < ?n" using sz1 by simp
      then have "IsAppMem (addr + of_nat (k + i))" using app by blast
      then show "IsAppMem (a1 + of_nat i)" by (simp add: a1 add.assoc)
    qed
    have sz1n: "sz1 \<noteq> 0" using sz1 k(2) by (intro notI) simp
    have u1: "unat a1 = unat addr + k" using app_range(1) [OF app k(2)] a1 by simp
    have al: "unat a1 mod 8 = 0" unfolding u1 by (rule cell_shift(1) [OF xQ r8 k])
    define N where "N = (unat sz1 + 7) div 8"
    have lst: "IsAppMem (a1 + sz1 - 1)" "IsAppMem a1"
    proof -
      have l: "unat sz1 - 1 < unat sz1" using sz1 k(2) by simp
      have "of_nat (unat sz1 - 1) = sz1 - 1" using sz1n by (metis unat_pred of_nat_unat_id)
      then show "IsAppMem (a1 + sz1 - 1)" using app1 l by (metis add_diff_eq)
      show "IsAppMem a1" using app1 l by (auto dest: spec [of _ 0])
    qed
    define sz8 where "sz8 = (sz1 + (kShadowCell - 1)) AND NOT (kShadowCell - 1)"
    have sz8: "unat sz8 = 8 * N" unfolding sz8_def N_def using len sz1 by (subst round_up8) auto
    have Nb: "8 * N \<le> ?n + 7" using sz1 unfolding N_def by linarith
    have "?n + 7 < 2 ^ 48" using len by simp
    note Nb = Nb le_less_trans [OF Nb this]
    have small': "sz8 < e_threshold env" using sz8 Nb small by (simp add: word_less_nat_alt)
    have cnt: "unat (sz8 div kShadowCell) = N" using sz8 by (simp add: unat_div kShadowCell_def)
    have chk: "sz8 * kShadowCnt div kShadowCell - 1 = of_nat (4 * N - 1)"
    proof -
      have "unat (sz8 * kShadowCnt) = 32 * N" using sz8 Nb by (simp add: unat_mult_lem [THEN iffD1] kShadowCnt_def)
      then have "unat (sz8 * kShadowCnt div kShadowCell) = 4 * N" by (simp add: unat_div kShadowCell_def)
      then have "sz8 * kShadowCnt div kShadowCell = of_nat (4 * N)" by (metis of_nat_unat_id)
      moreover have "1 \<le> 4 * N" using sz1 k(2) unfolding N_def by presburger
      ultimately show ?thesis by (simp add: of_nat_diff)
    qed
    note cells = range_set_cells [OF app1 sz1n al, folded N_def]
    have m: "MemoryRangeSet env addr sz val sh = Inr (set_cells N (MemToShadow a1) val sh)"
    proof -
      have gap: "\<not> (addr mod kShadowCell \<noteq> 0 \<and> sz \<le> kShadowCell - addr mod kShadowCell)"
        using in' off rest by (simp add: word_le_nat_alt)
      have pair: "(if addr mod kShadowCell \<noteq> 0 then (addr + (kShadowCell - addr mod kShadowCell), sz - (kShadowCell - addr mod kShadowCell))
          else (addr, sz)) = (a1, sz1)" by (simp add: off a1_def sz1_def)
      show ?thesis
        unfolding MemoryRangeSet_def Let_def if_not_P [OF False] if_not_P [OF gap] pair prod.case
        using lst cells [OF lst(2)] small' cnt chk by (simp add: sz8_def)
    qed
    have "unat a1 \<le> c * 8 \<and> c * 8 < unat a1 + unat sz1 \<longleftrightarrow> unat addr \<le> c * 8 \<and> c * 8 < unat addr + ?n" for c
      unfolding u1 sz1 by (rule cell_shift(2) [OF xQ r8 k])
    then show ?thesis using m cells by auto
  qed
qed

text \<open>
  C19: When a range of application memory is mapped, freed or reset that is at least eight bytes shorter than the flag
  \<open>clear_shadow_mmap_threshold\<close>, \<open>MemoryRangeSet\<close> replaces the shadow of exactly the cells that start inside
  the range: each gets the new value in its first word and zeros in the other three, the shadow of every
  other application address keeps its value, and the checks on the shadow address hold. Longer ranges, whose middle the
  code maps afresh and so sets to zero, are outside this property.
\<close>

theorem range_set_exact:
  assumes "\<forall>i < unat sz. IsAppMem (addr + of_nat i)" "unat sz + 8 \<le> unat (e_threshold env)"
  shows "\<exists>sh'. MemoryRangeSet env addr sz val sh = Inr sh' \<and> (\<forall>x. IsAppMem x \<longrightarrow> shadow_cell sh' (MemToShadow x) =
    (if unat addr \<le> unat x div 8 * 8 \<and> unat x div 8 * 8 < unat addr + unat sz then [val, 0, 0, 0] else shadow_cell sh (MemToShadow x)))"
  using range_set_effect [OF assms] .

theorem range_set_exact_witness:
  "\<exists>sh'. MemoryRangeSet acc_env 0x1003 6 9 (\<lambda>_. 1) = Inr sh' \<and> shadow_cell sh' (MemToShadow 0x1009) = [9, 0, 0, 0] \<and>
     shadow_cell sh' (MemToShadow 0x1003) = [1, 1, 1, 1]"
proof -
  have app: "IsAppMem (0x1003 + of_nat i)" if "i < 10" for i
  proof -
    have "unat (0x1003 + of_nat i :: u64) = 0x1003 + i"
      using that by (simp add: unat_word_ariths unsigned_of_nat take_bit_nat_eq_self)
    then show ?thesis
      using that unfolding IsAppMem_def mapping_consts word_le_nat_alt word_less_nat_alt by simp
  qed
  then have "\<forall>i < unat (6 :: u64). IsAppMem (0x1003 + of_nat i)" by simp
  moreover have "unat (6 :: u64) + 8 \<le> unat (e_threshold acc_env)" by (simp add: acc_env_def)
  ultimately obtain sh' where s: "MemoryRangeSet acc_env 0x1003 6 9 (\<lambda>_. 1) = Inr sh'"
    "\<forall>x. IsAppMem x \<longrightarrow> shadow_cell sh' (MemToShadow x) = (if unat (0x1003 :: u64) \<le> unat x div 8 * 8 \<and>
       unat x div 8 * 8 < unat (0x1003 :: u64) + unat (6 :: u64) then [9, 0, 0, 0] else shadow_cell (\<lambda>_. 1) (MemToShadow x))"
    using range_set_exact [of 6 "0x1003" acc_env 9 "\<lambda>_. 1"] by blast
  have "IsAppMem 0x1003" "IsAppMem 0x1009" using app [of 0] app [of 6] by simp_all
  moreover have "shadow_cell (\<lambda>_. 1) p = [1, 1, 1, 1]" for p by (simp add: shadow_cell_def upt_rec)
  ultimately show ?thesis using s by simp
qed

end
