(* ===== verification/BitVector.thy ===== *)
theory BitVector
  imports CommonArith
begin

text \<open>
  \<open>sanitizer_common/sanitizer_bitvector.h\<close>: bit vectors of one machine word and the two-level
  vectors made of them, whose first level says which words of the second level hold anything (the
  others are left uninitialised). \<open>None\<close> is a failing \<open>CHECK\<close> or an index outside the arrays.
\<close>

section \<open>Loops\<close>

text \<open>The body of a loop, for each element of a list in turn.\<close>

primrec for_each :: "('a \<Rightarrow> 's \<Rightarrow> 's option) \<Rightarrow> 'a list \<Rightarrow> 's \<Rightarrow> 's option" where
  "for_each f [] s = Some s"
| "for_each f (x # xs) s = do { s' \<leftarrow> f x s; for_each f xs s' }"

section \<open>Words\<close>

definition bb_size :: nat where "bb_size = 64"

definition bb_clear :: u64 where "bb_clear = 0"
definition bb_setAll :: u64 where "bb_setAll = NOT 0"

definition bb_empty :: "u64 \<Rightarrow> bool" where
  "bb_empty b \<longleftrightarrow> b = 0"

definition bb_mask :: "nat \<Rightarrow> u64 option" where
  "bb_mask idx = (if idx < bb_size then Some (push_bit idx 1) else None)"

definition bb_setBit :: "nat \<Rightarrow> u64 \<Rightarrow> (bool \<times> u64) option" where
  "bb_setBit idx b = do { m \<leftarrow> bb_mask idx; let b' = b OR m; Some (b' \<noteq> b, b') }"

definition bb_clearBit :: "nat \<Rightarrow> u64 \<Rightarrow> (bool \<times> u64) option" where
  "bb_clearBit idx b = do { m \<leftarrow> bb_mask idx; let b' = b AND NOT m; Some (b' \<noteq> b, b') }"

definition bb_getBit :: "nat \<Rightarrow> u64 \<Rightarrow> bool option" where
  "bb_getBit idx b = do { m \<leftarrow> bb_mask idx; Some (b AND m \<noteq> 0) }"

definition bb_getAndClearFirstOne :: "u64 \<Rightarrow> (nat \<times> u64) option" where
  "bb_getAndClearFirstOne b =
     (if bb_empty b then None
      else do { idx \<leftarrow> LeastSignificantSetBitIndex b; (_, b') \<leftarrow> bb_clearBit idx b; Some (idx, b') })"

text \<open>The first argument is the object, the second one \<open>v\<close>.\<close>

definition bb_setUnion :: "u64 \<Rightarrow> u64 \<Rightarrow> bool \<times> u64" where
  "bb_setUnion b v = (let b' = b OR v in (b' \<noteq> b, b'))"

definition bb_setIntersection :: "u64 \<Rightarrow> u64 \<Rightarrow> bool \<times> u64" where
  "bb_setIntersection b v = (let b' = b AND v in (b' \<noteq> b, b'))"

definition bb_setDifference :: "u64 \<Rightarrow> u64 \<Rightarrow> bool \<times> u64" where
  "bb_setDifference b v = (let b' = b AND NOT v in (b' \<noteq> b, b'))"

definition bb_intersectsWith :: "u64 \<Rightarrow> u64 \<Rightarrow> bool" where
  "bb_intersectsWith b v \<longleftrightarrow> b AND v \<noteq> 0"

text \<open>An iterator is a copy of the vector; \<open>while (!t.empty())\<close> takes the bits of \<open>t\<close> one by one.\<close>

lemma bb_first_decreases:
  assumes "bb_getAndClearFirstOne t = Some (i, t')"
  shows "unat t' < unat t" "i < 64" "bit t i" "\<forall>j < i. \<not> bit t j" "t' = t AND NOT (push_bit i 1)"
proof -
  have "t \<noteq> 0" "List.find (bit t) [0..<64] = Some i"
    using assms by (auto simp: bb_getAndClearFirstOne_def LeastSignificantSetBitIndex_def bb_empty_def bb_clearBit_def
        Option.bind_eq_Some_conv Let_def split: if_splits)
  then show i: "i < 64" "bit t i" "\<forall>j < i. \<not> bit t j" by (auto simp: find_upt_Some_iff)
  show t': "t' = t AND NOT (push_bit i 1)"
    using assms i by (auto simp: bb_getAndClearFirstOne_def LeastSignificantSetBitIndex_def bb_empty_def bb_clearBit_def
        bb_mask_def bb_size_def Option.bind_eq_Some_conv Let_def find_upt_Some_iff split: if_splits)
  have "t = t' OR push_bit i 1" "t' AND push_bit i 1 = 0"
    unfolding t' using i(2) by (auto intro!: bit_word_eqI simp: bit_simps simp del: push_bit_of_1)
  then have "t = t' + push_bit i 1" by (simp add: disjunctive_add_eq_or del: push_bit_of_1)
  moreover have "t' \<le> t" unfolding t' by (rule word_and_le2)
  moreover have "push_bit i (1 :: u64) \<noteq> 0" using i(1) by (auto simp: bit_eq_iff bit_simps simp del: push_bit_of_1)
  ultimately have "t' < t" by (metis add_cancel_right_right order_le_less)
  then show "unat t' < unat t" by (simp add: word_less_nat_alt)
qed

function bb_for :: "(nat \<Rightarrow> 's \<Rightarrow> 's option) \<Rightarrow> u64 \<Rightarrow> 's \<Rightarrow> 's option" where
  "bb_for f t s =
     (if bb_empty t then Some s
      else do { (i, t') \<leftarrow> bb_getAndClearFirstOne t; s' \<leftarrow> f i s; bb_for f t' s' })"
  by pat_completeness auto
termination
  by (relation "measure (\<lambda>(_, t, _). unat t)") (auto dest: bb_first_decreases(1))

declare bb_for.simps [simp del]

section \<open>Two levels\<close>

text \<open>\<open>kLevel1Size\<close> is the length of \<open>tl_l1\<close>; \<open>tl_l2\<close> has a row of \<open>bb_size\<close> words for each.\<close>

record two_level =
  tl_l1 :: "u64 list"
  tl_l2 :: "u64 list list"

definition tl_size :: "two_level \<Rightarrow> nat" where
  "tl_size v = bb_size * bb_size * length (tl_l1 v)"

definition set_l1 :: "nat \<Rightarrow> u64 \<Rightarrow> two_level \<Rightarrow> two_level" where
  "set_l1 i0 b v = v\<lparr>tl_l1 := (tl_l1 v)[i0 := b]\<rparr>"

definition set_l2 :: "nat \<Rightarrow> nat \<Rightarrow> u64 \<Rightarrow> two_level \<Rightarrow> two_level" where
  "set_l2 i0 i1 b v = v\<lparr>tl_l2 := (tl_l2 v)[i0 := (tl_l2 v ! i0)[i1 := b]]\<rparr>"

definition l2_at :: "nat \<Rightarrow> nat \<Rightarrow> two_level \<Rightarrow> u64" where
  "l2_at i0 i1 v = tl_l2 v ! i0 ! i1"

definition l1_at :: "nat \<Rightarrow> two_level \<Rightarrow> u64 option" where
  "l1_at i0 v = (if i0 < length (tl_l1 v) then Some (tl_l1 v ! i0) else None)"

definition tl_clear :: "two_level \<Rightarrow> two_level" where
  "tl_clear v = v\<lparr>tl_l1 := map (\<lambda>_. bb_clear) (tl_l1 v)\<rparr>"

definition tl_setAll :: "two_level \<Rightarrow> two_level" where
  "tl_setAll v = v\<lparr>tl_l1 := map (\<lambda>_. bb_setAll) (tl_l1 v), tl_l2 := map (map (\<lambda>_. bb_setAll)) (tl_l2 v)\<rparr>"

definition tl_empty :: "two_level \<Rightarrow> bool" where
  "tl_empty v \<longleftrightarrow> list_all bb_empty (tl_l1 v)"

definition tl_check :: "nat \<Rightarrow> two_level \<Rightarrow> unit option" where
  "tl_check idx v = (if idx \<le> tl_size v then Some () else None)"

definition tl_idx0 :: "nat \<Rightarrow> two_level \<Rightarrow> nat option" where
  "tl_idx0 idx v = (let res = idx div (bb_size * bb_size) in if res \<le> length (tl_l1 v) then Some res else None)"

definition tl_idx1 :: "nat \<Rightarrow> nat option" where
  "tl_idx1 idx = (let res = idx div bb_size mod bb_size in if res \<le> bb_size then Some res else None)"

definition tl_idx2 :: "nat \<Rightarrow> nat option" where
  "tl_idx2 idx = (let res = idx mod bb_size in if res \<le> bb_size then Some res else None)"

definition tl_setBit :: "nat \<Rightarrow> two_level \<Rightarrow> (bool \<times> two_level) option" where
  "tl_setBit idx v =
     do { tl_check idx v; i0 \<leftarrow> tl_idx0 idx v; i1 \<leftarrow> tl_idx1 idx; i2 \<leftarrow> tl_idx2 idx;
          b \<leftarrow> l1_at i0 v; has \<leftarrow> bb_getBit i1 b;
          v \<leftarrow> (if \<not> has then do { (_, b') \<leftarrow> bb_setBit i1 b; Some (set_l2 i0 i1 bb_clear (set_l1 i0 b' v)) } else Some v);
          (res, w) \<leftarrow> bb_setBit i2 (l2_at i0 i1 v);
          Some (res, set_l2 i0 i1 w v) }"

definition tl_clearBit :: "nat \<Rightarrow> two_level \<Rightarrow> (bool \<times> two_level) option" where
  "tl_clearBit idx v =
     do { tl_check idx v; i0 \<leftarrow> tl_idx0 idx v; i1 \<leftarrow> tl_idx1 idx; i2 \<leftarrow> tl_idx2 idx;
          b \<leftarrow> l1_at i0 v; has \<leftarrow> bb_getBit i1 b;
          if has
          then do { (res, w) \<leftarrow> bb_clearBit i2 (l2_at i0 i1 v);
                    let v = set_l2 i0 i1 w v;
                    v \<leftarrow> (if bb_empty w then do { (_, b') \<leftarrow> bb_clearBit i1 b; Some (set_l1 i0 b' v) } else Some v);
                    Some (res, v) }
          else Some (False, v) }"

definition tl_getBit :: "nat \<Rightarrow> two_level \<Rightarrow> bool option" where
  "tl_getBit idx v =
     do { tl_check idx v; i0 \<leftarrow> tl_idx0 idx v; i1 \<leftarrow> tl_idx1 idx; i2 \<leftarrow> tl_idx2 idx;
          b \<leftarrow> l1_at i0 v; has \<leftarrow> bb_getBit i1 b;
          if has then bb_getBit i2 (l2_at i0 i1 v) else Some False }"

definition tl_getAndClearFirstOne :: "two_level \<Rightarrow> (nat \<times> two_level) option" where
  "tl_getAndClearFirstOne v =
     do { i0 \<leftarrow> List.find (\<lambda>i. \<not> bb_empty (tl_l1 v ! i)) [0..<length (tl_l1 v)];
          (i1, b) \<leftarrow> bb_getAndClearFirstOne (tl_l1 v ! i0);
          (i2, w) \<leftarrow> bb_getAndClearFirstOne (l2_at i0 i1 v);
          let v = set_l2 i0 i1 w (set_l1 i0 b v);
          v \<leftarrow> (if \<not> bb_empty w then do { (_, b') \<leftarrow> bb_setBit i1 b; Some (set_l1 i0 b' v) } else Some v);
          Some (i0 * bb_size * bb_size + i1 * bb_size + i2, v) }"

definition union_word :: "two_level \<Rightarrow> nat \<Rightarrow> nat \<Rightarrow> bool \<times> two_level \<Rightarrow> (bool \<times> two_level) option" where
  "union_word v i0 i1 s =
     (case s of (res, this) \<Rightarrow>
        do { (new, b') \<leftarrow> bb_setBit i1 (tl_l1 this ! i0);
             let this = set_l1 i0 b' this;
             let this = (if new then set_l2 i0 i1 bb_clear this else this);
             let (added, w) = bb_setUnion (l2_at i0 i1 this) (l2_at i0 i1 v);
             Some (res \<or> added, set_l2 i0 i1 w this) })"

definition tl_setUnion :: "two_level \<Rightarrow> two_level \<Rightarrow> (bool \<times> two_level) option" where
  "tl_setUnion this v =
     for_each (\<lambda>i0. bb_for (union_word v i0) (tl_l1 v ! i0)) [0..<length (tl_l1 this)] (False, this)"

definition intersect_word :: "two_level \<Rightarrow> nat \<Rightarrow> nat \<Rightarrow> bool \<times> two_level \<Rightarrow> (bool \<times> two_level) option" where
  "intersect_word v i0 i1 s =
     (case s of (res, this) \<Rightarrow>
        (let (removed, w) = bb_setIntersection (l2_at i0 i1 this) (l2_at i0 i1 v);
             this = set_l2 i0 i1 w this
         in do { this \<leftarrow> (if bb_empty w then do { (_, b') \<leftarrow> bb_clearBit i1 (tl_l1 this ! i0); Some (set_l1 i0 b' this) }
                          else Some this);
                 Some (res \<or> removed, this) }))"

definition tl_setIntersection :: "two_level \<Rightarrow> two_level \<Rightarrow> (bool \<times> two_level) option" where
  "tl_setIntersection this v =
     for_each (\<lambda>i0 (res, this).
        let (removed, b) = bb_setIntersection (tl_l1 this ! i0) (tl_l1 v ! i0);
            this = set_l1 i0 b this; res = (res \<or> removed)
        in if \<not> bb_empty b then bb_for (intersect_word v i0) b (res, this) else Some (res, this))
       [0..<length (tl_l1 this)] (False, this)"

definition subtract_word :: "two_level \<Rightarrow> nat \<Rightarrow> nat \<Rightarrow> bool \<times> two_level \<Rightarrow> (bool \<times> two_level) option" where
  "subtract_word v i0 i1 s =
     (case s of (res, this) \<Rightarrow>
        (let (removed, w) = bb_setDifference (l2_at i0 i1 this) (l2_at i0 i1 v);
             this = set_l2 i0 i1 w this
         in do { this \<leftarrow> (if bb_empty w then do { (_, b') \<leftarrow> bb_clearBit i1 (tl_l1 this ! i0); Some (set_l1 i0 b' this) }
                          else Some this);
                 Some (res \<or> removed, this) }))"

definition tl_setDifference :: "two_level \<Rightarrow> two_level \<Rightarrow> (bool \<times> two_level) option" where
  "tl_setDifference this v =
     for_each (\<lambda>i0 s. bb_for (subtract_word v i0) (snd (bb_setIntersection (tl_l1 (snd s) ! i0) (tl_l1 v ! i0))) s)
       [0..<length (tl_l1 this)] (False, this)"

definition tl_copyFrom :: "two_level \<Rightarrow> two_level \<Rightarrow> two_level option" where
  "tl_copyFrom this v = map_option snd (tl_setUnion (tl_clear this) v)"

text \<open>Returning early is skipping the remaining rounds.\<close>

definition tl_intersectsWith :: "two_level \<Rightarrow> two_level \<Rightarrow> bool option" where
  "tl_intersectsWith this v =
     for_each (\<lambda>i0. bb_for (\<lambda>i1 found.
        if found then Some True
        else do { has \<leftarrow> bb_getBit i1 (tl_l1 v ! i0);
                  Some (has \<and> bb_intersectsWith (l2_at i0 i1 this) (l2_at i0 i1 v)) })
         (snd (bb_setIntersection (tl_l1 this ! i0) (tl_l1 v ! i0))))
       [0..<length (tl_l1 this)] False"

subsection \<open>Iterators\<close>

record tl_iter =
  it_bv :: two_level
  it_i0 :: nat
  it_i1 :: nat
  it_it1 :: u64
  it_it2 :: u64

definition tl_iter_init :: "two_level \<Rightarrow> tl_iter" where
  "tl_iter_init bv = \<lparr>it_bv = bv, it_i0 = 0, it_i1 = 0, it_it1 = bb_clear, it_it2 = bb_clear\<rparr>"

definition tl_hasNext :: "tl_iter \<Rightarrow> bool" where
  "tl_hasNext it =
     (\<not> bb_empty (it_it1 it) \<or>
      list_ex (\<lambda>i. \<not> bb_empty (tl_l1 (it_bv it) ! i)) [it_i0 it..<length (tl_l1 (it_bv it))])"

definition tl_next :: "tl_iter \<Rightarrow> (nat \<times> tl_iter) option" where
  "tl_next it =
     (let it = (if bb_empty (it_it1 it) \<and> bb_empty (it_it2 it)
                then (case List.find (\<lambda>i. \<not> bb_empty (tl_l1 (it_bv it) ! i)) [it_i0 it..<length (tl_l1 (it_bv it))] of
                        Some i0 \<Rightarrow> it\<lparr>it_i0 := i0, it_it1 := tl_l1 (it_bv it) ! i0\<rparr>
                      | None \<Rightarrow> it\<lparr>it_i0 := max (it_i0 it) (length (tl_l1 (it_bv it)))\<rparr>)
                else it)
      in do { it \<leftarrow> (if bb_empty (it_it2 it)
                      then do { (i1, rest) \<leftarrow> bb_getAndClearFirstOne (it_it1 it);
                                Some (it\<lparr>it_i1 := i1, it_it1 := rest, it_it2 := l2_at (it_i0 it) i1 (it_bv it)\<rparr>) }
                      else Some it);
              (i2, rest) \<leftarrow> bb_getAndClearFirstOne (it_it2 it);
              let it = it\<lparr>it_it2 := rest\<rparr>;
              let res = it_i0 it * bb_size * bb_size + it_i1 it * bb_size + i2;
              Some (res, if bb_empty (it_it1 it) \<and> bb_empty (it_it2 it) then it\<lparr>it_i0 := it_i0 it + 1\<rparr> else it) })"

end
