(* ===== verification/BitVectorSets.thy ===== *)
theory BitVectorSets
  imports BitVector
begin

text \<open>
  Both kinds of bit vector as sets of numbers: the interface their clients use, as a locale with
  the laws of the operations, and its interpretation for words and for two-level vectors.
\<close>

section \<open>The interface\<close>

text \<open>\<open>while (!t.empty()) { i = t.getAndClearFirstOne(); body }\<close>, with what is left of \<open>t\<close>.\<close>

partial_function (option) drain ::
  "('b \<Rightarrow> bool) \<Rightarrow> ('b \<Rightarrow> (nat \<times> 'b) option) \<Rightarrow> (nat \<Rightarrow> 's \<Rightarrow> 's option) \<Rightarrow> 'b \<Rightarrow> 's \<Rightarrow> ('b \<times> 's) option" where
  "drain is_empty first body t s =
     (if is_empty t then Some (t, s)
      else do { (i, t') \<leftarrow> first t; s' \<leftarrow> body i s; drain is_empty first body t' s' })"

locale bit_vector =
  fixes bits :: "'b \<Rightarrow> nat set" and ok :: "'b \<Rightarrow> bool" and cap :: nat
    and is_empty :: "'b \<Rightarrow> bool" and cleared :: "'b \<Rightarrow> 'b"
    and set_bit_op clear_bit_op :: "nat \<Rightarrow> 'b \<Rightarrow> (bool \<times> 'b) option" and get_bit_op :: "nat \<Rightarrow> 'b \<Rightarrow> bool option"
    and first :: "'b \<Rightarrow> (nat \<times> 'b) option"
    and union difference :: "'b \<Rightarrow> 'b \<Rightarrow> (bool \<times> 'b) option" and intersects :: "'b \<Rightarrow> 'b \<Rightarrow> bool option"
  assumes bits_bound: "ok v \<Longrightarrow> bits v \<subseteq> {..<cap}"
    and is_empty: "ok v \<Longrightarrow> is_empty v \<longleftrightarrow> bits v = {}"
    and cleared: "ok v \<Longrightarrow> ok (cleared v) \<and> bits (cleared v) = {}"
    and set_bit_op: "ok v \<Longrightarrow> i < cap \<Longrightarrow> \<exists>v'. set_bit_op i v = Some (i \<notin> bits v, v') \<and> ok v' \<and> bits v' = insert i (bits v)"
    and clear_bit_op: "ok v \<Longrightarrow> i < cap \<Longrightarrow> \<exists>v'. clear_bit_op i v = Some (i \<in> bits v, v') \<and> ok v' \<and> bits v' = bits v - {i}"
    and get_bit_op: "ok v \<Longrightarrow> i < cap \<Longrightarrow> get_bit_op i v = Some (i \<in> bits v)"
    and first: "ok v \<Longrightarrow> bits v \<noteq> {} \<Longrightarrow>
      \<exists>v'. first v = Some (Min (bits v), v') \<and> ok v' \<and> bits v' = bits v - {Min (bits v)}"
    and union: "ok v \<Longrightarrow> ok w \<Longrightarrow>
      \<exists>v'. union v w = Some (\<not> bits w \<subseteq> bits v, v') \<and> ok v' \<and> bits v' = bits v \<union> bits w"
    and difference: "ok v \<Longrightarrow> ok w \<Longrightarrow>
      \<exists>v'. difference v w = Some (bits v \<inter> bits w \<noteq> {}, v') \<and> ok v' \<and> bits v' = bits v - bits w"
    and intersects: "ok v \<Longrightarrow> ok w \<Longrightarrow> intersects v w = Some (bits v \<inter> bits w \<noteq> {})"
begin

lemma finite_bits: "ok v \<Longrightarrow> finite (bits v)"
  using bits_bound finite_subset by blast

lemma copy: "ok v \<Longrightarrow> ok w \<Longrightarrow> \<exists>v'. map_option snd (union (cleared v) w) = Some v' \<and> ok v' \<and> bits v' = bits w"
  using cleared [of v] union [of "cleared v" w] by auto

text \<open>A loop that takes the elements out one by one sees each once, in increasing order.\<close>

lemma drain_rule:
  assumes "ok t" "P {} s"
    and step: "\<And>D i s. i \<in> bits t \<Longrightarrow> D = {j \<in> bits t. j < i} \<Longrightarrow> P D s \<Longrightarrow> \<exists>s'. body i s = Some s' \<and> P (insert i D) s'"
  shows "\<exists>t' s'. drain is_empty first body t s = Some (t', s') \<and> ok t' \<and> bits t' = {} \<and> P (bits t) s'"
proof -
  have "\<exists>t' s'. drain is_empty first body u s = Some (t', s') \<and> ok t' \<and> bits t' = {} \<and> P (bits t) s'"
    if "card (bits u) = n" "ok u" "bits u \<subseteq> bits t" "\<forall>i \<in> bits u. \<forall>j \<in> bits t - bits u. j < i" "P (bits t - bits u) s" for n u s
    using that
  proof (induction n arbitrary: u s)
    case 0
    then have "bits u = {}" using finite_bits by simp
    then show ?case using 0 by (subst drain.simps) (simp add: is_empty)
  next
    case (Suc n)
    let ?i = "Min (bits u)" and ?D = "bits t - bits u"
    have ne: "bits u \<noteq> {}" using Suc.prems(1) by auto
    have fin: "finite (bits u)" using finite_bits Suc.prems(2) .
    have i: "?i \<in> bits u" using fin ne by simp
    obtain u' where u': "first u = Some (?i, u')" "ok u'" "bits u' = bits u - {?i}" using first [OF Suc.prems(2) ne] by blast
    have "?D = {j \<in> bits t. j < ?i}"
      using Suc.prems(3,4) i fin by (auto simp: not_less dest: Min_le)
    then obtain s' where s': "body ?i s = Some s'" "P (insert ?i ?D) s'"
      using step [of ?i ?D s] i Suc.prems(3,5) by blast
    have D: "insert ?i ?D = bits t - bits u'" using u'(3) i Suc.prems(3) by auto
    have "\<exists>t' s''. drain is_empty first body u' s' = Some (t', s'') \<and> ok t' \<and> bits t' = {} \<and> P (bits t) s''"
    proof (rule Suc.IH)
      show "card (bits u') = n" using Suc.prems(1) u'(3) i fin by simp
      show "\<forall>i \<in> bits u'. \<forall>j \<in> bits t - bits u'. j < i"
        using Suc.prems(4) u'(3) fin by (auto simp: less_le)
    qed (use u' Suc.prems(3) s'(2) D in auto)
    then show ?case using ne Suc.prems(2) u'(1) s'(1) by (subst drain.simps) (simp add: is_empty)
  qed
  from this [of t "card (bits t)" s] show ?thesis using assms(1,2) by simp
qed

end

section \<open>Words\<close>

definition bb_bits :: "u64 \<Rightarrow> nat set" where
  "bb_bits b = {i. bit b i}"

lemma bb_bits_bound: "bb_bits b \<subseteq> {..<64}"
  by (auto simp: bb_bits_def dest: bit_imp_le_length)

lemma bb_mask_small: "i < 64 \<Longrightarrow> bb_mask i = Some (push_bit i 1)"
  by (simp add: bb_mask_def bb_size_def)

lemma bit64: "bit (b :: u64) n \<Longrightarrow> n < 64"
  using bit_imp_le_length by force

lemma set_bit_same: "i < 64 \<Longrightarrow> set_bit i b = b \<longleftrightarrow> bit (b :: u64) i"
proof
  assume i: "i < 64" and "set_bit i b = b"
  then have "bit (set_bit i b) i = bit b i" by simp
  then show "bit b i" using i by (simp add: bit_simps)
next
  assume "bit b i"
  then show "set_bit i b = b" by (auto intro!: bit_word_eqI simp: bit_simps)
qed

lemma unset_bit_same: "unset_bit i b = b \<longleftrightarrow> \<not> bit (b :: u64) i"
  by (metis bit_unset_bit_iff bit_word_eqI)

lemma bb_setBit_eq: "i < 64 \<Longrightarrow> bb_setBit i b = Some (\<not> bit b i, set_bit i b)"
  using set_bit_same [of i b] by (simp add: bb_setBit_def bb_mask_small Let_def set_bit_eq_or)

lemma bb_clearBit_eq: "i < 64 \<Longrightarrow> bb_clearBit i b = Some (bit b i, unset_bit i b)"
  using unset_bit_same [of i b] by (simp add: bb_clearBit_def bb_mask_small Let_def unset_bit_eq_and_not)

lemma bb_getBit_eq: "i < 64 \<Longrightarrow> bb_getBit i b = Some (bit b i)"
  by (simp add: bb_getBit_def bb_mask_small bit_iff_and_push_bit_not_eq_0 del: push_bit_of_1)

lemma bb_empty_iff: "bb_empty b \<longleftrightarrow> bb_bits b = {}"
  by (auto simp: bb_empty_def bb_bits_def bit_eq_iff dest: bit64)

lemma bb_first_eq:
  assumes "b \<noteq> 0"
  shows "bb_getAndClearFirstOne b = Some (Min (bb_bits b), unset_bit (Min (bb_bits b)) b)"
proof -
  obtain i where i: "bit b i" "i < 64" using assms bit_imp_le_length by (fastforce simp: bit_eq_iff)
  then have "List.find (bit b) [0..<64] \<noteq> None" by (auto simp: find_upt_None_iff)
  then obtain k where "List.find (bit b) [0..<64] = Some k" by blast
  then have k: "k < 64" "bit b k" "\<forall>j < k. \<not> bit b j" by (auto simp: find_upt_Some_iff)
  have "finite (bb_bits b)" using bb_bits_bound finite_subset by blast
  then have "Min (bb_bits b) = k" using k(2,3) by (intro Min_eqI) (auto simp: bb_bits_def not_less [symmetric])
  then show ?thesis
    using k assms \<open>List.find (bit b) [0..<64] = Some k\<close>
    by (simp add: bb_getAndClearFirstOne_def LeastSignificantSetBitIndex_def bb_empty_def bb_clearBit_eq)
qed

lemma or_same: "v OR w = (v :: u64) \<longleftrightarrow> bb_bits w \<subseteq> bb_bits v"
  by (auto simp: bb_bits_def bit_eq_iff bit_simps dest: bit64)

lemma and_not_same: "v AND NOT w = (v :: u64) \<longleftrightarrow> bb_bits v \<inter> bb_bits w = {}"
  by (auto simp: bb_bits_def bit_eq_iff bit_simps dest: bit64)

interpretation word: bit_vector bb_bits "\<lambda>_. True" 64 bb_empty "\<lambda>_. bb_clear" bb_setBit bb_clearBit bb_getBit
  bb_getAndClearFirstOne "\<lambda>b v. Some (bb_setUnion b v)" "\<lambda>b v. Some (bb_setDifference b v)"
  "\<lambda>b v. Some (bb_intersectsWith b v)"
proof unfold_locales
  fix v w :: u64 and i :: nat
  show "bb_bits v \<subseteq> {..<64}" by (rule bb_bits_bound)
  show "bb_empty v \<longleftrightarrow> bb_bits v = {}" by (rule bb_empty_iff)
  show "True \<and> bb_bits bb_clear = {}" by (simp add: bb_bits_def bb_clear_def)
  show "\<exists>v'. bb_setBit i v = Some (i \<notin> bb_bits v, v') \<and> True \<and> bb_bits v' = insert i (bb_bits v)" if "i < 64"
    using that by (auto simp: bb_setBit_eq bb_bits_def bit_simps)
  show "\<exists>v'. bb_clearBit i v = Some (i \<in> bb_bits v, v') \<and> True \<and> bb_bits v' = bb_bits v - {i}" if "i < 64"
    using that by (auto simp: bb_clearBit_eq bb_bits_def bit_simps)
  show "bb_getBit i v = Some (i \<in> bb_bits v)" if "i < 64" using that by (simp add: bb_getBit_eq bb_bits_def)
  show "\<exists>v'. bb_getAndClearFirstOne v = Some (Min (bb_bits v), v') \<and> True \<and> bb_bits v' = bb_bits v - {Min (bb_bits v)}"
    if "bb_bits v \<noteq> {}"
  proof -
    have "v \<noteq> 0" using that by (auto simp: bb_bits_def)
    then show ?thesis by (auto simp: bb_first_eq bb_bits_def bit_simps)
  qed
  show "\<exists>v'. Some (bb_setUnion v w) = Some (\<not> bb_bits w \<subseteq> bb_bits v, v') \<and> True \<and> bb_bits v' = bb_bits v \<union> bb_bits w"
    using or_same [of v w] by (auto simp: bb_setUnion_def Let_def bb_bits_def bit_simps)
  show "\<exists>v'. Some (bb_setDifference v w) = Some (bb_bits v \<inter> bb_bits w \<noteq> {}, v') \<and> True \<and> bb_bits v' = bb_bits v - bb_bits w"
    using and_not_same [of v w] by (auto simp: bb_setDifference_def Let_def bb_bits_def bit_simps dest: bit64)
  show "Some (bb_intersectsWith v w) = Some (bb_bits v \<inter> bb_bits w \<noteq> {})"
    by (auto simp: bb_intersectsWith_def bb_bits_def bit_eq_iff bit_simps dest: bit64)
qed

section \<open>Two levels\<close>

text \<open>The word of the second level, or zero where the first level says that there is none.\<close>

definition cell :: "two_level \<Rightarrow> nat \<Rightarrow> nat \<Rightarrow> u64" where
  "cell v i0 i1 = (if bit (tl_l1 v ! i0) i1 then l2_at i0 i1 v else 0)"

definition tl_ok :: "nat \<Rightarrow> two_level \<Rightarrow> bool" where
  "tl_ok N v \<longleftrightarrow> length (tl_l1 v) = N \<and> length (tl_l2 v) = N \<and> (\<forall>i0 < N. length (tl_l2 v ! i0) = 64) \<and>
     (\<forall>i0 < N. \<forall>i1 < 64. bit (tl_l1 v ! i0) i1 \<longrightarrow> l2_at i0 i1 v \<noteq> 0)"

definition tl_bits :: "two_level \<Rightarrow> nat set" where
  "tl_bits v = {n. n < tl_size v \<and> bit (cell v (n div 4096) (n div 64 mod 64)) (n mod 64)}"

text \<open>Every operation is a sequence of these.\<close>

definition put :: "nat \<Rightarrow> nat \<Rightarrow> u64 \<Rightarrow> two_level \<Rightarrow> two_level" where
  "put i0 i1 w v =
     set_l2 i0 i1 w (set_l1 i0 (if w = 0 then unset_bit i1 (tl_l1 v ! i0) else set_bit i1 (tl_l1 v ! i0)) v)"

lemma cell_iff: "tl_ok N v \<Longrightarrow> i0 < N \<Longrightarrow> i1 < 64 \<Longrightarrow> bit (tl_l1 v ! i0) i1 \<longleftrightarrow> cell v i0 i1 \<noteq> 0"
  by (auto simp: tl_ok_def cell_def)

lemma cell_put:
  assumes "tl_ok N v" "i0 < N" "i1 < 64"
  shows "tl_ok N (put i0 i1 w v)"
    "j1 < 64 \<Longrightarrow> cell (put i0 i1 w v) j0 j1 = (if j0 = i0 \<and> j1 = i1 then w else cell v j0 j1)"
proof -
  have len: "length (tl_l1 v) = N" "length (tl_l2 v) = N" "length (tl_l2 v ! i0) = 64" using assms by (auto simp: tl_ok_def)
  have l1: "tl_l1 (put i0 i1 w v) ! j0 = (if j0 = i0 then (if w = 0 then unset_bit i1 (tl_l1 v ! i0) else set_bit i1 (tl_l1 v ! i0))
      else tl_l1 v ! j0)" for j0
    using len assms(2) by (simp add: put_def set_l1_def set_l2_def nth_list_update)
  have l2: "l2_at j0 j1 (put i0 i1 w v) = (if j0 = i0 \<and> j1 = i1 then w else l2_at j0 j1 v)" for j0 j1
    using len assms(2,3) by (auto simp: put_def set_l1_def set_l2_def l2_at_def nth_list_update)
  have dims: "length (tl_l1 (put i0 i1 w v)) = N" "length (tl_l2 (put i0 i1 w v)) = N"
      "\<forall>j0 < N. length (tl_l2 (put i0 i1 w v) ! j0) = 64"
    using assms by (auto simp: tl_ok_def put_def set_l1_def set_l2_def nth_list_update)
  have b: "bit (tl_l1 (put i0 i1 w v) ! j0) j1 \<longleftrightarrow> (if j0 = i0 \<and> j1 = i1 then w \<noteq> 0 else bit (tl_l1 v ! j0) j1)"
    if "j1 < 64" for j0 j1
    using that unfolding l1 by (auto simp: bit_simps)
  show "tl_ok N (put i0 i1 w v)" using assms dims b l2 unfolding tl_ok_def by auto
  show "j1 < 64 \<Longrightarrow> cell (put i0 i1 w v) j0 j1 = (if j0 = i0 \<and> j1 = i1 then w else cell v j0 j1)"
    using b l2 by (auto simp: cell_def)
qed

lemma cell_zero_outside: "tl_ok N v \<Longrightarrow> 64 \<le> i1 \<Longrightarrow> cell v i0 i1 = 0"
  by (auto simp: cell_def dest: bit64)

text \<open>Indices\<close>

lemma idx_parts:
  fixes n N :: nat
  assumes "n < 4096 * N"
  shows "n div 4096 < N" "n div 64 mod 64 < 64" "n mod 64 < 64"
    "n = n div 4096 * 64 * 64 + n div 64 mod 64 * 64 + n mod 64"
proof -
  show "n div 4096 < N" using assms by (simp add: less_mult_imp_div_less mult.commute)
  have "n div 64 = n div 64 div 64 * 64 + n div 64 mod 64" "n = n div 64 * 64 + n mod 64" by simp_all
  moreover have "n div 64 div 64 = n div 4096" by (simp add: div_mult2_eq [symmetric])
  ultimately show "n = n div 4096 * 64 * 64 + n div 64 mod 64 * 64 + n mod 64" by linarith
qed simp_all

lemma idx_join:
  fixes i0 i1 i2 N :: nat
  assumes "i1 < 64" "i2 < 64"
  defines "n \<equiv> i0 * 64 * 64 + i1 * 64 + i2"
  shows "n div 4096 = i0" "n div 64 mod 64 = i1" "n mod 64 = i2" "i0 < N \<Longrightarrow> n < 4096 * N"
proof -
  have n: "n = i2 + (i0 * 64 + i1) * 64" unfolding n_def by simp
  have d: "n div 64 = i0 * 64 + i1" unfolding n using assms(2) by (subst div_mult_self1) simp_all
  show "n mod 64 = i2" unfolding n using assms(2) by (subst mod_mult_self1) simp
  show "n div 64 mod 64 = i1" using assms(1) d by simp
  have "n div 4096 = n div 64 div 64" by (simp add: div_mult2_eq [symmetric])
  then show "n div 4096 = i0" using assms(1) d by simp
  show "i0 < N \<Longrightarrow> n < 4096 * N"
  proof -
    assume "i0 < N"
    then have "i0 + 1 \<le> N" by simp
    then have "(i0 + 1) * 4096 \<le> N * 4096" by (rule mult_right_mono) simp
    moreover have "n < (i0 + 1) * 4096" using assms(1,2) unfolding n_def by simp
    ultimately show ?thesis by simp
  qed
qed

lemma tl_bits_iff: "tl_ok N v \<Longrightarrow> n \<in> tl_bits v \<longleftrightarrow> n < 4096 * N \<and> bit (cell v (n div 4096) (n div 64 mod 64)) (n mod 64)"
  by (auto simp: tl_bits_def tl_size_def tl_ok_def bb_size_def)

lemma tl_bits_join:
  assumes "tl_ok N v" "i0 < N" "i1 < 64" "i2 < 64"
  shows "i0 * 64 * 64 + i1 * 64 + i2 \<in> tl_bits v \<longleftrightarrow> bit (cell v i0 i1) i2"
  using idx_join(1-3) [OF assms(3,4), of i0] idx_join(4) [OF assms(3,4,2)] by (simp only: tl_bits_iff [OF assms(1)]) simp

lemma tl_bits_eqI:
  assumes "tl_ok N v" "tl_ok N w" "\<And>i0 i1 i2. i0 < N \<Longrightarrow> i1 < 64 \<Longrightarrow> i2 < 64 \<Longrightarrow>
    bit (cell w i0 i1) i2 = P (i0 * 64 * 64 + i1 * 64 + i2)"
    and "\<And>n. P n \<Longrightarrow> n < 4096 * N"
  shows "tl_bits w = {n. P n}"
proof (rule set_eqI)
  fix n
  show "n \<in> tl_bits w \<longleftrightarrow> n \<in> {n. P n}"
    using idx_parts [of n N] assms(3) [of "n div 4096" "n div 64 mod 64" "n mod 64"] assms(4) [of n]
    by (auto simp: tl_bits_iff [OF assms(2)])
qed

lemma put_bit:
  fixes b :: bool
  assumes "tl_ok N v" "n < 4096 * N"
  defines "w \<equiv> put (n div 4096) (n div 64 mod 64)
    ((if b then set_bit else unset_bit) (n mod 64) (cell v (n div 4096) (n div 64 mod 64))) v"
  shows "tl_ok N w" "tl_bits w = (if b then insert n (tl_bits v) else tl_bits v - {n})"
proof -
  note ix = idx_parts [OF assms(2)]
  show ok: "tl_ok N w" unfolding w_def by (rule cell_put(1) [OF assms(1) ix(1,2)])
  show "tl_bits w = (if b then insert n (tl_bits v) else tl_bits v - {n})"
  proof (rule set_eqI)
    fix m
    show "m \<in> tl_bits w \<longleftrightarrow> m \<in> (if b then insert n (tl_bits v) else tl_bits v - {n})"
    proof (cases "m < 4096 * N")
      case True
      note im = idx_parts [OF True]
      have eq: "m = n \<longleftrightarrow> m div 4096 = n div 4096 \<and> m div 64 mod 64 = n div 64 mod 64 \<and> m mod 64 = n mod 64"
        using ix(4) im(4) by auto
      have c: "cell w (m div 4096) (m div 64 mod 64) =
          (if m div 4096 = n div 4096 \<and> m div 64 mod 64 = n div 64 mod 64
           then (if b then set_bit else unset_bit) (n mod 64) (cell v (n div 4096) (n div 64 mod 64))
           else cell v (m div 4096) (m div 64 mod 64))"
        unfolding w_def by (rule cell_put(2) [OF assms(1) ix(1,2) im(2)])
      show ?thesis
        unfolding insert_iff Diff_iff if_split [of "\<lambda>S. m \<in> S"] tl_bits_iff [OF ok] tl_bits_iff [OF assms(1)] c eq
        using True by (auto simp: bit_simps tl_bits_iff [OF assms(1)])
    next
      case False
      then have "m \<noteq> n" using assms(2) by auto
      then show ?thesis using False by (simp add: tl_bits_iff [OF ok] tl_bits_iff [OF assms(1)])
    qed
  qed
qed

subsection \<open>Single bits\<close>

lemma guards:
  assumes "tl_ok N v" "n < 4096 * N"
  shows "tl_check n v = Some ()" "tl_idx0 n v = Some (n div 4096)" "tl_idx1 n = Some (n div 64 mod 64)"
    "tl_idx2 n = Some (n mod 64)" "l1_at (n div 4096) v = Some (tl_l1 v ! (n div 4096))"
  using assms idx_parts [OF assms(2)]
  by (auto simp: tl_check_def tl_size_def tl_idx0_def tl_idx1_def tl_idx2_def bb_size_def l1_at_def tl_ok_def Let_def
      less_imp_le mod_less_divisor)

lemma set_twice: "set_l2 i0 i1 w (set_l2 i0 i1 x v) = set_l2 i0 i1 w v" if "i0 < length (tl_l2 v)"
  using that by (simp add: set_l2_def)

lemma set_same:
  assumes "i0 < length (tl_l1 v)" "b = tl_l1 v ! i0"
  shows "set_l1 i0 b v = v"
  using assms by (simp add: set_l1_def)

lemma set_bit_nonzero: "i < 64 \<Longrightarrow> set_bit i w \<noteq> (0 :: u64)"
  by (auto simp: bit_eq_iff bit_simps)

lemma tl_setBit_eq:
  assumes ok: "tl_ok N v" and n: "n < 4096 * N"
  defines "i0 \<equiv> n div 4096" and "i1 \<equiv> n div 64 mod 64" and "i2 \<equiv> n mod 64"
  shows "tl_setBit n v = Some (\<not> bit (cell v i0 i1) i2, put i0 i1 (set_bit i2 (cell v i0 i1)) v)"
proof -
  note g = guards [OF ok n, folded i0_def i1_def i2_def]
  have ix: "i0 < N" "i1 < 64" "i2 < 64" using idx_parts [OF n] unfolding i0_def i1_def i2_def by simp_all
  have len: "i0 < length (tl_l1 v)" "i0 < length (tl_l2 v)" using ok ix by (simp_all add: tl_ok_def)
  show ?thesis
  proof (cases "bit (tl_l1 v ! i0) i1")
    case True
    then show ?thesis
      using ix len set_bit_same [of i1 "tl_l1 v ! i0"]
      by (simp add: tl_setBit_def g bb_getBit_eq bb_setBit_eq cell_def put_def set_bit_nonzero set_same)
  next
    case False
    have l2: "l2_at i0 i1 (set_l2 i0 i1 0 (set_l1 i0 b v)) = 0" for b
      using len ok ix by (simp add: l2_at_def set_l2_def set_l1_def tl_ok_def)
    have "set_l2 i0 i1 w (set_l2 i0 i1 0 (set_l1 i0 b v)) = set_l2 i0 i1 w (set_l1 i0 b v)" for w b
      using len by (intro set_twice) (simp add: set_l1_def)
    then show ?thesis
      using False ix by (simp add: tl_setBit_def g bb_getBit_eq bb_setBit_eq cell_def put_def set_bit_nonzero bb_clear_def l2)
  qed
qed

lemma tl_clearBit_eq:
  assumes ok: "tl_ok N v" and n: "n < 4096 * N"
  defines "i0 \<equiv> n div 4096" and "i1 \<equiv> n div 64 mod 64" and "i2 \<equiv> n mod 64"
  shows "tl_clearBit n v = Some (bit (cell v i0 i1) i2,
    if bit (tl_l1 v ! i0) i1 then put i0 i1 (unset_bit i2 (cell v i0 i1)) v else v)"
proof -
  note g = guards [OF ok n, folded i0_def i1_def i2_def]
  have ix: "i0 < N" "i1 < 64" "i2 < 64" using idx_parts [OF n] unfolding i0_def i1_def i2_def by simp_all
  have len: "i0 < length (tl_l1 v)" "i0 < length (tl_l2 v)" using ok ix by (simp_all add: tl_ok_def)
  have c: "set_l1 i0 b (set_l2 i0 i1 w v) = set_l2 i0 i1 w (set_l1 i0 b v)" for b w by (simp add: set_l1_def set_l2_def)
  show ?thesis
    using ix len set_bit_same [of i1 "tl_l1 v ! i0"]
    by (simp add: tl_clearBit_def g bb_getBit_eq bb_clearBit_eq cell_def put_def c bb_empty_def set_same)
qed

lemma tl_getBit_eq:
  assumes ok: "tl_ok N v" and n: "n < 4096 * N"
  shows "tl_getBit n v = Some (n \<in> tl_bits v)"
  using idx_parts [OF n] n
  by (simp add: tl_getBit_def guards [OF ok n] bb_getBit_eq cell_def tl_bits_iff [OF ok])

lemma tl_empty_iff:
  assumes ok: "tl_ok N v"
  shows "tl_empty v \<longleftrightarrow> tl_bits v = {}"
proof
  assume "tl_empty v"
  then have z: "tl_l1 v ! i0 = 0" if "i0 < N" for i0 using that ok by (simp add: tl_empty_def list_all_length tl_ok_def bb_empty_def)
  show "tl_bits v = {}"
  proof (rule ccontr)
    assume "tl_bits v \<noteq> {}"
    then obtain n where "n \<in> tl_bits v" by blast
    then have "n < 4096 * N" "cell v (n div 4096) (n div 64 mod 64) \<noteq> 0" by (auto simp: tl_bits_iff [OF ok])
    then show False using z idx_parts(1) [of n N] by (simp add: cell_def)
  qed
next
  assume e: "tl_bits v = {}"
  show "tl_empty v" unfolding tl_empty_def list_all_length bb_empty_def
  proof (intro allI impI)
    fix i0 assume "i0 < length (tl_l1 v)"
    then have i0: "i0 < N" using ok by (simp add: tl_ok_def)
    have "\<not> bit (tl_l1 v ! i0) i1" for i1
    proof
      assume b: "bit (tl_l1 v ! i0) i1"
      then have i1: "i1 < 64" by (rule bit64)
      then have "cell v i0 i1 \<noteq> 0" using b cell_iff [OF ok i0] by simp
      then obtain i2 where "bit (cell v i0 i1) i2" "i2 < 64" by (auto simp: bit_eq_iff dest: bit64)
      then show False using tl_bits_join [OF ok i0 i1] e by blast
    qed
    then show "tl_l1 v ! i0 = 0" by (simp add: bit_eq_iff)
  qed
qed

lemma first_word:
  assumes "b \<noteq> 0"
  shows "\<exists>i < 64. bb_getAndClearFirstOne b = Some (i, unset_bit i b) \<and> bit b i \<and> (\<forall>j < i. \<not> bit b j)"
proof -
  have ne: "bb_bits b \<noteq> {}" using assms bb_empty_iff [of b] by (simp add: bb_empty_def)
  have fin: "finite (bb_bits b)" using word.finite_bits [of b] by simp
  have "Min (bb_bits b) \<in> bb_bits b" using fin ne by (rule Min_in)
  moreover have "j \<notin> bb_bits b" if "j < Min (bb_bits b)" for j using that Min_le [OF fin, of j] by linarith
  ultimately have "bit b (Min (bb_bits b))" "\<forall>j < Min (bb_bits b). \<not> bit b j" unfolding bb_bits_def by blast+
  then show ?thesis using bb_first_eq [OF assms] bit64 [of b "Min (bb_bits b)"] by blast
qed

lemma tl_first_eq:
  assumes ok: "tl_ok N v" and ne: "tl_bits v \<noteq> {}"
  shows "\<exists>v'. tl_getAndClearFirstOne v = Some (Min (tl_bits v), v') \<and> tl_ok N v' \<and> tl_bits v' = tl_bits v - {Min (tl_bits v)}"
proof -
  have len: "length (tl_l1 v) = N" "length (tl_l2 v) = N" using ok by (auto simp: tl_ok_def)
  have "\<not> tl_empty v" using ne by (simp add: tl_empty_iff [OF ok])
  then have "List.find (\<lambda>i. \<not> bb_empty (tl_l1 v ! i)) [0..<N] \<noteq> None"
    by (auto simp: find_upt_None_iff tl_empty_def list_all_length len)
  then obtain i0 where f: "List.find (\<lambda>i. \<not> bb_empty (tl_l1 v ! i)) [0..<N] = Some i0" by blast
  then have i0: "i0 < N" "tl_l1 v ! i0 \<noteq> 0" "\<forall>j < i0. tl_l1 v ! j = 0" by (auto simp: find_upt_Some_iff bb_empty_def)
  let ?b = "tl_l1 v ! i0"
  obtain i1 where i1: "i1 < 64" "bb_getAndClearFirstOne ?b = Some (i1, unset_bit i1 ?b)" "bit ?b i1" "\<forall>j < i1. \<not> bit ?b j"
    using first_word [OF i0(2)] by blast
  have c: "cell v i0 i1 = l2_at i0 i1 v" unfolding cell_def if_P [OF i1(3)] ..
  have cn: "cell v i0 i1 \<noteq> 0" using i1(3) cell_iff [OF ok i0(1) i1(1)] by blast
  obtain i2 where i2: "i2 < 64" "bb_getAndClearFirstOne (cell v i0 i1) = Some (i2, unset_bit i2 (cell v i0 i1))"
      "bit (cell v i0 i1) i2" "\<forall>j < i2. \<not> bit (cell v i0 i1) j"
    using first_word [OF cn] by blast
  define n where "n = i0 * 64 * 64 + i1 * 64 + i2"
  note ix = idx_join [OF i1(1) i2(1), of i0, folded n_def]
  have n: "n < 4096 * N" using ix(4) i0(1) .
  have mem: "n \<in> tl_bits v" unfolding n_def tl_bits_join [OF ok i0(1) i1(1) i2(1)] by (rule i2(3))
  have "n \<le> m" if m: "m \<in> tl_bits v" for m
  proof -
    have mN: "m < 4096 * N" and mb: "bit (cell v (m div 4096) (m div 64 mod 64)) (m mod 64)" using m by (auto simp: tl_bits_iff [OF ok])
    note im = idx_parts [OF mN]
    have cm: "bit (tl_l1 v ! (m div 4096)) (m div 64 mod 64)" using mb by (auto simp: cell_def split: if_splits)
    have "i0 \<le> m div 4096" by (rule leI) (use cm i0(3) in auto)
    moreover have a1: "i1 \<le> m div 64 mod 64" if "m div 4096 = i0" by (rule leI) (use cm i1(4) that in auto)
    moreover have a2: "i2 \<le> m mod 64" if "m div 4096 = i0" "m div 64 mod 64 = i1" by (rule leI) (use mb i2(4) that in auto)
    ultimately consider "i0 + 1 \<le> m div 4096" | "m div 4096 = i0" "i1 + 1 \<le> m div 64 mod 64"
      | "m div 4096 = i0" "m div 64 mod 64 = i1" "i2 \<le> m mod 64" by linarith
    then show ?thesis using im(4) i1(1) i2(1) unfolding n_def by cases linarith+
  qed
  then have Min: "Min (tl_bits v) = n"
    using mem by (intro Min_eqI) (auto simp: tl_bits_def)
  let ?w = "unset_bit i2 (cell v i0 i1)"
  have bits: "tl_ok N (put i0 i1 ?w v)" "tl_bits (put i0 i1 ?w v) = tl_bits v - {n}"
    using put_bit [OF ok n, of False] by (simp_all add: ix(1-3))
  have l1c: "set_l1 i0 b (set_l2 i0 i1 w v) = set_l2 i0 i1 w (set_l1 i0 b v)"
    "set_l1 i0 b (set_l1 i0 b' v) = set_l1 i0 b v" for b b' w v by (simp_all add: set_l1_def set_l2_def)
  have twice: "set_bit i1 (unset_bit i1 ?b) = set_bit i1 ?b"
    by (rule bit_word_eqI) (auto simp: bit_simps)
  have "tl_getAndClearFirstOne v = Some (i0 * 64 * 64 + i1 * 64 + i2, put i0 i1 ?w v)"
    using f i1(1,2) i2(2) c
    by (simp add: tl_getAndClearFirstOne_def len bb_size_def bb_empty_def put_def bb_setBit_eq l1c twice Let_def)
  then show ?thesis using bits Min by (simp add: n_def)
qed

text \<open>A loop over the bits of a word.\<close>

lemma bb_for_rule:
  assumes "P {} s"
    and step: "\<And>D i s. bit t i \<Longrightarrow> i \<notin> D \<Longrightarrow> P D s \<Longrightarrow> \<exists>s'. f i s = Some s' \<and> P (insert i D) s'"
  shows "\<exists>s'. bb_for f t s = Some s' \<and> P {i. bit t i} s'"
proof -
  have "\<exists>s'. bb_for f u s = Some s' \<and> P {i. bit t i} s'"
    if "unat u = n" "\<forall>i. bit u i \<longrightarrow> bit t i" "P {i. bit t i \<and> \<not> bit u i} s" for n u s
    using that
  proof (induction n arbitrary: u s rule: less_induct)
    case (less n)
    show ?case
    proof (cases "u = 0")
      case True
      then show ?thesis using less.prems(3) by (subst bb_for.simps) (simp add: bb_empty_def)
    next
      case False
      then obtain i where i: "bb_getAndClearFirstOne u = Some (i, unset_bit i u)" "bit u i" using first_word by blast
      let ?D = "{i. bit t i \<and> \<not> bit u i}"
      obtain s' where s': "f i s = Some s'" "P (insert i ?D) s'"
        using step [of i ?D s] less.prems i(2) by blast
      have "insert i ?D = {j. bit t j \<and> \<not> bit (unset_bit i u) j}" using i(2) less.prems(2) by (auto simp: bit_simps)
      moreover have "unat (unset_bit i u) < n" using bb_first_decreases(1) [OF i(1)] less.prems(1) by simp
      ultimately have "\<exists>s''. bb_for f (unset_bit i u) s' = Some s'' \<and> P {i. bit t i} s''"
        using s'(2) less.prems(2) by (intro less.IH) (auto simp: bit_simps)
      then show ?thesis using False i(1) s'(1) by (subst bb_for.simps) (simp add: bb_empty_def)
    qed
  qed
  from this [of t "unat t" s] show ?thesis using assms(1) by simp
qed

lemma for_each_rule:
  assumes "P 0 s" and step: "\<And>i s. i < n \<Longrightarrow> P i s \<Longrightarrow> \<exists>s'. f i s = Some s' \<and> P (Suc i) s'"
  shows "\<exists>s'. for_each f [0..<n] s = Some s' \<and> P n s'"
proof -
  have "\<exists>s'. for_each f [k..<n] s = Some s' \<and> P n s'" if "k \<le> n" "P k s" for k s
    using that
  proof (induction "n - k" arbitrary: k s)
    case (Suc m)
    then have "k < n" by simp
    moreover obtain s' where s': "f k s = Some s'" "P (Suc k) s'" using step Suc.prems \<open>k < n\<close> by blast
    moreover have "\<exists>s''. for_each f [Suc k..<n] s' = Some s'' \<and> P n s''" using Suc s' by (intro Suc.hyps(1)) auto
    ultimately show ?case by (simp add: upt_conv_Cons)
  qed simp
  from this [of 0 s] assms(1) show ?thesis by simp
qed

subsection \<open>Operations on two vectors\<close>

text \<open>One row: the body replaces the word of each bit of \<open>t\<close> and notes whether that changes it.\<close>

lemma row_loop:
  assumes ok: "tl_ok N v" and i0: "i0 < N"
    and body: "\<And>i1 r u. bit t i1 \<Longrightarrow> i1 < 64 \<Longrightarrow> tl_ok N u \<Longrightarrow> cell u i0 i1 = cell v i0 i1 \<Longrightarrow>
      f i1 (r, u) = Some (r \<or> g i1 \<noteq> cell v i0 i1, put i0 i1 (g i1) u)"
  shows "\<exists>u. bb_for f t (r, v) = Some (r \<or> (\<exists>i1. bit t i1 \<and> g i1 \<noteq> cell v i0 i1), u) \<and> tl_ok N u \<and>
    (\<forall>j0 j1. j1 < 64 \<longrightarrow> cell u j0 j1 = (if j0 = i0 \<and> bit t j1 then g j1 else cell v j0 j1))"
proof -
  let ?P = "\<lambda>D (q, u). q = (r \<or> (\<exists>i1 \<in> D. g i1 \<noteq> cell v i0 i1)) \<and> tl_ok N u \<and>
      (\<forall>j0 j1. j1 < 64 \<longrightarrow> cell u j0 j1 = (if j0 = i0 \<and> j1 \<in> D then g j1 else cell v j0 j1))"
  have "\<exists>s'. bb_for f t (r, v) = Some s' \<and> ?P {i. bit t i} s'"
  proof (rule bb_for_rule [where P = ?P])
    show "?P {} (r, v)" using ok by simp
  next
    fix D i s assume i: "bit t i" "i \<notin> D" and P: "?P D s"
    obtain q u where s: "s = (q, u)" by (cases s)
    have i64: "i < 64" using i(1) by (rule bit64)
    have P': "q = (r \<or> (\<exists>i1 \<in> D. g i1 \<noteq> cell v i0 i1))" "tl_ok N u"
      "\<And>j0 j1. j1 < 64 \<Longrightarrow> cell u j0 j1 = (if j0 = i0 \<and> j1 \<in> D then g j1 else cell v j0 j1)"
      using P unfolding s prod.case by blast+
    have u: "cell u i0 i = cell v i0 i" using P'(3) [OF i64] i(2) by simp
    have "f i s = Some (q \<or> g i \<noteq> cell v i0 i, put i0 i (g i) u)" unfolding s by (rule body [OF i(1) i64 P'(2) u])
    moreover have "?P (insert i D) (q \<or> g i \<noteq> cell v i0 i, put i0 i (g i) u)"
      unfolding prod.case P'(1)
    proof (intro conjI allI impI)
      show "tl_ok N (put i0 i (g i) u)" by (rule cell_put(1) [OF P'(2) i0 i64])
      fix j0 j1 :: nat assume "j1 < 64"
      then show "cell (put i0 i (g i) u) j0 j1 = (if j0 = i0 \<and> j1 \<in> insert i D then g j1 else cell v j0 j1)"
        using cell_put(2) [OF P'(2) i0 i64, of j1 "g i" j0] P'(3) [of j1 j0] by auto
    qed blast
    ultimately show "\<exists>s'. f i s = Some s' \<and> ?P (insert i D) s'" by blast
  qed
  then show ?thesis by auto
qed

text \<open>All rows: the result has \<open>h\<close> of the words of both vectors.\<close>

lemma rows_loop:
  assumes v: "tl_ok N v"
    and body: "\<And>i0 r u. i0 < N \<Longrightarrow> tl_ok N u \<Longrightarrow> (\<And>j1. j1 < 64 \<Longrightarrow> cell u i0 j1 = cell v i0 j1) \<Longrightarrow>
      \<exists>u'. f i0 (r, u) = Some (r \<or> (\<exists>j1 < 64. h i0 j1 \<noteq> cell v i0 j1), u') \<and> tl_ok N u' \<and>
        (\<forall>j0 j1. j1 < 64 \<longrightarrow> cell u' j0 j1 = (if j0 = i0 then h i0 j1 else cell u j0 j1))"
  shows "\<exists>u. for_each f [0..<N] (False, v) = Some (\<exists>j0 < N. \<exists>j1 < 64. h j0 j1 \<noteq> cell v j0 j1, u) \<and> tl_ok N u \<and>
    (\<forall>j0 < N. \<forall>j1 < 64. cell u j0 j1 = h j0 j1)"
proof -
  let ?P = "\<lambda>i (q, u). q = (\<exists>j0 < i. \<exists>j1 < 64. h j0 j1 \<noteq> cell v j0 j1) \<and> tl_ok N u \<and>
      (\<forall>j0 j1. j1 < 64 \<longrightarrow> cell u j0 j1 = (if j0 < i then h j0 j1 else cell v j0 j1))"
  have "\<exists>s'. for_each f [0..<N] (False, v) = Some s' \<and> ?P N s'"
  proof (rule for_each_rule [where P = ?P])
    show "?P 0 (False, v)" using v by simp
  next
    fix i s assume i: "i < N" and P: "?P i s"
    obtain q u where s: "s = (q, u)" by (cases s)
    have u: "tl_ok N u" "\<And>j1. j1 < 64 \<Longrightarrow> cell u i j1 = cell v i j1" using P by (simp_all add: s)
    obtain u' where u': "f i (q, u) = Some (q \<or> (\<exists>j1 < 64. h i j1 \<noteq> cell v i j1), u')" "tl_ok N u'"
        "\<forall>j0 j1. j1 < 64 \<longrightarrow> cell u' j0 j1 = (if j0 = i then h i j1 else cell u j0 j1)"
      using body [OF i u(1) u(2), of q] by blast
    have q: "q \<or> (\<exists>j1 < 64. h i j1 \<noteq> cell v i j1) \<longleftrightarrow> (\<exists>j0 < Suc i. \<exists>j1 < 64. h j0 j1 \<noteq> cell v j0 j1)"
      using P by (auto simp: s less_Suc_eq)
    have "?P (Suc i) (q \<or> (\<exists>j1 < 64. h i j1 \<noteq> cell v i j1), u')"
      unfolding prod.case q using P u'(2,3) by (auto simp: s less_Suc_eq)
    then show "\<exists>s'. f i s = Some s' \<and> ?P (Suc i) s'" using u'(1) unfolding s by blast
  qed
  then show ?thesis by auto
qed

lemma put_fold:
  "tl_ok N u \<Longrightarrow> i0 < N \<Longrightarrow> i1 < 64 \<Longrightarrow> w \<noteq> 0 \<Longrightarrow> set_l2 i0 i1 w (set_l1 i0 (set_bit i1 (tl_l1 u ! i0)) u) = put i0 i1 w u"
  "tl_ok N u \<Longrightarrow> i0 < N \<Longrightarrow> i1 < 64 \<Longrightarrow> bit (tl_l1 u ! i0) i1 \<Longrightarrow>
    (if w = 0 then set_l1 i0 (unset_bit i1 (tl_l1 u ! i0)) (set_l2 i0 i1 w u) else set_l2 i0 i1 w u) = put i0 i1 w u"
proof -
  assume a: "tl_ok N u" "i0 < N" "i1 < 64"
  show "w \<noteq> 0 \<Longrightarrow> set_l2 i0 i1 w (set_l1 i0 (set_bit i1 (tl_l1 u ! i0)) u) = put i0 i1 w u" by (simp add: put_def)
  assume b: "bit (tl_l1 u ! i0) i1"
  then have "set_l1 i0 (set_bit i1 (tl_l1 u ! i0)) u = u"
    using a set_bit_same [of i1 "tl_l1 u ! i0"] by (intro set_same) (auto simp: tl_ok_def)
  then show "(if w = 0 then set_l1 i0 (unset_bit i1 (tl_l1 u ! i0)) (set_l2 i0 i1 w u) else set_l2 i0 i1 w u) = put i0 i1 w u"
    by (simp add: put_def set_l1_def set_l2_def)
qed

lemma union_word_eq:
  assumes v: "tl_ok N v" and u: "tl_ok N u" and ix: "i0 < N" "i1 < 64" and b: "bit (tl_l1 v ! i0) i1"
  shows "union_word v i0 i1 (r, u) = Some (r \<or> (cell u i0 i1 OR cell v i0 i1) \<noteq> cell u i0 i1, put i0 i1 (cell u i0 i1 OR cell v i0 i1) u)"
proof -
  have len: "i0 < length (tl_l1 u)" "i0 < length (tl_l2 u)" using u ix by (simp_all add: tl_ok_def)
  have "l2_at i0 i1 v = cell v i0 i1" unfolding cell_def if_P [OF b] ..
  moreover have "cell v i0 i1 \<noteq> 0" using b cell_iff [OF v ix] by blast
  ultimately have vc: "l2_at i0 i1 v = cell v i0 i1" "cell v i0 i1 \<noteq> 0" .
  have ne: "cell u i0 i1 OR cell v i0 i1 \<noteq> 0" using vc(2) by (simp only: or_eq_0_iff) simp
  show ?thesis
  proof (cases "bit (tl_l1 u ! i0) i1")
    case True
    have s: "set_l1 i0 (set_bit i1 (tl_l1 u ! i0)) u = u"
      using True len ix(2) set_bit_same [of i1 "tl_l1 u ! i0"] by (intro set_same) auto
    have "l2_at i0 i1 u = cell u i0 i1" using True by (simp add: cell_def)
    then show ?thesis
      using True ix ne put_fold(1) [OF u ix ne]
      by (simp add: union_word_def bb_setBit_eq s vc bb_setUnion_def Let_def)
  next
    case False
    have l2: "l2_at i0 i1 (set_l2 i0 i1 0 (set_l1 i0 x u)) = 0" for x
      using len u ix by (simp add: l2_at_def set_l2_def set_l1_def tl_ok_def)
    have tw: "set_l2 i0 i1 w (set_l2 i0 i1 0 (set_l1 i0 x u)) = set_l2 i0 i1 w (set_l1 i0 x u)" for w x
      using len by (intro set_twice) (simp add: set_l1_def)
    have "cell u i0 i1 = 0" using False by (simp add: cell_def)
    then show ?thesis
      using False ix vc(2) put_fold(1) [OF u ix vc(2)]
      by (simp add: union_word_def bb_setBit_eq bb_clear_def l2 tw vc(1) bb_setUnion_def Let_def)
  qed
qed

lemma subtract_word_eq:
  assumes v: "tl_ok N v" and u: "tl_ok N u" and ix: "i0 < N" "i1 < 64"
    and b: "bit (tl_l1 v ! i0) i1" "bit (tl_l1 u ! i0) i1"
  shows "subtract_word v i0 i1 (r, u) =
      Some (r \<or> (cell u i0 i1 AND NOT (cell v i0 i1)) \<noteq> cell u i0 i1, put i0 i1 (cell u i0 i1 AND NOT (cell v i0 i1)) u)"
    "intersect_word v i0 i1 (r, u) =
      Some (r \<or> (cell u i0 i1 AND cell v i0 i1) \<noteq> cell u i0 i1, put i0 i1 (cell u i0 i1 AND cell v i0 i1) u)"
proof -
  have c: "l2_at i0 i1 v = cell v i0 i1" "l2_at i0 i1 u = cell u i0 i1" using b by (simp_all add: cell_def)
  have l1: "tl_l1 (set_l2 i0 i1 w u) = tl_l1 u" for w by (simp add: set_l2_def)
  note f = put_fold(2) [OF u ix b(2), symmetric]
  show "subtract_word v i0 i1 (r, u) =
      Some (r \<or> (cell u i0 i1 AND NOT (cell v i0 i1)) \<noteq> cell u i0 i1, put i0 i1 (cell u i0 i1 AND NOT (cell v i0 i1)) u)"
    using ix by (simp add: subtract_word_def c bb_setDifference_def Let_def bb_empty_def bb_clearBit_eq l1 f)
  show "intersect_word v i0 i1 (r, u) =
      Some (r \<or> (cell u i0 i1 AND cell v i0 i1) \<noteq> cell u i0 i1, put i0 i1 (cell u i0 i1 AND cell v i0 i1) u)"
    using ix by (simp add: intersect_word_def c bb_setIntersection_def Let_def bb_empty_def bb_clearBit_eq l1 f)
qed

lemma cells_bits:
  assumes "tl_ok N a" "tl_ok N b" "tl_ok N c"
    and "\<forall>j0 < N. \<forall>j1 < 64. cell c j0 j1 = h (cell a j0 j1) (cell b j0 j1)"
    and h: "\<And>x y n. bit (h x y) n \<longleftrightarrow> P (bit x n) (bit y n)" "\<not> P False False"
  shows "n \<in> tl_bits c \<longleftrightarrow> P (n \<in> tl_bits a) (n \<in> tl_bits b)"
proof (cases "n < 4096 * N")
  case True
  then show ?thesis using idx_parts(1,2) [OF True] assms(4) True
    by (simp add: tl_bits_iff [OF assms(1)] tl_bits_iff [OF assms(2)] tl_bits_iff [OF assms(3)] h(1))
next
  case False
  then show ?thesis using h(2)
    by (simp add: tl_bits_iff [OF assms(1)] tl_bits_iff [OF assms(2)] tl_bits_iff [OF assms(3)])
qed

lemma cells_differ:
  assumes "tl_ok N a" "tl_ok N c"
  shows "(\<exists>j0 < N. \<exists>j1 < 64. cell c j0 j1 \<noteq> cell a j0 j1) \<longleftrightarrow> tl_bits c \<noteq> tl_bits a"
proof
  assume "\<exists>j0 < N. \<exists>j1 < 64. cell c j0 j1 \<noteq> cell a j0 j1"
  then obtain j0 j1 where j: "j0 < N" "j1 < 64" "cell c j0 j1 \<noteq> cell a j0 j1" by blast
  then obtain i2 where "i2 < 64" "bit (cell c j0 j1) i2 \<noteq> bit (cell a j0 j1) i2" by (auto simp: bit_eq_iff)
  then show "tl_bits c \<noteq> tl_bits a" using tl_bits_join [OF assms(1) j(1,2)] tl_bits_join [OF assms(2) j(1,2)] by blast
next
  assume "tl_bits c \<noteq> tl_bits a"
  then obtain n where "(n \<in> tl_bits c) \<noteq> (n \<in> tl_bits a)" by blast
  then have "n < 4096 * N" "cell c (n div 4096) (n div 64 mod 64) \<noteq> cell a (n div 4096) (n div 64 mod 64)"
    by (auto simp: tl_bits_iff [OF assms(1)] tl_bits_iff [OF assms(2)])
  then show "\<exists>j0 < N. \<exists>j1 < 64. cell c j0 j1 \<noteq> cell a j0 j1" using idx_parts(1,2) [of n N] by blast
qed

lemma cell_zero: "tl_ok N v \<Longrightarrow> i0 < N \<Longrightarrow> i1 < 64 \<Longrightarrow> \<not> bit (tl_l1 v ! i0) i1 \<Longrightarrow> cell v i0 i1 = 0"
  by (simp add: cell_def)

text \<open>The three loops compute a function of the words; the flag says whether any word changed.\<close>

lemma tl_setUnion_cells:
  assumes a: "tl_ok N a" and v: "tl_ok N v"
  shows "\<exists>c. tl_setUnion a v = Some (\<exists>j0 < N. \<exists>j1 < 64. (cell a j0 j1 OR cell v j0 j1) \<noteq> cell a j0 j1, c) \<and> tl_ok N c \<and>
    (\<forall>j0 < N. \<forall>j1 < 64. cell c j0 j1 = (cell a j0 j1 OR cell v j0 j1))"
proof -
  have len: "length (tl_l1 a) = N" using a by (simp add: tl_ok_def)
  show ?thesis unfolding tl_setUnion_def len
  proof (rule rows_loop [OF a])
    fix i0 u and r :: bool assume i0: "i0 < N" and u: "tl_ok N u" "\<And>j1. j1 < 64 \<Longrightarrow> cell u i0 j1 = cell a i0 j1"
    have z: "cell v i0 j1 = 0" if "\<not> bit (tl_l1 v ! i0) j1" for j1 using that by (simp add: cell_def)
    obtain u' where u': "bb_for (union_word v i0) (tl_l1 v ! i0) (r, u) = Some (r \<or> (\<exists>i1. bit (tl_l1 v ! i0) i1 \<and>
        (cell u i0 i1 OR cell v i0 i1) \<noteq> cell u i0 i1), u')" "tl_ok N u'"
      "\<forall>j0 j1. j1 < 64 \<longrightarrow> cell u' j0 j1 = (if j0 = i0 \<and> bit (tl_l1 v ! i0) j1 then cell u i0 j1 OR cell v i0 j1 else cell u j0 j1)"
      using row_loop [OF u(1) i0, of "tl_l1 v ! i0" "union_word v i0" "\<lambda>i1. cell u i0 i1 OR cell v i0 i1" r]
        union_word_eq [OF v _ i0] by fastforce
    have "(\<exists>i1. bit (tl_l1 v ! i0) i1 \<and> (cell u i0 i1 OR cell v i0 i1) \<noteq> cell u i0 i1) \<longleftrightarrow>
        (\<exists>j1 < 64. (cell a i0 j1 OR cell v i0 j1) \<noteq> cell a i0 j1)"
      using z u(2) bit64 by (metis or.right_neutral)
    moreover have "\<forall>j0 j1. j1 < 64 \<longrightarrow> cell u' j0 j1 = (if j0 = i0 then cell a i0 j1 OR cell v i0 j1 else cell u j0 j1)"
      using u'(3) u(2) z by simp
    ultimately show "\<exists>u'. bb_for (union_word v i0) (tl_l1 v ! i0) (r, u) =
        Some (r \<or> (\<exists>j1 < 64. (cell a i0 j1 OR cell v i0 j1) \<noteq> cell a i0 j1), u') \<and> tl_ok N u' \<and>
        (\<forall>j0 j1. j1 < 64 \<longrightarrow> cell u' j0 j1 = (if j0 = i0 then cell a i0 j1 OR cell v i0 j1 else cell u j0 j1))"
      using u'(1,2) by simp
  qed
qed

lemma tl_setDifference_cells:
  assumes a: "tl_ok N a" and v: "tl_ok N v"
  shows "\<exists>c. tl_setDifference a v = Some (\<exists>j0 < N. \<exists>j1 < 64. (cell a j0 j1 AND NOT (cell v j0 j1)) \<noteq> cell a j0 j1, c) \<and> tl_ok N c \<and>
    (\<forall>j0 < N. \<forall>j1 < 64. cell c j0 j1 = (cell a j0 j1 AND NOT (cell v j0 j1)))"
proof -
  have len: "length (tl_l1 a) = N" using a by (simp add: tl_ok_def)
  show ?thesis unfolding tl_setDifference_def len
  proof (rule rows_loop [OF a])
    fix i0 u and r :: bool assume i0: "i0 < N" and u: "tl_ok N u" "\<And>j1. j1 < 64 \<Longrightarrow> cell u i0 j1 = cell a i0 j1"
    let ?t = "snd (bb_setIntersection (tl_l1 (snd (r, u)) ! i0) (tl_l1 v ! i0))"
    have t: "bit ?t j1 \<longleftrightarrow> bit (tl_l1 u ! i0) j1 \<and> bit (tl_l1 v ! i0) j1" for j1
      by (auto simp: bb_setIntersection_def Let_def bit_simps)
    have z: "(cell u i0 j1 AND NOT (cell v i0 j1)) = cell u i0 j1" if "\<not> bit ?t j1" for j1
      using that unfolding t by (auto simp: cell_def)
    obtain u' where u': "bb_for (subtract_word v i0) ?t (r, u) = Some (r \<or> (\<exists>i1. bit ?t i1 \<and>
        (cell u i0 i1 AND NOT (cell v i0 i1)) \<noteq> cell u i0 i1), u')" "tl_ok N u'"
      "\<forall>j0 j1. j1 < 64 \<longrightarrow> cell u' j0 j1 = (if j0 = i0 \<and> bit ?t j1 then cell u i0 j1 AND NOT (cell v i0 j1) else cell u j0 j1)"
    proof -
      have "subtract_word v i0 i1 (q, w) = Some (q \<or> (cell u i0 i1 AND NOT (cell v i0 i1)) \<noteq> cell u i0 i1, put i0 i1 (cell u i0 i1 AND NOT (cell v i0 i1)) w)"
        if "bit ?t i1" "i1 < 64" "tl_ok N w" "cell w i0 i1 = cell u i0 i1" for i1 q w
      proof -
        have "bit (tl_l1 v ! i0) i1" "bit (tl_l1 w ! i0) i1"
          using that t cell_iff [OF u(1) i0 that(2)] cell_iff [OF that(3) i0 that(2)] by simp_all
        then show ?thesis using subtract_word_eq(1) [OF v that(3) i0 that(2)] that(4) by simp
      qed
      then show ?thesis using row_loop [OF u(1) i0, of ?t "subtract_word v i0" "\<lambda>i1. cell u i0 i1 AND NOT (cell v i0 i1)" r] that by blast
    qed
    have "(\<exists>i1. bit ?t i1 \<and> (cell u i0 i1 AND NOT (cell v i0 i1)) \<noteq> cell u i0 i1) \<longleftrightarrow>
        (\<exists>j1 < 64. (cell a i0 j1 AND NOT (cell v i0 j1)) \<noteq> cell a i0 j1)"
      using z u(2) bit64 by metis
    moreover have "\<forall>j0 j1. j1 < 64 \<longrightarrow> cell u' j0 j1 = (if j0 = i0 then cell a i0 j1 AND NOT (cell v i0 j1) else cell u j0 j1)"
      using u'(3) u(2) z by metis
    ultimately show "\<exists>u'. bb_for (subtract_word v i0) ?t (r, u) =
        Some (r \<or> (\<exists>j1 < 64. (cell a i0 j1 AND NOT (cell v i0 j1)) \<noteq> cell a i0 j1), u') \<and> tl_ok N u' \<and>
        (\<forall>j0 j1. j1 < 64 \<longrightarrow> cell u' j0 j1 = (if j0 = i0 then cell a i0 j1 AND NOT (cell v i0 j1) else cell u j0 j1))"
      using u'(1,2) by simp
  qed
qed

lemma tl_setIntersection_cells:
  assumes a: "tl_ok N a" and v: "tl_ok N v"
  shows "\<exists>c. tl_setIntersection a v = Some (\<exists>j0 < N. \<exists>j1 < 64. (cell a j0 j1 AND cell v j0 j1) \<noteq> cell a j0 j1, c) \<and> tl_ok N c \<and>
    (\<forall>j0 < N. \<forall>j1 < 64. cell c j0 j1 = (cell a j0 j1 AND cell v j0 j1))"
proof -
  have len: "length (tl_l1 a) = N" using a by (simp add: tl_ok_def)
  show ?thesis unfolding tl_setIntersection_def len
  proof (rule rows_loop [OF a])
    fix i0 u and r :: bool assume i0: "i0 < N" and u: "tl_ok N u" "\<And>j1. j1 < 64 \<Longrightarrow> cell u i0 j1 = cell a i0 j1"
    let ?b = "tl_l1 u ! i0 AND tl_l1 v ! i0" and ?rm = "(tl_l1 u ! i0 AND tl_l1 v ! i0) \<noteq> tl_l1 u ! i0"
    let ?w = "set_l1 i0 ?b u"
    have lu: "i0 < length (tl_l1 u)" using u(1) i0 by (simp add: tl_ok_def)
    have b: "bit ?b j1 \<longleftrightarrow> bit (tl_l1 u ! i0) j1 \<and> bit (tl_l1 v ! i0) j1" for j1 by (simp add: bit_simps)
    have w1: "tl_l1 ?w ! j0 = (if j0 = i0 then ?b else tl_l1 u ! j0)" "l2_at j0 j1 ?w = l2_at j0 j1 u" for j0 j1
      using lu by (auto simp: set_l1_def l2_at_def)
    have cw: "cell ?w j0 j1 = (if j0 = i0 \<and> \<not> bit (tl_l1 v ! i0) j1 then 0 else cell u j0 j1)" for j0 j1
      unfolding cell_def w1 by (auto simp: bit_simps)
    have w: "tl_ok N ?w"
    proof -
      have "bit (tl_l1 ?w ! j0) j1 \<longrightarrow> bit (tl_l1 u ! j0) j1" for j0 j1 unfolding w1 by (simp add: bit_simps)
      then show ?thesis using u(1) unfolding tl_ok_def by (auto simp: w1(2)) (simp_all add: set_l1_def)
    qed
    let ?q = "r \<or> ?rm"
    have loop: "\<exists>u'. bb_for (intersect_word v i0) ?b (?q, ?w) = Some (?q \<or> (\<exists>i1. bit ?b i1 \<and>
        (cell u i0 i1 AND cell v i0 i1) \<noteq> cell ?w i0 i1), u') \<and> tl_ok N u' \<and>
      (\<forall>j0 j1. j1 < 64 \<longrightarrow> cell u' j0 j1 = (if j0 = i0 \<and> bit ?b j1 then cell u i0 j1 AND cell v i0 j1 else cell ?w j0 j1))"
    proof (rule row_loop [OF w i0])
      fix i1 q x assume x: "bit ?b i1" "i1 < 64" "tl_ok N x" "cell x i0 i1 = cell ?w i0 i1"
      have cu: "cell ?w i0 i1 = cell u i0 i1" using x(1) unfolding cw b by simp
      have "bit (tl_l1 v ! i0) i1" "bit (tl_l1 x ! i0) i1"
        using x cu b cell_iff [OF u(1) i0 x(2)] cell_iff [OF x(3) i0 x(2)] by simp_all
      then show "intersect_word v i0 i1 (q, x) = Some (q \<or> (cell u i0 i1 AND cell v i0 i1) \<noteq> cell ?w i0 i1,
          put i0 i1 (cell u i0 i1 AND cell v i0 i1) x)"
        using subtract_word_eq(2) [OF v x(3) i0 x(2)] x(4) cu by simp
    qed
    have run: "(\<lambda>i0 (res, this). let (removed, b) = bb_setIntersection (tl_l1 this ! i0) (tl_l1 v ! i0);
            this = set_l1 i0 b this; res = (res \<or> removed)
        in if \<not> bb_empty b then bb_for (intersect_word v i0) b (res, this) else Some (res, this)) i0 (r, u)
      = bb_for (intersect_word v i0) ?b (?q, ?w)"
      by (simp add: bb_setIntersection_def Let_def bb_empty_def bb_for.simps [of _ 0])
    obtain u' where u': "bb_for (intersect_word v i0) ?b (?q, ?w) = Some (?q \<or> (\<exists>i1. bit ?b i1 \<and>
        (cell u i0 i1 AND cell v i0 i1) \<noteq> cell ?w i0 i1), u')" "tl_ok N u'"
      "\<forall>j0 j1. j1 < 64 \<longrightarrow> cell u' j0 j1 = (if j0 = i0 \<and> bit ?b j1 then cell u i0 j1 AND cell v i0 j1 else cell ?w j0 j1)"
      using loop by blast
    have cell': "cell u' j0 j1 = (if j0 = i0 then cell a i0 j1 AND cell v i0 j1 else cell u j0 j1)" if "j1 < 64" for j0 j1
    proof (cases "j0 = i0 \<and> bit ?b j1")
      case True
      then show ?thesis using u'(3) u(2) that by simp
    next
      case False
      have "cell u' j0 j1 = (if j0 = i0 \<and> bit ?b j1 then cell u i0 j1 AND cell v i0 j1 else cell ?w j0 j1)"
        using u'(3) that by blast
      then have "cell u' j0 j1 = cell ?w j0 j1" unfolding if_not_P [OF False] .
      moreover have "cell ?w i0 j1 = 0 \<and> (cell a i0 j1 = 0 \<or> cell v i0 j1 = 0)" if e: "j0 = i0"
      proof (cases "bit (tl_l1 v ! i0) j1")
        case True
        then have "\<not> bit (tl_l1 u ! i0) j1" using False e by (simp only: b) simp
        then have "cell u i0 j1 = 0" by (simp add: cell_def)
        then show ?thesis using True u(2) [OF \<open>j1 < 64\<close>] by (simp add: cw)
      qed (simp add: cw, simp add: cell_def)
      moreover have "cell ?w j0 j1 = cell u j0 j1" if "j0 \<noteq> i0" using that by (simp add: cw)
      ultimately show ?thesis by (cases "j0 = i0") auto
    qed
    have flag: "(?rm \<or> (\<exists>i1. bit ?b i1 \<and> (cell u i0 i1 AND cell v i0 i1) \<noteq> cell ?w i0 i1)) \<longleftrightarrow>
        (\<exists>j1 < 64. (cell a i0 j1 AND cell v i0 j1) \<noteq> cell a i0 j1)" (is "?L \<longleftrightarrow> ?R")
    proof
      assume ?L
      then consider "?rm" | i1 where "bit ?b i1" "(cell u i0 i1 AND cell v i0 i1) \<noteq> cell ?w i0 i1" by blast
      then show ?R
      proof cases
        case 1
        then obtain j1 where "j1 < 64" "bit (tl_l1 u ! i0) j1" "\<not> bit (tl_l1 v ! i0) j1" by (auto simp: bit_eq_iff bit_simps)
        then have "cell v i0 j1 = 0" "cell a i0 j1 \<noteq> 0" "j1 < 64"
          using cell_iff [OF u(1) i0] u(2) by (simp_all add: cell_def [of v])
        then show ?R by (intro exI [of _ j1]) simp
      next
        case (2 i1)
        then have "i1 < 64" using bit64 by blast
        then show ?R using 2 u(2) unfolding cw b by auto
      qed
    next
      assume ?R
      then obtain j1 where j1: "j1 < 64" "(cell a i0 j1 AND cell v i0 j1) \<noteq> cell a i0 j1" by blast
      then have au: "bit (tl_l1 u ! i0) j1" using cell_iff [OF u(1) i0 j1(1)] u(2) by auto
      show ?L
      proof (cases "bit (tl_l1 v ! i0) j1")
        case True
        then show ?thesis using j1 au u(2) by (intro disjI2 exI [of _ j1]) (simp add: cw b bit_simps)
      next
        case False
        then have "?rm" using au by (metis b)
        then show ?thesis by blast
      qed
    qed
    show "\<exists>u'. (\<lambda>i0 (res, this). let (removed, b) = bb_setIntersection (tl_l1 this ! i0) (tl_l1 v ! i0);
            this = set_l1 i0 b this; res = (res \<or> removed)
        in if \<not> bb_empty b then bb_for (intersect_word v i0) b (res, this) else Some (res, this)) i0 (r, u) =
        Some (r \<or> (\<exists>j1 < 64. (cell a i0 j1 AND cell v i0 j1) \<noteq> cell a i0 j1), u') \<and> tl_ok N u' \<and>
        (\<forall>j0 j1. j1 < 64 \<longrightarrow> cell u' j0 j1 = (if j0 = i0 then cell a i0 j1 AND cell v i0 j1 else cell u j0 j1))"
      unfolding run u'(1) flag [symmetric] using u'(2) cell' by blast
  qed
qed

lemma tl_intersects_eq:
  assumes a: "tl_ok N a" and v: "tl_ok N v"
  shows "tl_intersectsWith a v = Some (tl_bits a \<inter> tl_bits v \<noteq> {})"
proof -
  have len: "length (tl_l1 a) = N" using a by (simp add: tl_ok_def)
  let ?hit = "\<lambda>i0 i1. cell a i0 i1 AND cell v i0 i1 \<noteq> 0"
  let ?f = "\<lambda>i0. bb_for (\<lambda>i1 found. if found then Some True
        else do { has \<leftarrow> bb_getBit i1 (tl_l1 v ! i0);
                  Some (has \<and> bb_intersectsWith (l2_at i0 i1 a) (l2_at i0 i1 v)) })
         (snd (bb_setIntersection (tl_l1 a ! i0) (tl_l1 v ! i0)))"
  have row: "?f i0 found = Some (found \<or> (\<exists>i1 < 64. ?hit i0 i1))" if "i0 < N" for i0 found
  proof -
    let ?t = "snd (bb_setIntersection (tl_l1 a ! i0) (tl_l1 v ! i0))"
    have t: "bit ?t i1 \<longleftrightarrow> bit (tl_l1 a ! i0) i1 \<and> bit (tl_l1 v ! i0) i1" for i1
      by (auto simp: bb_setIntersection_def Let_def bit_simps)
    let ?P = "\<lambda>D s. s = (found \<or> (\<exists>i1 \<in> D. ?hit i0 i1))"
    have "\<exists>s'. ?f i0 found = Some s' \<and> ?P {i. bit ?t i} s'"
    proof (rule bb_for_rule [where P = ?P])
      show "?P {} found" by simp
      fix D i s assume i: "bit ?t i" "i \<notin> D" "?P D s"
      have "i < 64" using i(1) by (rule bit64)
      then show "\<exists>s'. (if s then Some True else do { has \<leftarrow> bb_getBit i (tl_l1 v ! i0);
                  Some (has \<and> bb_intersectsWith (l2_at i0 i a) (l2_at i0 i v)) }) = Some s' \<and> ?P (insert i D) s'"
        using i(1,3) unfolding t by (auto simp: bb_getBit_eq bb_intersectsWith_def cell_def)
    qed
    moreover have "(\<exists>i1 \<in> {i. bit ?t i}. ?hit i0 i1) \<longleftrightarrow> (\<exists>i1 < 64. ?hit i0 i1)"
      unfolding mem_Collect_eq t Bex_def by (auto simp: cell_def dest: bit64 split: if_splits)
    ultimately show ?thesis by auto
  qed
  have "\<exists>s'. for_each ?f [0..<N] False = Some s' \<and> s' = (\<exists>i0 < N. \<exists>i1 < 64. ?hit i0 i1)"
    by (rule for_each_rule [where P = "\<lambda>n s. s = (\<exists>i0 < n. \<exists>i1 < 64. ?hit i0 i1)"]) (auto simp: row less_Suc_eq)
  moreover have "(\<exists>i0 < N. \<exists>i1 < 64. ?hit i0 i1) \<longleftrightarrow> tl_bits a \<inter> tl_bits v \<noteq> {}"
  proof
    assume "\<exists>i0 < N. \<exists>i1 < 64. ?hit i0 i1"
    then obtain i0 i1 i2 where "i0 < N" "i1 < 64" "bit (cell a i0 i1) i2" "bit (cell v i0 i1) i2"
      by (auto simp: bit_eq_iff bit_simps)
    then show "tl_bits a \<inter> tl_bits v \<noteq> {}"
      using tl_bits_join [OF a, of i0 i1 i2] tl_bits_join [OF v, of i0 i1 i2] bit64 by blast
  next
    assume "tl_bits a \<inter> tl_bits v \<noteq> {}"
    then obtain n where n: "n < 4096 * N" "bit (cell a (n div 4096) (n div 64 mod 64)) (n mod 64)"
        "bit (cell v (n div 4096) (n div 64 mod 64)) (n mod 64)"
      by (auto simp: tl_bits_iff [OF a] tl_bits_iff [OF v])
    then have "?hit (n div 4096) (n div 64 mod 64)" by (auto simp: bit_eq_iff bit_simps intro!: exI [of _ "n mod 64"])
    then show "\<exists>i0 < N. \<exists>i1 < 64. ?hit i0 i1" using idx_parts(1,2) [OF n(1)] by blast
  qed
  ultimately show ?thesis by (simp add: tl_intersectsWith_def len)
qed

lemma tl_clear_ok:
  assumes "tl_ok N v"
  shows "tl_ok N (tl_clear v)" "tl_bits (tl_clear v) = {}"
proof -
  have l1: "tl_l1 (tl_clear v) ! i0 = 0" if "i0 < N" for i0
    using that assms by (simp add: tl_clear_def tl_ok_def bb_clear_def)
  show ok: "tl_ok N (tl_clear v)" using assms l1 unfolding tl_ok_def by (simp add: tl_clear_def)
  show "tl_bits (tl_clear v) = {}" using idx_parts(1) l1 by (auto simp: tl_bits_iff [OF ok] cell_def)
qed

lemma tl_setAll_ok:
  assumes "tl_ok N v"
  shows "tl_ok N (tl_setAll v)" "tl_bits (tl_setAll v) = {..<4096 * N}"
proof -
  have l1: "tl_l1 (tl_setAll v) ! i0 = NOT 0" "i1 < 64 \<Longrightarrow> l2_at i0 i1 (tl_setAll v) = NOT 0" if "i0 < N" for i0 i1
    using that assms by (simp_all add: tl_setAll_def tl_ok_def bb_setAll_def l2_at_def)
  show ok: "tl_ok N (tl_setAll v)" unfolding tl_ok_def
  proof (intro conjI allI impI)
    show "length (tl_l1 (tl_setAll v)) = N" "length (tl_l2 (tl_setAll v)) = N" using assms by (simp_all add: tl_ok_def tl_setAll_def)
    show "length (tl_l2 (tl_setAll v) ! i0) = 64" if "i0 < N" for i0 using assms that by (simp add: tl_ok_def tl_setAll_def)
    show "l2_at i0 i1 (tl_setAll v) \<noteq> 0" if "i0 < N" "i1 < 64" for i0 i1 using l1(2) [OF that] by simp
  qed
  have "n \<in> tl_bits (tl_setAll v) \<longleftrightarrow> n < 4096 * N" for n
    using idx_parts(1,2) [of n N] l1 by (auto simp: tl_bits_iff [OF ok] cell_def bit_simps)
  then show "tl_bits (tl_setAll v) = {..<4096 * N}" by auto
qed

lemma tl_bit_ops:
  assumes ok: "tl_ok N v" and n: "n < 4096 * N"
  shows "\<exists>v'. tl_setBit n v = Some (n \<notin> tl_bits v, v') \<and> tl_ok N v' \<and> tl_bits v' = insert n (tl_bits v)"
    "\<exists>v'. tl_clearBit n v = Some (n \<in> tl_bits v, v') \<and> tl_ok N v' \<and> tl_bits v' = tl_bits v - {n}"
proof -
  note b = tl_bits_iff [OF ok, of n]
  show "\<exists>v'. tl_setBit n v = Some (n \<notin> tl_bits v, v') \<and> tl_ok N v' \<and> tl_bits v' = insert n (tl_bits v)"
    using tl_setBit_eq [OF ok n] put_bit [OF ok n, of True] n by (simp add: b)
  show "\<exists>v'. tl_clearBit n v = Some (n \<in> tl_bits v, v') \<and> tl_ok N v' \<and> tl_bits v' = tl_bits v - {n}"
  proof (cases "bit (tl_l1 v ! (n div 4096)) (n div 64 mod 64)")
    case True
    then show ?thesis using tl_clearBit_eq [OF ok n] put_bit [OF ok n, of False] n by (simp add: b)
  next
    case False
    then have "n \<notin> tl_bits v" by (simp add: b cell_def)
    then show ?thesis using False tl_clearBit_eq [OF ok n] ok n by (simp add: b)
  qed
qed

interpretation tl: bit_vector tl_bits "tl_ok N" "4096 * N" tl_empty tl_clear tl_setBit tl_clearBit tl_getBit
  tl_getAndClearFirstOne tl_setUnion tl_setDifference tl_intersectsWith
  for N :: nat
proof unfold_locales
  fix v w :: two_level and i :: nat
  assume v: "tl_ok N v"
  show "tl_bits v \<subseteq> {..<4096 * N}" using v by (auto simp: tl_bits_iff)
  show "tl_empty v \<longleftrightarrow> tl_bits v = {}" by (rule tl_empty_iff [OF v])
  show "tl_ok N (tl_clear v) \<and> tl_bits (tl_clear v) = {}" using tl_clear_ok [OF v] by simp
  show "\<exists>v'. tl_setBit i v = Some (i \<notin> tl_bits v, v') \<and> tl_ok N v' \<and> tl_bits v' = insert i (tl_bits v)" if "i < 4096 * N"
    by (rule tl_bit_ops(1) [OF v that])
  show "\<exists>v'. tl_clearBit i v = Some (i \<in> tl_bits v, v') \<and> tl_ok N v' \<and> tl_bits v' = tl_bits v - {i}" if "i < 4096 * N"
    by (rule tl_bit_ops(2) [OF v that])
  show "tl_getBit i v = Some (i \<in> tl_bits v)" if "i < 4096 * N" by (rule tl_getBit_eq [OF v that])
  show "\<exists>v'. tl_getAndClearFirstOne v = Some (Min (tl_bits v), v') \<and> tl_ok N v' \<and> tl_bits v' = tl_bits v - {Min (tl_bits v)}"
    if "tl_bits v \<noteq> {}" by (rule tl_first_eq [OF v that])
  assume w: "tl_ok N w"
  show "\<exists>v'. tl_setUnion v w = Some (\<not> tl_bits w \<subseteq> tl_bits v, v') \<and> tl_ok N v' \<and> tl_bits v' = tl_bits v \<union> tl_bits w"
  proof -
    obtain c where c: "tl_setUnion v w = Some (\<exists>j0 < N. \<exists>j1 < 64. (cell v j0 j1 OR cell w j0 j1) \<noteq> cell v j0 j1, c)"
        "tl_ok N c" "\<forall>j0 < N. \<forall>j1 < 64. cell c j0 j1 = (cell v j0 j1 OR cell w j0 j1)"
      using tl_setUnion_cells [OF v w] by blast
    have "n \<in> tl_bits c \<longleftrightarrow> n \<in> tl_bits v \<or> n \<in> tl_bits w" for n
      using cells_bits [OF v w c(2), of "\<lambda>x y. x OR y" "\<lambda>p q. p \<or> q"] c(3) by (simp add: bit_simps)
    then have u: "tl_bits c = tl_bits v \<union> tl_bits w" by blast
    have "(\<exists>j0 < N. \<exists>j1 < 64. (cell v j0 j1 OR cell w j0 j1) \<noteq> cell v j0 j1) \<longleftrightarrow> tl_bits c \<noteq> tl_bits v"
      unfolding cells_differ [OF v c(2), symmetric] using c(3) by metis
    then show ?thesis using c(1,2) u by (intro exI [of _ c]) auto
  qed
  show "\<exists>v'. tl_setDifference v w = Some (tl_bits v \<inter> tl_bits w \<noteq> {}, v') \<and> tl_ok N v' \<and> tl_bits v' = tl_bits v - tl_bits w"
  proof -
    obtain c where c: "tl_setDifference v w = Some (\<exists>j0 < N. \<exists>j1 < 64. (cell v j0 j1 AND NOT (cell w j0 j1)) \<noteq> cell v j0 j1, c)"
        "tl_ok N c" "\<forall>j0 < N. \<forall>j1 < 64. cell c j0 j1 = (cell v j0 j1 AND NOT (cell w j0 j1))"
      using tl_setDifference_cells [OF v w] by blast
    have "n \<in> tl_bits c \<longleftrightarrow> n \<in> tl_bits v \<and> n \<notin> tl_bits w" for n
      using cells_bits [OF v w c(2), of "\<lambda>x y. x AND NOT y" "\<lambda>p q. p \<and> \<not> q"] c(3)
      by (auto simp: bit_simps dest: bit64)
    then have u: "tl_bits c = tl_bits v - tl_bits w" by blast
    have "(\<exists>j0 < N. \<exists>j1 < 64. (cell v j0 j1 AND NOT (cell w j0 j1)) \<noteq> cell v j0 j1) \<longleftrightarrow> tl_bits c \<noteq> tl_bits v"
      unfolding cells_differ [OF v c(2), symmetric] using c(3) by metis
    then show ?thesis using c(1,2) u by (intro exI [of _ c]) auto
  qed
  show "tl_intersectsWith v w = Some (tl_bits v \<inter> tl_bits w \<noteq> {})" by (rule tl_intersects_eq [OF v w])
qed

section \<open>Iterators\<close>

text \<open>What an iterator still has to give: the rest of the word, of the row, and the later rows.\<close>

definition it_rest :: "tl_iter \<Rightarrow> nat set" where
  "it_rest it =
     {n \<in> tl_bits (it_bv it).
        (n div 4096 = it_i0 it \<and> n div 64 mod 64 = it_i1 it \<and> bit (it_it2 it) (n mod 64)) \<or>
        (n div 4096 = it_i0 it \<and> bit (it_it1 it) (n div 64 mod 64)) \<or>
        (if it_it1 it = 0 \<and> it_it2 it = 0 then it_i0 it \<le> n div 4096 else it_i0 it < n div 4096)}"

definition it_ok :: "nat \<Rightarrow> tl_iter \<Rightarrow> bool" where
  "it_ok N it \<longleftrightarrow> tl_ok N (it_bv it) \<and> (it_it1 it \<noteq> 0 \<or> it_it2 it \<noteq> 0 \<longrightarrow> it_i0 it < N) \<and>
     (\<forall>j. bit (it_it1 it) j \<longrightarrow> bit (tl_l1 (it_bv it) ! it_i0 it) j) \<and>
     (it_it2 it \<noteq> 0 \<longrightarrow> it_i1 it < 64 \<and> \<not> bit (it_it1 it) (it_i1 it) \<and>
        (\<forall>j. bit (it_it2 it) j \<longrightarrow> bit (cell (it_bv it) (it_i0 it) (it_i1 it)) j))"

lemma row_nonzero:
  assumes "tl_ok N v" "i0 < N"
  shows "tl_l1 v ! i0 \<noteq> 0 \<longleftrightarrow> (\<exists>n \<in> tl_bits v. n div 4096 = i0)"
proof
  assume "tl_l1 v ! i0 \<noteq> 0"
  then obtain i1 where i1: "bit (tl_l1 v ! i0) i1" "i1 < 64" by (auto simp: bit_eq_iff dest: bit64)
  then have "cell v i0 i1 \<noteq> 0" using cell_iff [OF assms i1(2)] by blast
  then obtain i2 where i2: "bit (cell v i0 i1) i2" "i2 < 64" by (auto simp: bit_eq_iff dest: bit64)
  then have "i0 * 64 * 64 + i1 * 64 + i2 \<in> tl_bits v" using tl_bits_join [OF assms i1(2) i2(2)] by blast
  then show "\<exists>n \<in> tl_bits v. n div 4096 = i0" using idx_join(1) [OF i1(2) i2(2), of i0] by blast
next
  assume "\<exists>n \<in> tl_bits v. n div 4096 = i0"
  then obtain n where "n \<in> tl_bits v" "n div 4096 = i0" by blast
  then have "bit (cell v i0 (n div 64 mod 64)) (n mod 64)" by (auto simp: tl_bits_iff [OF assms(1)])
  then show "tl_l1 v ! i0 \<noteq> 0" by (auto simp: cell_def split: if_splits)
qed

lemma it_restI:
  "n \<in> tl_bits (it_bv it) \<Longrightarrow> n div 4096 = it_i0 it \<Longrightarrow> bit (it_it1 it) (n div 64 mod 64) \<Longrightarrow> n \<in> it_rest it"
  "n \<in> tl_bits (it_bv it) \<Longrightarrow> n div 4096 = it_i0 it \<Longrightarrow> n div 64 mod 64 = it_i1 it \<Longrightarrow> bit (it_it2 it) (n mod 64) \<Longrightarrow> n \<in> it_rest it"
  by (simp_all add: it_rest_def)

lemma hasNext_iff:
  assumes "it_ok N it"
  shows "tl_hasNext it \<longleftrightarrow> it_rest it \<noteq> {}"
proof -
  let ?v = "it_bv it" and ?i0 = "it_i0 it"
  have ok: "tl_ok N ?v" using assms by (simp add: it_ok_def)
  have len: "length (tl_l1 ?v) = N" using ok by (simp add: tl_ok_def)
  have later: "list_ex (\<lambda>i. \<not> bb_empty (tl_l1 ?v ! i)) [?i0..<N] \<longleftrightarrow> (\<exists>n \<in> tl_bits ?v. ?i0 \<le> n div 4096)"
  proof
    assume "list_ex (\<lambda>i. \<not> bb_empty (tl_l1 ?v ! i)) [?i0..<N]"
    then show "\<exists>n \<in> tl_bits ?v. ?i0 \<le> n div 4096" using row_nonzero [OF ok] by (auto simp: list_ex_iff bb_empty_def)
  next
    assume "\<exists>n \<in> tl_bits ?v. ?i0 \<le> n div 4096"
    then obtain n where n: "n \<in> tl_bits ?v" "?i0 \<le> n div 4096" by blast
    then have "n div 4096 < N" using idx_parts(1) by (auto simp: tl_bits_iff [OF ok])
    then show "list_ex (\<lambda>i. \<not> bb_empty (tl_l1 ?v ! i)) [?i0..<N]" using n row_nonzero [OF ok] by (auto simp: list_ex_iff bb_empty_def)
  qed
  show ?thesis
  proof (cases "it_it1 it = 0")
    case False
    then obtain i1 where i1: "bit (it_it1 it) i1" "i1 < 64" by (auto simp: bit_eq_iff dest: bit64)
    have i0: "?i0 < N" and "bit (tl_l1 ?v ! ?i0) i1" using assms False i1 by (auto simp: it_ok_def)
    then have "cell ?v ?i0 i1 \<noteq> 0" using cell_iff [OF ok i0 i1(2)] by blast
    then obtain i2 where i2: "bit (cell ?v ?i0 i1) i2" "i2 < 64" by (auto simp: bit_eq_iff dest: bit64)
    then have "?i0 * 64 * 64 + i1 * 64 + i2 \<in> tl_bits ?v" using tl_bits_join [OF ok i0 i1(2) i2(2)] by blast
    then have "?i0 * 64 * 64 + i1 * 64 + i2 \<in> it_rest it"
      using idx_join(1,2) [OF i1(2) i2(2), of ?i0] i1(1) by (intro it_restI(1)) simp_all
    then show ?thesis using False by (auto simp: tl_hasNext_def bb_empty_def)
  next
    case True
    show ?thesis
    proof (cases "it_it2 it = 0")
      case False
      then obtain i2 where i2: "bit (it_it2 it) i2" "i2 < 64" by (auto simp: bit_eq_iff dest: bit64)
      have i: "?i0 < N" "it_i1 it < 64" "bit (cell ?v ?i0 (it_i1 it)) i2" using assms False i2 by (auto simp: it_ok_def)
      then have m: "?i0 * 64 * 64 + it_i1 it * 64 + i2 \<in> tl_bits ?v" using tl_bits_join [OF ok i(1,2) i2(2)] by blast
      have d: "(?i0 * 64 * 64 + it_i1 it * 64 + i2) div 4096 = ?i0" by (rule idx_join(1) [OF i(2) i2(2)])
      have "?i0 * 64 * 64 + it_i1 it * 64 + i2 \<in> it_rest it"
        using m idx_join(1-3) [OF i(2) i2(2), of ?i0] i2(1) by (intro it_restI(2)) (simp_all only:)
      moreover have "tl_hasNext it" unfolding tl_hasNext_def len later using m d by (metis order_refl)
      ultimately show ?thesis by blast
    next
      case False': True
      have "tl_hasNext it \<longleftrightarrow> (\<exists>n \<in> tl_bits ?v. ?i0 \<le> n div 4096)" using True unfolding tl_hasNext_def len later by (simp add: bb_empty_def)
      then show ?thesis using True False' by (auto simp: it_rest_def)
    qed
  qed
qed

lemma it_init: "tl_ok N v \<Longrightarrow> it_ok N (tl_iter_init v) \<and> it_rest (tl_iter_init v) = tl_bits v \<and> it_bv (tl_iter_init v) = v"
  by (auto simp: it_ok_def it_rest_def tl_iter_init_def bb_clear_def)

lemma next_gives:
  assumes ok: "it_ok N it" and ne: "it_rest it \<noteq> {}"
  shows "\<exists>n it'. tl_next it = Some (n, it') \<and> n \<in> it_rest it \<and> it_rest it' = it_rest it - {n} \<and> it_ok N it' \<and> it_bv it' = it_bv it"
proof -
  let ?v = "it_bv it"
  have v: "tl_ok N ?v" and len: "length (tl_l1 ?v) = N" using ok by (simp_all add: it_ok_def tl_ok_def)
  define a where "a = (if it_it1 it = 0 \<and> it_it2 it = 0
     then (case List.find (\<lambda>i. \<not> bb_empty (tl_l1 ?v ! i)) [it_i0 it..<N] of
             Some i0 \<Rightarrow> it\<lparr>it_i0 := i0, it_it1 := tl_l1 ?v ! i0\<rparr> | None \<Rightarrow> it\<lparr>it_i0 := max (it_i0 it) N\<rparr>)
     else it)"
  have a: "it_bv a = ?v \<and> it_ok N a \<and> it_rest a = it_rest it \<and> \<not> (it_it1 a = 0 \<and> it_it2 a = 0)"
  proof (cases "it_it1 it = 0 \<and> it_it2 it = 0")
    case True
    then obtain n where n: "n \<in> tl_bits ?v" "it_i0 it \<le> n div 4096" using ne by (auto simp: it_rest_def)
    then have nN: "n div 4096 < N" using idx_parts(1) by (auto simp: tl_bits_iff [OF v])
    then have "tl_l1 ?v ! (n div 4096) \<noteq> 0" using row_nonzero [OF v nN] n(1) by blast
    then have "List.find (\<lambda>i. \<not> bb_empty (tl_l1 ?v ! i)) [it_i0 it..<N] \<noteq> None"
      using n(2) nN by (auto simp: find_None_iff bb_empty_def)
    then obtain i0 where f: "List.find (\<lambda>i. \<not> bb_empty (tl_l1 ?v ! i)) [it_i0 it..<N] = Some i0" by blast
    then have i0: "it_i0 it \<le> i0" "i0 < N" "tl_l1 ?v ! i0 \<noteq> 0" "\<forall>j. it_i0 it \<le> j \<and> j < i0 \<longrightarrow> tl_l1 ?v ! j = 0"
    proof -
      obtain k where k: "k < N - it_i0 it" "i0 = it_i0 it + k" "\<not> bb_empty (tl_l1 ?v ! i0)"
          "\<forall>j < k. bb_empty (tl_l1 ?v ! (it_i0 it + j))"
        using f by (auto simp: find_Some_iff)
      show "it_i0 it \<le> i0" "i0 < N" "tl_l1 ?v ! i0 \<noteq> 0" using k by (auto simp: bb_empty_def)
      show "\<forall>j. it_i0 it \<le> j \<and> j < i0 \<longrightarrow> tl_l1 ?v ! j = 0"
      proof (intro allI impI)
        fix j assume "it_i0 it \<le> j \<and> j < i0"
        then have "j - it_i0 it < k" "j = it_i0 it + (j - it_i0 it)" using k(2) by auto
        then show "tl_l1 ?v ! j = 0" using k(4) by (metis bb_empty_def)
      qed
    qed
    have ae: "a = it\<lparr>it_i0 := i0, it_it1 := tl_l1 ?v ! i0\<rparr>" using True f by (simp add: a_def)
    have "it_rest a = {m \<in> tl_bits ?v. m div 4096 = i0 \<and> bit (tl_l1 ?v ! i0) (m div 64 mod 64) \<or> i0 < m div 4096}"
      using True i0(3) by (auto simp: ae it_rest_def)
    also have "\<dots> = {m \<in> tl_bits ?v. i0 \<le> m div 4096}"
    proof -
      have "bit (tl_l1 ?v ! (m div 4096)) (m div 64 mod 64)" if "m \<in> tl_bits ?v" for m
        using that by (auto simp: tl_bits_iff [OF v] cell_def split: if_splits)
      then show ?thesis by (auto simp: le_less)
    qed
    also have "\<dots> = {m \<in> tl_bits ?v. it_i0 it \<le> m div 4096}"
    proof -
      have "i0 \<le> m div 4096" if "m \<in> tl_bits ?v" "it_i0 it \<le> m div 4096" for m
      proof (rule leI, rule notI)
        assume l: "m div 4096 < i0"
        then have "tl_l1 ?v ! (m div 4096) \<noteq> 0" using row_nonzero [OF v, of "m div 4096"] i0(2) that(1) by auto
        then show False using i0(4) that(2) l by blast
      qed
      then show ?thesis using i0(1) by auto
    qed
    also have "\<dots> = it_rest it" using True by (auto simp: it_rest_def)
    finally show ?thesis using True i0 v by (auto simp: ae it_ok_def)
  next
    case False
    then show ?thesis using ok by (simp add: a_def if_not_P [OF False])
  qed
  define b where "b = (if it_it2 a = 0
     then (let i1 = Min (bb_bits (it_it1 a)) in a\<lparr>it_i1 := i1, it_it1 := unset_bit i1 (it_it1 a), it_it2 := l2_at (it_i0 a) i1 ?v\<rparr>)
     else a)"
  have b: "it_bv b = ?v \<and> it_i0 b = it_i0 a \<and> it_ok N b \<and> it_rest b = it_rest a \<and> it_it2 b \<noteq> 0"
  proof (cases "it_it2 a = 0")
    case True
    then have t1: "it_it1 a \<noteq> 0" using a by blast
    define i1 where "i1 = Min (bb_bits (it_it1 a))"
    have i1: "i1 < 64" "bit (it_it1 a) i1"
      using first_word [OF t1] bb_first_eq [OF t1] by (auto simp: i1_def)
    have i0: "it_i0 a < N" "bit (tl_l1 ?v ! it_i0 a) i1" using a t1 i1(2) by (auto simp: it_ok_def)
    have c: "l2_at (it_i0 a) i1 ?v = cell ?v (it_i0 a) i1" unfolding cell_def if_P [OF i0(2)] ..
    have cn: "cell ?v (it_i0 a) i1 \<noteq> 0" using i0(2) cell_iff [OF v i0(1) i1(1)] by blast
    have be: "b = a\<lparr>it_i1 := i1, it_it1 := unset_bit i1 (it_it1 a), it_it2 := cell ?v (it_i0 a) i1\<rparr>"
      using True by (simp add: b_def Let_def i1_def [symmetric] c)
    have tb: "bit (cell ?v (it_i0 a) (m div 64 mod 64)) (m mod 64)" if "m \<in> tl_bits ?v" "m div 4096 = it_i0 a" for m
      using that by (auto simp: tl_bits_iff [OF v])
    have "it_rest b = it_rest a"
      using a t1 cn i1(2) tb True unfolding it_rest_def be by (auto simp: bit_simps)
    moreover have "it_ok N b" using a i0(1) i1(1) v unfolding it_ok_def be by (auto simp: bit_simps)
    ultimately show ?thesis using a cn by (simp add: be)
  next
    case False
    then show ?thesis using a by (simp add: b_def)
  qed
  define i2 where "i2 = Min (bb_bits (it_it2 b))"
  have it2: "it_it2 b \<noteq> 0" using b by blast
  have i2: "i2 < 64" "bit (it_it2 b) i2" "bb_getAndClearFirstOne (it_it2 b) = Some (i2, unset_bit i2 (it_it2 b))"
    using first_word [OF it2] bb_first_eq [OF it2] by (auto simp: i2_def)
  have okb: "it_i0 b < N" "it_i1 b < 64" "\<not> bit (it_it1 b) (it_i1 b)"
      "\<And>j. bit (it_it2 b) j \<Longrightarrow> bit (cell ?v (it_i0 b) (it_i1 b)) j"
    using b it2 by (auto simp: it_ok_def)
  define n where "n = it_i0 b * 64 * 64 + it_i1 b * 64 + i2"
  note ix = idx_join [OF okb(2) i2(1), of "it_i0 b", folded n_def]
  have mem: "n \<in> tl_bits ?v" using tl_bits_join [OF v okb(1,2) i2(1)] okb(4) [OF i2(2)] by (simp add: n_def)
  define c where "c = b\<lparr>it_it2 := unset_bit i2 (it_it2 b)\<rparr>"
  define it' where "it' = (if it_it1 c = 0 \<and> it_it2 c = 0 then c\<lparr>it_i0 := it_i0 c + 1\<rparr> else c)"
  have nb: "n \<in> it_rest b" using mem ix(1-3) i2(2) b by (intro it_restI(2)) simp_all
  have eqn: "m = n \<longleftrightarrow> m div 4096 = it_i0 b \<and> m div 64 mod 64 = it_i1 b \<and> m mod 64 = i2" if "m \<in> tl_bits ?v" for m
  proof -
    have "m < 4096 * N" using that by (simp add: tl_bits_iff [OF v])
    then show ?thesis using idx_parts(4) [of m N] ix(1-3) by (auto simp: n_def)
  qed
  have rest: "it_rest it' = it_rest b - {n}"
  proof (rule set_eqI)
    fix m
    show "m \<in> it_rest it' \<longleftrightarrow> m \<in> it_rest b - {n}"
    proof (cases "m \<in> tl_bits ?v")
      case True
      moreover have "j = i2" if "unset_bit i2 (it_it2 b) = 0" "bit (it_it2 b) j" for j
        using that bit_unset_bit_iff [of i2 "it_it2 b" j] by auto
      ultimately show ?thesis using it2 okb(3) b eqn [OF True]
        by (auto simp: it_rest_def it'_def c_def bit_simps Suc_le_eq)
    qed (use b in \<open>auto simp: it_rest_def it'_def c_def\<close>)
  qed
  have ok': "it_ok N it'" "it_bv it' = ?v" using b okb by (auto simp: it_ok_def it'_def c_def bit_simps)
  have "tl_next it = Some (n, it')"
  proof -
    have s1: "tl_next it = do { it \<leftarrow> (if bb_empty (it_it2 a)
                      then do { (i1, rest) \<leftarrow> bb_getAndClearFirstOne (it_it1 a);
                                Some (a\<lparr>it_i1 := i1, it_it1 := rest, it_it2 := l2_at (it_i0 a) i1 (it_bv a)\<rparr>) }
                      else Some a);
              (i2, rest) \<leftarrow> bb_getAndClearFirstOne (it_it2 it);
              let it = it\<lparr>it_it2 := rest\<rparr>;
              let res = it_i0 it * bb_size * bb_size + it_i1 it * bb_size + i2;
              Some (res, if bb_empty (it_it1 it) \<and> bb_empty (it_it2 it) then it\<lparr>it_i0 := it_i0 it + 1\<rparr> else it) }"
      unfolding tl_next_def Let_def bb_empty_def len a_def by simp
    have s2: "(if bb_empty (it_it2 a)
                      then do { (i1, rest) \<leftarrow> bb_getAndClearFirstOne (it_it1 a);
                                Some (a\<lparr>it_i1 := i1, it_it1 := rest, it_it2 := l2_at (it_i0 a) i1 (it_bv a)\<rparr>) }
                      else Some a) = Some b"
      using a bb_first_eq [of "it_it1 a"] by (auto simp: b_def bb_empty_def Let_def)
    show ?thesis unfolding s1 s2 using i2(3) by (simp add: bb_size_def bb_empty_def n_def it'_def c_def Let_def)
  qed
  then show ?thesis using nb rest ok' a b by auto
qed

end
