(* ===== verification/BVGraph.thy ===== *)
theory BVGraph
  imports BitVectorSets
begin

text \<open>
  \<open>sanitizer_common/sanitizer_bvgraph.h\<close>: a directed graph as an array of bit vectors, with the two
  scratch vectors of the object, and its searches.
\<close>

section \<open>Operations\<close>

record bvgraph =
  g_v :: "two_level list"
  g_t1 :: two_level
  g_t2 :: two_level

definition g_row :: "nat \<Rightarrow> bvgraph \<Rightarrow> two_level option" where
  "g_row i g = (if i < length (g_v g) then Some (g_v g ! i) else None)"

definition g_clear :: "bvgraph \<Rightarrow> bvgraph" where
  "g_clear g = g\<lparr>g_v := map tl_clear (g_v g)\<rparr>"

definition g_empty :: "bvgraph \<Rightarrow> bool" where
  "g_empty g \<longleftrightarrow> list_all tl_empty (g_v g)"

definition g_check :: "nat \<Rightarrow> nat \<Rightarrow> bvgraph \<Rightarrow> unit option" where
  "g_check i j g = (if i < length (g_v g) \<and> j < length (g_v g) then Some () else None)"

definition g_addEdge :: "nat \<Rightarrow> nat \<Rightarrow> bvgraph \<Rightarrow> (bool \<times> bvgraph) option" where
  "g_addEdge from to g =
     do { g_check from to g; r \<leftarrow> g_row from g; (res, w) \<leftarrow> tl_setBit to r; Some (res, g\<lparr>g_v := (g_v g)[from := w]\<rparr>) }"

text \<open>The sources of the added edges, as far as \<open>added_edges\<close> has room.\<close>

definition g_addEdges :: "two_level \<Rightarrow> nat \<Rightarrow> nat \<Rightarrow> bvgraph \<Rightarrow> (nat list \<times> bvgraph) option" where
  "g_addEdges from to max_added g =
     do { t1 \<leftarrow> tl_copyFrom (g_t1 g) from;
          (t1, added, g') \<leftarrow> drain tl_empty tl_getAndClearFirstOne
             (\<lambda>node (added, g). do {
                r \<leftarrow> g_row node g; (new, w) \<leftarrow> tl_setBit to r;
                Some (if new \<and> length added < max_added then added @ [node] else added, g\<lparr>g_v := (g_v g)[node := w]\<rparr>) })
             t1 ([], g);
          Some (added, g'\<lparr>g_t1 := t1\<rparr>) }"

definition g_hasEdge :: "nat \<Rightarrow> nat \<Rightarrow> bvgraph \<Rightarrow> bool option" where
  "g_hasEdge from to g = do { r \<leftarrow> g_row from g; tl_getBit to r }"

definition g_hasEdge_checked :: "nat \<Rightarrow> nat \<Rightarrow> bvgraph \<Rightarrow> bool option" where
  "g_hasEdge_checked from to g = do { g_check from to g; r \<leftarrow> g_row from g; tl_getBit to r }"

definition g_removeEdge :: "nat \<Rightarrow> nat \<Rightarrow> bvgraph \<Rightarrow> (bool \<times> bvgraph) option" where
  "g_removeEdge from to g =
     do { r \<leftarrow> g_row from g; (res, w) \<leftarrow> tl_clearBit to r; Some (res, g\<lparr>g_v := (g_v g)[from := w]\<rparr>) }"

definition g_removeEdgesTo :: "two_level \<Rightarrow> bvgraph \<Rightarrow> (bool \<times> bvgraph) option" where
  "g_removeEdgesTo to g =
     for_each (\<lambda>from (res, g). do {
         r \<leftarrow> g_row from g; (removed, w) \<leftarrow> tl_setDifference r to; Some (res \<or> removed, g\<lparr>g_v := (g_v g)[from := w]\<rparr>) })
       [0..<length (g_v g)] (False, g)"

definition g_removeEdgesFrom_set :: "two_level \<Rightarrow> bvgraph \<Rightarrow> (bool \<times> bvgraph) option" where
  "g_removeEdgesFrom_set from g =
     do { t1 \<leftarrow> tl_copyFrom (g_t1 g) from;
          (t1, res, g') \<leftarrow> drain tl_empty tl_getAndClearFirstOne
             (\<lambda>idx (res, g). do {
                r \<leftarrow> g_row idx g;
                Some (if \<not> tl_empty r then (True, g\<lparr>g_v := (g_v g)[idx := tl_clear r]\<rparr>) else (res, g)) })
             t1 (False, g);
          Some (res, g'\<lparr>g_t1 := t1\<rparr>) }"

definition g_removeEdgesFrom :: "nat \<Rightarrow> bvgraph \<Rightarrow> bvgraph option" where
  "g_removeEdgesFrom from g = do { r \<leftarrow> g_row from g; Some (g\<lparr>g_v := (g_v g)[from := tl_clear r]\<rparr>) }"

text \<open>The search with \<open>to_visit\<close> and \<open>visited\<close> in the scratch vectors.\<close>

partial_function (option) visit :: "bvgraph \<Rightarrow> two_level \<Rightarrow> two_level \<Rightarrow> (two_level \<times> two_level) option" where
  "visit g to_visit visited =
     (if tl_empty to_visit then Some (to_visit, visited)
      else do { (idx, to_visit) \<leftarrow> tl_getAndClearFirstOne to_visit;
                (new, visited) \<leftarrow> tl_setBit idx visited;
                r \<leftarrow> g_row idx g;
                to_visit \<leftarrow> (if new then map_option snd (tl_setUnion to_visit r) else Some to_visit);
                visit g to_visit visited })"

definition g_isReachable :: "nat \<Rightarrow> two_level \<Rightarrow> bvgraph \<Rightarrow> (bool \<times> bvgraph) option" where
  "g_isReachable from targets g =
     do { r \<leftarrow> g_row from g;
          to_visit \<leftarrow> tl_copyFrom (g_t1 g) r;
          (_, visited) \<leftarrow> tl_setBit from (tl_clear (g_t2 g));
          (to_visit, visited) \<leftarrow> visit g to_visit visited;
          res \<leftarrow> tl_intersectsWith targets visited;
          Some (res, g\<lparr>g_t1 := to_visit, g_t2 := visited\<rparr>) }"

text \<open>The first result that is not empty, over the successors an iterator gives.\<close>

partial_function (option) first_path :: "(nat \<Rightarrow> nat list option) \<Rightarrow> tl_iter \<Rightarrow> nat list option" where
  "first_path f it =
     (if tl_hasNext it
      then do { (idx, it') \<leftarrow> tl_next it; res \<leftarrow> f idx; if res \<noteq> [] then Some res else first_path f it' }
      else Some [])"

text \<open>The path stored in \<open>path\<close>, whose length is the result of the function; empty when there is none.\<close>

primrec g_findPath :: "nat \<Rightarrow> two_level \<Rightarrow> bvgraph \<Rightarrow> nat \<Rightarrow> nat list option" where
  "g_findPath 0 targets g from = Some []"
| "g_findPath (Suc n) targets g from =
     do { hit \<leftarrow> tl_getBit from targets;
          if hit then Some [from]
          else do { r \<leftarrow> g_row from g;
                    res \<leftarrow> first_path (\<lambda>idx. g_findPath n targets g idx) (tl_iter_init r);
                    Some (if res \<noteq> [] then from # res else []) } }"

primrec shortest :: "nat list \<Rightarrow> two_level \<Rightarrow> bvgraph \<Rightarrow> nat \<Rightarrow> nat list option" where
  "shortest [] targets g from = Some []"
| "shortest (p # ps) targets g from =
     do { path \<leftarrow> g_findPath p targets g from; if length path = p then Some path else shortest ps targets g from }"

definition g_findShortestPath :: "nat \<Rightarrow> two_level \<Rightarrow> nat \<Rightarrow> bvgraph \<Rightarrow> nat list option" where
  "g_findShortestPath from targets path_size g = shortest [1..<Suc path_size] targets g from"

section \<open>The graph as a relation\<close>

definition g_ok :: "nat \<Rightarrow> bvgraph \<Rightarrow> bool" where
  "g_ok N g \<longleftrightarrow> length (g_v g) = 4096 * N \<and> (\<forall>i < 4096 * N. tl_ok N (g_v g ! i)) \<and> tl_ok N (g_t1 g) \<and> tl_ok N (g_t2 g)"

definition g_edges :: "bvgraph \<Rightarrow> (nat \<times> nat) set" where
  "g_edges g = {(i, j). i < length (g_v g) \<and> j \<in> tl_bits (g_v g ! i)}"

lemma g_row_ok: "g_ok N g \<Longrightarrow> i < 4096 * N \<Longrightarrow> \<exists>r. g_row i g = Some r \<and> tl_ok N r \<and> tl_bits r = {j. (i, j) \<in> g_edges g}"
  by (simp add: g_ok_def g_row_def g_edges_def)

lemma g_edges_bound: "g_ok N g \<Longrightarrow> (i, j) \<in> g_edges g \<Longrightarrow> i < 4096 * N \<and> j < 4096 * N"
  using tl.bits_bound by (fastforce simp: g_ok_def g_edges_def)

lemma g_update:
  assumes "g_ok N g" "i < 4096 * N" "tl_ok N w"
  shows "g_ok N (g\<lparr>g_v := (g_v g)[i := w]\<rparr>)"
    "g_edges (g\<lparr>g_v := (g_v g)[i := w]\<rparr>) = {(a, b) \<in> g_edges g. a \<noteq> i} \<union> {i} \<times> tl_bits w"
  using assms by (auto simp: g_ok_def g_edges_def nth_list_update split: if_splits)

lemma g_scratch:
  "g_edges (g\<lparr>g_t1 := x\<rparr>) = g_edges g" "g_edges (g\<lparr>g_t2 := x\<rparr>) = g_edges g"
  "g_edges (g\<lparr>g_t1 := x, g_t2 := y\<rparr>) = g_edges g"
  "g_ok N g \<Longrightarrow> tl_ok N x \<Longrightarrow> g_ok N (g\<lparr>g_t1 := x\<rparr>)"
  "g_ok N g \<Longrightarrow> tl_ok N x \<Longrightarrow> tl_ok N y \<Longrightarrow> g_ok N (g\<lparr>g_t1 := x, g_t2 := y\<rparr>)"
  by (simp_all add: g_edges_def g_ok_def)

lemma g_addEdge_effect:
  assumes "g_ok N g" "i < 4096 * N" "j < 4096 * N"
  shows "\<exists>g'. g_addEdge i j g = Some ((i, j) \<notin> g_edges g, g') \<and> g_ok N g' \<and> g_edges g' = insert (i, j) (g_edges g)"
proof -
  obtain r where r: "g_row i g = Some r" "tl_ok N r" "tl_bits r = {k. (i, k) \<in> g_edges g}" using g_row_ok assms by blast
  obtain w where w: "tl_setBit j r = Some (j \<notin> tl_bits r, w)" "tl_ok N w" "tl_bits w = insert j (tl_bits r)"
    using tl.set_bit_op [OF r(2) assms(3)] by blast
  have "g_check i j g = Some ()" using assms by (simp add: g_check_def g_ok_def)
  then have "g_addEdge i j g = Some ((i, j) \<notin> g_edges g, g\<lparr>g_v := (g_v g)[i := w]\<rparr>)"
    using r w by (simp add: g_addEdge_def)
  then show ?thesis using g_update [OF assms(1,2) w(2)] w(3) r(3) by auto
qed

lemma g_addEdges_effect:
  assumes g: "g_ok N g" and f: "tl_ok N from" and j: "j < 4096 * N"
  shows "\<exists>added g'. g_addEdges from j m g = Some (added, g') \<and> g_ok N g' \<and> g_edges g' = g_edges g \<union> tl_bits from \<times> {j} \<and>
    added = take m (sorted_list_of_set {i \<in> tl_bits from. (i, j) \<notin> g_edges g})"
proof -
  obtain t1 where t1: "tl_copyFrom (g_t1 g) from = Some t1" "tl_ok N t1" "tl_bits t1 = tl_bits from"
    using tl.copy [of N "g_t1 g" "from"] g f by (auto simp: g_ok_def tl_copyFrom_def)
  let ?body = "\<lambda>node (added, g). do {
                r \<leftarrow> g_row node g; (new, w) \<leftarrow> tl_setBit j r;
                Some (if new \<and> length added < m then added @ [node] else added, g\<lparr>g_v := (g_v g)[node := w]\<rparr>) }"
  let ?P = "\<lambda>D (added, h). g_ok N h \<and> g_edges h = g_edges g \<union> D \<times> {j} \<and>
      added = take m (sorted_list_of_set {i \<in> D. (i, j) \<notin> g_edges g})"
  have "\<exists>t' s'. drain tl_empty tl_getAndClearFirstOne ?body t1 ([], g) = Some (t', s') \<and> tl_ok N t' \<and> tl_bits t' = {} \<and> ?P (tl_bits t1) s'"
  proof (rule tl.drain_rule [where P = ?P, OF t1(2)])
    show "?P {} ([], g)" using g by simp
    fix D i s assume i: "i \<in> tl_bits t1" and D: "D = {k \<in> tl_bits t1. k < i}" and P: "?P D s"
    obtain added h where s: "s = (added, h)" by (cases s)
    have h: "g_ok N h" "g_edges h = g_edges g \<union> D \<times> {j}" "added = take m (sorted_list_of_set {i \<in> D. (i, j) \<notin> g_edges g})"
      using P unfolding s by simp_all
    have iN: "i < 4096 * N" using i tl.bits_bound [OF t1(2)] by auto
    obtain r where r: "g_row i h = Some r" "tl_ok N r" "tl_bits r = {k. (i, k) \<in> g_edges h}" using g_row_ok [OF h(1) iN] by blast
    obtain w where w: "tl_setBit j r = Some (j \<notin> tl_bits r, w)" "tl_ok N w" "tl_bits w = insert j (tl_bits r)"
      using tl.set_bit_op [OF r(2) j] by blast
    have new: "j \<notin> tl_bits r \<longleftrightarrow> (i, j) \<notin> g_edges g" using r(3) h(2) D by auto
    let ?h = "h\<lparr>g_v := (g_v h)[i := w]\<rparr>" and ?added = "if j \<notin> tl_bits r \<and> length added < m then added @ [i] else added"
    have "?body i s = Some (?added, ?h)" unfolding s using r(1) w(1) by simp
    moreover have "?P (insert i D) (?added, ?h)"
    proof -
      have e: "g_edges ?h = g_edges g \<union> insert i D \<times> {j}" using g_update(2) [OF h(1) iN w(2)] w(3) r(3) h(2) by auto
      have fin: "finite {k \<in> D. (k, j) \<notin> g_edges g}" using tl.finite_bits [OF t1(2)] D by auto
      have "?added = take m (sorted_list_of_set {k \<in> insert i D. (k, j) \<notin> g_edges g})"
      proof (cases "(i, j) \<in> g_edges g")
        case True
        then have "{k \<in> insert i D. (k, j) \<notin> g_edges g} = {k \<in> D. (k, j) \<notin> g_edges g}" by auto
        then show ?thesis using True h(3) new by simp
      next
        case False
        then have S: "{k \<in> insert i D. (k, j) \<notin> g_edges g} = insert i {k \<in> D. (k, j) \<notin> g_edges g}" by auto
        have "sorted_list_of_set (insert i {k \<in> D. (k, j) \<notin> g_edges g}) = sorted_list_of_set {k \<in> D. (k, j) \<notin> g_edges g} @ [i]"
          using fin D by (intro sorted_list_of_set_unique [THEN iffD1])
            (auto simp: sorted_wrt_append strict_sorted_iff)
        then show ?thesis unfolding S using False new h(3) by (auto simp: take_append)
      qed
      then show ?thesis using e g_update(1) [OF h(1) iN w(2)] by simp
    qed
    ultimately show "\<exists>s'. ?body i s = Some s' \<and> ?P (insert i D) s'" by blast
  qed
  then obtain t' added h where "drain tl_empty tl_getAndClearFirstOne ?body t1 ([], g) = Some (t', added, h)" "tl_ok N t'"
      "g_ok N h" "g_edges h = g_edges g \<union> tl_bits from \<times> {j}"
      "added = take m (sorted_list_of_set {i \<in> tl_bits from. (i, j) \<notin> g_edges g})"
    using t1(3) by auto
  then show ?thesis using t1(1) g_scratch by (simp add: g_addEdges_def)
qed

lemma g_hasEdge_effect:
  assumes "g_ok N g" "i < 4096 * N" "j < 4096 * N"
  shows "g_hasEdge i j g = Some ((i, j) \<in> g_edges g)" "g_hasEdge_checked i j g = Some ((i, j) \<in> g_edges g)"
proof -
  obtain r where r: "g_row i g = Some r" "tl_ok N r" "tl_bits r = {k. (i, k) \<in> g_edges g}" using g_row_ok assms by blast
  have "g_check i j g = Some ()" using assms by (simp add: g_check_def g_ok_def)
  then show "g_hasEdge i j g = Some ((i, j) \<in> g_edges g)" "g_hasEdge_checked i j g = Some ((i, j) \<in> g_edges g)"
    using r tl.get_bit_op [OF r(2) assms(3)] by (simp_all add: g_hasEdge_def g_hasEdge_checked_def)
qed

lemma g_removeEdge_effect:
  assumes "g_ok N g" "i < 4096 * N" "j < 4096 * N"
  shows "\<exists>g'. g_removeEdge i j g = Some ((i, j) \<in> g_edges g, g') \<and> g_ok N g' \<and> g_edges g' = g_edges g - {(i, j)}"
proof -
  obtain r where r: "g_row i g = Some r" "tl_ok N r" "tl_bits r = {k. (i, k) \<in> g_edges g}" using g_row_ok assms by blast
  obtain w where w: "tl_clearBit j r = Some (j \<in> tl_bits r, w)" "tl_ok N w" "tl_bits w = tl_bits r - {j}"
    using tl.clear_bit_op [OF r(2) assms(3)] by blast
  have "g_removeEdge i j g = Some ((i, j) \<in> g_edges g, g\<lparr>g_v := (g_v g)[i := w]\<rparr>)"
    using r w by (simp add: g_removeEdge_def)
  then show ?thesis using g_update [OF assms(1,2) w(2)] w(3) r(3) by auto
qed

lemma g_removeEdgesFrom_effect:
  assumes "g_ok N g" "i < 4096 * N"
  shows "\<exists>g'. g_removeEdgesFrom i g = Some g' \<and> g_ok N g' \<and> g_edges g' = {(a, b) \<in> g_edges g. a \<noteq> i}"
proof -
  obtain r where r: "g_row i g = Some r" "tl_ok N r" using g_row_ok assms by blast
  have c: "tl_ok N (tl_clear r)" "tl_bits (tl_clear r) = {}" using tl.cleared [OF r(2)] by simp_all
  show ?thesis using r g_update [OF assms c(1)] c(2) by (simp add: g_removeEdgesFrom_def)
qed

lemma g_removeEdgesTo_effect:
  assumes g: "g_ok N g" and t: "tl_ok N to"
  shows "\<exists>res g'. g_removeEdgesTo to g = Some (res, g') \<and> g_ok N g' \<and> g_edges g' = {(a, b) \<in> g_edges g. b \<notin> tl_bits to}"
proof -
  let ?f = "\<lambda>from (res, g). do {
         r \<leftarrow> g_row from g; (removed, w) \<leftarrow> tl_setDifference r to; Some (res \<or> removed, g\<lparr>g_v := (g_v g)[from := w]\<rparr>) }"
  let ?P = "\<lambda>i (res :: bool, h). g_ok N h \<and> g_edges h = {(a, b) \<in> g_edges g. a < i \<longrightarrow> b \<notin> tl_bits to}"
  have "\<exists>s'. for_each ?f [0..<4096 * N] (False, g) = Some s' \<and> ?P (4096 * N) s'"
  proof (rule for_each_rule [where P = ?P])
    show "?P 0 (False, g)" using g by auto
    fix i s assume i: "i < 4096 * N" and P: "?P i s"
    obtain res h where s: "s = (res, h)" by (cases s)
    have h: "g_ok N h" "g_edges h = {(a, b) \<in> g_edges g. a < i \<longrightarrow> b \<notin> tl_bits to}" using P unfolding s by simp_all
    obtain r where r: "g_row i h = Some r" "tl_ok N r" "tl_bits r = {k. (i, k) \<in> g_edges h}" using g_row_ok [OF h(1) i] by blast
    obtain c w where w: "tl_setDifference r to = Some (c, w)" "tl_ok N w" "tl_bits w = tl_bits r - tl_bits to"
      using tl.difference [OF r(2) t] by blast
    have "g_edges (h\<lparr>g_v := (g_v h)[i := w]\<rparr>) = {(a, b) \<in> g_edges g. a < Suc i \<longrightarrow> b \<notin> tl_bits to}"
      using g_update(2) [OF h(1) i w(2)] w(3) r(3) h(2) by (auto simp: less_Suc_eq)
    then show "\<exists>s'. ?f i s = Some s' \<and> ?P (Suc i) s'" using g_update(1) [OF h(1) i w(2)] r(1) w(1) by (simp add: s)
  qed
  then obtain res h where "for_each ?f [0..<4096 * N] (False, g) = Some (res, h)" "g_ok N h"
      "g_edges h = {(a, b) \<in> g_edges g. a < 4096 * N \<longrightarrow> b \<notin> tl_bits to}" by auto
  then show ?thesis using g g_edges_bound [OF g] by (auto simp: g_removeEdgesTo_def g_ok_def)
qed

lemma g_clear_effect: "g_ok N g \<Longrightarrow> g_ok N (g_clear g) \<and> g_edges (g_clear g) = {}"
  using tl.cleared by (auto simp: g_ok_def g_clear_def g_edges_def)

section \<open>Reachability\<close>

lemma visit_reaches:
  assumes g: "g_ok N g" and s: "s < 4096 * N"
    and "tl_ok N tv" "tl_ok N vis" "s \<in> tl_bits vis" "tl_bits vis \<union> tl_bits tv \<subseteq> (g_edges g)\<^sup>* `` {s}"
    and "\<forall>(a, b) \<in> g_edges g. a \<in> tl_bits vis \<longrightarrow> b \<in> tl_bits vis \<union> tl_bits tv"
  shows "\<exists>tv' vis'. visit g tv vis = Some (tv', vis') \<and> tl_ok N tv' \<and> tl_ok N vis' \<and> tl_bits vis' = (g_edges g)\<^sup>* `` {s}"
proof -
  let ?E = "g_edges g" and ?R = "(g_edges g)\<^sup>* `` {s}"
  let ?m = "\<lambda>(tv, vis). (4096 * N - card (tl_bits vis), card (tl_bits tv))"
  show ?thesis using assms(3-)
  proof (induction "(tv, vis)" arbitrary: tv vis rule: wf_induct_rule [OF wf_inv_image [OF wf_lex_prod [OF wf_less_than wf_less_than], where f = ?m]])
    case (1 tv vis)
    note tv = 1(2) and vis = 1(3) and s_in = 1(4) and sub = 1(5) and closed = 1(6)
    show ?case
    proof (cases "tl_bits tv = {}")
      case True
      have "x \<in> tl_bits vis" if "(s, x) \<in> ?E\<^sup>*" for x
        using that
      proof (induction rule: rtrancl_induct)
        case (step y z)
        then show ?case using closed True by blast
      qed (rule s_in)
      then have "tl_bits vis = ?R" using sub by blast
      then show ?thesis using True tv vis by (subst visit.simps) (simp add: tl.is_empty [OF tv])
    next
      case False
      let ?i = "Min (tl_bits tv)"
      obtain u where u: "tl_getAndClearFirstOne tv = Some (?i, u)" "tl_ok N u" "tl_bits u = tl_bits tv - {?i}"
        using tl.first [OF tv False] by blast
      have fin: "finite (tl_bits tv)" by (rule tl.finite_bits [OF tv])
      have i: "?i \<in> tl_bits tv" using fin False by (rule Min_in)
      have iN: "?i < 4096 * N" using i tl.bits_bound [OF tv] by auto
      obtain w where w: "tl_setBit ?i vis = Some (?i \<notin> tl_bits vis, w)" "tl_ok N w" "tl_bits w = insert ?i (tl_bits vis)"
        using tl.set_bit_op [OF vis iN] by blast
      obtain r where r: "g_row ?i g = Some r" "tl_ok N r" "tl_bits r = {k. (?i, k) \<in> ?E}" using g_row_ok [OF g iN] by blast
      obtain u' where u': "(if ?i \<notin> tl_bits vis then map_option snd (tl_setUnion u r) else Some u) = Some u'" "tl_ok N u'"
          "tl_bits u' = (if ?i \<notin> tl_bits vis then tl_bits u \<union> tl_bits r else tl_bits u)"
        using tl.union [OF u(2) r(2)] u(2) by (cases "?i \<in> tl_bits vis") auto
      have iR: "?i \<in> ?R" using i sub by blast
      have finv: "finite (tl_bits w)" "card (tl_bits w) \<le> 4096 * N"
        using tl.finite_bits [OF w(2)] card_mono [OF finite_lessThan tl.bits_bound [OF w(2)]] by simp_all
      have less: "((u', w), (tv, vis)) \<in> inv_image (less_than <*lex*> less_than) ?m"
      proof (cases "?i \<in> tl_bits vis")
        case True
        then have "tl_bits w = tl_bits vis" "card (tl_bits u') < card (tl_bits tv)"
          using w(3) u'(3) u(3) i fin card_Diff1_less [OF fin i] by auto
        then show ?thesis by simp
      next
        case False
        then have "card (tl_bits w) = Suc (card (tl_bits vis))"
          using w(3) tl.finite_bits [OF vis] by simp
        then have "4096 * N - card (tl_bits w) < 4096 * N - card (tl_bits vis)" using finv(2) by linarith
        then show ?thesis by simp
      qed
      have "\<exists>tv' vis'. visit g u' w = Some (tv', vis') \<and> tl_ok N tv' \<and> tl_ok N vis' \<and> tl_bits vis' = ?R"
      proof (rule 1(1) [OF less u'(2) w(2)])
        show "s \<in> tl_bits w" using s_in w(3) by blast
        have "tl_bits r \<subseteq> ?R" using iR r(3) by (auto intro: rtrancl_into_rtrancl)
        then show "tl_bits w \<union> tl_bits u' \<subseteq> ?R" using w(3) u'(3) u(3) sub iR by (auto split: if_splits)
        show "\<forall>(a, b) \<in> ?E. a \<in> tl_bits w \<longrightarrow> b \<in> tl_bits w \<union> tl_bits u'"
          using closed w(3) u'(3) u(3) r(3) by (auto split: if_splits)
      qed
      then show ?thesis using False u(1) w(1) r(1) u'(1) by (subst visit.simps) (simp add: tl.is_empty [OF tv])
    qed
  qed
qed

lemma g_isReachable_effect:
  assumes g: "g_ok N g" and s: "s < 4096 * N" and T: "tl_ok N T"
  shows "\<exists>g'. g_isReachable s T g = Some (\<exists>t \<in> tl_bits T. (s, t) \<in> (g_edges g)\<^sup>*, g') \<and> g_ok N g' \<and> g_edges g' = g_edges g"
proof -
  obtain r where r: "g_row s g = Some r" "tl_ok N r" "tl_bits r = {k. (s, k) \<in> g_edges g}" using g_row_ok [OF g s] by blast
  have t12: "tl_ok N (g_t1 g)" "tl_ok N (g_t2 g)" using g by (simp_all add: g_ok_def)
  obtain tv where tv: "tl_copyFrom (g_t1 g) r = Some tv" "tl_ok N tv" "tl_bits tv = tl_bits r"
    using tl.copy [OF t12(1) r(2)] by (auto simp: tl_copyFrom_def)
  have c: "tl_ok N (tl_clear (g_t2 g))" "tl_bits (tl_clear (g_t2 g)) = {}" using tl.cleared [OF t12(2)] by simp_all
  obtain vis where vis: "tl_setBit s (tl_clear (g_t2 g)) = Some (True, vis)" "tl_ok N vis" "tl_bits vis = {s}"
    using tl.set_bit_op [OF c(1) s] c(2) by auto
  obtain tv' vis' where v: "visit g tv vis = Some (tv', vis')" "tl_ok N tv'" "tl_ok N vis'" "tl_bits vis' = (g_edges g)\<^sup>* `` {s}"
    using visit_reaches [OF g s tv(2) vis(2)] tv(3) vis(3) r(3) by auto
  have "tl_intersectsWith T vis' = Some (\<exists>t \<in> tl_bits T. (s, t) \<in> (g_edges g)\<^sup>*)"
    using tl.intersects [OF T v(3)] v(4) by auto
  then show ?thesis using r(1) tv(1) vis(1) v(1-3) g_scratch(3) g_scratch(5) [OF g v(2,3)] by (simp add: g_isReachable_def)
qed

section \<open>Paths\<close>

definition walk :: "(nat \<times> nat) set \<Rightarrow> nat list \<Rightarrow> bool" where
  "walk E p \<longleftrightarrow> p \<noteq> [] \<and> (\<forall>i. Suc i < length p \<longrightarrow> (p ! i, p ! Suc i) \<in> E)"

lemma walk_Cons: "walk E (x # p) \<longleftrightarrow> p = [] \<or> (x, hd p) \<in> E \<and> walk E p"
proof (cases p)
  case (Cons y q)
  then show ?thesis by (auto simp: walk_def nth_Cons split: nat.splits)
qed (simp add: walk_def)

definition walk_to :: "(nat \<times> nat) set \<Rightarrow> nat \<Rightarrow> nat set \<Rightarrow> nat list \<Rightarrow> bool" where
  "walk_to E s T p \<longleftrightarrow> walk E p \<and> hd p = s \<and> last p \<in> T"

lemma walk_to_Cons: "walk_to E s T (x # p) \<longleftrightarrow> x = s \<and> (p = [] \<and> s \<in> T \<or> (\<exists>y. (s, y) \<in> E \<and> walk_to E y T p))"
  by (auto simp: walk_to_def walk_Cons) (auto simp: walk_def)

lemma walk_to_reaches: "walk_to E s T p \<Longrightarrow> \<exists>t \<in> T. (s, t) \<in> E\<^sup>*"
proof (induction p arbitrary: s)
  case (Cons x p)
  then show ?case unfolding walk_to_Cons by (auto intro: converse_rtrancl_into_rtrancl)
qed (simp add: walk_to_def walk_def)

lemma first_path_result:
  assumes "it_ok N it" "\<forall>i \<in> it_rest it. \<exists>r. f i = Some r"
  shows "\<exists>r. first_path f it = Some r \<and> (if r = [] then \<forall>i \<in> it_rest it. f i = Some [] else \<exists>i \<in> it_rest it. f i = Some r)"
  using assms
proof (induction "card (it_rest it)" arbitrary: it rule: less_induct)
  case less
  show ?case
  proof (cases "it_rest it = {}")
    case True
    then show ?thesis using hasNext_iff [OF less.prems(1)] by (subst first_path.simps) simp
  next
    case False
    obtain n it' where n: "tl_next it = Some (n, it')" "n \<in> it_rest it" "it_rest it' = it_rest it - {n}" "it_ok N it'"
      using next_gives [OF less.prems(1) False] by blast
    obtain r where r: "f n = Some r" using less.prems(2) n(2) by blast
    have step: "first_path f it = (if r \<noteq> [] then Some r else first_path f it')"
      using hasNext_iff [OF less.prems(1)] False n(1) r by (subst first_path.simps) simp
    show ?thesis
    proof (cases "r = []")
      case True
      have "finite (it_rest it)"
        using tl.finite_bits [of N "it_bv it"] less.prems(1) by (simp add: it_ok_def it_rest_def)
      then have "card (it_rest it') < card (it_rest it)" unfolding n(3) using n(2) by (rule card_Diff1_less)
      then obtain q where "first_path f it' = Some q"
          "if q = [] then \<forall>i \<in> it_rest it'. f i = Some [] else \<exists>i \<in> it_rest it'. f i = Some q"
        using less.hyps [OF _ n(4)] less.prems(2) n(3) by blast
      then show ?thesis using True step r n(3) by (auto split: if_splits)
    qed (use step r n(2) in auto)
  qed
qed

lemma findPath_result:
  assumes g: "g_ok N g" and T: "tl_ok N T"
  shows "s < 4096 * N \<Longrightarrow> \<exists>p. g_findPath n T g s = Some p \<and> length p \<le> n \<and>
    (if p = [] then \<forall>q. walk_to (g_edges g) s (tl_bits T) q \<longrightarrow> n < length q else walk_to (g_edges g) s (tl_bits T) p)"
proof (induction n arbitrary: s)
  case 0
  then show ?case by (auto simp: walk_to_def walk_def)
next
  case (Suc n)
  let ?E = "g_edges g" and ?T = "tl_bits T"
  show ?case
  proof (cases "s \<in> ?T")
    case True
    then show ?thesis using tl.get_bit_op [OF T Suc.prems] by (simp add: walk_to_def walk_def)
  next
    case False
    obtain r where r: "g_row s g = Some r" "tl_ok N r" "tl_bits r = {k. (s, k) \<in> ?E}" using g_row_ok [OF g Suc.prems] by blast
    let ?f = "\<lambda>i. g_findPath n T g i"
    have rest: "it_ok N (tl_iter_init r)" "it_rest (tl_iter_init r) = {k. (s, k) \<in> ?E}" using it_init [OF r(2)] r(3) by simp_all
    have f: "\<exists>p. ?f i = Some p \<and> length p \<le> n \<and>
        (if p = [] then \<forall>q. walk_to ?E i ?T q \<longrightarrow> n < length q else walk_to ?E i ?T p)" if "(s, i) \<in> ?E" for i
      using Suc.IH g_edges_bound [OF g that] by blast
    have "\<forall>i \<in> it_rest (tl_iter_init r). \<exists>p. ?f i = Some p" using f rest(2) by blast
    then obtain p where p: "first_path ?f (tl_iter_init r) = Some p"
        "if p = [] then \<forall>i \<in> it_rest (tl_iter_init r). ?f i = Some [] else \<exists>i \<in> it_rest (tl_iter_init r). ?f i = Some p"
      using first_path_result [OF rest(1)] by blast
    have run: "g_findPath (Suc n) T g s = Some (if p \<noteq> [] then s # p else [])"
      using tl.get_bit_op [OF T Suc.prems] False r(1) p(1) by simp
    show ?thesis
    proof (cases "p = []")
      case True
      then have none: "\<forall>q. walk_to ?E i ?T q \<longrightarrow> n < length q" if "(s, i) \<in> ?E" for i
        using f [OF that] p(2) rest(2) that by auto
      have "Suc n < length q" if "walk_to ?E s ?T q" for q
        using that none False by (cases q) (auto simp: walk_to_Cons, simp add: walk_to_def walk_def)
      then show ?thesis using run True by simp
    next
      case False
      then obtain i where i: "(s, i) \<in> ?E" "?f i = Some p" using p(2) rest(2) by auto
      then have "length p \<le> n" "walk_to ?E i ?T p" using f [OF i(1)] False by auto
      then show ?thesis using run False i(1) by (auto simp: walk_to_Cons)
    qed
  qed
qed

lemma findShortestPath_result:
  assumes g: "g_ok N g" and T: "tl_ok N T" and s: "s < 4096 * N"
  shows "\<exists>p. g_findShortestPath s T k g = Some p \<and>
    (if p = [] then \<forall>q. walk_to (g_edges g) s (tl_bits T) q \<longrightarrow> k < length q
     else walk_to (g_edges g) s (tl_bits T) p \<and> length p \<le> k \<and> (\<forall>q. walk_to (g_edges g) s (tl_bits T) q \<longrightarrow> length p \<le> length q))"
proof -
  let ?W = "walk_to (g_edges g) s (tl_bits T)"
  have "\<exists>p. shortest [i..<Suc k] T g s = Some p \<and>
      (if p = [] then \<forall>q. ?W q \<longrightarrow> k < length q else ?W p \<and> length p \<le> k \<and> (\<forall>q. ?W q \<longrightarrow> length p \<le> length q))"
    if "\<forall>q. ?W q \<longrightarrow> i \<le> length q" "0 < i" for i
    using that
  proof (induction "Suc k - i" arbitrary: i)
    case 0
    then show ?case by auto
  next
    case (Suc m)
    have "i \<le> k" using Suc.hyps(2) by linarith
    then have i: "[i..<Suc k] = i # [Suc i..<Suc k]" "i \<le> k" by (simp_all add: upt_conv_Cons del: upt_Suc)
    obtain p where p: "g_findPath i T g s = Some p" "length p \<le> i"
        "if p = [] then \<forall>q. ?W q \<longrightarrow> i < length q else ?W p"
      using findPath_result [OF g T s] by blast
    show ?case
    proof (cases "length p = i")
      case True
      then show ?thesis using p Suc.prems i by auto
    next
      case False
      have "\<forall>q. ?W q \<longrightarrow> Suc i \<le> length q"
      proof (cases "p = []")
        case True
        then show ?thesis using p(3) by auto
      next
        case np: False
        then have "?W p" using p(3) by simp
        then show ?thesis using Suc.prems(1) p(2) False by auto
      qed
      moreover have "m = Suc k - Suc i" using Suc.hyps(2) by linarith
      ultimately have "\<exists>p. shortest [Suc i..<Suc k] T g s = Some p \<and>
        (if p = [] then \<forall>q. ?W q \<longrightarrow> k < length q else ?W p \<and> length p \<le> k \<and> (\<forall>q. ?W q \<longrightarrow> length p \<le> length q))"
        by (intro Suc.hyps(1)) auto
      then show ?thesis unfolding i using p(1) False by simp
    qed
  qed
  moreover have "\<forall>q. ?W q \<longrightarrow> 1 \<le> length q" by (auto simp: walk_to_def walk_def Suc_le_eq)
  ultimately show ?thesis unfolding g_findShortestPath_def by (metis zero_less_one)
qed

end
