(* ===== verification/DeadlockDetector.thy ===== *)
theory DeadlockDetector
  imports BVGraph
begin

text \<open>
  \<open>sanitizer_common/sanitizer_deadlock_detector.h\<close>: the graph of lock acquisitions, the locks each
  thread holds, and the detector of \<open>sanitizer_deadlock_detector1.cpp\<close> that watches the mutexes of
  the program with them. A node is the index of a lock plus the epoch, a multiple of the size of the
  graph; when indices run out, the graph is flushed and a new epoch starts. \<open>None\<close> is a failing
  \<open>CHECK\<close> or an index outside an array.
\<close>

section \<open>The locks of a thread\<close>

record dd_tls =
  tls_bv :: two_level
  tls_epoch :: u64
  recursive_locks :: "nat list"
  all_locks :: "(u32 \<times> u32) list"

definition tls_clear :: "dd_tls \<Rightarrow> dd_tls" where
  "tls_clear t = t\<lparr>tls_bv := tl_clear (tls_bv t), tls_epoch := 0, recursive_locks := [], all_locks := []\<rparr>"

definition tls_empty :: "dd_tls \<Rightarrow> bool" where
  "tls_empty t \<longleftrightarrow> tl_empty (tls_bv t)"

definition tls_ensureCurrentEpoch :: "u64 \<Rightarrow> dd_tls \<Rightarrow> dd_tls" where
  "tls_ensureCurrentEpoch current_epoch t =
     (if tls_epoch t = current_epoch then t
      else t\<lparr>tls_bv := tl_clear (tls_bv t), tls_epoch := current_epoch, recursive_locks := [], all_locks := []\<rparr>)"

definition kMaxLocks :: nat where "kMaxLocks = 64"

definition tls_addLock :: "nat \<Rightarrow> u64 \<Rightarrow> u32 \<Rightarrow> dd_tls \<Rightarrow> (bool \<times> dd_tls) option" where
  "tls_addLock lock_id current_epoch stk t =
     (if tls_epoch t \<noteq> current_epoch then None
      else do { (new, bv) \<leftarrow> tl_setBit lock_id (tls_bv t);
                if \<not> new
                then (if length (recursive_locks t) < kMaxLocks
                      then Some (False, t\<lparr>tls_bv := bv, recursive_locks := recursive_locks t @ [lock_id]\<rparr>) else None)
                else (if length (all_locks t) < kMaxLocks
                      then Some (True, t\<lparr>tls_bv := bv, all_locks := all_locks t @ [(of_nat lock_id, stk)]\<rparr>) else None) })"

text \<open>Swap with the last element and drop it; the loops look for the last match.\<close>

definition remove_at :: "nat \<Rightarrow> 'a list \<Rightarrow> 'a list" where
  "remove_at i xs = butlast (xs[i := last xs])"

definition tls_removeLock :: "nat \<Rightarrow> dd_tls \<Rightarrow> dd_tls option" where
  "tls_removeLock lock_id t =
     (case List.find (\<lambda>i. recursive_locks t ! i = lock_id) (rev [0..<length (recursive_locks t)]) of
        Some i \<Rightarrow> Some (t\<lparr>recursive_locks := remove_at i (recursive_locks t)\<rparr>)
      | None \<Rightarrow>
          do { (held, bv) \<leftarrow> tl_clearBit lock_id (tls_bv t);
               let t = t\<lparr>tls_bv := bv\<rparr>;
               if \<not> held then Some t
               else (case List.find (\<lambda>i. fst (all_locks t ! i) = of_nat lock_id) (rev [0..<length (all_locks t)]) of
                       Some i \<Rightarrow> Some (t\<lparr>all_locks := remove_at i (all_locks t)\<rparr>)
                     | None \<Rightarrow> Some t) })"

definition tls_findLockContext :: "nat \<Rightarrow> dd_tls \<Rightarrow> u32" where
  "tls_findLockContext lock_id t =
     (case List.find (\<lambda>l. fst l = of_nat lock_id) (all_locks t) of Some l \<Rightarrow> snd l | None \<Rightarrow> 0)"

definition tls_getLocks :: "u64 \<Rightarrow> dd_tls \<Rightarrow> two_level option" where
  "tls_getLocks current_epoch t = (if tls_epoch t = current_epoch then Some (tls_bv t) else None)"

section \<open>The detector\<close>

record dd_edge =
  e_from :: u16
  e_to :: u16
  e_stk_from :: u32
  e_stk_to :: u32
  e_unique_tid :: int

record detector =
  d_epoch :: u64
  available_nodes :: two_level
  recycled_nodes :: two_level
  tmp_bv :: two_level
  d_g :: bvgraph
  d_data :: "u64 list"
  d_edges :: "dd_edge list"

definition d_size :: "detector \<Rightarrow> u64" where
  "d_size d = of_nat (length (g_v (d_g d)))"

definition d_clear :: "detector \<Rightarrow> detector" where
  "d_clear d = d\<lparr>d_epoch := 0, available_nodes := tl_clear (available_nodes d), recycled_nodes := tl_clear (recycled_nodes d),
                 d_g := g_clear (d_g d), d_edges := []\<rparr>"

definition nodeToEpoch :: "u64 \<Rightarrow> detector \<Rightarrow> u64" where
  "nodeToEpoch node d = node div d_size d * d_size d"

definition nodeToIndexUnchecked :: "u64 \<Rightarrow> detector \<Rightarrow> nat" where
  "nodeToIndexUnchecked node d = unat (node mod d_size d)"

definition nodeToIndex :: "u64 \<Rightarrow> detector \<Rightarrow> nat option" where
  "nodeToIndex node d =
     (if node \<ge> d_size d \<and> d_epoch d = nodeToEpoch node d then Some (nodeToIndexUnchecked node d) else None)"

definition indexToNode :: "nat \<Rightarrow> detector \<Rightarrow> u64 option" where
  "indexToNode idx d = (if idx < length (g_v (d_g d)) then Some (of_nat idx + d_epoch d) else None)"

definition getAvailableNode :: "u64 \<Rightarrow> detector \<Rightarrow> (u64 \<times> detector) option" where
  "getAvailableNode data d =
     do { (idx, av) \<leftarrow> tl_getAndClearFirstOne (available_nodes d);
          let d = d\<lparr>available_nodes := av, d_data := (d_data d)[idx := data]\<rparr>;
          node \<leftarrow> indexToNode idx d;
          Some (node, d) }"

text \<open>The loop from the last edge down to the first; \<open>n\<close> edges are still to be looked at.\<close>

primrec purge_edges :: "nat \<Rightarrow> two_level \<Rightarrow> dd_edge list \<Rightarrow> dd_edge list option" where
  "purge_edges 0 recycled es = Some es"
| "purge_edges (Suc i) recycled es =
     do { hit \<leftarrow> tl_getBit (unat (e_from (es ! i))) recycled;
          hit \<leftarrow> (if hit then Some True else tl_getBit (unat (e_to (es ! i))) recycled);
          purge_edges i recycled (if hit then remove_at i es else es) }"

definition newNode :: "u64 \<Rightarrow> detector \<Rightarrow> (u64 \<times> detector) option" where
  "newNode data d =
     (if \<not> tl_empty (available_nodes d) then getAvailableNode data d
      else if \<not> tl_empty (recycled_nodes d)
      then do { es \<leftarrow> purge_edges (length (d_edges d)) (recycled_nodes d) (d_edges d);
                (_, g) \<leftarrow> g_removeEdgesTo (recycled_nodes d) (d_g d);
                (_, av) \<leftarrow> tl_setUnion (available_nodes d) (recycled_nodes d);
                getAvailableNode data (d\<lparr>d_edges := es, d_g := g, available_nodes := av,
                                         recycled_nodes := tl_clear (recycled_nodes d)\<rparr>) }
      else getAvailableNode data (d\<lparr>d_epoch := d_epoch d + d_size d, recycled_nodes := tl_clear (recycled_nodes d),
             available_nodes := tl_setAll (available_nodes d), d_g := g_clear (d_g d), d_edges := []\<rparr>))"

definition getData :: "u64 \<Rightarrow> detector \<Rightarrow> u64 option" where
  "getData node d = do { i \<leftarrow> nodeToIndex node d; Some (d_data d ! i) }"

definition nodeBelongsToCurrentEpoch :: "u64 \<Rightarrow> detector \<Rightarrow> bool" where
  "nodeBelongsToCurrentEpoch node d \<longleftrightarrow> node \<noteq> 0 \<and> node div d_size d * d_size d = d_epoch d"

definition removeNode :: "u64 \<Rightarrow> detector \<Rightarrow> detector option" where
  "removeNode node d =
     do { idx \<leftarrow> nodeToIndex node d;
          av \<leftarrow> tl_getBit idx (available_nodes d);
          (if av then None else Some ());
          (new, re) \<leftarrow> tl_setBit idx (recycled_nodes d);
          (if new then Some () else None);
          g \<leftarrow> g_removeEdgesFrom idx (d_g d);
          Some (d\<lparr>recycled_nodes := re, d_g := g\<rparr>) }"

definition ensureCurrentEpoch :: "detector \<Rightarrow> dd_tls \<Rightarrow> dd_tls" where
  "ensureCurrentEpoch d t = tls_ensureCurrentEpoch (d_epoch d) t"

definition onLockBefore :: "u64 \<Rightarrow> dd_tls \<times> detector \<Rightarrow> (bool \<times> dd_tls \<times> detector) option" where
  "onLockBefore cur_node s =
     (case s of (t, d) \<Rightarrow>
        (let t = ensureCurrentEpoch d t in
         do { cur_idx \<leftarrow> nodeToIndex cur_node d;
              locks \<leftarrow> tls_getLocks (d_epoch d) t;
              (res, g) \<leftarrow> g_isReachable cur_idx locks (d_g d);
              Some (res, t, d\<lparr>d_g := g\<rparr>) }))"

definition onLockAfter :: "u64 \<Rightarrow> u32 \<Rightarrow> detector \<Rightarrow> dd_tls \<Rightarrow> dd_tls option" where
  "onLockAfter cur_node stk d t =
     (let t = ensureCurrentEpoch d t in
      do { cur_idx \<leftarrow> nodeToIndex cur_node d; (_, t) \<leftarrow> tls_addLock cur_idx (d_epoch d) stk t; Some t })"

definition onTryLock :: "u64 \<Rightarrow> u32 \<Rightarrow> detector \<Rightarrow> dd_tls \<Rightarrow> (bool \<times> dd_tls) option" where
  "onTryLock cur_node stk d t = do { t \<leftarrow> onLockAfter cur_node stk d t; Some (False, t) }"

definition hasAllEdges :: "u64 \<Rightarrow> detector \<Rightarrow> dd_tls \<Rightarrow> bool option" where
  "hasAllEdges cur_node d t =
     (let local_epoch = tls_epoch t in
      if cur_node \<noteq> 0 \<and> local_epoch = d_epoch d \<and> local_epoch = nodeToEpoch cur_node d
      then (let cur_idx = nodeToIndexUnchecked cur_node d in
            for_each (\<lambda>l all. if all then g_hasEdge (unat (fst l)) cur_idx (d_g d) else Some False) (all_locks t) True)
      else Some False)"

definition kMaxAddedEdges :: nat where "kMaxAddedEdges = 40"

definition d_addEdges :: "u64 \<Rightarrow> u32 \<Rightarrow> int \<Rightarrow> dd_tls \<times> detector \<Rightarrow> (nat \<times> dd_tls \<times> detector) option" where
  "d_addEdges cur_node stk unique_tid s =
     (case s of (t, d) \<Rightarrow>
        (let t = ensureCurrentEpoch d t in
         do { cur_idx \<leftarrow> nodeToIndex cur_node d;
              locks \<leftarrow> tls_getLocks (d_epoch d) t;
              (added, g) \<leftarrow> g_addEdges locks cur_idx kMaxAddedEdges (d_g d);
              let es = fold (\<lambda>i es. if length es < length (g_v g) * 32
                         then es @ [\<lparr>e_from = of_nat i, e_to = of_nat cur_idx, e_stk_from = tls_findLockContext i t,
                                     e_stk_to = stk, e_unique_tid = unique_tid\<rparr>]
                         else es) added (d_edges d);
              Some (length added, t, d\<lparr>d_g := g, d_edges := es\<rparr>) }))"

definition findEdge :: "u64 \<Rightarrow> u64 \<Rightarrow> detector \<Rightarrow> (u32 \<times> u32 \<times> int) option option" where
  "findEdge from_node to_node d =
     do { from_idx \<leftarrow> nodeToIndex from_node d; to_idx \<leftarrow> nodeToIndex to_node d;
          Some (map_option (\<lambda>e. (e_stk_from e, e_stk_to e, e_unique_tid e))
                  (List.find (\<lambda>e. unat (e_from e) = from_idx \<and> unat (e_to e) = to_idx) (d_edges d))) }"

definition isHeld :: "u64 \<Rightarrow> detector \<Rightarrow> dd_tls \<Rightarrow> bool option" where
  "isHeld node d t = do { locks \<leftarrow> tls_getLocks (d_epoch d) t; idx \<leftarrow> nodeToIndex node d; tl_getBit idx locks }"

definition onFirstLock :: "u64 \<Rightarrow> u32 \<Rightarrow> detector \<Rightarrow> dd_tls \<Rightarrow> (bool \<times> dd_tls) option" where
  "onFirstLock node stk d t =
     (if \<not> tls_empty t then Some (False, t)
      else if tls_epoch t \<noteq> 0 \<and> tls_epoch t = nodeToEpoch node d
      then do { (_, t) \<leftarrow> tls_addLock (nodeToIndexUnchecked node d) (nodeToEpoch node d) stk t; Some (True, t) }
      else Some (False, t))"

definition findPathToLock :: "u64 \<Rightarrow> nat \<Rightarrow> dd_tls \<times> detector \<Rightarrow> (u64 list \<times> detector) option" where
  "findPathToLock cur_node path_size s =
     (case s of (t, d) \<Rightarrow>
        do { locks \<leftarrow> tls_getLocks (d_epoch d) t;
             tmp \<leftarrow> tl_copyFrom (tmp_bv d) locks;
             idx \<leftarrow> nodeToIndex cur_node d;
             held \<leftarrow> tl_getBit idx tmp;
             (if held then None else Some ());
             path \<leftarrow> g_findShortestPath idx tmp path_size (d_g d);
             nodes \<leftarrow> those (map (\<lambda>i. indexToNode i d) path);
             (if nodes \<noteq> [] \<and> hd nodes \<noteq> cur_node then None else Some ());
             Some (nodes, d\<lparr>tmp_bv := tmp\<rparr>) })"

definition onUnlock :: "u64 \<Rightarrow> detector \<Rightarrow> dd_tls \<Rightarrow> dd_tls option" where
  "onUnlock node d t =
     (if tls_epoch t = nodeToEpoch node d then tls_removeLock (nodeToIndexUnchecked node d) t else Some t)"

definition onLockFast :: "u64 \<Rightarrow> u32 \<Rightarrow> detector \<Rightarrow> dd_tls \<Rightarrow> (bool \<times> dd_tls) option" where
  "onLockFast node stk d t =
     do { all \<leftarrow> hasAllEdges node d t;
          if all then do { (_, t) \<leftarrow> tls_addLock (nodeToIndexUnchecked node d) (nodeToEpoch node d) stk t; Some (True, t) }
          else Some (False, t) }"

definition onLock :: "u64 \<Rightarrow> u32 \<Rightarrow> dd_tls \<times> detector \<Rightarrow> (bool \<times> dd_tls \<times> detector) option" where
  "onLock cur_node stk s =
     (case s of (t, d) \<Rightarrow>
        (let t = ensureCurrentEpoch d t in
         do { held \<leftarrow> isHeld cur_node d t;
              (is_reachable, t, d) \<leftarrow> (if held then Some (False, t, d) else onLockBefore cur_node (t, d));
              (_, t, d) \<leftarrow> d_addEdges cur_node stk 0 (t, d);
              t \<leftarrow> onLockAfter cur_node stk d t;
              Some (is_reachable, t, d) }))"

section \<open>The mutexes of the program\<close>

record dd_mutex =
  m_id :: u64
  m_stk :: u32
  m_ctx :: u64

record dd_loop =
  thr_ctx :: u64
  mtx_ctx0 :: u64
  mtx_ctx1 :: u64
  loop_stk :: "u32 \<times> u32"

record dd_thread =
  lt_ctx :: u64
  lt_dd :: dd_tls
  lt_rep :: "dd_loop list"
  report_pending :: bool

text \<open>The detector and the mutexes by address.\<close>

type_synonym dd_world = "detector \<times> (u64 \<Rightarrow> dd_mutex)"

definition dd_CreateLogicalThread :: "u64 \<Rightarrow> dd_tls \<Rightarrow> dd_loop list \<Rightarrow> dd_thread" where
  "dd_CreateLogicalThread ctx fresh_tls fresh_rep =
     \<lparr>lt_ctx = ctx, lt_dd = tls_clear fresh_tls, lt_rep = fresh_rep, report_pending = False\<rparr>"

definition dd_MutexInit :: "u32 \<Rightarrow> u64 \<Rightarrow> dd_world \<Rightarrow> dd_world" where
  "dd_MutexInit unwind m w = (case w of (d, ms) \<Rightarrow> (d, ms(m := (ms m)\<lparr>m_id := 0, m_stk := unwind\<rparr>)))"

definition dd_MutexEnsureID :: "u64 \<Rightarrow> dd_thread \<times> dd_world \<Rightarrow> (dd_thread \<times> dd_world) option" where
  "dd_MutexEnsureID m s =
     (case s of (lt, d, ms) \<Rightarrow>
        do { (d, ms) \<leftarrow> (if \<not> nodeBelongsToCurrentEpoch (m_id (ms m)) d
                        then do { (id, d) \<leftarrow> newNode m d; Some (d, ms(m := (ms m)\<lparr>m_id := id\<rparr>)) }
                        else Some (d, ms));
             Some (lt\<lparr>lt_dd := ensureCurrentEpoch d (lt_dd lt)\<rparr>, d, ms) })"

definition kMaxPath :: nat where "kMaxPath = 20"
definition kMaxLoopSize :: nat where "kMaxLoopSize = 20"

text \<open>The entry \<open>i\<close> of the report, from an array of nodes of length \<open>len\<close>.\<close>

definition loop_entry :: "u64 list \<Rightarrow> nat \<Rightarrow> dd_world \<Rightarrow> nat \<Rightarrow> dd_loop option" where
  "loop_entry path len w i =
     (case w of (d, ms) \<Rightarrow>
        (let from = path ! i; to = path ! ((i + 1) mod len) in
         do { m0 \<leftarrow> getData from d; m1 \<leftarrow> getData to d;
              e \<leftarrow> findEdge from to d;
              let (stk_from, stk_to, unique_tid) = (case e of Some x \<Rightarrow> x | None \<Rightarrow> (- 1, - 1, 0));
              Some \<lparr>thr_ctx = of_int unique_tid, mtx_ctx0 = m_ctx (ms m0), mtx_ctx1 = m_ctx (ms m1),
                    loop_stk = (stk_to, stk_from)\<rparr> }))"

definition dd_ReportDeadlock :: "u64 \<Rightarrow> dd_thread \<times> dd_world \<Rightarrow> (dd_thread \<times> dd_world) option" where
  "dd_ReportDeadlock m s =
     (case s of (lt, d, ms) \<Rightarrow>
        do { (path, d) \<leftarrow> findPathToLock (m_id (ms m)) kMaxPath (lt_dd lt, d);
             if path = [] then Some (lt, d, ms)
             else do { (if m_id (ms m) \<noteq> path ! 0 then None else Some ());
                       let len = min (length path) kMaxLoopSize;
                       rep \<leftarrow> those (map (loop_entry path len (d, ms)) [0..<len]);
                       Some (lt\<lparr>lt_rep := rep, report_pending := True\<rparr>, d, ms) } })"

text \<open>The end of \<open>MutexBeforeLock\<close>, once the mutex has a node and is not held.\<close>

definition dd_check_cycle :: "u32 \<Rightarrow> int \<Rightarrow> u64 \<Rightarrow> dd_thread \<times> dd_world \<Rightarrow> (dd_thread \<times> dd_world) option" where
  "dd_check_cycle unwind tid m s =
     (case s of (lt, d, ms) \<Rightarrow>
        do { (cycle, t, d) \<leftarrow> onLockBefore (m_id (ms m)) (lt_dd lt, d);
             let lt = lt\<lparr>lt_dd := t\<rparr>;
             if cycle
             then do { (_, t, d) \<leftarrow> d_addEdges (m_id (ms m)) unwind tid (lt_dd lt, d);
                       dd_ReportDeadlock m (lt\<lparr>lt_dd := t\<rparr>, d, ms) }
             else Some (lt, d, ms) })"

definition dd_MutexBeforeLock :: "u32 \<Rightarrow> int \<Rightarrow> u64 \<Rightarrow> dd_thread \<times> dd_world \<Rightarrow> (dd_thread \<times> dd_world) option" where
  "dd_MutexBeforeLock unwind tid m s =
     (case s of (lt, d, ms) \<Rightarrow>
        if tls_empty (lt_dd lt) then Some (lt, d, ms)
        else do {
          all \<leftarrow> hasAllEdges (m_id (ms m)) d (lt_dd lt);
          if all then Some (lt, d, ms)
          else do {
            (lt, d, ms) \<leftarrow> dd_MutexEnsureID m (lt, d, ms);
            held \<leftarrow> isHeld (m_id (ms m)) d (lt_dd lt);
            if held then Some (lt, d, ms) else dd_check_cycle unwind tid m (lt, d, ms) } })"

definition dd_MutexAfterLock ::
  "bool \<Rightarrow> u32 \<Rightarrow> int \<Rightarrow> u64 \<Rightarrow> bool \<Rightarrow> bool \<Rightarrow> dd_thread \<times> dd_world \<Rightarrow> (dd_thread \<times> dd_world) option" where
  "dd_MutexAfterLock second_deadlock_stack unwind tid m wlock trylock s =
     (case s of (lt, d, ms) \<Rightarrow>
        (let stk = (if second_deadlock_stack then unwind else 0) in
         do { (first, t) \<leftarrow> onFirstLock (m_id (ms m)) stk d (lt_dd lt);
              if first then Some (lt\<lparr>lt_dd := t\<rparr>, d, ms)
              else do {
                (fast, t) \<leftarrow> onLockFast (m_id (ms m)) stk d (lt_dd lt);
                if fast then Some (lt\<lparr>lt_dd := t\<rparr>, d, ms)
                else do {
                  (lt, d, ms) \<leftarrow> dd_MutexEnsureID m (lt, d, ms);
                  held \<leftarrow> (if wlock then isHeld (m_id (ms m)) d (lt_dd lt) else Some False);
                  (if held then None else Some ());
                  (t, d) \<leftarrow> (if \<not> trylock
                    then map_option snd (d_addEdges (m_id (ms m)) (if stk \<noteq> 0 then stk else unwind) tid (lt_dd lt, d))
                    else Some (lt_dd lt, d));
                  t \<leftarrow> onLockAfter (m_id (ms m)) stk d t;
                  Some (lt\<lparr>lt_dd := t\<rparr>, d, ms) } } }))"

definition dd_MutexBeforeUnlock :: "u64 \<Rightarrow> dd_thread \<times> dd_world \<Rightarrow> (dd_thread \<times> dd_world) option" where
  "dd_MutexBeforeUnlock m s =
     (case s of (lt, d, ms) \<Rightarrow> do { t \<leftarrow> onUnlock (m_id (ms m)) d (lt_dd lt); Some (lt\<lparr>lt_dd := t\<rparr>, d, ms) })"

definition dd_MutexDestroy :: "u64 \<Rightarrow> dd_world \<Rightarrow> dd_world option" where
  "dd_MutexDestroy m w =
     (case w of (d, ms) \<Rightarrow>
        if m_id (ms m) = 0 then Some (d, ms)
        else do { d \<leftarrow> (if nodeBelongsToCurrentEpoch (m_id (ms m)) d then removeNode (m_id (ms m)) d else Some d);
                  Some (d, ms(m := (ms m)\<lparr>m_id := 0\<rparr>)) })"

definition dd_GetReport :: "dd_thread \<Rightarrow> dd_loop list option \<times> dd_thread" where
  "dd_GetReport lt = (if \<not> report_pending lt then (None, lt) else (Some (lt_rep lt), lt\<lparr>report_pending := False\<rparr>))"

end
