(* ===== verification/DeadlockInvariant.thy ===== *)
theory DeadlockInvariant
  imports DeadlockDetector
begin

text \<open>
  The invariants of the deadlock detector and of the locks of a thread, and the effect of every
  operation of \<open>sanitizer_deadlock_detector.h\<close> on the graph of lock acquisitions as a relation.
\<close>

section \<open>Nodes and indices\<close>

definition free_nodes :: "detector \<Rightarrow> nat set" where
  "free_nodes d = tl_bits (available_nodes d) \<union> tl_bits (recycled_nodes d)"

definition d_rel :: "detector \<Rightarrow> (nat \<times> nat) set" where
  "d_rel d = g_edges (d_g d)"

text \<open>A recorded edge is in the graph, unless its source waits to be recycled.\<close>

definition edge_ok :: "nat \<Rightarrow> detector \<Rightarrow> dd_edge \<Rightarrow> bool" where
  "edge_ok N d e \<longleftrightarrow> unat (e_from e) < 4096 * N \<and> unat (e_to e) < 4096 * N \<and>
     (unat (e_from e) \<in> tl_bits (recycled_nodes d) \<or> (unat (e_from e), unat (e_to e)) \<in> d_rel d)"

definition epoch_ok :: "nat \<Rightarrow> u64 \<Rightarrow> bool" where
  "epoch_ok N ep \<longleftrightarrow> 4096 * N dvd unat ep \<and> unat ep + 4096 * N \<le> 2 ^ 64"

definition d_ok :: "nat \<Rightarrow> detector \<Rightarrow> bool" where
  "d_ok N d \<longleftrightarrow> 0 < N \<and> N \<le> 16 \<and> g_ok N (d_g d) \<and> tl_ok N (available_nodes d) \<and> tl_ok N (recycled_nodes d) \<and> tl_ok N (tmp_bv d) \<and>
     length (d_data d) = 4096 * N \<and> epoch_ok N (d_epoch d) \<and> (d_epoch d = 0 \<longrightarrow> free_nodes d = {}) \<and>
     tl_bits (available_nodes d) \<inter> tl_bits (recycled_nodes d) = {} \<and>
     (\<forall>(i, j) \<in> d_rel d. i \<notin> free_nodes d \<and> j \<notin> tl_bits (available_nodes d)) \<and> (\<forall>e \<in> set (d_edges d). edge_ok N d e)"

lemma d_okD:
  assumes "d_ok N d"
  shows "0 < N" "N \<le> 16" "g_ok N (d_g d)" "tl_ok N (available_nodes d)" "tl_ok N (recycled_nodes d)" "tl_ok N (tmp_bv d)"
    "length (d_data d) = 4096 * N" "epoch_ok N (d_epoch d)" "d_epoch d = 0 \<Longrightarrow> free_nodes d = {}"
    "tl_bits (available_nodes d) \<inter> tl_bits (recycled_nodes d) = {}"
    "(i, j) \<in> d_rel d \<Longrightarrow> i \<notin> free_nodes d \<and> j \<notin> tl_bits (available_nodes d)" "e \<in> set (d_edges d) \<Longrightarrow> edge_ok N d e"
  using assms by (auto simp: d_ok_def)

lemma d_size_nat:
  assumes "d_ok N d"
  shows "d_size d = of_nat (4096 * N)" "unat (d_size d) = 4096 * N" "length (g_v (d_g d)) = 4096 * N"
proof -
  show l: "length (g_v (d_g d)) = 4096 * N" using d_okD(3) [OF assms] by (simp add: g_ok_def)
  show s: "d_size d = of_nat (4096 * N)" unfolding d_size_def l ..
  have "4096 * N < 2 ^ 64" using d_okD(2) [OF assms] by simp
  then show "unat (d_size d) = 4096 * N" unfolding s by (simp add: unat_of_nat_small del: of_nat_mult)
qed

lemma node_nat:
  assumes "d_ok N d"
  shows "unat (nodeToEpoch node d) = unat node div (4096 * N) * (4096 * N)"
    "nodeToIndexUnchecked node d = unat node mod (4096 * N)"
    "node \<ge> d_size d \<longleftrightarrow> 4096 * N \<le> unat node"
proof -
  note s = d_size_nat(2) [OF assms]
  have "unat node div (4096 * N) * (4096 * N) \<le> unat node" by (rule div_times_less_eq_dividend)
  then have "unat node div (4096 * N) * (4096 * N) < 2 ^ 64" using unat_64_less [of node] by linarith
  then have "unat (node div d_size d) * unat (d_size d) < 2 ^ 64" by (simp add: unat_div s)
  then show "unat (nodeToEpoch node d) = unat node div (4096 * N) * (4096 * N)"
    unfolding nodeToEpoch_def by (subst unat_mult_lem [THEN iffD1]) (simp_all add: unat_div s)
  show "nodeToIndexUnchecked node d = unat node mod (4096 * N)" by (simp add: nodeToIndexUnchecked_def unat_mod s)
  show "node \<ge> d_size d \<longleftrightarrow> 4096 * N \<le> unat node" by (simp add: word_le_nat_alt s)
qed

lemma epoch_parts:
  assumes "epoch_ok N ep" "i < 4096 * N"
  shows "(unat ep + i) div (4096 * N) * (4096 * N) = unat ep" "(unat ep + i) mod (4096 * N) = i" "unat ep + i < 2 ^ 64"
proof -
  obtain k where k: "unat ep = 4096 * N * k" using assms(1) by (auto simp: epoch_ok_def)
  have "4096 * N \<noteq> 0" using assms(2) by simp
  then show "(unat ep + i) div (4096 * N) * (4096 * N) = unat ep" "(unat ep + i) mod (4096 * N) = i"
    unfolding k using assms(2) by (simp_all add: div_mult_self4 mult.commute)
  show "unat ep + i < 2 ^ 64" using assms by (simp add: epoch_ok_def)
qed

lemma in_epoch_iff:
  assumes "d_ok N d"
  shows "nodeToEpoch node d = d_epoch d \<longleftrightarrow> (\<exists>i < 4096 * N. unat node = unat (d_epoch d) + i)"
proof -
  have "nodeToEpoch node d = d_epoch d \<longleftrightarrow> unat node div (4096 * N) * (4096 * N) = unat (d_epoch d)"
    using node_nat(1) [OF assms, of node] by (simp add: word_unat_eq_iff)
  moreover have "unat node = unat node div (4096 * N) * (4096 * N) + unat node mod (4096 * N)"
    by (rule div_mult_mod_eq [symmetric])
  moreover have "unat node mod (4096 * N) < 4096 * N" using d_okD(1) [OF assms] by simp
  ultimately show ?thesis using epoch_parts(1) [OF d_okD(8) [OF assms]] by metis
qed

lemma nodeToIndex_iff:
  assumes "d_ok N d"
  shows "nodeToIndex node d = Some i \<longleftrightarrow> 4096 * N \<le> unat node \<and> i < 4096 * N \<and> unat node = unat (d_epoch d) + i"
proof -
  have "nodeToIndex node d = Some i \<longleftrightarrow> 4096 * N \<le> unat node \<and> nodeToEpoch node d = d_epoch d \<and> i = unat node mod (4096 * N)"
    using node_nat(2,3) [OF assms, of node] by (auto simp: nodeToIndex_def)
  then show ?thesis using in_epoch_iff [OF assms, of node] epoch_parts(2) [OF d_okD(8) [OF assms]] by metis
qed

lemma indexToNode_eq:
  assumes "d_ok N d" "i < 4096 * N"
  shows "\<exists>node. indexToNode i d = Some node \<and> unat node = unat (d_epoch d) + i"
proof -
  have "unat (of_nat i + d_epoch d) = unat (d_epoch d) + i"
    using epoch_parts(3) [OF d_okD(8) [OF assms(1)] assms(2)]
    by (subst unat_add_lem [THEN iffD1]) (simp_all add: unat_of_nat_small)
  then show ?thesis using assms(2) d_size_nat(3) [OF assms(1)] by (simp add: indexToNode_def)
qed

lemma belongs_iff:
  assumes "d_ok N d"
  shows "nodeBelongsToCurrentEpoch node d \<longleftrightarrow> node \<noteq> 0 \<and> (\<exists>i < 4096 * N. unat node = unat (d_epoch d) + i)"
  using in_epoch_iff [OF assms, of node] by (simp add: nodeBelongsToCurrentEpoch_def nodeToEpoch_def)

section \<open>The locks of a thread\<close>

definition t_inv :: "nat \<Rightarrow> dd_tls \<Rightarrow> bool" where
  "t_inv N t \<longleftrightarrow> 0 < N \<and> N \<le> 16 \<and> tl_ok N (tls_bv t) \<and> distinct (map fst (all_locks t)) \<and>
     (unat \<circ> fst) ` set (all_locks t) = tl_bits (tls_bv t) \<and> set (recursive_locks t) \<subseteq> tl_bits (tls_bv t)"

text \<open>The locks held in the current epoch, and how often a thread has taken a lock.\<close>

definition held :: "detector \<Rightarrow> dd_tls \<Rightarrow> nat set" where
  "held d t = (if tls_epoch t = d_epoch d then tl_bits (tls_bv t) else {})"

definition nesting :: "dd_tls \<Rightarrow> nat \<Rightarrow> nat" where
  "nesting t i = (if i \<in> tl_bits (tls_bv t) then 1 else 0) + count_list (recursive_locks t) i"

lemma t_invD:
  assumes "t_inv N t"
  shows "0 < N" "N \<le> 16" "tl_ok N (tls_bv t)" "distinct (map fst (all_locks t))"
    "(unat \<circ> fst) ` set (all_locks t) = tl_bits (tls_bv t)" "set (recursive_locks t) \<subseteq> tl_bits (tls_bv t)"
    "i \<in> tl_bits (tls_bv t) \<Longrightarrow> i < 4096 * N"
  using assms tl.bits_bound by (auto simp: t_inv_def)

lemma ensure_current:
  assumes "t_inv N t"
  shows "t_inv N (ensureCurrentEpoch d t)" "tls_epoch (ensureCurrentEpoch d t) = d_epoch d"
    "tl_bits (tls_bv (ensureCurrentEpoch d t)) = held d t" "held d (ensureCurrentEpoch d t) = held d t"
  using assms tl.cleared [OF t_invD(3) [OF assms]]
  by (auto simp: ensureCurrentEpoch_def tls_ensureCurrentEpoch_def held_def t_inv_def)

lemma lock_id_u32: "N \<le> 16 \<Longrightarrow> i < 4096 * N \<Longrightarrow> unat (of_nat i :: u32) = i"
  by (rule unat_of_nat_small) simp

lemma addLock_effect:
  assumes t: "t_inv N t" and i: "i < 4096 * N" and ep: "tls_epoch t = e"
    and room: "if i \<in> tl_bits (tls_bv t) then length (recursive_locks t) < 64 else length (all_locks t) < 64"
  shows "\<exists>t'. tls_addLock i e stk t = Some (i \<notin> tl_bits (tls_bv t), t') \<and> t_inv N t' \<and> tls_epoch t' = e \<and>
    tl_bits (tls_bv t') = insert i (tl_bits (tls_bv t)) \<and> nesting t' = (nesting t)(i := Suc (nesting t i))"
proof -
  note u = lock_id_u32 [OF t_invD(2) [OF t] i]
  obtain bv where bv: "tl_setBit i (tls_bv t) = Some (i \<notin> tl_bits (tls_bv t), bv)" "tl_ok N bv"
      "tl_bits bv = insert i (tl_bits (tls_bv t))"
    using tl.set_bit_op [OF t_invD(3) [OF t] i] by blast
  show ?thesis
  proof (cases "i \<in> tl_bits (tls_bv t)")
    case True
    then show ?thesis using t ep room bv by (auto simp: tls_addLock_def kMaxLocks_def t_inv_def nesting_def)
  next
    case False
    have "of_nat i \<notin> fst ` set (all_locks t)" using False t_invD(5) [OF t] u by force
    moreover have "count_list (recursive_locks t) i = 0"
      using False t_invD(6) [OF t] by (auto simp: count_list_0_iff)
    ultimately show ?thesis
      using False t ep room bv u by (auto simp: tls_addLock_def kMaxLocks_def t_inv_def nesting_def image_Un)
  qed
qed

lemma remove_at_mset: "i < length xs \<Longrightarrow> mset (remove_at i xs) = mset (remove1 (xs ! i) xs)"
  by (simp add: remove_at_def mset_swap_out)

lemma last_match:
  "List.find (\<lambda>i. P (xs ! i)) (rev [0..<length xs]) = Some i \<Longrightarrow> i < length xs \<and> P (xs ! i)"
  "List.find (\<lambda>i. P (xs ! i)) (rev [0..<length xs]) = None \<longleftrightarrow> (\<forall>x \<in> set xs. \<not> P x)"
proof -
  show "i < length xs \<and> P (xs ! i)" if "List.find (\<lambda>i. P (xs ! i)) (rev [0..<length xs]) = Some i"
    using that by (auto simp: find_Some_iff rev_nth)
  show "List.find (\<lambda>i. P (xs ! i)) (rev [0..<length xs]) = None \<longleftrightarrow> (\<forall>x \<in> set xs. \<not> P x)"
    by (auto simp: find_None_iff all_set_conv_all_nth)
qed

lemma removeLock_effect:
  assumes t: "t_inv N t" and i: "i < 4096 * N"
  shows "\<exists>t'. tls_removeLock i t = Some t' \<and> t_inv N t' \<and> tls_epoch t' = tls_epoch t \<and>
    tl_bits (tls_bv t') = (if i \<in> set (recursive_locks t) then tl_bits (tls_bv t) else tl_bits (tls_bv t) - {i}) \<and>
    nesting t' = (nesting t)(i := nesting t i - 1)"
proof (cases "List.find (\<lambda>k. recursive_locks t ! k = i) (rev [0..<length (recursive_locks t)])")
  case (Some k)
  note k = last_match(1) [of "\<lambda>x. x = i", OF Some]
  let ?t = "t\<lparr>recursive_locks := remove_at k (recursive_locks t)\<rparr>"
  have m: "mset (remove_at k (recursive_locks t)) = mset (remove1 i (recursive_locks t))"
    using remove_at_mset [of k "recursive_locks t"] k by simp
  have "set (remove_at k (recursive_locks t)) \<subseteq> set (recursive_locks t)"
    using m by (metis mset_eq_setD set_remove1_subset)
  moreover have "count_list (remove_at k (recursive_locks t)) j = count_list (recursive_locks t) j - (if j = i then 1 else 0)" for j
    by (simp add: m flip: count_mset)
  moreover have r: "i \<in> set (recursive_locks t)" using k by auto
  moreover have "Suc (count_list (recursive_locks t) i - Suc 0) = count_list (recursive_locks t) i"
    using r by (cases "count_list (recursive_locks t) i") (simp_all add: count_list_0_iff)
  ultimately show ?thesis using t Some by (auto simp: tls_removeLock_def t_inv_def nesting_def fun_eq_iff count_list_0_iff)
next
  case None
  note n = None [unfolded last_match(2) [of "\<lambda>x. x = i"]]
  have nr: "i \<notin> set (recursive_locks t)" using n by blast
  obtain bv where bv: "tl_clearBit i (tls_bv t) = Some (i \<in> tl_bits (tls_bv t), bv)" "tl_ok N bv"
      "tl_bits bv = tl_bits (tls_bv t) - {i}"
    using tl.clear_bit_op [OF t_invD(3) [OF t] i] by blast
  have c: "count_list (recursive_locks t) i = 0" using nr by (simp add: count_list_0_iff)
  let ?P = "\<lambda>l. fst l = (of_nat i :: u32)"
  show ?thesis
  proof (cases "i \<in> tl_bits (tls_bv t)")
    case False
    then show ?thesis using None t bv nr c by (auto simp: tls_removeLock_def t_inv_def nesting_def fun_eq_iff)
  next
    case True
    note u = lock_id_u32 [OF t_invD(2) [OF t] i]
    obtain l where l: "l \<in> set (all_locks t)" "unat (fst l) = i" using True t_invD(5) [OF t] by force
    then have "\<not> (\<forall>x \<in> set (all_locks t). \<not> ?P x)" using u by (metis word_unat_eq_iff)
    then obtain k where f: "List.find (\<lambda>k. ?P (all_locks t ! k)) (rev [0..<length (all_locks t)]) = Some k"
      using last_match(2) [of ?P] by blast
    note k = last_match(1) [of ?P, OF f]
    have m: "mset (remove_at k (all_locks t)) = mset (remove1 (all_locks t ! k) (all_locks t))"
      using remove_at_mset k by blast
    have d: "distinct (all_locks t)" using t_invD(4) [OF t] by (simp add: distinct_map)
    have st: "set (remove_at k (all_locks t)) = set (all_locks t) - {all_locks t ! k}"
      using mset_eq_setD [OF m] d by simp
    have "mset (map fst (remove_at k (all_locks t))) = mset (map fst (remove1 (all_locks t ! k) (all_locks t)))"
      using m by simp
    moreover have "distinct (map fst (remove1 (all_locks t ! k) (all_locks t)))"
      using t_invD(4) [OF t] d by (auto simp: distinct_map inj_on_def)
    ultimately have dm: "distinct (map fst (remove_at k (all_locks t)))" using mset_eq_imp_distinct_iff by blast
    have "(unat \<circ> fst) ` set (remove_at k (all_locks t)) = (unat \<circ> fst) ` set (all_locks t) - {i}"
    proof -
      have "unat (fst l') = i \<longleftrightarrow> l' = all_locks t ! k" if "l' \<in> set (all_locks t)" for l'
      proof
        assume "unat (fst l') = i"
        then have "fst l' = fst (all_locks t ! k)" using k u by (metis word_unat_eq_iff)
        then show "l' = all_locks t ! k"
          using that k t_invD(4) [OF t] by (metis distinct_map inj_onD nth_mem)
      qed (use k u in simp)
      then show ?thesis unfolding st by auto
    qed
    then show ?thesis
      using None True t bv nr c f dm by (auto simp: tls_removeLock_def t_inv_def nesting_def fun_eq_iff)
  qed
qed

section \<open>Edges\<close>

lemma acyclic_targets:
  assumes "finite H" "acyclic E"
  shows "acyclic (E \<union> H \<times> {i}) \<longleftrightarrow> (\<forall>h \<in> H. (i, h) \<notin> E\<^sup>*)"
  using assms(1)
proof induction
  case empty
  then show ?case using assms(2) by simp
next
  case (insert h H)
  have "(i, b) \<in> (E \<union> H \<times> {i})\<^sup>* \<longleftrightarrow> (i, b) \<in> E\<^sup>*" for b
  proof
    assume "(i, b) \<in> (E \<union> H \<times> {i})\<^sup>*"
    then show "(i, b) \<in> E\<^sup>*" by induction (auto intro: rtrancl_into_rtrancl)
  next
    assume "(i, b) \<in> E\<^sup>*"
    then show "(i, b) \<in> (E \<union> H \<times> {i})\<^sup>*" using rtrancl_mono [of E "E \<union> H \<times> {i}"] by blast
  qed
  moreover have "E \<union> insert h H \<times> {i} = insert (h, i) (E \<union> H \<times> {i})" by auto
  ultimately show ?case using insert.IH by (auto simp: acyclic_insert)
qed

lemma onLockBefore_effect:
  assumes d: "d_ok N d" and t: "t_inv N t" and i: "nodeToIndex cur d = Some i"
  shows "\<exists>d'. onLockBefore cur (t, d) = Some (\<exists>h \<in> held d t. (i, h) \<in> (d_rel d)\<^sup>*, ensureCurrentEpoch d t, d') \<and>
    d_ok N d' \<and> d_rel d' = d_rel d \<and> d' = d\<lparr>d_g := d_g d'\<rparr>"
proof -
  let ?t = "ensureCurrentEpoch d t"
  have tl: "tl_ok N (tls_bv ?t)" using t_invD(3) [OF ensure_current(1) [OF t]] .
  have iN: "i < 4096 * N" using i unfolding nodeToIndex_iff [OF d] by simp
  obtain g where g: "g_isReachable i (tls_bv ?t) (d_g d) = Some (\<exists>h \<in> tl_bits (tls_bv ?t). (i, h) \<in> (g_edges (d_g d))\<^sup>*, g)"
      "g_ok N g" "g_edges g = g_edges (d_g d)"
    using g_isReachable_effect [OF d_okD(3) [OF d] iN tl] by blast
  have "d_ok N (d\<lparr>d_g := g\<rparr>)" using d g(2,3) unfolding d_ok_def d_rel_def free_nodes_def edge_ok_def by simp
  then show ?thesis
    using i g ensure_current(2,3) [OF t] by (intro exI [of _ "d\<lparr>d_g := g\<rparr>"]) (simp add: onLockBefore_def tls_getLocks_def d_rel_def)
qed

lemma addEdges_effect:
  assumes d: "d_ok N d" and t: "t_inv N t" and i: "nodeToIndex cur d = Some i" "i \<notin> tl_bits (available_nodes d)"
    and h: "held d t \<inter> free_nodes d = {}"
  shows "\<exists>n d'. d_addEdges cur stk tid (t, d) = Some (n, ensureCurrentEpoch d t, d') \<and> d_ok N d' \<and>
    d_rel d' = d_rel d \<union> held d t \<times> {i} \<and> d' = d\<lparr>d_g := d_g d', d_edges := d_edges d'\<rparr>"
proof -
  let ?t = "ensureCurrentEpoch d t"
  note b = ensure_current(3) [OF t]
  have tl: "tl_ok N (tls_bv ?t)" using t_invD(3) [OF ensure_current(1) [OF t]] .
  have iN: "i < 4096 * N" using i unfolding nodeToIndex_iff [OF d] by simp
  obtain added g where g: "g_addEdges (tls_bv ?t) i kMaxAddedEdges (d_g d) = Some (added, g)" "g_ok N g"
      "g_edges g = g_edges (d_g d) \<union> tl_bits (tls_bv ?t) \<times> {i}"
      "added = take kMaxAddedEdges (sorted_list_of_set {k \<in> tl_bits (tls_bv ?t). (k, i) \<notin> g_edges (d_g d)})"
    using g_addEdges_effect [OF d_okD(3) [OF d] tl iN] by blast
  have "set added \<subseteq> held d t" using g(4) tl.finite_bits [OF tl] b by (auto dest!: in_set_takeD)
  define mk where "mk k = \<lparr>e_from = of_nat k, e_to = of_nat i, e_stk_from = tls_findLockContext k ?t, e_stk_to = stk, e_unique_tid = tid\<rparr>" for k
  let ?es = "fold (\<lambda>k es. if length es < length (g_v g) * 32 then es @ [mk k] else es) added (d_edges d)"
  let ?d = "d\<lparr>d_g := g, d_edges := ?es\<rparr>"
  have rel: "d_rel ?d = d_rel d \<union> held d t \<times> {i}" using g(3) b by (simp add: d_rel_def)
  have "edge_ok N ?d (mk k)" if "k \<in> held d t" for k
  proof -
    have "k < 4096 * N" using that b tl.bits_bound [OF tl] by auto
    moreover have "unat (of_nat j :: u16) = j" if "j < 4096 * N" for j
      using that d_okD(2) [OF d] by (intro unat_of_nat_small) simp
    ultimately show ?thesis using iN that rel by (simp add: edge_ok_def mk_def)
  qed
  then have "set ?es \<subseteq> set (d_edges d) \<union> {e. edge_ok N ?d e}" using \<open>set added \<subseteq> held d t\<close>
    by (intro fold_invariant [of added "\<lambda>k. k \<in> held d t" "\<lambda>es. set es \<subseteq> set (d_edges d) \<union> {e. edge_ok N ?d e}"]) auto
  moreover have "edge_ok N ?d e" if "e \<in> set (d_edges d)" for e using d_okD(12) [OF d that] rel by (auto simp: edge_ok_def)
  ultimately have edges: "\<forall>e \<in> set ?es. edge_ok N ?d e" by blast
  have "\<forall>(a, c) \<in> d_rel ?d. a \<notin> free_nodes ?d \<and> c \<notin> tl_bits (available_nodes ?d)"
    unfolding rel using d_okD(11) [OF d] h i(2) by (fastforce simp: free_nodes_def)
  then have "d_ok N ?d" using d edges g(2) unfolding d_ok_def by (simp add: free_nodes_def)
  moreover have "d_addEdges cur stk tid (t, d) = Some (length added, ?t, ?d)"
    using i g(1) ensure_current(2) [OF t] unfolding mk_def by (simp add: d_addEdges_def tls_getLocks_def Let_def)
  ultimately show ?thesis using rel by (intro exI [of _ "length added"] exI [of _ ?d]) simp
qed

lemma isHeld_effect:
  assumes d: "d_ok N d" and t: "t_inv N t" "tls_epoch t = d_epoch d" and i: "nodeToIndex cur d = Some i"
  shows "isHeld cur d t = Some (i \<in> held d t)"
  using tl.get_bit_op [OF t_invD(3) [OF t(1)], of i] i t(2)
  unfolding nodeToIndex_iff [OF d] by (simp add: isHeld_def tls_getLocks_def held_def i)

section \<open>New and removed nodes\<close>

lemma purge_edges_effect:
  assumes r: "tl_ok N r" and es: "\<forall>e \<in> set es. unat (e_from e) < 4096 * N \<and> unat (e_to e) < 4096 * N" and n: "n \<le> length es"
  shows "\<exists>es'. purge_edges n r es = Some es' \<and>
    mset es' = filter_mset (\<lambda>e. unat (e_from e) \<notin> tl_bits r \<and> unat (e_to e) \<notin> tl_bits r) (mset (take n es)) + mset (drop n es)"
  using es n
proof (induction n arbitrary: es)
  case (Suc n)
  let ?P = "\<lambda>e. unat (e_from e) \<notin> tl_bits r \<and> unat (e_to e) \<notin> tl_bits r" and ?e = "es ! n"
  have e: "unat (e_from ?e) < 4096 * N" "unat (e_to ?e) < 4096 * N" using Suc.prems by auto
  have n: "n < length es" using Suc.prems(2) by simp
  note split = take_Suc_conv_app_nth [OF n] Cons_nth_drop_Suc [OF n, symmetric]
  show ?case
  proof (cases "?P ?e")
    case True
    obtain es' where "purge_edges n r es = Some es'" "mset es' = filter_mset ?P (mset (take n es)) + mset (drop n es)"
      using Suc.IH [OF Suc.prems(1)] n by auto
    then show ?thesis using True tl.get_bit_op [OF r e(1)] tl.get_bit_op [OF r e(2)] by (simp add: split)
  next
    case False
    let ?es = "remove_at n es"
    have m: "mset ?es = mset es - {#?e#}" using remove_at_mset [OF n] by simp
    have "set ?es \<subseteq> set es" using m by (metis in_diffD set_mset_mset subsetI)
    then have bound: "\<forall>e \<in> set ?es. unat (e_from e) < 4096 * N \<and> unat (e_to e) < 4096 * N" using Suc.prems(1) by blast
    have l: "length ?es = length es - 1" by (simp add: remove_at_def)
    have n': "n \<le> length ?es" using l n by arith
    have t: "take n ?es = take n es" using n by (simp add: remove_at_def take_butlast)
    obtain es' where es': "purge_edges n r ?es = Some es'" "mset es' = filter_mset ?P (mset (take n ?es)) + mset (drop n ?es)"
      using Suc.IH [OF bound] n' by auto
    have "mset es = add_mset ?e (mset (take n es) + mset (drop (Suc n) es))"
      using arg_cong [OF id_take_nth_drop [OF n], of mset] by simp
    then have "mset ?es = mset (take n es) + mset (drop (Suc n) es)" using m by simp
    moreover have "mset ?es = mset (take n ?es) + mset (drop n ?es)"
      by (metis append_take_drop_id mset_append)
    ultimately have "mset (drop n ?es) = mset (drop (Suc n) es)" by (simp add: t)
    moreover have "tl_getBit (unat (e_from ?e)) r = Some False \<Longrightarrow> tl_getBit (unat (e_to ?e)) r = Some True"
      using False tl.get_bit_op [OF r e(1)] tl.get_bit_op [OF r e(2)] by simp
    ultimately show ?thesis
      using False es' t tl.get_bit_op [OF r e(1)] tl.get_bit_op [OF r e(2)] by (auto simp: split)
  qed
qed auto

lemma getAvailableNode_effect:
  assumes d: "d_ok N d" and ne: "tl_bits (available_nodes d) \<noteq> {}" and iso: "\<forall>(a, b) \<in> d_rel d. b \<notin> tl_bits (available_nodes d)"
    and i: "i = Min (tl_bits (available_nodes d))"
  shows "\<exists>node d'. getAvailableNode x d = Some (node, d') \<and> d_ok N d' \<and> nodeToIndex node d' = Some i \<and>
    i \<in> tl_bits (available_nodes d) \<and> tl_bits (available_nodes d') = tl_bits (available_nodes d) - {i} \<and>
    d' = d\<lparr>available_nodes := available_nodes d', d_data := (d_data d)[i := x]\<rparr>"
proof -
  note av = d_okD(4) [OF d]
  obtain v where v: "tl_getAndClearFirstOne (available_nodes d) = Some (i, v)" "tl_ok N v" "tl_bits v = tl_bits (available_nodes d) - {i}"
    using tl.first [OF av ne] i by blast
  have i_in: "i \<in> tl_bits (available_nodes d)" using i ne tl.finite_bits [OF av] by simp
  then have iN: "i < 4096 * N" using tl.bits_bound [OF av] by auto
  let ?d = "d\<lparr>available_nodes := v, d_data := (d_data d)[i := x]\<rparr>"
  have "free_nodes ?d \<subseteq> free_nodes d" using v(3) by (auto simp: free_nodes_def)
  then have "d_ok N ?d" using d v(2,3) unfolding d_ok_def by (auto simp: d_rel_def edge_ok_def)
  moreover obtain node where node: "indexToNode i ?d = Some node" "unat node = unat (d_epoch d) + i"
    using indexToNode_eq [OF \<open>d_ok N ?d\<close> iN] by auto
  moreover have "4096 * N \<le> unat (d_epoch d)"
  proof -
    have "unat (d_epoch d) \<noteq> 0" using d_okD(9) [OF d] i_in by (auto simp: free_nodes_def unat_eq_0)
    then show ?thesis using d_okD(8) [OF d] by (simp add: epoch_ok_def dvd_imp_le)
  qed
  ultimately have "nodeToIndex node ?d = Some i" using iN unfolding nodeToIndex_iff [OF \<open>d_ok N ?d\<close>] by simp
  then show ?thesis using v node(1) \<open>d_ok N ?d\<close> i_in
    by (intro exI [of _ node] exI [of _ ?d]) (simp add: getAvailableNode_def)
qed

lemma d_ok_recycled:
  assumes d: "d_ok N d" and none: "tl_bits (available_nodes d) = {}" and es: "mset es = filter_mset
      (\<lambda>e. unat (e_from e) \<notin> tl_bits (recycled_nodes d) \<and> unat (e_to e) \<notin> tl_bits (recycled_nodes d)) (mset (d_edges d))"
    and g: "g_ok N g" "g_edges g = {(a, b) \<in> d_rel d. b \<notin> tl_bits (recycled_nodes d)}"
    and av: "tl_ok N av" "tl_bits av = tl_bits (recycled_nodes d)"
  shows "d_ok N (d\<lparr>d_edges := es, d_g := g, available_nodes := av, recycled_nodes := tl_clear (recycled_nodes d)\<rparr>)"
proof -
  note c = tl.cleared [OF d_okD(5) [OF d]]
  let ?d = "d\<lparr>d_edges := es, d_g := g, available_nodes := av, recycled_nodes := tl_clear (recycled_nodes d)\<rparr>"
  have free: "free_nodes ?d = free_nodes d" using c av(2) none by (simp add: free_nodes_def)
  have "set es = {e \<in> set (d_edges d). unat (e_from e) \<notin> tl_bits (recycled_nodes d) \<and> unat (e_to e) \<notin> tl_bits (recycled_nodes d)}"
    using arg_cong [OF es, of set_mset] by simp
  then have "\<forall>e \<in> set es. edge_ok N ?d e" using d_okD(12) [OF d] g(2) by (auto simp: edge_ok_def d_rel_def)
  moreover have "\<forall>(i, j) \<in> d_rel ?d. i \<notin> free_nodes ?d \<and> j \<notin> tl_bits (available_nodes ?d)"
    using d_okD(11) [OF d] g(2) av(2) unfolding free by (auto simp: d_rel_def)
  moreover have "d_epoch d = 0 \<longrightarrow> free_nodes ?d = {}" using d_okD(9) [OF d] unfolding free by blast
  ultimately show ?thesis using d c g(1) av(1) unfolding d_ok_def by simp
qed

lemma d_ok_flushed:
  assumes d: "d_ok N d" and room: "unat (d_epoch d) + 2 * (4096 * N) \<le> 2 ^ 64"
  defines "d' \<equiv> d\<lparr>d_epoch := d_epoch d + d_size d, recycled_nodes := tl_clear (recycled_nodes d),
             available_nodes := tl_setAll (available_nodes d), d_g := g_clear (d_g d), d_edges := []\<rparr>"
  shows "d_ok N d'" "d_rel d' = {}" "tl_bits (available_nodes d') = {..<4096 * N}" "tl_bits (recycled_nodes d') = {}"
    "unat (d_epoch d') = unat (d_epoch d) + 4096 * N"
proof -
  note c = tl.cleared [OF d_okD(5) [OF d]] and a = tl_setAll_ok [OF d_okD(4) [OF d]] and g = g_clear_effect [OF d_okD(3) [OF d]]
  show r: "d_rel d' = {}" "tl_bits (available_nodes d') = {..<4096 * N}" "tl_bits (recycled_nodes d') = {}"
    using c a g by (simp_all add: d'_def d_rel_def)
  show ep: "unat (d_epoch d') = unat (d_epoch d) + 4096 * N"
  proof -
    have "unat (d_epoch d) + unat (d_size d) < 2 ^ 64" using room d_okD(1) [OF d] d_size_nat(2) [OF d] by simp
    then show ?thesis unfolding d'_def by (simp add: unat_add_lem [THEN iffD1] d_size_nat(2) [OF d])
  qed
  then have "epoch_ok N (d_epoch d')" using d_okD(8) [OF d] room by (simp add: epoch_ok_def)
  moreover have "d_epoch d' \<noteq> 0" using ep d_okD(1) [OF d] by (auto simp flip: unat_eq_0)
  ultimately show "d_ok N d'" using d c a g r unfolding d_ok_def by (simp add: d'_def)
qed

lemma newNode_effect:
  assumes d: "d_ok N d" and room: "unat (d_epoch d) + 2 * (4096 * N) \<le> 2 ^ 64"
  shows "\<exists>node d' i. newNode x d = Some (node, d') \<and> d_ok N d' \<and> nodeToIndex node d' = Some i \<and> i \<notin> free_nodes d' \<and>
    d_data d' = (d_data d)[i := x] \<and> (\<forall>j. (i, j) \<notin> d_rel d' \<and> (j, i) \<notin> d_rel d') \<and>
    (if free_nodes d = {} then unat (d_epoch d') = unat (d_epoch d) + 4096 * N \<and> d_rel d' = {}
     else d_epoch d' = d_epoch d \<and> i \<in> free_nodes d \<and> free_nodes d' = free_nodes d - {i} \<and>
       d_rel d' = {(a, b) \<in> d_rel d. tl_bits (available_nodes d) = {} \<longrightarrow> b \<notin> tl_bits (recycled_nodes d)})"
proof -
  have get: "\<exists>node d' i. getAvailableNode x e = Some (node, d') \<and> d_ok N d' \<and> nodeToIndex node d' = Some i \<and> i \<notin> free_nodes d' \<and>
      d_data d' = (d_data e)[i := x] \<and> (\<forall>j. (i, j) \<notin> d_rel d' \<and> (j, i) \<notin> d_rel d') \<and> d_epoch d' = d_epoch e \<and>
      i \<in> free_nodes e \<and> free_nodes d' = free_nodes e - {i} \<and> d_rel d' = d_rel e"
    if e: "d_ok N e" "tl_bits (available_nodes e) \<noteq> {}" for e
  proof -
    have iso: "\<forall>(a, b) \<in> d_rel e. b \<notin> tl_bits (available_nodes e)" using d_okD(11) [OF e(1)] by blast
    obtain i node d' where n: "getAvailableNode x e = Some (node, d')" "d_ok N d'" "nodeToIndex node d' = Some i"
        "i \<in> tl_bits (available_nodes e)" "tl_bits (available_nodes d') = tl_bits (available_nodes e) - {i}"
        "d' = e\<lparr>available_nodes := available_nodes d', d_data := (d_data e)[i := x]\<rparr>"
      using getAvailableNode_effect [OF e iso refl, of x] by blast
    have same: "d_rel d' = d_rel e" "recycled_nodes d' = recycled_nodes e" "d_epoch d' = d_epoch e" "d_data d' = (d_data e)[i := x]"
      by (subst n(6), simp add: d_rel_def)+
    have free: "free_nodes d' = free_nodes e - {i}" "i \<in> free_nodes e"
      using n(4,5) same(2) d_okD(10) [OF e(1)] by (auto simp: free_nodes_def)
    have "(i, j) \<notin> d_rel e \<and> (j, i) \<notin> d_rel e" for j using d_okD(11) [OF e(1)] n(4) free(2) by blast
    then show ?thesis using n(1-3) same free by (intro exI [of _ node] exI [of _ d'] exI [of _ i]) simp
  qed
  show ?thesis
  proof (cases "tl_bits (available_nodes d) = {}")
    case False
    then have "free_nodes d \<noteq> {}" by (auto simp: free_nodes_def)
    then show ?thesis
      using get [OF d False] False tl.is_empty [OF d_okD(4) [OF d]] by (auto simp: newNode_def)
  next
    case av: True
    note avE = tl.is_empty [OF d_okD(4) [OF d]] and reE = tl.is_empty [OF d_okD(5) [OF d]]
    show ?thesis
    proof (cases "tl_bits (recycled_nodes d) = {}")
      case True
      then have "free_nodes d = {}" using av by (simp add: free_nodes_def)
      note fl = d_ok_flushed [OF d room]
      have "0 \<in> {..<4096 * N}" using d_okD(1) [OF d] by simp
      then have ne: "tl_bits (available_nodes (d\<lparr>d_epoch := d_epoch d + d_size d, recycled_nodes := tl_clear (recycled_nodes d),
             available_nodes := tl_setAll (available_nodes d), d_g := g_clear (d_g d), d_edges := []\<rparr>)) \<noteq> {}"
        unfolding fl(3) by blast
      show ?thesis
        using get [OF fl(1) ne] fl(2,5) av True \<open>free_nodes d = {}\<close> avE reE by (auto simp: newNode_def)
    next
      case False
      let ?r = "tl_bits (recycled_nodes d)"
      have "\<forall>e \<in> set (d_edges d). unat (e_from e) < 4096 * N \<and> unat (e_to e) < 4096 * N"
        using d_okD(12) [OF d] by (simp add: edge_ok_def)
      then obtain es where es: "purge_edges (length (d_edges d)) (recycled_nodes d) (d_edges d) = Some es"
          "mset es = filter_mset (\<lambda>e. unat (e_from e) \<notin> ?r \<and> unat (e_to e) \<notin> ?r) (mset (d_edges d))"
        using purge_edges_effect [OF d_okD(5) [OF d], of "d_edges d" "length (d_edges d)"] by auto
      obtain res g where g: "g_removeEdgesTo (recycled_nodes d) (d_g d) = Some (res, g)" "g_ok N g"
          "g_edges g = {(a, b) \<in> d_rel d. b \<notin> ?r}"
        using g_removeEdgesTo_effect [OF d_okD(3,5) [OF d]] unfolding d_rel_def by blast
      obtain b v where v: "tl_setUnion (available_nodes d) (recycled_nodes d) = Some (b, v)" "tl_ok N v" "tl_bits v = ?r"
        using tl.union [OF d_okD(4,5) [OF d]] av by auto
      let ?d = "d\<lparr>d_edges := es, d_g := g, available_nodes := v, recycled_nodes := tl_clear (recycled_nodes d)\<rparr>"
      have ok: "d_ok N ?d" by (rule d_ok_recycled [OF d av es(2) g(2,3) v(2,3)])
      have free: "free_nodes ?d = free_nodes d" "free_nodes d \<noteq> {}"
        using tl.cleared [OF d_okD(5) [OF d]] v(3) av False by (auto simp: free_nodes_def)
      have "newNode x d = getAvailableNode x ?d" using es(1) g(1) v(1) av False avE reE by (simp add: newNode_def)
      moreover have "tl_bits (available_nodes ?d) \<noteq> {}" using v(3) False by simp
      moreover have "d_rel ?d = {(a, b) \<in> d_rel d. b \<notin> ?r}" using g(3) by (simp add: d_rel_def)
      ultimately show ?thesis using get [OF ok] free av by auto
    qed
  qed
qed

lemma removeNode_effect:
  assumes d: "d_ok N d" and i: "nodeToIndex node d = Some i" "i \<notin> free_nodes d"
  shows "\<exists>d'. removeNode node d = Some d' \<and> d_ok N d' \<and> free_nodes d' = insert i (free_nodes d) \<and>
    d_rel d' = {(a, b) \<in> d_rel d. a \<noteq> i} \<and> d' = d\<lparr>recycled_nodes := recycled_nodes d', d_g := d_g d'\<rparr>"
proof -
  have iN: "i < 4096 * N" "4096 * N \<le> unat node" "unat node = unat (d_epoch d) + i" using i(1) unfolding nodeToIndex_iff [OF d] by simp_all
  have av: "tl_getBit i (available_nodes d) = Some False"
    using tl.get_bit_op [OF d_okD(4) [OF d] iN(1)] i(2) by (simp add: free_nodes_def)
  obtain r where r: "tl_setBit i (recycled_nodes d) = Some (True, r)" "tl_ok N r" "tl_bits r = insert i (tl_bits (recycled_nodes d))"
    using tl.set_bit_op [OF d_okD(5) [OF d] iN(1)] i(2) by (auto simp: free_nodes_def)
  obtain g where g: "g_removeEdgesFrom i (d_g d) = Some g" "g_ok N g" "g_edges g = {(a, b) \<in> d_rel d. a \<noteq> i}"
    using g_removeEdgesFrom_effect [OF d_okD(3) [OF d] iN(1)] unfolding d_rel_def by blast
  let ?d = "d\<lparr>recycled_nodes := r, d_g := g\<rparr>"
  have free: "free_nodes ?d = insert i (free_nodes d)" using r(3) by (simp add: free_nodes_def)
  have rel: "d_rel ?d = {(a, b) \<in> d_rel d. a \<noteq> i}" using g(3) by (simp add: d_rel_def)
  have "\<forall>e \<in> set (d_edges d). edge_ok N ?d e" using d_okD(12) [OF d] r(3) rel by (auto simp: edge_ok_def)
  moreover have "\<forall>(a, b) \<in> d_rel ?d. a \<notin> free_nodes ?d \<and> b \<notin> tl_bits (available_nodes ?d)"
    using d_okD(11) [OF d] unfolding rel free by auto
  moreover have "d_epoch d \<noteq> 0" using iN by auto
  moreover have "tl_bits (available_nodes d) \<inter> tl_bits r = {}" using r(3) d_okD(10) [OF d] i(2) by (auto simp: free_nodes_def)
  ultimately have "d_ok N ?d" using d r(2) g(2) unfolding d_ok_def by simp
  then show ?thesis using i(1) av r(1) g(1) free rel by (intro exI [of _ ?d]) (simp add: removeNode_def)
qed

section \<open>Paths to a held lock\<close>

lemma walk_bound:
  assumes "g_ok N g" "walk_to (g_edges g) s T p" "s < 4096 * N" "j \<in> set p"
  shows "j < 4096 * N"
proof -
  obtain k where k: "k < length p" "p ! k = j" using assms(4) by (auto simp: in_set_conv_nth)
  show ?thesis
  proof (cases k)
    case 0
    then show ?thesis using assms(2,3) k by (auto simp: walk_to_def hd_conv_nth walk_def)
  next
    case (Suc m)
    then have "(p ! m, p ! k) \<in> g_edges g" using assms(2) k(1) by (auto simp: walk_to_def walk_def)
    then show ?thesis using g_edges_bound [OF assms(1)] k(2) by blast
  qed
qed

lemma those_total: "\<forall>x \<in> set xs. \<exists>y. f x = Some y \<Longrightarrow> those (map f xs) = Some (map (the \<circ> f) xs)"
  by (induction xs) auto

lemma findPathToLock_effect:
  assumes d: "d_ok N d" and t: "t_inv N t" "tls_epoch t = d_epoch d" and i: "nodeToIndex cur d = Some i" "i \<notin> held d t"
  shows "\<exists>p d'. findPathToLock cur k (t, d) = Some (map (\<lambda>j. the (indexToNode j d)) p, d') \<and> d_ok N d' \<and> d' = d\<lparr>tmp_bv := tmp_bv d'\<rparr> \<and>
    (if p = [] then \<forall>q. walk_to (d_rel d) i (held d t) q \<longrightarrow> k < length q
     else walk_to (d_rel d) i (held d t) p \<and> length p \<le> k \<and> (\<forall>q. walk_to (d_rel d) i (held d t) q \<longrightarrow> length p \<le> length q) \<and>
       (\<forall>j \<in> set p. j < 4096 * N))"
proof -
  have iN: "i < 4096 * N" "unat cur = unat (d_epoch d) + i" using i(1) unfolding nodeToIndex_iff [OF d] by simp_all
  have h: "tl_bits (tls_bv t) = held d t" using t(2) by (simp add: held_def)
  obtain tmp where tmp: "tl_copyFrom (tmp_bv d) (tls_bv t) = Some tmp" "tl_ok N tmp" "tl_bits tmp = held d t"
    using tl.copy [OF d_okD(6) [OF d] t_invD(3) [OF t(1)]] h by (auto simp: tl_copyFrom_def)
  have get: "tl_getBit i tmp = Some False" using tl.get_bit_op [OF tmp(2) iN(1)] tmp(3) i(2) by simp
  obtain p where p: "g_findShortestPath i tmp k (d_g d) = Some p"
      "if p = [] then \<forall>q. walk_to (d_rel d) i (held d t) q \<longrightarrow> k < length q
       else walk_to (d_rel d) i (held d t) p \<and> length p \<le> k \<and> (\<forall>q. walk_to (d_rel d) i (held d t) q \<longrightarrow> length p \<le> length q)"
    using findShortestPath_result [OF d_okD(3) [OF d] tmp(2) iN(1), of k] unfolding tmp(3) d_rel_def by blast
  have bound: "\<forall>j \<in> set p. j < 4096 * N"
  proof (cases "p = []")
    case False
    then have "walk_to (g_edges (d_g d)) i (held d t) p" using p(2) by (simp add: d_rel_def)
    then show ?thesis using walk_bound [OF d_okD(3) [OF d]] iN(1) by blast
  qed simp
  let ?n = "map (\<lambda>j. the (indexToNode j d)) p"
  have "those (map (\<lambda>j. indexToNode j d) p) = Some ?n"
    using those_total [of p "\<lambda>j. indexToNode j d"] bound indexToNode_eq [OF d] by (fastforce simp: comp_def)
  moreover have "hd ?n = cur" if "p \<noteq> []"
  proof -
    have "hd p = i" using p(2) that by (simp add: walk_to_def)
    moreover obtain n where "indexToNode i d = Some n" "unat n = unat (d_epoch d) + i" using indexToNode_eq [OF d iN(1)] by blast
    ultimately show ?thesis using that iN(2) by (simp add: hd_map word_unat_eq_iff)
  qed
  moreover have "d_ok N (d\<lparr>tmp_bv := tmp\<rparr>)"
    using d tmp(2) unfolding d_ok_def d_rel_def free_nodes_def edge_ok_def by simp
  ultimately show ?thesis using tmp(1) get p bound i(1) t(2)
    by (intro exI [of _ p] exI [of _ "d\<lparr>tmp_bv := tmp\<rparr>"]) (simp add: findPathToLock_def tls_getLocks_def)
qed

end
