(* ===== verification/DeadlockProperties.thy ===== *)
theory DeadlockProperties
  imports DeadlockInvariant
begin

text \<open>
  What the deadlock detector guarantees: the lock handlers of \<open>sanitizer_deadlock_detector1.cpp\<close> as
  the steps of a system of threads and mutexes, the invariant of its reachable states, and the
  properties of the single operations that the handlers are made of.
\<close>

section \<open>Reports\<close>

lemma for_each_all:
  assumes "\<forall>x \<in> set xs. f x = Some (P x)"
  shows "for_each (\<lambda>x all. if all then f x else Some False) xs b = Some (b \<and> (\<forall>x \<in> set xs. P x))"
  using assms by (induction xs arbitrary: b) auto

lemma hasAllEdges_effect:
  assumes d: "d_ok N d" and t: "t_inv N t"
  shows "hasAllEdges cur d t = Some (cur \<noteq> 0 \<and> tls_epoch t = d_epoch d \<and> nodeToEpoch cur d = d_epoch d \<and>
    held d t \<times> {nodeToIndexUnchecked cur d} \<subseteq> d_rel d)"
proof (cases "cur \<noteq> 0 \<and> tls_epoch t = d_epoch d \<and> nodeToEpoch cur d = d_epoch d")
  case True
  let ?i = "nodeToIndexUnchecked cur d"
  have h: "held d t = (unat \<circ> fst) ` set (all_locks t)" using True t_invD(5) [OF t] by (simp add: held_def)
  have "?i < 4096 * N" using d_okD(1) [OF d] by (simp add: node_nat(2) [OF d])
  moreover have "unat (fst l) < 4096 * N" if "l \<in> set (all_locks t)" for l using that t_invD(5,7) [OF t] by force
  ultimately have "\<forall>l \<in> set (all_locks t). g_hasEdge (unat (fst l)) ?i (d_g d) = Some ((unat (fst l), ?i) \<in> d_rel d)"
    using g_hasEdge_effect(1) [OF d_okD(3) [OF d]] by (simp add: d_rel_def)
  from for_each_all [OF this, of True] show ?thesis using True unfolding h by (auto simp: hasAllEdges_def Let_def)
qed (auto simp: hasAllEdges_def Let_def)

lemma node_of_index:
  assumes d: "d_ok N d" "4096 * N \<le> unat (d_epoch d)" and j: "j < 4096 * N"
  shows "nodeToIndex (the (indexToNode j d)) d = Some j"
  using indexToNode_eq [OF d(1) j] d(2) j unfolding nodeToIndex_iff [OF d(1)] by auto

lemma loop_entry_effect:
  assumes d: "d_ok N d" "4096 * N \<le> unat (d_epoch d)" and p: "\<forall>j \<in> set p. j < 4096 * N" and k: "k < length p"
  shows "\<exists>l. loop_entry (map (\<lambda>j. the (indexToNode j d)) p) (length p) (d, ms) k = Some l \<and>
    mtx_ctx0 l = m_ctx (ms (d_data d ! (p ! k))) \<and> mtx_ctx1 l = m_ctx (ms (d_data d ! (p ! ((k + 1) mod length p))))"
proof -
  have k': "(k + 1) mod length p < length p" using k by (intro mod_less_divisor) auto
  have n: "nodeToIndex (the (indexToNode (p ! j) d)) d = Some (p ! j)" if "j < length p" for j
    using node_of_index [OF d] p that by simp
  show ?thesis using n [OF k] n [OF k'] k k'
    by (simp add: loop_entry_def getData_def findEdge_def Let_def split: option.splits prod.splits)
qed

lemma current_epoch_started:
  assumes "d_ok N d" "nodeToIndex cur d = Some i"
  shows "4096 * N \<le> unat (d_epoch d)"
proof (rule ccontr)
  assume "\<not> 4096 * N \<le> unat (d_epoch d)"
  then have "unat (d_epoch d) = 0" using d_okD(8) [OF assms(1)] by (auto simp: epoch_ok_def dest: dvd_imp_le)
  then show False using assms(2) unfolding nodeToIndex_iff [OF assms(1)] by simp
qed

text \<open>A shortest way from the mutex to a held one, written as a report.\<close>

definition cycle_report :: "detector \<Rightarrow> (u64 \<Rightarrow> dd_mutex) \<Rightarrow> nat \<Rightarrow> nat set \<Rightarrow> dd_loop list \<Rightarrow> bool" where
  "cycle_report d ms i H rep \<longleftrightarrow>
     (\<exists>p. walk_to (d_rel d) i H p \<and> length p \<le> kMaxPath \<and> (\<forall>q. walk_to (d_rel d) i H q \<longrightarrow> length p \<le> length q) \<and>
        length rep = length p \<and>
        (\<forall>k < length p. mtx_ctx0 (rep ! k) = m_ctx (ms (d_data d ! (p ! k))) \<and>
           mtx_ctx1 (rep ! k) = m_ctx (ms (d_data d ! (p ! ((k + 1) mod length p))))))"

lemma report_effect:
  assumes d: "d_ok N d" and t: "t_inv N (lt_dd lt)" "tls_epoch (lt_dd lt) = d_epoch d"
    and i: "nodeToIndex (m_id (ms m)) d = Some i" "i \<notin> held d (lt_dd lt)"
  shows "\<exists>lt' d'. dd_ReportDeadlock m (lt, d, ms) = Some (lt', d', ms) \<and> d_ok N d' \<and> d' = d\<lparr>tmp_bv := tmp_bv d'\<rparr> \<and>
    (if \<exists>q. walk_to (d_rel d) i (held d (lt_dd lt)) q \<and> length q \<le> kMaxPath
     then lt' = lt\<lparr>lt_rep := lt_rep lt', report_pending := True\<rparr> \<and> cycle_report d ms i (held d (lt_dd lt)) (lt_rep lt')
     else lt' = lt)"
proof -
  note ep = current_epoch_started [OF d i(1)]
  let ?W = "walk_to (d_rel d) i (held d (lt_dd lt))"
  obtain p d' where p: "findPathToLock (m_id (ms m)) 20 (lt_dd lt, d) = Some (map (\<lambda>j. the (indexToNode j d)) p, d')"
      "d_ok N d'" "d' = d\<lparr>tmp_bv := tmp_bv d'\<rparr>"
      "if p = [] then \<forall>q. ?W q \<longrightarrow> 20 < length q
       else ?W p \<and> length p \<le> 20 \<and> (\<forall>q. ?W q \<longrightarrow> length p \<le> length q) \<and> (\<forall>j \<in> set p. j < 4096 * N)"
    using findPathToLock_effect [OF d t i, of 20] by blast
  show ?thesis
  proof (cases "p = []")
    case True
    then have "\<not> (\<exists>q. ?W q \<and> length q \<le> kMaxPath)" using p(4) by (fastforce simp: kMaxPath_def)
    then show ?thesis using True p by (auto simp: dd_ReportDeadlock_def kMaxPath_def)
  next
    case False
    then have W: "?W p" "length p \<le> 20" "\<forall>q. ?W q \<longrightarrow> length p \<le> length q" "\<forall>j \<in> set p. j < 4096 * N" using p(4) by simp_all
    have same: "indexToNode j d' = indexToNode j d" "d_epoch d' = d_epoch d" "d_data d' = d_data d" for j
      by (subst p(3), simp add: indexToNode_def)+
    have ep': "4096 * N \<le> unat (d_epoch d')" using ep same(2) by simp
    let ?n = "map (\<lambda>j. the (indexToNode j d)) p"
    let ?f = "loop_entry ?n (length p) (d', ms)"
    have entry: "\<exists>l. ?f k = Some l \<and> mtx_ctx0 l = m_ctx (ms (d_data d ! (p ! k))) \<and>
        mtx_ctx1 l = m_ctx (ms (d_data d ! (p ! ((k + 1) mod length p))))" if "k < length p" for k
      using loop_entry_effect [OF p(2) ep' W(4) that, of ms] unfolding same by simp
    have "those (map ?f [0..<length p]) = Some (map (the \<circ> ?f) [0..<length p])"
      using entry by (intro those_total) force
    moreover have "m_id (ms m) = ?n ! 0"
    proof -
      have "p ! 0 = i" using W(1) False by (simp add: walk_to_def hd_conv_nth)
      moreover obtain n where n: "indexToNode i d = Some n" "unat n = unat (d_epoch d) + i"
        using indexToNode_eq [OF d] i(1) unfolding nodeToIndex_iff [OF d] by blast
      moreover have "unat (m_id (ms m)) = unat (d_epoch d) + i" using i(1) unfolding nodeToIndex_iff [OF d] by simp
      ultimately show ?thesis using False by (simp add: word_unat_eq_iff)
    qed
    ultimately have "dd_ReportDeadlock m (lt, d, ms) =
        Some (lt\<lparr>lt_rep := map (the \<circ> ?f) [0..<length p], report_pending := True\<rparr>, d', ms)"
      using p(1) False W(2) by (simp add: dd_ReportDeadlock_def kMaxPath_def kMaxLoopSize_def Let_def)
    moreover have "cycle_report d ms i (held d (lt_dd lt)) (map (the \<circ> ?f) [0..<length p])"
      unfolding cycle_report_def kMaxPath_def
    proof (intro exI [of _ p] conjI allI impI)
      fix k assume "k < length p"
      then show "mtx_ctx0 (map (the \<circ> ?f) [0..<length p] ! k) = m_ctx (ms (d_data d ! (p ! k)))"
        "mtx_ctx1 (map (the \<circ> ?f) [0..<length p] ! k) = m_ctx (ms (d_data d ! (p ! ((k + 1) mod length p))))"
        using entry [of k] by auto
    qed (use W in simp_all)
    moreover have "\<exists>q. ?W q \<and> length q \<le> kMaxPath" using W by (auto simp: kMaxPath_def)
    ultimately show ?thesis using p(2,3) by auto
  qed
qed

lemma ensured_same: "tls_epoch t = d_epoch d \<Longrightarrow> ensureCurrentEpoch d t = t"
  by (simp add: ensureCurrentEpoch_def tls_ensureCurrentEpoch_def)

lemma check_cycle_effect:
  assumes d: "d_ok N d" and t: "t_inv N (lt_dd lt)" "tls_epoch (lt_dd lt) = d_epoch d" "held d (lt_dd lt) \<inter> free_nodes d = {}"
    and i: "nodeToIndex (m_id (ms m)) d = Some i" "i \<notin> free_nodes d" "i \<notin> held d (lt_dd lt)"
  defines "H \<equiv> held d (lt_dd lt)"
  defines "E \<equiv> (if \<exists>h \<in> H. (i, h) \<in> (d_rel d)\<^sup>* then d_rel d \<union> H \<times> {i} else d_rel d)"
  shows "\<exists>lt' d'. dd_check_cycle unwind tid m (lt, d, ms) = Some (lt', d', ms) \<and> d_ok N d' \<and>
    d_epoch d' = d_epoch d \<and> free_nodes d' = free_nodes d \<and> d_data d' = d_data d \<and> d_rel d' = E \<and>
    (if \<exists>q. walk_to E i H q \<and> length q \<le> kMaxPath
     then lt' = lt\<lparr>lt_rep := lt_rep lt', report_pending := True\<rparr> \<and> cycle_report d' ms i H (lt_rep lt')
     else lt' = lt)"
proof -
  let ?t = "lt_dd lt" and ?cycle = "\<exists>h \<in> H. (i, h) \<in> (d_rel d)\<^sup>*"
  obtain d1 where b: "onLockBefore (m_id (ms m)) (?t, d) = Some (?cycle, ?t, d1)" "d_ok N d1" "d_rel d1 = d_rel d" "d1 = d\<lparr>d_g := d_g d1\<rparr>"
    using onLockBefore_effect [OF d t(1) i(1)] ensured_same [OF t(2)] unfolding H_def by auto
  have s1: "d_epoch d1 = d_epoch d" "free_nodes d1 = free_nodes d" "d_data d1 = d_data d" "available_nodes d1 = available_nodes d"
    by (subst b(4), simp add: free_nodes_def)+
  have n1: "nodeToIndex (m_id (ms m)) d1 = Some i" "held d1 ?t = H"
    using i(1) s1(1) unfolding nodeToIndex_iff [OF d] nodeToIndex_iff [OF b(2)] by (simp_all add: held_def H_def)
  show ?thesis
  proof (cases ?cycle)
    case False
    have "\<not> walk_to (d_rel d) i H q" for q using False walk_to_reaches [of "d_rel d" i H q] by blast
    then show ?thesis using False b s1 unfolding E_def by (auto simp: dd_check_cycle_def)
  next
    case True
    have fr: "i \<notin> tl_bits (available_nodes d1)" "held d1 ?t \<inter> free_nodes d1 = {}"
      using i(2) t(3) s1 n1(2) by (auto simp: free_nodes_def H_def)
    obtain n d2 where a: "d_addEdges (m_id (ms m)) unwind tid (?t, d1) = Some (n, ?t, d2)" "d_ok N d2"
        "d_rel d2 = d_rel d1 \<union> held d1 ?t \<times> {i}" "d2 = d1\<lparr>d_g := d_g d2, d_edges := d_edges d2\<rparr>"
      using addEdges_effect [OF b(2) t(1) n1(1) fr] ensured_same [of ?t d1] t(2) s1(1) by metis
    have s2: "d_epoch d2 = d_epoch d" "free_nodes d2 = free_nodes d" "d_data d2 = d_data d"
      by (subst a(4), use s1 in \<open>simp add: free_nodes_def\<close>)+
    have E: "d_rel d2 = E" using a(3) b(3) n1(2) True by (simp add: E_def)
    have n2: "nodeToIndex (m_id (ms m)) d2 = Some i" "held d2 ?t = H" "tls_epoch ?t = d_epoch d2"
      using i(1) s2(1) t(2) unfolding nodeToIndex_iff [OF d] nodeToIndex_iff [OF a(2)] by (simp_all add: held_def H_def)
    have nh: "i \<notin> held d2 ?t" using i(3) n2(2) by (simp add: H_def)
    obtain lt' d3 where r: "dd_ReportDeadlock m (lt, d2, ms) = Some (lt', d3, ms)" "d_ok N d3" "d3 = d2\<lparr>tmp_bv := tmp_bv d3\<rparr>"
        "if \<exists>q. walk_to E i H q \<and> length q \<le> kMaxPath
         then lt' = lt\<lparr>lt_rep := lt_rep lt', report_pending := True\<rparr> \<and> cycle_report d2 ms i H (lt_rep lt') else lt' = lt"
      using report_effect [where lt = lt and m = m and ms = ms, OF a(2) t(1) n2(3,1) nh] unfolding E n2(2) by blast
    have s3: "d_epoch d3 = d_epoch d" "free_nodes d3 = free_nodes d" "d_data d3 = d_data d" "d_rel d3 = E"
        "cycle_report d3 ms i H rep = cycle_report d2 ms i H rep" for rep
      by (subst r(3), use s2 E in \<open>simp add: free_nodes_def d_rel_def cycle_report_def\<close>)+
    show ?thesis using True b(1) a(1) r s3 by (intro exI [of _ lt'] exI [of _ d3]) (simp add: dd_check_cycle_def)
  qed
qed

lemma report_keeps_locks: "lt' = lt\<lparr>lt_rep := x, report_pending := b\<rparr> \<Longrightarrow> lt_dd lt' = lt_dd lt"
  by simp

lemma check_cycle_keeps:
  assumes d: "d_ok N d" and t: "t_inv N (lt_dd lt)" "tls_epoch (lt_dd lt) = d_epoch d" "held d (lt_dd lt) \<inter> free_nodes d = {}"
    and i: "nodeToIndex (m_id (ms m)) d = Some i" "i \<notin> free_nodes d" "i \<notin> held d (lt_dd lt)"
  shows "\<exists>lt' d'. dd_check_cycle unwind tid m (lt, d, ms) = Some (lt', d', ms) \<and> d_ok N d' \<and>
    d_epoch d' = d_epoch d \<and> free_nodes d' = free_nodes d \<and> d_data d' = d_data d \<and> lt_dd lt' = lt_dd lt"
proof -
  let ?H = "held d (lt_dd lt)"
  let ?E = "if \<exists>h \<in> ?H. (i, h) \<in> (d_rel d)\<^sup>* then d_rel d \<union> ?H \<times> {i} else d_rel d"
  obtain lt' d' where c: "dd_check_cycle unwind tid m (lt, d, ms) = Some (lt', d', ms)" "d_ok N d'"
      "d_epoch d' = d_epoch d" "free_nodes d' = free_nodes d" "d_data d' = d_data d"
      "if \<exists>q. walk_to ?E i ?H q \<and> length q \<le> kMaxPath
       then lt' = lt\<lparr>lt_rep := lt_rep lt', report_pending := True\<rparr> \<and> cycle_report d' ms i ?H (lt_rep lt') else lt' = lt"
    using check_cycle_effect [where lt = lt and m = m and ms = ms, OF d t i, of unwind tid] by blast
  have "lt_dd lt' = lt_dd lt"
  proof (cases "\<exists>q. walk_to ?E i ?H q \<and> length q \<le> kMaxPath")
    case True
    show ?thesis by (rule report_keeps_locks) (rule conjunct1 [OF c(6) [unfolded if_P [OF True]]])
  next
    case False
    show ?thesis using c(6) unfolding if_not_P [OF False] by simp
  qed

  then show ?thesis using c(1-5) by blast
qed

end
