(* ===== verification/DeadlockSystem.thy ===== *)
theory DeadlockSystem
  imports DeadlockProperties
begin

text \<open>
  The handlers of \<open>sanitizer_deadlock_detector1.cpp\<close> as the steps of a system: the detector, the
  mutexes by address and the logical threads. Its invariant holds in every reachable state, and no
  handler fails a \<open>CHECK\<close> or leaves an array there.
\<close>

section \<open>The invariant\<close>

type_synonym dd_sys = "detector \<times> (u64 \<Rightarrow> dd_mutex) \<times> (nat \<Rightarrow> dd_thread)"

text \<open>A mutex has no node, one of an older epoch, or one of this epoch that stores its address.\<close>

definition id_ok :: "nat \<Rightarrow> detector \<Rightarrow> u64 \<Rightarrow> u64 \<Rightarrow> bool" where
  "id_ok N d m node \<longleftrightarrow> node = 0 \<or> 4096 * N \<le> unat node \<and> unat node < unat (d_epoch d) + 4096 * N \<and>
     (\<forall>i. nodeToIndex node d = Some i \<longrightarrow> i \<notin> free_nodes d \<and> d_data d ! i = m)"

definition thread_ok :: "nat \<Rightarrow> detector \<Rightarrow> dd_tls \<Rightarrow> bool" where
  "thread_ok N d t \<longleftrightarrow> t_inv N t \<and> unat (tls_epoch t) \<le> unat (d_epoch d) \<and> held d t \<inter> free_nodes d = {}"

definition sys_ok :: "nat \<Rightarrow> dd_sys \<Rightarrow> bool" where
  "sys_ok N s \<longleftrightarrow> (case s of (d, ms, ts) \<Rightarrow>
     d_ok N d \<and> (\<forall>m. id_ok N d m (m_id (ms m))) \<and> (\<forall>th. thread_ok N d (lt_dd (ts th))))"

lemma sys_okD:
  assumes "sys_ok N (d, ms, ts)"
  shows "d_ok N d" "id_ok N d m (m_id (ms m))" "thread_ok N d (lt_dd (ts th))" "t_inv N (lt_dd (ts th))"
    "held d (lt_dd (ts th)) \<inter> free_nodes d = {}"
  using assms by (auto simp: sys_ok_def thread_ok_def)

text \<open>A detector that keeps its nodes keeps the invariant of everything around it.\<close>

lemma same_nodes:
  assumes "d_ok N d" "d_ok N d'" "d_epoch d' = d_epoch d" "free_nodes d' = free_nodes d" "d_data d' = d_data d"
  shows "id_ok N d' m node \<longleftrightarrow> id_ok N d m node" "thread_ok N d' t \<longleftrightarrow> thread_ok N d t" "held d' t = held d t"
    "nodeToIndex node d' = nodeToIndex node d"
proof -
  show n: "nodeToIndex node d' = nodeToIndex node d" for node
    using nodeToIndex_iff [OF assms(1), of node] nodeToIndex_iff [OF assms(2), of node] assms(3)
    by (metis option.exhaust)
  show h: "held d' t = held d t" for t using assms(3) by (simp add: held_def)
  show "id_ok N d' m node \<longleftrightarrow> id_ok N d m node" "thread_ok N d' t \<longleftrightarrow> thread_ok N d t"
    using assms(3-5) n h by (simp_all add: id_ok_def thread_ok_def)
qed

lemma sys_step:
  assumes s: "sys_ok N (d, ms, ts)" and d': "d_ok N d'" "d_epoch d' = d_epoch d" "free_nodes d' = free_nodes d" "d_data d' = d_data d"
    and t: "thread_ok N d (lt_dd lt)"
  shows "sys_ok N (d', ms, ts(th := lt))"
  using s d'(1) t same_nodes [OF sys_okD(1) [OF s] d'] by (auto simp: sys_ok_def)

lemma thread_ensured:
  assumes "thread_ok N d t"
  shows "thread_ok N d (ensureCurrentEpoch d t)"
  using assms ensure_current [of N t d] by (auto simp: thread_ok_def)

lemma ensureID_effect:
  assumes s: "sys_ok N (d, ms, ts)" and room: "unat (d_epoch d) + 2 * (4096 * N) \<le> 2 ^ 64"
  shows "\<exists>d' ms' i. dd_MutexEnsureID m (ts th, d, ms) =
      Some ((ts th)\<lparr>lt_dd := ensureCurrentEpoch d' (lt_dd (ts th))\<rparr>, d', ms') \<and>
    sys_ok N (d', ms', ts) \<and> nodeToIndex (m_id (ms' m)) d' = Some i \<and> i \<notin> free_nodes d' \<and>
    (nodeToIndex (m_id (ms m)) d = Some i \<and> d' = d \<and> ms' = ms \<or>
     nodeToIndex (m_id (ms m)) d = None \<and> held d' (lt_dd (ts th)) \<subseteq> held d (lt_dd (ts th)) \<and> i \<notin> held d' (lt_dd (ts th)) \<and>
     d_rel d' \<subseteq> d_rel d \<and> (\<forall>m'. m' \<noteq> m \<longrightarrow> ms' m' = ms m') \<and> (\<forall>m'. m_ctx (ms' m') = m_ctx (ms m')))"
proof -
  note d = sys_okD(1) [OF s]
  have old: "nodeBelongsToCurrentEpoch (m_id (ms m)) d \<longleftrightarrow> (\<exists>i. nodeToIndex (m_id (ms m)) d = Some i)"
    using sys_okD(2) [OF s, of m] unfolding belongs_iff [OF d] nodeToIndex_iff [OF d] id_ok_def by auto
  show ?thesis
  proof (cases "nodeToIndex (m_id (ms m)) d")
    case (Some i)
    then have "i \<notin> free_nodes d" using sys_okD(2) [OF s, of m] unfolding id_ok_def nodeToIndex_iff [OF d] by (auto simp: unat_eq_0)
    then show ?thesis using Some old s by (auto simp: dd_MutexEnsureID_def)
  next
    case None
    obtain node d' i where n: "newNode m d = Some (node, d')" "d_ok N d'" "nodeToIndex node d' = Some i" "i \<notin> free_nodes d'"
        "d_data d' = (d_data d)[i := m]"
        "if free_nodes d = {} then unat (d_epoch d') = unat (d_epoch d) + 4096 * N \<and> d_rel d' = {}
         else d_epoch d' = d_epoch d \<and> i \<in> free_nodes d \<and> free_nodes d' = free_nodes d - {i} \<and>
           d_rel d' = {(a, b) \<in> d_rel d. tl_bits (available_nodes d) = {} \<longrightarrow> b \<notin> tl_bits (recycled_nodes d)}"
      using newNode_effect [OF d room, of m] by blast
    let ?ms = "ms(m := (ms m)\<lparr>m_id := node\<rparr>)"
    have i: "i < 4096 * N" "4096 * N \<le> unat node" "unat node = unat (d_epoch d') + i" using n(3) unfolding nodeToIndex_iff [OF n(2)] by simp_all
    have le: "unat (d_epoch d) \<le> unat (d_epoch d')" using n(6) by (auto split: if_splits)
    have "id_ok N d' m node" unfolding id_ok_def using n(3-5) i d_okD(7) [OF d] by simp
    moreover have "id_ok N d' m' (m_id (ms m'))" if "m' \<noteq> m" for m'
    proof (cases "free_nodes d = {}")
      case True
      have "\<not> unat (m_id (ms m')) < unat (d_epoch d) + 4096 * N" if "nodeToIndex (m_id (ms m')) d' = Some j" for j
        using that n(6) True unfolding nodeToIndex_iff [OF n(2)] by simp
      then show ?thesis using sys_okD(2) [OF s, of m'] le unfolding id_ok_def by fastforce
    next
      case False
      then have n6: "d_epoch d' = d_epoch d" "i \<in> free_nodes d" "free_nodes d' = free_nodes d - {i}" using n(6) by simp_all
      have nd: "nodeToIndex x d' = Some j \<longleftrightarrow> nodeToIndex x d = Some j" for x j
        unfolding nodeToIndex_iff [OF n(2)] nodeToIndex_iff [OF d] n6(1) ..
      show ?thesis using sys_okD(2) [OF s, of m'] n6 nd n(5) unfolding id_ok_def by (metis DiffD1 nth_list_update_neq)
    qed
    ultimately have ids: "\<forall>m'. id_ok N d' m' (m_id (?ms m'))" by simp
    have threads: "thread_ok N d' (lt_dd (ts h)) \<and> held d' (lt_dd (ts h)) \<subseteq> held d (lt_dd (ts h)) \<and> i \<notin> held d' (lt_dd (ts h))" for h
    proof (cases "free_nodes d = {}")
      case True
      have "unat (tls_epoch (lt_dd (ts h))) \<le> unat (d_epoch d)" using sys_okD(3) [OF s, of h] by (simp add: thread_ok_def)
      moreover have "unat (d_epoch d') = unat (d_epoch d) + 4096 * N" using n(6) True by simp
      ultimately have "tls_epoch (lt_dd (ts h)) \<noteq> d_epoch d'" using d_okD(1) [OF d] by auto
      then have "held d' (lt_dd (ts h)) = {}" by (simp add: held_def)
      then show ?thesis using sys_okD(3) [OF s, of h] le by (simp add: thread_ok_def)
    next
      case False
      then have n6: "d_epoch d' = d_epoch d" "i \<in> free_nodes d" "free_nodes d' = free_nodes d - {i}" using n(6) by simp_all
      have "held d' (lt_dd (ts h)) = held d (lt_dd (ts h))" using n6(1) by (simp add: held_def)
      then show ?thesis using sys_okD(3) [OF s, of h] n6 by (auto simp: thread_ok_def)
    qed
    have "sys_ok N (d', ?ms, ts)" using n(2) ids threads by (simp add: sys_ok_def)
    moreover have "d_rel d' \<subseteq> d_rel d" using n(6) by (auto split: if_splits)
    moreover have "\<not> nodeBelongsToCurrentEpoch (m_id (ms m)) d" using old None by simp
    ultimately show ?thesis using n(1,3,4) None threads [of th]
      by (intro exI [of _ d'] exI [of _ ?ms] exI [of _ i]) (simp add: dd_MutexEnsureID_def)
  qed
qed

section \<open>The handlers\<close>

lemma thread_okD:
  assumes "thread_ok N d t"
  shows "t_inv N t" "unat (tls_epoch t) \<le> unat (d_epoch d)" "held d t \<inter> free_nodes d = {}"
  using assms by (simp_all add: thread_ok_def)

lemma ensured_room:
  "length (recursive_locks t) < n \<Longrightarrow> length (recursive_locks (ensureCurrentEpoch d t)) < n"
  "length (all_locks t) < n \<Longrightarrow> length (all_locks (ensureCurrentEpoch d t)) < n"
  by (auto simp: ensureCurrentEpoch_def tls_ensureCurrentEpoch_def)

definition room_for_lock :: "dd_tls \<Rightarrow> bool" where
  "room_for_lock t \<longleftrightarrow> length (recursive_locks t) < 64 \<and> length (all_locks t) < 64"

lemma addLock_ok:
  assumes t: "thread_ok N d t" and i: "i < 4096 * N" "tls_epoch t = d_epoch d \<Longrightarrow> i \<notin> free_nodes d"
    and ep: "tls_epoch t = e" and room: "room_for_lock t"
  shows "\<exists>new t'. tls_addLock i e stk t = Some (new, t') \<and> thread_ok N d t'"
proof -
  have r: "if i \<in> tl_bits (tls_bv t) then length (recursive_locks t) < 64 else length (all_locks t) < 64"
    using room by (simp add: room_for_lock_def)
  obtain t' where a: "tls_addLock i e stk t = Some (i \<notin> tl_bits (tls_bv t), t')" "t_inv N t'" "tls_epoch t' = e"
      "tl_bits (tls_bv t') = insert i (tl_bits (tls_bv t))"
    using addLock_effect [OF thread_okD(1) [OF t] i(1) ep r, of stk] by blast
  have "held d t' = (if e = d_epoch d then insert i (held d t) else {})" using a(3,4) ep by (simp add: held_def)
  then have "thread_ok N d t'" using a(2,3) t i(2) ep by (auto simp: thread_ok_def)
  then show ?thesis using a(1) by blast
qed

lemma removeLock_ok:
  assumes t: "thread_ok N d t" and i: "i < 4096 * N"
  shows "\<exists>t'. tls_removeLock i t = Some t' \<and> thread_ok N d t'"
proof -
  obtain t' where r: "tls_removeLock i t = Some t'" "t_inv N t'" "tls_epoch t' = tls_epoch t"
      "tl_bits (tls_bv t') = (if i \<in> set (recursive_locks t) then tl_bits (tls_bv t) else tl_bits (tls_bv t) - {i})"
    using removeLock_effect [OF thread_okD(1) [OF t] i] by blast
  have "held d t' \<subseteq> held d t" using r(3,4) by (auto simp: held_def)
  then have "thread_ok N d t'" using r(2,3) t by (auto simp: thread_ok_def)
  then show ?thesis using r(1) by blast
qed

lemma unlock_effect:
  assumes s: "sys_ok N (d, ms, ts)"
  shows "\<exists>lt'. dd_MutexBeforeUnlock m (ts th, d, ms) = Some (lt', d, ms) \<and> sys_ok N (d, ms, ts(th := lt'))"
proof -
  note d = sys_okD(1) [OF s] and t = sys_okD(3) [OF s, of th]
  let ?i = "nodeToIndexUnchecked (m_id (ms m)) d"
  have i: "?i < 4096 * N" using d_okD(1) [OF d] by (simp add: node_nat(2) [OF d])
  obtain t' where t': "onUnlock (m_id (ms m)) d (lt_dd (ts th)) = Some t'" "thread_ok N d t'"
    using removeLock_ok [OF t i] t by (cases "tls_epoch (lt_dd (ts th)) = nodeToEpoch (m_id (ms m)) d") (auto simp: onUnlock_def)
  then show ?thesis using sys_step [OF s d refl refl refl, of "(ts th)\<lparr>lt_dd := t'\<rparr>" th] by (simp add: dd_MutexBeforeUnlock_def)
qed

lemma destroy_effect:
  assumes s: "sys_ok N (d, ms, ts)"
    and idle: "\<forall>th i. nodeToIndex (m_id (ms m)) d = Some i \<longrightarrow> i \<notin> held d (lt_dd (ts th))"
  shows "\<exists>d' ms'. dd_MutexDestroy m (d, ms) = Some (d', ms') \<and> sys_ok N (d', ms', ts)"
proof (cases "nodeToIndex (m_id (ms m)) d")
  case None
  have "id_ok N d m' 0" for m' by (simp add: id_ok_def)
  then have "sys_ok N (d, ms(m := (ms m)\<lparr>m_id := 0\<rparr>), ts)" using s by (simp add: sys_ok_def)
  moreover have "\<not> nodeBelongsToCurrentEpoch (m_id (ms m)) d \<or> m_id (ms m) = 0"
    using None sys_okD(2) [OF s, of m] belongs_iff [OF sys_okD(1) [OF s], of "m_id (ms m)"] nodeToIndex_iff [OF sys_okD(1) [OF s], of "m_id (ms m)"]
    unfolding id_ok_def by force
  ultimately show ?thesis using s by (auto simp: dd_MutexDestroy_def)
next
  case (Some i)
  note d = sys_okD(1) [OF s]
  have id: "m_id (ms m) \<noteq> 0" "i < 4096 * N" "unat (m_id (ms m)) = unat (d_epoch d) + i"
    using Some d_okD(1) [OF d] unfolding nodeToIndex_iff [OF d] by auto
  have free: "i \<notin> free_nodes d" "d_data d ! i = m" using sys_okD(2) [OF s, of m] Some id(1) unfolding id_ok_def by auto
  obtain d' where d': "removeNode (m_id (ms m)) d = Some d'" "d_ok N d'" "free_nodes d' = insert i (free_nodes d)"
      "d' = d\<lparr>recycled_nodes := recycled_nodes d', d_g := d_g d'\<rparr>"
    using removeNode_effect [OF d Some free(1)] by blast
  have same: "d_epoch d' = d_epoch d" "d_data d' = d_data d" by (subst d'(4), simp)+
  have nd: "nodeToIndex x d' = Some j \<longleftrightarrow> nodeToIndex x d = Some j" for x j
    unfolding nodeToIndex_iff [OF d'(2)] nodeToIndex_iff [OF d] same ..
  let ?ms = "ms(m := (ms m)\<lparr>m_id := 0\<rparr>)"
  have "id_ok N d' m' (m_id (?ms m'))" for m'
    using sys_okD(2) [OF s, of m'] free(2) nd same d'(3) by (auto simp: id_ok_def)
  moreover have "thread_ok N d' (lt_dd (ts th))" for th
    using sys_okD(3) [OF s, of th] idle Some same d'(3) by (auto simp: thread_ok_def held_def)
  ultimately have "sys_ok N (d', ?ms, ts)" using d'(2) by (simp add: sys_ok_def)
  moreover have "nodeBelongsToCurrentEpoch (m_id (ms m)) d" using id unfolding belongs_iff [OF d] by blast
  ultimately show ?thesis using d'(1) id(1) by (auto simp: dd_MutexDestroy_def)
qed

text \<open>After \<open>MutexEnsureID\<close> a thread is in the epoch of the detector.\<close>

lemma ensured_thread:
  assumes "thread_ok N d t"
  defines "t' \<equiv> ensureCurrentEpoch d t"
  shows "thread_ok N d t'" "t_inv N t'" "tls_epoch t' = d_epoch d" "held d t' = held d t" "held d t' \<inter> free_nodes d = {}"
  using thread_ensured [OF assms(1)] ensure_current [OF thread_okD(1) [OF assms(1)], of d] by (auto simp: t'_def thread_ok_def)

lemma before_lock_effect:
  assumes s: "sys_ok N (d, ms, ts)" and room: "unat (d_epoch d) + 2 * (4096 * N) \<le> 2 ^ 64"
  shows "\<exists>lt' d' ms'. dd_MutexBeforeLock unwind tid m (ts th, d, ms) = Some (lt', d', ms') \<and> sys_ok N (d', ms', ts(th := lt'))"
proof -
  obtain all where all: "hasAllEdges (m_id (ms m)) d (lt_dd (ts th)) = Some all"
    using hasAllEdges_effect [OF sys_okD(1,4) [OF s]] by blast
  show ?thesis
  proof (cases "tls_empty (lt_dd (ts th)) \<or> all")
    case True
    then show ?thesis using all s by (auto simp: dd_MutexBeforeLock_def)
  next
    case slow: False
    obtain d1 ms1 i where e: "dd_MutexEnsureID m (ts th, d, ms) =
          Some ((ts th)\<lparr>lt_dd := ensureCurrentEpoch d1 (lt_dd (ts th))\<rparr>, d1, ms1)"
        "sys_ok N (d1, ms1, ts)" "nodeToIndex (m_id (ms1 m)) d1 = Some i" "i \<notin> free_nodes d1"
      using ensureID_effect [OF s room, of m th] by blast
    note d1 = sys_okD(1) [OF e(2)] and te = ensured_thread [OF sys_okD(3) [OF e(2), of th]]
    let ?lt = "(ts th)\<lparr>lt_dd := ensureCurrentEpoch d1 (lt_dd (ts th))\<rparr>"
    have h: "isHeld (m_id (ms1 m)) d1 (lt_dd ?lt) = Some (i \<in> held d1 (lt_dd ?lt))"
      using isHeld_effect [OF d1 te(2,3) e(3)] by simp
    have lt: "thread_ok N d1 (lt_dd ?lt)" "t_inv N (lt_dd ?lt)" "tls_epoch (lt_dd ?lt) = d_epoch d1" "held d1 (lt_dd ?lt) \<inter> free_nodes d1 = {}"
      using te by simp_all
    show ?thesis
    proof (cases "i \<in> held d1 (lt_dd ?lt)")
      case True
      then show ?thesis using slow all e(1) h sys_step [OF e(2) d1 refl refl refl lt(1), of th]
        by (simp add: dd_MutexBeforeLock_def)
    next
      case nh: False
      obtain lt' d' where c: "dd_check_cycle unwind tid m (?lt, d1, ms1) = Some (lt', d', ms1)" "d_ok N d'"
          "d_epoch d' = d_epoch d1" "free_nodes d' = free_nodes d1" "d_data d' = d_data d1"
          "lt_dd lt' = lt_dd ?lt"
        using check_cycle_keeps [where lt = ?lt and m = m and ms = ms1, OF d1 lt(2-4) e(3,4) nh, of unwind tid] by metis
      have "sys_ok N (d', ms1, ts(th := lt'))" using sys_step [OF e(2) c(2-5), of lt' th] lt(1) unfolding c(6) by blast
      then show ?thesis using slow all e(1) h nh c(1) by (simp add: dd_MutexBeforeLock_def)
    qed
  qed
qed

lemma slow_after_lock:
  assumes s: "sys_ok N (d, ms, ts)" and room: "unat (d_epoch d) + 2 * (4096 * N) \<le> 2 ^ 64" "room_for_lock (lt_dd (ts th))"
    and free: "\<forall>i. wlock \<longrightarrow> nodeToIndex (m_id (ms m)) d = Some i \<longrightarrow> i \<notin> held d (lt_dd (ts th))"
  shows "\<exists>lt1 d1 ms1. dd_MutexEnsureID m (ts th, d, ms) = Some (lt1, d1, ms1) \<and>
    (wlock \<longrightarrow> isHeld (m_id (ms1 m)) d1 (lt_dd lt1) = Some False) \<and>
    (\<exists>t2 d2 t3. (if \<not> trylock then map_option snd (d_addEdges (m_id (ms1 m)) stk tid (lt_dd lt1, d1)) else Some (lt_dd lt1, d1)) = Some (t2, d2) \<and>
       onLockAfter (m_id (ms1 m)) stk' d2 t2 = Some t3 \<and> sys_ok N (d2, ms1, ts(th := lt1\<lparr>lt_dd := t3\<rparr>)) \<and>
       nodeToIndex (m_id (ms1 m)) d2 \<noteq> None)"
proof -
  obtain d1 ms1 i where e: "dd_MutexEnsureID m (ts th, d, ms) =
        Some ((ts th)\<lparr>lt_dd := ensureCurrentEpoch d1 (lt_dd (ts th))\<rparr>, d1, ms1)"
      "sys_ok N (d1, ms1, ts)" "nodeToIndex (m_id (ms1 m)) d1 = Some i" "i \<notin> free_nodes d1"
      "nodeToIndex (m_id (ms m)) d = Some i \<and> d1 = d \<and> ms1 = ms \<or> i \<notin> held d1 (lt_dd (ts th))"
    using ensureID_effect [OF s room(1), of m th] by metis
  let ?t = "ensureCurrentEpoch d1 (lt_dd (ts th))"
  note d1 = sys_okD(1) [OF e(2)] and te = ensured_thread [OF sys_okD(3) [OF e(2), of th]]
  have w: "wlock \<longrightarrow> isHeld (m_id (ms1 m)) d1 ?t = Some False"
    using isHeld_effect [OF d1 te(2,3) e(3)] e(5) free te(4) by auto
  have "\<exists>d2. (if \<not> trylock then map_option snd (d_addEdges (m_id (ms1 m)) stk tid (?t, d1)) else Some (?t, d1)) = Some (?t, d2) \<and>
      d_ok N d2 \<and> d_epoch d2 = d_epoch d1 \<and> free_nodes d2 = free_nodes d1 \<and> d_data d2 = d_data d1"
  proof (cases trylock)
    case False
    have "i \<notin> tl_bits (available_nodes d1)" using e(4) by (auto simp: free_nodes_def)
    then obtain n d2 where a: "d_addEdges (m_id (ms1 m)) stk tid (?t, d1) = Some (n, ?t, d2)" "d_ok N d2"
        "d2 = d1\<lparr>d_g := d_g d2, d_edges := d_edges d2\<rparr>"
      using addEdges_effect [OF d1 te(2) e(3) _ te(5), of stk tid] ensured_same [OF te(3)] by auto
    have "d_epoch d2 = d_epoch d1" "free_nodes d2 = free_nodes d1" "d_data d2 = d_data d1"
      by (subst a(3), simp add: free_nodes_def)+
    then show ?thesis using False a(1,2) by simp
  qed (use d1 in simp)
  then obtain d2 where a: "(if \<not> trylock then map_option snd (d_addEdges (m_id (ms1 m)) stk tid (?t, d1)) else Some (?t, d1)) = Some (?t, d2)"
      and d2: "d_ok N d2" "d_epoch d2 = d_epoch d1" "free_nodes d2 = free_nodes d1" "d_data d2 = d_data d1"
    by blast
  note n2 = same_nodes [OF d1 d2]
  have ep: "tls_epoch ?t = d_epoch d2" using te(3) d2(2) by simp
  have iN: "i < 4096 * N" using e(3) unfolding nodeToIndex_iff [OF d1] by simp
  have "room_for_lock ?t" using room(2) ensured_room by (auto simp: room_for_lock_def)
  then obtain new t3 where t3: "tls_addLock i (d_epoch d2) stk' ?t = Some (new, t3)" "thread_ok N d2 t3"
    using addLock_ok [of N d2 ?t i "d_epoch d2" stk'] te(1) n2(2) iN e(4) d2(3) ep by auto
  have "onLockAfter (m_id (ms1 m)) stk' d2 ?t = Some t3"
    using t3(1) e(3) n2(4) ensured_same [OF ep] by (simp add: onLockAfter_def)
  moreover have "sys_ok N (d2, ms1, ts(th := (ts th)\<lparr>lt_dd := t3\<rparr>))"
    using sys_step [OF e(2) d2, of "(ts th)\<lparr>lt_dd := t3\<rparr>" th] t3(2) n2(2) by simp
  moreover have "nodeToIndex (m_id (ms1 m)) d2 \<noteq> None" using e(3) n2(4) by simp
  ultimately show ?thesis using e(1) w a by auto
qed

lemma after_lock_effect:
  assumes s: "sys_ok N (d, ms, ts)" and room: "unat (d_epoch d) + 2 * (4096 * N) \<le> 2 ^ 64" "room_for_lock (lt_dd (ts th))"
    and free: "\<forall>i. wlock \<longrightarrow> nodeToIndex (m_id (ms m)) d = Some i \<longrightarrow> i \<notin> held d (lt_dd (ts th))"
  shows "\<exists>lt' d' ms'. dd_MutexAfterLock second unwind tid m wlock trylock (ts th, d, ms) = Some (lt', d', ms') \<and>
    sys_ok N (d', ms', ts(th := lt'))"
proof -
  let ?t = "lt_dd (ts th)" and ?n = "m_id (ms m)"
  let ?stk = "if second then unwind else (0 :: u32)"
  note d = sys_okD(1) [OF s] and t = sys_okD(3) [OF s, of th]
  have i: "nodeToIndexUnchecked ?n d < 4096 * N" using d_okD(1) [OF d] by (simp add: node_nat(2) [OF d])
  have add: "\<exists>new t'. tls_addLock (nodeToIndexUnchecked ?n d) (nodeToEpoch ?n d) ?stk ?t = Some (new, t') \<and> thread_ok N d t'"
    if e: "tls_epoch ?t = nodeToEpoch ?n d" "?n \<noteq> 0"
  proof (rule addLock_ok [OF t i _ e(1) room(2)])
    assume c: "tls_epoch ?t = d_epoch d"
    then have "nodeToIndex ?n d = Some (nodeToIndexUnchecked ?n d)"
      using e sys_okD(2) [OF s, of m] node_nat(3) [OF d, of ?n] unfolding nodeToIndex_def id_ok_def by simp
    then show "nodeToIndexUnchecked ?n d \<notin> free_nodes d" using sys_okD(2) [OF s, of m] e(2) unfolding id_ok_def by blast
  qed
  have fast: "\<exists>lt'. Some (lt\<lparr>lt_dd := t'\<rparr>, d, ms) = Some (lt', d, ms) \<and> sys_ok N (d, ms, ts(th := lt'))"
    if "thread_ok N d t'" for lt t' using sys_step [OF s d refl refl refl, of "lt\<lparr>lt_dd := t'\<rparr>" th] that by simp
  have zero: "nodeToEpoch 0 d = 0" by (simp add: nodeToEpoch_def)
  show ?thesis
  proof (cases "tls_empty ?t \<and> tls_epoch ?t \<noteq> 0 \<and> tls_epoch ?t = nodeToEpoch ?n d")
    case True
    then have "?n \<noteq> 0" using zero by auto
    then obtain new t' where "onFirstLock ?n ?stk d ?t = Some (True, t')" "thread_ok N d t'"
      using add True by (auto simp: onFirstLock_def)
    then show ?thesis using fast [of t' "ts th"] by (auto simp: dd_MutexAfterLock_def)
  next
    case nf: False
    have first: "onFirstLock ?n ?stk d ?t = Some (False, ?t)" using nf by (auto simp: onFirstLock_def)
    obtain all where all: "hasAllEdges ?n d ?t = Some all" "all \<longrightarrow> ?n \<noteq> 0 \<and> tls_epoch ?t = d_epoch d \<and> nodeToEpoch ?n d = d_epoch d"
      using hasAllEdges_effect [OF d thread_okD(1) [OF t]] by blast
    show ?thesis
    proof (cases all)
      case True
      then obtain new t' where "onLockFast ?n ?stk d ?t = Some (True, t')" "thread_ok N d t'"
        using add all by (auto simp: onLockFast_def)
      then show ?thesis using first fast [of t' "ts th"] by (auto simp: dd_MutexAfterLock_def)
    next
      case False
      then have lf: "onLockFast ?n ?stk d ?t = Some (False, ?t)" using all(1) by (simp add: onLockFast_def)
      show ?thesis using slow_after_lock [OF s room free, where stk = "if ?stk \<noteq> 0 then ?stk else unwind" and stk' = ?stk and tid = tid and trylock = trylock] first lf
        by (auto simp: dd_MutexAfterLock_def Let_def)
    qed
  qed
qed

section \<open>Reachable states\<close>

text \<open>
  A new thread's memory is uninitialised: only the sizes of its arrays are known. The memory of the
  detector comes from \<open>MmapOrDie\<close> and is zero, so its vectors are well formed before \<open>clear\<close>.
\<close>

definition tl_shape :: "nat \<Rightarrow> two_level \<Rightarrow> bool" where
  "tl_shape N v \<longleftrightarrow> length (tl_l1 v) = N \<and> length (tl_l2 v) = N \<and> (\<forall>i0 < N. length (tl_l2 v ! i0) = 64)"

lemma clear_shape: "tl_shape N v \<Longrightarrow> tl_ok N (tl_clear v) \<and> tl_bits (tl_clear v) = {}"
proof -
  assume v: "tl_shape N v"
  have l1: "tl_l1 (tl_clear v) ! i0 = 0" if "i0 < N" for i0
    using that v by (simp add: tl_clear_def tl_shape_def bb_clear_def)
  have ok: "tl_ok N (tl_clear v)" using v l1 unfolding tl_ok_def tl_shape_def by (simp add: tl_clear_def)
  then show ?thesis using idx_parts(1) l1 by (auto simp: tl_bits_iff [OF ok] cell_def)
qed

lemma new_thread_ok:
  assumes "d_ok N d" "tl_shape N (tls_bv t)"
  shows "thread_ok N d (lt_dd (dd_CreateLogicalThread ctx t rep))"
  using assms clear_shape [OF assms(2)] d_okD(1,2) [OF assms(1)]
  by (auto simp: dd_CreateLogicalThread_def tls_clear_def thread_ok_def t_inv_def held_def)

definition zeroed :: "nat \<Rightarrow> detector \<Rightarrow> bool" where
  "zeroed N d \<longleftrightarrow> 0 < N \<and> N \<le> 16 \<and> g_ok N (d_g d) \<and> tl_ok N (available_nodes d) \<and> tl_ok N (recycled_nodes d) \<and>
     tl_ok N (tmp_bv d) \<and> length (d_data d) = 4096 * N"

lemma cleared_ok:
  assumes "zeroed N d"
  shows "d_ok N (d_clear d)"
  using assms g_clear_effect [of N "d_g d"] tl.cleared [of N "available_nodes d"] tl.cleared [of N "recycled_nodes d"]
  by (auto simp: zeroed_def d_ok_def d_clear_def epoch_ok_def free_nodes_def d_rel_def)

text \<open>
  A step of thread \<open>th\<close>. A new epoch starts each time all nodes are in use; the guard of the two
  handlers that can start one says that the 64-bit epoch is not yet used up. A lock has room in
  the thread's arrays of 64 locks, a write lock is not taken twice, and a mutex is not destroyed while held.
\<close>

inductive dd_step :: "nat \<Rightarrow> dd_sys \<Rightarrow> dd_sys \<Rightarrow> bool" for N :: nat where
  create: "tl_shape N (tls_bv t) \<Longrightarrow> dd_step N (d, ms, ts) (d, ms, ts(th := dd_CreateLogicalThread ctx t rep))"
| init: "dd_step N (d, ms, ts) (d, snd (dd_MutexInit unwind m (d, ms)), ts)"
| before: "unat (d_epoch d) + 2 * (4096 * N) \<le> 2 ^ 64 \<Longrightarrow>
    dd_MutexBeforeLock unwind tid m (ts th, d, ms) = Some (lt', d', ms') \<Longrightarrow> dd_step N (d, ms, ts) (d', ms', ts(th := lt'))"
| after: "unat (d_epoch d) + 2 * (4096 * N) \<le> 2 ^ 64 \<Longrightarrow> room_for_lock (lt_dd (ts th)) \<Longrightarrow>
    \<forall>i. wlock \<longrightarrow> nodeToIndex (m_id (ms m)) d = Some i \<longrightarrow> i \<notin> held d (lt_dd (ts th)) \<Longrightarrow>
    dd_MutexAfterLock second unwind tid m wlock trylock (ts th, d, ms) = Some (lt', d', ms') \<Longrightarrow>
    dd_step N (d, ms, ts) (d', ms', ts(th := lt'))"
| unlock: "dd_MutexBeforeUnlock m (ts th, d, ms) = Some (lt', d', ms') \<Longrightarrow> dd_step N (d, ms, ts) (d', ms', ts(th := lt'))"
| destroy: "\<forall>th i. nodeToIndex (m_id (ms m)) d = Some i \<longrightarrow> i \<notin> held d (lt_dd (ts th)) \<Longrightarrow>
    dd_MutexDestroy m (d, ms) = Some (d', ms') \<Longrightarrow> dd_step N (d, ms, ts) (d', ms', ts)"
| report: "dd_step N (d, ms, ts) (d, ms, ts(th := snd (dd_GetReport (ts th))))"

definition dd_start :: "nat \<Rightarrow> dd_sys \<Rightarrow> bool" where
  "dd_start N s \<longleftrightarrow> (case s of (d, ms, ts) \<Rightarrow> (\<exists>d0. zeroed N d0 \<and> d = d_clear d0) \<and> (\<forall>m. m_id (ms m) = 0) \<and>
     (\<forall>th. \<exists>ctx t rep. tl_shape N (tls_bv t) \<and> ts th = dd_CreateLogicalThread ctx t rep))"

lemma start_ok: "dd_start N s \<Longrightarrow> sys_ok N s"
proof -
  assume s: "dd_start N s"
  obtain d ms ts where p: "s = (d, ms, ts)" by (cases s)
  have d: "d_ok N d" using s cleared_ok by (auto simp: dd_start_def p)
  have "thread_ok N d (lt_dd (ts th))" for th
  proof -
    have "\<forall>th. \<exists>ctx t rep. tl_shape N (tls_bv t) \<and> ts th = dd_CreateLogicalThread ctx t rep" using s by (simp add: dd_start_def p)
    then obtain ctx t rep where "tl_shape N (tls_bv t)" "ts th = dd_CreateLogicalThread ctx t rep" by blast
    then show ?thesis using new_thread_ok [OF d] by simp
  qed
  then show ?thesis using s d by (auto simp: sys_ok_def dd_start_def p id_ok_def)
qed

lemma step_ok:
  assumes "dd_step N s s'" "sys_ok N s"
  shows "sys_ok N s'"
  using assms
proof cases
  case (create t d ms ts th ctx rep)
  then show ?thesis using assms(2) new_thread_ok by (auto simp: sys_ok_def)
next
  case (init d ms ts unwind m)
  have "id_ok N d m 0" by (simp add: id_ok_def)
  then show ?thesis using init assms(2) by (auto simp: sys_ok_def dd_MutexInit_def)
next
  case (before d unwind tid m ts th ms lt' d' ms')
  then show ?thesis using before_lock_effect [of N d ms ts unwind tid m th] assms(2) by auto
next
  case (after d ts th wlock ms m second unwind tid trylock lt' d' ms')
  then show ?thesis using after_lock_effect [of N d ms ts th wlock m second unwind tid trylock] assms(2) by auto
next
  case (unlock m ts th d ms lt' d' ms')
  then show ?thesis using unlock_effect [of N d ms ts m th] assms(2) by auto
next
  case (destroy ms m d ts d' ms')
  then show ?thesis using destroy_effect [of N d ms ts m] assms(2) by auto
next
  case (report d ms ts th)
  have "lt_dd (snd (dd_GetReport (ts th))) = lt_dd (ts th)" by (simp add: dd_GetReport_def)
  then show ?thesis using report assms(2) by (auto simp: sys_ok_def)
qed

lemma reachable_ok:
  assumes "(dd_step N)\<^sup>*\<^sup>* s0 s" "dd_start N s0"
  shows "sys_ok N s"
  using assms by (induction rule: rtranclp_induct) (auto intro: start_ok step_ok)

end
