(* ===== verification/DeadlockClaims.thy ===== *)
theory DeadlockClaims
  imports DeadlockSystem
begin

text \<open>
  The properties of the deadlock detector and of its bit vectors and graph, with a small example
  system as their witness: one thread holds the mutex at 200 and is about to take the one at 100,
  while the graph says that the mutex at 200 was once taken under the one at 100.
\<close>

section \<open>An example\<close>

definition tl_zero :: two_level where "tl_zero = \<lparr>tl_l1 = [0], tl_l2 = [replicate 64 0]\<rparr>"
definition tl_one :: two_level where "tl_one = \<lparr>tl_l1 = [1], tl_l2 = [(replicate 64 0)[0 := 2]]\<rparr>"

lemma tl_zero: "tl_ok 1 tl_zero" "tl_bits tl_zero = {}" "tl_shape 1 tl_zero"
proof -
  show ok: "tl_ok 1 tl_zero" by (simp add: tl_ok_def tl_zero_def)
  show "tl_shape 1 tl_zero" by (simp add: tl_shape_def tl_zero_def)
  have "tl_empty tl_zero" by (simp add: tl_empty_def tl_zero_def bb_empty_def)
  then show "tl_bits tl_zero = {}" using tl.is_empty [OF ok] by simp
qed

lemma tl_one: "tl_ok 1 tl_one" "tl_bits tl_one = {1}"
proof -
  have "tl_setBit 1 tl_zero = Some (True, tl_one)"
    by (simp add: tl_setBit_def tl_zero_def tl_one_def tl_check_def tl_size_def tl_idx0_def tl_idx1_def tl_idx2_def
        bb_size_def l1_at_def l2_at_def bb_getBit_def bb_setBit_def bb_mask_def set_l1_def set_l2_def bb_clear_def Let_def)
  moreover obtain v where "tl_setBit 1 tl_zero = Some (True, v)" "tl_ok 1 v" "tl_bits v = insert 1 {}"
    using tl.set_bit_op [OF tl_zero(1), of 1] tl_zero(2) by auto
  ultimately show "tl_ok 1 tl_one" "tl_bits tl_one = {1}" by simp_all
qed

definition g_zero :: bvgraph where "g_zero = \<lparr>g_v = replicate 4096 tl_zero, g_t1 = tl_zero, g_t2 = tl_zero\<rparr>"
definition g_one :: bvgraph where "g_one = g_zero\<lparr>g_v := (g_v g_zero)[0 := tl_one]\<rparr>"

lemma g_zero: "g_ok 1 g_zero" "g_edges g_zero = {}"
  using tl_zero by (auto simp: g_ok_def g_zero_def g_edges_def)

lemma g_one: "g_ok 1 g_one" "g_edges g_one = {(0, 1)}"
  using g_update [OF g_zero(1), of 0 tl_one] tl_one g_zero(2) by (simp_all add: g_one_def)

definition dd_mem :: detector where
  "dd_mem = \<lparr>d_epoch = 0, available_nodes = tl_zero, recycled_nodes = tl_zero, tmp_bv = tl_zero, d_g = g_zero,
     d_data = replicate 4096 0, d_edges = []\<rparr>"

definition dd_ex :: detector where
  "dd_ex = dd_mem\<lparr>d_epoch := 4096, d_g := g_one, d_data := (replicate 4096 0)[0 := 100, 1 := 200]\<rparr>"

definition ms_ex :: "u64 \<Rightarrow> dd_mutex" where
  "ms_ex m = \<lparr>m_id = (if m = 100 then 4096 else if m = 200 then 4097 else 0), m_stk = 0, m_ctx = m + 1\<rparr>"

definition tls_zero :: dd_tls where
  "tls_zero = \<lparr>tls_bv = tl_zero, tls_epoch = 0, recursive_locks = [], all_locks = []\<rparr>"

definition tls_ex :: dd_tls where
  "tls_ex = \<lparr>tls_bv = tl_one, tls_epoch = 4096, recursive_locks = [], all_locks = [(1, 7)]\<rparr>"


definition ts_new :: "nat \<Rightarrow> dd_thread" where
  "ts_new th = dd_CreateLogicalThread 0 tls_zero []"

lemma dd_mem: "zeroed 1 dd_mem"
  using tl_zero g_zero by (simp add: zeroed_def dd_mem_def)

lemma dd_ex: "d_ok 1 dd_ex" "d_rel dd_ex = {(0, 1)}" "free_nodes dd_ex = {}"
proof -
  show r: "d_rel dd_ex = {(0, 1)}" using g_one by (simp add: d_rel_def dd_ex_def)
  show f: "free_nodes dd_ex = {}" using tl_zero by (simp add: free_nodes_def dd_ex_def dd_mem_def)
  show "d_ok 1 dd_ex" unfolding d_ok_def r f using tl_zero g_one
    by (simp add: dd_ex_def dd_mem_def epoch_ok_def free_nodes_def)
qed

lemma tls_ex: "t_inv 1 tls_ex" "held dd_ex tls_ex = {1}"
  using tl_one by (simp_all add: t_inv_def tls_ex_def held_def dd_ex_def)



lemma start_ex: "dd_start 1 (d_clear dd_mem, \<lambda>m. (ms_ex m)\<lparr>m_id := 0\<rparr>, ts_new)"
proof -
  have "tl_shape 1 (tls_bv tls_zero)" using tl_zero(3) by (simp add: tls_zero_def)
  then show ?thesis using dd_mem ts_new_def unfolding dd_start_def prod.case by fastforce
qed

section \<open>Locks taken in a cycle\<close>





text \<open>
  Holding a lock by a thread is counted: taking a lock adds one to its count and says whether it was
  the first time, releasing one takes one off, and the lock is held as long as the count is not zero. A
  sixty-fifth recursive lock, or a lock beyond sixty-four different ones, is refused.
\<close>
theorem lock_nesting_counted:
  assumes "t_inv N t" "i < 4096 * N" "tls_epoch t = e"
  shows "(case tls_addLock i e stk t of
       Some (new, t') \<Rightarrow> (new \<longleftrightarrow> nesting t i = 0) \<and> t_inv N t' \<and> nesting t' = (nesting t)(i := nesting t i + 1)
     | None \<Rightarrow> (if nesting t i = 0 then length (all_locks t) \<ge> 64 else length (recursive_locks t) \<ge> 64)) \<and>
    (\<exists>t'. tls_removeLock i t = Some t' \<and> t_inv N t' \<and> nesting t' = (nesting t)(i := nesting t i - 1))"
proof -
  have zero: "nesting t i = 0 \<longleftrightarrow> i \<notin> tl_bits (tls_bv t)"
    using t_invD(6) [OF assms(1)] by (auto simp: nesting_def count_list_0_iff)
  have "case tls_addLock i e stk t of
       Some (new, t') \<Rightarrow> (new \<longleftrightarrow> nesting t i = 0) \<and> t_inv N t' \<and> nesting t' = (nesting t)(i := nesting t i + 1)
     | None \<Rightarrow> (if nesting t i = 0 then length (all_locks t) \<ge> 64 else length (recursive_locks t) \<ge> 64)"
  proof (cases "if i \<in> tl_bits (tls_bv t) then length (recursive_locks t) < 64 else length (all_locks t) < 64")
    case True
    then show ?thesis using addLock_effect [OF assms True, of stk] zero by auto
  next
    case False
    then have "tls_addLock i e stk t = None"
      using tl.set_bit_op [OF t_invD(3) [OF assms(1)] assms(2)]
      by (auto simp: tls_addLock_def kMaxLocks_def split: if_splits)
    then show ?thesis using False zero by (simp split: if_splits)
  qed
  then show ?thesis using removeLock_effect [OF assms(1,2)] by blast
qed

theorem lock_nesting_counted_witness:
  "\<exists>t'. tls_removeLock 1 tls_ex = Some t' \<and> t_inv 1 t' \<and> nesting t' = (nesting tls_ex)(1 := nesting tls_ex 1 - 1)"
proof -
  have "(1 :: nat) < 4096 * 1" by simp
  from lock_nesting_counted [OF tls_ex(1) this refl, of 0] show ?thesis by blast
qed

text \<open>
  Why the system leaves out the destruction of a mutex that a thread holds, which \<open>MutexDestroy\<close> in
  \<open>tsan_rtl_mutex.cpp\<close> does ask the detector for: the thread goes on holding the node, and when all others are in
  use the next mutex gets it. Taking that mutex then fails the \<open>CHECK\<close> that it is not yet held.
\<close>

theorem held_node_reused:
  assumes s: "sys_ok N (d, ms, ts)" and room: "unat (d_epoch d) + 2 * (4096 * N) \<le> 2 ^ 64" and full: "free_nodes d = {}"
    and i: "nodeToIndex (m_id (ms m)) d = Some i" "i \<in> held d (lt_dd (ts th))" and m': "nodeToIndex (m_id (ms m')) d = None"
  shows "\<exists>d' ms'. dd_MutexDestroy m (d, ms) = Some (d', ms') \<and>
    dd_MutexAfterLock second unwind tid m' True trylock (ts th, d', ms') = None"
proof -
  let ?t = "lt_dd (ts th)" and ?ms = "ms(m := (ms m)\<lparr>m_id := 0\<rparr>)" and ?stk = "if second then unwind else (0 :: u32)"
  note d = sys_okD(1) [OF s] and t = sys_okD(4) [OF s, of th]
  have ne: "m' \<noteq> m" using i(1) m' by auto
  obtain d' where d': "removeNode (m_id (ms m)) d = Some d'" "d_ok N d'" "free_nodes d' = {i}"
      "d' = d\<lparr>recycled_nodes := recycled_nodes d', d_g := d_g d'\<rparr>"
    using removeNode_effect [OF d i(1)] full by auto
  have ep: "d_epoch d' = d_epoch d" by (subst d'(4)) simp
  have id: "m_id (ms m) \<noteq> 0" "nodeBelongsToCurrentEpoch (m_id (ms m)) d"
    using i(1) d_okD(1) [OF d] unfolding nodeToIndex_iff [OF d] belongs_iff [OF d] by auto
  have destroy: "dd_MutexDestroy m (d, ms) = Some (d', ?ms)" using d'(1) id by (simp add: dd_MutexDestroy_def)
  have te: "tls_epoch ?t = d_epoch d'" "i \<in> tl_bits (tls_bv ?t)" using i(2) ep by (simp_all add: held_def split: if_splits)
  have "\<not> tls_empty ?t" using te(2) tl.is_empty [OF t_invD(3) [OF t]] by (auto simp: tls_empty_def)
  then have first: "onFirstLock (m_id (?ms m')) ?stk d' ?t = Some (False, ?t)" by (simp add: onFirstLock_def)
  have old: "m_id (ms m') = 0 \<or> (4096 * N \<le> unat (m_id (ms m')) \<and> \<not> (\<exists>j < 4096 * N. unat (m_id (ms m')) = unat (d_epoch d) + j))"
    using sys_okD(2) [OF s, of m'] m' nodeToIndex_iff [OF d, of "m_id (ms m')"] unfolding id_ok_def by auto
  then have nb: "\<not> nodeBelongsToCurrentEpoch (m_id (?ms m')) d'" using ne unfolding belongs_iff [OF d'(2)] ep by auto
  then have "\<not> (m_id (?ms m') \<noteq> 0 \<and> nodeToEpoch (m_id (?ms m')) d' = d_epoch d')"
    by (simp add: nodeBelongsToCurrentEpoch_def nodeToEpoch_def)
  then have "hasAllEdges (m_id (?ms m')) d' ?t = Some False" using hasAllEdges_effect [OF d'(2) t, of "m_id (?ms m')"] by auto
  then have fast: "onLockFast (m_id (?ms m')) ?stk d' ?t = Some (False, ?t)" by (simp add: onLockFast_def)
  obtain node d2 where n: "newNode m' d' = Some (node, d2)" "d_ok N d2" "nodeToIndex node d2 = Some i" "d_epoch d2 = d_epoch d'"
    using newNode_effect [OF d'(2), of m'] room d'(3) ep by auto
  have same: "ensureCurrentEpoch d2 ?t = ?t" using te(1) n(4) by (intro ensured_same) simp
  have e: "dd_MutexEnsureID m' (ts th, d', ?ms) = Some (ts th, d2, ?ms(m' := (?ms m')\<lparr>m_id := node\<rparr>))"
    using nb n(1) same by (simp add: dd_MutexEnsureID_def)
  have "isHeld node d2 ?t = Some True" using isHeld_effect [OF n(2) t _ n(3)] te n(4) by (simp add: held_def)
  then have "dd_MutexAfterLock second unwind tid m' True trylock (ts th, d', ?ms) = None"
    unfolding dd_MutexAfterLock_def Let_def prod.case first fast bind.bind_lunit by (simp add: first fast e)
  then show ?thesis using destroy by blast
qed

text \<open>
  C10: In every state that the threads and mutexes reach without destroying a mutex that a thread holds, no handler stops at
  a failing \<open>CHECK\<close> or outside an array: locking and unlocking always return, and so do taking the lock when the
  thread's arrays of 64 locks have room and it does not take a write lock twice, and destroying a mutex that no thread
  holds, all while the 64-bit epoch is not used up. Destroying a held mutex, which \<open>MutexDestroy\<close> of the runtime reports
  and does all the same, is left out: after it the \<open>CHECK\<close> can fail (\<open>held_node_reused\<close>).
\<close>
theorem dd_handlers_return:
  assumes "dd_start N s" "(dd_step N)\<^sup>*\<^sup>* s (d, ms, ts)" "unat (d_epoch d) + 2 * (4096 * N) \<le> 2 ^ 64"
  shows "dd_MutexBeforeLock unwind tid m (ts th, d, ms) \<noteq> None \<and> dd_MutexBeforeUnlock m (ts th, d, ms) \<noteq> None \<and>
    (room_for_lock (lt_dd (ts th)) \<longrightarrow> (\<forall>i. wlock \<longrightarrow> nodeToIndex (m_id (ms m)) d = Some i \<longrightarrow> i \<notin> held d (lt_dd (ts th))) \<longrightarrow>
       dd_MutexAfterLock second unwind tid m wlock trylock (ts th, d, ms) \<noteq> None) \<and>
    ((\<forall>th i. nodeToIndex (m_id (ms m)) d = Some i \<longrightarrow> i \<notin> held d (lt_dd (ts th))) \<longrightarrow> dd_MutexDestroy m (d, ms) \<noteq> None)"
proof -
  note s = reachable_ok [OF assms(2,1)]
  have "dd_MutexBeforeLock unwind tid m (ts th, d, ms) \<noteq> None" using before_lock_effect [OF s assms(3), of unwind tid m th] by auto
  moreover have "dd_MutexBeforeUnlock m (ts th, d, ms) \<noteq> None" using unlock_effect [OF s, of m th] by auto
  ultimately show ?thesis
    using after_lock_effect [OF s assms(3), of th wlock m second unwind tid trylock] destroy_effect [OF s, of m] by auto
qed

theorem dd_handlers_return_witness:
  "dd_MutexBeforeLock 9 5 100 (ts_new 0, d_clear dd_mem, \<lambda>m. (ms_ex m)\<lparr>m_id := 0\<rparr>) \<noteq> None"
proof -
  have "unat (d_epoch (d_clear dd_mem)) + 2 * (4096 * 1) \<le> 2 ^ 64" by (simp add: d_clear_def)
  from conjunct1 [OF dd_handlers_return [OF start_ex rtranclp.rtrancl_refl this, where unwind = 9 and tid = 5 and m = 100 and th = 0]]
  show ?thesis by simp
qed

text \<open>
  C11: In every reachable state two mutexes never have the same node of the current epoch, the node stores the address of
  its mutex, and every recorded edge joins two nodes of the graph.
\<close>
theorem mutex_nodes_distinct:
  assumes "dd_start N s" "(dd_step N)\<^sup>*\<^sup>* s (d, ms, ts)" "nodeToIndex (m_id (ms m)) d = Some i"
  shows "getData (m_id (ms m)) d = Some m \<and> (nodeToIndex (m_id (ms m')) d = Some i \<longrightarrow> m' = m) \<and>
    (\<forall>e \<in> set (d_edges d). edge_ok N d e)"
proof -
  note s = reachable_ok [OF assms(2,1)]
  have data: "d_data d ! i = x" if "nodeToIndex (m_id (ms x)) d = Some i" for x
    using sys_okD(2) [OF s, of x] that d_okD(1) [OF sys_okD(1) [OF s]] unfolding id_ok_def nodeToIndex_iff [OF sys_okD(1) [OF s]] by auto
  show ?thesis using data assms(3) d_okD(12) [OF sys_okD(1) [OF s]] by (auto simp: getData_def)
qed

theorem mutex_nodes_distinct_witness:
  "\<exists>s d ms ts i. dd_start 1 s \<and> (dd_step 1)\<^sup>*\<^sup>* s (d, ms, ts) \<and> nodeToIndex (m_id (ms 100)) d = Some i \<and> getData (m_id (ms 100)) d = Some 100"
proof -
  let ?d = "d_clear dd_mem" and ?ms = "\<lambda>m. (ms_ex m)\<lparr>m_id := 0\<rparr>" and ?ts = ts_new
  let ?s = "(?d, ?ms, ?ts)"
  have fresh: "lt_dd (?ts 0) = tls_clear tls_zero" by (simp add: ts_new_def dd_CreateLogicalThread_def)
  have room: "unat (d_epoch ?d) + 2 * (4096 * 1) \<le> 2 ^ 64" "room_for_lock (lt_dd (?ts 0))"
    unfolding fresh by (simp_all add: d_clear_def room_for_lock_def tls_clear_def)
  have none: "\<forall>i. False \<longrightarrow> nodeToIndex (m_id (?ms 100)) ?d = Some i \<longrightarrow> i \<notin> held ?d (lt_dd (?ts 0))" by simp
  obtain lt1 d1 ms1 t2 d2 t3 where a: "dd_MutexEnsureID 100 (?ts 0, ?d, ?ms) = Some (lt1, d1, ms1)"
      "map_option snd (d_addEdges (m_id (ms1 100)) 9 5 (lt_dd lt1, d1)) = Some (t2, d2)"
      "onLockAfter (m_id (ms1 100)) 0 d2 t2 = Some t3" "nodeToIndex (m_id (ms1 100)) d2 \<noteq> None"
    using slow_after_lock [OF start_ok [OF start_ex] room none, where tid = 5 and stk = 9 and stk' = 0 and trylock = False] by auto
  have "onFirstLock 0 0 ?d (lt_dd (?ts 0)) = Some (False, lt_dd (?ts 0))" "onLockFast 0 0 ?d (lt_dd (?ts 0)) = Some (False, lt_dd (?ts 0))"
    unfolding fresh by (auto simp: onFirstLock_def onLockFast_def hasAllEdges_def tls_clear_def)
  moreover obtain n where "d_addEdges (m_id (ms1 100)) 9 5 (lt_dd lt1, d1) = Some (n, t2, d2)" using a(2) by auto
  ultimately have "dd_MutexAfterLock False 9 5 100 False False (?ts 0, ?d, ?ms) = Some (lt1\<lparr>lt_dd := t3\<rparr>, d2, ms1)"
    using a(1,3) by (simp add: dd_MutexAfterLock_def)
  then have step: "(dd_step 1)\<^sup>*\<^sup>* ?s (d2, ms1, ?ts(0 := lt1\<lparr>lt_dd := t3\<rparr>))"
    using dd_step.after [where ms = ?ms and m = 100 and ts = ts_new and th = 0, OF room none] by blast
  obtain i where i: "nodeToIndex (m_id (ms1 100)) d2 = Some i" using a(4) by blast
  show ?thesis using start_ex step i mutex_nodes_distinct [OF start_ex step i, of 100] by blast
qed

text \<open>
  C31: A new node belongs to the current epoch, stores its data, was free and has no edge in either direction. Edges and
  other nodes stay as they are, except that edges into removed nodes go when these are used again, and that the graph
  is emptied for a new epoch when no node is free.
\<close>
theorem new_node_fresh:
  assumes "d_ok N d" "unat (d_epoch d) + 2 * (4096 * N) \<le> 2 ^ 64"
  shows "\<exists>node d' i. newNode x d = Some (node, d') \<and> d_ok N d' \<and> nodeToIndex node d' = Some i \<and> getData node d' = Some x \<and>
    i \<notin> free_nodes d' \<and> (\<forall>j. (i, j) \<notin> d_rel d' \<and> (j, i) \<notin> d_rel d') \<and>
    (if free_nodes d = {} then unat (d_epoch d') = unat (d_epoch d) + 4096 * N \<and> d_rel d' = {}
     else d_epoch d' = d_epoch d \<and> i \<in> free_nodes d \<and> free_nodes d' = free_nodes d - {i} \<and>
       d_rel d' = {(a, b) \<in> d_rel d. tl_bits (available_nodes d) = {} \<longrightarrow> b \<notin> tl_bits (recycled_nodes d)})"
proof -
  obtain node d' i where n: "newNode x d = Some (node, d')" "d_ok N d'" "nodeToIndex node d' = Some i" "i \<notin> free_nodes d'"
      "d_data d' = (d_data d)[i := x]" "\<forall>j. (i, j) \<notin> d_rel d' \<and> (j, i) \<notin> d_rel d'"
      "if free_nodes d = {} then unat (d_epoch d') = unat (d_epoch d) + 4096 * N \<and> d_rel d' = {}
       else d_epoch d' = d_epoch d \<and> i \<in> free_nodes d \<and> free_nodes d' = free_nodes d - {i} \<and>
         d_rel d' = {(a, b) \<in> d_rel d. tl_bits (available_nodes d) = {} \<longrightarrow> b \<notin> tl_bits (recycled_nodes d)}"
    using newNode_effect [OF assms, of x] by blast
  have "i < 4096 * N" using n(3) unfolding nodeToIndex_iff [OF n(2)] by simp
  then have "getData node d' = Some x" using n(3,5) d_okD(7) [OF assms(1)] by (simp add: getData_def)
  then show ?thesis using n(1-4,6,7) by blast
qed

theorem new_node_fresh_witness:
  "\<exists>node d'. newNode 7 dd_ex = Some (node, d') \<and> getData node d' = Some 7 \<and> unat (d_epoch d') = 8192 \<and> d_rel d' = {}"
proof -
  have room: "unat (d_epoch dd_ex) + 2 * (4096 * 1) \<le> 2 ^ 64" and ep: "unat (d_epoch dd_ex) = 4096" by (simp_all add: dd_ex_def)
  from new_node_fresh [OF dd_ex(1) room, of 7] obtain node d' where
    "newNode 7 dd_ex = Some (node, d')" "getData node d' = Some 7" "unat (d_epoch d') = unat (d_epoch dd_ex) + 4096 * 1" "d_rel d' = {}"
    unfolding if_P [OF dd_ex(3)] by blast
  then show ?thesis using ep by simp
qed

section \<open>The graph\<close>

text \<open>
  C33: The search for a path returns for every graph, and finds a shortest path from a node to the targets that
  fits in the given length; it finds none exactly if every path is longer.
\<close>
theorem shortest_path_found:
  assumes "g_ok N g" "tl_ok N T" "s < 4096 * N"
  shows "\<exists>p. g_findShortestPath s T k g = Some p \<and>
    (if p = [] then \<forall>q. walk_to (g_edges g) s (tl_bits T) q \<longrightarrow> k < length q
     else walk_to (g_edges g) s (tl_bits T) p \<and> length p \<le> k \<and> (\<forall>q. walk_to (g_edges g) s (tl_bits T) q \<longrightarrow> length p \<le> length q))"
  by (rule findShortestPath_result [OF assms])

theorem shortest_path_found_witness:
  "\<exists>p. g_findShortestPath 0 tl_one 5 g_one = Some p \<and> p \<noteq> [] \<and> walk_to {(0, 1)} 0 {1} p \<and> length p \<le> 2"
proof -
  have z: "(0 :: nat) < 4096 * 1" by simp
  obtain p where p: "g_findShortestPath 0 tl_one 5 g_one = Some p"
      "if p = [] then \<forall>q. walk_to {(0, 1)} 0 {1} q \<longrightarrow> 5 < length q
       else walk_to {(0, 1)} 0 {1} p \<and> length p \<le> 5 \<and> (\<forall>q. walk_to {(0, 1)} 0 {1} q \<longrightarrow> length p \<le> length q)"
    using shortest_path_found [OF g_one(1) tl_one(1) z, of 5] unfolding g_one(2) tl_one(2) by blast
  have w: "walk_to {(0, 1)} 0 {1} [0, 1]" by (simp add: walk_to_Cons)
  have "p \<noteq> []"
  proof
    assume "p = []"
    then have "5 < length [0, 1 :: nat]" using p(2) w by metis
    then show False by simp
  qed
  then have q: "walk_to {(0, 1)} 0 {1} p" "length p \<le> length [0, 1 :: nat]" using p(2) w by metis+
  then show ?thesis using p(1) \<open>p \<noteq> []\<close> by simp
qed

text \<open>
  C34: The search with the two scratch vectors returns, and says whether a target is in the reflexive transitive closure
  of the edges from the start; the edges stay as they are.
\<close>
theorem reachable_is_closure:
  assumes "g_ok N g" "s < 4096 * N" "tl_ok N T"
  shows "\<exists>g'. g_isReachable s T g = Some (\<exists>t \<in> tl_bits T. (s, t) \<in> (g_edges g)\<^sup>*, g') \<and> g_ok N g' \<and> g_edges g' = g_edges g"
  by (rule g_isReachable_effect [OF assms])

theorem reachable_is_closure_witness: "\<exists>g'. g_isReachable 0 tl_one g_one = Some (True, g')"
proof -
  have z: "(0 :: nat) < 4096 * 1" by simp
  have "(0, 1) \<in> {(0, 1 :: nat)}\<^sup>*" by (rule r_into_rtrancl) simp
  then have t: "(\<exists>t \<in> {1}. (0, t) \<in> {(0, 1 :: nat)}\<^sup>*) = True" by simp
  show ?thesis
    using reachable_is_closure [OF g_one(1) z tl_one(1)] unfolding g_one(2) tl_one(2) t by (elim exE conjE) (rule exI)
qed

section \<open>Bit vectors\<close>

text \<open>
  C32: A two-level vector is a set of indices below its size: setting, clearing and reading a bit, taking out the first
  one, union, difference and the test for a common bit are the operations on sets, and the Boolean results say
  whether the set changed. Words of the second level that were never initialised do not matter.
\<close>
theorem two_level_is_set:
  assumes "tl_ok N v" "tl_ok N w" "i < 4096 * N"
  shows "(\<exists>v'. tl_setBit i v = Some (i \<notin> tl_bits v, v') \<and> tl_ok N v' \<and> tl_bits v' = insert i (tl_bits v)) \<and>
    (\<exists>v'. tl_clearBit i v = Some (i \<in> tl_bits v, v') \<and> tl_ok N v' \<and> tl_bits v' = tl_bits v - {i}) \<and>
    tl_getBit i v = Some (i \<in> tl_bits v) \<and>
    (tl_bits v \<noteq> {} \<longrightarrow> (\<exists>v'. tl_getAndClearFirstOne v = Some (Min (tl_bits v), v') \<and> tl_ok N v' \<and> tl_bits v' = tl_bits v - {Min (tl_bits v)})) \<and>
    (\<exists>v'. tl_setUnion v w = Some (\<not> tl_bits w \<subseteq> tl_bits v, v') \<and> tl_ok N v' \<and> tl_bits v' = tl_bits v \<union> tl_bits w) \<and>
    (\<exists>v'. tl_setDifference v w = Some (tl_bits v \<inter> tl_bits w \<noteq> {}, v') \<and> tl_ok N v' \<and> tl_bits v' = tl_bits v - tl_bits w) \<and>
    tl_intersectsWith v w = Some (tl_bits v \<inter> tl_bits w \<noteq> {})"
  by (intro conjI impI tl.set_bit_op [OF assms(1,3)] tl.clear_bit_op [OF assms(1,3)] tl.get_bit_op [OF assms(1,3)]
      tl.first [OF assms(1)] tl.union [OF assms(1,2)] tl.difference [OF assms(1,2)] tl.intersects [OF assms(1,2)])

theorem two_level_is_set_witness:
  "\<exists>v'. tl_setUnion tl_zero tl_one = Some (True, v') \<and> tl_bits v' = {1}"
proof -
  have "(1 :: nat) < 4096 * 1" by simp
  from two_level_is_set [OF tl_zero(1) tl_one(1) this] obtain v' where
    "tl_setUnion tl_zero tl_one = Some (\<not> {1} \<subseteq> ({} :: nat set), v')" "tl_bits v' = {} \<union> {1}"
    unfolding tl_zero(2) tl_one(2) by blast
  then show ?thesis by simp
qed

text \<open>
  The checks of the index let the size of the vector pass, although the array of the first level has no word for it.
\<close>
theorem index_check_lets_size_pass:
  "tl_check (tl_size v) v = Some () \<and> tl_idx0 (tl_size v) v = Some (length (tl_l1 v)) \<and> l1_at (length (tl_l1 v)) v = None \<and>
   tl_getBit (tl_size v) v = None"
  by (simp add: tl_check_def tl_idx0_def tl_size_def bb_size_def l1_at_def tl_getBit_def tl_idx1_def tl_idx2_def Let_def)

end
