(* ===== verification/MetaMap.thy ===== *)
theory MetaMap
  imports DeadlockDetector SyncClock ShadowMapping
begin

text \<open>
  \<open>tsan/rtl/tsan_sync.cpp\<close> and \<open>tsan_sync.h\<close>: the map from addresses of the program to the
  descriptors of heap blocks and synchronisation objects. A cell of metadata holds the tagged
  index of the first object of a list that the objects link themselves. Each allocator is paired
  with the cache of the processor that runs the operation. The first word of a free object is a link
  of its allocator; the other fields are records by index. The lock \<open>mtx\<close> of an object is not part
  of the state: what happens under it is one step. \<open>None\<close> is a failing \<open>CHECK\<close>, the death of an allocator
  or a loop that does not end.
\<close>

section \<open>Descriptors\<close>

record mblock =
  mb_siz :: "48 word"
  mb_tag :: u16
  mb_stk :: u32
  mb_tid :: u16

record sync_var =
  sv_addr :: u64
  sv_uid :: u64
  sv_stack :: u32
  sv_owner :: int
  sv_last_lock :: u64
  sv_recursion :: int
  sv_flags :: u32
  sv_next :: u32
  sv_read_clock :: sync_clock
  sv_clock :: sync_clock

definition kInvalidOwner :: int where "kInvalidOwner = - 1"

text \<open>The constructor, on zeroed memory.\<close>

definition sync_var_new :: sync_var where
  "sync_var_new = \<lparr>sv_addr = 0, sv_uid = 0, sv_stack = 0, sv_owner = kInvalidOwner, sv_last_lock = 0, sv_recursion = 0,
     sv_flags = 0, sv_next = 0, sv_read_clock = sync_clock_new, sv_clock = sync_clock_new\<rparr>"

definition SyncVar_GetId :: "sync_var \<Rightarrow> u64" where
  "SyncVar_GetId s = GetLsb (sv_addr s OR push_bit 48 (sv_uid s)) 60"

definition SyncVar_CheckId :: "u64 \<Rightarrow> sync_var \<Rightarrow> bool option" where
  "SyncVar_CheckId uid s = (if uid \<noteq> GetLsb uid 14 then None else Some (GetLsb (sv_uid s) 14 = uid))"

definition SplitId :: "u64 \<Rightarrow> u64 \<times> u64" where
  "SplitId i = (GetLsb i 48, drop_bit 48 i)"

subsection \<open>Flags\<close>

definition MutexFlagLinkerInit :: u32 where "MutexFlagLinkerInit = push_bit 0 1"
definition MutexFlagWriteReentrant :: u32 where "MutexFlagWriteReentrant = push_bit 1 1"
definition MutexFlagReadReentrant :: u32 where "MutexFlagReadReentrant = push_bit 2 1"
definition MutexFlagReadLock :: u32 where "MutexFlagReadLock = push_bit 3 1"
definition MutexFlagTryLock :: u32 where "MutexFlagTryLock = push_bit 4 1"
definition MutexFlagTryLockFailed :: u32 where "MutexFlagTryLockFailed = push_bit 5 1"
definition MutexFlagRecursiveLock :: u32 where "MutexFlagRecursiveLock = push_bit 6 1"
definition MutexFlagRecursiveUnlock :: u32 where "MutexFlagRecursiveUnlock = push_bit 7 1"
definition MutexFlagNotStatic :: u32 where "MutexFlagNotStatic = push_bit 8 1"
definition MutexFlagBroken :: u32 where "MutexFlagBroken = push_bit 30 1"
definition MutexFlagDoPreLockOnPostLock :: u32 where "MutexFlagDoPreLockOnPostLock = push_bit 29 1"

definition MutexCreationFlagMask :: u32 where
  "MutexCreationFlagMask = MutexFlagLinkerInit OR MutexFlagWriteReentrant OR MutexFlagReadReentrant OR MutexFlagNotStatic"

lemmas mutex_flags = MutexFlagLinkerInit_def MutexFlagWriteReentrant_def MutexFlagReadReentrant_def MutexFlagReadLock_def
  MutexFlagTryLock_def MutexFlagTryLockFailed_def MutexFlagRecursiveLock_def MutexFlagRecursiveUnlock_def
  MutexFlagNotStatic_def MutexFlagBroken_def MutexFlagDoPreLockOnPostLock_def MutexCreationFlagMask_def

definition IsFlagSet :: "u32 \<Rightarrow> sync_var \<Rightarrow> bool" where
  "IsFlagSet f s \<longleftrightarrow> sv_flags s AND f \<noteq> 0"

definition SetFlags :: "u32 \<Rightarrow> sync_var \<Rightarrow> sync_var" where
  "SetFlags f s = s\<lparr>sv_flags := sv_flags s OR f\<rparr>"

definition UpdateFlags :: "u32 \<Rightarrow> sync_var \<Rightarrow> sync_var" where
  "UpdateFlags flagz s =
     (if flagz AND MutexCreationFlagMask = 0 then s
      else if sv_flags s AND MutexCreationFlagMask \<noteq> 0 then s
      else s\<lparr>sv_flags := sv_flags s OR (flagz AND MutexCreationFlagMask)\<rparr>)"

section \<open>The map\<close>

definition kFlagMask :: u32 where "kFlagMask = push_bit 30 3"
definition kFlagBlock :: u32 where "kFlagBlock = push_bit 30 1"
definition kFlagSync :: u32 where "kFlagSync = push_bit 30 2"

definition kBlockL1 :: nat where "kBlockL1 = 2 ^ 16"
definition kBlockL2 :: nat where "kBlockL2 = 2 ^ 12"
definition kSyncL1 :: nat where "kSyncL1 = 2 ^ 16"
definition kSyncL2 :: nat where "kSyncL2 = 2 ^ 10"

text \<open>The map, the memory of the clocks and the deadlock detector, whose mutexes are fields of the objects.\<close>

record meta_map =
  mm_meta :: "u64 \<Rightarrow> u32"
  mm_blocks :: "u32 \<Rightarrow> mblock"
  block_alloc :: "dense_alloc \<times> u32 list"
  mm_syncs :: "u32 \<Rightarrow> sync_var"
  sync_alloc :: "dense_alloc \<times> u32 list"
  uid_gen :: u64
  mm_clocks :: clk_heap
  mm_dd :: dd_world

definition index_of :: "u32 \<Rightarrow> u32" where
  "index_of idx = idx AND NOT kFlagMask"

text \<open>The address of the field \<open>dd\<close> of an object.\<close>

definition dd_key :: "u32 \<Rightarrow> u64" where
  "dd_key i = ucast i"

definition upd_sync :: "u32 \<Rightarrow> (sync_var \<Rightarrow> sync_var) \<Rightarrow> meta_map \<Rightarrow> meta_map" where
  "upd_sync i f m = m\<lparr>mm_syncs := (mm_syncs m)(i := f (mm_syncs m i))\<rparr>"

text \<open>\<open>DDMutexInit\<close> in \<open>tsan_rtl_mutex.cpp\<close>; \<open>stk\<close> is the identifier of the current stack.\<close>

definition DDMutexInit :: "u32 \<Rightarrow> u32 \<Rightarrow> meta_map \<Rightarrow> meta_map" where
  "DDMutexInit stk i m =
     (let (d, ms) = dd_MutexInit stk (dd_key i) (mm_dd m) in
      m\<lparr>mm_dd := (d, ms(dd_key i := (ms (dd_key i))\<lparr>m_ctx := SyncVar_GetId (mm_syncs m i)\<rparr>))\<rparr>)"

definition SyncVar_Init :: "bool \<Rightarrow> u32 \<Rightarrow> u64 \<Rightarrow> u64 \<Rightarrow> u32 \<Rightarrow> meta_map \<Rightarrow> meta_map" where
  "SyncVar_Init detect_deadlocks stk addr uid i m =
     (let m = upd_sync i (\<lambda>s. s\<lparr>sv_addr := addr, sv_uid := uid, sv_next := 0, sv_stack := stk\<rparr>) m in
      if detect_deadlocks then DDMutexInit stk i m else m)"

definition SyncVar_Reset :: "u32 \<Rightarrow> meta_map \<Rightarrow> meta_map option" where
  "SyncVar_Reset i m =
     (let s = mm_syncs m i in
      do { (c, h) \<leftarrow> SyncClock_Reset (sv_clock s) (mm_clocks m);
           (rc, h) \<leftarrow> SyncClock_Reset (sv_read_clock s) h;
           Some (m\<lparr>mm_clocks := h,
                   mm_syncs := (mm_syncs m)(i := s\<lparr>sv_uid := 0, sv_stack := 0, sv_owner := kInvalidOwner, sv_last_lock := 0,
                     sv_recursion := 0, sv_flags := 0, sv_clock := c, sv_read_clock := rc\<rparr>)\<rparr>) })"

definition free_sync :: "u32 \<Rightarrow> meta_map \<Rightarrow> meta_map" where
  "free_sync i m = m\<lparr>sync_alloc := da_free i (sync_alloc m)\<rparr>"

definition free_block :: "u32 \<Rightarrow> meta_map \<Rightarrow> meta_map" where
  "free_block i m = m\<lparr>block_alloc := da_free i (block_alloc m)\<rparr>"

subsection \<open>Blocks\<close>

definition AllocBlock :: "u32 \<Rightarrow> u16 \<Rightarrow> u64 \<Rightarrow> u64 \<Rightarrow> meta_map \<Rightarrow> meta_map option" where
  "AllocBlock stk tid p sz m =
     do { (idx, a) \<leftarrow> da_alloc kBlockL1 kBlockL2 (block_alloc m);
          Some (m\<lparr>block_alloc := a,
                  mm_blocks := (mm_blocks m)(idx := \<lparr>mb_siz = ucast sz, mb_tag = 0, mb_stk = stk, mb_tid = tid\<rparr>),
                  mm_meta := (mm_meta m)(MemToMeta p := idx OR kFlagBlock)\<rparr>) }"

text \<open>The search for the block at the end of a list; \<open>Some None\<close> is the result 0.\<close>

partial_function (option) block_from :: "meta_map \<Rightarrow> u32 \<Rightarrow> u32 option option" where
  "block_from m idx =
     (if idx = 0 then Some None
      else if idx AND kFlagBlock \<noteq> 0 then Some (Some (index_of idx))
      else block_from m (sv_next (mm_syncs m (index_of idx))))"

definition GetBlock :: "u64 \<Rightarrow> meta_map \<Rightarrow> u32 option option" where
  "GetBlock p m = block_from m (mm_meta m (MemToMeta p))"

subsection \<open>Freeing\<close>

partial_function (option) free_chain :: "u32 \<Rightarrow> meta_map \<Rightarrow> meta_map option" where
  "free_chain idx m =
     (if idx = 0 then Some m
      else if idx AND kFlagBlock \<noteq> 0 then Some (free_block (index_of idx) m)
      else if idx AND kFlagSync \<noteq> 0
      then (let nxt = sv_next (mm_syncs m (index_of idx)) in
            do { m \<leftarrow> SyncVar_Reset (index_of idx) m; free_chain nxt (free_sync (index_of idx) m) })
      else None)"

fun free_cells :: "u64 list \<Rightarrow> bool \<times> meta_map \<Rightarrow> (bool \<times> meta_map) option" where
  "free_cells [] s = Some s"
| "free_cells (c # cs) (has, m) =
     (if mm_meta m c = 0 then free_cells cs (has, m)
      else do { m \<leftarrow> free_chain (mm_meta m c) (m\<lparr>mm_meta := (mm_meta m)(c := 0)\<rparr>); free_cells cs (True, m) })"

text \<open>The cells from \<open>meta\<close> up to \<open>end\<close>.\<close>

definition meta_cells :: "u64 \<Rightarrow> u64 \<Rightarrow> u64 list" where
  "meta_cells b e = (if b < e then map (\<lambda>i. b + 4 * of_nat i) [0..<(unat (e - b) + 3) div 4] else [])"

definition range_cells :: "u64 \<Rightarrow> u64 \<Rightarrow> u64 list" where
  "range_cells p sz =
     (let b = MemToMeta p; e = MemToMeta (p + sz) in meta_cells b (if e = b then e + 4 else e))"

definition FreeRange :: "u64 \<Rightarrow> u64 \<Rightarrow> meta_map \<Rightarrow> (bool \<times> meta_map) option" where
  "FreeRange p sz m = free_cells (range_cells p sz) (False, m)"

definition FreeBlock :: "u64 \<Rightarrow> meta_map \<Rightarrow> (u64 \<times> meta_map) option" where
  "FreeBlock p m =
     do { b \<leftarrow> GetBlock p m;
          case b of None \<Rightarrow> Some (0, m)
          | Some i \<Rightarrow> do { sz \<leftarrow> RoundUpTo (ucast (mb_siz (mm_blocks m i))) kMetaShadowCell;
                           (_, m) \<leftarrow> FreeRange p sz m;
                           Some (sz, m) } }"

text \<open>
  The two probing loops of \<open>ResetRange\<close> on a range of whole pages; \<open>remap_ok\<close>: the system can unmap the
  metadata and map it again.
\<close>

partial_function (option) probe_start :: "u64 \<Rightarrow> u64 \<Rightarrow> u64 \<Rightarrow> u64 \<Rightarrow> meta_map \<Rightarrow> (u64 \<times> u64 \<times> meta_map) option" where
  "probe_start page checked p sz m =
     (if sz > 0
      then do { (has, m) \<leftarrow> FreeRange p page m;
                if \<not> has \<and> checked > push_bit 10 128 then Some (p + page, sz - page, m)
                else probe_start page (checked + page) (p + page) (sz - page) m }
      else Some (p, sz, m))"

partial_function (option) probe_end :: "u64 \<Rightarrow> u64 \<Rightarrow> u64 \<Rightarrow> u64 \<Rightarrow> meta_map \<Rightarrow> meta_map option" where
  "probe_end page checked p sz m =
     (if sz > 0
      then do { (has, m) \<leftarrow> FreeRange (p + sz - page) page m;
                if \<not> has \<and> checked > push_bit 10 512 then Some m
                else probe_end page (checked + page) p (sz - page) m }
      else Some m)"

definition ResetRange :: "u64 \<Rightarrow> bool \<Rightarrow> u64 \<Rightarrow> u64 \<Rightarrow> meta_map \<Rightarrow> meta_map option" where
  "ResetRange page_size remap_ok p sz m =
     (let ratio = kMetaShadowCell div kMetaShadowSize; page = page_size * ratio in
      if sz \<le> 4 * page then map_option snd (FreeRange p sz m)
      else
        (let diff = RoundUp p page - p in
         do { m \<leftarrow> (if diff \<noteq> 0 then map_option snd (FreeRange p diff m) else Some m);
              let p = p + diff;
              let sz = sz - diff;
              let diff = p + sz - RoundDown (p + sz) page;
              m \<leftarrow> (if diff \<noteq> 0 then map_option snd (FreeRange (p + sz - diff) diff m) else Some m);
              let sz = sz - diff;
              if \<not> sz > 0 \<or> p \<noteq> RoundUp p page \<or> sz \<noteq> RoundUp sz page then None
              else do {
                (p1, sz1, m) \<leftarrow> probe_start page 0 p sz m;
                m \<leftarrow> probe_end page 0 p1 sz1 m;
                let metap = MemToMeta p;
                let metasz = sz div ratio;
                if remap_ok then Some (m\<lparr>mm_meta := (\<lambda>c. if metap \<le> c \<and> c < metap + metasz then 0 else mm_meta m c)\<rparr>)
                else None } }))"

subsection \<open>Synchronisation objects\<close>

text \<open>The inner loop of \<open>GetAndLock\<close>.\<close>

partial_function (option) find_sync :: "u64 \<Rightarrow> meta_map \<Rightarrow> u32 \<Rightarrow> u32 option option" where
  "find_sync addr m idx =
     (if idx = 0 then Some None
      else if idx AND kFlagBlock \<noteq> 0 then Some None
      else if sv_addr (mm_syncs m (index_of idx)) = addr then Some (Some (index_of idx))
      else find_sync addr m (sv_next (mm_syncs m (index_of idx))))"

text \<open>
  The outer loop takes no lock: other threads may run between its reads of the cell. \<open>others\<close> lists what
  they do, one entry before each of these reads (a test and the assignment after it are one); the list may end early. The result is \<open>None\<close> for the null
  pointer, otherwise the index of the object.
\<close>

definition interfere :: "(meta_map \<Rightarrow> meta_map) list \<Rightarrow> meta_map \<Rightarrow> meta_map" where
  "interfere others m = (case others of [] \<Rightarrow> m | f # _ \<Rightarrow> f m)"

definition ensure_sync :: "bool \<Rightarrow> u32 \<Rightarrow> u64 \<Rightarrow> u32 \<Rightarrow> meta_map \<Rightarrow> (u32 \<times> meta_map) option" where
  "ensure_sync detect_deadlocks stk addr myidx m =
     (if myidx = 0
      then do { (i, a) \<leftarrow> da_alloc kSyncL1 kSyncL2 (sync_alloc m);
                Some (i, SyncVar_Init detect_deadlocks stk addr (uid_gen m) i (m\<lparr>uid_gen := uid_gen m + 1, sync_alloc := a\<rparr>)) }
      else Some (myidx, m))"

partial_function (option) get_loop ::
  "(meta_map \<Rightarrow> meta_map) list \<Rightarrow> bool \<Rightarrow> u32 \<Rightarrow> u64 \<Rightarrow> bool \<Rightarrow> u32 \<Rightarrow> u32 \<Rightarrow> meta_map \<Rightarrow> (u32 option \<times> meta_map) option" where
  "get_loop others detect_deadlocks stk addr create idx0 myidx m =
     do { found \<leftarrow> find_sync addr m idx0;
          case found of
            Some i \<Rightarrow>
              if myidx \<noteq> 0 then do { m \<leftarrow> SyncVar_Reset myidx m; Some (Some i, free_sync myidx m) }
              else Some (Some i, m)
          | None \<Rightarrow>
              if \<not> create then Some (None, m)
              else
                (let m = interfere others m; others = tl others in
                 if mm_meta m (MemToMeta addr) \<noteq> idx0
                 then get_loop others detect_deadlocks stk addr create (mm_meta m (MemToMeta addr)) myidx m
                 else do {
                   (myidx, m) \<leftarrow> ensure_sync detect_deadlocks stk addr myidx m;
                   let m = interfere others (upd_sync myidx (\<lambda>s. s\<lparr>sv_next := idx0\<rparr>) m);
                   let others = tl others;
                   if mm_meta m (MemToMeta addr) = idx0
                   then Some (Some myidx, m\<lparr>mm_meta := (mm_meta m)(MemToMeta addr := myidx OR kFlagSync)\<rparr>)
                   else get_loop others detect_deadlocks stk addr create (mm_meta m (MemToMeta addr)) myidx m }) }"

definition GetAndLock ::
  "(meta_map \<Rightarrow> meta_map) list \<Rightarrow> bool \<Rightarrow> u32 \<Rightarrow> u64 \<Rightarrow> bool \<Rightarrow> meta_map \<Rightarrow> (u32 option \<times> meta_map) option" where
  "GetAndLock others detect_deadlocks stk addr create m =
     get_loop others detect_deadlocks stk addr create (mm_meta m (MemToMeta addr)) 0 m"

text \<open>Without other threads between the reads.\<close>

definition GetOrCreateAndLock :: "bool \<Rightarrow> u32 \<Rightarrow> u64 \<Rightarrow> meta_map \<Rightarrow> (u32 \<times> meta_map) option" where
  "GetOrCreateAndLock detect_deadlocks stk addr m =
     do { (r, m) \<leftarrow> GetAndLock [] detect_deadlocks stk addr True m; i \<leftarrow> r; Some (i, m) }"

definition GetIfExistsAndLock :: "u64 \<Rightarrow> meta_map \<Rightarrow> (u32 option \<times> meta_map) option" where
  "GetIfExistsAndLock addr m = GetAndLock [] False 0 addr False m"

subsection \<open>Moving memory\<close>

partial_function (option) patch_chain :: "u64 \<Rightarrow> u32 \<Rightarrow> meta_map \<Rightarrow> meta_map option" where
  "patch_chain diff idx m =
     (if idx = 0 then Some m
      else if idx AND kFlagBlock \<noteq> 0 then Some m
      else if idx AND kFlagSync \<noteq> 0
      then patch_chain diff (sv_next (mm_syncs m (index_of idx)))
             (upd_sync (index_of idx) (\<lambda>s. s\<lparr>sv_addr := sv_addr s + diff\<rparr>) m)
      else None)"

fun move_cells :: "u64 \<Rightarrow> (u64 \<times> u64) list \<Rightarrow> meta_map \<Rightarrow> meta_map option" where
  "move_cells diff [] m = Some m"
| "move_cells diff ((s, d) # cs) m =
     (if mm_meta m d \<noteq> 0 then None
      else (let idx = mm_meta m s in
            do { m \<leftarrow> patch_chain diff idx (m\<lparr>mm_meta := (mm_meta m)(s := 0, d := idx)\<rparr>); move_cells diff cs m }))"

definition MoveMemory :: "u64 \<Rightarrow> u64 \<Rightarrow> u64 \<Rightarrow> meta_map \<Rightarrow> meta_map option" where
  "MoveMemory src dst sz m =
     (if src = dst \<or> sz = 0 then None
      else
        (let n = unat (MemToMeta (src + sz) - MemToMeta src) div 4;
             ahead = map (\<lambda>i. (MemToMeta src + 4 * of_nat i, MemToMeta dst + 4 * of_nat i)) [0..<n];
             last = map (\<lambda>i. (MemToMeta (src + sz) - 4 - 4 * of_nat i, MemToMeta (dst + sz) - 4 - 4 * of_nat i)) [0..<n]
         in move_cells (dst - src) (if dst > src then last else ahead) m))"

definition OnProcIdle :: "meta_map \<Rightarrow> meta_map" where
  "OnProcIdle m = m\<lparr>block_alloc := da_flush_cache (block_alloc m), sync_alloc := da_flush_cache (sync_alloc m)\<rparr>"

end
