(* ===== verification/MutexSet.thy ===== *)
theory MutexSet
  imports Prelude
begin

text \<open>
  \<open>tsan/rtl/tsan_mutexset.cpp\<close>: the mutexes a thread holds, at most sixteen of them, for its race
  reports. The list holds the first \<open>size_\<close> descriptors; \<open>None\<close> is a failing \<open>CHECK\<close>. The counter, an
  \<open>int\<close>, is bounded by the nesting of locks and is an integer here.
\<close>

section \<open>Operations\<close>

definition kMaxMutexes :: nat where "kMaxMutexes = 16"

record mutex_desc =
  md_id :: u64
  md_epoch :: u64
  md_count :: int
  md_write :: bool

type_synonym mutex_set = "mutex_desc list"

definition MutexSet_new :: mutex_set where "MutexSet_new = []"

definition RemovePos :: "nat \<Rightarrow> mutex_set \<Rightarrow> mutex_set option" where
  "RemovePos i ds = (if i < length ds then Some (butlast (ds[i := last ds])) else None)"

definition find_mutex :: "u64 \<Rightarrow> mutex_set \<Rightarrow> nat option" where
  "find_mutex mid ds = List.find (\<lambda>i. md_id (ds ! i) = mid) [0..<length ds]"

text \<open>The search for the oldest descriptor; without one the position stays \<open>(u64)-1\<close>.\<close>

definition oldest_mutex :: "mutex_set \<Rightarrow> nat option" where
  "oldest_mutex ds = snd (fold (\<lambda>i (minepoch, mini). if md_epoch (ds ! i) < minepoch then (md_epoch (ds ! i), Some i) else (minepoch, mini))
     [0..<length ds] (- 1, None))"

definition MutexSet_Add :: "u64 \<Rightarrow> bool \<Rightarrow> u64 \<Rightarrow> mutex_set \<Rightarrow> mutex_set option" where
  "MutexSet_Add mid write epoch ds =
     (case find_mutex mid ds of
        Some i \<Rightarrow> Some (ds[i := (ds ! i)\<lparr>md_count := md_count (ds ! i) + 1, md_epoch := epoch\<rparr>])
      | None \<Rightarrow>
          do { ds \<leftarrow> (if length ds = kMaxMutexes then do { i \<leftarrow> oldest_mutex ds; RemovePos i ds } else Some ds);
               Some (ds @ [\<lparr>md_id = mid, md_epoch = epoch, md_count = 1, md_write = write\<rparr>]) })"

definition MutexSet_Del :: "u64 \<Rightarrow> bool \<Rightarrow> mutex_set \<Rightarrow> mutex_set option" where
  "MutexSet_Del mid write ds =
     (case find_mutex mid ds of
        Some i \<Rightarrow> (let c = md_count (ds ! i) - 1; ds = ds[i := (ds ! i)\<lparr>md_count := c\<rparr>] in
                   if c = 0 then RemovePos i ds else Some ds)
      | None \<Rightarrow> Some ds)"

definition MutexSet_Remove :: "u64 \<Rightarrow> mutex_set \<Rightarrow> mutex_set option" where
  "MutexSet_Remove mid ds = (case find_mutex mid ds of Some i \<Rightarrow> RemovePos i ds | None \<Rightarrow> Some ds)"

definition MutexSet_Get :: "nat \<Rightarrow> mutex_set \<Rightarrow> mutex_desc option" where
  "MutexSet_Get i ds = (if i < length ds then Some (ds ! i) else None)"

section \<open>Nesting counts\<close>

text \<open>How often each mutex is held, and the invariant of the set.\<close>

definition held_count :: "mutex_set \<Rightarrow> u64 \<Rightarrow> int" where
  "held_count ds mid = (case find_mutex mid ds of Some i \<Rightarrow> md_count (ds ! i) | None \<Rightarrow> 0)"

definition mutexes_ok :: "mutex_set \<Rightarrow> bool" where
  "mutexes_ok ds \<longleftrightarrow> length ds \<le> kMaxMutexes \<and> distinct (map md_id ds) \<and> (\<forall>d \<in> set ds. 0 < md_count d)"

lemma find_mutex_iff:
  "distinct (map md_id ds) \<Longrightarrow> find_mutex mid ds = Some i \<longleftrightarrow> i < length ds \<and> md_id (ds ! i) = mid"
  unfolding find_mutex_def find_upt_Some_iff by (auto simp: distinct_conv_nth)

lemma find_mutex_None: "find_mutex mid ds = None \<longleftrightarrow> (\<forall>d \<in> set ds. md_id d \<noteq> mid)"
  unfolding find_mutex_def find_upt_None_iff by (auto simp: all_set_conv_all_nth)

text \<open>The counts depend on the descriptors only, not on their order.\<close>

lemma held_count_iff:
  assumes "distinct (map md_id ds)"
  shows "d \<in> set ds \<Longrightarrow> held_count ds (md_id d) = md_count d" "\<forall>d \<in> set ds. md_id d \<noteq> mid \<Longrightarrow> held_count ds mid = 0"
proof -
  assume "d \<in> set ds"
  then obtain i where i: "i < length ds" "ds ! i = d" by (auto simp: in_set_conv_nth)
  then have "find_mutex (md_id d) ds = Some i" using find_mutex_iff [OF assms] by simp
  then show "held_count ds (md_id d) = md_count d" using i by (simp add: held_count_def)
next
  assume "\<forall>d \<in> set ds. md_id d \<noteq> mid"
  then have "find_mutex mid ds = None" unfolding find_mutex_None .
  then show "held_count ds mid = 0" by (simp add: held_count_def)
qed

lemma held_count_same:
  assumes "distinct (map md_id ds)" "distinct (map md_id es)" "{d \<in> set ds. md_id d = mid} = {d \<in> set es. md_id d = mid}"
  shows "held_count ds mid = held_count es mid"
proof (cases "\<exists>d \<in> set ds. md_id d = mid")
  case True
  then obtain d where "d \<in> set ds" "d \<in> set es" "md_id d = mid" using assms(3) by blast
  then show ?thesis using held_count_iff(1) [OF assms(1)] held_count_iff(1) [OF assms(2)] by metis
next
  case False
  then have "\<forall>d \<in> set ds. md_id d \<noteq> mid" "\<forall>d \<in> set es. md_id d \<noteq> mid" using assms(3) by blast+
  then show ?thesis using held_count_iff(2) [OF assms(1)] held_count_iff(2) [OF assms(2)] by simp
qed

lemma RemovePos_effect:
  assumes "mutexes_ok ds" "i < length ds"
  shows "\<exists>es. RemovePos i ds = Some es \<and> mutexes_ok es \<and> set es = set ds - {ds ! i} \<and> length es = length ds - 1 \<and>
    held_count es = (held_count ds)(md_id (ds ! i) := 0)"
proof -
  let ?es = "butlast (ds[i := last ds])"
  have d: "distinct (map md_id ds)" "distinct ds" using assms(1) by (auto simp: mutexes_ok_def distinct_map)
  have m: "mset ?es = mset ds - {#ds ! i#}" by (rule mset_swap_out [OF assms(2)])
  then have m1: "mset ?es = mset (remove1 (ds ! i) ds)" by simp
  have s: "set ?es = set ds - {ds ! i}" using mset_eq_setD [OF m1] d(2) by simp
  have "distinct (map md_id (remove1 (ds ! i) ds))" using d by (auto simp: distinct_map inj_on_def)
  moreover have "mset (map md_id ?es) = mset (map md_id (remove1 (ds ! i) ds))" using m1 by simp
  ultimately have de: "distinct (map md_id ?es)" using mset_eq_imp_distinct_iff by blast
  have ok: "mutexes_ok ?es" using assms(1) de s by (auto simp: mutexes_ok_def)
  have "held_count ?es mid = ((held_count ds)(md_id (ds ! i) := 0)) mid" for mid
  proof (cases "mid = md_id (ds ! i)")
    case True
    have "\<forall>d \<in> set ?es. md_id d \<noteq> mid"
      using True s d(1) assms(2) by (auto simp: distinct_map inj_on_def)
    then show ?thesis using held_count_iff(2) [OF de] True by simp
  next
    case False
    then have "{d \<in> set ?es. md_id d = mid} = {d \<in> set ds. md_id d = mid}" using s by auto
    then show ?thesis using held_count_same [OF de d(1)] False by simp
  qed
  then show ?thesis using assms(2) ok s by (intro exI [of _ ?es]) (auto simp: RemovePos_def)
qed

section \<open>Adding and deleting\<close>

text \<open>The search finds a descriptor of least epoch, unless all epochs are the largest number.\<close>

lemma oldest_mutex_fold:
  "n \<le> length ds \<Longrightarrow>
    (let (e, m) = fold (\<lambda>i (minepoch, mini). if md_epoch (ds ! i) < minepoch then (md_epoch (ds ! i), Some i) else (minepoch, mini)) [0..<n] (- 1, None)
     in (\<forall>j < n. e \<le> md_epoch (ds ! j)) \<and>
        (case m of None \<Rightarrow> e = - 1 | Some i \<Rightarrow> i < n \<and> md_epoch (ds ! i) = e))"
proof (induction n)
  case (Suc n)
  obtain e m where em: "fold (\<lambda>i (minepoch, mini). if md_epoch (ds ! i) < minepoch then (md_epoch (ds ! i), Some i) else (minepoch, mini))
      [0..<n] (- 1, None) = (e, m)" by (cases "fold (\<lambda>i (minepoch, mini). if md_epoch (ds ! i) < minepoch
        then (md_epoch (ds ! i), Some i) else (minepoch, mini)) [0..<n] (- 1, None)")
  have IH: "\<forall>j < n. e \<le> md_epoch (ds ! j)" "case m of None \<Rightarrow> e = - 1 | Some i \<Rightarrow> i < n \<and> md_epoch (ds ! i) = e"
    using Suc by (simp_all add: em)
  show ?case
  proof (cases "md_epoch (ds ! n) < e")
    case True
    then have "\<forall>j < Suc n. md_epoch (ds ! n) \<le> md_epoch (ds ! j)" using IH(1) by (fastforce simp: less_Suc_eq)
    then show ?thesis using True by (simp add: em)
  next
    case False
    then have "\<forall>j < Suc n. e \<le> md_epoch (ds ! j)" using IH(1) by (auto simp: less_Suc_eq not_less)
    then show ?thesis using False IH(2) by (auto simp: em split: option.splits)
  qed
qed simp

lemma oldest_mutex_effect:
  assumes "d \<in> set ds" "md_epoch d \<noteq> - 1"
  shows "\<exists>i < length ds. oldest_mutex ds = Some i \<and> (\<forall>e \<in> set ds. md_epoch (ds ! i) \<le> md_epoch e)"
proof -
  obtain e m where em: "fold (\<lambda>i (minepoch, mini). if md_epoch (ds ! i) < minepoch then (md_epoch (ds ! i), Some i) else (minepoch, mini))
      [0..<length ds] (- 1, None) = (e, m)" by (cases "fold (\<lambda>i (minepoch, mini). if md_epoch (ds ! i) < minepoch
        then (md_epoch (ds ! i), Some i) else (minepoch, mini)) [0..<length ds] (- 1, None)")
  have r: "\<forall>j < length ds. e \<le> md_epoch (ds ! j)" "case m of None \<Rightarrow> e = - 1 | Some i \<Rightarrow> i < length ds \<and> md_epoch (ds ! i) = e"
    using oldest_mutex_fold [of "length ds" ds] by (simp_all add: em)
  have "e \<noteq> - 1"
  proof
    assume "e = - 1"
    moreover have "e \<le> md_epoch d" using r(1) assms(1) by (auto simp: in_set_conv_nth)
    ultimately show False using assms(2) word_order.extremum_uniqueI [of "md_epoch d"] by simp
  qed
  then obtain i where "m = Some i" "i < length ds" "md_epoch (ds ! i) = e" using r(2) by (auto split: option.splits)
  then show ?thesis using r(1) by (auto simp: oldest_mutex_def em all_set_conv_all_nth)
qed

lemma update_effect:
  assumes "mutexes_ok ds" "i < length ds" "md_id d' = md_id (ds ! i)"
  shows "distinct (map md_id (ds[i := d']))" "held_count (ds[i := d']) = (held_count ds)(md_id d' := md_count d')"
proof -
  have d: "distinct (map md_id ds)" using assms(1) by (simp add: mutexes_ok_def)
  have "map md_id (ds[i := d']) = map md_id ds" using assms(2,3) by (simp add: map_update list_update_same_conv)
  then show dd: "distinct (map md_id (ds[i := d']))" using d by simp
  have f: "find_mutex mid (ds[i := d']) = find_mutex mid ds" for mid
    using assms(2,3) unfolding find_mutex_def by (intro arg_cong2 [where f = List.find]) (auto simp: nth_list_update)
  have "held_count (ds[i := d']) mid = ((held_count ds)(md_id d' := md_count d')) mid" for mid
  proof (cases "mid = md_id d'")
    case True
    then have "find_mutex mid ds = Some i" using find_mutex_iff [OF d] assms(2,3) by simp
    then show ?thesis using True assms(2) by (simp add: held_count_def f)
  next
    case False
    then have "find_mutex mid ds \<noteq> Some i" using find_mutex_iff [OF d, of mid i] assms(3) by auto
    then show ?thesis using False assms(2) by (auto simp: held_count_def f nth_list_update split: option.splits)
  qed
  then show "held_count (ds[i := d']) = (held_count ds)(md_id d' := md_count d')" by blast
qed

lemma append_effect:
  assumes "mutexes_ok ds" "length ds < kMaxMutexes" "\<forall>e \<in> set ds. md_id e \<noteq> md_id d" "0 < md_count d"
  shows "mutexes_ok (ds @ [d])" "held_count (ds @ [d]) = (held_count ds)(md_id d := md_count d)"
proof -
  have d: "distinct (map md_id ds)" using assms(1) by (simp add: mutexes_ok_def)
  show ok: "mutexes_ok (ds @ [d])" using assms by (auto simp: mutexes_ok_def)
  then have dd: "distinct (map md_id (ds @ [d]))" by (simp add: mutexes_ok_def)
  have "held_count (ds @ [d]) mid = ((held_count ds)(md_id d := md_count d)) mid" for mid
  proof (cases "mid = md_id d")
    case True
    then show ?thesis using held_count_iff(1) [OF dd, of d] by simp
  next
    case False
    then have "{e \<in> set (ds @ [d]). md_id e = mid} = {e \<in> set ds. md_id e = mid}" by auto
    then show ?thesis using held_count_same [OF dd d] False by simp
  qed
  then show "held_count (ds @ [d]) = (held_count ds)(md_id d := md_count d)" by blast
qed

lemma held_count_pos: "mutexes_ok ds \<Longrightarrow> held_count ds mid = 0 \<longleftrightarrow> find_mutex mid ds = None"
proof (cases "find_mutex mid ds")
  case (Some i)
  assume ok: "mutexes_ok ds"
  then have "i < length ds" using Some by (simp add: mutexes_ok_def find_mutex_iff)
  then have "0 < md_count (ds ! i)" using ok by (simp add: mutexes_ok_def)
  then show ?thesis using Some by (simp add: held_count_def)
qed (simp add: held_count_def)

lemma MutexSet_Del_effect:
  assumes ok: "mutexes_ok ds"
  shows "\<exists>es. MutexSet_Del mid w ds = Some es \<and> mutexes_ok es \<and> held_count es = (held_count ds)(mid := max 0 (held_count ds mid - 1))"
proof (cases "find_mutex mid ds")
  case None
  then show ?thesis using ok held_count_pos [OF ok, of mid] by (auto simp: MutexSet_Del_def)
next
  case (Some i)
  have d: "distinct (map md_id ds)" using ok by (simp add: mutexes_ok_def)
  have i: "i < length ds" "md_id (ds ! i) = mid" using Some unfolding find_mutex_iff [OF d] by simp_all
  let ?d = "(ds ! i)\<lparr>md_count := md_count (ds ! i) - 1\<rparr>"
  have c: "held_count ds mid = md_count (ds ! i)" "0 < md_count (ds ! i)"
    using Some ok i(1) by (auto simp: held_count_def mutexes_ok_def)
  note u = update_effect [OF ok i(1), of ?d]
  show ?thesis
  proof (cases "md_count (ds ! i) = 1")
    case False
    then have "mutexes_ok (ds[i := ?d])" using u(1) ok c(2) set_update_subset_insert [of ds i ?d] by (auto simp: mutexes_ok_def)
    moreover have "max 0 (held_count ds mid - 1) = md_count ?d" using c by simp
    ultimately show ?thesis using False Some u(2) i(2) by (auto simp: MutexSet_Del_def Let_def)
  next
    case True
    obtain es where es: "RemovePos i ds = Some es" "mutexes_ok es" "held_count es = (held_count ds)(mid := 0)"
      using RemovePos_effect [OF ok i(1)] i(2) by auto
    have "butlast ((ds[i := ?d])[i := last (ds[i := ?d])]) = butlast (ds[i := last ds])"
    proof (cases "Suc i = length ds")
      case last: True
      then show ?thesis by (metis butlast_list_update diff_Suc_1 list_update_overwrite)
    next
      case False
      then have "last (ds[i := ?d]) = last ds" using i(1) by (cases ds rule: rev_cases) (auto simp: last_list_update)
      then show ?thesis by simp
    qed
    then have "RemovePos i (ds[i := ?d]) = Some es" using es(1) i(1) by (simp add: RemovePos_def)
    then show ?thesis using Some es(2,3) True c(1) by (auto simp: MutexSet_Del_def Let_def)
  qed
qed

lemma MutexSet_Remove_effect:
  assumes ok: "mutexes_ok ds"
  shows "\<exists>es. MutexSet_Remove mid ds = Some es \<and> mutexes_ok es \<and> held_count es = (held_count ds)(mid := 0)"
proof (cases "find_mutex mid ds")
  case None
  then show ?thesis using ok held_count_pos [OF ok, of mid] by (auto simp: MutexSet_Remove_def)
next
  case (Some i)
  have "distinct (map md_id ds)" using ok by (simp add: mutexes_ok_def)
  then have "i < length ds" "md_id (ds ! i) = mid" using Some by (simp_all add: find_mutex_iff)
  then show ?thesis using RemovePos_effect [OF ok] Some by (auto simp: MutexSet_Remove_def)
qed

lemma MutexSet_Add_effect:
  assumes ok: "mutexes_ok ds" and room: "held_count ds mid \<noteq> 0 \<or> length ds < kMaxMutexes \<or> (\<exists>d \<in> set ds. md_epoch d \<noteq> - 1)"
  shows "\<exists>es. MutexSet_Add mid w ep ds = Some es \<and> mutexes_ok es \<and>
    (if held_count ds mid \<noteq> 0 \<or> length ds < kMaxMutexes then held_count es = (held_count ds)(mid := held_count ds mid + 1)
     else \<exists>old \<in> set ds. (\<forall>d \<in> set ds. md_epoch old \<le> md_epoch d) \<and> held_count es = (held_count ds)(md_id old := 0, mid := 1))"
proof (cases "find_mutex mid ds")
  case (Some i)
  have d: "distinct (map md_id ds)" using ok by (simp add: mutexes_ok_def)
  have i: "i < length ds" "md_id (ds ! i) = mid" using Some unfolding find_mutex_iff [OF d] by simp_all
  let ?d = "(ds ! i)\<lparr>md_count := md_count (ds ! i) + 1, md_epoch := ep\<rparr>"
  note u = update_effect [OF ok i(1), of ?d]
  have "0 < md_count (ds ! i)" using ok i(1) by (auto simp: mutexes_ok_def)
  then have "mutexes_ok (ds[i := ?d])" using u(1) ok set_update_subset_insert [of ds i ?d] by (auto simp: mutexes_ok_def)
  moreover have "held_count ds mid = md_count (ds ! i)" "held_count ds mid \<noteq> 0"
    using Some \<open>0 < md_count (ds ! i)\<close> by (simp_all add: held_count_def)
  ultimately show ?thesis using Some u(2) i(2) by (simp add: MutexSet_Add_def)
next
  case None
  have z: "held_count ds mid = 0" using None held_count_pos [OF ok] by simp
  let ?d = "\<lparr>md_id = mid, md_epoch = ep, md_count = 1, md_write = w\<rparr>"
  have new: "\<forall>e \<in> set ds. md_id e \<noteq> mid" using None unfolding find_mutex_None .
  show ?thesis
  proof (cases "length ds < kMaxMutexes")
    case True
    then show ?thesis using None z append_effect [OF ok True, of ?d] new by (simp add: MutexSet_Add_def)
  next
    case False
    then have len: "length ds = kMaxMutexes" using ok by (simp add: mutexes_ok_def)
    obtain i where i: "i < length ds" "oldest_mutex ds = Some i" "\<forall>e \<in> set ds. md_epoch (ds ! i) \<le> md_epoch e"
      using oldest_mutex_effect room z False by blast
    obtain es where es: "RemovePos i ds = Some es" "mutexes_ok es" "set es = set ds - {ds ! i}" "length es = length ds - 1"
        "held_count es = (held_count ds)(md_id (ds ! i) := 0)"
      using RemovePos_effect [OF ok i(1)] by blast
    have "length es < kMaxMutexes" using es(4) len by (simp add: kMaxMutexes_def)
    from append_effect [OF es(2) this, of ?d] have
      "mutexes_ok (es @ [?d])" "held_count (es @ [?d]) = (held_count ds)(md_id (ds ! i) := 0, mid := 1)"
      using new es(3,5) by simp_all
    moreover have "MutexSet_Add mid w ep ds = Some (es @ [?d])" using None len i(2) es(1) by (simp add: MutexSet_Add_def)
    moreover have "ds ! i \<in> set ds" using i(1) by simp
    ultimately show ?thesis using i(3) z False by auto
  qed
qed

text \<open>
  C39: The set counts how often each of at most sixteen mutexes is held: adding one more lock, deleting one and removing
  a mutex never fail a \<open>CHECK\<close> and change the count of that mutex only. When the set is full, a new mutex takes the place of one
  that was locked longest ago, whose count is forgotten.
\<close>
theorem mutex_set_counts:
  assumes "mutexes_ok ds" "held_count ds mid \<noteq> 0 \<or> length ds < kMaxMutexes \<or> (\<exists>d \<in> set ds. md_epoch d \<noteq> - 1)"
  shows "(\<exists>es. MutexSet_Add mid w ep ds = Some es \<and> mutexes_ok es \<and>
      (if held_count ds mid \<noteq> 0 \<or> length ds < kMaxMutexes then held_count es = (held_count ds)(mid := held_count ds mid + 1)
       else \<exists>old \<in> set ds. (\<forall>d \<in> set ds. md_epoch old \<le> md_epoch d) \<and> held_count es = (held_count ds)(md_id old := 0, mid := 1))) \<and>
    (\<exists>es. MutexSet_Del mid w ds = Some es \<and> mutexes_ok es \<and> held_count es = (held_count ds)(mid := max 0 (held_count ds mid - 1))) \<and>
    (\<exists>es. MutexSet_Remove mid ds = Some es \<and> mutexes_ok es \<and> held_count es = (held_count ds)(mid := 0))"
  using MutexSet_Add_effect [OF assms, of w ep] MutexSet_Del_effect [OF assms(1), of mid w] MutexSet_Remove_effect [OF assms(1), of mid]
  by blast

definition full_mutex_set :: mutex_set where
  "full_mutex_set = map (\<lambda>i. \<lparr>md_id = of_nat i, md_epoch = 100 - of_nat i, md_count = 2, md_write = True\<rparr>) [0..<16]"

theorem mutex_set_counts_witness:
  "\<exists>es. MutexSet_Add 77 True 200 full_mutex_set = Some es \<and> mutexes_ok es \<and>
    held_count es = (held_count full_mutex_set)(15 := 0, 77 := 1)"
proof -
  have list: "full_mutex_set = map (\<lambda>i. \<lparr>md_id = i, md_epoch = 100 - i, md_count = 2, md_write = True\<rparr>)
      [0, 1, 2, 3, 4, 5, 6, 7, 8, 9, 10, 11, 12, 13, 14, 15]"
    by (simp add: full_mutex_set_def upt_rec)
  have ok: "mutexes_ok full_mutex_set" unfolding list by (simp add: mutexes_ok_def kMaxMutexes_def)
  have none: "find_mutex 77 full_mutex_set = None" unfolding find_mutex_None list by simp
  have len: "\<not> length full_mutex_set < kMaxMutexes" unfolding list by (simp add: kMaxMutexes_def)
  have z: "\<not> (held_count full_mutex_set 77 \<noteq> 0 \<or> length full_mutex_set < kMaxMutexes)"
    using none len by (simp add: held_count_def)
  have "\<exists>d \<in> set full_mutex_set. md_epoch d \<noteq> - 1" unfolding list by simp
  then obtain es old where es: "MutexSet_Add 77 True 200 full_mutex_set = Some es" "mutexes_ok es" "old \<in> set full_mutex_set"
      "\<forall>d \<in> set full_mutex_set. md_epoch old \<le> md_epoch d"
      "held_count es = (held_count full_mutex_set)(md_id old := 0, 77 := 1)"
    using mutex_set_counts [OF ok, of 77 True 200] unfolding if_not_P [OF z] by blast
  have "md_id old = 15" using es(3,4) unfolding list by auto
  then show ?thesis using es(1,2,5) by auto
qed

end
