(* ===== verification/SyncOps.thy ===== *)
theory SyncOps
  imports MetaMap MutexSet ThreadClock MemoryAccess
begin

text \<open>
  \<open>tsan/rtl/tsan_rtl_mutex.cpp\<close>: what the runtime does when the program creates, locks, unlocks and
  destroys a mutex, or calls \<open>Acquire\<close> and \<open>Release\<close> on an address. An operation works on the whole
  runtime: the thread (its fast state, clock, set of mutexes and deadlock detector state), the shadow
  memory, the map of synchronisation objects and the log. Threads are numbered by their \<open>tid\<close>; the
  allocators' caches are those of the processor they share. The trace of events and the statistics are
  left out, a report is the data it is made of. \<open>None\<close>: a \<open>CHECK\<close> fails or a part called below stops.
  Nesting counts, \<open>int\<close> in the code, are integers.
\<close>

section \<open>State\<close>

record sync_thread =
  st_state :: thread_state
  st_clock :: thread_clock
  st_mset :: mutex_set
  st_dd :: dd_thread
  st_unique_id :: int
  st_inited :: bool
  st_sleep_stack :: u32
  st_sleep_clock :: thread_clock

datatype misuse = ReportTypeMutexDoubleLock | ReportTypeMutexInvalidAccess | ReportTypeMutexBadUnlock |
  ReportTypeMutexBadReadLock | ReportTypeMutexBadReadUnlock

datatype sync_report =
    MutexMisuse misuse u64 u64
  | MutexDestroyLocked u64 u64 u64
  | Deadlock "dd_loop list"

text \<open>The registry lists the thread contexts: number, whether it runs, and \<open>epoch1\<close>.\<close>

record sync_world =
  sw_threads :: "nat \<Rightarrow> sync_thread"
  sw_dfsan :: dfsan
  sw_shadow :: shadow
  sw_map :: meta_map
  sw_registry :: "(nat \<times> bool \<times> u64) list"
  sw_log :: "log_line list"
  sw_reports :: "sync_report list"

text \<open>The flags, and the identifiers that the stack depot gives to stacks.\<close>

record sync_env =
  se_access :: access_env
  detect_deadlocks :: bool
  second_deadlock_stack :: bool
  report_mutex_bugs :: bool
  report_destroy_locked :: bool
  se_depot :: "u64 list \<Rightarrow> u32"

definition upd_thread :: "nat \<Rightarrow> (sync_thread \<Rightarrow> sync_thread) \<Rightarrow> sync_world \<Rightarrow> sync_world" where
  "upd_thread t f w = w\<lparr>sw_threads := (sw_threads w)(t := f (sw_threads w t))\<rparr>"

definition upd_obj :: "u32 \<Rightarrow> (sync_var \<Rightarrow> sync_var) \<Rightarrow> sync_world \<Rightarrow> sync_world" where
  "upd_obj i f w = w\<lparr>sw_map := upd_sync i f (sw_map w)\<rparr>"

definition obj :: "u32 \<Rightarrow> sync_world \<Rightarrow> sync_var" where
  "obj i w = mm_syncs (sw_map w) i"

definition CurrentStackId :: "sync_env \<Rightarrow> nat \<Rightarrow> u64 \<Rightarrow> sync_world \<Rightarrow> u32" where
  "CurrentStackId env t pc w =
     (let thr = sw_threads w t in
      if \<not> st_inited thr then 0
      else se_depot env (if pc \<noteq> 0 then shadow_stack (st_state thr) @ [pc] else shadow_stack (st_state thr)))"

text \<open>Accesses of the thread, and the objects of the map.\<close>

definition access :: "nat \<Rightarrow> (access_state \<Rightarrow> access_stop + access_state \<times> log_line list) \<Rightarrow> sync_world \<Rightarrow> sync_world option" where
  "access t f w =
     (case f (st_state (sw_threads w t), sw_dfsan w, sw_shadow w) of
        Inl _ \<Rightarrow> None
      | Inr ((ts, d, sh), out) \<Rightarrow>
          Some ((upd_thread t (\<lambda>thr. thr\<lparr>st_state := ts\<rparr>) w)\<lparr>sw_dfsan := d, sw_shadow := sh, sw_log := sw_log w @ out\<rparr>))"

definition get_or_create :: "sync_env \<Rightarrow> nat \<Rightarrow> u64 \<Rightarrow> u64 \<Rightarrow> sync_world \<Rightarrow> (u32 \<times> sync_world) option" where
  "get_or_create env t pc addr w =
     do { (i, m) \<leftarrow> GetOrCreateAndLock (detect_deadlocks env) (CurrentStackId env t pc w) addr (sw_map w);
          Some (i, w\<lparr>sw_map := m\<rparr>) }"

definition increment_epoch :: "nat \<Rightarrow> sync_world \<Rightarrow> sync_world" where
  "increment_epoch t = upd_thread t (\<lambda>thr. thr\<lparr>st_state := (st_state thr)\<lparr>fast_state := IncrementEpoch (fast_state (st_state thr))\<rparr>\<rparr>)"

definition thread_epoch :: "nat \<Rightarrow> sync_world \<Rightarrow> u64" where
  "thread_epoch t w = fs_epoch (fast_state (st_state (sw_threads w t)))"

definition report :: "sync_report \<Rightarrow> sync_world \<Rightarrow> sync_world" where
  "report r w = w\<lparr>sw_reports := sw_reports w @ [r]\<rparr>"

section \<open>The deadlock detector\<close>

definition with_dd :: "nat \<Rightarrow> (dd_thread \<times> dd_world \<Rightarrow> (dd_thread \<times> dd_world) option) \<Rightarrow> sync_world \<Rightarrow> sync_world option" where
  "with_dd t f w =
     do { (lt, dd) \<leftarrow> f (st_dd (sw_threads w t), mm_dd (sw_map w));
          Some ((upd_thread t (\<lambda>thr. thr\<lparr>st_dd := lt\<rparr>) w)\<lparr>sw_map := (sw_map w)\<lparr>mm_dd := dd\<rparr>\<rparr>) }"

definition before_lock :: "sync_env \<Rightarrow> nat \<Rightarrow> u64 \<Rightarrow> u32 \<Rightarrow> sync_world \<Rightarrow> sync_world option" where
  "before_lock env t pc i w =
     with_dd t (dd_MutexBeforeLock (CurrentStackId env t pc w) (st_unique_id (sw_threads w t)) (dd_key i)) w"

definition after_lock :: "sync_env \<Rightarrow> nat \<Rightarrow> u64 \<Rightarrow> u32 \<Rightarrow> bool \<Rightarrow> bool \<Rightarrow> sync_world \<Rightarrow> sync_world option" where
  "after_lock env t pc i wlock trylock w =
     with_dd t (dd_MutexAfterLock (second_deadlock_stack env) (CurrentStackId env t pc w) (st_unique_id (sw_threads w t))
       (dd_key i) wlock trylock) w"

definition before_unlock :: "nat \<Rightarrow> u32 \<Rightarrow> sync_world \<Rightarrow> sync_world option" where
  "before_unlock t i = with_dd t (dd_MutexBeforeUnlock (dd_key i))"

text \<open>\<open>ReportDeadlock(thr, pc, ctx->dd->GetReport(&cb))\<close>\<close>

definition ReportDeadlock :: "nat \<Rightarrow> sync_world \<Rightarrow> sync_world" where
  "ReportDeadlock t w =
     (let (r, lt) = dd_GetReport (st_dd (sw_threads w t)); w = upd_thread t (\<lambda>thr. thr\<lparr>st_dd := lt\<rparr>) w in
      case r of None \<Rightarrow> w | Some l \<Rightarrow> report (Deadlock l) w)"

definition ReportMutexMisuse :: "misuse \<Rightarrow> u64 \<Rightarrow> u64 \<Rightarrow> sync_world \<Rightarrow> sync_world" where
  "ReportMutexMisuse typ addr mid = report (MutexMisuse typ addr mid)"

section \<open>Acquire and release\<close>

text \<open>The clock of an object, or its clock of readers.\<close>

definition clk_of :: "bool \<Rightarrow> sync_var \<Rightarrow> sync_clock" where
  "clk_of rd s = (if rd then sv_read_clock s else sv_clock s)"

definition put_clk :: "bool \<Rightarrow> sync_clock \<Rightarrow> sync_var \<Rightarrow> sync_var" where
  "put_clk rd c s = (if rd then s\<lparr>sv_read_clock := c\<rparr> else s\<lparr>sv_clock := c\<rparr>)"

text \<open>\<open>thr->clock.set(thr->fast_state.epoch())\<close>\<close>

definition set_epoch :: "nat \<Rightarrow> sync_world \<Rightarrow> sync_world" where
  "set_epoch t w =
     (let (c, out) = set_own (st_clock (sw_threads w t)) (thread_epoch t w) in
      (upd_thread t (\<lambda>thr. thr\<lparr>st_clock := c\<rparr>) w)\<lparr>sw_log := sw_log w @ out\<rparr>)"

text \<open>\<open>thr->fast_synch_epoch = thr->fast_state.epoch()\<close>\<close>

definition set_synch_epoch :: "nat \<Rightarrow> sync_world \<Rightarrow> sync_world" where
  "set_synch_epoch t w = upd_thread t (\<lambda>thr. thr\<lparr>st_state := (st_state thr)\<lparr>fast_synch_epoch := thread_epoch t w\<rparr>\<rparr>) w"

definition store_clocks :: "nat \<Rightarrow> thread_clock \<Rightarrow> clk_heap \<Rightarrow> log_line list \<Rightarrow> sync_world \<Rightarrow> sync_world" where
  "store_clocks t c h out w =
     (upd_thread t (\<lambda>thr. thr\<lparr>st_clock := c\<rparr>) w)\<lparr>sw_map := (sw_map w)\<lparr>mm_clocks := h\<rparr>, sw_log := sw_log w @ out\<rparr>"

definition AcquireImpl :: "nat \<Rightarrow> bool \<Rightarrow> u32 \<Rightarrow> sync_world \<Rightarrow> sync_world option" where
  "AcquireImpl t rd i w =
     (if ignore_sync (st_state (sw_threads w t)) \<noteq> 0 then Some w
      else (let w = set_epoch t w in
            do { (c, h, out) \<leftarrow> acquire (st_clock (sw_threads w t)) (clk_of rd (obj i w)) (mm_clocks (sw_map w));
                 Some (store_clocks t c h out w) }))"

definition release_with ::
  "(thread_clock \<Rightarrow> sync_clock \<Rightarrow> clk_heap \<Rightarrow> (thread_clock \<times> sync_clock \<times> clk_heap \<times> log_line list) option)
     \<Rightarrow> nat \<Rightarrow> bool \<Rightarrow> u32 \<Rightarrow> sync_world \<Rightarrow> sync_world option" where
  "release_with f t rd i w =
     (if ignore_sync (st_state (sw_threads w t)) \<noteq> 0 then Some w
      else (let w = set_synch_epoch t (set_epoch t w) in
            do { (c, s, h, out) \<leftarrow> f (st_clock (sw_threads w t)) (clk_of rd (obj i w)) (mm_clocks (sw_map w));
                 Some (upd_obj i (put_clk rd s) (store_clocks t c h out w)) }))"

definition ReleaseImpl :: "nat \<Rightarrow> bool \<Rightarrow> u32 \<Rightarrow> sync_world \<Rightarrow> sync_world option" where
  "ReleaseImpl = release_with (\<lambda>c s h. map_option (\<lambda>(c, s, h). (c, s, h, [])) (release c s h))"

definition ReleaseStoreImpl :: "nat \<Rightarrow> bool \<Rightarrow> u32 \<Rightarrow> sync_world \<Rightarrow> sync_world option" where
  "ReleaseStoreImpl = release_with (\<lambda>c s h. map_option (\<lambda>(c, s, h). (c, s, h, [])) (ReleaseStore c s h))"

definition ReleaseStoreAcquireImpl :: "nat \<Rightarrow> bool \<Rightarrow> u32 \<Rightarrow> sync_world \<Rightarrow> sync_world option" where
  "ReleaseStoreAcquireImpl = release_with releaseStoreAcquire"

definition AcquireReleaseImpl :: "nat \<Rightarrow> bool \<Rightarrow> u32 \<Rightarrow> sync_world \<Rightarrow> sync_world option" where
  "AcquireReleaseImpl = release_with acq_rel"

definition Acquire :: "nat \<Rightarrow> u64 \<Rightarrow> sync_world \<Rightarrow> sync_world option" where
  "Acquire t addr w =
     (if ignore_sync (st_state (sw_threads w t)) \<noteq> 0 then Some w
      else do { (s, m) \<leftarrow> GetIfExistsAndLock addr (sw_map w);
                case s of None \<Rightarrow> Some (w\<lparr>sw_map := m\<rparr>) | Some i \<Rightarrow> AcquireImpl t False i (w\<lparr>sw_map := m\<rparr>) })"

definition release_op ::
  "(nat \<Rightarrow> bool \<Rightarrow> u32 \<Rightarrow> sync_world \<Rightarrow> sync_world option) \<Rightarrow> sync_env \<Rightarrow> nat \<Rightarrow> u64 \<Rightarrow> u64 \<Rightarrow> sync_world \<Rightarrow> sync_world option" where
  "release_op f env t pc addr w =
     (if ignore_sync (st_state (sw_threads w t)) \<noteq> 0 then Some w
      else do { (i, w) \<leftarrow> get_or_create env t pc addr w; f t False i (increment_epoch t w) })"

definition Release :: "sync_env \<Rightarrow> nat \<Rightarrow> u64 \<Rightarrow> u64 \<Rightarrow> sync_world \<Rightarrow> sync_world option" where
  "Release = release_op ReleaseImpl"

definition ReleaseStore_at :: "sync_env \<Rightarrow> nat \<Rightarrow> u64 \<Rightarrow> u64 \<Rightarrow> sync_world \<Rightarrow> sync_world option" where
  "ReleaseStore_at = release_op ReleaseStoreImpl"

definition ReleaseStoreAcquire :: "sync_env \<Rightarrow> nat \<Rightarrow> u64 \<Rightarrow> u64 \<Rightarrow> sync_world \<Rightarrow> sync_world option" where
  "ReleaseStoreAcquire = release_op ReleaseStoreAcquireImpl"

subsection \<open>Acquiring from every thread\<close>

definition registry_epoch :: "nat \<times> bool \<times> u64 \<Rightarrow> sync_world \<Rightarrow> u64" where
  "registry_epoch x w = (case x of (tid, running, epoch1) \<Rightarrow> if running then thread_epoch tid w else epoch1)"

definition UpdateClockCallback :: "nat \<Rightarrow> nat \<times> bool \<times> u64 \<Rightarrow> sync_world \<Rightarrow> sync_world option" where
  "UpdateClockCallback t x w =
     (case x of (tid, running, epoch1) \<Rightarrow>
        (let epoch = registry_epoch x w in
         do { w \<leftarrow> (if running
                   then do { c \<leftarrow> NoteGlobalAcquire epoch (st_clock (sw_threads w tid));
                             Some (upd_thread tid (\<lambda>thr. thr\<lparr>st_clock := c\<rparr>) w) }
                   else Some w);
              (c, h, out) \<leftarrow> ThreadClock_set (st_clock (sw_threads w t)) tid epoch (mm_clocks (sw_map w));
              Some (store_clocks t c h out w) }))"

definition UpdateSleepClockCallback :: "nat \<Rightarrow> nat \<times> bool \<times> u64 \<Rightarrow> sync_world \<Rightarrow> sync_world option" where
  "UpdateSleepClockCallback t x w =
     do { (c, h, out) \<leftarrow> ThreadClock_set (st_sleep_clock (sw_threads w t)) (fst x) (registry_epoch x w) (mm_clocks (sw_map w));
          Some ((upd_thread t (\<lambda>thr. thr\<lparr>st_sleep_clock := c\<rparr>) w)\<lparr>sw_map := (sw_map w)\<lparr>mm_clocks := h\<rparr>, sw_log := sw_log w @ out\<rparr>) }"

fun each_thread :: "('x \<Rightarrow> 'w \<Rightarrow> 'w option) \<Rightarrow> 'x list \<Rightarrow> 'w \<Rightarrow> 'w option" where
  "each_thread f [] w = Some w"
| "each_thread f (x # xs) w = do { w \<leftarrow> f x w; each_thread f xs w }"

definition AcquireGlobal :: "nat \<Rightarrow> sync_world \<Rightarrow> sync_world option" where
  "AcquireGlobal t w =
     (if ignore_sync (st_state (sw_threads w t)) \<noteq> 0 then Some w else each_thread (UpdateClockCallback t) (sw_registry w) w)"

definition AfterSleep :: "sync_env \<Rightarrow> nat \<Rightarrow> u64 \<Rightarrow> sync_world \<Rightarrow> sync_world option" where
  "AfterSleep env t pc w =
     (if ignore_sync (st_state (sw_threads w t)) \<noteq> 0 then Some w
      else each_thread (UpdateSleepClockCallback t) (sw_registry w)
             (upd_thread t (\<lambda>thr. thr\<lparr>st_sleep_stack := CurrentStackId env t pc w\<rparr>) w))"

section \<open>Mutexes\<close>

definition has_flag :: "u32 \<Rightarrow> u32 \<Rightarrow> bool" where
  "has_flag flagz f \<longleftrightarrow> flagz AND f \<noteq> 0"

definition kSizeLog1 :: nat where "kSizeLog1 = 0"

text \<open>\<open>MemoryReadAtomic(thr, pc, addr, kSizeLog1)\<close> for an application address.\<close>

definition touch_mutex :: "sync_env \<Rightarrow> nat \<Rightarrow> u64 \<Rightarrow> u64 \<Rightarrow> sync_world \<Rightarrow> sync_world option" where
  "touch_mutex env t pc addr w =
     (if IsAppMem addr then access t (MemoryReadAtomic (se_access env) pc addr kSizeLog1) w else Some w)"

text \<open>The imitated write of a creation or destruction, with \<open>is_freeing\<close> set.\<close>

definition set_freeing :: "nat \<Rightarrow> bool \<Rightarrow> sync_world \<Rightarrow> sync_world" where
  "set_freeing t b = upd_thread t (\<lambda>thr. thr\<lparr>st_state := (st_state thr)\<lparr>is_freeing := b\<rparr>\<rparr>)"

definition imitate_write :: "sync_env \<Rightarrow> nat \<Rightarrow> u64 \<Rightarrow> u64 \<Rightarrow> sync_world \<Rightarrow> sync_world option" where
  "imitate_write env t pc addr w =
     (if is_freeing (st_state (sw_threads w t)) then None
      else do { w \<leftarrow> access t (MemoryWrite (se_access env) pc addr kSizeLog1) (set_freeing t True w);
                Some (set_freeing t False w) })"

definition with_mset :: "nat \<Rightarrow> (mutex_set \<Rightarrow> mutex_set option) \<Rightarrow> sync_world \<Rightarrow> sync_world option" where
  "with_mset t f w = do { ds \<leftarrow> f (st_mset (sw_threads w t)); Some (upd_thread t (\<lambda>thr. thr\<lparr>st_mset := ds\<rparr>) w) }"

definition MutexCreate :: "sync_env \<Rightarrow> nat \<Rightarrow> u64 \<Rightarrow> u64 \<Rightarrow> u32 \<Rightarrow> sync_world \<Rightarrow> sync_world option" where
  "MutexCreate env t pc addr flagz w =
     do { w \<leftarrow> (if \<not> has_flag flagz MutexFlagLinkerInit \<and> IsAppMem addr then imitate_write env t pc addr w else Some w);
          (i, w) \<leftarrow> get_or_create env t pc addr w;
          let w = upd_obj i (SetFlags (flagz AND MutexCreationFlagMask)) w;
          Some (if sv_stack (obj i w) = 0 then upd_obj i (\<lambda>s. s\<lparr>sv_stack := CurrentStackId env t pc w\<rparr>) w else w) }"

definition reset_obj :: "u32 \<Rightarrow> sync_world \<Rightarrow> sync_world option" where
  "reset_obj i w = do { m \<leftarrow> SyncVar_Reset i (sw_map w); Some (w\<lparr>sw_map := m\<rparr>) }"

definition MutexDestroy :: "sync_env \<Rightarrow> nat \<Rightarrow> u64 \<Rightarrow> u64 \<Rightarrow> u32 \<Rightarrow> sync_world \<Rightarrow> sync_world option" where
  "MutexDestroy env t pc addr flagz w =
     do { (s, m) \<leftarrow> GetIfExistsAndLock addr (sw_map w);
          let w = w\<lparr>sw_map := m\<rparr>;
          case s of None \<Rightarrow> Some w
          | Some i \<Rightarrow>
              if has_flag flagz MutexFlagLinkerInit \<or> IsFlagSet MutexFlagLinkerInit (obj i w) \<or>
                 (has_flag flagz MutexFlagNotStatic \<and> \<not> IsFlagSet MutexFlagNotStatic (obj i w))
              then Some w
              else do {
                w \<leftarrow> (if detect_deadlocks env
                     then do { dd \<leftarrow> dd_MutexDestroy (dd_key i) (mm_dd (sw_map w));
                               Some (w\<lparr>sw_map := (sw_map w)\<lparr>mm_dd := dd_MutexInit (CurrentStackId env t pc w) (dd_key i) dd\<rparr>\<rparr>) }
                     else Some w);
                let unlock_locked = (report_destroy_locked env \<and> sv_owner (obj i w) \<noteq> kInvalidOwner \<and>
                                     \<not> IsFlagSet MutexFlagBroken (obj i w));
                let w = (if unlock_locked then upd_obj i (SetFlags MutexFlagBroken) w else w);
                let mid = SyncVar_GetId (obj i w);
                let last_lock = sv_last_lock (obj i w);
                w \<leftarrow> (if \<not> unlock_locked then reset_obj i w
                     else do { let w = report (MutexDestroyLocked addr mid last_lock) w;
                               (s, m) \<leftarrow> GetIfExistsAndLock addr (sw_map w);
                               let w = w\<lparr>sw_map := m\<rparr>;
                               case s of None \<Rightarrow> Some w | Some i \<Rightarrow> reset_obj i w });
                w \<leftarrow> with_mset t (MutexSet_Remove mid) w;
                if IsAppMem addr then imitate_write env t pc addr w else Some w } }"

text \<open>Marks the first misuse of a mutex; the result is whether to report it.\<close>

definition mark_broken :: "bool \<Rightarrow> u32 \<Rightarrow> sync_world \<Rightarrow> bool \<times> sync_world" where
  "mark_broken enabled i w =
     (if enabled \<and> \<not> IsFlagSet MutexFlagBroken (obj i w) then (True, upd_obj i (SetFlags MutexFlagBroken) w) else (False, w))"

definition MutexPreLock :: "sync_env \<Rightarrow> nat \<Rightarrow> u64 \<Rightarrow> u64 \<Rightarrow> u32 \<Rightarrow> sync_world \<Rightarrow> sync_world option" where
  "MutexPreLock env t pc addr flagz w =
     (if \<not> has_flag flagz MutexFlagTryLock \<and> detect_deadlocks env
      then do { (i, w) \<leftarrow> get_or_create env t pc addr w;
                let w = upd_obj i (UpdateFlags flagz) w;
                if sv_owner (obj i w) \<noteq> int t
                then do { w \<leftarrow> before_lock env t pc i w; Some (ReportDeadlock t w) }
                else Some w }
      else Some w)"

text \<open>The part of \<open>MutexPostLock\<close> that updates the owner; the result is whether to report a double lock.\<close>

definition take_ownership :: "sync_env \<Rightarrow> nat \<Rightarrow> u32 \<Rightarrow> sync_world \<Rightarrow> (bool \<times> sync_world) option" where
  "take_ownership env t i w =
     (if sv_owner (obj i w) = kInvalidOwner
      then if sv_recursion (obj i w) \<noteq> 0 then None
           else Some (False, upd_obj i (\<lambda>s. s\<lparr>sv_owner := int t, sv_last_lock := fast_state (st_state (sw_threads w t))\<rparr>) w)
      else if sv_owner (obj i w) = int t
      then if \<not> sv_recursion (obj i w) > 0 then None else Some (False, w)
      else Some (mark_broken (report_mutex_bugs env) i w))"

text \<open>
  \<open>s->recursion += rec\<close>: the nesting depth is an \<open>int\<close> of 32 bits, and the caller chooses \<open>rec\<close>. \<open>None\<close> is the
  signed overflow, which C++ leaves undefined.
\<close>

definition add_recursion :: "int \<Rightarrow> int \<Rightarrow> int option" where
  "add_recursion recursion rec = (if recursion + rec < 2 ^ 31 then Some (recursion + rec) else None)"

definition MutexPostLock :: "sync_env \<Rightarrow> nat \<Rightarrow> u64 \<Rightarrow> u64 \<Rightarrow> u32 \<Rightarrow> int \<Rightarrow> sync_world \<Rightarrow> sync_world option" where
  "MutexPostLock env t pc addr flagz rec w =
     do { rec \<leftarrow> (if has_flag flagz MutexFlagRecursiveLock then if rec > 0 then Some rec else None else Some 1);
          w \<leftarrow> touch_mutex env t pc addr w;
          (i, w) \<leftarrow> get_or_create env t pc addr w;
          let w = increment_epoch t (upd_obj i (UpdateFlags flagz) w);
          (report_double_lock, w) \<leftarrow> take_ownership env t i w;
          let first = (sv_recursion (obj i w) = 0);
          depth \<leftarrow> add_recursion (sv_recursion (obj i w)) rec;
          let w = upd_obj i (\<lambda>s. s\<lparr>sv_recursion := depth\<rparr>) w;
          w \<leftarrow> (if first then do { w \<leftarrow> AcquireImpl t False i w; AcquireImpl t True i w } else Some w);
          w \<leftarrow> with_mset t (MutexSet_Add (SyncVar_GetId (obj i w)) True (thread_epoch t w)) w;
          let pre_lock = (first \<and> detect_deadlocks env \<and> has_flag flagz MutexFlagDoPreLockOnPostLock \<and>
                          \<not> has_flag flagz MutexFlagTryLock);
          w \<leftarrow> (if first \<and> detect_deadlocks env
               then do { w \<leftarrow> (if pre_lock then before_lock env t pc i w else Some w);
                         after_lock env t pc i True (has_flag flagz MutexFlagTryLock) w }
               else Some w);
          let mid = SyncVar_GetId (obj i w);
          let w = (if report_double_lock then ReportMutexMisuse ReportTypeMutexDoubleLock addr mid w else w);
          Some (if first \<and> pre_lock \<and> detect_deadlocks env then ReportDeadlock t w else w) }"

text \<open>The part of \<open>MutexUnlock\<close> that gives up the owner's levels; the result is whether to report, and how many levels.\<close>

definition give_up :: "sync_env \<Rightarrow> nat \<Rightarrow> u32 \<Rightarrow> u32 \<Rightarrow> sync_world \<Rightarrow> (bool \<times> int \<times> sync_world) option" where
  "give_up env t flagz i w =
     (if sv_recursion (obj i w) = 0 \<or> sv_owner (obj i w) \<noteq> int t
      then (let (r, w) = mark_broken (report_mutex_bugs env) i w in Some (r, 0, w))
      else
        (let rec = (if has_flag flagz MutexFlagRecursiveUnlock then sv_recursion (obj i w) else 1);
             w = upd_obj i (\<lambda>s. s\<lparr>sv_recursion := sv_recursion s - rec\<rparr>) w in
         do { w \<leftarrow> (if sv_recursion (obj i w) = 0
                   then ReleaseStoreImpl t False i (upd_obj i (\<lambda>s. s\<lparr>sv_owner := kInvalidOwner\<rparr>) w)
                   else Some w);
              Some (False, rec, w) }))"

definition MutexUnlock :: "sync_env \<Rightarrow> nat \<Rightarrow> u64 \<Rightarrow> u64 \<Rightarrow> u32 \<Rightarrow> sync_world \<Rightarrow> (int \<times> sync_world) option" where
  "MutexUnlock env t pc addr flagz w =
     do { w \<leftarrow> touch_mutex env t pc addr w;
          (i, w) \<leftarrow> get_or_create env t pc addr w;
          (report_bad_unlock, rec, w) \<leftarrow> give_up env t flagz i (increment_epoch t w);
          w \<leftarrow> with_mset t (MutexSet_Del (SyncVar_GetId (obj i w)) True) w;
          w \<leftarrow> (if detect_deadlocks env \<and> sv_recursion (obj i w) = 0 \<and> \<not> report_bad_unlock then before_unlock t i w else Some w);
          let mid = SyncVar_GetId (obj i w);
          let w = (if report_bad_unlock then ReportMutexMisuse ReportTypeMutexBadUnlock addr mid w else w);
          Some (rec, if detect_deadlocks env \<and> \<not> report_bad_unlock then ReportDeadlock t w else w) }"

section \<open>Readers\<close>

definition MutexPreReadLock :: "sync_env \<Rightarrow> nat \<Rightarrow> u64 \<Rightarrow> u64 \<Rightarrow> u32 \<Rightarrow> sync_world \<Rightarrow> sync_world option" where
  "MutexPreReadLock env t pc addr flagz w =
     (if \<not> has_flag flagz MutexFlagTryLock \<and> detect_deadlocks env
      then do { (i, w) \<leftarrow> get_or_create env t pc addr w;
                w \<leftarrow> before_lock env t pc i (upd_obj i (UpdateFlags flagz) w);
                Some (ReportDeadlock t w) }
      else Some w)"

definition MutexPostReadLock :: "sync_env \<Rightarrow> nat \<Rightarrow> u64 \<Rightarrow> u64 \<Rightarrow> u32 \<Rightarrow> sync_world \<Rightarrow> sync_world option" where
  "MutexPostReadLock env t pc addr flagz w =
     do { w \<leftarrow> touch_mutex env t pc addr w;
          (i, w) \<leftarrow> get_or_create env t pc addr w;
          let w = increment_epoch t (upd_obj i (UpdateFlags flagz) w);
          let (report_bad_lock, w) = (if sv_owner (obj i w) \<noteq> kInvalidOwner then mark_broken (report_mutex_bugs env) i w else (False, w));
          w \<leftarrow> AcquireImpl t False i w;
          let w = upd_obj i (\<lambda>s. s\<lparr>sv_last_lock := fast_state (st_state (sw_threads w t))\<rparr>) w;
          w \<leftarrow> with_mset t (MutexSet_Add (SyncVar_GetId (obj i w)) False (thread_epoch t w)) w;
          let pre_lock = (detect_deadlocks env \<and> has_flag flagz MutexFlagDoPreLockOnPostLock \<and> \<not> has_flag flagz MutexFlagTryLock);
          w \<leftarrow> (if detect_deadlocks env
               then do { w \<leftarrow> (if pre_lock then before_lock env t pc i w else Some w);
                         after_lock env t pc i False (has_flag flagz MutexFlagTryLock) w }
               else Some w);
          let mid = SyncVar_GetId (obj i w);
          let w = (if report_bad_lock then ReportMutexMisuse ReportTypeMutexBadReadLock addr mid w else w);
          Some (if pre_lock \<and> detect_deadlocks env then ReportDeadlock t w else w) }"

definition MutexReadUnlock :: "sync_env \<Rightarrow> nat \<Rightarrow> u64 \<Rightarrow> u64 \<Rightarrow> sync_world \<Rightarrow> sync_world option" where
  "MutexReadUnlock env t pc addr w =
     do { w \<leftarrow> touch_mutex env t pc addr w;
          (i, w) \<leftarrow> get_or_create env t pc addr w;
          let w = increment_epoch t w;
          let (report_bad_unlock, w) = (if sv_owner (obj i w) \<noteq> kInvalidOwner then mark_broken (report_mutex_bugs env) i w else (False, w));
          w \<leftarrow> ReleaseImpl t True i w;
          w \<leftarrow> (if detect_deadlocks env \<and> sv_recursion (obj i w) = 0 then before_unlock t i w else Some w);
          let mid = SyncVar_GetId (obj i w);
          w \<leftarrow> with_mset t (MutexSet_Del mid False) w;
          let w = (if report_bad_unlock then ReportMutexMisuse ReportTypeMutexBadReadUnlock addr mid w else w);
          Some (if detect_deadlocks env then ReportDeadlock t w else w) }"

text \<open>The three cases of \<open>MutexReadOrWriteUnlock\<close>; the result is \<open>write\<close> and \<open>report_bad_unlock\<close>.\<close>

definition release_either :: "nat \<Rightarrow> u32 \<Rightarrow> sync_world \<Rightarrow> (bool \<times> bool \<times> sync_world) option" where
  "release_either t i w =
     (if sv_owner (obj i w) = kInvalidOwner
      then do { w \<leftarrow> ReleaseImpl t True i (increment_epoch t w); Some (False, False, w) }
      else if sv_owner (obj i w) = int t
      then (let w = increment_epoch t w in
            if \<not> sv_recursion (obj i w) > 0 then None
            else (let w = upd_obj i (\<lambda>s. s\<lparr>sv_recursion := sv_recursion s - 1\<rparr>) w in
                  do { w \<leftarrow> (if sv_recursion (obj i w) = 0
                            then ReleaseStoreImpl t False i (upd_obj i (\<lambda>s. s\<lparr>sv_owner := kInvalidOwner\<rparr>) w)
                            else Some w);
                       Some (True, False, w) }))
      else (let (r, w) = mark_broken True i w in Some (True, r, w)))"

definition MutexReadOrWriteUnlock :: "sync_env \<Rightarrow> nat \<Rightarrow> u64 \<Rightarrow> u64 \<Rightarrow> sync_world \<Rightarrow> sync_world option" where
  "MutexReadOrWriteUnlock env t pc addr w =
     do { w \<leftarrow> touch_mutex env t pc addr w;
          (i, w) \<leftarrow> get_or_create env t pc addr w;
          (write, report_bad_unlock, w) \<leftarrow> release_either t i w;
          w \<leftarrow> with_mset t (MutexSet_Del (SyncVar_GetId (obj i w)) write) w;
          w \<leftarrow> (if detect_deadlocks env \<and> sv_recursion (obj i w) = 0 then before_unlock t i w else Some w);
          let mid = SyncVar_GetId (obj i w);
          let w = (if report_bad_unlock then ReportMutexMisuse ReportTypeMutexBadUnlock addr mid w else w);
          Some (if detect_deadlocks env then ReportDeadlock t w else w) }"

definition MutexRepair :: "sync_env \<Rightarrow> nat \<Rightarrow> u64 \<Rightarrow> u64 \<Rightarrow> sync_world \<Rightarrow> sync_world option" where
  "MutexRepair env t pc addr w =
     do { (i, w) \<leftarrow> get_or_create env t pc addr w;
          Some (upd_obj i (\<lambda>s. s\<lparr>sv_owner := kInvalidOwner, sv_recursion := 0\<rparr>) w) }"

definition MutexInvalidAccess :: "sync_env \<Rightarrow> nat \<Rightarrow> u64 \<Rightarrow> u64 \<Rightarrow> sync_world \<Rightarrow> sync_world option" where
  "MutexInvalidAccess env t pc addr w =
     do { (i, w) \<leftarrow> get_or_create env t pc addr w;
          Some (ReportMutexMisuse ReportTypeMutexInvalidAccess addr (SyncVar_GetId (obj i w)) w) }"

end
