(* ===== verification/ThreadRegistry.thy ===== *)
theory ThreadRegistry
  imports Prelude "HOL-Library.Monad_Syntax"
begin

text \<open>
  \<open>sanitizer_common/sanitizer_thread_registry.cpp\<close>: the contexts of the threads a program has created,
  their life from creation to death, and the reuse of their numbers after a quarantine. The virtual methods of
  a context and the factory of contexts are arguments; they work on a state of their own, of type \<open>'w\<close>.
  A call holds the registry's mutex and is one step. \<open>None\<close> is a failing \<open>CHECK\<close>, the death of the process
  or a callback that does not return. The registry's array of contexts is a list by number.
\<close>

section \<open>Contexts\<close>

datatype thread_status = ThreadStatusInvalid | ThreadStatusCreated | ThreadStatusRunning | ThreadStatusFinished | ThreadStatusDead

datatype thread_type = Regular | Worker | Fiber

record thread_base =
  tb_tid :: nat
  tb_unique_id :: u64
  tb_reuse_count :: u32
  tb_os_id :: u64
  tb_user_id :: u64
  tb_name :: string
  tb_status :: thread_status
  tb_detached :: bool
  tb_type :: thread_type
  tb_parent :: u32
  tb_destroyed :: bool

definition ThreadContextBase_new :: "nat \<Rightarrow> thread_base" where
  "ThreadContextBase_new tid = \<lparr>tb_tid = tid, tb_unique_id = 0, tb_reuse_count = 0, tb_os_id = 0, tb_user_id = 0, tb_name = [],
     tb_status = ThreadStatusInvalid, tb_detached = False, tb_type = Regular, tb_parent = 0, tb_destroyed = False\<rparr>"

text \<open>\<open>name\<close> holds 64 characters with the terminating zero.\<close>

definition ctx_SetName :: "string option \<Rightarrow> thread_base \<Rightarrow> thread_base" where
  "ctx_SetName new_name t = t\<lparr>tb_name := (case new_name of None \<Rightarrow> [] | Some s \<Rightarrow> take 63 s)\<rparr>"

record ('c, 's, 'j, 'w) context_callbacks =
  context_factory :: "nat \<Rightarrow> 'w \<Rightarrow> 'w option"
  OnDead :: "thread_base \<Rightarrow> 'w \<Rightarrow> 'w option"
  OnJoined :: "thread_base \<Rightarrow> 'j \<Rightarrow> 'w \<Rightarrow> 'w option"
  OnFinished :: "thread_base \<Rightarrow> 'w \<Rightarrow> 'w option"
  OnStarted :: "thread_base \<Rightarrow> 's \<Rightarrow> 'w \<Rightarrow> 'w option"
  OnCreated :: "thread_base \<Rightarrow> 'c \<Rightarrow> 'w \<Rightarrow> 'w option"
  OnReset :: "thread_base \<Rightarrow> 'w \<Rightarrow> 'w option"
  OnDetached :: "thread_base \<Rightarrow> 'j \<Rightarrow> 'w \<Rightarrow> 'w option"

text \<open>The methods of a context: its new value and what the callback does.\<close>

definition SetDead :: "('c, 's, 'j, 'w) context_callbacks \<Rightarrow> thread_base \<times> 'w \<Rightarrow> (thread_base \<times> 'w) option" where
  "SetDead cb = (\<lambda>(t, w).
     if tb_status t = ThreadStatusRunning \<or> tb_status t = ThreadStatusFinished
     then (let t = t\<lparr>tb_status := ThreadStatusDead, tb_user_id := 0\<rparr> in do { w \<leftarrow> OnDead cb t w; Some (t, w) })
     else None)"

definition SetDestroyed :: "thread_base \<Rightarrow> thread_base" where
  "SetDestroyed t = t\<lparr>tb_destroyed := True\<rparr>"

definition SetJoined :: "('c, 's, 'j, 'w) context_callbacks \<Rightarrow> 'j \<Rightarrow> thread_base \<times> 'w \<Rightarrow> (thread_base \<times> 'w) option" where
  "SetJoined cb arg = (\<lambda>(t, w).
     if tb_detached t \<or> tb_status t \<noteq> ThreadStatusFinished then None
     else (let t = t\<lparr>tb_status := ThreadStatusDead, tb_user_id := 0\<rparr> in do { w \<leftarrow> OnJoined cb t arg w; Some (t, w) }))"

definition SetFinished :: "('c, 's, 'j, 'w) context_callbacks \<Rightarrow> thread_base \<times> 'w \<Rightarrow> (thread_base \<times> 'w) option" where
  "SetFinished cb = (\<lambda>(t, w).
     let t = (if \<not> tb_detached t \<or> tb_status t = ThreadStatusCreated then t\<lparr>tb_status := ThreadStatusFinished\<rparr> else t)
     in do { w \<leftarrow> OnFinished cb t w; Some (t, w) })"

definition SetStarted ::
  "('c, 's, 'j, 'w) context_callbacks \<Rightarrow> u64 \<Rightarrow> thread_type \<Rightarrow> 's \<Rightarrow> thread_base \<times> 'w \<Rightarrow> (thread_base \<times> 'w) option" where
  "SetStarted cb os_id typ arg = (\<lambda>(t, w).
     let t = t\<lparr>tb_status := ThreadStatusRunning, tb_os_id := os_id, tb_type := typ\<rparr> in do { w \<leftarrow> OnStarted cb t arg w; Some (t, w) })"

definition SetCreated ::
  "('c, 's, 'j, 'w) context_callbacks \<Rightarrow> u64 \<Rightarrow> u64 \<Rightarrow> bool \<Rightarrow> u32 \<Rightarrow> 'c \<Rightarrow> thread_base \<times> 'w \<Rightarrow> (thread_base \<times> 'w) option" where
  "SetCreated cb user_id unique_id detached parent_tid arg = (\<lambda>(t, w).
     let t = t\<lparr>tb_status := ThreadStatusCreated, tb_user_id := user_id, tb_unique_id := unique_id, tb_detached := detached\<rparr>;
         t = (if tb_tid t \<noteq> 0 then t\<lparr>tb_parent := parent_tid\<rparr> else t)
     in do { w \<leftarrow> OnCreated cb t arg w; Some (t, w) })"

definition ctx_Reset :: "('c, 's, 'j, 'w) context_callbacks \<Rightarrow> thread_base \<times> 'w \<Rightarrow> (thread_base \<times> 'w) option" where
  "ctx_Reset cb = (\<lambda>(t, w).
     let t = (ctx_SetName None (t\<lparr>tb_status := ThreadStatusInvalid\<rparr>))\<lparr>tb_destroyed := False\<rparr>
     in do { w \<leftarrow> OnReset cb t w; Some (t, w) })"

section \<open>The registry\<close>

record registry =
  max_threads :: nat
  thread_quarantine_size :: nat
  max_reuse :: u32
  rg_threads :: "thread_base list"
  total_threads :: u64
  alive_threads :: nat
  max_alive_threads :: nat
  running_threads :: nat
  dead_threads :: "nat list"
  invalid_threads :: "nat list"

definition ThreadRegistry_new :: "nat \<Rightarrow> nat \<Rightarrow> u32 \<Rightarrow> registry" where
  "ThreadRegistry_new mx quarantine reuse = \<lparr>max_threads = mx, thread_quarantine_size = quarantine, max_reuse = reuse, rg_threads = [],
     total_threads = 0, alive_threads = 0, max_alive_threads = 0, running_threads = 0, dead_threads = [], invalid_threads = []\<rparr>"

abbreviation n_contexts :: "registry \<Rightarrow> nat" where "n_contexts r \<equiv> length (rg_threads r)"

definition on_ctx :: "nat \<Rightarrow> (thread_base \<times> 'w \<Rightarrow> (thread_base \<times> 'w) option) \<Rightarrow> registry \<times> 'w \<Rightarrow> (registry \<times> 'w) option" where
  "on_ctx tid f = (\<lambda>(r, w).
     if tid < n_contexts r
     then do { (t, w) \<leftarrow> f (rg_threads r ! tid, w); Some (r\<lparr>rg_threads := (rg_threads r)[tid := t]\<rparr>, w) }
     else None)"

definition upd_ctx :: "nat \<Rightarrow> (thread_base \<Rightarrow> thread_base) \<Rightarrow> registry \<Rightarrow> registry" where
  "upd_ctx tid f r = r\<lparr>rg_threads := (rg_threads r)[tid := f (rg_threads r ! tid)]\<rparr>"

definition status_of :: "registry \<Rightarrow> nat \<Rightarrow> thread_status" where
  "status_of r tid = tb_status (rg_threads r ! tid)"

definition QuarantinePush :: "('c, 's, 'j, 'w) context_callbacks \<Rightarrow> nat \<Rightarrow> registry \<times> 'w \<Rightarrow> (registry \<times> 'w) option" where
  "QuarantinePush cb tid = (\<lambda>(r, w).
     if tid = 0 then Some (r, w)
     else
       (let r = r\<lparr>dead_threads := dead_threads r @ [tid]\<rparr> in
        if length (dead_threads r) \<le> thread_quarantine_size r then Some (r, w)
        else
          (let x = hd (dead_threads r); r = r\<lparr>dead_threads := tl (dead_threads r)\<rparr> in
           if status_of r x \<noteq> ThreadStatusDead then None
           else do {
             (r, w) \<leftarrow> on_ctx x (ctx_Reset cb) (r, w);
             let r = upd_ctx x (\<lambda>t. t\<lparr>tb_reuse_count := tb_reuse_count t + 1\<rparr>) r;
             if max_reuse r > 0 \<and> tb_reuse_count (rg_threads r ! x) \<ge> max_reuse r then Some (r, w)
             else Some (r\<lparr>invalid_threads := invalid_threads r @ [x]\<rparr>, w) })))"

definition QuarantinePop :: "registry \<Rightarrow> nat option \<times> registry" where
  "QuarantinePop r =
     (case invalid_threads r of [] \<Rightarrow> (None, r) | x # xs \<Rightarrow> (Some x, r\<lparr>invalid_threads := xs\<rparr>))"

text \<open>A number for a new thread: from the quarantine, else a new context.\<close>

definition take_tid :: "('c, 's, 'j, 'w) context_callbacks \<Rightarrow> registry \<times> 'w \<Rightarrow> (nat \<times> registry \<times> 'w) option" where
  "take_tid cb = (\<lambda>(r, w).
     case QuarantinePop r of
       (Some tid, r) \<Rightarrow> Some (tid, r, w)
     | (None, r) \<Rightarrow>
         if n_contexts r < max_threads r
         then do { w \<leftarrow> context_factory cb (n_contexts r) w;
                   Some (n_contexts r, r\<lparr>rg_threads := rg_threads r @ [ThreadContextBase_new (n_contexts r)]\<rparr>, w) }
         else None)"

definition CreateThread ::
  "('c, 's, 'j, 'w) context_callbacks \<Rightarrow> u64 \<Rightarrow> bool \<Rightarrow> u32 \<Rightarrow> 'c \<Rightarrow> registry \<times> 'w \<Rightarrow> (nat \<times> registry \<times> 'w) option" where
  "CreateThread cb user_id detached parent_tid arg s =
     do { (tid, r, w) \<leftarrow> take_tid cb s;
          if \<not> tid < max_threads r \<or> status_of r tid \<noteq> ThreadStatusInvalid then None
          else do {
            let r = r\<lparr>alive_threads := alive_threads r + 1\<rparr>;
            r \<leftarrow> (if max_alive_threads r < alive_threads r
                 then (let r = r\<lparr>max_alive_threads := max_alive_threads r + 1\<rparr> in
                       if alive_threads r = max_alive_threads r then Some r else None)
                 else Some r);
            let uid = total_threads r;
            let r = r\<lparr>total_threads := total_threads r + 1\<rparr>;
            (r, w) \<leftarrow> on_ctx tid (SetCreated cb user_id uid detached parent_tid arg) (r, w);
            Some (tid, r, w) } }"

definition StartThread ::
  "('c, 's, 'j, 'w) context_callbacks \<Rightarrow> nat \<Rightarrow> u64 \<Rightarrow> thread_type \<Rightarrow> 's \<Rightarrow> registry \<times> 'w \<Rightarrow> (registry \<times> 'w) option" where
  "StartThread cb tid os_id typ arg = (\<lambda>(r, w).
     let r = r\<lparr>running_threads := running_threads r + 1\<rparr> in
     if \<not> tid < n_contexts r \<or> status_of r tid \<noteq> ThreadStatusCreated then None
     else on_ctx tid (SetStarted cb os_id typ arg) (r, w))"

definition FinishThread :: "('c, 's, 'j, 'w) context_callbacks \<Rightarrow> nat \<Rightarrow> registry \<times> 'w \<Rightarrow> (registry \<times> 'w) option" where
  "FinishThread cb tid = (\<lambda>(r, w).
     if \<not> alive_threads r > 0 \<or> \<not> tid < n_contexts r then None
     else
       (let r = r\<lparr>alive_threads := alive_threads r - 1\<rparr>; detached = tb_detached (rg_threads r ! tid) in
        do { (dead, r) \<leftarrow>
               (if status_of r tid = ThreadStatusRunning
                then if running_threads r > 0 then Some (detached, r\<lparr>running_threads := running_threads r - 1\<rparr>) else None
                else if status_of r tid = ThreadStatusCreated then Some (True, r) else None);
             s \<leftarrow> on_ctx tid (SetFinished cb) (r, w);
             (r, w) \<leftarrow> (if dead then do { s \<leftarrow> on_ctx tid (SetDead cb) s; QuarantinePush cb tid s } else Some s);
             Some (upd_ctx tid SetDestroyed r, w) }))"

text \<open>The result of a detach or a join is whether there was such a thread; otherwise the error is printed.\<close>

definition DetachThread :: "('c, 's, 'j, 'w) context_callbacks \<Rightarrow> nat \<Rightarrow> 'j \<Rightarrow> registry \<times> 'w \<Rightarrow> (bool \<times> registry \<times> 'w) option" where
  "DetachThread cb tid arg = (\<lambda>(r, w).
     if \<not> tid < n_contexts r then None
     else if status_of r tid = ThreadStatusInvalid then Some (False, r, w)
     else do {
       w \<leftarrow> OnDetached cb (rg_threads r ! tid) arg w;
       s \<leftarrow> (if status_of r tid = ThreadStatusFinished then do { s \<leftarrow> on_ctx tid (SetDead cb) (r, w); QuarantinePush cb tid s }
            else Some (upd_ctx tid (\<lambda>t. t\<lparr>tb_detached := True\<rparr>) r, w));
       Some (True, s) })"

text \<open>
  One round of \<open>JoinThread\<close>; \<open>Some (None, s)\<close>: the thread is not destroyed yet, and the caller yields. While it does,
  other threads run; \<open>others\<close> lists what they do in each pause, and joining waits for ever when it ends too early.
\<close>

definition join_round :: "('c, 's, 'j, 'w) context_callbacks \<Rightarrow> nat \<Rightarrow> 'j \<Rightarrow> registry \<times> 'w \<Rightarrow> (bool option \<times> registry \<times> 'w) option" where
  "join_round cb tid arg = (\<lambda>(r, w).
     if \<not> tid < n_contexts r then None
     else if status_of r tid = ThreadStatusInvalid then Some (Some False, r, w)
     else if tb_destroyed (rg_threads r ! tid)
     then do { s \<leftarrow> on_ctx tid (SetJoined cb arg) (r, w); s \<leftarrow> QuarantinePush cb tid s; Some (Some True, s) }
     else Some (None, r, w))"

fun JoinThread ::
  "('c, 's, 'j, 'w) context_callbacks \<Rightarrow> nat \<Rightarrow> 'j \<Rightarrow> (registry \<times> 'w \<Rightarrow> registry \<times> 'w) list \<Rightarrow> registry \<times> 'w \<Rightarrow> (bool \<times> registry \<times> 'w) option" where
  "JoinThread cb tid arg others s =
     do { (joined, s) \<leftarrow> join_round cb tid arg s;
          case joined of Some b \<Rightarrow> Some (b, s)
          | None \<Rightarrow> (case others of [] \<Rightarrow> None | f # fs \<Rightarrow> JoinThread cb tid arg fs (f s)) }"

definition SetThreadUserId :: "nat \<Rightarrow> u64 \<Rightarrow> registry \<Rightarrow> registry option" where
  "SetThreadUserId tid user_id r =
     (if \<not> tid < n_contexts r \<or> status_of r tid = ThreadStatusInvalid \<or> status_of r tid = ThreadStatusDead \<or>
         tb_user_id (rg_threads r ! tid) \<noteq> 0
      then None else Some (upd_ctx tid (\<lambda>t. t\<lparr>tb_user_id := user_id\<rparr>) r))"

definition SetThreadName :: "nat \<Rightarrow> string option \<Rightarrow> registry \<Rightarrow> registry option" where
  "SetThreadName tid name r =
     (if \<not> tid < n_contexts r \<or> status_of r tid \<noteq> ThreadStatusRunning then None else Some (upd_ctx tid (ctx_SetName name) r))"

definition FindThreadContextLocked :: "(thread_base \<Rightarrow> bool) \<Rightarrow> registry \<Rightarrow> thread_base option" where
  "FindThreadContextLocked cb r = List.find cb (rg_threads r)"

definition FindThreadContextByOsIDLocked :: "u64 \<Rightarrow> registry \<Rightarrow> thread_base option" where
  "FindThreadContextByOsIDLocked os_id =
     FindThreadContextLocked (\<lambda>t. tb_os_id t = os_id \<and> tb_status t \<noteq> ThreadStatusInvalid \<and> tb_status t \<noteq> ThreadStatusDead)"

definition SetThreadNameByUserId :: "u64 \<Rightarrow> string option \<Rightarrow> registry \<Rightarrow> registry" where
  "SetThreadNameByUserId user_id name r =
     (case FindThreadContextLocked (\<lambda>t. tb_user_id t = user_id \<and> tb_status t \<noteq> ThreadStatusInvalid) r of
        None \<Rightarrow> r | Some t \<Rightarrow> upd_ctx (tb_tid t) (ctx_SetName name) r)"

text \<open>\<open>FindThread\<close> with a callback that changes contexts: the number of the first it accepts.\<close>

fun FindThread :: "(thread_base \<times> 'w \<Rightarrow> (bool \<times> thread_base \<times> 'w) option) \<Rightarrow> nat list \<Rightarrow> registry \<times> 'w \<Rightarrow> (nat option \<times> registry \<times> 'w) option" where
  "FindThread cb [] s = Some (None, s)"
| "FindThread cb (tid # tids) (r, w) =
     do { (found, t, w) \<leftarrow> cb (rg_threads r ! tid, w);
          let r = upd_ctx tid (\<lambda>_. t) r;
          if found then Some (Some tid, r, w) else FindThread cb tids (r, w) }"

definition GetNumberOfThreads :: "registry \<Rightarrow> nat \<times> nat \<times> nat" where
  "GetNumberOfThreads r = (n_contexts r, running_threads r, alive_threads r)"

definition GetMaxAliveThreads :: "registry \<Rightarrow> nat" where
  "GetMaxAliveThreads r = max_alive_threads r"

end
