(* ===== verification/ThreadOps.thy ===== *)
theory ThreadOps
  imports SyncOps ThreadRegistry
begin

text \<open>
  \<open>tsan/rtl/tsan_rtl_thread.cpp\<close>: the contexts of the race detector's threads, which give the callbacks of the
  registry, and the creation, start, end, join and detachment of threads and fibers. A \<open>ThreadState\<close> is
  known by the number of its thread; its memory before the constructor runs is an argument of the start. Traces,
  statistics and the memory of traces are left out.
\<close>

section \<open>State\<close>

text \<open>The part of \<open>ThreadContext\<close> that the registry does not have; \<open>tctx_thr\<close> tells whether \<open>thr\<close> is set.\<close>

record tsan_context =
  tctx_thr :: bool
  creation_stack_id :: u32
  tctx_sync :: sync_clock
  epoch0 :: u64
  epoch1 :: u64

text \<open>The fields of \<open>ThreadState\<close> that the operations on synchronisation do not use.\<close>

record thread_frame =
  fr_stk_addr :: u64
  fr_stk_size :: u64
  fr_tls_addr :: u64
  fr_tls_size :: u64
  is_dead :: bool
  proc1 :: "nat option"

text \<open>\<open>tw_procs\<close>: the thread of each processor; \<open>tw_cur\<close>: the current thread.\<close>

record thread_world =
  tw_sync :: sync_world
  tw_ctx :: "nat \<Rightarrow> tsan_context"
  tw_frame :: "nat \<Rightarrow> thread_frame"
  tw_procs :: "nat \<Rightarrow> nat option"
  tw_cur :: nat

text \<open>
  The flags, the memory that the deadlock detector gets for a new thread, and the size of a \<open>ThreadState\<close>.
\<close>

record thread_env =
  te_sync :: sync_env
  history_size :: int
  report_thread_leaks :: bool
  te_dd_memory :: "dd_tls \<times> dd_loop list"
  te_sizeof_state :: u64

definition upd_tctx :: "nat \<Rightarrow> (tsan_context \<Rightarrow> tsan_context) \<Rightarrow> thread_world \<Rightarrow> thread_world" where
  "upd_tctx tid f w = w\<lparr>tw_ctx := (tw_ctx w)(tid := f (tw_ctx w tid))\<rparr>"

definition upd_frame :: "nat \<Rightarrow> (thread_frame \<Rightarrow> thread_frame) \<Rightarrow> thread_world \<Rightarrow> thread_world" where
  "upd_frame tid f w = w\<lparr>tw_frame := (tw_frame w)(tid := f (tw_frame w tid))\<rparr>"

definition in_sync :: "(sync_world \<Rightarrow> sync_world option) \<Rightarrow> thread_world \<Rightarrow> thread_world option" where
  "in_sync f w = do { s \<leftarrow> f (tw_sync w); Some (w\<lparr>tw_sync := s\<rparr>) }"

text \<open>\<open>AcquireImpl\<close> and \<open>ReleaseImpl\<close> with a clock that no synchronisation object holds.\<close>

definition acquire_from :: "nat \<Rightarrow> sync_clock \<Rightarrow> sync_world \<Rightarrow> sync_world option" where
  "acquire_from t c w =
     (if ignore_sync (st_state (sw_threads w t)) \<noteq> 0 then Some w
      else (let w = set_epoch t w in
            do { (tc, h, out) \<leftarrow> acquire (st_clock (sw_threads w t)) c (mm_clocks (sw_map w));
                 Some (store_clocks t tc h out w) }))"

definition release_to :: "nat \<Rightarrow> sync_clock \<Rightarrow> sync_world \<Rightarrow> (sync_clock \<times> sync_world) option" where
  "release_to t c w =
     (if ignore_sync (st_state (sw_threads w t)) \<noteq> 0 then Some (c, w)
      else (let w = set_synch_epoch t (set_epoch t w) in
            do { (tc, c, h) \<leftarrow> release (st_clock (sw_threads w t)) c (mm_clocks (sw_map w));
                 Some (c, store_clocks t tc h [] w) }))"

text \<open>They are those operations with the clock as an argument.\<close>

lemma obj_set_epoch: "obj i (set_epoch t w) = obj i w" "obj i (set_synch_epoch t w) = obj i w"
  by (simp_all add: obj_def set_epoch_def set_synch_epoch_def upd_thread_def Let_def split: prod.splits)

lemma AcquireImpl_from: "AcquireImpl t rd i w = acquire_from t (clk_of rd (obj i w)) w"
  by (simp add: AcquireImpl_def acquire_from_def Let_def obj_set_epoch)

lemma ReleaseImpl_to:
  "ignore_sync (st_state (sw_threads w t)) = 0 \<Longrightarrow>
   ReleaseImpl t rd i w = do { (c, w) \<leftarrow> release_to t (clk_of rd (obj i w)) w; Some (upd_obj i (put_clk rd c) w) }"
  by (auto simp: ReleaseImpl_def release_with_def release_to_def Let_def obj_set_epoch split: bind_splits)

definition reset_clock :: "nat \<Rightarrow> thread_world \<Rightarrow> thread_world option" where
  "reset_clock tid w =
     do { (c, h) \<leftarrow> SyncClock_Reset (tctx_sync (tw_ctx w tid)) (mm_clocks (sw_map (tw_sync w)));
          Some (upd_tctx tid (\<lambda>x. x\<lparr>tctx_sync := c\<rparr>) (w\<lparr>tw_sync := (tw_sync w)\<lparr>sw_map := (sw_map (tw_sync w))\<lparr>mm_clocks := h\<rparr>\<rparr>\<rparr>)) }"

section \<open>The callbacks\<close>

text \<open>The constructor leaves \<open>creation_stack_id\<close> unset.\<close>

definition ThreadContext_new :: tsan_context where
  "ThreadContext_new = \<lparr>tctx_thr = False, creation_stack_id = 0, tctx_sync = sync_clock_new, epoch0 = 0, epoch1 = 0\<rparr>"

definition CreateThreadContext :: "nat \<Rightarrow> thread_world \<Rightarrow> thread_world option" where
  "CreateThreadContext tid w = Some (upd_tctx tid (\<lambda>_. ThreadContext_new) w)"

definition ctx_OnDead :: "thread_base \<Rightarrow> thread_world \<Rightarrow> thread_world option" where
  "ctx_OnDead t w = (if sc_size (tctx_sync (tw_ctx w (tb_tid t))) \<noteq> 0 then None else Some w)"

definition ctx_OnReset :: "thread_base \<Rightarrow> thread_world \<Rightarrow> thread_world option" where
  "ctx_OnReset t w = (if sc_size (tctx_sync (tw_ctx w (tb_tid t))) \<noteq> 0 then None else Some w)"

definition ctx_OnJoined :: "thread_base \<Rightarrow> nat \<Rightarrow> thread_world \<Rightarrow> thread_world option" where
  "ctx_OnJoined t caller w =
     do { w \<leftarrow> in_sync (acquire_from caller (tctx_sync (tw_ctx w (tb_tid t)))) w; reset_clock (tb_tid t) w }"

definition ctx_OnDetached :: "thread_base \<Rightarrow> nat \<Rightarrow> thread_world \<Rightarrow> thread_world option" where
  "ctx_OnDetached t caller w = reset_clock (tb_tid t) w"

text \<open>The argument: the parent, if there is one, and the program counter.\<close>

definition ctx_OnCreated :: "thread_env \<Rightarrow> thread_base \<Rightarrow> nat option \<times> u64 \<Rightarrow> thread_world \<Rightarrow> thread_world option" where
  "ctx_OnCreated env t arg w =
     (let tid = tb_tid t; w = upd_tctx tid (\<lambda>x. x\<lparr>tctx_thr := False\<rparr>) w in
      if tid = 0 then Some w
      else case arg of (None, pc) \<Rightarrow> Some w
      | (Some parent, pc) \<Rightarrow>
          do { (c, s) \<leftarrow> release_to parent (tctx_sync (tw_ctx w tid)) (increment_epoch parent (tw_sync w));
               Some (upd_tctx tid (\<lambda>x. x\<lparr>tctx_sync := c, creation_stack_id := CurrentStackId (te_sync env) parent pc s\<rparr>)
                       (w\<lparr>tw_sync := s\<rparr>)) })"

text \<open>The constructor of \<open>ThreadState\<close>, over the memory \<open>thr\<close>; and the fields that \<open>OnStarted\<close> sets after it.\<close>

definition ThreadState_new :: "nat \<Rightarrow> u64 \<Rightarrow> u64 \<Rightarrow> u32 \<Rightarrow> sync_thread \<Rightarrow> sync_thread option" where
  "ThreadState_new tid unique_id epoch reuse_count thr =
     do { clock \<leftarrow> ThreadClock_new tid reuse_count True;
          sleep_clock \<leftarrow> ThreadClock_new tid 0 False;
          Some (thr\<lparr>st_state := (st_state thr)\<lparr>fast_state := FastState_new (of_nat tid) epoch, mop_ignore_set := [], sync_ignore_set := [],
                      ts_pm := (ts_pm (st_state thr))\<lparr>th_tid := int tid, flushes_cache := []\<rparr>\<rparr>,
                    st_clock := clock, st_mset := MutexSet_new, st_unique_id := sint (ucast unique_id :: u32), st_sleep_clock := sleep_clock\<rparr>) }"

definition kTracePartSize :: u64 where "kTracePartSize = 2 ^ 13"

record started_args =
  sa_stk_addr :: u64
  sa_stk_size :: u64
  sa_tls_addr :: u64
  sa_tls_size :: u64

text \<open>The fields of the context, and the areas of the new thread.\<close>

definition enter_thread :: "nat \<Rightarrow> started_args \<Rightarrow> thread_world \<Rightarrow> thread_world" where
  "enter_thread tid args w =
     upd_frame tid (\<lambda>f. f\<lparr>fr_stk_addr := sa_stk_addr args, fr_stk_size := sa_stk_size args,
                          fr_tls_addr := sa_tls_addr args, fr_tls_size := sa_tls_size args\<rparr>)
       (upd_tctx tid (\<lambda>x. x\<lparr>tctx_thr := True, epoch0 := RoundUp (epoch1 x + 1) kTracePartSize, epoch1 := - 1\<rparr>) w)"

definition ctx_OnStarted :: "thread_env \<Rightarrow> thread_base \<Rightarrow> started_args \<Rightarrow> thread_world \<Rightarrow> thread_world option" where
  "ctx_OnStarted env t args w =
     (let tid = tb_tid t; w = enter_thread tid args w; e0 = epoch0 (tw_ctx w tid) in do {
        thr \<leftarrow> ThreadState_new tid (tb_unique_id t) e0 (tb_reuse_count t) (sw_threads (tw_sync w) tid);
        fs \<leftarrow> SetHistorySize (history_size env) (fast_state (st_state thr));
        let thr = thr\<lparr>st_state := (st_state thr)\<lparr>shadow_stack := [], fast_state := fs, fast_synch_epoch := e0\<rparr>,
                      st_dd := (if detect_deadlocks (te_sync env)
                                then dd_CreateLogicalThread (tb_unique_id t) (fst (te_dd_memory env)) (snd (te_dd_memory env))
                                else st_dd thr)\<rparr>;
        w \<leftarrow> in_sync (acquire_from tid (tctx_sync (tw_ctx w tid))) (w\<lparr>tw_sync := upd_thread tid (\<lambda>_. thr) (tw_sync w)\<rparr>);
        w \<leftarrow> reset_clock tid w;
        Some (w\<lparr>tw_sync := upd_thread tid (\<lambda>thr. thr\<lparr>st_inited := True\<rparr>) (tw_sync w)\<rparr>) })"

text \<open>\<open>thr\<close> is used although the thread may not have started; then the code dereferences a null pointer.\<close>

definition ctx_OnFinished :: "thread_base \<Rightarrow> thread_world \<Rightarrow> thread_world option" where
  "ctx_OnFinished t w =
     (let tid = tb_tid t in
      if \<not> tctx_thr (tw_ctx w tid) then None
      else do {
        w \<leftarrow> (if \<not> tb_detached t
             then do { (c, s) \<leftarrow> release_to tid (tctx_sync (tw_ctx w tid)) (increment_epoch tid (tw_sync w));
                       Some (upd_tctx tid (\<lambda>x. x\<lparr>tctx_sync := c\<rparr>) (w\<lparr>tw_sync := s\<rparr>)) }
             else Some w);
        let w = upd_tctx tid (\<lambda>x. x\<lparr>epoch1 := thread_epoch tid (tw_sync w)\<rparr>) w;
        w \<leftarrow> in_sync (\<lambda>s. do {
               (c, h) \<leftarrow> ResetCached (st_clock (sw_threads s tid)) (mm_clocks (sw_map s));
               (k, h) \<leftarrow> ResetCached (st_sleep_clock (sw_threads s tid)) h;
               Some ((upd_thread tid (\<lambda>thr. thr\<lparr>st_clock := c, st_sleep_clock := k\<rparr>) s)\<lparr>sw_map := (sw_map s)\<lparr>mm_clocks := h\<rparr>\<rparr>) }) w;
        Some (upd_tctx tid (\<lambda>x. x\<lparr>tctx_thr := False\<rparr>) w) })"

definition tsan_callbacks :: "thread_env \<Rightarrow> (nat option \<times> u64, started_args, nat, thread_world) context_callbacks" where
  "tsan_callbacks env = \<lparr>context_factory = CreateThreadContext, OnDead = ctx_OnDead, OnJoined = ctx_OnJoined,
     OnFinished = ctx_OnFinished, OnStarted = ctx_OnStarted env, OnCreated = ctx_OnCreated env, OnReset = ctx_OnReset,
     OnDetached = ctx_OnDetached\<rparr>"

section \<open>Threads\<close>

type_synonym threads = "registry \<times> thread_world"

definition kThreadQuarantineSize :: nat where "kThreadQuarantineSize = 16"
definition kMaxTidReuse :: u32 where "kMaxTidReuse = 2 ^ 22 - 1"

definition new_registry :: registry where
  "new_registry = ThreadRegistry_new kMaxTid kThreadQuarantineSize kMaxTidReuse"

definition ThreadCount :: "threads \<Rightarrow> int" where
  "ThreadCount s = int (snd (snd (GetNumberOfThreads (fst s))))"

definition ThreadCreate :: "thread_env \<Rightarrow> nat option \<Rightarrow> u64 \<Rightarrow> u64 \<Rightarrow> bool \<Rightarrow> threads \<Rightarrow> (nat \<times> threads) option" where
  "ThreadCreate env thr pc uid detached s =
     (let parent_tid = (case thr of Some t \<Rightarrow> of_nat t | None \<Rightarrow> of_nat kInvalidTid) in
      CreateThread (tsan_callbacks env) uid detached parent_tid (thr, pc) s)"

definition range_write :: "thread_env \<Rightarrow> nat \<Rightarrow> u64 \<Rightarrow> u64 \<Rightarrow> u64 \<Rightarrow> sync_world \<Rightarrow> sync_world option" where
  "range_write env t pc addr sz =
     access t (\<lambda>s. case MemoryRangeImitateWrite (se_access (te_sync env)) pc addr sz s of Inl e \<Rightarrow> Inl e | Inr s \<Rightarrow> Inr (s, []))"

text \<open>\<open>thr_beg\<close>: the address of the \<open>ThreadState\<close>\<close>

definition ImitateTlsWrite :: "thread_env \<Rightarrow> nat \<Rightarrow> u64 \<Rightarrow> u64 \<Rightarrow> u64 \<Rightarrow> sync_world \<Rightarrow> sync_world option" where
  "ImitateTlsWrite env t thr_beg tls_addr tls_size w =
     (let thr_end = thr_beg + te_sizeof_state env in
      if \<not> thr_beg \<ge> tls_addr \<or> \<not> thr_beg \<le> tls_addr + tls_size \<or> \<not> thr_end \<ge> tls_addr \<or> \<not> thr_end \<le> tls_addr + tls_size
      then None
      else do { w \<leftarrow> range_write env t 2 tls_addr (thr_beg - tls_addr) w;
                range_write env t 2 thr_end (tls_addr + tls_size - thr_end) w })"

text \<open>\<open>ThreadIgnoreBegin(thr, pc)\<close>, \<open>ThreadIgnoreEnd(thr, pc)\<close> and \<open>ThreadIgnoreSyncBegin(thr, pc)\<close>\<close>

definition on_state :: "nat \<Rightarrow> (thread_state \<Rightarrow> access_stop + thread_state) \<Rightarrow> sync_world \<Rightarrow> sync_world option" where
  "on_state t f = access t (\<lambda>(ts, d, sh). case f ts of Inl e \<Rightarrow> Inl e | Inr ts \<Rightarrow> Inr ((ts, d, sh), []))"

definition ignore_begin :: "thread_env \<Rightarrow> nat \<Rightarrow> u64 \<Rightarrow> thread_world \<Rightarrow> thread_world option" where
  "ignore_begin env t pc =
     in_sync (\<lambda>s. on_state t (ThreadIgnoreBegin (se_access (te_sync env)) (CurrentStackId (te_sync env) t pc s) True) s)"

definition ignore_sync_begin :: "thread_env \<Rightarrow> nat \<Rightarrow> u64 \<Rightarrow> thread_world \<Rightarrow> thread_world option" where
  "ignore_sync_begin env t pc =
     in_sync (\<lambda>s. on_state t (ThreadIgnoreSyncBegin (se_access (te_sync env)) (CurrentStackId (te_sync env) t pc s) True) s)"

definition ignore_end :: "nat \<Rightarrow> thread_world \<Rightarrow> thread_world option" where
  "ignore_end t = in_sync (on_state t ThreadIgnoreEnd)"

text \<open>\<open>mem\<close> and \<open>thr_beg\<close>: the memory and the address of the new \<open>ThreadState\<close>; \<open>area\<close>: what \<open>GetThreadStackAndTls\<close> finds.\<close>

definition ThreadStart ::
  "thread_env \<Rightarrow> sync_thread \<Rightarrow> u64 \<Rightarrow> started_args \<Rightarrow> nat \<Rightarrow> u64 \<Rightarrow> thread_type \<Rightarrow> threads \<Rightarrow> threads option" where
  "ThreadStart env mem thr_beg area tid os_id typ = (\<lambda>(r, w).
     let args = (if typ \<noteq> Fiber then area else \<lparr>sa_stk_addr = 0, sa_stk_size = 0, sa_tls_addr = 0, sa_tls_size = 0\<rparr>);
         w = w\<lparr>tw_sync := upd_thread tid (\<lambda>_. mem) (tw_sync w)\<rparr>
     in do {
       w \<leftarrow> (if tid \<noteq> 0
            then in_sync (\<lambda>s. do {
                   s \<leftarrow> (if sa_stk_addr args \<noteq> 0 \<and> sa_stk_size args \<noteq> 0
                        then range_write env tid 1 (sa_stk_addr args) (sa_stk_size args) s else Some s);
                   if sa_tls_addr args \<noteq> 0 \<and> sa_tls_size args \<noteq> 0
                   then ImitateTlsWrite env tid thr_beg (sa_tls_addr args) (sa_tls_size args) s else Some s }) w
            else Some w);
       (r, w) \<leftarrow> StartThread (tsan_callbacks env) tid os_id typ args (r, w);
       w \<leftarrow> (if e_after_fork (se_access (te_sync env))
            then do { w \<leftarrow> ignore_begin env tid 0 w; ignore_sync_begin env tid 0 w } else Some w);
       Some (r, w) })"

text \<open>A thread that ends with ignores enabled is reported, and the process dies.\<close>

definition ThreadCheckIgnore :: "thread_env \<Rightarrow> nat \<Rightarrow> thread_world \<Rightarrow> bool" where
  "ThreadCheckIgnore env t w \<longleftrightarrow>
     e_after_fork (se_access (te_sync env)) \<or>
     (ignore_reads_and_writes (st_state (sw_threads (tw_sync w) t)) = 0 \<and> ignore_sync (st_state (sw_threads (tw_sync w) t)) = 0)"

text \<open>\<open>ReleaseMemoryPagesToOS\<close> of the shadow: the pages given back to the system then read as zero.\<close>

definition release_shadow_pages :: "u64 \<Rightarrow> u64 \<Rightarrow> u64 \<Rightarrow> shadow \<Rightarrow> shadow option" where
  "release_shadow_pages page_size beg fin sh =
     do { beg_aligned \<leftarrow> RoundUpTo beg page_size;
          let end_aligned = RoundDownTo fin page_size;
          Some (if beg_aligned < end_aligned then (\<lambda>a. if beg_aligned \<le> a \<and> a < end_aligned then 0 else sh a) else sh) }"

definition DontNeedShadowFor :: "thread_env \<Rightarrow> u64 \<Rightarrow> u64 \<Rightarrow> sync_world \<Rightarrow> sync_world option" where
  "DontNeedShadowFor env addr sz w =
     do { sh \<leftarrow> release_shadow_pages (e_page_size (se_access (te_sync env))) (MemToShadow addr) (MemToShadow (addr + sz)) (sw_shadow w); Some (w\<lparr>sw_shadow := sh\<rparr>) }"

definition ThreadFinish :: "thread_env \<Rightarrow> nat \<Rightarrow> threads \<Rightarrow> threads option" where
  "ThreadFinish env t = (\<lambda>(r, w).
     if \<not> ThreadCheckIgnore env t w then None
     else (let f = tw_frame w t in do {
       w \<leftarrow> in_sync (\<lambda>s. do {
              s \<leftarrow> (if fr_stk_addr f \<noteq> 0 \<and> fr_stk_size f \<noteq> 0 then DontNeedShadowFor env (fr_stk_addr f) (fr_stk_size f) s else Some s);
              if fr_tls_addr f \<noteq> 0 \<and> fr_tls_size f \<noteq> 0 then DontNeedShadowFor env (fr_tls_addr f) (fr_tls_size f) s else Some s }) w;
       FinishThread (tsan_callbacks env) t (r, upd_frame t (\<lambda>f. f\<lparr>is_dead := True\<rparr>) w) }))"

section \<open>Joining and detaching\<close>

text \<open>The thread found so far is the state of the search. A second one with the same id: the process dies.\<close>

definition ConsumeThreadByUid :: "u64 \<Rightarrow> thread_base \<times> nat option \<Rightarrow> (bool \<times> thread_base \<times> nat option) option" where
  "ConsumeThreadByUid uid = (\<lambda>(t, found).
     if tb_user_id t = uid \<and> tb_status t \<noteq> ThreadStatusInvalid
     then if found \<noteq> None then None else Some (False, t\<lparr>tb_user_id := 0\<rparr>, Some (tb_tid t))
     else Some (False, t, found))"

definition ThreadConsumeTid :: "u64 \<Rightarrow> registry \<Rightarrow> (nat option \<times> registry) option" where
  "ThreadConsumeTid uid r =
     do { (_, r, found) \<leftarrow> FindThread (ConsumeThreadByUid uid) [0..<n_contexts r] (r, None); Some (found, r) }"

text \<open>\<open>None\<close> as the thread's number is \<open>kUnknownTid\<close>, which is negative.\<close>

definition check_tid :: "nat option \<Rightarrow> nat option" where
  "check_tid tid = (case tid of Some t \<Rightarrow> if t > 0 \<and> t < kMaxTid then Some t else None | None \<Rightarrow> None)"

definition ThreadJoin :: "thread_env \<Rightarrow> nat \<Rightarrow> nat option \<Rightarrow> (threads \<Rightarrow> threads) list \<Rightarrow> threads \<Rightarrow> (bool \<times> threads) option" where
  "ThreadJoin env thr tid others s = do { tid \<leftarrow> check_tid tid; JoinThread (tsan_callbacks env) tid thr others s }"

definition ThreadDetach :: "thread_env \<Rightarrow> nat \<Rightarrow> nat option \<Rightarrow> threads \<Rightarrow> (bool \<times> threads) option" where
  "ThreadDetach env thr tid s = do { tid \<leftarrow> check_tid tid; DetachThread (tsan_callbacks env) tid thr s }"

definition ThreadNotJoined :: "nat option \<Rightarrow> u64 \<Rightarrow> registry \<Rightarrow> registry option" where
  "ThreadNotJoined tid uid r = do { tid \<leftarrow> check_tid tid; SetThreadUserId tid uid r }"

definition ThreadSetName :: "nat \<Rightarrow> string option \<Rightarrow> registry \<Rightarrow> registry option" where
  "ThreadSetName thr name r = SetThreadName thr name r"

text \<open>
  The functions of the C library: \<open>res\<close> is what the library's own function returns, \<open>meanwhile\<close> what other threads do while
  it blocks.
\<close>

definition pthread_join ::
  "thread_env \<Rightarrow> nat \<Rightarrow> u64 \<Rightarrow> u64 \<Rightarrow> (threads \<Rightarrow> threads) \<Rightarrow> (threads \<Rightarrow> threads) list \<Rightarrow> bool \<Rightarrow> threads \<Rightarrow> threads option" where
  "pthread_join env thr pc th meanwhile others res = (\<lambda>(r, w).
     do { (tid, r) \<leftarrow> ThreadConsumeTid th r;
          w \<leftarrow> ignore_begin env thr pc w;
          let (r, w) = meanwhile (r, w);
          w \<leftarrow> ignore_end thr w;
          if res then map_option snd (ThreadJoin env thr tid others (r, w)) else Some (r, w) })"

definition pthread_detach :: "thread_env \<Rightarrow> nat \<Rightarrow> u64 \<Rightarrow> bool \<Rightarrow> threads \<Rightarrow> threads option" where
  "pthread_detach env thr th res = (\<lambda>(r, w).
     do { (tid, r) \<leftarrow> ThreadConsumeTid th r;
          if res then map_option snd (ThreadDetach env thr tid (r, w)) else Some (r, w) })"

definition pthread_tryjoin_np ::
  "thread_env \<Rightarrow> nat \<Rightarrow> u64 \<Rightarrow> u64 \<Rightarrow> (threads \<Rightarrow> threads) \<Rightarrow> (threads \<Rightarrow> threads) list \<Rightarrow> bool \<Rightarrow> threads \<Rightarrow> threads option" where
  "pthread_tryjoin_np env thr pc th meanwhile others res = (\<lambda>(r, w).
     do { (tid, r) \<leftarrow> ThreadConsumeTid th r;
          w \<leftarrow> ignore_begin env thr pc w;
          let (r, w) = meanwhile (r, w);
          w \<leftarrow> ignore_end thr w;
          if res then map_option snd (ThreadJoin env thr tid others (r, w))
          else do { r \<leftarrow> ThreadNotJoined tid th r; Some (r, w) } })"

section \<open>Fork\<close>

definition ForkBefore :: "thread_env \<Rightarrow> nat \<Rightarrow> u64 \<Rightarrow> threads \<Rightarrow> threads option" where
  "ForkBefore env thr pc = (\<lambda>(r, w). do { w \<leftarrow> ignore_begin env thr pc w; Some (r, w) })"

definition ForkParentAfter :: "nat \<Rightarrow> threads \<Rightarrow> threads option" where
  "ForkParentAfter thr = (\<lambda>(r, w). do { w \<leftarrow> ignore_end thr w; Some (r, w) })"

text \<open>The result is the new value of \<open>after_multithreaded_fork\<close>, which the ignores are begun under.\<close>

definition set_after_fork :: "thread_env \<Rightarrow> thread_env" where
  "set_after_fork env = env\<lparr>te_sync := (te_sync env)\<lparr>se_access := (se_access (te_sync env))\<lparr>e_after_fork := True\<rparr>\<rparr>\<rparr>"

definition ForkChildAfter :: "thread_env \<Rightarrow> nat \<Rightarrow> u64 \<Rightarrow> threads \<Rightarrow> (thread_env \<times> threads) option" where
  "ForkChildAfter env thr pc = (\<lambda>(r, w).
     do { w \<leftarrow> ignore_end thr w;
          if ThreadCount (r, w) = 1 then Some (env, r, w)
          else (let env = set_after_fork env in
                do { w \<leftarrow> ignore_begin env thr pc w; w \<leftarrow> ignore_sync_begin env thr pc w; Some (env, r, w) }) })"

section \<open>The end of the program\<close>

text \<open>Threads that were neither joined nor detached, counted by the stack that created them.\<close>

fun count_leak :: "nat \<Rightarrow> u32 \<Rightarrow> (nat \<times> u32 \<times> int) list \<Rightarrow> (nat \<times> u32 \<times> int) list" where
  "count_leak tid stack [] = [(tid, stack, 1)]"
| "count_leak tid stack ((t, s, n) # leaks) = (if s = stack then (t, s, n + 1) # leaks else (t, s, n) # count_leak tid stack leaks)"

definition MaybeReportThreadLeak :: "thread_world \<Rightarrow> thread_base \<Rightarrow> (nat \<times> u32 \<times> int) list \<Rightarrow> (nat \<times> u32 \<times> int) list option" where
  "MaybeReportThreadLeak w t leaks =
     Some (if tb_detached t \<or> tb_status t \<noteq> ThreadStatusFinished then leaks
           else count_leak (tb_tid t) (creation_stack_id (tw_ctx w (tb_tid t))) leaks)"

text \<open>The leaks that are reported.\<close>

definition ThreadFinalize :: "thread_env \<Rightarrow> nat \<Rightarrow> threads \<Rightarrow> (nat \<times> u32 \<times> int) list option" where
  "ThreadFinalize env t = (\<lambda>(r, w).
     if \<not> ThreadCheckIgnore env t w then None
     else if \<not> report_thread_leaks env then Some []
     else each_thread (MaybeReportThreadLeak w) (rg_threads r) [])"

text \<open>\<open>AcquireGlobal\<close> and \<open>AfterSleep\<close> go over the contexts of the registry.\<close>

definition registry_view :: "threads \<Rightarrow> (nat \<times> bool \<times> u64) list" where
  "registry_view s =
     map (\<lambda>t. (tb_tid t, tb_status t = ThreadStatusRunning, epoch1 (tw_ctx (snd s) (tb_tid t)))) (rg_threads (fst s))"

definition over_registry :: "(sync_world \<Rightarrow> sync_world option) \<Rightarrow> threads \<Rightarrow> threads option" where
  "over_registry f s =
     do { w \<leftarrow> in_sync (\<lambda>x. f (x\<lparr>sw_registry := registry_view s\<rparr>)) (snd s); Some (fst s, w) }"

section \<open>Fibers\<close>

definition ProcWire :: "nat \<Rightarrow> nat \<Rightarrow> thread_world \<Rightarrow> thread_world option" where
  "ProcWire p t w =
     (if proc1 (tw_frame w t) \<noteq> None \<or> tw_procs w p \<noteq> None then None
      else Some ((upd_frame t (\<lambda>f. f\<lparr>proc1 := Some p\<rparr>) w)\<lparr>tw_procs := (tw_procs w)(p := Some t)\<rparr>))"

definition ProcUnwire :: "nat \<Rightarrow> nat \<Rightarrow> thread_world \<Rightarrow> thread_world option" where
  "ProcUnwire p t w =
     (if proc1 (tw_frame w t) \<noteq> Some p \<or> tw_procs w p \<noteq> Some t then None
      else Some ((upd_frame t (\<lambda>f. f\<lparr>proc1 := None\<rparr>) w)\<lparr>tw_procs := (tw_procs w)(p := None)\<rparr>))"

definition FiberSwitchImpl :: "nat \<Rightarrow> nat \<Rightarrow> thread_world \<Rightarrow> thread_world option" where
  "FiberSwitchImpl fr to w =
     do { p \<leftarrow> proc1 (tw_frame w fr);
          w \<leftarrow> ProcUnwire p fr w;
          w \<leftarrow> ProcWire p to w;
          Some (w\<lparr>tw_cur := to\<rparr>) }"

text \<open>\<open>zeroed\<close>: a \<open>ThreadState\<close> of zero bytes\<close>

definition FiberCreate :: "thread_env \<Rightarrow> sync_thread \<Rightarrow> nat \<Rightarrow> u64 \<Rightarrow> threads \<Rightarrow> (nat \<times> threads) option" where
  "FiberCreate env zeroed thr pc s =
     do { (tid, r, w) \<leftarrow> ThreadCreate env (Some thr) pc 0 True s;
          let w = upd_frame tid (\<lambda>_. \<lparr>fr_stk_addr = 0, fr_stk_size = 0, fr_tls_addr = 0, fr_tls_size = 0, is_dead = False, proc1 = None\<rparr>) w;
          w \<leftarrow> FiberSwitchImpl thr tid w;
          (r, w) \<leftarrow> ThreadStart env zeroed 0 \<lparr>sa_stk_addr = 0, sa_stk_size = 0, sa_tls_addr = 0, sa_tls_size = 0\<rparr> tid 0 Fiber (r, w);
          w \<leftarrow> FiberSwitchImpl tid thr w;
          Some (tid, r, w) }"

definition FiberDestroy :: "thread_env \<Rightarrow> nat \<Rightarrow> nat \<Rightarrow> threads \<Rightarrow> threads option" where
  "FiberDestroy env thr fiber = (\<lambda>(r, w).
     do { w \<leftarrow> FiberSwitchImpl thr fiber w;
          (r, w) \<leftarrow> ThreadFinish env fiber (r, w);
          w \<leftarrow> FiberSwitchImpl fiber thr w;
          Some (r, w) })"

text \<open>\<open>addr\<close>: the address of the fiber's \<open>ThreadState\<close>, over which the two synchronise\<close>

definition FiberSwitch :: "thread_env \<Rightarrow> nat \<Rightarrow> u64 \<Rightarrow> nat \<Rightarrow> u64 \<Rightarrow> bool \<Rightarrow> thread_world \<Rightarrow> thread_world option" where
  "FiberSwitch env thr pc fiber addr no_sync w =
     do { w \<leftarrow> (if \<not> no_sync then in_sync (Release (te_sync env) thr pc addr) w else Some w);
          w \<leftarrow> FiberSwitchImpl thr fiber w;
          if \<not> no_sync then in_sync (Acquire fiber addr) w else Some w }"

end
