(* ===== verification/ThreadLife.thy ===== *)
theory ThreadLife
  imports ThreadRegistry
begin

text \<open>
  The invariant of the thread registry, the life of a context, and the quarantine of thread numbers,
  for any callbacks.
\<close>

lemma guardE: "(if c then None else x) = Some y \<Longrightarrow> (\<not> c \<Longrightarrow> x = Some y \<Longrightarrow> P) \<Longrightarrow> P"
  by (simp split: if_splits)

section \<open>Counting contexts\<close>

definition number :: "(thread_base \<Rightarrow> bool) \<Rightarrow> thread_base list \<Rightarrow> nat" where
  "number P ts = length (filter P ts)"

lemma number_upd: "i < length ts \<Longrightarrow> number P (ts[i := t]) + of_bool (P (ts ! i)) = number P ts + of_bool (P t)"
proof (induction ts arbitrary: i)
  case (Cons x ts)
  then show ?case by (cases i) (auto simp: number_def)
qed simp

lemma number_pos: "i < length ts \<Longrightarrow> P (ts ! i) \<Longrightarrow> 0 < number P ts"
  by (auto simp: number_def filter_empty_conv)

lemma number_snoc [simp]: "number P (ts @ [t]) = number P ts + of_bool (P t)"
  by (simp add: number_def)

lemma number_le: "number P ts \<le> length ts"
  by (simp add: number_def)

section \<open>The invariant\<close>

definition alive :: "thread_base \<Rightarrow> bool" where
  "alive t \<longleftrightarrow> tb_status t = ThreadStatusCreated \<or> tb_status t = ThreadStatusRunning"

definition running :: "thread_base \<Rightarrow> bool" where
  "running t \<longleftrightarrow> tb_status t = ThreadStatusRunning"

definition context_ok :: "thread_base \<Rightarrow> bool" where
  "context_ok t \<longleftrightarrow> (tb_destroyed t \<longleftrightarrow> tb_status t = ThreadStatusFinished \<or> tb_status t = ThreadStatusDead) \<and>
     (tb_status t = ThreadStatusFinished \<longrightarrow> \<not> tb_detached t)"

text \<open>\<open>D\<close>: dead threads on their way to the quarantine; \<open>B\<close>: contexts that an operation is working on.\<close>

definition reg_inv :: "nat set \<Rightarrow> nat set \<Rightarrow> registry \<Rightarrow> bool" where
  "reg_inv D B r \<longleftrightarrow>
     (\<forall>i < n_contexts r. tb_tid (rg_threads r ! i) = i \<and> (i \<notin> B \<longrightarrow> context_ok (rg_threads r ! i))) \<and>
     distinct (dead_threads r) \<and> set (dead_threads r) = {i. 0 < i \<and> i < n_contexts r \<and> status_of r i = ThreadStatusDead} - D \<and>
     distinct (invalid_threads r) \<and> set (invalid_threads r) \<subseteq> {i. 0 < i \<and> i < n_contexts r \<and> status_of r i = ThreadStatusInvalid} \<and>
     length (dead_threads r) \<le> thread_quarantine_size r \<and> 0 < thread_quarantine_size r \<and> n_contexts r \<le> max_threads r \<and>
     alive_threads r = number alive (rg_threads r) \<and> running_threads r = number running (rg_threads r) \<and>
     alive_threads r \<le> max_alive_threads r"

definition registry_ok :: "registry \<Rightarrow> bool" where
  "registry_ok r \<longleftrightarrow> reg_inv {} {} r"

lemma new_ok: "0 < quarantine \<Longrightarrow> registry_ok (ThreadRegistry_new mx quarantine reuse)"
  by (simp add: registry_ok_def reg_inv_def ThreadRegistry_new_def number_def)

section \<open>The contexts' methods\<close>

lemma SetDead_base: "SetDead cb (t, w) = Some (t', w') \<Longrightarrow> t' = t\<lparr>tb_status := ThreadStatusDead, tb_user_id := 0\<rparr> \<and>
    (tb_status t = ThreadStatusRunning \<or> tb_status t = ThreadStatusFinished)"
  by (auto simp: SetDead_def Let_def split: if_splits bind_splits)

lemma SetJoined_base: "SetJoined cb arg (t, w) = Some (t', w') \<Longrightarrow> t' = t\<lparr>tb_status := ThreadStatusDead, tb_user_id := 0\<rparr> \<and>
    tb_status t = ThreadStatusFinished \<and> \<not> tb_detached t"
  by (auto simp: SetJoined_def Let_def split: if_splits bind_splits)

lemma SetFinished_base: "SetFinished cb (t, w) = Some (t', w') \<Longrightarrow>
    t' = (if \<not> tb_detached t \<or> tb_status t = ThreadStatusCreated then t\<lparr>tb_status := ThreadStatusFinished\<rparr> else t)"
  by (auto simp: SetFinished_def Let_def split: if_splits bind_splits)

lemma SetStarted_base: "SetStarted cb os typ arg (t, w) = Some (t', w') \<Longrightarrow> t' = t\<lparr>tb_status := ThreadStatusRunning, tb_os_id := os, tb_type := typ\<rparr>"
  by (auto simp: SetStarted_def Let_def split: bind_splits)

lemma SetCreated_base: "SetCreated cb user uid det parent arg (t, w) = Some (t', w') \<Longrightarrow>
    tb_status t' = ThreadStatusCreated \<and> tb_detached t' = det \<and> tb_unique_id t' = uid \<and> tb_user_id t' = user \<and> tb_tid t' = tb_tid t \<and>
    tb_destroyed t' = tb_destroyed t \<and> tb_reuse_count t' = tb_reuse_count t"
  by (auto simp: SetCreated_def Let_def split: if_splits bind_splits)

lemma ctx_Reset_base: "ctx_Reset cb (t, w) = Some (t', w') \<Longrightarrow>
    tb_status t' = ThreadStatusInvalid \<and> \<not> tb_destroyed t' \<and> tb_tid t' = tb_tid t \<and> tb_reuse_count t' = tb_reuse_count t"
  by (auto simp: ctx_Reset_def Let_def ctx_SetName_def split: bind_splits)

lemma on_ctxE:
  assumes "on_ctx tid f (r, w) = Some (r', w')"
  obtains t where "tid < n_contexts r" "f (rg_threads r ! tid, w) = Some (t, w')" "r' = r\<lparr>rg_threads := (rg_threads r)[tid := t]\<rparr>"
  using assms by (auto simp: on_ctx_def split: if_splits bind_splits)

text \<open>One context changes; the counters and the lists do not.\<close>

lemma status_set: "i < n_contexts r \<Longrightarrow> status_of (r\<lparr>rg_threads := (rg_threads r)[tid := t]\<rparr>) i = (if i = tid then tb_status t else status_of r i)"
  by (simp add: status_of_def nth_list_update)

lemma upd_ctx_sel [simp]: "rg_threads (upd_ctx tid f r) = (rg_threads r)[tid := f (rg_threads r ! tid)]"
  "dead_threads (upd_ctx tid f r) = dead_threads r" "invalid_threads (upd_ctx tid f r) = invalid_threads r"
  "alive_threads (upd_ctx tid f r) = alive_threads r" "running_threads (upd_ctx tid f r) = running_threads r"
  "max_threads (upd_ctx tid f r) = max_threads r" "thread_quarantine_size (upd_ctx tid f r) = thread_quarantine_size r"
  "max_alive_threads (upd_ctx tid f r) = max_alive_threads r" "total_threads (upd_ctx tid f r) = total_threads r"
  "max_reuse (upd_ctx tid f r) = max_reuse r"
  by (simp_all add: upd_ctx_def)

section \<open>The quarantine\<close>

text \<open>A dead thread goes in; when the quarantine is full, the one that has been there longest comes out.\<close>

lemma push_effect:
  assumes push: "QuarantinePush cb tid (r, w) = Some (r', w')" and inv: "reg_inv {tid} B r" and tid: "tid < n_contexts r"
    and dead: "status_of r tid = ThreadStatusDead"
  shows "reg_inv {} B r' \<and> alive_threads r' = alive_threads r \<and> rg_threads r' ! tid = rg_threads r ! tid \<and> n_contexts r' = n_contexts r \<and>
    (\<forall>i < n_contexts r. status_of r' i = status_of r i \<or>
       (status_of r i = ThreadStatusDead \<and> status_of r' i = ThreadStatusInvalid \<and> i = hd (dead_threads r) \<and>
        length (dead_threads r) = thread_quarantine_size r)) \<and>
    dead_threads r' = (if tid = 0 then dead_threads r
      else if length (dead_threads r) < thread_quarantine_size r then dead_threads r @ [tid] else tl (dead_threads r) @ [tid])"
proof (cases "tid = 0")
  case True
  then have "r' = r" using push by (simp add: QuarantinePush_def)
  then show ?thesis using inv True by (auto simp: reg_inv_def)
next
  case False
  show ?thesis
  proof (cases "length (dead_threads r) < thread_quarantine_size r")
    case True
    then have "r' = r\<lparr>dead_threads := dead_threads r @ [tid]\<rparr>" using push False by (simp add: QuarantinePush_def Let_def)
    then show ?thesis using inv True False tid dead by (auto simp: reg_inv_def status_of_def)
  next
    case full: False
    then have len: "length (dead_threads r) = thread_quarantine_size r" "dead_threads r \<noteq> []" using inv by (auto simp: reg_inv_def)
    then obtain x xs where x: "dead_threads r = x # xs" by (cases "dead_threads r") auto
    have xd: "x \<noteq> tid" "0 < x" "x < n_contexts r" "status_of r x = ThreadStatusDead" "x \<notin> set xs" "distinct xs"
      using inv x by (auto simp: reg_inv_def)
    let ?r = "r\<lparr>dead_threads := xs @ [tid]\<rparr>"
    obtain t w1 where t: "ctx_Reset cb (rg_threads r ! x, w) = Some (t, w1)"
      and r': "r' = (let r = upd_ctx x (\<lambda>t. t\<lparr>tb_reuse_count := tb_reuse_count t + 1\<rparr>) (?r\<lparr>rg_threads := (rg_threads r)[x := t]\<rparr>) in
        if max_reuse r > 0 \<and> tb_reuse_count (rg_threads r ! x) \<ge> max_reuse r then r else r\<lparr>invalid_threads := invalid_threads r @ [x]\<rparr>)"
      using push False full x len xd(3,4)
      by (auto simp: QuarantinePush_def Let_def status_of_def split: if_splits bind_splits elim!: on_ctxE)
    let ?t = "t\<lparr>tb_reuse_count := tb_reuse_count t + 1\<rparr>"
    have thr: "rg_threads r' = (rg_threads r)[x := ?t]" using r' xd(3) by (simp add: Let_def split: if_splits)
    note b = ctx_Reset_base [OF t]
    have st: "status_of r' i = (if i = x then ThreadStatusInvalid else status_of r i)" if "i < n_contexts r" for i
      using b thr that by (simp add: status_of_def nth_list_update)
    have dd: "dead_threads r' = xs @ [tid]" "invalid_threads r' = invalid_threads r \<or> invalid_threads r' = invalid_threads r @ [x]"
      using r' by (auto simp: Let_def split: if_splits)
    have cnt: "number alive (rg_threads r') = number alive (rg_threads r)" "number running (rg_threads r') = number running (rg_threads r)"
      using number_upd [OF xd(3), of alive ?t] number_upd [OF xd(3), of running ?t] b xd(4) thr
      by (simp_all add: alive_def running_def status_of_def)
    have rest: "alive_threads r' = alive_threads r" "running_threads r' = running_threads r" "max_threads r' = max_threads r"
        "max_alive_threads r' = max_alive_threads r" "thread_quarantine_size r' = thread_quarantine_size r" "n_contexts r' = n_contexts r"
      using r' by (auto simp: Let_def split: if_splits)
    have xi: "x \<notin> set (invalid_threads r)" using inv xd(4) by (auto simp: reg_inv_def)
    have co: "context_ok ?t" using b by (simp add: context_ok_def)
    have e: "rg_threads r' ! i = (if i = x then ?t else rg_threads r ! i)" if "i < n_contexts r" for i
      using thr that by (simp add: nth_list_update)
    have "\<forall>i < n_contexts r'. tb_tid (rg_threads r' ! i) = i \<and> (i \<notin> B \<longrightarrow> context_ok (rg_threads r' ! i))"
      using inv e b co rest(6) by (auto simp: reg_inv_def)
    moreover have "set (dead_threads r') = {i. 0 < i \<and> i < n_contexts r' \<and> status_of r' i = ThreadStatusDead}"
    proof (rule set_eqI)
      fix j
      have "j \<in> set (dead_threads r) \<longleftrightarrow> 0 < j \<and> j < n_contexts r \<and> status_of r j = ThreadStatusDead \<and> j \<noteq> tid"
        using inv by (simp add: reg_inv_def)
      then have "j = x \<or> j \<in> set xs \<longleftrightarrow> 0 < j \<and> j < n_contexts r \<and> status_of r j = ThreadStatusDead \<and> j \<noteq> tid"
        by (simp add: x)
      then show "j \<in> set (dead_threads r') \<longleftrightarrow> j \<in> {i. 0 < i \<and> i < n_contexts r' \<and> status_of r' i = ThreadStatusDead}"
        using st [of j] xd(1,5) False tid dead rest(6) by (cases "j < n_contexts r") (auto simp: dd(1))
    qed
    moreover have "distinct (dead_threads r')" using inv x dd(1) by (auto simp: reg_inv_def)
    moreover have "distinct (invalid_threads r')" using inv dd(2) xi by (auto simp: reg_inv_def)
    moreover have "set (invalid_threads r') \<subseteq> {i. 0 < i \<and> i < n_contexts r' \<and> status_of r' i = ThreadStatusInvalid}"
    proof (rule subsetI)
      fix j
      assume "j \<in> set (invalid_threads r')"
      then have "j = x \<or> j \<in> set (invalid_threads r)" using dd(2) by auto
      then have "0 < j \<and> j < n_contexts r \<and> (j = x \<or> status_of r j = ThreadStatusInvalid)"
        using inv xd(2,3) by (auto simp: reg_inv_def)
      then show "j \<in> {i. 0 < i \<and> i < n_contexts r' \<and> status_of r' i = ThreadStatusInvalid}" using st [of j] rest(6) by auto
    qed
    moreover have "length (dead_threads r') \<le> thread_quarantine_size r'" using dd(1) x len rest(5) by simp
    moreover have "0 < thread_quarantine_size r'" "n_contexts r' \<le> max_threads r'" "alive_threads r' = number alive (rg_threads r')"
        "running_threads r' = number running (rg_threads r')" "alive_threads r' \<le> max_alive_threads r'"
      using inv rest cnt by (simp_all add: reg_inv_def)
    ultimately have "reg_inv {} B r'" unfolding reg_inv_def Diff_empty by blast
    moreover have "rg_threads r' ! tid = rg_threads r ! tid" using e [OF tid] xd(1) by simp
    moreover have "\<forall>i < n_contexts r. status_of r' i = status_of r i \<or>
       (status_of r i = ThreadStatusDead \<and> status_of r' i = ThreadStatusInvalid \<and> i = hd (dead_threads r) \<and>
        length (dead_threads r) = thread_quarantine_size r)"
      using st xd len x by simp
    ultimately show ?thesis using False full x dd(1) rest(1,6) by simp
  qed
qed

section \<open>Operations on one context\<close>

lemma set_ctx:
  assumes inv: "reg_inv {} B r" and tid: "tid < n_contexts r" "tb_tid t = tid" "status_of r tid \<noteq> ThreadStatusDead"
    and out: "tid \<notin> set (invalid_threads r)"
    and r': "rg_threads r' = (rg_threads r)[tid := t]" "dead_threads r' = dead_threads r" "invalid_threads r' = invalid_threads r"
      "max_threads r' = max_threads r" "thread_quarantine_size r' = thread_quarantine_size r"
    and cnt: "alive_threads r' + of_bool (alive (rg_threads r ! tid)) = alive_threads r + of_bool (alive t)"
      "running_threads r' + of_bool (running (rg_threads r ! tid)) = running_threads r + of_bool (running t)"
      "alive_threads r' \<le> max_alive_threads r'"
  shows "reg_inv (if tb_status t = ThreadStatusDead then {tid} else {}) (insert tid B) r'"
proof -
  have st: "status_of r' i = (if i = tid then tb_status t else status_of r i)" if "i < n_contexts r" for i
    using r'(1) that by (simp add: status_of_def nth_list_update)
  have n: "n_contexts r' = n_contexts r" using r'(1) by simp
  have c: "alive_threads r' = number alive (rg_threads r')" "running_threads r' = number running (rg_threads r')"
    using number_upd [OF tid(1), of alive t] number_upd [OF tid(1), of running t] cnt inv r'(1) by (simp_all add: reg_inv_def)
  have d: "j \<in> set (dead_threads r) \<longleftrightarrow> 0 < j \<and> j < n_contexts r \<and> status_of r j = ThreadStatusDead"
    and v: "j \<in> set (invalid_threads r) \<Longrightarrow> 0 < j \<and> j < n_contexts r \<and> status_of r j = ThreadStatusInvalid" for j
    using inv by (auto simp: reg_inv_def)
  have "set (dead_threads r') = {i. 0 < i \<and> i < n_contexts r' \<and> status_of r' i = ThreadStatusDead} -
      (if tb_status t = ThreadStatusDead then {tid} else {})"
  proof (rule set_eqI)
    fix j
    show "j \<in> set (dead_threads r') \<longleftrightarrow> j \<in> {i. 0 < i \<and> i < n_contexts r' \<and> status_of r' i = ThreadStatusDead} -
      (if tb_status t = ThreadStatusDead then {tid} else {})"
      using d [of j] st [of j] tid(3) n r'(2) by (cases "j < n_contexts r") auto
  qed
  moreover have "set (invalid_threads r') \<subseteq> {i. 0 < i \<and> i < n_contexts r' \<and> status_of r' i = ThreadStatusInvalid}"
  proof (rule subsetI)
    fix j
    assume "j \<in> set (invalid_threads r')"
    then show "j \<in> {i. 0 < i \<and> i < n_contexts r' \<and> status_of r' i = ThreadStatusInvalid}"
      using v [of j] st [of j] out r'(3) n by auto
  qed
  moreover have "\<forall>i < n_contexts r'. tb_tid (rg_threads r' ! i) = i \<and> (i \<notin> insert tid B \<longrightarrow> context_ok (rg_threads r' ! i))"
    using inv tid r'(1) by (simp add: reg_inv_def nth_list_update)
  ultimately show ?thesis using inv n r'(2-5) c cnt(3) unfolding reg_inv_def by auto
qed

lemma reg_inv_ok: "reg_inv D (insert tid B) r \<Longrightarrow> context_ok (rg_threads r ! tid) \<Longrightarrow> reg_inv D B r"
  by (auto simp: reg_inv_def)

lemma reg_inv_less: "reg_inv D B r \<Longrightarrow> B \<subseteq> B' \<Longrightarrow> reg_inv D B' r"
  by (auto simp: reg_inv_def)

text \<open>The life of all numbers; a number that was never given away is invalid.\<close>

definition life :: "registry \<Rightarrow> nat \<Rightarrow> thread_status" where
  "life r i = (if i < n_contexts r then status_of r i else ThreadStatusInvalid)"

text \<open>One thread takes a step, and the quarantine may give one number back.\<close>

definition life_step :: "nat \<Rightarrow> thread_status \<Rightarrow> registry \<Rightarrow> registry \<Rightarrow> bool" where
  "life_step tid s r r' \<longleftrightarrow> life r' tid = s \<and>
     (\<forall>i. i \<noteq> tid \<longrightarrow> life r' i = life r i \<or>
       (life r i = ThreadStatusDead \<and> life r' i = ThreadStatusInvalid \<and> i = hd (dead_threads r) \<and>
        length (dead_threads r) = thread_quarantine_size r))"

lemma registry_fields:
  assumes "registry_ok r" "tid < n_contexts r" "status_of r tid \<noteq> ThreadStatusInvalid"
  shows "tid \<notin> set (invalid_threads r)" "tb_tid (rg_threads r ! tid) = tid" "context_ok (rg_threads r ! tid)"
  using assms by (auto simp: registry_ok_def reg_inv_def)

lemma set_life:
  assumes "rg_threads r' = (rg_threads r)[tid := t]" "tid < n_contexts r"
  shows "life_step tid (tb_status t) r r'"
  using assms by (auto simp: life_step_def life_def status_of_def nth_list_update)

subsection \<open>Creation and start\<close>

lemma take_tid_effect:
  assumes "take_tid cb (r, w) = Some (tid, r1, w1)" "registry_ok r"
  shows "registry_ok r1 \<and> tid < n_contexts r1 \<and> status_of r1 tid = ThreadStatusInvalid \<and> tid \<notin> set (invalid_threads r1) \<and> life r1 = life r \<and>
    dead_threads r1 = dead_threads r \<and> thread_quarantine_size r1 = thread_quarantine_size r \<and> tid < max_threads r1 \<and>
    alive_threads r1 = alive_threads r \<and> running_threads r1 = running_threads r \<and> total_threads r1 = total_threads r"
proof (cases "invalid_threads r")
  case (Cons x xs)
  then have "r1 = r\<lparr>invalid_threads := xs\<rparr>" "tid = x" using assms(1) by (simp_all add: take_tid_def QuarantinePop_def)
  then show ?thesis using assms(2) Cons by (auto simp: registry_ok_def reg_inv_def status_of_def life_def fun_eq_iff)
next
  case Nil
  then have n: "n_contexts r < max_threads r" "tid = n_contexts r"
      "r1 = r\<lparr>rg_threads := rg_threads r @ [ThreadContextBase_new (n_contexts r)]\<rparr>"
    using assms(1) by (auto simp: take_tid_def QuarantinePop_def split: if_splits bind_splits)
  let ?t = "ThreadContextBase_new (n_contexts r)"
  have t: "tb_status ?t = ThreadStatusInvalid" "tb_tid ?t = n_contexts r" "context_ok ?t" "\<not> alive ?t" "\<not> running ?t"
    by (simp_all add: ThreadContextBase_new_def context_ok_def alive_def running_def)
  have a: "rg_threads r1 ! i = (if i = n_contexts r then ?t else rg_threads r ! i)" if "i < Suc (n_contexts r)" for i
    using that by (simp add: n(3) nth_append)
  have st: "status_of r1 i = (if i = n_contexts r then ThreadStatusInvalid else status_of r i)" if "i < Suc (n_contexts r)" for i
    using a [OF that] t(1) by (simp add: status_of_def)
  have d: "j \<in> set (dead_threads r) \<longleftrightarrow> 0 < j \<and> j < n_contexts r \<and> status_of r j = ThreadStatusDead" for j
    using assms(2) by (auto simp: registry_ok_def reg_inv_def)
  have "\<forall>i < n_contexts r1. tb_tid (rg_threads r1 ! i) = i \<and> context_ok (rg_threads r1 ! i)"
    using assms(2) a t(2,3) by (auto simp: registry_ok_def reg_inv_def n(3) less_Suc_eq)
  moreover have "set (dead_threads r1) = {i. 0 < i \<and> i < n_contexts r1 \<and> status_of r1 i = ThreadStatusDead}"
  proof (rule set_eqI)
    fix j
    show "j \<in> set (dead_threads r1) \<longleftrightarrow> j \<in> {i. 0 < i \<and> i < n_contexts r1 \<and> status_of r1 i = ThreadStatusDead}"
      using d [of j] st [of j] n(3) by (cases "j < Suc (n_contexts r)") auto
  qed
  moreover have "invalid_threads r1 = []" "dead_threads r1 = dead_threads r" "thread_quarantine_size r1 = thread_quarantine_size r"
    using n(3) Nil by simp_all
  ultimately have "registry_ok r1"
    using assms(2) n t(4,5) by (simp add: registry_ok_def reg_inv_def)
  moreover have "life r1 = life r" using st n(3) by (auto simp: life_def fun_eq_iff)
  ultimately show ?thesis using n st Nil by simp
qed

text \<open>The parts of \<open>CreateThread\<close>: a number, the counters, and the context.\<close>

lemma create_parts:
  assumes "CreateThread cb user det parent arg (r, w) = Some (tid, r', w')"
  obtains r1 w1 r2 where "take_tid cb (r, w) = Some (tid, r1, w1)"
    and "r2 = (let a = r1\<lparr>alive_threads := alive_threads r1 + 1\<rparr> in
      if max_alive_threads r1 < alive_threads r1 + 1 then a\<lparr>max_alive_threads := max_alive_threads r1 + 1\<rparr> else a)"
    and "on_ctx tid (SetCreated cb user (total_threads r2) det parent arg) (r2\<lparr>total_threads := total_threads r2 + 1\<rparr>, w1) = Some (r', w')"
proof -
  obtain tid1 r1 w1 r2 r3 w2 where t1: "take_tid cb (r, w) = Some (tid1, r1, w1)"
    and r2: "(if max_alive_threads (r1\<lparr>alive_threads := alive_threads r1 + 1\<rparr>) < alive_threads (r1\<lparr>alive_threads := alive_threads r1 + 1\<rparr>)
        then (let r = (r1\<lparr>alive_threads := alive_threads r1 + 1\<rparr>)\<lparr>max_alive_threads := max_alive_threads (r1\<lparr>alive_threads := alive_threads r1 + 1\<rparr>) + 1\<rparr> in
              if alive_threads r = max_alive_threads r then Some r else None)
        else Some (r1\<lparr>alive_threads := alive_threads r1 + 1\<rparr>)) = Some r2"
    and r3: "on_ctx tid1 (SetCreated cb user (total_threads r2) det parent arg) (r2\<lparr>total_threads := total_threads r2 + 1\<rparr>, w1) = Some (r3, w2)"
    and fin: "Some (tid1, r3, w2) = Some (tid, r', w')"
    using assms(1) unfolding CreateThread_def by (elim bindE3 guardE letE bindE2 bindE) (rule that)
  show ?thesis
  proof (rule that)
    show "take_tid cb (r, w) = Some (tid, r1, w1)" using t1 fin by simp
    show "r2 = (let a = r1\<lparr>alive_threads := alive_threads r1 + 1\<rparr> in
      if max_alive_threads r1 < alive_threads r1 + 1 then a\<lparr>max_alive_threads := max_alive_threads r1 + 1\<rparr> else a)"
      using r2 by (auto simp: Let_def split: if_splits)
    show "on_ctx tid (SetCreated cb user (total_threads r2) det parent arg) (r2\<lparr>total_threads := total_threads r2 + 1\<rparr>, w1) = Some (r', w')"
      using r3 fin by simp
  qed
qed

lemma create_effect:
  assumes "CreateThread cb user det parent arg (r, w) = Some (tid, r', w')" "registry_ok r"
  shows "registry_ok r' \<and> life r tid = ThreadStatusInvalid \<and> life_step tid ThreadStatusCreated r r' \<and>
    tb_detached (rg_threads r' ! tid) = det \<and> tid < n_contexts r' \<and> dead_threads r' = dead_threads r \<and> alive_threads r' = alive_threads r + 1 \<and>
    tb_unique_id (rg_threads r' ! tid) = total_threads r \<and> total_threads r' = total_threads r + 1"
proof -
  obtain r1 w1 r2 where t: "take_tid cb (r, w) = Some (tid, r1, w1)"
    and r2: "r2 = (let a = r1\<lparr>alive_threads := alive_threads r1 + 1\<rparr> in
      if max_alive_threads r1 < alive_threads r1 + 1 then a\<lparr>max_alive_threads := max_alive_threads r1 + 1\<rparr> else a)"
    and c: "on_ctx tid (SetCreated cb user (total_threads r2) det parent arg) (r2\<lparr>total_threads := total_threads r2 + 1\<rparr>, w1) = Some (r', w')"
    using assms(1) by (rule create_parts)
  note e = take_tid_effect [OF t assms(2)]
  let ?a = "r1\<lparr>alive_threads := alive_threads r1 + 1\<rparr>"
  let ?m = "if max_alive_threads r1 < alive_threads r1 + 1 then ?a\<lparr>max_alive_threads := max_alive_threads r1 + 1\<rparr> else ?a"
  have m: "r2 = ?m" using r2 by (simp add: Let_def)
  obtain x where x: "SetCreated cb user (total_threads r2) det parent arg (rg_threads r1 ! tid, w1) = Some (x, w')"
    and r': "r' = ?m\<lparr>total_threads := total_threads r1 + 1, rg_threads := (rg_threads r1)[tid := x]\<rparr>"
    using c by (rule on_ctxE) (auto simp: m split: if_splits)
  note b = SetCreated_base [OF x]
  have ok1: "tb_tid (rg_threads r1 ! tid) = tid" "context_ok (rg_threads r1 ! tid)" "tb_status (rg_threads r1 ! tid) = ThreadStatusInvalid"
    using e by (auto simp: registry_ok_def reg_inv_def status_of_def)
  have "reg_inv (if tb_status x = ThreadStatusDead then {tid} else {}) (insert tid {}) r'"
    by (rule set_ctx [of _ r1]) (use e b ok1 r' in \<open>auto simp: registry_ok_def alive_def running_def status_of_def reg_inv_def\<close>)
  then have "reg_inv {} {tid} r'" using b by simp
  moreover have "context_ok (rg_threads r' ! tid)" using ok1 b r' e by (simp add: context_ok_def)
  ultimately have "registry_ok r'" unfolding registry_ok_def by (rule reg_inv_ok)
  moreover have "life_step tid ThreadStatusCreated r1 r'" using set_life [of r' r1 tid x] r' b e by simp
  then have "life_step tid ThreadStatusCreated r r'" using e by (simp add: life_step_def)
  moreover have "life r tid = ThreadStatusInvalid" using e by (metis life_def)
  ultimately show ?thesis using e b r' m by (simp split: if_splits)
qed

lemma start_effect:
  assumes "StartThread cb tid os typ arg (r, w) = Some (r', w')" "registry_ok r"
  shows "registry_ok r' \<and> life r tid = ThreadStatusCreated \<and> life_step tid ThreadStatusRunning r r' \<and> dead_threads r' = dead_threads r \<and>
    running_threads r' = running_threads r + 1 \<and> alive_threads r' = alive_threads r"
proof -
  let ?r = "r\<lparr>running_threads := running_threads r + 1\<rparr>"
  obtain x where tid: "tid < n_contexts r" "status_of r tid = ThreadStatusCreated"
    and x: "SetStarted cb os typ arg (rg_threads r ! tid, w) = Some (x, w')" and r': "r' = ?r\<lparr>rg_threads := (rg_threads r)[tid := x]\<rparr>"
    using assms(1) by (auto simp: StartThread_def Let_def status_of_def split: if_splits elim!: on_ctxE)
  note b = SetStarted_base [OF x] and f = registry_fields [OF assms(2) tid(1)]
  have "reg_inv (if tb_status x = ThreadStatusDead then {tid} else {}) (insert tid {}) r'"
    by (rule set_ctx [of _ r]) (use assms(2) b tid f r' in \<open>auto simp: registry_ok_def alive_def running_def status_of_def reg_inv_def\<close>)
  then have "reg_inv {} {tid} r'" using b by simp
  moreover have "context_ok (rg_threads r' ! tid)" using f(3) tid b r' by (simp add: context_ok_def status_of_def)
  ultimately have "registry_ok r'" unfolding registry_ok_def by (rule reg_inv_ok)
  then show ?thesis using set_life [of r' r tid x] r' b tid by (simp add: life_def)
qed

subsection \<open>The end of a thread\<close>

lemma reg_inv_flag:
  assumes "reg_inv D B r" "tid \<in> B" "tb_tid (f (rg_threads r ! tid)) = tb_tid (rg_threads r ! tid)"
    and "tb_status (f (rg_threads r ! tid)) = tb_status (rg_threads r ! tid)"
  shows "reg_inv D B (upd_ctx tid f r)"
proof (cases "tid < n_contexts r")
  case True
  have st: "status_of (upd_ctx tid f r) i = status_of r i" for i
    using assms(4) True by (cases "i = tid") (simp_all add: status_of_def)
  have n: "number P ((rg_threads r)[tid := f (rg_threads r ! tid)]) = number P (rg_threads r)" if "P (f (rg_threads r ! tid)) = P (rg_threads r ! tid)" for P
    using number_upd [OF True, of P "f (rg_threads r ! tid)"] that by simp
  have "number alive (rg_threads (upd_ctx tid f r)) = number alive (rg_threads r)"
      "number running (rg_threads (upd_ctx tid f r)) = number running (rg_threads r)"
    using n [of alive] n [of running] assms(4) by (simp_all add: alive_def running_def)
  moreover have "\<forall>i < n_contexts (upd_ctx tid f r). tb_tid (rg_threads (upd_ctx tid f r) ! i) = i \<and>
      (i \<notin> B \<longrightarrow> context_ok (rg_threads (upd_ctx tid f r) ! i))"
    using assms(1-3) True by (simp add: reg_inv_def nth_list_update)
  ultimately show ?thesis using assms(1) unfolding reg_inv_def st by (simp add: status_of_def)
next
  case False
  then have "upd_ctx tid f r = r" by (simp add: upd_ctx_def list_update_beyond)
  then show ?thesis using assms(1) by simp
qed

text \<open>A context that has become dead, or finished, is pushed and marked.\<close>

lemma mark_effect:
  assumes inv: "reg_inv {} {tid} r" and tid: "tid < n_contexts r" and fin: "tb_status (rg_threads r ! tid) = ThreadStatusDead \<or>
      tb_status (rg_threads r ! tid) = ThreadStatusFinished \<and> \<not> tb_detached (rg_threads r ! tid)"
  shows "registry_ok (upd_ctx tid SetDestroyed r)"
proof -
  have "reg_inv {} {tid} (upd_ctx tid SetDestroyed r)" using inv by (rule reg_inv_flag) (simp_all add: SetDestroyed_def)
  moreover have "context_ok (rg_threads (upd_ctx tid SetDestroyed r) ! tid)"
    using tid fin by (auto simp: context_ok_def SetDestroyed_def)
  ultimately show ?thesis unfolding registry_ok_def by (rule reg_inv_ok)
qed

text \<open>What pushing a thread that has just died does to the registry \<open>r\<close> from before.\<close>

lemma died_effect:
  assumes push: "QuarantinePush cb tid (r1, w) = Some (r', w')" and inv: "reg_inv {tid} B r1" and tid: "tid < n_contexts r"
    and r1: "rg_threads r1 = (rg_threads r)[tid := t]" "tb_status t = ThreadStatusDead" "dead_threads r1 = dead_threads r"
      "thread_quarantine_size r1 = thread_quarantine_size r"
  shows "reg_inv {} B r' \<and> alive_threads r' = alive_threads r1 \<and> n_contexts r' = n_contexts r \<and> rg_threads r' ! tid = t \<and> life_step tid ThreadStatusDead r r' \<and>
    dead_threads r' = (if tid = 0 then dead_threads r
      else if length (dead_threads r) < thread_quarantine_size r then dead_threads r @ [tid] else tl (dead_threads r) @ [tid])"
proof -
  have n: "n_contexts r1 = n_contexts r" "tid < n_contexts r1" "status_of r1 tid = ThreadStatusDead"
    using r1 tid by (simp_all add: status_of_def)
  note p = push_effect [OF push inv n(2,3), unfolded r1(3,4) n(1)]
  have "life_step tid ThreadStatusDead r r'"
    unfolding life_step_def
  proof (intro conjI allI impI)
    show "life r' tid = ThreadStatusDead" using p tid r1(1,2) by (simp add: life_def status_of_def)
    fix i
    assume "i \<noteq> tid"
    then have "i < n_contexts r \<Longrightarrow> status_of r1 i = status_of r i" using r1(1) by (simp add: status_of_def)
    then show "life r' i = life r i \<or> life r i = ThreadStatusDead \<and> life r' i = ThreadStatusInvalid \<and>
        i = hd (dead_threads r) \<and> length (dead_threads r) = thread_quarantine_size r"
      using p by (auto simp: life_def)
  qed
  moreover have "rg_threads r' ! tid = t" using p tid r1(1) by simp
  ultimately show ?thesis using p by simp
qed

text \<open>The parts of \<open>FinishThread\<close>: the counters, the end of the context, its death, and the mark.\<close>

lemma finish_parts:
  assumes "FinishThread cb tid (r, w) = Some (r', w')"
  obtains dead r2 r3 w3 r5 where "tid < n_contexts r" "0 < alive_threads r"
    and "status_of r tid = ThreadStatusRunning \<or> status_of r tid = ThreadStatusCreated"
    and "dead \<longleftrightarrow> tb_detached (rg_threads r ! tid) \<or> status_of r tid = ThreadStatusCreated"
    and "r2 = r\<lparr>alive_threads := alive_threads r - 1, running_threads := running_threads r - of_bool (running (rg_threads r ! tid))\<rparr>"
    and "on_ctx tid (SetFinished cb) (r2, w) = Some (r3, w3)"
    and "(if dead then do { s \<leftarrow> on_ctx tid (SetDead cb) (r3, w3); QuarantinePush cb tid s } else Some (r3, w3)) = Some (r5, w')"
    and "r' = upd_ctx tid SetDestroyed r5"
proof -
  let ?r1 = "r\<lparr>alive_threads := alive_threads r - 1\<rparr>"
  obtain dead r2 s3 r5 w5 where tid: "\<not> (\<not> alive_threads r > 0 \<or> \<not> tid < n_contexts r)"
    and r2: "(if status_of ?r1 tid = ThreadStatusRunning
        then if running_threads ?r1 > 0 then Some (tb_detached (rg_threads ?r1 ! tid), ?r1\<lparr>running_threads := running_threads ?r1 - 1\<rparr>) else None
        else if status_of ?r1 tid = ThreadStatusCreated then Some (True, ?r1) else None) = Some (dead, r2)"
    and s3: "on_ctx tid (SetFinished cb) (r2, w) = Some s3"
    and r5: "(if dead then do { s \<leftarrow> on_ctx tid (SetDead cb) s3; QuarantinePush cb tid s } else Some s3) = Some (r5, w5)"
    and fin: "Some (upd_ctx tid SetDestroyed r5, w5) = Some (r', w')"
    using assms(1) unfolding FinishThread_def prod.case by (elim guardE letE bindE2 bindE) (rule that)
  obtain r3 w3 where s3': "s3 = (r3, w3)" by (cases s3)
  show ?thesis
  proof (rule that)
    show "tid < n_contexts r" "0 < alive_threads r" using tid by simp_all
    show "status_of r tid = ThreadStatusRunning \<or> status_of r tid = ThreadStatusCreated"
      and "dead \<longleftrightarrow> tb_detached (rg_threads r ! tid) \<or> status_of r tid = ThreadStatusCreated"
      and "r2 = r\<lparr>alive_threads := alive_threads r - 1, running_threads := running_threads r - of_bool (running (rg_threads r ! tid))\<rparr>"
      using r2 by (auto simp: status_of_def running_def split: if_splits)
    show "on_ctx tid (SetFinished cb) (r2, w) = Some (r3, w3)" using s3 s3' by simp
    show "(if dead then do { s \<leftarrow> on_ctx tid (SetDead cb) (r3, w3); QuarantinePush cb tid s } else Some (r3, w3)) = Some (r5, w')"
      using r5 [unfolded s3'] fin by simp
    show "r' = upd_ctx tid SetDestroyed r5" using fin by simp
  qed
qed

lemma finish_effect:
  assumes "FinishThread cb tid (r, w) = Some (r', w')" "registry_ok r"
  shows "registry_ok r' \<and> (life r tid = ThreadStatusRunning \<or> life r tid = ThreadStatusCreated) \<and> alive_threads r' + 1 = alive_threads r \<and>
    (if life r tid = ThreadStatusRunning \<and> \<not> tb_detached (rg_threads r ! tid)
     then life_step tid ThreadStatusFinished r r' \<and> dead_threads r' = dead_threads r
     else life_step tid ThreadStatusDead r r' \<and> dead_threads r' = (if tid = 0 then dead_threads r
      else if length (dead_threads r) < thread_quarantine_size r then dead_threads r @ [tid] else tl (dead_threads r) @ [tid]))"
proof -
  let ?t = "rg_threads r ! tid" and ?r1 = "r\<lparr>alive_threads := alive_threads r - 1\<rparr>"
  obtain dead r2 r3 w3 r5 where n: "tid < n_contexts r" and al: "0 < alive_threads r"
    and st: "status_of r tid = ThreadStatusRunning \<or> status_of r tid = ThreadStatusCreated"
    and dead: "dead \<longleftrightarrow> tb_detached ?t \<or> status_of r tid = ThreadStatusCreated"
    and r2': "r2 = r\<lparr>alive_threads := alive_threads r - 1, running_threads := running_threads r - of_bool (running ?t)\<rparr>"
    and s3: "on_ctx tid (SetFinished cb) (r2, w) = Some (r3, w3)"
    and r5: "(if dead then do { s \<leftarrow> on_ctx tid (SetDead cb) (r3, w3); QuarantinePush cb tid s } else Some (r3, w3)) = Some (r5, w')"
    and fin: "r' = upd_ctx tid SetDestroyed r5"
    using assms(1) by (rule finish_parts)
  let ?t1 = "if dead \<and> status_of r tid = ThreadStatusRunning then ?t else ?t\<lparr>tb_status := ThreadStatusFinished\<rparr>"
  have r3: "r3 = r2\<lparr>rg_threads := (rg_threads r)[tid := ?t1]\<rparr>"
    using s3 by (rule on_ctxE) (use SetFinished_base [of cb] st dead r2' in \<open>fastforce simp: status_of_def\<close>)
  note f = registry_fields [OF assms(2) n]
  have nv: "status_of r tid \<noteq> ThreadStatusInvalid" using st by auto
  have pos: "0 < alive_threads r" "alive ?t" "of_bool (running ?t) \<le> running_threads r" "alive_threads r \<le> max_alive_threads r"
    using al st number_pos [OF n, of running] assms(2) by (auto simp: alive_def status_of_def registry_ok_def reg_inv_def)
  show ?thesis
  proof (cases dead)
    case False
    then have r5': "r5 = r3" using r5 by simp
    have t1: "?t1 = ?t\<lparr>tb_status := ThreadStatusFinished\<rparr>" "\<not> tb_detached ?t" "status_of r tid = ThreadStatusRunning"
      using False dead st by auto
    have "reg_inv (if tb_status ?t1 = ThreadStatusDead then {tid} else {}) (insert tid {}) r5"
      by (rule set_ctx [of _ r]) (use False assms(2) n f nv st pos r2' in \<open>auto simp: r5' r3 t1 registry_ok_def alive_def running_def\<close>)
    then have "reg_inv {} {tid} r5" using False by simp
    moreover have r': "r' = upd_ctx tid SetDestroyed r5" and x: "rg_threads r5 = (rg_threads r)[tid := ?t\<lparr>tb_status := ThreadStatusFinished\<rparr>]"
      using fin False by (simp_all add: r5' r3)
    ultimately have "registry_ok r'" using mark_effect [of tid r5] n t1(2) by simp
    moreover have "life_step tid ThreadStatusFinished r r'"
      using set_life [of r' r tid "SetDestroyed (?t\<lparr>tb_status := ThreadStatusFinished\<rparr>)"] n by (simp add: r' x SetDestroyed_def)
    ultimately show ?thesis using st n pos(1) t1(2,3) by (simp add: life_def r') (simp add: r5' r3 r2')
  next
    case True
    then obtain r4 w4 where r4: "on_ctx tid (SetDead cb) (r3, w3) = Some (r4, w4)" and push: "QuarantinePush cb tid (r4, w4) = Some (r5, w')"
      using r5 by (auto split: bind_splits)
    let ?t2 = "?t1\<lparr>tb_status := ThreadStatusDead, tb_user_id := 0\<rparr>"
    have r4': "r4 = r2\<lparr>rg_threads := (rg_threads r)[tid := ?t2]\<rparr>"
      using r4 by (rule on_ctxE) (use SetDead_base [of cb] n in \<open>fastforce simp: r3\<close>)
    have "reg_inv (if tb_status ?t2 = ThreadStatusDead then {tid} else {}) (insert tid {}) r4"
      by (rule set_ctx [of _ r]) (use assms(2) n f nv st pos r2' in \<open>auto simp: r4' registry_ok_def alive_def running_def\<close>)
    then have "reg_inv {tid} {tid} r4" by simp
    from died_effect [OF push this n, of ?t2] have d: "reg_inv {} {tid} r5" "alive_threads r5 = alive_threads r - 1" "n_contexts r5 = n_contexts r" "rg_threads r5 ! tid = ?t2"
        "life_step tid ThreadStatusDead r r5" "dead_threads r5 = (if tid = 0 then dead_threads r
          else if length (dead_threads r) < thread_quarantine_size r then dead_threads r @ [tid] else tl (dead_threads r) @ [tid])"
      by (simp_all add: r4' r2')
    have r': "r' = upd_ctx tid SetDestroyed r5" using fin by simp
    have "registry_ok r'" unfolding r' using mark_effect [OF d(1)] d(3,4) n by simp
    moreover have "life r' = life r5"
      using d(3) n by (auto simp: r' life_def status_of_def fun_eq_iff nth_list_update SetDestroyed_def)
    then have "life_step tid ThreadStatusDead r r'" using d(5) by (simp add: life_step_def)
    moreover have "alive_threads r5 + 1 = alive_threads r" using d(2) pos(1) by simp
    moreover have "\<not> (life r tid = ThreadStatusRunning \<and> \<not> tb_detached ?t)" using True dead n by (auto simp: life_def)
    ultimately show ?thesis using st n d(6) by (auto simp: r' life_def)
  qed
qed

text \<open>A joinable thread that has finished dies when it is joined or detached.\<close>

lemma die_effect:
  assumes f: "on_ctx tid f (r, w) = Some s" and push: "QuarantinePush cb tid s = Some (r', w')" and ok: "registry_ok r"
    and fin: "status_of r tid = ThreadStatusFinished"
    and base: "\<And>t w t' w'. f (t, w) = Some (t', w') \<Longrightarrow> t' = t\<lparr>tb_status := ThreadStatusDead, tb_user_id := 0\<rparr>"
  shows "registry_ok r' \<and> life_step tid ThreadStatusDead r r' \<and> alive_threads r' = alive_threads r \<and>
    dead_threads r' = (if tid = 0 then dead_threads r
      else if length (dead_threads r) < thread_quarantine_size r then dead_threads r @ [tid] else tl (dead_threads r) @ [tid])"
proof -
  obtain r1 w1 where s: "s = (r1, w1)" by (cases s)
  obtain t where n: "tid < n_contexts r" and t: "f (rg_threads r ! tid, w) = Some (t, w1)" and r1: "r1 = r\<lparr>rg_threads := (rg_threads r)[tid := t]\<rparr>"
    using f unfolding s by (rule on_ctxE)
  note b = base [OF t] and g = registry_fields [OF ok n]
  have "reg_inv (if tb_status t = ThreadStatusDead then {tid} else {}) (insert tid {}) r1"
    by (rule set_ctx [of _ r]) (use ok n g fin b in \<open>auto simp: r1 registry_ok_def reg_inv_def alive_def running_def status_of_def\<close>)
  then have "reg_inv {tid} {tid} r1" using b by simp
  from died_effect [OF push [unfolded s] this n, of t] have d: "reg_inv {} {tid} r'" "alive_threads r' = alive_threads r"
      "rg_threads r' ! tid = t" "life_step tid ThreadStatusDead r r'" "dead_threads r' = (if tid = 0 then dead_threads r
        else if length (dead_threads r) < thread_quarantine_size r then dead_threads r @ [tid] else tl (dead_threads r) @ [tid])"
    using b by (simp_all add: r1)
  have "context_ok t" using g(3) fin b by (simp add: context_ok_def status_of_def)
  then have "registry_ok r'" using reg_inv_ok [OF d(1)] d(3) by (simp add: registry_ok_def)
  then show ?thesis using d by simp
qed

lemma join_effect:
  assumes "join_round cb tid arg (r, w) = Some (res, r', w')" "registry_ok r"
  shows "registry_ok r' \<and> alive_threads r' = alive_threads r \<and>
    (case res of Some True \<Rightarrow> life r tid = ThreadStatusFinished \<and> life_step tid ThreadStatusDead r r' \<and>
         dead_threads r' = (if tid = 0 then dead_threads r
           else if length (dead_threads r) < thread_quarantine_size r then dead_threads r @ [tid] else tl (dead_threads r) @ [tid])
     | Some False \<Rightarrow> life r tid = ThreadStatusInvalid \<and> r' = r \<and> w' = w
     | None \<Rightarrow> (life r tid = ThreadStatusCreated \<or> life r tid = ThreadStatusRunning) \<and> r' = r \<and> w' = w)"
proof -
  have n: "tid < n_contexts r" using assms(1) by (auto simp: join_round_def split: if_splits)
  then have ok: "context_ok (rg_threads r ! tid)" using assms(2) by (auto simp: registry_ok_def reg_inv_def)
  have l: "life r tid = status_of r tid" using n by (simp add: life_def)
  consider "status_of r tid = ThreadStatusInvalid" "res = Some False" "r' = r" "w' = w"
    | "status_of r tid \<noteq> ThreadStatusInvalid" "\<not> tb_destroyed (rg_threads r ! tid)" "res = None" "r' = r" "w' = w"
    | s where "on_ctx tid (SetJoined cb arg) (r, w) = Some s" "QuarantinePush cb tid s = Some (r', w')" "res = Some True"
    using assms(1) n by (auto simp: join_round_def split: if_splits bind_splits)
  then show ?thesis
  proof cases
    case 1
    then show ?thesis using assms(2) l by simp
  next
    case 2
    then show ?thesis using assms(2) l ok by (cases "status_of r tid") (simp_all add: context_ok_def status_of_def)
  next
    case (3 s)
    obtain r1 w1 where s: "s = (r1, w1)" by (cases s)
    have fin: "status_of r tid = ThreadStatusFinished"
      using 3(1) unfolding s by (rule on_ctxE) (use SetJoined_base [of cb arg] in \<open>fastforce simp: status_of_def\<close>)
    have base: "\<And>t w t' w'. SetJoined cb arg (t, w) = Some (t', w') \<Longrightarrow> t' = t\<lparr>tb_status := ThreadStatusDead, tb_user_id := 0\<rparr>"
      by (drule SetJoined_base) simp
    show ?thesis using die_effect [OF 3(1,2) assms(2) fin base] 3(3) fin l by simp
  qed
qed

lemma detach_effect:
  assumes "DetachThread cb tid arg (r, w) = Some (found, r', w')" "registry_ok r"
  shows "registry_ok r' \<and> alive_threads r' = alive_threads r \<and>
    (if life r tid = ThreadStatusFinished
     then life_step tid ThreadStatusDead r r' \<and> dead_threads r' = (if tid = 0 then dead_threads r
       else if length (dead_threads r) < thread_quarantine_size r then dead_threads r @ [tid] else tl (dead_threads r) @ [tid])
     else life r' = life r \<and> dead_threads r' = dead_threads r)"
proof -
  have n: "tid < n_contexts r" using assms(1) by (auto simp: DetachThread_def split: if_splits)
  then have l: "life r tid = status_of r tid" by (simp add: life_def)
  consider "status_of r tid = ThreadStatusInvalid" "r' = r"
    | w1 s where "status_of r tid = ThreadStatusFinished" "on_ctx tid (SetDead cb) (r, w1) = Some s" "QuarantinePush cb tid s = Some (r', w')"
    | "status_of r tid \<noteq> ThreadStatusInvalid" "status_of r tid \<noteq> ThreadStatusFinished" "r' = upd_ctx tid (\<lambda>t. t\<lparr>tb_detached := True\<rparr>) r"
    using assms(1) n by (auto simp: DetachThread_def split: if_splits bind_splits)
  then show ?thesis
  proof cases
    case 1
    then show ?thesis using assms(2) l by simp
  next
    case (2 w1 s)
    have base: "\<And>t w t' w'. SetDead cb (t, w) = Some (t', w') \<Longrightarrow> t' = t\<lparr>tb_status := ThreadStatusDead, tb_user_id := 0\<rparr>"
      by (drule SetDead_base) simp
    show ?thesis using die_effect [OF 2(2,3) assms(2) 2(1) base] 2(1) l by simp
  next
    case 3
    have "reg_inv {} {tid} r" using assms(2) unfolding registry_ok_def by (rule reg_inv_less) simp
    then have "reg_inv {} {tid} r'" unfolding 3 by (rule reg_inv_flag) simp_all
    moreover have "context_ok (rg_threads r' ! tid)"
      using registry_fields(3) [OF assms(2) n 3(1)] 3(2) n by (simp add: 3(3) context_ok_def status_of_def)
    ultimately have "registry_ok r'" unfolding registry_ok_def by (rule reg_inv_ok)
    moreover have "life r' = life r" using n by (auto simp: 3(3) life_def status_of_def nth_list_update fun_eq_iff)
    ultimately show ?thesis using 3 l by simp
  qed
qed

end
