(* ===== verification/ThreadProperties.thy ===== *)
theory ThreadProperties
  imports ThreadLife
begin

text \<open>
  What holds of every sequence of calls of the thread registry, whatever the callbacks do: the counters are right,
  a thread lives its life in order, its number is not used again before the quarantine is over, and a join waits.
\<close>

section \<open>Sequences of calls\<close>

datatype ('c, 's, 'j, 'w) registry_call =
    CreateCall u64 bool u32 'c
  | StartCall nat u64 thread_type 's
  | FinishCall nat
  | DetachCall nat 'j
  | JoinCall nat 'j
  | NameCall nat "string option"
  | NameByUserCall u64 "string option"
  | UserIdCall nat u64
  | Elsewhere "'w \<Rightarrow> 'w"

text \<open>\<open>JoinCall\<close> is one round of a join; \<open>Elsewhere\<close> is what the rest of the runtime does to the callbacks' state.\<close>

definition registry_step :: "('c, 's, 'j, 'w) context_callbacks \<Rightarrow> ('c, 's, 'j, 'w) registry_call \<Rightarrow> registry \<times> 'w \<Rightarrow> (registry \<times> 'w) option" where
  "registry_step cb c s =
     (case c of
        CreateCall user det parent arg \<Rightarrow> map_option snd (CreateThread cb user det parent arg s)
      | StartCall tid os typ arg \<Rightarrow> StartThread cb tid os typ arg s
      | FinishCall tid \<Rightarrow> FinishThread cb tid s
      | DetachCall tid arg \<Rightarrow> map_option snd (DetachThread cb tid arg s)
      | JoinCall tid arg \<Rightarrow> map_option snd (join_round cb tid arg s)
      | NameCall tid name \<Rightarrow> map_option (\<lambda>r. (r, snd s)) (SetThreadName tid name (fst s))
      | NameByUserCall user name \<Rightarrow> Some (SetThreadNameByUserId user name (fst s), snd s)
      | UserIdCall tid user \<Rightarrow> map_option (\<lambda>r. (r, snd s)) (SetThreadUserId tid user (fst s))
      | Elsewhere f \<Rightarrow> Some (fst s, f (snd s)))"

fun registry_run :: "('c, 's, 'j, 'w) context_callbacks \<Rightarrow> ('c, 's, 'j, 'w) registry_call list \<Rightarrow> registry \<times> 'w \<Rightarrow> (registry \<times> 'w) option" where
  "registry_run cb [] s = Some s"
| "registry_run cb (c # cs) s = do { s \<leftarrow> registry_step cb c s; registry_run cb cs s }"

text \<open>How many threads other than the main one die in a run.\<close>

definition newly_dead :: "registry \<Rightarrow> registry \<Rightarrow> nat" where
  "newly_dead r r' = length (filter (\<lambda>i. life r i \<noteq> ThreadStatusDead \<and> life r' i = ThreadStatusDead) [1..<n_contexts r'])"

fun deaths :: "('c, 's, 'j, 'w) context_callbacks \<Rightarrow> ('c, 's, 'j, 'w) registry_call list \<Rightarrow> registry \<times> 'w \<Rightarrow> nat" where
  "deaths cb [] s = 0"
| "deaths cb (c # cs) s =
     (case registry_step cb c s of None \<Rightarrow> 0 | Some s' \<Rightarrow> newly_dead (fst s) (fst s') + deaths cb cs s')"

text \<open>The life of a thread: the steps that a number may take.\<close>

fun next_status :: "thread_status \<Rightarrow> thread_status \<Rightarrow> bool" where
  "next_status ThreadStatusInvalid s = (s = ThreadStatusCreated)"
| "next_status ThreadStatusCreated s = (s = ThreadStatusRunning \<or> s = ThreadStatusDead)"
| "next_status ThreadStatusRunning s = (s = ThreadStatusFinished \<or> s = ThreadStatusDead)"
| "next_status ThreadStatusFinished s = (s = ThreadStatusDead)"
| "next_status ThreadStatusDead s = (s = ThreadStatusInvalid)"

section \<open>One call\<close>

text \<open>The quarantine and the dead threads, in step.\<close>

definition quarantine_step :: "registry \<Rightarrow> registry \<Rightarrow> bool" where
  "quarantine_step r r' \<longleftrightarrow>
     dead_threads r' = dead_threads r \<or>
     (\<exists>tid > 0. life r tid \<noteq> ThreadStatusDead \<and> life r' tid = ThreadStatusDead \<and>
        dead_threads r' = (if length (dead_threads r) < thread_quarantine_size r then dead_threads r @ [tid] else tl (dead_threads r) @ [tid]))"

definition order_ok :: "registry \<Rightarrow> registry \<Rightarrow> bool" where
  "order_ok r r' \<longleftrightarrow> registry_ok r' \<and> quarantine_step r r' \<and> (\<forall>i. life r' i = life r i \<or> next_status (life r i) (life r' i))"

lemma order_ok_same: "registry_ok r' \<Longrightarrow> life r' = life r \<Longrightarrow> dead_threads r' = dead_threads r \<Longrightarrow> order_ok r r'"
  by (simp add: order_ok_def quarantine_step_def)

lemma life_step_next:
  assumes "life_step tid s r r'" "next_status (life r tid) s"
  shows "life r' i = life r i \<or> next_status (life r i) (life r' i)"
proof (cases "i = tid")
  case True
  then show ?thesis using assms by (simp add: life_step_def)
next
  case False
  then show ?thesis using assms(1) unfolding life_step_def by (metis next_status.simps(5))
qed

lemma order_ok_move: "registry_ok r' \<Longrightarrow> life_step tid s r r' \<Longrightarrow> next_status (life r tid) s \<Longrightarrow> dead_threads r' = dead_threads r \<Longrightarrow> order_ok r r'"
  unfolding order_ok_def quarantine_step_def using life_step_next [of tid s r r'] by simp

lemma order_ok_die:
  assumes "registry_ok r'" "life_step tid ThreadStatusDead r r'" "next_status (life r tid) ThreadStatusDead"
    and "dead_threads r' = (if tid = 0 then dead_threads r
      else if length (dead_threads r) < thread_quarantine_size r then dead_threads r @ [tid] else tl (dead_threads r) @ [tid])"
  shows "order_ok r r'"
proof (cases "tid = 0")
  case True
  then show ?thesis using assms by (auto intro: order_ok_move)
next
  case False
  have "life r tid \<noteq> ThreadStatusDead" using assms(3) by (cases "life r tid") simp_all
  then have "quarantine_step r r'" using assms(2,4) False unfolding quarantine_step_def life_step_def by auto
  moreover have "life r' i = life r i \<or> next_status (life r i) (life r' i)" for i
    using assms(2,3) by (rule life_step_next)
  ultimately show ?thesis using assms(1) by (simp add: order_ok_def)
qed

lemma flag_order_ok:
  assumes "registry_ok r" "\<And>t. tb_tid (f t) = tb_tid t \<and> tb_status (f t) = tb_status t \<and> tb_destroyed (f t) = tb_destroyed t \<and> tb_detached (f t) = tb_detached t"
  shows "order_ok r (upd_ctx tid f r)"
proof (cases "tid < n_contexts r")
  case True
  have "reg_inv {} {tid} r" using assms(1) unfolding registry_ok_def by (rule reg_inv_less) simp
  then have "reg_inv {} {tid} (upd_ctx tid f r)" by (rule reg_inv_flag) (simp_all add: assms(2))
  moreover have "context_ok (rg_threads (upd_ctx tid f r) ! tid)"
    using assms True by (simp add: registry_ok_def reg_inv_def context_ok_def)
  ultimately have "registry_ok (upd_ctx tid f r)" unfolding registry_ok_def by (rule reg_inv_ok)
  moreover have "life (upd_ctx tid f r) = life r"
    using assms(2) True by (auto simp: life_def status_of_def nth_list_update fun_eq_iff)
  ultimately show ?thesis by (rule order_ok_same) simp
next
  case False
  then show ?thesis using assms(1) by (simp add: upd_ctx_def list_update_beyond order_ok_same)
qed

lemma call_effect:
  assumes "registry_step cb c (r, w) = Some (r', w')" "registry_ok r"
  shows "order_ok r r'"
proof (cases c)
  case (CreateCall user det parent arg)
  then obtain tid where "CreateThread cb user det parent arg (r, w) = Some (tid, r', w')" using assms(1) by (auto simp: registry_step_def)
  from create_effect [OF this assms(2)] show ?thesis by (auto intro: order_ok_move)
next
  case (StartCall tid os ty arg)
  then have "StartThread cb tid os ty arg (r, w) = Some (r', w')" using assms(1) by (simp add: registry_step_def)
  from start_effect [OF this assms(2)] show ?thesis by (auto intro: order_ok_move)
next
  case (FinishCall tid)
  then have "FinishThread cb tid (r, w) = Some (r', w')" using assms(1) by (simp add: registry_step_def)
  note e = finish_effect [OF this assms(2)]
  show ?thesis
  proof (cases "life r tid = ThreadStatusRunning \<and> \<not> tb_detached (rg_threads r ! tid)")
    case True
    then show ?thesis using e by (auto intro: order_ok_move)
  next
    case False
    then have d: "life_step tid ThreadStatusDead r r'" "dead_threads r' = (if tid = 0 then dead_threads r
      else if length (dead_threads r) < thread_quarantine_size r then dead_threads r @ [tid] else tl (dead_threads r) @ [tid])"
      using e by simp_all
    have "next_status (life r tid) ThreadStatusDead" using e by auto
    then show ?thesis using order_ok_die [OF conjunct1 [OF e] d(1) _ d(2)] by simp
  qed
next
  case (DetachCall tid arg)
  then obtain b where "DetachThread cb tid arg (r, w) = Some (b, r', w')" using assms(1) by (auto simp: registry_step_def)
  note e = detach_effect [OF this assms(2)]
  show ?thesis
  proof (cases "life r tid = ThreadStatusFinished")
    case True
    then show ?thesis using e by (simp add: order_ok_die [of _ tid])
  next
    case False
    then show ?thesis using e by (simp add: order_ok_same)
  qed
next
  case (JoinCall tid arg)
  then obtain b where "join_round cb tid arg (r, w) = Some (b, r', w')" using assms(1) by (auto simp: registry_step_def)
  note e = join_effect [OF this assms(2)]
  show ?thesis
  proof (cases "b = Some True")
    case True
    then show ?thesis using e by (simp add: order_ok_die [of _ tid])
  next
    case False
    then have "r' = r" using e by (auto split: option.splits bool.splits)
    then show ?thesis using assms(2) by (simp add: order_ok_same)
  qed
next
  case (NameCall tid name)
  then have "r' = upd_ctx tid (ctx_SetName name) r" using assms(1) by (auto simp: registry_step_def SetThreadName_def split: if_splits)
  then show ?thesis using flag_order_ok [OF assms(2), of "ctx_SetName name"] by (simp add: ctx_SetName_def)
next
  case (NameByUserCall user name)
  then have "r' = r \<or> (\<exists>tid. r' = upd_ctx tid (ctx_SetName name) r)"
    using assms(1) by (auto simp: registry_step_def SetThreadNameByUserId_def split: option.splits)
  then show ?thesis using flag_order_ok [OF assms(2), of "ctx_SetName name"] order_ok_same [OF assms(2)] by (auto simp: ctx_SetName_def)
next
  case (UserIdCall tid user)
  then have "r' = upd_ctx tid (\<lambda>t. t\<lparr>tb_user_id := user\<rparr>) r" using assms(1) by (auto simp: registry_step_def SetThreadUserId_def split: if_splits)
  then show ?thesis using flag_order_ok [OF assms(2), of "\<lambda>t. t\<lparr>tb_user_id := user\<rparr>"] by simp
next
  case (Elsewhere f)
  then show ?thesis using assms by (simp add: registry_step_def order_ok_same)
qed

section \<open>Runs\<close>

lemma registry_run_ok: "registry_run cb cs (r, w) = Some (r', w') \<Longrightarrow> registry_ok r \<Longrightarrow> registry_ok r'"
proof (induction cs arbitrary: r w)
  case (Cons c cs)
  then obtain r1 w1 where s: "registry_step cb c (r, w) = Some (r1, w1)" "registry_run cb cs (r1, w1) = Some (r', w')"
    by (auto split: bind_splits)
  have "registry_ok r1" using call_effect [OF s(1) Cons.prems(2)] by (simp add: order_ok_def)
  then show ?case by (rule Cons.IH [OF s(2)])
qed simp

text \<open>The quarantine's size never changes.\<close>

lemma on_ctx_quarantine: "on_ctx tid f (r, w) = Some (r', w') \<Longrightarrow> thread_quarantine_size r' = thread_quarantine_size r"
  by (erule on_ctxE) simp

lemma push_quarantine: "QuarantinePush cb tid (r, w) = Some (r', w') \<Longrightarrow> thread_quarantine_size r' = thread_quarantine_size r"
  by (fastforce simp: QuarantinePush_def Let_def split: if_splits bind_splits dest: on_ctx_quarantine)

lemma create_quarantine: "CreateThread cb user det parent arg (r, w) = Some (tid, r', w') \<Longrightarrow> thread_quarantine_size r' = thread_quarantine_size r"
  by (fastforce simp: CreateThread_def take_tid_def QuarantinePop_def Let_def split: if_splits bind_splits list.splits dest: on_ctx_quarantine)

lemma finish_quarantine: "FinishThread cb tid (r, w) = Some (r', w') \<Longrightarrow> thread_quarantine_size r' = thread_quarantine_size r"
  by (fastforce simp: FinishThread_def Let_def split: if_splits bind_splits dest: on_ctx_quarantine push_quarantine)

lemma step_quarantine:
  assumes "registry_step cb c (r, w) = Some (r', w')"
  shows "thread_quarantine_size r' = thread_quarantine_size r"
proof (cases c)
  case (StartCall tid os ty arg)
  then have "StartThread cb tid os ty arg (r, w) = Some (r', w')" using assms by (simp add: registry_step_def)
  then show ?thesis by (auto simp: StartThread_def Let_def split: if_splits dest: on_ctx_quarantine)
next
  case (DetachCall tid arg)
  then obtain b where "DetachThread cb tid arg (r, w) = Some (b, r', w')" using assms by (auto simp: registry_step_def)
  then show ?thesis by (fastforce simp: DetachThread_def split: if_splits bind_splits dest: on_ctx_quarantine push_quarantine)
next
  case (JoinCall tid arg)
  then obtain b where "join_round cb tid arg (r, w) = Some (b, r', w')" using assms by (auto simp: registry_step_def)
  then show ?thesis by (fastforce simp: join_round_def split: if_splits bind_splits dest: on_ctx_quarantine push_quarantine)
qed (use assms in \<open>auto simp: registry_step_def SetThreadName_def SetThreadNameByUserId_def SetThreadUserId_def
  split: if_splits option.splits dest: create_quarantine finish_quarantine\<close>)

lemma run_quarantine: "registry_run cb cs (r, w) = Some (r', w') \<Longrightarrow> thread_quarantine_size r' = thread_quarantine_size r"
proof (induction cs arbitrary: r w)
  case (Cons c cs)
  then obtain r1 w1 where s: "registry_step cb c (r, w) = Some (r1, w1)" "registry_run cb cs (r1, w1) = Some (r', w')"
    by (auto split: bind_splits)
  then show ?case using Cons.IH [OF s(2)] step_quarantine [OF s(1)] by simp
qed simp

section \<open>The quarantine\<close>

lemma dead_listed: "registry_ok r \<Longrightarrow> i \<in> set (dead_threads r) \<longleftrightarrow> 0 < i \<and> life r i = ThreadStatusDead"
  by (auto simp: registry_ok_def reg_inv_def life_def)

lemma newly_dead_pos: "0 < i \<Longrightarrow> life r i \<noteq> ThreadStatusDead \<Longrightarrow> life r' i = ThreadStatusDead \<Longrightarrow> 0 < newly_dead r r'"
  by (auto simp: newly_dead_def filter_empty_conv life_def split: if_splits intro!: bexI [of _ i])

text \<open>The thread at place \<open>p\<close> of the quarantine has as many deaths left as there are threads before it and free places.\<close>

lemma quarantine_holds:
  "registry_run cb cs (r, w) = Some (r', w') \<Longrightarrow> registry_ok r \<Longrightarrow> p < length (dead_threads r) \<Longrightarrow> dead_threads r ! p = tid \<Longrightarrow>
   deaths cb cs (r, w) \<le> p + (thread_quarantine_size r - length (dead_threads r)) \<Longrightarrow> tid \<in> set (dead_threads r')"
proof (induction cs arbitrary: r w p)
  case (Cons c cs)
  then obtain r1 w1 where s: "registry_step cb c (r, w) = Some (r1, w1)" "registry_run cb cs (r1, w1) = Some (r', w')"
    by (auto split: bind_splits)
  have e: "registry_ok r1" "quarantine_step r r1" using call_effect [OF s(1) Cons.prems(2)] by (simp_all add: order_ok_def)
  note q = step_quarantine [OF s(1)] and IH = Cons.IH [OF s(2) e(1)]
  have d: "newly_dead r r1 + deaths cb cs (r1, w1) \<le> p + (thread_quarantine_size r - length (dead_threads r))"
    using Cons.prems(5) s(1) by simp
  show ?case
  proof (cases "dead_threads r1 = dead_threads r")
    case True
    then show ?thesis using IH [of p] Cons.prems(3,4) d q by simp
  next
    case False
    then obtain x where x: "0 < newly_dead r r1" and dd: "dead_threads r1 =
        (if length (dead_threads r) < thread_quarantine_size r then dead_threads r @ [x] else tl (dead_threads r) @ [x])"
      using e(2) newly_dead_pos unfolding quarantine_step_def by blast
    show ?thesis
    proof (cases "length (dead_threads r) < thread_quarantine_size r")
      case True
      then show ?thesis using IH [of p] Cons.prems(3,4) d q x dd by (simp add: nth_append)
    next
      case full: False
      then obtain m where "p = Suc m" using d x by (cases p) auto
      moreover obtain y ys where "dead_threads r = y # ys" using Cons.prems(3) by (cases "dead_threads r") auto
      ultimately show ?thesis using IH [of m] Cons.prems(3,4) d q x dd full by (simp add: nth_append)
    qed
  qed
qed (auto simp: in_set_conv_nth)

lemma died_last:
  assumes "quarantine_step r r1" "registry_ok r" "registry_ok r1" "0 < tid" "life r tid \<noteq> ThreadStatusDead" "life r1 tid = ThreadStatusDead"
  shows "dead_threads r1 \<noteq> [] \<and> last (dead_threads r1) = tid"
proof -
  have "tid \<notin> set (dead_threads r)" "tid \<in> set (dead_threads r1)" using assms dead_listed by auto
  then show ?thesis using assms(1) unfolding quarantine_step_def
    by (cases "dead_threads r") (auto split: if_splits)
qed

section \<open>Joining\<close>

definition pause_ok :: "('c, 's, 'j, 'w) context_callbacks \<Rightarrow> (registry \<times> 'w \<Rightarrow> registry \<times> 'w) \<Rightarrow> bool" where
  "pause_ok cb f \<longleftrightarrow> (\<forall>s. registry_ok (fst s) \<longrightarrow> registry_ok (fst (f s)))"

text \<open>The registry after \<open>k\<close> pauses.\<close>

definition after_pauses :: "(registry \<times> 'w \<Rightarrow> registry \<times> 'w) list \<Rightarrow> nat \<Rightarrow> registry \<times> 'w \<Rightarrow> registry" where
  "after_pauses others k s = fst (fold (\<lambda>f. f) (take k others) s)"

lemma after_pauses_simps [simp]: "after_pauses others 0 s = fst s" "after_pauses (f # fs) (Suc k) s = after_pauses fs k (f s)"
  by (simp_all add: after_pauses_def)

lemma join_rounds:
  "JoinThread cb tid arg others s = Some (b, s') \<Longrightarrow> registry_ok (fst s) \<Longrightarrow> \<forall>f \<in> set others. pause_ok cb f \<Longrightarrow>
   \<exists>k \<le> length others. (\<forall>j < k. life (after_pauses others j s) tid = ThreadStatusCreated \<or> life (after_pauses others j s) tid = ThreadStatusRunning) \<and>
     (if b then life (after_pauses others k s) tid = ThreadStatusFinished \<and> life (fst s') tid = ThreadStatusDead
      else life (after_pauses others k s) tid = ThreadStatusInvalid \<and> fst s' = after_pauses others k s)"
proof (induction others arbitrary: s)
  case Nil
  obtain r w r' w' where s: "s = (r, w)" "s' = (r', w')" by (cases s; cases s')
  then have "join_round cb tid arg (r, w) = Some (Some b, r', w')" using Nil.prems(1) by (auto split: bind_splits option.splits)
  from join_effect [OF this] show ?case using Nil.prems(2) s by (auto simp: life_step_def split: bool.splits)
next
  case (Cons f fs)
  obtain r w r' w' where s: "s = (r, w)" "s' = (r', w')" by (cases s; cases s')
  obtain x r1 w1 where j: "join_round cb tid arg (r, w) = Some (x, r1, w1)"
    and x: "(case x of Some b' \<Rightarrow> Some (b', r1, w1)
      | None \<Rightarrow> (case f # fs of [] \<Rightarrow> None | f # fs \<Rightarrow> JoinThread cb tid arg fs (f (r1, w1)))) = Some (b, r', w')"
    using Cons.prems(1) s by (auto split: bind_splits)
  note e = join_effect [OF j]
  show ?case
  proof (cases x)
    case None
    then have r1: "(r1, w1) = s" "life r tid = ThreadStatusCreated \<or> life r tid = ThreadStatusRunning"
      using e Cons.prems(2) s by simp_all
    have "registry_ok (fst (f s))" using Cons.prems(2,3) by (simp add: pause_ok_def del: split_paired_All)
    moreover have "JoinThread cb tid arg fs (f s) = Some (b, s')" using x None r1(1) s(2) by simp
    ultimately obtain k where "k \<le> length fs"
      and "\<forall>j < k. life (after_pauses fs j (f s)) tid = ThreadStatusCreated \<or> life (after_pauses fs j (f s)) tid = ThreadStatusRunning"
      and "if b then life (after_pauses fs k (f s)) tid = ThreadStatusFinished \<and> life (fst s') tid = ThreadStatusDead
        else life (after_pauses fs k (f s)) tid = ThreadStatusInvalid \<and> fst s' = after_pauses fs k (f s)"
      using Cons.IH [of "f s"] Cons.prems(3) by auto
    then show ?thesis using r1(2) s(1) by (intro exI [of _ "Suc k"]) (auto simp: less_Suc_eq_0_disj)
  next
    case (Some b')
    then show ?thesis using e x Cons.prems(2) s by (intro exI [of _ 0]) (auto simp: life_step_def split: bool.splits)
  qed
qed

section \<open>The registry's promises\<close>

text \<open>A program with the default callbacks, and a quarantine of two threads.\<close>

definition no_callbacks :: "(unit, unit, unit, unit) context_callbacks" where
  "no_callbacks = \<lparr>context_factory = (\<lambda>_. Some), OnDead = (\<lambda>_. Some), OnJoined = (\<lambda>_ _. Some), OnFinished = (\<lambda>_. Some),
     OnStarted = (\<lambda>_ _. Some), OnCreated = (\<lambda>_ _. Some), OnReset = (\<lambda>_. Some), OnDetached = (\<lambda>_ _. Some)\<rparr>"

definition some_calls :: "(unit, unit, unit, unit) registry_call list" where
  "some_calls = [CreateCall 0 True 0 (), StartCall 0 10 Regular (), CreateCall 77 False 0 (), CreateCall 78 True 0 (),
     StartCall 1 11 Regular (), StartCall 2 12 Worker (), FinishCall 1, JoinCall 1 (), FinishCall 2]"

definition some_registry :: registry where
  "some_registry = fst (the (registry_run no_callbacks some_calls (ThreadRegistry_new 8 2 0, ())))"

lemmas run_calls = some_registry_def some_calls_def no_callbacks_def registry_step_def CreateThread_def StartThread_def FinishThread_def
  DetachThread_def join_round_def take_tid_def QuarantinePop_def QuarantinePush_def on_ctx_def upd_ctx_def status_of_def
  SetCreated_def SetStarted_def SetFinished_def SetDead_def SetJoined_def SetDestroyed_def ctx_Reset_def ctx_SetName_def
  ThreadContextBase_new_def ThreadRegistry_new_def Let_def

lemma some_run: "registry_run no_callbacks some_calls (ThreadRegistry_new 8 2 0, ()) = Some (some_registry, ())"
  by (simp add: run_calls)

text \<open>
  C22: whatever sequence of calls a program makes and whatever its callbacks do, the counters of alive and running
  threads are the numbers of contexts that are created or running, and running; every context has its number; the
  quarantine holds the dead threads other than the main one, once each, and no more than its size; the numbers
  ready for reuse are of contexts that are invalid.
\<close>

theorem registry_counts:
  assumes "registry_run cb cs (ThreadRegistry_new mx quarantine reuse, w0) = Some (r, w)" "0 < quarantine"
  shows "GetNumberOfThreads r = (n_contexts r, length (filter running (rg_threads r)), length (filter alive (rg_threads r))) \<and>
    snd (snd (GetNumberOfThreads r)) \<le> GetMaxAliveThreads r \<and> n_contexts r \<le> max_threads r \<and>
    (\<forall>i < n_contexts r. tb_tid (rg_threads r ! i) = i) \<and>
    distinct (dead_threads r) \<and> set (dead_threads r) = {i. 0 < i \<and> i < n_contexts r \<and> status_of r i = ThreadStatusDead} \<and>
    length (dead_threads r) \<le> thread_quarantine_size r \<and>
    distinct (invalid_threads r) \<and> set (invalid_threads r) \<subseteq> {i. 0 < i \<and> i < n_contexts r \<and> status_of r i = ThreadStatusInvalid}"
proof -
  have "registry_ok r" using registry_run_ok [OF assms(1) new_ok [OF assms(2)]] .
  then show ?thesis unfolding registry_ok_def reg_inv_def GetNumberOfThreads_def GetMaxAliveThreads_def number_def by simp
qed

lemma registry_counts_witness: "GetNumberOfThreads some_registry = (3, 1, 1) \<and> dead_threads some_registry = [1, 2] \<and>
    length (filter running (rg_threads some_registry)) = 1"
  using registry_counts [OF some_run] by (simp add: GetNumberOfThreads_def) (simp add: run_calls)

text \<open>
  C23: after any run, a call changes the life of a number only along the arrows: invalid to created, created to running
  or (when it could not be started) dead, running to finished or (detached) dead, finished to dead, and dead to invalid when the
  quarantine gives the number back. A thread that is created gets a number that no thread has, and the next unique number.
\<close>

theorem threads_live_in_order:
  assumes "registry_run cb cs (ThreadRegistry_new mx quarantine reuse, w0) = Some (r, w)" "0 < quarantine"
  shows "(registry_step cb c (r, w) = Some (r', w') \<longrightarrow> (\<forall>i. life r' i = life r i \<or> next_status (life r i) (life r' i))) \<and>
    (CreateThread cb user det parent arg (r, w) = Some (tid, r'', w'') \<longrightarrow>
       life r tid = ThreadStatusInvalid \<and> life r'' tid = ThreadStatusCreated \<and> tb_detached (rg_threads r'' ! tid) = det \<and>
       tb_unique_id (rg_threads r'' ! tid) = total_threads r \<and> total_threads r'' = total_threads r + 1)"
proof -
  have ok: "registry_ok r" using registry_run_ok [OF assms(1) new_ok [OF assms(2)]] .
  then show ?thesis using call_effect [of cb c r w r' w'] create_effect [of cb user det parent arg r w tid r'' w'']
    by (auto simp: order_ok_def life_step_def)
qed

lemma threads_live_in_order_witness:
  "\<exists>r''. CreateThread no_callbacks 5 True 0 () (some_registry, ()) = Some (3, r'', ()) \<and> tb_unique_id (rg_threads r'' ! 3) = 3"
proof -
  have "\<exists>r''. CreateThread no_callbacks 5 True 0 () (some_registry, ()) = Some (3, r'', ())" by (simp add: run_calls)
  then obtain r'' where r: "CreateThread no_callbacks 5 True 0 () (some_registry, ()) = Some (3, r'', ())" ..
  have "total_threads some_registry = 3" by (simp add: run_calls)
  then show ?thesis using threads_live_in_order [OF some_run, of "Elsewhere (\<lambda>w. w)" _ _ 5 True 0 "()" 3 r'' "()"] r by auto
qed

text \<open>
  C24: the number of a thread that has just died stays dead, and is given to no new thread, until at least as many further
  threads have died as the quarantine holds.
\<close>

theorem dead_number_waits:
  assumes "registry_run cb bs (ThreadRegistry_new mx quarantine reuse, w0) = Some (r, w)" "0 < quarantine"
    and "registry_step cb c (r, w) = Some (r1, w1)" "0 < tid" "life r tid \<noteq> ThreadStatusDead" "life r1 tid = ThreadStatusDead"
    and "registry_run cb cs (r1, w1) = Some (r', w')" "deaths cb cs (r1, w1) < quarantine"
  shows "life r' tid = ThreadStatusDead \<and> CreateThread cb user det parent arg (r', w') \<noteq> Some (tid, s)"
proof -
  have ok: "registry_ok r" using registry_run_ok [OF assms(1) new_ok [OF assms(2)]] .
  then have ok1: "registry_ok r1" and q: "quarantine_step r r1" using call_effect [OF assms(3)] by (simp_all add: order_ok_def)
  have "thread_quarantine_size r1 = quarantine"
    using run_quarantine [OF assms(1)] step_quarantine [OF assms(3)] by (simp add: ThreadRegistry_new_def)
  then have len: "length (dead_threads r1) \<le> quarantine" "thread_quarantine_size r1 = quarantine"
    using ok1 by (simp_all add: registry_ok_def reg_inv_def)
  note l = died_last [OF q ok ok1 assms(4-6)]
  have "tid \<in> set (dead_threads r')"
    by (rule quarantine_holds [OF assms(7) ok1, of "length (dead_threads r1) - 1"])
      (use l len assms(8) in \<open>auto simp: last_conv_nth\<close>)
  then have d: "life r' tid = ThreadStatusDead" using dead_listed registry_run_ok [OF assms(7) ok1] by blast
  then have "CreateThread cb user det parent arg (r', w') \<noteq> Some (tid, s)"
    using create_effect [of cb user det parent arg r' w' tid "fst s" "snd s"] registry_run_ok [OF assms(7) ok1] by auto
  then show ?thesis using d by simp
qed

lemma dead_number_waits_witness:
  "\<exists>r1 r'. registry_step no_callbacks (JoinCall 1 ()) (fst (the (registry_run no_callbacks (take 7 some_calls) (ThreadRegistry_new 8 2 0, ()))), ()) = Some (r1, ()) \<and>
     registry_run no_callbacks [FinishCall 2] (r1, ()) = Some (r', ()) \<and> life r' 1 = ThreadStatusDead"
proof -
  let ?r = "fst (the (registry_run no_callbacks (take 7 some_calls) (ThreadRegistry_new 8 2 0, ())))"
  let ?r1 = "fst (the (registry_step no_callbacks (JoinCall 1 ()) (?r, ())))"
  let ?r' = "fst (the (registry_run no_callbacks [FinishCall 2] (?r1, ())))"
  have a: "registry_run no_callbacks (take 7 some_calls) (ThreadRegistry_new 8 2 0, ()) = Some (?r, ())"
    and b: "registry_step no_callbacks (JoinCall 1 ()) (?r, ()) = Some (?r1, ())"
    and d: "registry_run no_callbacks [FinishCall 2] (?r1, ()) = Some (?r', ())"
    and e: "life ?r 1 \<noteq> ThreadStatusDead" "life ?r1 1 = ThreadStatusDead" "deaths no_callbacks [FinishCall 2] (?r1, ()) < 2"
    by code_simp+
  have "life ?r' 1 = ThreadStatusDead \<and> CreateThread no_callbacks 0 True 0 () (?r', ()) \<noteq> Some (1, ?r', ())"
    by (rule dead_number_waits [OF a _ b _ e(1,2) d e(3)]) simp_all
  then show ?thesis using b d by blast
qed

text \<open>
  C25: a join returns only when its thread has finished, or is none: while it waits the thread is created or running, whatever
  registry calls other threads make in the meantime; if it finds no thread it changes nothing, else the thread is dead.
\<close>

theorem join_waits_for_finish:
  assumes "registry_run cb cs (ThreadRegistry_new mx quarantine reuse, w0) = Some s" "0 < quarantine"
    and "\<forall>f \<in> set others. \<forall>s. \<exists>cs. registry_run cb cs s = Some (f s)"
    and "JoinThread cb tid arg others s = Some (joined, s')"
  shows "\<exists>k \<le> length others.
     (\<forall>j < k. life (after_pauses others j s) tid = ThreadStatusCreated \<or> life (after_pauses others j s) tid = ThreadStatusRunning) \<and>
     (if joined then life (after_pauses others k s) tid = ThreadStatusFinished \<and> life (fst s') tid = ThreadStatusDead
      else life (after_pauses others k s) tid = ThreadStatusInvalid \<and> fst s' = after_pauses others k s)"
proof (rule join_rounds [OF assms(4)])
  show "registry_ok (fst s)" using registry_run_ok [of cb cs _ w0 "fst s" "snd s"] assms(1) new_ok [OF assms(2)] by simp
  show "\<forall>f \<in> set others. pause_ok cb f"
    unfolding pause_ok_def using assms(3) registry_run_ok by (metis prod.collapse)
qed

definition finish_one :: "registry \<times> unit \<Rightarrow> registry \<times> unit" where
  "finish_one s = (case registry_step no_callbacks (FinishCall 1) s of None \<Rightarrow> s | Some s' \<Rightarrow> s')"

lemma join_waits_for_finish_witness:
  "\<exists>s'. JoinThread no_callbacks 1 () [\<lambda>s. s, finish_one]
      (the (registry_run no_callbacks (take 6 some_calls) (ThreadRegistry_new 8 2 0, ()))) = Some (True, s') \<and> life (fst s') 1 = ThreadStatusDead"
proof -
  let ?s = "the (registry_run no_callbacks (take 6 some_calls) (ThreadRegistry_new 8 2 0, ()))"
  have a: "registry_run no_callbacks (take 6 some_calls) (ThreadRegistry_new 8 2 0, ()) = Some ?s" by code_simp
  have "map_option fst (JoinThread no_callbacks 1 () [\<lambda>s. s, finish_one] ?s) = Some True" by code_simp
  then obtain s' where j: "JoinThread no_callbacks 1 () [\<lambda>s. s, finish_one] ?s = Some (True, s')" by auto
  have g: "\<exists>cs. registry_run no_callbacks cs s = Some (f s)" if "f \<in> set [\<lambda>s. s, finish_one]" for f s
  proof (cases "f = (\<lambda>s. s) \<or> registry_step no_callbacks (FinishCall 1) s = None")
    case True
    then have "f s = s" using that by (auto simp: finish_one_def)
    then show ?thesis by (intro exI [of _ "[]"]) simp
  next
    case False
    then show ?thesis using that by (intro exI [of _ "[FinishCall 1]"]) (auto simp: finish_one_def)
  qed
  have two: "0 < (2::nat)" by simp
  have f: "\<forall>f \<in> set [\<lambda>s. s, finish_one]. \<forall>s. \<exists>cs. registry_run no_callbacks cs s = Some (f s)"
    using g by blast
  show ?thesis
    using join_waits_for_finish [OF a two f j] j by auto
qed

end
