(* ===== verification/ClockBlocks.thy ===== *)
theory ClockBlocks
  imports SyncClockLayout
begin

text \<open>
  Who owns the blocks of clocks. A reference is the index of a first-level block and the number of its
  second-level blocks; the clocks of synchronisation objects and the threads' caches hold them. The
  invariant: the counter of a first-level block is the number of references to it, no two first-level
  blocks share a second-level one, and the allocator has handed out exactly these blocks (and the set \<open>Z\<close>).
\<close>

section \<open>The invariant\<close>

definition table :: "clk_heap \<Rightarrow> u32 \<Rightarrow> nat \<Rightarrow> u32" where
  "table h f i = heap_word h f (kBlockIdx - i)"

definition second_level :: "clk_heap \<Rightarrow> u32 \<times> nat \<Rightarrow> u32 set" where
  "second_level h r = table h (fst r) ` {..<snd r}"

definition blocks_of :: "clk_heap \<Rightarrow> (u32 \<times> nat) multiset \<Rightarrow> u32 set" where
  "blocks_of h R = fst ` set_mset R \<union> (\<Union>r \<in> set_mset R. second_level h r)"

definition refs_ok :: "clk_heap \<Rightarrow> (u32 \<times> nat) multiset \<Rightarrow> u32 set \<Rightarrow> bool" where
  "refs_ok h R Z \<longleftrightarrow>
     inj_on fst (set_mset R) \<and>
     (\<forall>r \<in># R. heap_word h (fst r) kRefIdx = of_nat (count R r) \<and> count R r < 2 ^ 32 \<and>
        inj_on (table h (fst r)) {..<snd r} \<and> second_level h r \<inter> fst ` set_mset R = {}) \<and>
     (\<forall>r \<in># R. \<forall>q \<in># R. r \<noteq> q \<longrightarrow> second_level h r \<inter> second_level h q = {}) \<and>
     da_ok kL1Size kL2Size h (blocks_of h R \<union> Z) \<and> blocks_of h R \<inter> Z = {}"

section \<open>Frames\<close>

text \<open>The blocks of the references \<open>R\<close> keep their words, but for the counters.\<close>

definition keeps_refs :: "(u32 \<times> nat) multiset \<Rightarrow> clk_heap \<Rightarrow> clk_heap \<Rightarrow> bool" where
  "keeps_refs R h h' \<longleftrightarrow>
     (\<forall>r \<in># R. (\<forall>k. k \<noteq> kRefIdx \<longrightarrow> heap_word h' (fst r) k = heap_word h (fst r) k) \<and>
        (\<forall>j \<in> second_level h r. \<forall>k. heap_word h' j k = heap_word h j k))"

lemma keeps_table: "keeps_refs R h h' \<Longrightarrow> r \<in># R \<Longrightarrow> table h' (fst r) = table h (fst r)"
  by (auto simp: keeps_refs_def table_def fun_eq_iff clock_consts)

lemma keeps_second: "keeps_refs R h h' \<Longrightarrow> r \<in># R \<Longrightarrow> second_level h' r = second_level h r"
  using keeps_table by (simp add: second_level_def)

lemma keeps_refl [simp]: "keeps_refs R h h"
  by (simp add: keeps_refs_def)

lemma keeps_trans:
  assumes "keeps_refs R h h1" "keeps_refs R h1 h2"
  shows "keeps_refs R h h2"
  using assms keeps_second [OF assms(1)] unfolding keeps_refs_def by auto

lemma keeps_sub: "keeps_refs R h h' \<Longrightarrow> Q \<subseteq># R \<Longrightarrow> keeps_refs Q h h'"
  by (auto simp: keeps_refs_def dest: mset_subset_eqD)

section \<open>Frame lemmas of the allocator\<close>

lemma da_ok_set_word:
  assumes "da_ok l1 l2 h used" "i \<in> used"
  shows "da_ok l1 l2 (set_heap_word i k v h) used"
proof -
  obtain a c where h: "h = (a, c)" by (cases h)
  obtain xs where xs: "chain (da_mem a) (da_freelist a) xs" "distinct (xs @ c)" "set (xs @ c) \<inter> used = {}"
    "set (xs @ c) \<union> used = da_indices l2 a" "da_fillpos a \<le> l1" "length c \<le> kCacheSize" "1 < l2" "l1 * l2 \<le> 2 ^ 32"
    using assms(1) by (auto simp: h da_ok_def)
  have "i \<notin> set xs" using xs(3) assms(2) by auto
  then have "chain ((da_mem a)(i := (da_mem a i)(k := v))) (da_freelist a) xs" using xs(1) by (subst chain_frame) auto
  then show ?thesis using xs unfolding h da_ok_def set_heap_word_def by (auto simp: da_indices_def intro!: exI [of _ xs])
qed

lemma heap_word_free: "da_ok l1 l2 h used \<Longrightarrow> i \<in> used \<Longrightarrow> j \<in> used \<Longrightarrow> heap_word (da_free i h) j k = heap_word h j k"
  using da_free_ok [of l1 l2 h used i] by (simp add: heap_word_def)

text \<open>The second-level blocks of \<open>f\<close> are freed one after the other.\<close>

lemma free_table:
  assumes "da_ok l1 l2 h used" "f \<in> used" "inj_on (table h f) {..<n}" "table h f ` {..<n} \<subseteq> used - {f}"
  shows "let h' = fold (\<lambda>i h. da_free (heap_word h f (kBlockIdx - i)) h) [0..<n] h; left = used - table h f ` {..<n} in
    da_ok l1 l2 h' left \<and> (\<forall>j \<in> left. \<forall>k. heap_word h' j k = heap_word h j k)"
  using assms
proof (induction n)
  case (Suc n)
  let ?h = "fold (\<lambda>i h. da_free (heap_word h f (kBlockIdx - i)) h) [0..<n] h" and ?x = "table h f n"
  let ?left = "used - table h f ` {..<n}"
  have up: "table h f ` {..<Suc n} = insert ?x (table h f ` {..<n})" by (simp add: lessThan_Suc)
  have sub: "table h f ` {..<n} \<subseteq> used - {f}" "?x \<in> used" "?x \<noteq> f" using Suc.prems(4) unfolding up by auto
  have inj: "inj_on (table h f) {..<n}" "?x \<notin> table h f ` {..<n}"
    using Suc.prems(3) unfolding lessThan_Suc by (auto simp: inj_on_insert)
  have IH: "da_ok l1 l2 ?h ?left" "\<forall>j \<in> ?left. \<forall>k. heap_word ?h j k = heap_word h j k"
    using Suc.IH [OF Suc.prems(1,2) inj(1) sub(1)] by (auto simp: Let_def)
  have x: "?x \<in> ?left" using inj(2) sub(2) by blast
  have "f \<in> ?left" using sub(1) Suc.prems(2) by blast
  then have r: "heap_word ?h f (kBlockIdx - n) = ?x" using IH(2) by (simp add: table_def)
  have "used - table h f ` {..<Suc n} = ?left - {?x}" unfolding up by blast
  moreover have "heap_word (da_free ?x ?h) j k = heap_word h j k" if "j \<in> ?left - {?x}" for j k
    using heap_word_free [OF IH(1) x] IH(2) that by simp
  ultimately show ?case using da_free_ok [OF IH(1) x] by (simp add: Let_def r)
qed simp

section \<open>Giving up a reference\<close>

lemma refs_frame:
  assumes "\<forall>j \<in> fst ` set_mset R. \<forall>k. heap_word h' j k = heap_word h j k"
  shows "r \<in># R \<Longrightarrow> table h' (fst r) = table h (fst r)" "r \<in># R \<Longrightarrow> second_level h' r = second_level h r"
    and "blocks_of h' R = blocks_of h R"
proof -
  show t: "table h' (fst r) = table h (fst r)" if "r \<in># R" for r using assms that by (auto simp: table_def fun_eq_iff)
  then show s: "second_level h' r = second_level h r" if "r \<in># R" for r using that by (auto simp: second_level_def)
  then show "blocks_of h' R = blocks_of h R" by (auto simp: blocks_of_def)
qed

text \<open>The last reference frees the blocks, any other only lowers the counter.\<close>

lemma Unref_keeps:
  assumes "refs_ok h (add_mset r R) Z"
  shows "\<exists>h'. UnrefClockBlock (fst r) (snd r) h = Some h' \<and> refs_ok h' R Z \<and> keeps_refs R h h'"
proof -
  let ?R = "add_mset r R" and ?f = "fst r"
  have inj: "inj_on fst (set_mset ?R)" and da: "da_ok kL1Size kL2Size h (blocks_of h ?R \<union> Z)" and dis: "blocks_of h ?R \<inter> Z = {}"
    and each: "\<And>q. q \<in># ?R \<Longrightarrow> heap_word h (fst q) kRefIdx = of_nat (count ?R q) \<and> count ?R q < 2 ^ 32 \<and>
      inj_on (table h (fst q)) {..<snd q} \<and> second_level h q \<inter> fst ` set_mset ?R = {}"
    and sep: "\<And>q p. q \<in># ?R \<Longrightarrow> p \<in># ?R \<Longrightarrow> q \<noteq> p \<Longrightarrow> second_level h q \<inter> second_level h p = {}"
    using assms unfolding refs_ok_def by blast+
  have r: "heap_word h ?f kRefIdx = of_nat (Suc (count R r))" "Suc (count R r) < 2 ^ 32" "inj_on (table h ?f) {..<snd r}"
      "second_level h r \<inter> fst ` set_mset ?R = {}"
    using each [of r] by simp_all
  have v: "unat (heap_word h ?f kRefIdx) = Suc (count R r)" unfolding r(1) using r(2) by (rule unat_32)
  have ne: "fst q \<noteq> ?f" if "q \<in># R" "q \<noteq> r" for q
    using inj_onD [OF inj, of q r] that by auto
  show ?thesis
  proof (cases "r \<in># R")
    case True
    define h1 where "h1 = set_heap_word ?f kRefIdx (heap_word h ?f kRefIdx - 1) h"
    have c: "0 < count R r" using True by (simp only: count_greater_zero_iff)
    have "1 < unat (heap_word h ?f kRefIdx)" unfolding v using c by linarith
    then have "heap_word h ?f kRefIdx \<noteq> 0" "heap_word h ?f kRefIdx \<noteq> 1" by auto
    then have u: "UnrefClockBlock ?f (snd r) h = Some h1" by (simp add: UnrefClockBlock_def Let_def h1_def)
    have s: "set_mset ?R = set_mset R" using True by auto
    have "kBlockIdx - i \<noteq> kRefIdx" for i unfolding clock_consts by linarith
    then have t: "table h1 f = table h f" for f by (simp add: table_def fun_eq_iff h1_def)
    then have sl: "second_level h1 q = second_level h q" for q by (simp add: second_level_def)
    have bl: "blocks_of h1 R = blocks_of h ?R" unfolding blocks_of_def sl s by (rule refl)
    have "?f \<in> blocks_of h ?R \<union> Z" by (simp add: blocks_of_def)
    from da_ok_set_word [OF da this] have da1: "da_ok kL1Size kL2Size h1 (blocks_of h1 R \<union> Z)"
      unfolding bl unfolding h1_def .
    have "heap_word h1 (fst q) kRefIdx = of_nat (count R q) \<and> count R q < 2 ^ 32" if "q \<in># R" for q
      using each [of q] r(1,2) ne [OF that] that by (cases "q = r") (auto simp: h1_def)
    then have "heap_word h1 (fst q) kRefIdx = of_nat (count R q) \<and> count R q < 2 ^ 32 \<and>
        inj_on (table h1 (fst q)) {..<snd q} \<and> second_level h1 q \<inter> fst ` set_mset R = {}" if "q \<in># R" for q
      using each [of q] that unfolding t sl s by simp
    moreover have "second_level h1 q \<inter> second_level h1 p = {}" if "q \<in># R" "p \<in># R" "q \<noteq> p" for q p
      using sep [of q p] that unfolding sl s by simp
    ultimately have "refs_ok h1 R Z" using inj da1 dis unfolding refs_ok_def s bl by blast
    moreover have "keeps_refs R h h1"
      using each r(4) by (fastforce simp: keeps_refs_def h1_def)
    ultimately show ?thesis using u by blast
  next
    case False
    then have one: "heap_word h ?f kRefIdx = 1" using r(1) by (simp add: not_in_iff)
    let ?used = "blocks_of h ?R \<union> Z"
    have f: "?f \<in> ?used" by (simp add: blocks_of_def)
    have tab: "table h ?f ` {..<snd r} = second_level h r" by (simp add: second_level_def)
    have sub: "table h ?f ` {..<snd r} \<subseteq> ?used - {?f}" using r(4) unfolding tab by (auto simp: blocks_of_def)
    define h1 where "h1 = fold (\<lambda>i h. da_free (heap_word h ?f (kBlockIdx - i)) h) [0..<snd r] h"
    let ?left = "?used - second_level h r"
    have h1: "da_ok kL1Size kL2Size h1 ?left" "\<forall>j \<in> ?left. \<forall>k. heap_word h1 j k = heap_word h j k"
      using free_table [OF da f r(3) sub] by (simp_all add: Let_def h1_def tab)
    have fl: "?f \<in> ?left" using f r(4) by auto
    let ?h = "da_free ?f h1"
    have u: "UnrefClockBlock ?f (snd r) h = Some ?h" using one by (simp add: UnrefClockBlock_def Let_def h1_def)
    have w: "heap_word ?h j k = heap_word h j k" if "j \<in> ?left" for j k
      using heap_word_free [OF h1(1) fl that] h1(2) that by simp
    have firsts: "fst q \<in> ?left" if "q \<in># R" for q using that r(4) by (auto simp: blocks_of_def)
    then have fr: "\<forall>j \<in> fst ` set_mset R. \<forall>k. heap_word ?h j k = heap_word h j k" using w by blast
    note F = refs_frame [OF fr]
    have rq: "q \<noteq> r" if "q \<in># R" for q using False that by blast
    have "blocks_of h ?R = insert ?f (second_level h r \<union> blocks_of h R)" by (auto simp: blocks_of_def)
    moreover have "second_level h r \<inter> blocks_of h R = {}" "?f \<notin> blocks_of h R" "second_level h r \<inter> Z = {}" "?f \<notin> Z"
    proof -
      have "second_level h r \<inter> second_level h q = {}" if "q \<in># R" for q using sep [of r q] rq [OF that] that by simp
      then show "second_level h r \<inter> blocks_of h R = {}" using r(4) by (auto simp: blocks_of_def)
      have "?f \<notin> second_level h q" if "q \<in># R" for q using each [of q] that by auto
      moreover have "?f \<noteq> fst q" if "q \<in># R" for q using ne rq that by metis
      ultimately show "?f \<notin> blocks_of h R" by (auto simp: blocks_of_def)
      show "second_level h r \<inter> Z = {}" "?f \<notin> Z" using dis by (auto simp: blocks_of_def)
    qed
    ultimately have left: "?left - {?f} = blocks_of h R \<union> Z" by blast
    have da': "da_ok kL1Size kL2Size ?h (blocks_of ?h R \<union> Z)" using da_free_ok [OF h1(1) fl] unfolding left F(3) by blast
    have cnt: "count ?R q = count R q" if "q \<in># R" for q using rq [OF that] by simp
    have "heap_word ?h (fst q) kRefIdx = of_nat (count R q) \<and> count R q < 2 ^ 32 \<and>
        inj_on (table ?h (fst q)) {..<snd q} \<and> second_level ?h q \<inter> fst ` set_mset R = {}" if "q \<in># R" for q
      using each [of q] that cnt [OF that] F(1,2) [OF that] w [OF firsts [OF that]] by auto
    moreover have "inj_on fst (set_mset R)" using inj by (auto simp: inj_on_def)
    moreover have "second_level ?h q \<inter> second_level ?h p = {}" if "q \<in># R" "p \<in># R" "q \<noteq> p" for q p
      using sep [of q p] that F(2) [OF that(1)] F(2) [OF that(2)] by simp
    moreover have "blocks_of ?h R \<inter> Z = {}" using dis unfolding F(3) by (auto simp: blocks_of_def)
    ultimately have "refs_ok ?h R Z" using da' unfolding refs_ok_def by blast
    moreover have "keeps_refs R h ?h"
      unfolding keeps_refs_def
    proof (intro ballI conjI allI impI)
      fix q k
      assume q: "q \<in># R"
      then show "heap_word ?h (fst q) k = heap_word h (fst q) k" by (rule w [OF firsts])
      fix j
      assume "j \<in> second_level h q"
      then have "j \<in> ?left" using sep [of r q] rq [OF q] q by (auto simp: blocks_of_def)
      then show "heap_word ?h j k = heap_word h j k" by (rule w)
    qed
    ultimately show ?thesis using u by blast
  qed
qed

text \<open>The reference of a clock, and its reset.\<close>

definition clock_refs :: "sync_clock \<Rightarrow> (u32 \<times> nat) multiset" where
  "clock_refs sc = (if sc_size sc = 0 then {#} else {#(tab_idx sc, sc_blocks sc)#})"

lemma Reset_keeps:
  assumes "refs_ok h (clock_refs sc + R) Z"
  shows "\<exists>h'. SyncClock_Reset sc h = Some (ResetImpl sc, h') \<and> refs_ok h' R Z \<and> keeps_refs R h h'"
proof (cases "sc_size sc = 0")
  case True
  then show ?thesis using assms by (simp add: SyncClock_Reset_def clock_refs_def)
next
  case False
  then show ?thesis using assms Unref_keeps [of h "(tab_idx sc, sc_blocks sc)" R Z] by (auto simp: SyncClock_Reset_def clock_refs_def)
qed

lemma Reset_effect:
  assumes "refs_ok h (clock_refs sc + R) Z"
  shows "\<exists>h'. SyncClock_Reset sc h = Some (ResetImpl sc, h') \<and> refs_ok h' R Z"
  using Reset_keeps [OF assms] by blast

lemma ResetImpl_refs [simp]: "clock_refs (ResetImpl sc) = {#}"
  by (simp add: clock_refs_def ResetImpl_def)

lemma ResetImpl_idem [simp]: "ResetImpl (ResetImpl sc) = ResetImpl sc"
  by (simp add: ResetImpl_def)

end
