(* ===== verification/MetaInvariant.thy ===== *)
theory MetaInvariant
  imports MetaMap ClockBlocks
begin

text \<open>
  The invariant of \<open>MetaMap\<close>: every cell heads a list of distinct synchronisation objects, the last of
  which may link a block; no object is on two lists; objects on no list are blank. The map is then two
  finite functions, \<open>sync_at\<close> from addresses to objects and \<open>block_at\<close> from cells to blocks, and the
  lemmas give the effect of each operation on them.
\<close>

section \<open>Tagged indices\<close>

definition small_index :: "u32 \<Rightarrow> bool" where
  "small_index i \<longleftrightarrow> i \<noteq> 0 \<and> i AND kFlagMask = 0"

lemma kFlagMask_bit: "bit kFlagMask n \<longleftrightarrow> n = 30 \<or> n = 31"
proof -
  consider "n < 30" | "n = 30" | "n = 31" | "32 \<le> n" by linarith
  then show ?thesis
  proof cases
    case 1
    then show ?thesis unfolding kFlagMask_def bit_push_bit_iff by simp
  next
    case 4
    then show ?thesis unfolding kFlagMask_def bit_push_bit_iff by simp
  qed (simp_all add: kFlagMask_def)
qed

lemma kFlagBlock_bit: "bit kFlagBlock n \<longleftrightarrow> n = 30"
proof -
  consider "n < 30" | "n = 30" | "n = 31" | "32 \<le> n" by linarith
  then show ?thesis
  proof cases
    case 1
    then show ?thesis unfolding kFlagBlock_def bit_push_bit_iff by simp
  next
    case 4
    then show ?thesis unfolding kFlagBlock_def bit_push_bit_iff by simp
  qed (simp_all add: kFlagBlock_def)
qed

lemma kFlagSync_bit: "bit kFlagSync n \<longleftrightarrow> n = 31"
proof -
  consider "n < 30" | "n = 30" | "n = 31" | "32 \<le> n" by linarith
  then show ?thesis
  proof cases
    case 1
    then show ?thesis unfolding kFlagSync_def bit_push_bit_iff by simp
  next
    case 4
    then show ?thesis unfolding kFlagSync_def bit_push_bit_iff by simp
  qed (simp_all add: kFlagSync_def)
qed

lemmas flag_bits = kFlagMask_bit kFlagBlock_bit kFlagSync_bit

lemma flags_nz [simp]: "kFlagBlock \<noteq> 0" "kFlagSync \<noteq> 0"
  by (simp_all add: kFlagBlock_def kFlagSync_def)

lemma small_index_bits: "small_index i \<longleftrightarrow> i \<noteq> 0 \<and> \<not> bit i 30 \<and> \<not> bit i 31"
proof -
  have b: "bit (i AND kFlagMask) n \<longleftrightarrow> bit i n \<and> (n = 30 \<or> n = 31)" for n
    by (simp only: bit_and_iff kFlagMask_bit)
  have "i AND kFlagMask = 0" if "\<not> bit i 30" "\<not> bit i 31"
  proof (rule bit_word_eqI)
    show "bit (i AND kFlagMask) n = bit (0 :: u32) n" for n unfolding b using that by auto
  qed
  moreover have "\<not> bit i 30 \<and> \<not> bit i 31" if "i AND kFlagMask = 0"
    using b [of 30] b [of 31] unfolding that by simp
  ultimately show ?thesis by (auto simp: small_index_def)
qed

lemma tagged:
  assumes "small_index i"
  shows "index_of (i OR kFlagSync) = i" "index_of (i OR kFlagBlock) = i"
    and "(i OR kFlagSync) AND kFlagBlock = 0" "(i OR kFlagBlock) AND kFlagBlock \<noteq> 0" "(i OR kFlagSync) AND kFlagSync \<noteq> 0"
    and "i OR kFlagSync \<noteq> 0" "i OR kFlagBlock \<noteq> 0"
proof -
  have b: "\<not> bit i 30" "\<not> bit i 31" using assms by (simp_all add: small_index_bits)
  show "index_of (i OR kFlagSync) = i" "index_of (i OR kFlagBlock) = i"
    using b by (auto intro!: bit_word_eqI simp: index_of_def bit_simps flag_bits)
  show "(i OR kFlagSync) AND kFlagBlock = 0"
    using b by (auto intro!: bit_word_eqI simp: bit_simps flag_bits)
  have "bit ((i OR kFlagBlock) AND kFlagBlock) 30" "bit ((i OR kFlagSync) AND kFlagSync) 31"
      "bit (i OR kFlagSync) 31" "bit (i OR kFlagBlock) 30"
    by (simp_all add: bit_simps flag_bits)
  then show "(i OR kFlagBlock) AND kFlagBlock \<noteq> 0" "(i OR kFlagSync) AND kFlagSync \<noteq> 0" "i OR kFlagSync \<noteq> 0" "i OR kFlagBlock \<noteq> 0"
    by (metis bit_0_eq bot_apply bot_bool_def)+
qed

lemma small_indexI: "i \<noteq> 0 \<Longrightarrow> unat i < 2 ^ 30 \<Longrightarrow> small_index i"
proof -
  assume i: "i \<noteq> 0" "unat i < 2 ^ 30"
  have t: "take_bit 30 i = i" using i(2) by (simp add: word_unat_eq_iff unsigned_take_bit_eq take_bit_nat_eq_self)
  have "\<not> bit (take_bit 30 i) 30" "\<not> bit (take_bit 30 i) 31" by (simp_all add: bit_take_bit_iff)
  then show ?thesis using i(1) unfolding t by (simp add: small_index_bits)
qed

lemma option_eqI: "(\<And>i. x = Some i \<longleftrightarrow> y = Some i) \<Longrightarrow> x = y"
  by (metis not_Some_eq)

section \<open>Lists of objects\<close>

primrec links :: "(u32 \<Rightarrow> sync_var) \<Rightarrow> u32 list \<Rightarrow> u32 option \<Rightarrow> u32 \<Rightarrow> bool" where
  "links sy [] b idx \<longleftrightarrow> (case b of None \<Rightarrow> idx = 0 | Some k \<Rightarrow> small_index k \<and> idx = k OR kFlagBlock)"
| "links sy (i # is) b idx \<longleftrightarrow> small_index i \<and> idx = i OR kFlagSync \<and> links sy is b (sv_next (sy i))"

lemma links_frame: "\<forall>i \<in> set is. sv_next (sy' i) = sv_next (sy i) \<Longrightarrow> links sy' is b idx = links sy is b idx"
  by (induction "is" arbitrary: idx) auto

lemma find_sync_links: "links (mm_syncs m) is b idx \<Longrightarrow> find_sync a m idx = Some (List.find (\<lambda>i. sv_addr (mm_syncs m i) = a) is)"
proof (induction "is" arbitrary: idx)
  case Nil
  then show ?case by (subst find_sync.simps) (auto simp: tagged split: option.splits)
next
  case (Cons i "is")
  then show ?case by (subst find_sync.simps) (auto simp: tagged)
qed

lemma block_from_links: "links (mm_syncs m) is b idx \<Longrightarrow> block_from m idx = Some b"
proof (induction "is" arbitrary: idx)
  case Nil
  then show ?case by (subst block_from.simps) (auto simp: tagged split: option.splits)
next
  case (Cons i "is")
  then show ?case by (subst block_from.simps) (auto simp: tagged)
qed

section \<open>The invariant\<close>

definition on_lists :: "(u64 \<Rightarrow> u32 list) \<Rightarrow> u32 set" where
  "on_lists SL = {i. \<exists>c. i \<in> set (SL c)}"

definition in_cells :: "(u64 \<Rightarrow> u32 option) \<Rightarrow> u32 set" where
  "in_cells BL = {k. \<exists>c. BL c = Some k}"

definition clock_blank :: "sync_clock \<Rightarrow> bool" where
  "clock_blank sc \<longleftrightarrow> ResetImpl sc = sc"

definition blank :: "sync_var \<Rightarrow> bool" where
  "blank s \<longleftrightarrow> sv_uid s = 0 \<and> sv_stack s = 0 \<and> sv_owner s = kInvalidOwner \<and> sv_last_lock s = 0 \<and> sv_recursion s = 0 \<and>
     sv_flags s = 0 \<and> clock_blank (sv_clock s) \<and> clock_blank (sv_read_clock s)"

text \<open>\<open>X\<close> and \<open>Y\<close> are the indices that are allocated and on no list: those of other processors' caches and those
  a thread has not linked yet.\<close>

definition lists_ok :: "(u32 \<Rightarrow> sync_var) \<Rightarrow> (u64 \<Rightarrow> u32) \<Rightarrow> (u64 \<Rightarrow> u32 list) \<Rightarrow> (u64 \<Rightarrow> u32 option) \<Rightarrow> bool" where
  "lists_ok sy meta SL BL \<longleftrightarrow>
     (\<forall>c. links sy (SL c) (BL c) (meta c) \<and> distinct (SL c)) \<and>
     (\<forall>c d i. i \<in> set (SL c) \<longrightarrow> i \<in> set (SL d) \<longrightarrow> c = d) \<and> (\<forall>c d k. BL c = Some k \<longrightarrow> BL d = Some k \<longrightarrow> c = d)"

definition addrs_ok :: "(u32 \<Rightarrow> sync_var) \<Rightarrow> (u64 \<Rightarrow> u32 list) \<Rightarrow> bool" where
  "addrs_ok sy SL \<longleftrightarrow>
     (\<forall>c. \<forall>i \<in> set (SL c). MemToMeta (sv_addr (sy i)) = c) \<and> inj_on (\<lambda>i. sv_addr (sy i)) (on_lists SL)"

definition mm_inv :: "(u64 \<Rightarrow> u32 list) \<Rightarrow> (u64 \<Rightarrow> u32 option) \<Rightarrow> u32 set \<Rightarrow> u32 set \<Rightarrow> meta_map \<Rightarrow> bool" where
  "mm_inv SL BL X Y m \<longleftrightarrow>
     lists_ok (mm_syncs m) (mm_meta m) SL BL \<and> addrs_ok (mm_syncs m) SL \<and>
     da_ok kSyncL1 kSyncL2 (sync_alloc m) (on_lists SL \<union> X) \<and> on_lists SL \<inter> X = {} \<and>
     da_ok kBlockL1 kBlockL2 (block_alloc m) (in_cells BL \<union> Y) \<and> in_cells BL \<inter> Y = {} \<and>
     (\<forall>i. i \<notin> on_lists SL \<union> X \<longrightarrow> blank (mm_syncs m i))"

definition meta_ok :: "u32 set \<Rightarrow> u32 set \<Rightarrow> meta_map \<Rightarrow> bool" where
  "meta_ok X Y m \<longleftrightarrow> (\<exists>SL BL. mm_inv SL BL X Y m)"

text \<open>The map as two functions.\<close>

definition sync_at :: "meta_map \<Rightarrow> u64 \<Rightarrow> u32 option" where
  "sync_at m a = (case find_sync a m (mm_meta m (MemToMeta a)) of Some r \<Rightarrow> r | None \<Rightarrow> None)"

definition block_at :: "meta_map \<Rightarrow> u64 \<Rightarrow> u32 option" where
  "block_at m p = (case GetBlock p m of Some r \<Rightarrow> r | None \<Rightarrow> None)"

lemma mm_links: "mm_inv SL BL X Y m \<Longrightarrow> links (mm_syncs m) (SL c) (BL c) (mm_meta m c)"
  by (simp add: mm_inv_def lists_ok_def)

lemma find_sync_at: "mm_inv SL BL X Y m \<Longrightarrow> find_sync a m (mm_meta m (MemToMeta a)) = Some (sync_at m a)"
  using find_sync_links [OF mm_links] by (simp add: sync_at_def)

lemma sync_at_iff:
  assumes "mm_inv SL BL X Y m"
  shows "sync_at m a = Some i \<longleftrightarrow> i \<in> on_lists SL \<and> sv_addr (mm_syncs m i) = a"
proof -
  have inj: "inj_on (\<lambda>i. sv_addr (mm_syncs m i)) (on_lists SL)" and cl: "\<forall>c. \<forall>i \<in> set (SL c). MemToMeta (sv_addr (mm_syncs m i)) = c"
    using assms by (simp_all add: mm_inv_def addrs_ok_def)
  have sub: "j \<in> on_lists SL" if "j \<in> set (SL c)" for j c using that by (auto simp: on_lists_def)
  have f: "sync_at m a = List.find (\<lambda>i. sv_addr (mm_syncs m i) = a) (SL (MemToMeta a))"
    using find_sync_links [OF mm_links [OF assms]] by (simp add: sync_at_def)
  show ?thesis
  proof
    assume "sync_at m a = Some i"
    then have "i \<in> set (SL (MemToMeta a))" "sv_addr (mm_syncs m i) = a" unfolding f find_Some_iff by auto
    then show "i \<in> on_lists SL \<and> sv_addr (mm_syncs m i) = a" using sub by blast
  next
    assume r: "i \<in> on_lists SL \<and> sv_addr (mm_syncs m i) = a"
    then have i: "i \<in> set (SL (MemToMeta a))" using cl by (auto simp: on_lists_def)
    then have "sync_at m a \<noteq> None" using r unfolding f find_None_iff by blast
    then obtain j where j: "sync_at m a = Some j" by blast
    then have "j \<in> on_lists SL" "sv_addr (mm_syncs m j) = a" unfolding f find_Some_iff using sub nth_mem by blast+
    then show "sync_at m a = Some i" using r j inj by (auto dest: inj_onD)
  qed
qed

lemma block_at_cell: "mm_inv SL BL X Y m \<Longrightarrow> GetBlock p m = Some (BL (MemToMeta p)) \<and> block_at m p = BL (MemToMeta p)"
  using block_from_links [OF mm_links] by (simp add: block_at_def GetBlock_def)

lemma da_small:
  assumes "da_ok l1 l2 s used" "i \<in> used" "l1 * l2 \<le> 2 ^ 30"
  shows "small_index i"
proof -
  obtain a c where s: "s = (a, c)" by (cases s)
  have "i \<in> da_indices l2 a" "da_fillpos a \<le> l1" using assms(1,2) by (auto simp: s da_ok_def)
  then have i: "0 < unat i" "unat i < da_fillpos a * l2" "da_fillpos a * l2 \<le> l1 * l2" by (auto simp: da_indices_def)
  then have "unat i < 2 ^ 30" using assms(3) by linarith
  moreover have "i \<noteq> 0" using i(1) by auto
  ultimately show ?thesis by (intro small_indexI)
qed

lemma sync_small: "da_ok kSyncL1 kSyncL2 s used \<Longrightarrow> i \<in> used \<Longrightarrow> small_index i"
  by (erule da_small) (simp_all add: kSyncL1_def kSyncL2_def)

lemma block_small: "da_ok kBlockL1 kBlockL2 s used \<Longrightarrow> i \<in> used \<Longrightarrow> small_index i"
  by (erule da_small) (simp_all add: kBlockL1_def kBlockL2_def)

section \<open>Fields of objects\<close>

text \<open>The invariant does not depend on the fields of an object that is on no list, nor on the other fields of one that is.\<close>

lemma lists_ok_cong:
  assumes "\<forall>i \<in> on_lists SL. sv_next (sy' i) = sv_next (sy i)"
  shows "lists_ok sy' meta SL BL = lists_ok sy meta SL BL"
proof -
  have "links sy' (SL c) b x = links sy (SL c) b x" for c b x
    using assms by (intro links_frame) (auto simp: on_lists_def)
  then show ?thesis by (simp add: lists_ok_def)
qed

lemma addrs_ok_cong:
  assumes "\<forall>i \<in> on_lists SL. sv_addr (sy' i) = sv_addr (sy i)"
  shows "addrs_ok sy' SL = addrs_ok sy SL"
proof -
  have "inj_on (\<lambda>i. sv_addr (sy' i)) (on_lists SL) = inj_on (\<lambda>i. sv_addr (sy i)) (on_lists SL)"
    using assms by (intro inj_on_cong) simp
  moreover have "sv_addr (sy' i) = sv_addr (sy i)" if "i \<in> set (SL c)" for i c
    using assms that by (auto simp: on_lists_def)
  ultimately show ?thesis by (simp add: addrs_ok_def)
qed

lemma mm_inv_fields:
  assumes "mm_inv SL BL X Y m" "mm_meta m' = mm_meta m" "sync_alloc m' = sync_alloc m" "block_alloc m' = block_alloc m"
    and "\<forall>i \<in> on_lists SL. sv_next (mm_syncs m' i) = sv_next (mm_syncs m i) \<and> sv_addr (mm_syncs m' i) = sv_addr (mm_syncs m i)"
    and "\<forall>i. i \<notin> on_lists SL \<union> X \<longrightarrow> mm_syncs m' i = mm_syncs m i"
  shows "mm_inv SL BL X Y m'"
  using assms lists_ok_cong [of SL "mm_syncs m'" "mm_syncs m"] addrs_ok_cong [of SL "mm_syncs m'" "mm_syncs m"]
  unfolding mm_inv_def by simp

lemma upd_sync_at [simp]: "mm_syncs (upd_sync i f m) j = (if j = i then f (mm_syncs m i) else mm_syncs m j)"
  by (simp add: upd_sync_def)

lemma upd_sync_sel [simp]: "mm_meta (upd_sync i f m) = mm_meta m" "sync_alloc (upd_sync i f m) = sync_alloc m"
  "block_alloc (upd_sync i f m) = block_alloc m" "mm_clocks (upd_sync i f m) = mm_clocks m" "uid_gen (upd_sync i f m) = uid_gen m"
  "mm_blocks (upd_sync i f m) = mm_blocks m" "mm_dd (upd_sync i f m) = mm_dd m"
  by (simp_all add: upd_sync_def)

lemma DDMutexInit_sel [simp]: "mm_meta (DDMutexInit stk i m) = mm_meta m" "sync_alloc (DDMutexInit stk i m) = sync_alloc m"
  "block_alloc (DDMutexInit stk i m) = block_alloc m" "mm_clocks (DDMutexInit stk i m) = mm_clocks m"
  "uid_gen (DDMutexInit stk i m) = uid_gen m" "mm_syncs (DDMutexInit stk i m) = mm_syncs m"
  "mm_blocks (DDMutexInit stk i m) = mm_blocks m"
  by (simp_all add: DDMutexInit_def split: prod.split)

lemma SyncVar_Init_sel [simp]: "mm_meta (SyncVar_Init det stk a u i m) = mm_meta m" "sync_alloc (SyncVar_Init det stk a u i m) = sync_alloc m"
  "block_alloc (SyncVar_Init det stk a u i m) = block_alloc m" "mm_clocks (SyncVar_Init det stk a u i m) = mm_clocks m"
  "uid_gen (SyncVar_Init det stk a u i m) = uid_gen m" "mm_blocks (SyncVar_Init det stk a u i m) = mm_blocks m"
  "mm_syncs (SyncVar_Init det stk a u i m) =
    (mm_syncs m)(i := (mm_syncs m i)\<lparr>sv_addr := a, sv_uid := u, sv_next := 0, sv_stack := stk\<rparr>)"
  by (simp_all add: SyncVar_Init_def upd_sync_def Let_def)

section \<open>Getting an object\<close>

lemma da_alloc_cache: "c \<noteq> [] \<Longrightarrow> da_alloc l1 l2 (a, c) = Some (hd c, a, tl c)"
  by (simp add: da_alloc_def)

text \<open>A fresh object belongs to the thread that allocated it.\<close>

lemma ensure_effect:
  assumes inv: "mm_inv SL BL X Y m" and al: "da_alloc kSyncL1 kSyncL2 (sync_alloc m) = Some (i, al)"
  shows "\<exists>m'. ensure_sync det stk a 0 m = Some (i, m') \<and> i \<notin> on_lists SL \<union> X \<and> small_index i \<and>
    mm_inv SL BL (insert i X) Y m' \<and> blank (mm_syncs m i) \<and>
    mm_syncs m' = (mm_syncs m)(i := (mm_syncs m i)\<lparr>sv_addr := a, sv_uid := uid_gen m, sv_next := 0, sv_stack := stk\<rparr>) \<and>
    mm_meta m' = mm_meta m \<and> mm_clocks m' = mm_clocks m \<and> uid_gen m' = uid_gen m + 1 \<and> sync_alloc m' = al \<and>
    block_alloc m' = block_alloc m \<and> mm_blocks m' = mm_blocks m"
proof -
  let ?m = "SyncVar_Init det stk a (uid_gen m) i (m\<lparr>uid_gen := uid_gen m + 1, sync_alloc := al\<rparr>)"
  have e: "ensure_sync det stk a 0 m = Some (i, ?m)" using al by (simp add: ensure_sync_def)
  have da: "da_ok kSyncL1 kSyncL2 (sync_alloc m) (on_lists SL \<union> X)" and l: "lists_ok (mm_syncs m) (mm_meta m) SL BL"
    and ad: "addrs_ok (mm_syncs m) SL" and bl: "\<forall>j. j \<notin> on_lists SL \<union> X \<longrightarrow> blank (mm_syncs m j)"
    using inv by (simp_all add: mm_inv_def)
  obtain a' c' where "al = (a', c')" by (cases al)
  then have new: "i \<noteq> 0" "i \<notin> on_lists SL \<union> X" "da_ok kSyncL1 kSyncL2 al (insert i (on_lists SL \<union> X))"
    using da_alloc_ok [OF da, of i al] al by auto
  then have i: "small_index i" using sync_small by blast
  have "lists_ok (mm_syncs ?m) (mm_meta m) SL BL" "addrs_ok (mm_syncs ?m) SL"
    using l ad new(2) lists_ok_cong [of SL "mm_syncs ?m" "mm_syncs m"] addrs_ok_cong [of SL "mm_syncs ?m" "mm_syncs m"] by auto
  moreover have "da_ok kSyncL1 kSyncL2 al (on_lists SL \<union> insert i X)" using new(3) by simp
  moreover have "on_lists SL \<inter> insert i X = {}" using new(2) inv by (auto simp: mm_inv_def)
  moreover have "\<forall>j. j \<notin> on_lists SL \<union> insert i X \<longrightarrow> blank (mm_syncs ?m j)" using bl by simp
  ultimately have "mm_inv SL BL (insert i X) Y ?m" using inv unfolding mm_inv_def by simp
  moreover have "blank (mm_syncs m i)" using bl new(2) by blast
  ultimately show ?thesis using e new i by (intro exI [of _ ?m]) simp
qed

text \<open>The object becomes the first of its list.\<close>

lemma publish_effect:
  assumes inv: "mm_inv SL BL (insert i X) Y m" and i: "i \<notin> X" "small_index i"
    and nxt: "sv_next (mm_syncs m i) = mm_meta m c" "MemToMeta (sv_addr (mm_syncs m i)) = c"
    and new: "sync_at m (sv_addr (mm_syncs m i)) = None"
  shows "mm_inv (SL(c := i # SL c)) BL X Y (m\<lparr>mm_meta := (mm_meta m)(c := i OR kFlagSync)\<rparr>)"
proof -
  let ?SL = "SL(c := i # SL c)"
  have out: "i \<notin> on_lists SL" and l: "lists_ok (mm_syncs m) (mm_meta m) SL BL" and ad: "addrs_ok (mm_syncs m) SL"
    using inv by (auto simp: mm_inv_def)
  have on: "on_lists ?SL = insert i (on_lists SL)" by (auto simp: on_lists_def)
  have notin: "i \<notin> set (SL d)" for d using out by (auto simp: on_lists_def)
  have uni: "d = e" if "j \<in> set (SL d)" "j \<in> set (SL e)" for d e j using l that by (auto simp: lists_ok_def)
  have "lists_ok (mm_syncs m) ((mm_meta m)(c := i OR kFlagSync)) ?SL BL"
    unfolding lists_ok_def
  proof (intro conjI allI impI)
    fix d
    show "links (mm_syncs m) (?SL d) (BL d) (((mm_meta m)(c := i OR kFlagSync)) d)"
      using mm_links [OF inv, of d] nxt(1) i(2) by (cases "d = c") simp_all
    show "distinct (?SL d)" using l notin by (simp add: lists_ok_def)
  next
    fix d e j
    assume "j \<in> set (?SL d)" "j \<in> set (?SL e)"
    then show "d = e" using notin uni by (auto split: if_splits)
  next
    fix d e k
    assume "BL d = Some k" "BL e = Some k"
    then show "d = e" using l by (auto simp: lists_ok_def)
  qed
  moreover have "addrs_ok (mm_syncs m) ?SL"
  proof -
    have "sv_addr (mm_syncs m j) \<noteq> sv_addr (mm_syncs m i)" if "j \<in> on_lists SL" for j
      using sync_at_iff [OF inv, of "sv_addr (mm_syncs m i)" j] new that by auto
    then have "sv_addr (mm_syncs m i) \<notin> (\<lambda>i. sv_addr (mm_syncs m i)) ` (on_lists SL - {i})"
      by (auto simp: image_iff dest!: sym [of "sv_addr (mm_syncs m i)"])
    then have "inj_on (\<lambda>i. sv_addr (mm_syncs m i)) (on_lists ?SL)"
      using ad unfolding on inj_on_insert addrs_ok_def by blast
    then show ?thesis using ad nxt(2) by (auto simp: addrs_ok_def)
  qed
  ultimately show ?thesis using inv i(1) out unfolding mm_inv_def on by auto
qed

text \<open>The allocator gives an index when its cache is not empty.\<close>

lemma get_loop_found:
  assumes inv: "mm_inv SL BL X Y m" and f: "sync_at m a = Some i"
  shows "get_loop others det stk a create (mm_meta m (MemToMeta a)) 0 m = Some (Some i, m)"
  using find_sync_at [OF inv, of a] f by (subst get_loop.simps) simp

text \<open>Getting an object that does not exist creates one, with the number of \<open>uid_gen\<close>.\<close>

lemma get_loop_new:
  assumes inv: "mm_inv SL BL X Y m" and f: "sync_at m a = None" and al: "da_alloc kSyncL1 kSyncL2 (sync_alloc m) = Some (i, al)"
  shows "\<exists>m'. get_loop [] det stk a True (mm_meta m (MemToMeta a)) 0 m = Some (Some i, m') \<and>
    mm_inv (SL(MemToMeta a := i # SL (MemToMeta a))) BL X Y m' \<and> i \<notin> on_lists SL \<union> X \<and> blank (mm_syncs m i) \<and>
    mm_syncs m' = (mm_syncs m)(i := (mm_syncs m i)\<lparr>sv_addr := a, sv_uid := uid_gen m, sv_next := mm_meta m (MemToMeta a), sv_stack := stk\<rparr>) \<and>
    mm_clocks m' = mm_clocks m \<and> uid_gen m' = uid_gen m + 1"
proof -
  let ?c = "MemToMeta a"
  obtain m1 where m1: "ensure_sync det stk a 0 m = Some (i, m1)" "i \<notin> on_lists SL \<union> X" "small_index i"
      "mm_inv SL BL (insert i X) Y m1" "blank (mm_syncs m i)"
      "mm_syncs m1 = (mm_syncs m)(i := (mm_syncs m i)\<lparr>sv_addr := a, sv_uid := uid_gen m, sv_next := 0, sv_stack := stk\<rparr>)"
      "mm_meta m1 = mm_meta m" "mm_clocks m1 = mm_clocks m" "uid_gen m1 = uid_gen m + 1"
    using ensure_effect [OF inv al] by blast
  let ?m2 = "upd_sync i (\<lambda>s. s\<lparr>sv_next := mm_meta m ?c\<rparr>) m1"
  have inv2: "mm_inv SL BL (insert i X) Y ?m2" by (rule mm_inv_fields [OF m1(4)]) (use m1(2) in auto)
  have none: "sync_at ?m2 a = None"
  proof (rule ccontr)
    assume "sync_at ?m2 a \<noteq> None"
    then obtain j where "sync_at ?m2 a = Some j" by blast
    then have "j \<in> on_lists SL" "sv_addr (mm_syncs ?m2 j) = a" using sync_at_iff [OF inv2] by simp_all
    then have "sync_at m a = Some j" using sync_at_iff [OF inv] m1(2,6) by (auto split: if_splits)
    then show False using f by simp
  qed
  let ?m3 = "?m2\<lparr>mm_meta := (mm_meta m)(?c := i OR kFlagSync)\<rparr>"
  have "mm_inv (SL(?c := i # SL ?c)) BL X Y ?m3"
    using publish_effect [OF inv2, of ?c] m1 none by simp
  moreover have "get_loop [] det stk a True (mm_meta m ?c) 0 m = Some (Some i, ?m3)"
    using find_sync_at [OF inv, of a] f m1(1,7) by (subst get_loop.simps) (simp add: interfere_def)
  moreover have "mm_syncs ?m3 = (mm_syncs m)(i := (mm_syncs m i)\<lparr>sv_addr := a, sv_uid := uid_gen m, sv_next := mm_meta m ?c, sv_stack := stk\<rparr>)"
    using m1(6) by auto
  ultimately show ?thesis using m1(2,5,8,9) by (intro exI [of _ ?m3]) simp
qed

lemma sync_at_new:
  assumes inv: "mm_inv SL BL X Y m" and inv': "mm_inv (SL(c := i # SL c)) BL X' Y' m'" and out: "i \<notin> on_lists SL"
    and f: "\<forall>j. j \<noteq> i \<longrightarrow> sv_addr (mm_syncs m' j) = sv_addr (mm_syncs m j)"
  shows "sync_at m' = (sync_at m)(sv_addr (mm_syncs m' i) := Some i)" "block_at m' = block_at m"
proof -
  have on: "on_lists (SL(c := i # SL c)) = insert i (on_lists SL)" by (auto simp: on_lists_def)
  have iff: "sync_at m' b = Some j \<longleftrightarrow> (if j = i then sv_addr (mm_syncs m' i) = b else sync_at m b = Some j)" for b j
    using sync_at_iff [OF inv', of b j] sync_at_iff [OF inv, of b j] f unfolding on by auto
  have "sync_at m b \<noteq> Some i" for b using sync_at_iff [OF inv, of b i] out by simp
  then have "sync_at m' b = Some j \<longleftrightarrow> ((sync_at m)(sv_addr (mm_syncs m' i) := Some i)) b = Some j" for b j
    using iff [of b j] iff [of b i] by (auto split: if_splits)
  then have "sync_at m' b = ((sync_at m)(sv_addr (mm_syncs m' i) := Some i)) b" for b
    by (rule option_eqI)
  then show "sync_at m' = (sync_at m)(sv_addr (mm_syncs m' i) := Some i)" by (rule ext)
  show "block_at m' = block_at m" using block_at_cell [OF inv] block_at_cell [OF inv'] by (intro ext) simp
qed

section \<open>Freeing objects\<close>

text \<open>The references that the clocks of all objects hold.\<close>

definition sv_refs :: "sync_var \<Rightarrow> (u32 \<times> nat) multiset" where
  "sv_refs s = clock_refs (sv_clock s) + clock_refs (sv_read_clock s)"

definition sync_refs :: "(u32 \<Rightarrow> sync_var) \<Rightarrow> (u32 \<times> nat) multiset" where
  "sync_refs sy = (\<Sum>i \<in> UNIV. sv_refs (sy i))"

text \<open>\<open>E\<close>: references of threads' caches and of clocks elsewhere.\<close>

definition clocks_ok :: "(u32 \<times> nat) multiset \<Rightarrow> u32 set \<Rightarrow> meta_map \<Rightarrow> bool" where
  "clocks_ok E Z m \<longleftrightarrow> refs_ok (mm_clocks m) (sync_refs (mm_syncs m) + E) Z"

lemma sync_refs_split: "sync_refs sy = sv_refs (sy i) + (\<Sum>j \<in> UNIV - {i}. sv_refs (sy j))"
  unfolding sync_refs_def by (rule sum.remove) simp_all

lemma sync_refs_cong: "\<forall>i. sv_refs (sy' i) = sv_refs (sy i) \<Longrightarrow> sync_refs sy' = sync_refs sy"
  by (simp add: sync_refs_def)

lemma SyncVar_Reset_effect:
  assumes "clocks_ok E Z m"
  shows "\<exists>m'. SyncVar_Reset i m = Some m' \<and> clocks_ok E Z m' \<and> blank (mm_syncs m' i) \<and>
    sv_addr (mm_syncs m' i) = sv_addr (mm_syncs m i) \<and> sv_next (mm_syncs m' i) = sv_next (mm_syncs m i) \<and>
    (\<forall>j. j \<noteq> i \<longrightarrow> mm_syncs m' j = mm_syncs m j) \<and> mm_meta m' = mm_meta m \<and> sync_alloc m' = sync_alloc m \<and>
    block_alloc m' = block_alloc m \<and> uid_gen m' = uid_gen m \<and> mm_blocks m' = mm_blocks m \<and> mm_dd m' = mm_dd m"
proof -
  let ?s = "mm_syncs m i" and ?rest = "\<Sum>j \<in> UNIV - {i}. sv_refs (mm_syncs m j)"
  have "refs_ok (mm_clocks m) (clock_refs (sv_clock ?s) + (clock_refs (sv_read_clock ?s) + (?rest + E))) Z"
    using assms sync_refs_split [of "mm_syncs m" i] by (simp add: clocks_ok_def sv_refs_def add.assoc)
  then obtain h where h: "SyncClock_Reset (sv_clock ?s) (mm_clocks m) = Some (ResetImpl (sv_clock ?s), h)"
      "refs_ok h (clock_refs (sv_read_clock ?s) + (?rest + E)) Z"
    using Reset_effect by blast
  obtain h' where h': "SyncClock_Reset (sv_read_clock ?s) h = Some (ResetImpl (sv_read_clock ?s), h')" "refs_ok h' (?rest + E) Z"
    using Reset_effect [OF h(2)] by blast
  let ?s' = "?s\<lparr>sv_uid := 0, sv_stack := 0, sv_owner := kInvalidOwner, sv_last_lock := 0, sv_recursion := 0, sv_flags := 0,
    sv_clock := ResetImpl (sv_clock ?s), sv_read_clock := ResetImpl (sv_read_clock ?s)\<rparr>"
  let ?m = "m\<lparr>mm_clocks := h', mm_syncs := (mm_syncs m)(i := ?s')\<rparr>"
  have "SyncVar_Reset i m = Some ?m" using h(1) h'(1) by (simp add: SyncVar_Reset_def Let_def)
  moreover have "sync_refs (mm_syncs ?m) = ?rest"
    using sync_refs_split [of "mm_syncs ?m" i] by (simp add: sv_refs_def)
  then have "clocks_ok E Z ?m" using h'(2) by (simp add: clocks_ok_def)
  moreover have "blank ?s'" by (simp add: blank_def clock_blank_def)
  ultimately show ?thesis by (intro exI [of _ ?m]) simp
qed

lemma free_sync_sel [simp]: "mm_meta (free_sync i m) = mm_meta m" "mm_syncs (free_sync i m) = mm_syncs m"
  "block_alloc (free_sync i m) = block_alloc m" "uid_gen (free_sync i m) = uid_gen m" "mm_blocks (free_sync i m) = mm_blocks m"
  "mm_dd (free_sync i m) = mm_dd m" "clocks_ok E Z (free_sync i m) = clocks_ok E Z m" "sync_alloc (free_sync i m) = da_free i (sync_alloc m)"
  by (simp_all add: free_sync_def clocks_ok_def)

lemma free_block_sel [simp]: "mm_meta (free_block i m) = mm_meta m" "mm_syncs (free_block i m) = mm_syncs m"
  "sync_alloc (free_block i m) = sync_alloc m" "uid_gen (free_block i m) = uid_gen m" "mm_blocks (free_block i m) = mm_blocks m"
  "mm_dd (free_block i m) = mm_dd m" "clocks_ok E Z (free_block i m) = clocks_ok E Z m" "block_alloc (free_block i m) = da_free i (block_alloc m)"
  by (simp_all add: free_block_def clocks_ok_def)

text \<open>An object that is on no list is reset and freed.\<close>

lemma discard_effect:
  assumes inv: "mm_inv SL BL (insert i X) Y m" and i: "i \<notin> X" and ck: "clocks_ok E Z m"
  shows "\<exists>m'. SyncVar_Reset i m = Some m' \<and> mm_inv SL BL X Y (free_sync i m') \<and> clocks_ok E Z (free_sync i m') \<and>
    (\<forall>j. j \<noteq> i \<longrightarrow> mm_syncs m' j = mm_syncs m j) \<and> sv_next (mm_syncs m' i) = sv_next (mm_syncs m i) \<and>
    sv_addr (mm_syncs m' i) = sv_addr (mm_syncs m i) \<and>
    mm_meta m' = mm_meta m \<and> uid_gen m' = uid_gen m \<and> mm_blocks m' = mm_blocks m \<and> mm_dd m' = mm_dd m"
proof -
  obtain m' where m': "SyncVar_Reset i m = Some m'" "clocks_ok E Z m'" "blank (mm_syncs m' i)"
      "sv_addr (mm_syncs m' i) = sv_addr (mm_syncs m i)" "sv_next (mm_syncs m' i) = sv_next (mm_syncs m i)"
      "\<forall>j. j \<noteq> i \<longrightarrow> mm_syncs m' j = mm_syncs m j" "mm_meta m' = mm_meta m" "sync_alloc m' = sync_alloc m"
      "block_alloc m' = block_alloc m" "uid_gen m' = uid_gen m" "mm_blocks m' = mm_blocks m" "mm_dd m' = mm_dd m"
    using SyncVar_Reset_effect [OF ck] by blast
  have out: "i \<notin> on_lists SL" using inv by (auto simp: mm_inv_def)
  have inv': "mm_inv SL BL (insert i X) Y m'"
    by (rule mm_inv_fields [OF inv]) (use m' out in auto)
  have "da_ok kSyncL1 kSyncL2 (da_free i (sync_alloc m')) (on_lists SL \<union> insert i X - {i})"
    using da_free_ok [of kSyncL1 kSyncL2 "sync_alloc m'" "on_lists SL \<union> insert i X" i] inv' by (auto simp: mm_inv_def)
  moreover have "on_lists SL \<union> insert i X - {i} = on_lists SL \<union> X" using out i by blast
  ultimately have "mm_inv SL BL X Y (free_sync i m')" using inv' m'(3) unfolding mm_inv_def by auto
  then show ?thesis using m' by (intro exI [of _ m']) simp
qed

lemma free_chain_effect:
  assumes "mm_inv SL BL (set is \<union> X) (set_option b \<union> Y) m" "links (mm_syncs m) is b idx" "distinct is" "set is \<inter> X = {}"
    and "set_option b \<inter> Y = {}" "clocks_ok E Z m"
  shows "\<exists>m'. free_chain idx m = Some m' \<and> mm_inv SL BL X Y m' \<and> clocks_ok E Z m' \<and>
    (\<forall>j. j \<notin> set is \<longrightarrow> mm_syncs m' j = mm_syncs m j) \<and> mm_meta m' = mm_meta m \<and> uid_gen m' = uid_gen m \<and>
    mm_blocks m' = mm_blocks m \<and> mm_dd m' = mm_dd m"
  using assms
proof (induction "is" arbitrary: idx m)
  case Nil
  show ?case
  proof (cases b)
    case None
    then show ?thesis using Nil by (intro exI [of _ m]) (subst free_chain.simps, simp)
  next
    case (Some k)
    then have k: "small_index k" "idx = k OR kFlagBlock" "k \<notin> Y" using Nil by simp_all
    have inv: "mm_inv SL BL X (insert k Y) m" using Nil.prems(1) Some by simp
    then have da: "da_ok kBlockL1 kBlockL2 (block_alloc m) (in_cells BL \<union> insert k Y)" "k \<notin> in_cells BL"
      by (auto simp: mm_inv_def)
    have "in_cells BL \<union> insert k Y - {k} = in_cells BL \<union> Y" using da(2) k(3) by blast
    then have "da_ok kBlockL1 kBlockL2 (da_free k (block_alloc m)) (in_cells BL \<union> Y)"
      using da_free_ok [OF da(1), of k] by simp
    then have "mm_inv SL BL X Y (free_block k m)" using inv by (auto simp: mm_inv_def)
    moreover have "free_chain idx m = Some (free_block k m)"
      using k tagged [OF k(1)] by (subst free_chain.simps) simp
    ultimately show ?thesis using Nil by (intro exI [of _ "free_block k m"]) simp
  qed
next
  case (Cons i "is")
  have i: "small_index i" "idx = i OR kFlagSync" "links (mm_syncs m) is b (sv_next (mm_syncs m i))" using Cons.prems(2) by simp_all
  have "mm_inv SL BL (insert i (set is \<union> X)) (set_option b \<union> Y) m" "i \<notin> set is \<union> X"
    using Cons.prems(1,3,4) by auto
  from discard_effect [OF this Cons.prems(6)] obtain m1 where m1: "SyncVar_Reset i m = Some m1"
      "mm_inv SL BL (set is \<union> X) (set_option b \<union> Y) (free_sync i m1)" "clocks_ok E Z (free_sync i m1)"
      "\<forall>j. j \<noteq> i \<longrightarrow> mm_syncs m1 j = mm_syncs m j" "mm_meta m1 = mm_meta m" "uid_gen m1 = uid_gen m" "mm_blocks m1 = mm_blocks m"
      "mm_dd m1 = mm_dd m"
    by blast
  have "links (mm_syncs m1) is b (sv_next (mm_syncs m i)) = links (mm_syncs m) is b (sv_next (mm_syncs m i))"
    using m1(4) Cons.prems(3) by (intro links_frame) auto
  then have l: "links (mm_syncs (free_sync i m1)) is b (sv_next (mm_syncs m i))" using i(3) by simp
  have "distinct is" "set is \<inter> X = {}" using Cons.prems(3,4) by auto
  from Cons.IH [OF m1(2) l this Cons.prems(5) m1(3)] obtain m' where m': "free_chain (sv_next (mm_syncs m i)) (free_sync i m1) = Some m'"
      "mm_inv SL BL X Y m'" "clocks_ok E Z m'" "\<forall>j. j \<notin> set is \<longrightarrow> mm_syncs m' j = mm_syncs m1 j"
      "mm_meta m' = mm_meta m1" "uid_gen m' = uid_gen m1" "mm_blocks m' = mm_blocks m1" "mm_dd m' = mm_dd m1"
    by auto
  have "free_chain idx m = Some m'"
    using i m1(1) m'(1) tagged [OF i(1)] by (subst free_chain.simps) (simp add: Let_def)
  then show ?case using m' m1(4-8) by (intro exI [of _ m']) simp
qed

text \<open>The cell is cleared before its objects are freed.\<close>

lemma clear_cell:
  assumes inv: "mm_inv SL BL X Y m"
  shows "mm_inv (SL(c := [])) (BL(c := None)) (set (SL c) \<union> X) (set_option (BL c) \<union> Y) (m\<lparr>mm_meta := (mm_meta m)(c := 0)\<rparr>)"
    and "set (SL c) \<inter> X = {}" "set_option (BL c) \<inter> Y = {}" "distinct (SL c)"
proof -
  let ?SL = "SL(c := [])" and ?BL = "BL(c := None)"
  have l: "lists_ok (mm_syncs m) (mm_meta m) SL BL" and ad: "addrs_ok (mm_syncs m) SL"
    and d: "on_lists SL \<inter> X = {}" "in_cells BL \<inter> Y = {}"
    using inv by (simp_all add: mm_inv_def)
  have us: "d = e" if "j \<in> set (SL d)" "j \<in> set (SL e)" for d e j using l that by (auto simp: lists_ok_def)
  have ub: "d = e" if "BL d = Some k" "BL e = Some k" for d e k using l that by (auto simp: lists_ok_def)
  have memb: "i \<in> on_lists ?SL \<longleftrightarrow> (\<exists>d. d \<noteq> c \<and> i \<in> set (SL d))" "i \<in> on_lists SL \<longleftrightarrow> (\<exists>d. i \<in> set (SL d))"
      "k \<in> in_cells ?BL \<longleftrightarrow> (\<exists>d. d \<noteq> c \<and> BL d = Some k)" "k \<in> in_cells BL \<longleftrightarrow> (\<exists>d. BL d = Some k)" for i k
    by (auto simp: on_lists_def in_cells_def)
  have on: "on_lists SL = on_lists ?SL \<union> set (SL c)" "on_lists ?SL \<inter> set (SL c) = {}"
    unfolding set_eq_iff Un_iff Int_iff memb using us by (metis, metis empty_iff)
  have ic: "in_cells BL = in_cells ?BL \<union> set_option (BL c)" "in_cells ?BL \<inter> set_option (BL c) = {}"
    unfolding set_eq_iff Un_iff Int_iff memb elem_set using ub by (metis, metis empty_iff)
  have "lists_ok (mm_syncs m) ((mm_meta m)(c := 0)) ?SL ?BL"
    using l us ub unfolding lists_ok_def by auto
  moreover have "addrs_ok (mm_syncs m) ?SL"
    using ad on(1) by (auto simp: addrs_ok_def intro: inj_on_subset)
  moreover have "on_lists ?SL \<union> (set (SL c) \<union> X) = on_lists SL \<union> X" "in_cells ?BL \<union> (set_option (BL c) \<union> Y) = in_cells BL \<union> Y"
    using on(1) ic(1) by auto
  moreover have "on_lists ?SL \<inter> (set (SL c) \<union> X) = {}" "in_cells ?BL \<inter> (set_option (BL c) \<union> Y) = {}"
    using on ic d by auto
  ultimately show "mm_inv ?SL ?BL (set (SL c) \<union> X) (set_option (BL c) \<union> Y) (m\<lparr>mm_meta := (mm_meta m)(c := 0)\<rparr>)"
    using inv unfolding mm_inv_def by simp
  show "set (SL c) \<inter> X = {}" "set_option (BL c) \<inter> Y = {}" using d on(1) ic(1) by auto
  show "distinct (SL c)" using l by (simp add: lists_ok_def)
qed

text \<open>What is left of the map when the cells \<open>C\<close> are cleared.\<close>

definition cleared :: "u64 set \<Rightarrow> meta_map \<Rightarrow> meta_map \<Rightarrow> bool" where
  "cleared C m m' \<longleftrightarrow>
     (\<forall>a. sync_at m' a = (if MemToMeta a \<in> C then None else sync_at m a)) \<and>
     (\<forall>p. block_at m' p = (if MemToMeta p \<in> C then None else block_at m p)) \<and>
     (\<forall>c. mm_meta m' c = (if c \<in> C then 0 else mm_meta m c)) \<and>
     (\<forall>a i. sync_at m' a = Some i \<longrightarrow> mm_syncs m' i = mm_syncs m i) \<and>
     uid_gen m' = uid_gen m \<and> mm_blocks m' = mm_blocks m \<and> mm_dd m' = mm_dd m"

lemma cleared_none: "cleared {} m m"
  by (simp add: cleared_def)

lemma cleared_trans: "cleared C m m1 \<Longrightarrow> cleared D m1 m2 \<Longrightarrow> cleared (C \<union> D) m m2"
  unfolding cleared_def by (auto split: if_splits)

lemma clear_effect:
  assumes inv: "mm_inv SL BL X Y m" and ck: "clocks_ok E Z m"
  shows "\<exists>m'. free_chain (mm_meta m c) (m\<lparr>mm_meta := (mm_meta m)(c := 0)\<rparr>) = Some m' \<and> meta_ok X Y m' \<and> clocks_ok E Z m' \<and>
    cleared {c} m m'"
proof -
  let ?m = "m\<lparr>mm_meta := (mm_meta m)(c := 0)\<rparr>"
  note C = clear_cell [OF inv, of c]
  have l: "links (mm_syncs ?m) (SL c) (BL c) (mm_meta m c)" using mm_links [OF inv] by simp
  have ck': "clocks_ok E Z ?m" using ck by (simp add: clocks_ok_def)
  obtain m' where m': "free_chain (mm_meta m c) ?m = Some m'" "mm_inv (SL(c := [])) (BL(c := None)) X Y m'" "clocks_ok E Z m'"
      "\<forall>j. j \<notin> set (SL c) \<longrightarrow> mm_syncs m' j = mm_syncs m j" "mm_meta m' = (mm_meta m)(c := 0)" "uid_gen m' = uid_gen m"
      "mm_blocks m' = mm_blocks m" "mm_dd m' = mm_dd m"
    using free_chain_effect [OF C(1) l C(4,2,3) ck'] by auto
  have cl: "MemToMeta (sv_addr (mm_syncs m i)) = d" if "i \<in> set (SL d)" for i d
    using inv that by (auto simp: mm_inv_def addrs_ok_def)
  have on: "i \<in> on_lists (SL(c := [])) \<longleftrightarrow> i \<in> on_lists SL \<and> MemToMeta (sv_addr (mm_syncs m i)) \<noteq> c" for i
    using cl by (auto simp: on_lists_def)
  have same: "mm_syncs m' i = mm_syncs m i" if "i \<in> on_lists (SL(c := []))" for i
    using that on m'(4) cl by blast
  have iff: "sync_at m' a = Some i \<longleftrightarrow> MemToMeta a \<noteq> c \<and> sync_at m a = Some i" for a i
  proof (cases "i \<in> on_lists (SL(c := []))")
    case True
    then show ?thesis using sync_at_iff [OF m'(2), of a i] sync_at_iff [OF inv, of a i] same [OF True] on [of i] by auto
  next
    case False
    then show ?thesis using sync_at_iff [OF m'(2), of a i] sync_at_iff [OF inv, of a i] on [of i] by auto
  qed
  then have "sync_at m' a = (if MemToMeta a = c then None else sync_at m a)" for a
    by (intro option_eqI) simp
  moreover have "mm_syncs m' i = mm_syncs m i" if "sync_at m' a = Some i" for a i
    using that sync_at_iff [OF m'(2), of a i] same by simp
  moreover have "block_at m' p = (if MemToMeta p = c then None else block_at m p)" for p
    using block_at_cell [OF m'(2), of p] block_at_cell [OF inv, of p] by simp
  ultimately have "cleared {c} m m'" using m' by (simp add: cleared_def)
  then show ?thesis using m'(1-3) unfolding meta_ok_def by blast
qed

lemma free_cells_effect:
  assumes "meta_ok X Y m" "clocks_ok E Z m"
  shows "\<exists>m'. free_cells cs (has, m) = Some (has \<or> (\<exists>c \<in> set cs. mm_meta m c \<noteq> 0), m') \<and> meta_ok X Y m' \<and> clocks_ok E Z m' \<and>
    cleared (set cs) m m'"
  using assms
proof (induction cs arbitrary: has m)
  case Nil
  then show ?case using cleared_none by auto
next
  case (Cons c cs)
  show ?case
  proof (cases "mm_meta m c = 0")
    case True
    obtain SL BL where inv: "mm_inv SL BL X Y m" using Cons.prems(1) by (auto simp: meta_ok_def)
    have "links (mm_syncs m) (SL c) (BL c) 0" using mm_links [OF inv, of c] True by simp
    then have e: "SL c = []" "BL c = None"
      using tagged(6,7) by (cases "SL c"; fastforce split: option.splits)+
    have "cleared {c} m m"
    proof -
      have "sync_at m a = None" if "MemToMeta a = c" for a
        using that True by (simp add: sync_at_def find_sync.simps [of a m 0])
      moreover have "block_at m p = None" if "MemToMeta p = c" for p
        using block_at_cell [OF inv, of p] that e(2) by simp
      ultimately show ?thesis using True by (auto simp: cleared_def)
    qed
    moreover obtain m' where m': "free_cells cs (has, m) = Some (has \<or> (\<exists>c \<in> set cs. mm_meta m c \<noteq> 0), m')" "meta_ok X Y m'"
        "clocks_ok E Z m'" "cleared (set cs) m m'"
      using Cons.IH [OF Cons.prems] by blast
    ultimately have "cleared (set (c # cs)) m m'" using cleared_trans [of "{c}" m m "set cs" m'] by simp
    then show ?thesis using m' True by auto
  next
    case False
    obtain m1 where m1: "free_chain (mm_meta m c) (m\<lparr>mm_meta := (mm_meta m)(c := 0)\<rparr>) = Some m1" "meta_ok X Y m1" "clocks_ok E Z m1"
        "cleared {c} m m1"
      using clear_effect Cons.prems unfolding meta_ok_def by blast
    obtain m' where m': "free_cells cs (True, m1) = Some (True, m')" "meta_ok X Y m'" "clocks_ok E Z m'" "cleared (set cs) m1 m'"
      using Cons.IH [OF m1(2,3), of True] by auto
    have "cleared (set (c # cs)) m m'" using cleared_trans [OF m1(4) m'(4)] by simp
    then show ?thesis using m' m1(1) False by auto
  qed
qed
end
