(* ===== verification/MetaConcurrent.thy ===== *)
theory MetaConcurrent
  imports MetaInvariant
begin

text \<open>
  \<open>GetAndLock\<close> while other threads create objects of their own: the compare and exchange makes sure
  that an address never gets two objects, and the object of the loser is freed again.
\<close>

section \<open>Another thread\<close>

text \<open>The same operation on a processor whose cache holds the index \<open>k\<close>.\<close>

definition other_create :: "bool \<Rightarrow> u32 \<times> u32 \<times> u64 \<Rightarrow> meta_map \<Rightarrow> meta_map" where
  "other_create det r m =
     (case r of (k, stk, b) \<Rightarrow>
        (case GetOrCreateAndLock det stk b (m\<lparr>sync_alloc := (fst (sync_alloc m), [k])\<rparr>) of
           Some (_, m') \<Rightarrow> m'\<lparr>sync_alloc := (fst (sync_alloc m'), snd (sync_alloc m))\<rparr>
         | None \<Rightarrow> m))"

text \<open>A step adds at most one object, at the front of its list, and touches no other.\<close>

definition extends :: "u32 set \<Rightarrow> meta_map \<Rightarrow> meta_map \<Rightarrow> bool" where
  "extends K m m' \<longleftrightarrow>
     (\<forall>b i. sync_at m b = Some i \<longrightarrow> sync_at m' b = Some i) \<and>
     (\<forall>a. mm_meta m' (MemToMeta a) = mm_meta m (MemToMeta a) \<longrightarrow> sync_at m' a = sync_at m a) \<and>
     (\<forall>i. i \<notin> K \<longrightarrow> mm_syncs m' i = mm_syncs m i) \<and> sync_alloc m' = sync_alloc m \<and>
     sync_refs (mm_syncs m') = sync_refs (mm_syncs m) \<and> mm_clocks m' = mm_clocks m"

lemma upd_order: "m\<lparr>mm_meta := x, sync_alloc := y\<rparr> = m\<lparr>sync_alloc := y, mm_meta := x\<rparr>"
  by (cases m) simp

lemma extends_refl: "extends K m m"
  by (simp add: extends_def)

lemma other_create_effect:
  assumes inv: "mm_inv SL BL X Y m" and k: "k \<in> X"
  shows "\<exists>SL'. mm_inv SL' BL (X - {k}) Y (other_create det (k, stk, b) m) \<and> sync_at (other_create det (k, stk, b) m) b = Some k \<or>
      mm_inv SL' BL X Y (other_create det (k, stk, b) m) \<and> other_create det (k, stk, b) m = m"
    and "extends {k} m (other_create det (k, stk, b) m)"
proof -
  let ?m0 = "m\<lparr>sync_alloc := (fst (sync_alloc m), [k])\<rparr>" and ?c = "MemToMeta b" and ?f = "other_create det (k, stk, b) m"
  have f0: "find_sync b ?m0 (mm_meta m ?c) = Some (sync_at m b)"
    using find_sync_links [of ?m0 "SL ?c" "BL ?c" "mm_meta m ?c" b] mm_links [OF inv, of ?c]
      find_sync_links [OF mm_links [OF inv, of ?c], of b] by (simp add: sync_at_def)
  have "(\<exists>SL'. mm_inv SL' BL (X - {k}) Y ?f \<and> sync_at ?f b = Some k \<or> mm_inv SL' BL X Y ?f \<and> ?f = m) \<and> extends {k} m ?f"
  proof (cases "sync_at m b")
    case (Some i)
    have "GetOrCreateAndLock det stk b ?m0 = Some (i, ?m0)"
      using f0 Some by (simp add: GetOrCreateAndLock_def GetAndLock_def get_loop.simps [of "[]" det stk b True])
    then have "?f = m" by (simp add: other_create_def)
    then show ?thesis using inv extends_refl by auto
  next
    case None
    let ?m1 = "SyncVar_Init det stk b (uid_gen m) k (?m0\<lparr>uid_gen := uid_gen m + 1, sync_alloc := (fst (sync_alloc m), [])\<rparr>)"
    let ?m2 = "upd_sync k (\<lambda>s. s\<lparr>sv_next := mm_meta m ?c\<rparr>) ?m1"
    let ?m3 = "?m2\<lparr>mm_meta := (mm_meta m)(?c := k OR kFlagSync)\<rparr>"
    have "ensure_sync det stk b 0 ?m0 = Some (k, ?m1)" by (simp add: ensure_sync_def da_alloc_cache)
    then have "GetOrCreateAndLock det stk b ?m0 = Some (k, ?m3)"
      using f0 None by (simp add: GetOrCreateAndLock_def GetAndLock_def get_loop.simps [of "[]" det stk b True] interfere_def)
    then have f: "?f = ?m3\<lparr>sync_alloc := sync_alloc m\<rparr>" by (simp add: other_create_def)
    have out: "k \<notin> on_lists SL" and ck: "\<forall>i. i \<notin> on_lists SL \<union> X \<longrightarrow> blank (mm_syncs m i)"
      and small: "small_index k"
      using inv k sync_small [of "sync_alloc m" "on_lists SL \<union> X" k] by (auto simp: mm_inv_def)
    let ?m2' = "?m2\<lparr>sync_alloc := sync_alloc m\<rparr>"
    have inv2: "mm_inv SL BL X Y ?m2'" by (rule mm_inv_fields [OF inv]) (use out k in auto)
    have X: "X = insert k (X - {k})" using k by blast
    have none: "sync_at ?m2' b = None"
    proof (rule ccontr)
      assume "sync_at ?m2' b \<noteq> None"
      then obtain j where "sync_at ?m2' b = Some j" by blast
      then have "sync_at m b = Some j" using sync_at_iff [OF inv2, of b j] sync_at_iff [OF inv, of b j] out by (auto split: if_splits)
      then show False using None by simp
    qed
    have inv3: "mm_inv (SL(?c := k # SL ?c)) BL (X - {k}) Y ?f"
      using publish_effect [of SL BL k "X - {k}" Y ?m2' ?c] inv2 X small none unfolding f upd_order by simp
    note S = sync_at_new [OF inv inv3 out]
    have sy: "mm_syncs ?f = (mm_syncs m)(k := (mm_syncs m k)\<lparr>sv_addr := b, sv_uid := uid_gen m, sv_next := mm_meta m ?c, sv_stack := stk\<rparr>)"
      unfolding f by (auto simp: fun_eq_iff)
    have at: "sync_at ?f = (sync_at m)(b := Some k)" using S(1) sy by simp
    have "k OR kFlagSync \<noteq> mm_meta m ?c"
    proof
      assume e: "k OR kFlagSync = mm_meta m ?c"
      have l: "links (mm_syncs m) (SL ?c) (BL ?c) (k OR kFlagSync)" using mm_links [OF inv, of ?c] e by simp
      show False
      proof (cases "SL ?c")
        case Nil
        then show ?thesis using l tagged [OF small] by (auto split: option.splits dest: tagged(4))
      next
        case (Cons i "is")
        then have "small_index i" "k OR kFlagSync = i OR kFlagSync" using l by simp_all
        then have "k = i" using tagged(1) small by metis
        then have "k \<in> set (SL ?c)" using Cons by simp
        then show ?thesis using out unfolding on_lists_def by blast
      qed
    qed
    moreover have "mm_meta ?f = (mm_meta m)(?c := k OR kFlagSync)" "mm_clocks ?f = mm_clocks m" "sync_alloc ?f = sync_alloc m"
      unfolding f by simp_all
    moreover have "sync_refs (mm_syncs ?f) = sync_refs (mm_syncs m)" by (rule sync_refs_cong) (simp add: sy sv_refs_def)
    ultimately have "extends {k} m ?f" using None unfolding extends_def at sy by auto
    then show ?thesis using inv3 at by auto
  qed
  then show "\<exists>SL'. mm_inv SL' BL (X - {k}) Y ?f \<and> sync_at ?f b = Some k \<or> mm_inv SL' BL X Y ?f \<and> ?f = m" "extends {k} m ?f" by blast+
qed

section \<open>The loop\<close>

lemma extends_mono: "extends K m m' \<Longrightarrow> K \<subseteq> K' \<Longrightarrow> extends K' m m'"
  by (auto simp: extends_def)

text \<open>
  \<open>phase rs X m X' m'\<close>: between the two states only the threads of \<open>rs\<close> used indices they had reserved. Each either
  left its index alone, or its object is now the one of its address; and every object of an address stays it.
\<close>

definition phase :: "(u32 \<times> u32 \<times> u64) list \<Rightarrow> u32 set \<Rightarrow> meta_map \<Rightarrow> u32 set \<Rightarrow> meta_map \<Rightarrow> bool" where
  "phase rs X m X' m' \<longleftrightarrow>
     (\<forall>j \<in> X. j \<notin> fst ` set rs \<longrightarrow> j \<in> X' \<and> mm_syncs m' j = mm_syncs m j) \<and>
     (\<forall>(k, stk, b) \<in> set rs. k \<in> X' \<and> mm_syncs m' k = mm_syncs m k \<or> sync_at m' b = Some k) \<and>
     (\<forall>b i. sync_at m b = Some i \<longrightarrow> sync_at m' b = Some i)"

lemma phase_trans:
  assumes "phase rs X m X1 m1" "phase rs' X1 m1 X2 m2" "distinct (map fst (rs @ rs'))" "fst ` set (rs @ rs') \<subseteq> X"
  shows "phase (rs @ rs') X m X2 m2"
  unfolding phase_def
proof (intro conjI ballI allI impI)
  fix j assume "j \<in> X" "j \<notin> fst ` set (rs @ rs')"
  then have "j \<in> X1" "mm_syncs m1 j = mm_syncs m j" "j \<notin> fst ` set rs'" using assms(1) by (simp_all add: phase_def image_Un)
  then show "j \<in> X2" "mm_syncs m2 j = mm_syncs m j" using assms(2) by (simp_all add: phase_def)
next
  fix r assume r: "r \<in> set (rs @ rs')"
  obtain k stk b where kb: "r = (k, stk, b)" by (cases r)
  show "case r of (k, stk, b) \<Rightarrow> k \<in> X2 \<and> mm_syncs m2 k = mm_syncs m k \<or> sync_at m2 b = Some k"
  proof (cases "r \<in> set rs")
    case True
    then have "k \<notin> fst ` set rs'" using assms(3) kb by (force simp: distinct_map)
    moreover have "k \<in> X1 \<and> mm_syncs m1 k = mm_syncs m k \<or> sync_at m1 b = Some k"
      using assms(1) True kb by (auto simp: phase_def)
    ultimately show ?thesis using assms(2) kb by (auto simp: phase_def)
  next
    case False
    then have r': "r \<in> set rs'" using r by simp
    then have "k \<notin> fst ` set rs" using assms(3) kb by (force simp: distinct_map)
    then have "mm_syncs m1 k = mm_syncs m k" using assms(1,4) r kb by (force simp: phase_def)
    then show ?thesis using assms(2) r' kb by (auto simp: phase_def)
  qed
next
  fix b i assume "sync_at m b = Some i"
  then show "sync_at m2 b = Some i" using assms(1,2) by (simp add: phase_def)
qed

text \<open>Threads that have not yet come to act.\<close>

lemma phase_more: "phase [] X m X' m' \<Longrightarrow> fst ` set rs \<subseteq> X \<Longrightarrow> phase rs X m X' m'"
  by (fastforce simp: phase_def)

lemma phase_less:
  assumes "phase rs X m X' m'" "i \<notin> fst ` set rs"
  shows "phase rs (X - {i}) m (X' - {i}) m'"
proof -
  have "k \<noteq> i" if "(k, stk, b) \<in> set rs" for k stk b
    using assms(2) image_eqI [of k fst "(k, stk, b)" "set rs"] that by auto
  then show ?thesis using assms(1) unfolding phase_def by (intro conjI) (simp, blast, blast)
qed

lemma interfere_effect:
  assumes inv: "mm_inv SL BL X Y m" and rs: "distinct (map fst rs)" "fst ` set rs \<subseteq> X"
  shows "\<exists>SL' X'. mm_inv SL' BL X' Y (interfere (map (other_create det) rs) m) \<and> X' \<subseteq> X \<and> X - fst ` set rs \<subseteq> X' \<and>
    fst ` set (tl rs) \<subseteq> X' \<and> extends (fst ` set rs) m (interfere (map (other_create det) rs) m) \<and>
    phase (take 1 rs) X m X' (interfere (map (other_create det) rs) m)"
proof (cases rs)
  case Nil
  then show ?thesis using inv extends_refl by (auto simp: interfere_def phase_def)
next
  case (Cons r rs')
  obtain k stk b where r: "r = (k, stk, b)" by (cases r)
  have k: "k \<in> X" "k \<notin> fst ` set rs'" using rs Cons r by auto
  let ?f = "other_create det (k, stk, b) m"
  have i: "interfere (map (other_create det) rs) m = ?f" by (simp add: interfere_def Cons r)
  have e: "extends {k} m ?f" by (rule other_create_effect(2) [OF inv k(1)])
  have e': "extends (fst ` set rs) m ?f" using extends_mono [OF e, of "fst ` set rs"] r Cons by auto
  obtain SL' where s: "mm_inv SL' BL (X - {k}) Y ?f \<and> sync_at ?f b = Some k \<or> mm_inv SL' BL X Y ?f \<and> ?f = m"
    using other_create_effect(1) [OF inv k(1)] by blast
  have sets: "X - fst ` set rs \<subseteq> X - {k}" "fst ` set (tl rs) \<subseteq> X - {k}" using k rs(2) Cons r by auto
  from s show ?thesis
  proof
    assume s: "mm_inv SL' BL (X - {k}) Y ?f \<and> sync_at ?f b = Some k"
    then have "phase (take 1 rs) X m (X - {k}) ?f" using e by (auto simp: phase_def extends_def Cons r)
    then show ?thesis unfolding i using s sets e' by blast
  next
    assume s: "mm_inv SL' BL X Y ?f \<and> ?f = m"
    then have "phase (take 1 rs) X m X ?f" using k by (auto simp: phase_def Cons r)
    then show ?thesis unfolding i using s sets e' by blast
  qed
qed

lemma sync_at_same:
  assumes "mm_inv SL BL X Y m" "mm_inv SL BL' X' Y' m'" "\<forall>i \<in> on_lists SL. sv_addr (mm_syncs m' i) = sv_addr (mm_syncs m i)"
  shows "sync_at m' = sync_at m"
  using assms(3) sync_at_iff [OF assms(1)] sync_at_iff [OF assms(2)] by (intro ext option_eqI) auto

text \<open>What the thread works with before the compare and exchange: its own object, new or from an earlier round.\<close>

lemma own_object:
  assumes inv: "mm_inv SL BL X Y m"
    and my: "my = 0 \<and> da_alloc kSyncL1 kSyncL2 (sync_alloc m) \<noteq> None \<or> my \<in> X \<and> sv_addr (mm_syncs m my) = a"
  shows "\<exists>i m'. ensure_sync det stk a my m = Some (i, m') \<and> mm_inv SL BL (insert i X) Y m' \<and> small_index i \<and>
    (if my = 0 then i \<notin> X else i = my) \<and> sv_addr (mm_syncs m' i) = a \<and> mm_meta m' = mm_meta m \<and> (\<forall>j. j \<noteq> i \<longrightarrow> mm_syncs m' j = mm_syncs m j) \<and>
    sv_refs (mm_syncs m' i) = sv_refs (mm_syncs m i) \<and> mm_clocks m' = mm_clocks m"
proof (cases "my = 0")
  case True
  have da: "da_ok kSyncL1 kSyncL2 (sync_alloc m) (on_lists SL \<union> X)" using inv by (simp add: mm_inv_def)
  have "0 \<notin> X" using sync_small [OF da, of 0] by (auto simp: small_index_def)
  then obtain i al where "da_alloc kSyncL1 kSyncL2 (sync_alloc m) = Some (i, al)" using my True by auto
  from ensure_effect [OF inv this, of det stk a] True show ?thesis by (auto simp: sv_refs_def)
next
  case False
  then have "my \<in> X" "sv_addr (mm_syncs m my) = a" using my by simp_all
  moreover have "small_index my"
    using inv \<open>my \<in> X\<close> sync_small [of "sync_alloc m" "on_lists SL \<union> X" my] by (auto simp: mm_inv_def)
  ultimately show ?thesis using False inv by (auto simp: ensure_sync_def insert_absorb)
qed

lemma get_loop_concurrent:
  assumes "mm_inv SL BL X Y m" "clocks_ok E Z m" "distinct (map fst rs)" "fst ` set rs \<subseteq> X"
    and "my = 0 \<and> da_alloc kSyncL1 kSyncL2 (sync_alloc m) \<noteq> None \<or> my \<in> X \<and> my \<notin> fst ` set rs \<and> sv_addr (mm_syncs m my) = a"
  shows "\<exists>i m' SL' X'. get_loop (map (other_create det) rs) det stk a True (mm_meta m (MemToMeta a)) my m = Some (Some i, m') \<and>
    mm_inv SL' BL X' Y m' \<and> X' \<subseteq> X - {my} \<and> clocks_ok E Z m' \<and> sync_at m' a = Some i \<and>
    phase rs (X - {my}) m X' m'"
  using assms
proof (induction rs arbitrary: SL X m my rule: length_induct)
  case (1 rs)
  let ?c = "MemToMeta a" and ?oc = "map (other_create det)"
  note inv = "1.prems"(1) and ck = "1.prems"(2) and rs = "1.prems"(3,4) and my = "1.prems"(5)
  have nz: "0 \<notin> X" using inv sync_small [of "sync_alloc m" "on_lists SL \<union> X" 0] by (auto simp: mm_inv_def small_index_def)
  have "my \<notin> fst ` set rs" using my
  proof
    assume "my = 0 \<and> da_alloc kSyncL1 kSyncL2 (sync_alloc m) \<noteq> None"
    then show ?thesis using contra_subsetD [OF rs(2) nz] by simp
  qed (rule conjunct1 [OF conjunct2])
  then have keys: "fst ` set rs \<subseteq> X - {my}" using rs(2) by blast
  show ?case
  proof (cases "sync_at m a")
    case (Some i)
    show ?thesis
    proof (cases "my = 0")
      case True
      have "phase rs (X - {my}) m X m" by (rule phase_more [OF _ keys]) (auto simp: phase_def)
      then show ?thesis using True Some find_sync_at [OF inv, of a] inv ck nz by (subst get_loop.simps) auto
    next
      case False
      then have X: "X = insert my (X - {my})" using my by blast
      have "mm_inv SL BL (insert my (X - {my})) Y m" using inv X by simp
      from discard_effect [OF this _ ck] obtain m' where m': "SyncVar_Reset my m = Some m'"
          "mm_inv SL BL (X - {my}) Y (free_sync my m')" "clocks_ok E Z (free_sync my m')"
          "\<forall>j. j \<noteq> my \<longrightarrow> mm_syncs m' j = mm_syncs m j" "sv_addr (mm_syncs m' my) = sv_addr (mm_syncs m my)"
        by blast
      have "sync_at (free_sync my m') = sync_at m" by (rule sync_at_same [OF inv m'(2)]) (use m'(4,5) in auto)
      moreover from this have "phase rs (X - {my}) m (X - {my}) (free_sync my m')"
        using m'(4) by (intro phase_more [OF _ keys]) (auto simp: phase_def)
      ultimately show ?thesis using Some find_sync_at [OF inv, of a] m' False by (subst get_loop.simps) auto
    qed
  next
    case None
    obtain SL1 X1 where s1: "mm_inv SL1 BL X1 Y (interfere (?oc rs) m)" "X1 \<subseteq> X" "X - fst ` set rs \<subseteq> X1" "fst ` set (tl rs) \<subseteq> X1"
        "extends (fst ` set rs) m (interfere (?oc rs) m)" "phase (take 1 rs) X m X1 (interfere (?oc rs) m)"
      using interfere_effect [OF inv rs] by blast
    define m1 where "m1 = interfere (?oc rs) m"
    have ph1: "phase (take 1 rs) (X - {my}) m (X1 - {my}) m1"
    proof (rule phase_less)
      show "phase (take 1 rs) X m X1 m1" using s1(6) by (simp only: m1_def)
      show "my \<notin> fst ` set (take 1 rs)" using keys image_mono [OF set_take_subset, of fst 1 rs] by blast
    qed
    have split: "take 1 rs @ tl rs = rs" "take 1 (tl rs) @ tl (tl rs) = tl rs" by (cases rs; cases "tl rs"; simp)+
    have ck1: "clocks_ok E Z m1" using ck s1(5) by (simp add: extends_def clocks_ok_def m1_def)
    have drs: "distinct (map fst (tl rs))" "fst ` set (tl (tl rs)) \<subseteq> fst ` set (tl rs)" "fst ` set (tl rs) \<subseteq> fst ` set rs"
        "distinct (map fst (tl (tl rs)))"
      using rs(1) by (cases rs; cases "tl rs"; auto)+
    have my1: "my = 0 \<and> da_alloc kSyncL1 kSyncL2 (sync_alloc m1) \<noteq> None \<or> my \<in> X1 \<and> my \<notin> fst ` set (tl rs) \<and> sv_addr (mm_syncs m1 my) = a"
      using my s1(3,5) drs(3) unfolding extends_def m1_def by (elim disjE) auto
    have mono1: "sync_at m b = Some j \<Longrightarrow> sync_at m1 b = Some j" for b j using s1(5) by (simp add: extends_def m1_def)
    show ?thesis
    proof (cases "mm_meta m1 ?c = mm_meta m ?c")
      case False
      then have "rs \<noteq> []" by (auto simp: m1_def interfere_def)
      then have shorter: "length (tl rs) < length rs" by simp
      have step1: "get_loop (?oc rs) det stk a True (mm_meta m ?c) my m = get_loop (?oc (tl rs)) det stk a True (mm_meta m1 ?c) my m1"
        using find_sync_at [OF inv, of a] None False by (subst get_loop.simps) (simp add: Let_def m1_def map_tl)
      from "1.IH" [rule_format, OF shorter s1(1) [folded m1_def] ck1 drs(1) s1(4) my1]
      obtain i' m' SL' X' where g: "get_loop (?oc (tl rs)) det stk a True (mm_meta m1 ?c) my m1 = Some (Some i', m')"
          "mm_inv SL' BL X' Y m'" "X' \<subseteq> X1 - {my}" "clocks_ok E Z m'" "sync_at m' a = Some i'"
          "phase (tl rs) (X1 - {my}) m1 X' m'"
        by (elim exE conjE)
      have "get_loop (?oc rs) det stk a True (mm_meta m ?c) my m = Some (Some i', m')" using step1 g(1) by simp
      moreover have "X' \<subseteq> X - {my}" using g(3) s1(2) by blast
      moreover have "phase rs (X - {my}) m X' m'" by (rule phase_trans [OF ph1 g(6), unfolded split(1), OF rs(1) keys])
      ultimately show ?thesis using g(2,4,5) by blast
    next
      case True
      then have none1: "sync_at m1 a = None" using None s1(5) by (simp add: extends_def m1_def)
      have "my = 0 \<and> da_alloc kSyncL1 kSyncL2 (sync_alloc m1) \<noteq> None \<or> my \<in> X1 \<and> sv_addr (mm_syncs m1 my) = a" using my1 by blast
      from own_object [OF s1(1) [folded m1_def] this, of det stk] obtain i m2 where
          m2: "ensure_sync det stk a my m1 = Some (i, m2)" "mm_inv SL1 BL (insert i X1) Y m2" "small_index i" "if my = 0 then i \<notin> X1 else i = my"
          "sv_addr (mm_syncs m2 i) = a" "mm_meta m2 = mm_meta m1" "\<forall>j. j \<noteq> i \<longrightarrow> mm_syncs m2 j = mm_syncs m1 j"
          "sv_refs (mm_syncs m2 i) = sv_refs (mm_syncs m1 i)" "mm_clocks m2 = mm_clocks m1"
        by blast
      define m3 where "m3 = upd_sync i (\<lambda>s. s\<lparr>sv_next := mm_meta m ?c\<rparr>) m2"
      have out: "i \<notin> on_lists SL1" using m2(2) by (auto simp: mm_inv_def)
      have inv3: "mm_inv SL1 BL (insert i X1) Y m3" by (rule mm_inv_fields [OF m2(2)]) (use out in \<open>auto simp: m3_def\<close>)
      have sy3: "sync_at m3 = sync_at m1" by (rule sync_at_same [OF s1(1) [folded m1_def] inv3]) (use out m2(7) in \<open>auto simp: m3_def\<close>)
      have "sync_refs (mm_syncs m3) = sync_refs (mm_syncs m1)"
        by (rule sync_refs_cong) (use m2(7,8) in \<open>auto simp: m3_def sv_refs_def\<close>)
      then have ck3: "clocks_ok E Z m3" using ck1 m2(9) by (simp add: clocks_ok_def m3_def)
      have ikey: "i \<notin> fst ` set (tl rs)" using m2(4) my1 s1(4) by (auto split: if_splits)
      have sub: "fst ` set (tl rs) \<subseteq> insert i X1" using s1(4) by blast
      obtain SL4 X4 where s4: "mm_inv SL4 BL X4 Y (interfere (?oc (tl rs)) m3)" "X4 \<subseteq> insert i X1" "insert i X1 - fst ` set (tl rs) \<subseteq> X4"
          "fst ` set (tl (tl rs)) \<subseteq> X4" "extends (fst ` set (tl rs)) m3 (interfere (?oc (tl rs)) m3)"
          "phase (take 1 (tl rs)) (insert i X1) m3 X4 (interfere (?oc (tl rs)) m3)"
        using interfere_effect [OF inv3 drs(1) sub] by blast
      define m4 where "m4 = interfere (?oc (tl rs)) m3"
      have i4: "i \<in> X4" "mm_syncs m4 i = mm_syncs m3 i" using s4(3,5) ikey by (auto simp: extends_def m4_def)
      have ck4: "clocks_ok E Z m4" using ck3 s4(5) by (simp add: extends_def clocks_ok_def m4_def)
      have addr4: "sv_addr (mm_syncs m4 i) = a" using i4(2) m2(5) by (simp add: m3_def)
      have mono4: "sync_at m4 b = Some j" if "sync_at m b = Some j" for b j
        using mono1 [OF that] sy3 s4(5) by (simp add: extends_def m4_def)
      have ph2: "phase [] (X1 - {my}) m1 (insert i X1 - {i}) m3"
        using m2(4,7) sy3 nz by (auto simp: phase_def m3_def split: if_splits)
      have ph3: "phase (take 1 (tl rs)) (insert i X1 - {i}) m3 (X4 - {i}) m4"
      proof (rule phase_less)
        show "phase (take 1 (tl rs)) (insert i X1) m3 X4 m4" using s4(6) by (simp only: m4_def)
        show "i \<notin> fst ` set (take 1 (tl rs))" using ikey image_mono [OF set_take_subset, of fst 1 "tl rs"] by blast
      qed
      have tk: "fst ` set (tl rs) \<subseteq> X1 - {my}" using s1(4) drs(3) keys by blast
      have first: "distinct (map fst (take 1 (tl rs)))" "fst ` set (take 1 (tl rs)) \<subseteq> X1 - {my}"
        using tk set_take_subset [of 1 "tl rs"] by (cases "tl rs"; force)+
      have ph13: "phase (take 1 (tl rs)) (X1 - {my}) m1 (X4 - {i}) m4"
        using phase_trans [OF ph2 ph3] first by simp
      have ph4: "phase rs (X - {my}) m X' m'" if "phase (tl (tl rs)) (X4 - {i}) m4 X' m'" for X' m'
        by (rule phase_trans [OF ph1 phase_trans [OF ph13 that, unfolded split(2), OF drs(1) tk], unfolded split(1), OF rs(1) keys])
      have left: "X4 - {i} \<subseteq> X - {my}" using s4(2) s1(2) m2(4) nz by (auto split: if_splits)
      have m4: "interfere (tl (?oc rs)) m3 = m4" by (simp add: m4_def map_tl)
      have step: "get_loop (?oc rs) det stk a True (mm_meta m ?c) my m =
          (if mm_meta m4 ?c = mm_meta m ?c then Some (Some i, m4\<lparr>mm_meta := (mm_meta m4)(?c := i OR kFlagSync)\<rparr>)
           else get_loop (?oc (tl (tl rs))) det stk a True (mm_meta m4 ?c) i m4)"
        using find_sync_at [OF inv, of a] None True m2(1)
        by (subst get_loop.simps) (simp add: Let_def m1_def [symmetric] m3_def [symmetric] m4 map_tl)
      show ?thesis
      proof (cases "mm_meta m4 ?c = mm_meta m ?c")
        case same: True
        let ?m = "m4\<lparr>mm_meta := (mm_meta m4)(?c := i OR kFlagSync)\<rparr>"
        have "mm_meta m3 ?c = mm_meta m ?c" using True m2(6) by (simp add: m3_def)
        then have "sync_at m4 a = sync_at m3 a" using same s4(5) by (simp add: extends_def m4_def)
        then have none4: "sync_at m4 a = None" using none1 sy3 by simp
        have X4: "X4 = insert i (X4 - {i})" using i4(1) by blast
        have inv4: "mm_inv SL4 BL (insert i (X4 - {i})) Y m4" using s4(1) X4 by (simp add: m4_def)
        have inv5: "mm_inv (SL4(?c := i # SL4 ?c)) BL (X4 - {i}) Y ?m"
          using publish_effect [OF inv4 _ m2(3), of ?c] i4(2) addr4 none4 same by (simp add: m3_def)
        have out4: "i \<notin> on_lists SL4" using inv4 by (auto simp: mm_inv_def)
        have sm: "sync_at ?m = (sync_at m4)(a := Some i)" using sync_at_new(1) [OF inv4 inv5 out4] addr4 by simp
        have "clocks_ok E Z ?m" using ck4 by (simp add: clocks_ok_def)
        moreover have "get_loop (?oc rs) det stk a True (mm_meta m ?c) my m = Some (Some i, ?m)" using step same by simp
        moreover have "sync_at ?m a = Some i" unfolding sm by simp
        moreover have phm: "phase rs (X - {my}) m (X4 - {i}) ?m"
        proof (rule ph4)
          have "fst ` set (tl (tl rs)) \<subseteq> X4 - {i}" using s4(4) ikey drs(2) by blast
          moreover have "phase [] (X4 - {i}) m4 (X4 - {i}) ?m" using none4 unfolding phase_def sm by auto
          ultimately show "phase (tl (tl rs)) (X4 - {i}) m4 (X4 - {i}) ?m" by (rule phase_more [rotated])
        qed
        ultimately show ?thesis using inv5 left by (intro exI conjI)
      next
        case False
        have "tl rs \<noteq> []"
        proof
          assume "tl rs = []"
          then show False using False True m2(6) by (simp add: m4_def interfere_def m3_def)
        qed
        then have shorter: "length (tl (tl rs)) < length rs" by (cases rs) auto
        have my4: "i = 0 \<and> da_alloc kSyncL1 kSyncL2 (sync_alloc m4) \<noteq> None \<or> i \<in> X4 \<and> i \<notin> fst ` set (tl (tl rs)) \<and> sv_addr (mm_syncs m4 i) = a"
          using i4(1) ikey drs(2) addr4 by blast
        have step2: "get_loop (?oc rs) det stk a True (mm_meta m ?c) my m = get_loop (?oc (tl (tl rs))) det stk a True (mm_meta m4 ?c) i m4"
          using step False by simp
      from "1.IH" [rule_format, OF shorter s4(1) [folded m4_def] ck4 drs(4) s4(4) my4]
      obtain i' m' SL' X' where g: "get_loop (?oc (tl (tl rs))) det stk a True (mm_meta m4 ?c) i m4 = Some (Some i', m')"
          "mm_inv SL' BL X' Y m'" "X' \<subseteq> X4 - {i}" "clocks_ok E Z m'" "sync_at m' a = Some i'"
          "phase (tl (tl rs)) (X4 - {i}) m4 X' m'"
        by (elim exE conjE)
      have "get_loop (?oc rs) det stk a True (mm_meta m ?c) my m = Some (Some i', m')" using step2 g(1) by simp
      moreover have "X' \<subseteq> X - {my}" using g(3) left by blast
      moreover note ph4 [OF g(6)]
      ultimately show ?thesis using g(2,4,5) by blast
      qed
    qed
  qed
qed

end
