(* ===== verification/MetaCells.thy ===== *)
theory MetaCells
  imports MetaMap
begin

text \<open>
  Where the metadata of an address lies: the four application regions are laid side by side without overlap, four
  bytes of metadata for a cell of eight bytes, so that a range of addresses inside a region is a range
  of metadata cells.
\<close>

section \<open>Positions\<close>

definition meta_pos :: "u64 \<Rightarrow> nat" where
  "meta_pos a = unat (drop_bit 40 a AND NOT 0x78) * 2 ^ 40 + unat (take_bit 40 a)"

lemma MemToMeta_unat:
  assumes "drop_bit 40 a AND NOT 0x78 < 8"
  shows "unat (MemToMeta a) = 0x300000000000 + meta_pos a div 8 * 4"
proof -
  let ?m = "drop_bit 40 a AND NOT 0x78"
  have m: "unat ?m < 8" using assms by (simp add: word_less_nat_alt)
  define v where "v = a AND NOT (kAppMemMsk OR (kMetaShadowCell - 1))"
  have v: "v = at ?m (cell_of a)"
    using cell_of_at [of "drop_bit 40 a" a] at_split [of a] by (simp add: v_def mask_at(4) cell_of_def)
  have hi: "drop_bit 40 (cell_of a) = drop_bit 40 a"
    by (rule bit_word_eqI) (auto simp: cell_of_def bit_simps dest: bit_imp_le_length)
  have "(d * 2 ^ 40 + l) div 8 * 8 = d * 2 ^ 40 + l div 8 * 8" for d l :: nat
  proof -
    have "d * 2 ^ 40 + l = l + 8 * (d * 2 ^ 37)" by simp
    then have "(d * 2 ^ 40 + l) div 8 = l div 8 + d * 2 ^ 37" by simp
    then show ?thesis by simp
  qed
  then have low: "unat (take_bit 40 (cell_of a)) = unat (take_bit 40 a) div 8 * 8"
    using cell_of_unat [of a] upper_byte [of a] upper_byte [of "cell_of a"] unfolding hi by simp
  have uv: "unat v = unat ?m * 2 ^ 40 + unat (take_bit 40 a) div 8 * 8"
    using unat_at [of ?m "cell_of a"] m low unfolding v by (simp add: word_less_nat_alt)
  then have d: "unat v div 8 = meta_pos a div 8" by (simp add: meta_pos_def)
  have "meta_pos a < 8 * 2 ^ 40"
    using m unat_low [of a] by (simp add: meta_pos_def)
  then have "meta_pos a div 8 < 2 ^ 40" by (simp add: div_less_iff_less_mult)
  then have small: "meta_pos a div 8 * 4 < 2 ^ 42" by simp
  have q: "unat (v div kMetaShadowCell * kMetaShadowSize) = meta_pos a div 8 * 4"
  proof -
    have "unat (v div 8) = meta_pos a div 8" using d by (simp add: unat_div)
    then show ?thesis using small by (simp add: mapping_consts unat_word_ariths unat_div)
  qed
  have "(v div kMetaShadowCell * kMetaShadowSize) AND kMetaShadowBeg = 0"
  proof -
    have "take_bit 42 (v div kMetaShadowCell * kMetaShadowSize) = v div kMetaShadowCell * kMetaShadowSize"
      using q small by (simp add: word_unat_eq_iff unsigned_take_bit_eq take_bit_nat_eq_self)
    moreover have "kMetaShadowBeg = push_bit 44 3" by (simp add: mapping_consts)
    moreover have "take_bit 42 w AND push_bit 44 x = 0" for w x :: u64 by (rule bit_word_eqI) (auto simp: bit_simps)
    ultimately show ?thesis by metis
  qed
  then have "MemToMeta a = (v div kMetaShadowCell * kMetaShadowSize) + kMetaShadowBeg"
    by (simp add: MemToMeta_def v_def disjunctive_add_eq_or)
  then show ?thesis using q small by (simp add: mapping_consts unat_word_ariths)
qed

section \<open>Regions\<close>

text \<open>What is subtracted from the addresses of a region.\<close>

definition region_shift :: "nat \<Rightarrow> nat" where
  "region_shift i = (if i = 0 then 0 else if i = 3 then 0x500000000000 else 0x780000000000)"

definition in_region :: "nat \<Rightarrow> u64 \<Rightarrow> bool" where
  "in_region i a \<longleftrightarrow> (case GetUserRegion i of Some (b, e) \<Rightarrow> b \<le> a \<and> a < e | None \<Rightarrow> False)"

lemma region_index: "in_region i a \<Longrightarrow> i = 0 \<or> i = 1 \<or> i = 2 \<or> i = 3"
  by (auto simp: in_region_def GetUserRegion_def split: if_splits)

lemma region_bounds:
  assumes "in_region i a"
  shows "i = 0 \<and> 0x1000 \<le> unat a \<and> unat a < 0x8000000000 \<or> i = 1 \<and> 0x7e8000000000 \<le> unat a \<and> unat a < 0x800000000000 \<or>
    i = 2 \<and> 0x7b0000000000 \<le> unat a \<and> unat a < 0x7c0000000000 \<or> i = 3 \<and> 0x550000000000 \<le> unat a \<and> unat a < 0x568000000000"
  using region_index [OF assms] assms
  by (elim disjE) (simp_all add: in_region_def GetUserRegion_def mapping_consts word_le_nat_alt word_less_nat_alt)

lemma app_region: "IsAppMem a \<longleftrightarrow> (\<exists>i. in_region i a)"
proof -
  have "(\<exists>i. in_region i a) \<longleftrightarrow> in_region 0 a \<or> in_region 1 a \<or> in_region 2 a \<or> in_region 3 a"
    using region_index by metis
  then show ?thesis by (simp add: in_region_def GetUserRegion_def IsAppMem_def) blast
qed

lemma region_pos:
  assumes "in_region i a"
  shows "unat a = meta_pos a + region_shift i" "drop_bit 40 a AND NOT 0x78 < 8"
proof -
  have i: "i = 0 \<or> i = 1 \<or> i = 2 \<or> i = 3" by (rule region_index [OF assms])
  have "unat a = meta_pos a + region_shift i \<and> drop_bit 40 a AND NOT 0x78 < 8"
  proof -
    have d: "unat (drop_bit 40 a) = unat a div 2 ^ 40" by (simp add: drop_bit_eq_div unat_div)
    note u = upper_byte [of a]
    consider "i = 0" "drop_bit 40 a = 0" | "i = 1" "drop_bit 40 a \<in> {0x7e, 0x7f}" | "i = 2" "drop_bit 40 a = 0x7b" | "i = 3" "drop_bit 40 a \<in> {0x55, 0x56}"
    proof -
      have "(i = 0 \<and> unat a div 2 ^ 40 = 0) \<or> (i = 1 \<and> unat a div 2 ^ 40 \<in> {0x7e, 0x7f}) \<or> (i = 2 \<and> unat a div 2 ^ 40 = 0x7b) \<or>
          (i = 3 \<and> unat a div 2 ^ 40 \<in> {0x55, 0x56})"
        using region_bounds [OF assms] by (elim disjE) auto
      then show ?thesis using that unfolding d [symmetric] by (auto simp: word_unat_eq_iff)
    qed
    then show ?thesis by cases (use u in \<open>auto simp: meta_pos_def region_shift_def\<close>)
  qed
  then show "unat a = meta_pos a + region_shift i" "drop_bit 40 a AND NOT 0x78 < 8" by simp_all
qed

lemma region_meta: "in_region i a \<Longrightarrow> unat (MemToMeta a) = 0x300000000000 + meta_pos a div 8 * 4"
  using MemToMeta_unat region_pos(2) by blast

lemma region_shift_8: "region_shift i = 8 * (region_shift i div 8)"
  by (simp add: region_shift_def)

text \<open>Different cells of application memory have different metadata.\<close>

lemma region_interval:
  assumes "in_region i a"
  shows "i = 0 \<and> meta_pos a < 0x8000000000 \<or> i = 2 \<and> 0x30000000000 \<le> meta_pos a \<and> meta_pos a < 0x40000000000 \<or>
    i = 3 \<and> 0x50000000000 \<le> meta_pos a \<and> meta_pos a < 0x68000000000 \<or> i = 1 \<and> 0x68000000000 \<le> meta_pos a"
proof -
  have "unat a = meta_pos a + region_shift i" by (rule region_pos(1) [OF assms])
  then show ?thesis using region_bounds [OF assms] by (elim disjE) (simp_all add: region_shift_def)
qed

lemma region_cells:
  assumes "in_region i a"
  shows "i = 0 \<and> meta_pos a div 8 < 0x1000000000 \<or> i = 2 \<and> 0x6000000000 \<le> meta_pos a div 8 \<and> meta_pos a div 8 < 0x8000000000 \<or>
    i = 3 \<and> 0xa000000000 \<le> meta_pos a div 8 \<and> meta_pos a div 8 < 0xd000000000 \<or> i = 1 \<and> 0xd000000000 \<le> meta_pos a div 8"
  using region_interval [OF assms] by (simp add: div_less_iff_less_mult less_eq_div_iff_mult_less_eq)

lemma region_addresses:
  assumes "in_region i a"
  shows "i = 0 \<and> unat a div 8 < 0x1000000000 \<or> i = 3 \<and> 0xaa000000000 \<le> unat a div 8 \<and> unat a div 8 < 0xad000000000 \<or>
    i = 2 \<and> 0xf6000000000 \<le> unat a div 8 \<and> unat a div 8 < 0xf8000000000 \<or> i = 1 \<and> 0xfd000000000 \<le> unat a div 8"
  using region_bounds [OF assms] by (elim disjE) (simp_all add: div_less_iff_less_mult less_eq_div_iff_mult_less_eq)

lemma same_position:
  assumes "in_region i a" "in_region j b" "meta_pos a div 8 = meta_pos b div 8"
  shows "i = j"
  using region_cells [OF assms(1)] region_cells [OF assms(2)] unfolding assms(3) by linarith

lemma meta_injective:
  assumes "IsAppMem a" "IsAppMem b"
  shows "MemToMeta a = MemToMeta b \<longleftrightarrow> unat a div 8 = unat b div 8"
proof -
  obtain i j where ij: "in_region i a" "in_region j b" using assms unfolding app_region by blast
  have e: "MemToMeta a = MemToMeta b \<longleftrightarrow> meta_pos a div 8 = meta_pos b div 8"
    using region_meta [OF ij(1)] region_meta [OF ij(2)] by (auto simp: word_unat_eq_iff)
  have d: "unat a div 8 = meta_pos a div 8 + region_shift i div 8" "unat b div 8 = meta_pos b div 8 + region_shift j div 8"
    using region_pos(1) [OF ij(1)] region_pos(1) [OF ij(2)] region_shift_8 [of i] region_shift_8 [of j] by linarith+
  show ?thesis
  proof
    assume "MemToMeta a = MemToMeta b"
    then show "unat a div 8 = unat b div 8" using e d same_position [OF ij] by simp
  next
    assume u: "unat a div 8 = unat b div 8"
    have "i = j" using region_addresses [OF ij(1)] region_addresses [OF ij(2)] unfolding u by linarith
    then show "MemToMeta a = MemToMeta b" using e d u by simp
  qed
qed

section \<open>Ranges\<close>

lemma meta_cells_set:
  assumes "unat e = unat b + 4 * n"
  shows "set (meta_cells b e) = {c. \<exists>i < n. unat c = unat b + 4 * i}"
proof (cases "b < e")
  case True
  have "unat (e - b) = 4 * n" using True assms by (simp add: unat_sub)
  then have m: "meta_cells b e = map (\<lambda>i. b + 4 * of_nat i) [0..<n]" using True by (simp add: meta_cells_def)
  have u: "unat (b + 4 * of_nat i) = unat b + 4 * i" if "i < n" for i
  proof -
    have "unat b + 4 * n < 2 ^ 64" using unat_64_less [of e] assms by simp
    then have s: "unat b + 4 * i < 2 ^ 64" "4 * i < 2 ^ 64" using that by linarith+
    then have "unat (4 * of_nat i :: u64) = 4 * i" using unat_of_nat_small [of "4 * i", where 'a = 64] by simp
    then show ?thesis using s(1) by (simp add: unat_plus_if')
  qed
  have "c \<in> set (meta_cells b e) \<longleftrightarrow> (\<exists>i < n. c = b + 4 * of_nat i)" for c by (auto simp: m)
  moreover have "c = b + 4 * of_nat i \<longleftrightarrow> unat c = unat b + 4 * i" if "i < n" for c i
    using u [OF that] by (auto simp: word_unat_eq_iff)
  ultimately show ?thesis by (intro set_eqI) (simp only: mem_Collect_eq, metis)
next
  case False
  then have "n = 0" using assms by (simp add: word_less_nat_alt)
  then show ?thesis using False by (simp add: meta_cells_def)
qed

text \<open>
  The cells that \<open>FreeRange\<close> visits are those of the addresses from the start to the last cell boundary, and at
  least one.
\<close>

definition covers :: "u64 \<Rightarrow> u64 \<Rightarrow> u64 \<Rightarrow> bool" where
  "covers p sz a \<longleftrightarrow> unat p div 8 \<le> unat a div 8 \<and> unat a div 8 < max (unat p div 8 + 1) (unat (p + sz) div 8)"

lemma range_cells_app:
  assumes p: "in_region i p" "in_region i (p + sz)" "p \<le> p + sz" and a: "IsAppMem a"
  shows "MemToMeta a \<in> set (range_cells p sz) \<longleftrightarrow> covers p sz a"
proof -
  obtain j where j: "in_region j a" using a unfolding app_region by blast
  let ?b = "MemToMeta p" and ?e = "MemToMeta (p + sz)"
  note mp = region_meta [OF p(1)] region_meta [OF p(2)] region_meta [OF j]
  note up = region_pos(1) [OF p(1)] region_pos(1) [OF p(2)] region_pos(1) [OF j]
  have le: "meta_pos p \<le> meta_pos (p + sz)" using p(3) up by (simp add: word_le_nat_alt)
  let ?n = "max 1 (meta_pos (p + sz) div 8 - meta_pos p div 8)"
  have ue: "unat (if ?e = ?b then ?e + 4 else ?e) = unat ?b + 4 * ?n"
  proof (cases "?e = ?b")
    case True
    then have "meta_pos (p + sz) div 8 = meta_pos p div 8" using mp by simp
    moreover have "unat (?b + 4) = unat ?b + 4"
      using mp(1) region_interval [OF p(1)] unat_64_less [of p] up(1)
      by (simp add: unat_plus_if')
    ultimately show ?thesis using True by simp
  next
    case False
    then have "meta_pos (p + sz) div 8 \<noteq> meta_pos p div 8" using mp by (auto simp: word_unat_eq_iff)
    moreover have "meta_pos p div 8 \<le> meta_pos (p + sz) div 8" using le by (rule div_le_mono)
    ultimately have n: "?n = meta_pos (p + sz) div 8 - meta_pos p div 8" "meta_pos p div 8 \<le> meta_pos (p + sz) div 8" by simp_all
    show ?thesis unfolding n(1) using mp False n(2) by (simp add: diff_mult_distrib2)
  qed
  have "MemToMeta a \<in> set (range_cells p sz) \<longleftrightarrow> (\<exists>k < ?n. unat (MemToMeta a) = unat ?b + 4 * k)"
    using meta_cells_set [OF ue] by (simp add: range_cells_def Let_def)
  also have "\<dots> \<longleftrightarrow> (\<exists>k < ?n. meta_pos a div 8 = meta_pos p div 8 + k)"
  proof -
    have "c + x * 4 = c + y * 4 + 4 * k \<longleftrightarrow> x = y + k" for c x y k :: nat by linarith
    then show ?thesis unfolding mp by simp
  qed
  also have "\<dots> \<longleftrightarrow> meta_pos p div 8 \<le> meta_pos a div 8 \<and> meta_pos a div 8 < meta_pos p div 8 + ?n"
    by (auto simp: le_iff_add)
  finally have l: "MemToMeta a \<in> set (range_cells p sz) \<longleftrightarrow>
      meta_pos p div 8 \<le> meta_pos a div 8 \<and> meta_pos a div 8 < max (meta_pos p div 8 + 1) (meta_pos (p + sz) div 8)"
    using le by (auto simp: max_def)
  have d: "unat p div 8 = meta_pos p div 8 + region_shift i div 8" "unat (p + sz) div 8 = meta_pos (p + sz) div 8 + region_shift i div 8"
    "unat a div 8 = meta_pos a div 8 + region_shift j div 8"
    using up region_shift_8 [of i] region_shift_8 [of j] by linarith+
  show ?thesis
  proof (cases "i = j")
    case True
    then show ?thesis unfolding l covers_def d by (auto simp: max_def)
  next
    case False
    have "\<not> (meta_pos p div 8 \<le> meta_pos a div 8 \<and> meta_pos a div 8 < max (meta_pos p div 8 + 1) (meta_pos (p + sz) div 8))"
      using region_cells [OF p(1)] region_cells [OF p(2)] region_cells [OF j] False by (simp add: max_def) linarith
    moreover have "\<not> covers p sz a"
      using region_addresses [OF p(1)] region_addresses [OF p(2)] region_addresses [OF j] False
      unfolding covers_def by (simp add: max_def) linarith
    ultimately show ?thesis using l by blast
  qed
qed

end
