(* ===== verification/MetaProperties.thy ===== *)
theory MetaProperties
  imports MetaConcurrent MetaCells
begin

text \<open>
  The properties of \<open>MetaMap\<close>: it implements two finite maps, under creation, freeing of ranges and
  concurrent creation.
\<close>

section \<open>Effects\<close>

lemma get_or_create_alloc:
  assumes ok: "meta_ok X Y m" and alloc: "sync_at m a = None \<Longrightarrow> da_alloc kSyncL1 kSyncL2 (sync_alloc m) \<noteq> None"
  shows "\<exists>i m'. GetOrCreateAndLock det stk a m = Some (i, m') \<and> meta_ok X Y m' \<and> block_at m' = block_at m \<and>
    (case sync_at m a of Some j \<Rightarrow> i = j \<and> m' = m
     | None \<Rightarrow> sync_at m' = (sync_at m)(a := Some i) \<and> (\<forall>b. sync_at m b \<noteq> Some i) \<and>
         sv_uid (mm_syncs m' i) = uid_gen m \<and> uid_gen m' = uid_gen m + 1 \<and> sv_owner (mm_syncs m' i) = kInvalidOwner \<and>
         sv_recursion (mm_syncs m' i) = 0 \<and> sv_flags (mm_syncs m' i) = 0 \<and> clock_blank (sv_clock (mm_syncs m' i)) \<and>
         clock_blank (sv_read_clock (mm_syncs m' i)) \<and> (\<forall>j. j \<noteq> i \<longrightarrow> mm_syncs m' j = mm_syncs m j) \<and>
         mm_clocks m' = mm_clocks m \<and> sync_refs (mm_syncs m') = sync_refs (mm_syncs m))"
proof -
  obtain SL BL where inv: "mm_inv SL BL X Y m" using ok by (auto simp: meta_ok_def)
  show ?thesis
  proof (cases "sync_at m a")
    case (Some j)
    then have "GetOrCreateAndLock det stk a m = Some (j, m)"
      using get_loop_found [OF inv Some] by (simp add: GetOrCreateAndLock_def GetAndLock_def)
    then show ?thesis using Some ok by simp
  next
    case None
    obtain i al where "da_alloc kSyncL1 kSyncL2 (sync_alloc m) = Some (i, al)"
      using alloc [OF None] by auto
    from get_loop_new [OF inv None this, of det stk] obtain m' where
        m': "get_loop [] det stk a True (mm_meta m (MemToMeta a)) 0 m = Some (Some i, m')"
        "mm_inv (SL(MemToMeta a := i # SL (MemToMeta a))) BL X Y m'" "i \<notin> on_lists SL \<union> X" "blank (mm_syncs m i)"
        "mm_syncs m' = (mm_syncs m)(i := (mm_syncs m i)\<lparr>sv_addr := a, sv_uid := uid_gen m, sv_next := mm_meta m (MemToMeta a), sv_stack := stk\<rparr>)"
        "mm_clocks m' = mm_clocks m" "uid_gen m' = uid_gen m + 1"
      by blast
    have out: "i \<notin> on_lists SL" using m'(3) by simp
    have s: "sync_at m' = (sync_at m)(a := Some i)" "block_at m' = block_at m"
      using sync_at_new [OF inv m'(2) out] by (simp_all add: m'(5))
    have new: "sync_at m b \<noteq> Some i" for b using sync_at_iff [OF inv, of b i] out by simp
    have r: "sync_refs (mm_syncs m') = sync_refs (mm_syncs m)" by (rule sync_refs_cong) (simp add: m'(5) sv_refs_def)
    have "GetOrCreateAndLock det stk a m = Some (i, m')" using m'(1) by (simp add: GetOrCreateAndLock_def GetAndLock_def)
    moreover have "meta_ok X Y m'" using m'(2) unfolding meta_ok_def by blast
    ultimately show ?thesis using None s new m'(4,6,7) r by (auto simp: m'(5) blank_def)
  qed
qed

lemma cached_alloc: "snd s \<noteq> [] \<Longrightarrow> da_alloc l1 l2 s \<noteq> None"
  using da_alloc_cache [of "snd s" l1 l2 "fst s"] by simp

lemma get_or_create_allocates:
  assumes ok: "meta_ok X Y m" and "GetOrCreateAndLock det stk a m = Some r" and none: "sync_at m a = None"
  shows "da_alloc kSyncL1 kSyncL2 (sync_alloc m) \<noteq> None"
proof
  assume no: "da_alloc kSyncL1 kSyncL2 (sync_alloc m) = None"
  obtain SL BL where "mm_inv SL BL X Y m" using ok by (auto simp: meta_ok_def)
  from find_sync_at [OF this, of a] none no have "get_loop [] det stk a True (mm_meta m (MemToMeta a)) 0 m = None"
    by (subst get_loop.simps) (simp add: interfere_def ensure_sync_def)
  then show False using assms(2) by (simp add: GetOrCreateAndLock_def GetAndLock_def)
qed

lemma get_if_exists_effect:
  assumes "meta_ok X Y m"
  shows "GetIfExistsAndLock a m = Some (sync_at m a, m)"
proof -
  obtain SL BL where inv: "mm_inv SL BL X Y m" using assms by (auto simp: meta_ok_def)
  show ?thesis
    using find_sync_at [OF inv, of a] unfolding GetIfExistsAndLock_def GetAndLock_def
    by (subst get_loop.simps) (simp split: option.splits)
qed

lemma in_cells_upd:
  assumes "BL c = None"
  shows "in_cells (BL(c := Some k)) = insert k (in_cells BL)"
proof (intro set_eqI iffI)
  fix x
  assume "x \<in> in_cells (BL(c := Some k))"
  then obtain d where "(BL(c := Some k)) d = Some x" unfolding in_cells_def by blast
  then show "x \<in> insert k (in_cells BL)" unfolding in_cells_def by (cases "d = c") auto
next
  fix x
  assume "x \<in> insert k (in_cells BL)"
  then consider "x = k" | d where "BL d = Some x" unfolding in_cells_def by blast
  then show "x \<in> in_cells (BL(c := Some k))"
  proof cases
    case 1
    then have "(BL(c := Some k)) c = Some x" by simp
    then show ?thesis unfolding in_cells_def by blast
  next
    case 2
    then have "(BL(c := Some k)) d = Some x" using assms by auto
    then show ?thesis unfolding in_cells_def by blast
  qed
qed

text \<open>A block is put in an empty cell.\<close>

lemma alloc_block_effect:
  assumes ok: "meta_ok X Y m" and cache: "snd (block_alloc m) \<noteq> []" and free: "mm_meta m (MemToMeta p) = 0"
  shows "\<exists>k m'. AllocBlock stk tid p sz m = Some m' \<and> meta_ok X Y m' \<and> sync_at m' = sync_at m \<and> block_at m p = None \<and>
    block_at m' = (\<lambda>q. if MemToMeta q = MemToMeta p then Some k else block_at m q) \<and> (\<forall>q. block_at m q \<noteq> Some k) \<and>
    mm_blocks m' = (mm_blocks m)(k := \<lparr>mb_siz = ucast sz, mb_tag = 0, mb_stk = stk, mb_tid = tid\<rparr>)"
proof -
  let ?c = "MemToMeta p"
  obtain SL BL where inv: "mm_inv SL BL X Y m" using ok by (auto simp: meta_ok_def)
  have "links (mm_syncs m) (SL ?c) (BL ?c) 0" using mm_links [OF inv, of ?c] free by simp
  then have e: "SL ?c = []" "BL ?c = None"
    using tagged(6,7) by (cases "SL ?c"; fastforce split: option.splits)+
  obtain k al where al: "da_alloc kBlockL1 kBlockL2 (block_alloc m) = Some (k, al)"
    using da_alloc_cache [OF cache, of _ _ "fst (block_alloc m)"] by simp
  have da: "da_ok kBlockL1 kBlockL2 (block_alloc m) (in_cells BL \<union> Y)" using inv by (simp add: mm_inv_def)
  obtain a' c' where "al = (a', c')" by (cases al)
  then have k: "k \<notin> in_cells BL \<union> Y" "da_ok kBlockL1 kBlockL2 al (insert k (in_cells BL \<union> Y))"
    using da_alloc_ok [OF da, of k al] al by auto
  then have small: "small_index k" using block_small by blast
  let ?BL = "BL(?c := Some k)"
  let ?m = "m\<lparr>block_alloc := al, mm_blocks := (mm_blocks m)(k := \<lparr>mb_siz = ucast sz, mb_tag = 0, mb_stk = stk, mb_tid = tid\<rparr>),
    mm_meta := (mm_meta m)(?c := k OR kFlagBlock)\<rparr>"
  have ic: "in_cells ?BL = insert k (in_cells BL)" using e(2) by (rule in_cells_upd)
  have nk: "BL d \<noteq> Some k" for d using k(1) by (auto simp: in_cells_def)
  have l: "lists_ok (mm_syncs m) (mm_meta m) SL BL" using inv by (simp add: mm_inv_def)
  have "lists_ok (mm_syncs m) ((mm_meta m)(?c := k OR kFlagBlock)) SL ?BL"
    using l e small nk unfolding lists_ok_def by (auto split: if_splits)
  then have inv': "mm_inv SL ?BL X Y ?m" using inv k small ic unfolding mm_inv_def by auto
  have "sync_at ?m = sync_at m" by (rule sync_at_same [OF inv inv']) simp
  moreover have "block_at ?m = (\<lambda>q. if MemToMeta q = ?c then Some k else block_at m q)"
    using block_at_cell [OF inv] block_at_cell [OF inv'] by (intro ext) simp
  moreover have "block_at m q \<noteq> Some k" for q using block_at_cell [OF inv, of q] nk by simp
  moreover have "block_at m p = None" using block_at_cell [OF inv, of p] e(2) by simp
  moreover have "AllocBlock stk tid p sz m = Some ?m" using al by (simp add: AllocBlock_def)
  ultimately show ?thesis using inv' unfolding meta_ok_def by (intro exI [of _ k] exI [of _ ?m]) auto
qed

lemma free_range_effect:
  assumes "meta_ok X Y m" "clocks_ok E Z m" "in_region r p" "in_region r (p + sz)" "p \<le> p + sz"
  shows "\<exists>has m'. FreeRange p sz m = Some (has, m') \<and> meta_ok X Y m' \<and> clocks_ok E Z m' \<and>
    (\<forall>a. IsAppMem a \<longrightarrow> sync_at m' a = (if covers p sz a then None else sync_at m a) \<and>
       block_at m' a = (if covers p sz a then None else block_at m a)) \<and>
    (\<forall>a i. sync_at m' a = Some i \<longrightarrow> mm_syncs m' i = mm_syncs m i) \<and> mm_blocks m' = mm_blocks m"
proof -
  obtain m' where m': "free_cells (range_cells p sz) (False, m) = Some (\<exists>c \<in> set (range_cells p sz). mm_meta m c \<noteq> 0, m')"
      "meta_ok X Y m'" "clocks_ok E Z m'" "cleared (set (range_cells p sz)) m m'"
    using free_cells_effect [OF assms(1,2), of "range_cells p sz" False] by auto
  have c: "MemToMeta a \<in> set (range_cells p sz) \<longleftrightarrow> covers p sz a" if "IsAppMem a" for a
    by (rule range_cells_app [OF assms(3-5) that])
  have "sync_at m' a = (if covers p sz a then None else sync_at m a) \<and> block_at m' a = (if covers p sz a then None else block_at m a)"
    if "IsAppMem a" for a
    using m'(4) c [OF that] unfolding cleared_def by simp
  moreover have "\<forall>a i. sync_at m' a = Some i \<longrightarrow> mm_syncs m' i = mm_syncs m i" "mm_blocks m' = mm_blocks m"
    using m'(4) by (simp_all add: cleared_def)
  ultimately show ?thesis using m'(1-3) unfolding FreeRange_def by blast
qed

section \<open>An example\<close>

text \<open>One slab of objects and of blocks, the index 1 in the processor's cache and the others in the caches of other processors.\<close>

definition one_slab :: "dense_alloc \<times> u32 list" where
  "one_slab = (\<lparr>da_mem = (\<lambda>_ _. 0), da_freelist = 0, da_fillpos = 1\<rparr>, [1])"

definition zero_bits :: two_level where "zero_bits = \<lparr>tl_l1 = [], tl_l2 = []\<rparr>"

definition ex_dd :: dd_world where
  "ex_dd = (\<lparr>d_epoch = 0, available_nodes = zero_bits, recycled_nodes = zero_bits, tmp_bv = zero_bits,
     d_g = \<lparr>g_v = [], g_t1 = zero_bits, g_t2 = zero_bits\<rparr>, d_data = [], d_edges = []\<rparr>, \<lambda>_. \<lparr>m_id = 0, m_stk = 0, m_ctx = 0\<rparr>)"

definition ex_map :: meta_map where
  "ex_map = \<lparr>mm_meta = (\<lambda>_. 0), mm_blocks = (\<lambda>_. \<lparr>mb_siz = 0, mb_tag = 0, mb_stk = 0, mb_tid = 0\<rparr>), block_alloc = one_slab,
     mm_syncs = (\<lambda>_. sync_var_new), sync_alloc = one_slab, uid_gen = 0, mm_clocks = (da_init, []), mm_dd = ex_dd\<rparr>"

definition others_idx :: "nat \<Rightarrow> u32 set" where
  "others_idx n = {i. 1 < unat i \<and> unat i < n}"

lemma one_slab_ok: "1 < l2 \<Longrightarrow> 0 < l1 \<Longrightarrow> l1 * l2 \<le> 2 ^ 32 \<Longrightarrow> da_ok l1 l2 one_slab (others_idx l2)"
proof -
  assume a: "1 < l2" "0 < l1" "l1 * l2 \<le> 2 ^ 32"
  have "insert 1 (others_idx l2) = {i. 0 < unat i \<and> unat i < l2}"
  proof (rule set_eqI)
    fix i :: u32
    have "i = 1 \<longleftrightarrow> unat i = 1" by (simp add: word_unat_eq_iff)
    then show "i \<in> insert 1 (others_idx l2) \<longleftrightarrow> i \<in> {i. 0 < unat i \<and> unat i < l2}" using a(1) by (auto simp: others_idx_def)
  qed
  moreover have "1 \<notin> others_idx l2" by (simp add: others_idx_def)
  ultimately show ?thesis using a
    unfolding da_ok_def one_slab_def split by (intro exI [of _ "[]"]) (simp add: da_indices_def kCacheSize_def)
qed

lemma ex_map_ok: "meta_ok (others_idx 1024) (others_idx 4096) ex_map" "clocks_ok {#} {} ex_map"
proof -
  have none: "on_lists (\<lambda>_. []) = {}" "in_cells (\<lambda>_. None) = {}" by (simp_all add: on_lists_def in_cells_def)
  have "ResetImpl sync_clock_new = sync_clock_new" by (simp add: sync_clock_new_def)
  then have "blank sync_var_new" by (simp add: blank_def sync_var_new_def clock_blank_def)
  moreover have "da_ok kSyncL1 kSyncL2 one_slab (others_idx 1024)" "da_ok kBlockL1 kBlockL2 one_slab (others_idx 4096)"
    using one_slab_ok [of 1024 kSyncL1] one_slab_ok [of 4096 kBlockL1]
    by (simp_all add: kSyncL1_def kSyncL2_def kBlockL1_def kBlockL2_def)
  ultimately have "mm_inv (\<lambda>_. []) (\<lambda>_. None) (others_idx 1024) (others_idx 4096) ex_map"
    unfolding mm_inv_def none by (simp add: ex_map_def lists_ok_def addrs_ok_def none)
  then show "meta_ok (others_idx 1024) (others_idx 4096) ex_map" unfolding meta_ok_def by blast
  have "sync_refs (mm_syncs ex_map) = {#}"
    by (simp add: sync_refs_def ex_map_def sv_refs_def sync_var_new_def clock_refs_def sync_clock_new_def ResetImpl_def)
  then show "clocks_ok {#} {} ex_map"
    using da_init_ok by (simp add: clocks_ok_def refs_ok_def ex_map_def blocks_of_def)
qed

lemma ex_map_empty: "sync_at ex_map a = None"
  by (simp add: sync_at_def ex_map_def find_sync.simps)

lemma ex_map_cache: "snd (sync_alloc ex_map) \<noteq> []"
  by (simp add: ex_map_def one_slab_def)

lemma ex_map_creates: "GetOrCreateAndLock True 7 0x7b0000001004 ex_map \<noteq> None"
  using get_or_create_alloc [OF ex_map_ok(1) cached_alloc [OF ex_map_cache], of True 7 "0x7b0000001004"] by auto

section \<open>Properties\<close>

lemma sync_alloc_full:
  assumes "meta_ok X Y m" "da_alloc kSyncL1 kSyncL2 (sync_alloc m) = None" "0 < unat i" "unat i < kSyncL1 * kSyncL2"
  shows "i \<in> X \<or> (\<exists>b. sync_at m b = Some i)"
proof -
  obtain SL BL where inv: "mm_inv SL BL X Y m" using assms(1) by (auto simp: meta_ok_def)
  obtain al c where s: "sync_alloc m = (al, c)" by (cases "sync_alloc m")
  have "da_ok kSyncL1 kSyncL2 (al, c) (on_lists SL \<union> X)" using inv s by (simp add: mm_inv_def)
  from dense_alloc_fails_only_full [OF this] have "i \<in> on_lists SL \<union> X" using assms(2-4) s by auto
  then show ?thesis using sync_at_iff [OF inv] by auto
qed

text \<open>
  C27: Looking up an address gives its synchronisation object, which it creates when there is none: a map from
  addresses to distinct objects. A new object has the next unique number, no owner and empty clocks, and no other
  object changes; a lookup without creation changes nothing. Creation fails only when the address has no object and
  every index is the object of an address or kept by another processor, whether or not the processor's own cache is empty.
\<close>
theorem sync_map_get:
  assumes "meta_ok X Y m"
  shows "(case GetOrCreateAndLock det stk a m of
      None \<Rightarrow> sync_at m a = None \<and> (\<forall>i. 0 < unat i \<and> unat i < kSyncL1 * kSyncL2 \<longrightarrow> i \<in> X \<or> (\<exists>b. sync_at m b = Some i))
    | Some (i, m') \<Rightarrow> meta_ok X Y m' \<and> block_at m' = block_at m \<and>
        (case sync_at m a of Some j \<Rightarrow> i = j \<and> m' = m
         | None \<Rightarrow> sync_at m' = (sync_at m)(a := Some i) \<and> (\<forall>b. sync_at m b \<noteq> Some i) \<and>
             sv_uid (mm_syncs m' i) = uid_gen m \<and> uid_gen m' = uid_gen m + 1 \<and> sv_owner (mm_syncs m' i) = kInvalidOwner \<and>
             clock_blank (sv_clock (mm_syncs m' i)) \<and> clock_blank (sv_read_clock (mm_syncs m' i)) \<and>
             (\<forall>j. j \<noteq> i \<longrightarrow> mm_syncs m' j = mm_syncs m j))) \<and>
    GetIfExistsAndLock a m = Some (sync_at m a, m)"
proof (rule conjI [OF _ get_if_exists_effect [OF assms]])
  show "case GetOrCreateAndLock det stk a m of
      None \<Rightarrow> sync_at m a = None \<and> (\<forall>i. 0 < unat i \<and> unat i < kSyncL1 * kSyncL2 \<longrightarrow> i \<in> X \<or> (\<exists>b. sync_at m b = Some i))
    | Some (i, m') \<Rightarrow> meta_ok X Y m' \<and> block_at m' = block_at m \<and>
        (case sync_at m a of Some j \<Rightarrow> i = j \<and> m' = m
         | None \<Rightarrow> sync_at m' = (sync_at m)(a := Some i) \<and> (\<forall>b. sync_at m b \<noteq> Some i) \<and>
             sv_uid (mm_syncs m' i) = uid_gen m \<and> uid_gen m' = uid_gen m + 1 \<and> sv_owner (mm_syncs m' i) = kInvalidOwner \<and>
             clock_blank (sv_clock (mm_syncs m' i)) \<and> clock_blank (sv_read_clock (mm_syncs m' i)) \<and>
             (\<forall>j. j \<noteq> i \<longrightarrow> mm_syncs m' j = mm_syncs m j))"
  proof (cases "GetOrCreateAndLock det stk a m")
    case None
    have "\<not> (sync_at m a = None \<longrightarrow> da_alloc kSyncL1 kSyncL2 (sync_alloc m) \<noteq> None)"
    proof
      assume "sync_at m a = None \<longrightarrow> da_alloc kSyncL1 kSyncL2 (sync_alloc m) \<noteq> None"
      with get_or_create_alloc [OF assms, of a det stk] None show False by auto
    qed
    then have no: "sync_at m a = None" "da_alloc kSyncL1 kSyncL2 (sync_alloc m) = None" by blast+
    show ?thesis using no(1) sync_alloc_full [OF assms no(2)] by (simp only: None option.case) blast
  next
    case (Some r)
    obtain i m' where r: "r = (i, m')" by (cases r)
    note al = get_or_create_allocates [OF assms Some]
    note g = get_or_create_alloc [OF assms al, where a = a and det = det and stk = stk, unfolded Some r]
    then show ?thesis using Some r by (auto split: option.splits)
  qed
qed

theorem sync_map_get_witness:
  "\<exists>i m'. GetOrCreateAndLock True 7 0x7b0000001004 ex_map = Some (i, m') \<and> sync_at m' 0x7b0000001004 = Some i \<and>
    sync_at m' 0x7b0000001000 = None \<and> sv_uid (mm_syncs m' i) = 0"
proof -
  obtain i m' where "GetOrCreateAndLock True 7 0x7b0000001004 ex_map = Some (i, m')"
      "sync_at m' = (sync_at ex_map)(0x7b0000001004 := Some i)" "sv_uid (mm_syncs m' i) = uid_gen ex_map"
    using sync_map_get [OF ex_map_ok(1), where det = True and stk = 7 and a = "0x7b0000001004"] ex_map_creates by (auto simp: ex_map_empty)
  then show ?thesis by (intro exI [of _ i] exI [of _ m']) (simp add: ex_map_empty, simp add: ex_map_def)
qed

text \<open>
  C28: While other threads create objects of their own, also for the same address, getting an object ends, as long as the
  allocator still has an index, and gives the one object of the address. No address ever has two objects, and no update is lost: the
  objects that were there at the start keep their addresses, and so does every object that one of the others publishes
  meanwhile; an index of which nothing was published is still reserved and its object untouched. An object
  allocated in vain is freed again: the indices in reserve are at most those of the others.
\<close>
theorem concurrent_get_unique:
  assumes "meta_ok X Y m" "clocks_ok E Z m" "da_alloc kSyncL1 kSyncL2 (sync_alloc m) \<noteq> None" "distinct (map fst rs)" "fst ` set rs \<subseteq> X"
  shows "\<exists>i m' X'. GetAndLock (map (other_create det) rs) det stk a True m = Some (Some i, m') \<and> meta_ok X' Y m' \<and> X' \<subseteq> X \<and>
    clocks_ok E Z m' \<and> sync_at m' a = Some i \<and> (\<forall>b j. sync_at m b = Some j \<longrightarrow> sync_at m' b = Some j) \<and>
    (\<forall>(k, stk', b) \<in> set rs. k \<in> X' \<and> mm_syncs m' k = mm_syncs m k \<or> sync_at m' b = Some k)"
proof -
  obtain SL BL where inv: "mm_inv SL BL X Y m" using assms(1) by (auto simp: meta_ok_def)
  obtain i m' SL' X' where g: "get_loop (map (other_create det) rs) det stk a True (mm_meta m (MemToMeta a)) 0 m = Some (Some i, m')"
      "mm_inv SL' BL X' Y m'" "X' \<subseteq> X - {0}" "clocks_ok E Z m'" "sync_at m' a = Some i" "phase rs (X - {0}) m X' m'"
    using get_loop_concurrent [OF inv assms(2,4,5), of 0 a det stk] assms(3) by blast
  have "meta_ok X' Y m'" using g(2) unfolding meta_ok_def by blast
  moreover have "X' \<subseteq> X" using g(3) by blast
  ultimately show ?thesis using g(1,4,5) conjunct2 [OF g(6) [unfolded phase_def]] unfolding GetAndLock_def by blast
qed

theorem concurrent_get_unique_witness:
  "\<exists>i m'. GetAndLock (map (other_create False) [(5, 70, 0x7b0000001000), (6, 71, 0x7b0000001004)]) False 72 0x7b0000001000 True ex_map =
    Some (Some i, m') \<and> sync_at m' 0x7b0000001000 = Some i \<and>
    (mm_syncs m' 5 = mm_syncs ex_map 5 \<or> i = 5) \<and>
    (mm_syncs m' 6 = mm_syncs ex_map 6 \<or> sync_at m' 0x7b0000001004 = Some 6)"
proof -
  have u: "unat (5 :: u32) = 5" "unat (6 :: u32) = 6" by simp_all
  have "fst ` set [(5 :: u32, 70 :: u32, 0x7b0000001000 :: u64), (6, 71, 0x7b0000001004)] \<subseteq> others_idx 1024"
    using u by (simp add: others_idx_def)
  from concurrent_get_unique [OF ex_map_ok cached_alloc [OF ex_map_cache] _ this, of False 72 "0x7b0000001000"] show ?thesis by auto
qed

text \<open>
  C29: Freeing a heap block, whose size is rounded up to whole cells, frees every synchronisation object and every
  block in its cells and nothing else; no \<open>CHECK\<close> fails, and the clocks of the freed objects give up their memory.
\<close>
theorem free_block_clears:
  assumes "meta_ok X Y m" "clocks_ok E Z m" "block_at m p = Some k"
    and "RoundUpTo (ucast (mb_siz (mm_blocks m k))) kMetaShadowCell = Some sz"
    and "in_region r p" "in_region r (p + sz)" "p \<le> p + sz"
  shows "\<exists>m'. FreeBlock p m = Some (sz, m') \<and> meta_ok X Y m' \<and> clocks_ok E Z m' \<and>
    (\<forall>a. IsAppMem a \<longrightarrow> sync_at m' a = (if covers p sz a then None else sync_at m a) \<and>
       block_at m' a = (if covers p sz a then None else block_at m a)) \<and>
    (\<forall>a i. sync_at m' a = Some i \<longrightarrow> mm_syncs m' i = mm_syncs m i)"
proof -
  obtain SL BL where inv: "mm_inv SL BL X Y m" using assms(1) by (auto simp: meta_ok_def)
  have "GetBlock p m = Some (Some k)" using block_at_cell [OF inv, of p] assms(3) by simp
  then have f: "FreeBlock p m = Some (sz, m')" if "FreeRange p sz m = Some (has, m')" for has m'
    using assms(4) that by (simp add: FreeBlock_def)
  from free_range_effect [OF assms(1,2,5-7)] show ?thesis using f by blast
qed

theorem free_block_clears_witness:
  "\<exists>k m1 m2. AllocBlock 9 1 0x7b0000001000 20 ex_map = Some m1 \<and> block_at m1 0x7b0000001000 = Some k \<and>
    FreeBlock 0x7b0000001000 m1 = Some (24, m2) \<and> block_at m2 0x7b0000001000 = None"
proof -
  have "snd (block_alloc ex_map) \<noteq> []" "mm_meta ex_map (MemToMeta 0x7b0000001000) = 0" by (simp_all add: ex_map_def one_slab_def)
  from alloc_block_effect [OF ex_map_ok(1) this, of 9 1 20] obtain k m1 where
      m1: "AllocBlock 9 1 0x7b0000001000 20 ex_map = Some m1" "meta_ok (others_idx 1024) (others_idx 4096) m1"
        "block_at m1 = (\<lambda>q. if MemToMeta q = MemToMeta 0x7b0000001000 then Some k else block_at ex_map q)"
        "mm_blocks m1 = (mm_blocks ex_map)(k := \<lparr>mb_siz = ucast (20 :: u64), mb_tag = 0, mb_stk = 9, mb_tid = 1\<rparr>)"
    by blast
  have sy: "mm_syncs m1 = mm_syncs ex_map" "mm_clocks m1 = mm_clocks ex_map"
    using m1(1) by (auto simp: AllocBlock_def split: bind_splits)
  then have ck: "clocks_ok {#} {} m1" using ex_map_ok(2) by (simp add: clocks_ok_def)
  have b: "block_at m1 0x7b0000001000 = Some k" by (simp add: m1(3))
  have sz: "RoundUpTo (ucast (mb_siz (mm_blocks m1 k))) kMetaShadowCell = Some 24"
    unfolding m1(4) by (simp add: RoundUpTo_def IsPowerOfTwo_def kMetaShadowCell_def)
  have r: "in_region 2 0x7b0000001000" "in_region 2 (0x7b0000001000 + 24)" "(0x7b0000001000 :: u64) \<le> 0x7b0000001000 + 24"
    by (simp_all add: in_region_def GetUserRegion_def mapping_consts)
  have "IsAppMem 0x7b0000001000" "covers 0x7b0000001000 24 0x7b0000001000" by (simp_all add: IsAppMem_def mapping_consts covers_def)
  with free_block_clears [OF m1(2) ck b sz r] m1(1) b show ?thesis by fastforce
qed

text \<open>
  C30: The identifier of a synchronisation object gives its address back, below \<open>2 ^ 48\<close>, but only the low twelve bits of
  its unique number, although a comment says fourteen and the check for a live object compares fourteen: the check fails for
  the very object the identifier was made of as soon as bit 12 or 13 of the number is set.
\<close>
theorem sync_id_roundtrip:
  assumes "sv_addr s < 2 ^ 48"
  shows "SplitId (SyncVar_GetId s) = (sv_addr s, take_bit 12 (sv_uid s)) \<and>
    SyncVar_CheckId (snd (SplitId (SyncVar_GetId s))) s = Some (\<not> bit (sv_uid s) 12 \<and> \<not> bit (sv_uid s) 13)"
proof -
  have lsb: "GetLsb v n = take_bit n v" for v n by (simp add: GetLsb_def take_bit_eq_mask mask_eq_exp_minus_1 push_bit_1)
  have a: "take_bit 48 (sv_addr s) = sv_addr s"
    using assms by (simp add: word_unat_eq_iff unsigned_take_bit_eq take_bit_nat_eq_self word_less_nat_alt)
  then have hi: "\<not> bit (sv_addr s) n" if "48 \<le> n" for n using that by (metis bit_take_bit_iff not_less)
  have "take_bit 48 (SyncVar_GetId s) = take_bit 48 (sv_addr s)"
    by (rule bit_word_eqI) (auto simp: SyncVar_GetId_def lsb bit_simps)
  then have id1: "fst (SplitId (SyncVar_GetId s)) = sv_addr s" by (simp add: SplitId_def lsb a)
  have id2: "drop_bit 48 (SyncVar_GetId s) = take_bit 12 (sv_uid s)"
    using hi by (intro bit_word_eqI) (auto simp: SyncVar_GetId_def lsb bit_simps)
  have t: "take_bit 14 (take_bit 12 (sv_uid s)) = take_bit 12 (sv_uid s)" by (simp add: take_bit_take_bit)
  have "take_bit 14 (sv_uid s) = take_bit 12 (sv_uid s) \<longleftrightarrow> \<not> bit (sv_uid s) 12 \<and> \<not> bit (sv_uid s) 13"
  proof
    assume e: "take_bit 14 (sv_uid s) = take_bit 12 (sv_uid s)"
    have "\<not> bit (take_bit 14 (sv_uid s)) 12" "\<not> bit (take_bit 14 (sv_uid s)) 13" unfolding e by (simp_all add: bit_take_bit_iff)
    then show "\<not> bit (sv_uid s) 12 \<and> \<not> bit (sv_uid s) 13" by (simp add: bit_take_bit_iff)
  next
    assume n: "\<not> bit (sv_uid s) 12 \<and> \<not> bit (sv_uid s) 13"
    show "take_bit 14 (sv_uid s) = take_bit 12 (sv_uid s)"
    proof (rule bit_word_eqI)
      fix k :: nat
      consider "k < 12" | "k = 12" | "k = 13" | "14 \<le> k" by linarith
      then show "bit (take_bit 14 (sv_uid s)) k = bit (take_bit 12 (sv_uid s)) k"
        by cases (use n in \<open>simp_all add: bit_take_bit_iff\<close>)
    qed
  qed
  then show ?thesis using id1 id2 t by (auto simp: SplitId_def SyncVar_CheckId_def lsb)
qed

theorem sync_id_roundtrip_witness:
  "SyncVar_CheckId (snd (SplitId (SyncVar_GetId (sync_var_new\<lparr>sv_addr := 0x7b0000001004, sv_uid := 4096\<rparr>))))
     (sync_var_new\<lparr>sv_addr := 0x7b0000001004, sv_uid := 4096\<rparr>) = Some False"
  using conjunct2 [OF sync_id_roundtrip [of "sync_var_new\<lparr>sv_addr := 0x7b0000001004, sv_uid := 4096\<rparr>"]] by simp

end
