(* ===== verification/MutexSpec.thy ===== *)
theory MutexSpec
  imports SyncOps MetaProperties
begin

text \<open>
  What the mutex operations promise of ownership: a machine for one mutex with an owner, a nesting depth
  and flags, and the misuses it reports. Every operation of the runtime takes one step of the machine
  of the mutex at the address it is called for, and leaves the mutexes at all other addresses alone.
\<close>

section \<open>The abstract mutex\<close>

record mutex_state =
  ms_owner :: int
  ms_levels :: int
  ms_flags :: u32

definition free_mutex :: mutex_state where
  "free_mutex = \<lparr>ms_owner = kInvalidOwner, ms_levels = 0, ms_flags = 0\<rparr>"

datatype mutex_call = DoCreate u32 | DoDestroy u32 | DoPreLock u32 | DoPostLock u32 int | DoUnlock u32 |
  DoPreReadLock u32 | DoPostReadLock u32 | DoReadUnlock | DoReadOrWriteUnlock | DoRepair | DoInvalidAccess

text \<open>A report: the kind of misuse, or \<open>None\<close> for the destruction of a locked mutex.\<close>

definition broken :: "mutex_state \<Rightarrow> bool" where
  "broken s \<longleftrightarrow> has_flag (ms_flags s) MutexFlagBroken"

definition misused :: "bool \<Rightarrow> misuse \<Rightarrow> mutex_state \<Rightarrow> mutex_state \<times> misuse option list" where
  "misused enabled k s =
     (if enabled \<and> \<not> broken s then (s\<lparr>ms_flags := ms_flags s OR MutexFlagBroken\<rparr>, [Some k]) else (s, []))"

definition adopt_flags :: "u32 \<Rightarrow> mutex_state \<Rightarrow> mutex_state" where
  "adopt_flags f s =
     (if has_flag f MutexCreationFlagMask \<and> \<not> has_flag (ms_flags s) MutexCreationFlagMask
      then s\<lparr>ms_flags := ms_flags s OR (f AND MutexCreationFlagMask)\<rparr> else s)"

definition drop_levels :: "int \<Rightarrow> mutex_state \<Rightarrow> mutex_state" where
  "drop_levels n s =
     s\<lparr>ms_levels := ms_levels s - n, ms_owner := (if ms_levels s = n then kInvalidOwner else ms_owner s)\<rparr>"

definition add_levels :: "int \<Rightarrow> mutex_state \<Rightarrow> mutex_state" where
  "add_levels n s = s\<lparr>ms_levels := ms_levels s + n\<rparr>"

fun mutex_spec :: "sync_env \<Rightarrow> nat \<Rightarrow> mutex_call \<Rightarrow> mutex_state \<Rightarrow> mutex_state \<times> misuse option list" where
  "mutex_spec env t (DoCreate f) s = (s\<lparr>ms_flags := ms_flags s OR (f AND MutexCreationFlagMask)\<rparr>, [])"
| "mutex_spec env t (DoDestroy f) s =
     (if has_flag f MutexFlagLinkerInit \<or> has_flag (ms_flags s) MutexFlagLinkerInit \<or>
         (has_flag f MutexFlagNotStatic \<and> \<not> has_flag (ms_flags s) MutexFlagNotStatic)
      then (s, [])
      else (free_mutex, if report_destroy_locked env \<and> ms_owner s \<noteq> kInvalidOwner \<and> \<not> broken s then [None] else []))"
| "mutex_spec env t (DoPreLock f) s =
     (if \<not> has_flag f MutexFlagTryLock \<and> detect_deadlocks env then adopt_flags f s else s, [])"
| "mutex_spec env t (DoPostLock f rec) s =
     (let rec = (if has_flag f MutexFlagRecursiveLock then rec else 1); s = adopt_flags f s in
      if ms_owner s = kInvalidOwner then (add_levels rec (s\<lparr>ms_owner := int t\<rparr>), [])
      else if ms_owner s = int t then (add_levels rec s, [])
      else map_prod (add_levels rec) (\<lambda>r. r) (misused (report_mutex_bugs env) ReportTypeMutexDoubleLock s))"
| "mutex_spec env t (DoUnlock f) s =
     (if ms_levels s = 0 \<or> ms_owner s \<noteq> int t then misused (report_mutex_bugs env) ReportTypeMutexBadUnlock s
      else (drop_levels (if has_flag f MutexFlagRecursiveUnlock then ms_levels s else 1) s, []))"
| "mutex_spec env t (DoPreReadLock f) s =
     (if \<not> has_flag f MutexFlagTryLock \<and> detect_deadlocks env then adopt_flags f s else s, [])"
| "mutex_spec env t (DoPostReadLock f) s =
     (let s = adopt_flags f s in
      if ms_owner s \<noteq> kInvalidOwner then misused (report_mutex_bugs env) ReportTypeMutexBadReadLock s else (s, []))"
| "mutex_spec env t DoReadUnlock s =
     (if ms_owner s \<noteq> kInvalidOwner then misused (report_mutex_bugs env) ReportTypeMutexBadReadUnlock s else (s, []))"
| "mutex_spec env t DoReadOrWriteUnlock s =
     (if ms_owner s = kInvalidOwner then (s, [])
      else if ms_owner s = int t then (drop_levels 1 s, [])
      else misused True ReportTypeMutexBadUnlock s)"
| "mutex_spec env t DoRepair s = (s\<lparr>ms_owner := kInvalidOwner, ms_levels := 0\<rparr>, [])"
| "mutex_spec env t DoInvalidAccess s = (s, [Some ReportTypeMutexInvalidAccess])"

section \<open>The operations as calls\<close>

definition run_call :: "sync_env \<Rightarrow> nat \<Rightarrow> u64 \<Rightarrow> u64 \<Rightarrow> mutex_call \<Rightarrow> sync_world \<Rightarrow> sync_world option" where
  "run_call env t pc a c w =
     (case c of
        DoCreate f \<Rightarrow> MutexCreate env t pc a f w
      | DoDestroy f \<Rightarrow> MutexDestroy env t pc a f w
      | DoPreLock f \<Rightarrow> MutexPreLock env t pc a f w
      | DoPostLock f rec \<Rightarrow> MutexPostLock env t pc a f rec w
      | DoUnlock f \<Rightarrow> map_option snd (MutexUnlock env t pc a f w)
      | DoPreReadLock f \<Rightarrow> MutexPreReadLock env t pc a f w
      | DoPostReadLock f \<Rightarrow> MutexPostReadLock env t pc a f w
      | DoReadUnlock \<Rightarrow> MutexReadUnlock env t pc a w
      | DoReadOrWriteUnlock \<Rightarrow> MutexReadOrWriteUnlock env t pc a w
      | DoRepair \<Rightarrow> MutexRepair env t pc a w
      | DoInvalidAccess \<Rightarrow> MutexInvalidAccess env t pc a w)"

definition mstate :: "sync_var \<Rightarrow> mutex_state" where
  "mstate s = \<lparr>ms_owner = sv_owner s, ms_levels = sv_recursion s, ms_flags = sv_flags s\<rparr>"

definition mutex_at :: "sync_world \<Rightarrow> u64 \<Rightarrow> mutex_state" where
  "mutex_at w a = (case sync_at (sw_map w) a of None \<Rightarrow> free_mutex | Some i \<Rightarrow> mstate (obj i w))"

definition misuse_of :: "sync_report \<Rightarrow> (misuse option \<times> u64) option" where
  "misuse_of r = (case r of MutexMisuse k a _ \<Rightarrow> Some (Some k, a) | MutexDestroyLocked a _ _ \<Rightarrow> Some (None, a) | Deadlock _ \<Rightarrow> None)"

definition misuses :: "sync_world \<Rightarrow> (misuse option \<times> u64) list" where
  "misuses w = List.map_filter misuse_of (sw_reports w)"

section \<open>One object takes a step\<close>

definition same_meta :: "meta_map \<Rightarrow> meta_map \<Rightarrow> bool" where
  "same_meta m m' \<longleftrightarrow> mm_meta m' = mm_meta m \<and> sync_alloc m' = sync_alloc m \<and> block_alloc m' = block_alloc m \<and>
     uid_gen m' = uid_gen m \<and> mm_blocks m' = mm_blocks m"

definition step_to :: "u32 \<Rightarrow> mutex_state \<Rightarrow> (misuse option \<times> u64) list \<Rightarrow> sync_world \<Rightarrow> sync_world \<Rightarrow> bool" where
  "step_to i s ks w w' \<longleftrightarrow> same_meta (sw_map w) (sw_map w') \<and> (\<forall>j. j \<noteq> i \<longrightarrow> obj j w' = obj j w) \<and>
     sv_addr (obj i w') = sv_addr (obj i w) \<and> sv_next (obj i w') = sv_next (obj i w) \<and> mstate (obj i w') = s \<and>
     misuses w' = misuses w @ ks"

abbreviation quiet :: "u32 \<Rightarrow> sync_world \<Rightarrow> sync_world \<Rightarrow> bool" where
  "quiet i w w' \<equiv> step_to i (mstate (obj i w)) [] w w'"

lemma quiet_refl [simp]: "step_to i (mstate (obj i w)) [] w w"
  by (simp add: step_to_def same_meta_def)

lemma step_trans: "step_to i s ks w w1 \<Longrightarrow> step_to i s' ks' w1 w2 \<Longrightarrow> step_to i s' (ks @ ks') w w2"
  by (auto simp: step_to_def same_meta_def)

lemma step_state: "step_to i s ks w w' \<Longrightarrow> mstate (obj i w') = s"
  by (simp add: step_to_def)

lemma step_quiet: "step_to i s ks w w1 \<Longrightarrow> quiet i w1 w2 \<Longrightarrow> step_to i s ks w w2"
  using step_trans [of i s ks w w1 "mstate (obj i w1)" "[]" w2] by (simp add: step_state)

lemma quiet_step: "quiet i w w1 \<Longrightarrow> step_to i s ks w1 w2 \<Longrightarrow> step_to i s ks w w2"
  using step_trans [of i _ "[]" w w1 s ks w2] by simp

lemma quiet_state: "quiet i w w' \<Longrightarrow> mstate (obj i w') = mstate (obj i w)"
  by (simp add: step_to_def)

subsection \<open>Updates that leave the mutex alone\<close>

lemma quiet_fields:
  assumes "sw_map w' = sw_map w" "sw_reports w' = sw_reports w"
  shows "quiet i w w'"
  using assms by (simp add: step_to_def same_meta_def obj_def misuses_def)

lemma quiet_thread [simp]: "quiet i w (upd_thread t f w)"
  by (rule quiet_fields) (simp_all add: upd_thread_def)

lemma quiet_epoch [simp]: "quiet i w (increment_epoch t w)"
  by (simp add: increment_epoch_def)

lemma quiet_upd:
  assumes "\<And>s. sv_addr (f s) = sv_addr s" "\<And>s. sv_next (f s) = sv_next s" "\<And>s. mstate (f s) = mstate s"
  shows "quiet i w (upd_obj i f w)"
  using assms by (simp add: step_to_def same_meta_def obj_def upd_obj_def misuses_def)

lemma quiet_store [simp]: "quiet i w (store_clocks t c h out w)"
  by (simp add: step_to_def same_meta_def obj_def store_clocks_def upd_thread_def misuses_def)

lemma quiet_set_epoch [simp]: "quiet i w (set_epoch t w)"
  by (rule quiet_fields) (simp_all add: set_epoch_def upd_thread_def Let_def split: prod.splits)

lemma quiet_synch_epoch [simp]: "quiet i w (set_synch_epoch t w)"
  by (simp add: set_synch_epoch_def)

lemma access_map: "access t f w = Some w' \<Longrightarrow> sw_map w' = sw_map w \<and> sw_reports w' = sw_reports w"
  by (auto simp: access_def upd_thread_def split: sum.splits prod.splits)

lemma quiet_AcquireImpl: "AcquireImpl t rd i w = Some w' \<Longrightarrow> quiet i w w'"
proof -
  assume a: "AcquireImpl t rd i w = Some w'"
  then consider "w' = w" | c h out where "w' = store_clocks t c h out (set_epoch t w)"
    unfolding AcquireImpl_def by (auto split: if_splits bind_splits prod.splits simp: Let_def)
  then show "quiet i w w'" using step_quiet [OF quiet_set_epoch quiet_store] by cases simp_all
qed

lemma quiet_put [simp]: "quiet i w (upd_obj i (put_clk rd c) w)"
  by (rule quiet_upd) (simp_all add: put_clk_def mstate_def)

lemma quiet_release: "release_with f t rd i w = Some w' \<Longrightarrow> quiet i w w'"
proof -
  assume a: "release_with f t rd i w = Some w'"
  then consider "w' = w"
    | c s h out where "w' = upd_obj i (put_clk rd s) (store_clocks t c h out (set_synch_epoch t (set_epoch t w)))"
    unfolding release_with_def by (auto split: if_splits bind_splits prod.splits simp: Let_def)
  then show "quiet i w w'"
    using step_quiet [OF step_quiet [OF step_quiet [OF quiet_set_epoch quiet_synch_epoch] quiet_store] quiet_put] by cases simp_all
qed

lemmas quiet_releases = quiet_release [of "\<lambda>c s h. map_option (\<lambda>(c, s, h). (c, s, h, [])) (release c s h)", folded ReleaseImpl_def]
  quiet_release [of "\<lambda>c s h. map_option (\<lambda>(c, s, h). (c, s, h, [])) (ReleaseStore c s h)", folded ReleaseStoreImpl_def]

lemma quiet_with_dd: "with_dd t f w = Some w' \<Longrightarrow> quiet i w w'"
  unfolding with_dd_def
  by (auto split: bind_splits prod.splits simp: step_to_def same_meta_def obj_def upd_thread_def misuses_def)

lemma quiet_before_lock: "before_lock env t pc i w = Some w' \<Longrightarrow> quiet i w w'"
  unfolding before_lock_def by (rule quiet_with_dd)

lemma quiet_after_lock: "after_lock env t pc i wl tr w = Some w' \<Longrightarrow> quiet i w w'"
  unfolding after_lock_def by (rule quiet_with_dd)

lemma quiet_before_unlock: "before_unlock t i w = Some w' \<Longrightarrow> quiet i w w'"
  unfolding before_unlock_def by (rule quiet_with_dd)

lemma quiet_mset: "with_mset t f w = Some w' \<Longrightarrow> quiet i w w'"
  unfolding with_mset_def by (auto split: bind_splits)

lemma quiet_ReportDeadlock [simp]: "quiet i w (ReportDeadlock t w)"
proof -
  have "quiet i w (report (Deadlock l) w)" for l w
    by (simp add: step_to_def same_meta_def obj_def report_def misuses_def misuse_of_def List.map_filter_def)
  from step_quiet [OF quiet_thread this] show ?thesis
    by (auto simp: ReportDeadlock_def Let_def split: prod.splits option.splits)
qed

subsection \<open>Updates of the mutex\<close>

lemma step_upd:
  assumes "\<And>s. sv_addr (f s) = sv_addr s" "\<And>s. sv_next (f s) = sv_next s" "mstate (f (obj i w)) = s"
  shows "step_to i s [] w (upd_obj i f w)"
  using assms by (simp add: step_to_def same_meta_def obj_def upd_obj_def misuses_def)

lemma mstate_sel [simp]: "ms_owner (mstate s) = sv_owner s" "ms_levels (mstate s) = sv_recursion s" "ms_flags (mstate s) = sv_flags s"
  by (simp_all add: mstate_def)

lemma flag_set: "IsFlagSet f s \<longleftrightarrow> has_flag (ms_flags (mstate s)) f"
  by (simp add: IsFlagSet_def has_flag_def)

lemma step_SetFlags: "step_to i ((mstate (obj i w))\<lparr>ms_flags := ms_flags (mstate (obj i w)) OR f\<rparr>) [] w (upd_obj i (SetFlags f) w)"
  by (rule step_upd) (simp_all add: SetFlags_def mstate_def)

lemma step_UpdateFlags: "step_to i (adopt_flags f (mstate (obj i w))) [] w (upd_obj i (UpdateFlags f) w)"
  by (rule step_upd) (simp_all add: UpdateFlags_def mstate_def adopt_flags_def has_flag_def Let_def)

lemma step_report: "step_to i (mstate (obj i w)) [(k, a)] w (report r w)" if "misuse_of r = Some (k, a)"
  using that by (simp add: step_to_def same_meta_def obj_def report_def misuses_def List.map_filter_def)

lemma step_misuse: "step_to i (mstate (obj i w)) [(Some k, a)] w (ReportMutexMisuse k a mid w)"
  unfolding ReportMutexMisuse_def by (rule step_report) (simp add: misuse_of_def)

text \<open>A misuse is marked now and reported at the end of the operation.\<close>

lemma mark_broken_step:
  assumes "mark_broken b i w = (r, w')"
  shows "step_to i (fst (misused b k (mstate (obj i w)))) [] w w' \<and> r = (snd (misused b k (mstate (obj i w))) \<noteq> [])"
  using assms step_SetFlags [of i w MutexFlagBroken]
  by (auto simp: mark_broken_def misused_def flag_set broken_def split: if_splits)

lemma misused_reports: "snd (misused b k s) = (if snd (misused b k s) \<noteq> [] then [Some k] else [])"
  by (simp add: misused_def)

lemma report_late:
  assumes "step_to i s [] w w1" and "ks = (if r then [Some k] else [])"
  shows "step_to i s (map (\<lambda>k. (k, a)) ks) w (if r then ReportMutexMisuse k a mid w1 else w1)"
  using step_trans [OF assms(1) step_misuse [of i w1 k a mid]] assms by (simp add: step_state)

section \<open>From one object to the map of mutexes\<close>

definition promises :: "u32 set \<Rightarrow> u32 set \<Rightarrow> u64 \<Rightarrow> mutex_state \<times> misuse option list \<Rightarrow> sync_world \<Rightarrow> sync_world \<Rightarrow> bool" where
  "promises X Y a r w w' \<longleftrightarrow> meta_ok X Y (sw_map w') \<and> mutex_at w' = (mutex_at w)(a := fst r) \<and>
     misuses w' = misuses w @ map (\<lambda>k. (k, a)) (snd r)"

lemma step_meta:
  assumes ok: "meta_ok X Y (sw_map w)" and i: "sync_at (sw_map w) a = Some i" and st: "step_to i s ks w w'"
  shows "meta_ok X Y (sw_map w') \<and> sync_at (sw_map w') = sync_at (sw_map w) \<and> mutex_at w' = (mutex_at w)(a := s)"
proof -
  obtain SL BL where inv: "mm_inv SL BL X Y (sw_map w)" using ok by (auto simp: meta_ok_def)
  have on: "i \<in> on_lists SL" using sync_at_iff [OF inv] i by simp
  have st': "mm_meta (sw_map w') = mm_meta (sw_map w)" "sync_alloc (sw_map w') = sync_alloc (sw_map w)"
      "block_alloc (sw_map w') = block_alloc (sw_map w)" "\<forall>j. j \<noteq> i \<longrightarrow> mm_syncs (sw_map w') j = mm_syncs (sw_map w) j"
      "sv_addr (mm_syncs (sw_map w') i) = sv_addr (mm_syncs (sw_map w) i)"
      "sv_next (mm_syncs (sw_map w') i) = sv_next (mm_syncs (sw_map w) i)"
    using st by (simp_all add: step_to_def same_meta_def obj_def)
  have inv': "mm_inv SL BL X Y (sw_map w')" using st' on by (intro mm_inv_fields [OF inv]) (simp_all, metis, metis)
  have addr: "sv_addr (mm_syncs (sw_map w') j) = sv_addr (mm_syncs (sw_map w) j)" for j using st'(4,5) by (cases "j = i") simp_all
  have at: "sync_at (sw_map w') = sync_at (sw_map w)"
    by (intro ext option_eqI) (simp add: sync_at_iff [OF inv] sync_at_iff [OF inv'] addr)
  have "mutex_at w' b = ((mutex_at w)(a := s)) b" for b
  proof (cases "sync_at (sw_map w) b")
    case None
    then show ?thesis using i at by (auto simp: mutex_at_def)
  next
    case (Some j)
    have "j = i \<longleftrightarrow> b = a" using Some i sync_at_iff [OF inv] by (metis option.inject)
    then show ?thesis using Some i at st by (auto simp: mutex_at_def step_to_def)
  qed
  then show ?thesis using inv' at unfolding meta_ok_def by blast
qed

lemma step_promises:
  assumes "meta_ok X Y (sw_map w)" "sync_at (sw_map w) a = Some i" "step_to i (fst r) (map (\<lambda>k. (k, a)) (snd r)) w w'"
  shows "promises X Y a r w w'"
  using step_meta [OF assms] assms(3) by (simp add: promises_def step_to_def)

lemma mutex_at_cong: "sw_map w' = sw_map w \<Longrightarrow> mutex_at w' = mutex_at w"
  by (intro ext) (simp add: mutex_at_def obj_def split: option.split)

lemma misuses_cong: "sw_reports w' = sw_reports w \<Longrightarrow> misuses w' = misuses w"
  by (simp add: misuses_def)

lemma promises_from:
  assumes "promises X Y a r w0 w'" "sw_map w0 = sw_map w" "sw_reports w0 = sw_reports w"
  shows "promises X Y a r w w'"
  using assms mutex_at_cong [OF assms(2)] misuses_cong [OF assms(3)] by (simp add: promises_def)

text \<open>The object of an address, created if need be, is at first as the map says.\<close>

lemma get_or_create_state:
  assumes "get_or_create env t pc a w = Some (i, w1)" "meta_ok X Y (sw_map w)"
  shows "meta_ok X Y (sw_map w1) \<and> sync_at (sw_map w1) a = Some i \<and> mstate (obj i w1) = mutex_at w a \<and> mutex_at w1 = mutex_at w \<and>
    misuses w1 = misuses w"
proof -
  obtain m where m: "GetOrCreateAndLock (detect_deadlocks env) (CurrentStackId env t pc w) a (sw_map w) = Some (i, m)" "w1 = w\<lparr>sw_map := m\<rparr>"
    using assms(1) by (auto simp: get_or_create_def split: bind_splits)
  have "sync_at (sw_map w) a = None \<Longrightarrow> da_alloc kSyncL1 kSyncL2 (sync_alloc (sw_map w)) \<noteq> None"
    by (rule get_or_create_allocates [OF assms(2) m(1)])
  note g = get_or_create_alloc [OF assms(2) this, where a = a and det = "detect_deadlocks env" and stk = "CurrentStackId env t pc w", unfolded m(1)]
  have rep: "misuses w1 = misuses w" by (simp add: misuses_def m(2))
  show ?thesis
  proof (cases "sync_at (sw_map w) a")
    case (Some j)
    then show ?thesis using g m(2) rep assms(2) by (simp add: mutex_at_def obj_def)
  next
    case None
    then have n: "meta_ok X Y m" "sync_at m = (sync_at (sw_map w))(a := Some i)" "\<forall>b. sync_at (sw_map w) b \<noteq> Some i"
        "sv_owner (mm_syncs m i) = kInvalidOwner" "sv_recursion (mm_syncs m i) = 0" "sv_flags (mm_syncs m i) = 0"
        "\<forall>j. j \<noteq> i \<longrightarrow> mm_syncs m j = mm_syncs (sw_map w) j"
      using g by auto
    have fresh: "mstate (obj i w1) = free_mutex" using n by (simp add: mstate_def free_mutex_def obj_def m(2))
    have "mutex_at w1 b = mutex_at w b" for b
    proof (cases "b = a")
      case True
      then show ?thesis using None n(2) fresh by (simp add: mutex_at_def m(2))
    next
      case False
      then show ?thesis using n(2,3,7) by (auto simp: mutex_at_def m(2) obj_def split: option.split)
    qed
    then have "mutex_at w1 = mutex_at w" by blast
    then show ?thesis using n fresh rep None by (simp add: m(2) mutex_at_def [of w a])
  qed
qed

lemma on_object:
  assumes "get_or_create env t pc a w = Some (i, w1)" "meta_ok X Y (sw_map w)"
    and "mstate (obj i w1) = mutex_at w a \<Longrightarrow> step_to i (fst r) (map (\<lambda>k. (k, a)) (snd r)) w1 w'"
  shows "promises X Y a r w w'"
proof -
  note g = get_or_create_state [OF assms(1,2)]
  then have "promises X Y a r w1 w'" using assms(3) by (intro step_promises) simp_all
  then show ?thesis using g by (simp add: promises_def)
qed

section \<open>The operations take their steps\<close>

lemma imitate_map: "imitate_write env t pc a w = Some w' \<Longrightarrow> sw_map w' = sw_map w \<and> sw_reports w' = sw_reports w"
  unfolding imitate_write_def
  by (auto split: if_splits bind_splits dest!: access_map simp: set_freeing_def upd_thread_def)

lemma touch_map: "touch_mutex env t pc a w = Some w' \<Longrightarrow> sw_map w' = sw_map w \<and> sw_reports w' = sw_reports w"
  unfolding touch_mutex_def by (auto split: if_splits dest: access_map)

text \<open>An operation that first touches the address and then works on its object.\<close>

lemma on_touched:
  assumes "touch_mutex env t pc a w = Some w0" "get_or_create env t pc a w0 = Some (i, w1)"
    and "meta_ok X Y (sw_map w)"
    and "mstate (obj i w1) = mutex_at w a \<Longrightarrow> step_to i (fst r) (map (\<lambda>k. (k, a)) (snd r)) w1 w'"
  shows "promises X Y a r w w'"
proof -
  have m: "sw_map w0 = sw_map w" "sw_reports w0 = sw_reports w" using touch_map [OF assms(1)] by simp_all
  have "mutex_at w0 = mutex_at w" using m by (intro mutex_at_cong)
  then have "promises X Y a r w0 w'" using assms(2-4) m by (intro on_object [of env t pc a w0 i w1]) simp_all
  then show ?thesis using m by (rule promises_from)
qed

lemma create_promises:
  assumes "MutexCreate env t pc a f w = Some w'" "meta_ok X Y (sw_map w)"
  shows "promises X Y a (mutex_spec env t (DoCreate f) (mutex_at w a)) w w'"
proof -
  let ?set = "\<lambda>i w. upd_obj i (SetFlags (f AND MutexCreationFlagMask)) w"
  obtain w0 where w0: "(if \<not> has_flag f MutexFlagLinkerInit \<and> IsAppMem a then imitate_write env t pc a w else Some w) = Some w0"
    and rest: "do { (i, w) \<leftarrow> get_or_create env t pc a w0;
        let w = ?set i w;
        Some (if sv_stack (obj i w) = 0 then upd_obj i (\<lambda>s. s\<lparr>sv_stack := CurrentStackId env t pc w\<rparr>) w else w) } = Some w'"
    using assms(1) unfolding MutexCreate_def by (rule bindE)
  have m: "sw_map w0 = sw_map w" "sw_reports w0 = sw_reports w"
    using w0 imitate_map [of env t pc a w w0] by (simp_all split: if_splits)
  obtain v where v: "get_or_create env t pc a w0 = Some v" using rest by (rule bindE)
  then obtain i w1 where c: "get_or_create env t pc a w0 = Some (i, w1)" by (cases v) simp
  have w': "w' = (let w = ?set i w1 in
      if sv_stack (obj i w) = 0 then upd_obj i (\<lambda>s. s\<lparr>sv_stack := CurrentStackId env t pc w\<rparr>) w else w)"
    using rest by (simp add: c Let_def)
  have "quiet i (?set i w1) w'"
  proof -
    have "quiet i w (upd_obj i (\<lambda>s. s\<lparr>sv_stack := k\<rparr>) w)" for k w by (rule quiet_upd) (simp_all add: mstate_def)
    then show ?thesis by (simp add: w' Let_def)
  qed
  from step_quiet [OF step_SetFlags this] have "step_to i ((mstate (obj i w1))\<lparr>ms_flags := ms_flags (mstate (obj i w1)) OR (f AND MutexCreationFlagMask)\<rparr>) [] w1 w'" .
  then have "promises X Y a (mutex_spec env t (DoCreate f) (mutex_at w0 a)) w0 w'"
    using m assms(2) by (intro on_object [OF c]) (simp_all del: mstate_sel)
  moreover have "mutex_at w0 = mutex_at w" using m by (intro mutex_at_cong)
  ultimately show ?thesis using promises_from [OF _ m] by simp
qed

lemma prelock_promises:
  assumes "MutexPreLock env t pc a f w = Some w'" "meta_ok X Y (sw_map w)"
  shows "promises X Y a (mutex_spec env t (DoPreLock f) (mutex_at w a)) w w'"
proof (cases "\<not> has_flag f MutexFlagTryLock \<and> detect_deadlocks env")
  case True
  then obtain i w1 where i: "get_or_create env t pc a w = Some (i, w1)"
      "w' = upd_obj i (UpdateFlags f) w1 \<or>
       (\<exists>w2. before_lock env t pc i (upd_obj i (UpdateFlags f) w1) = Some w2 \<and> w' = ReportDeadlock t w2)"
    using assms(1) unfolding MutexPreLock_def by (auto split: if_splits bind_splits prod.splits simp: Let_def)
  have "quiet i (upd_obj i (UpdateFlags f) w1) w'"
    using i(2) step_quiet [OF quiet_before_lock quiet_ReportDeadlock] by auto
  from step_quiet [OF step_UpdateFlags this] show ?thesis
    using True by (intro on_object [OF i(1) assms(2)]) simp
next
  case False
  then show ?thesis using assms by (auto simp: MutexPreLock_def promises_def)
qed

lemma preread_promises:
  assumes "MutexPreReadLock env t pc a f w = Some w'" "meta_ok X Y (sw_map w)"
  shows "promises X Y a (mutex_spec env t (DoPreReadLock f) (mutex_at w a)) w w'"
proof (cases "\<not> has_flag f MutexFlagTryLock \<and> detect_deadlocks env")
  case True
  then obtain i w1 w2 where i: "get_or_create env t pc a w = Some (i, w1)"
      "before_lock env t pc i (upd_obj i (UpdateFlags f) w1) = Some w2" "w' = ReportDeadlock t w2"
    using assms(1) unfolding MutexPreReadLock_def by (auto split: if_splits bind_splits prod.splits simp: Let_def)
  have "quiet i (upd_obj i (UpdateFlags f) w1) w'"
    using i(2,3) step_quiet [OF quiet_before_lock quiet_ReportDeadlock] by auto
  from step_quiet [OF step_UpdateFlags this] show ?thesis
    using True by (intro on_object [OF i(1) assms(2)]) simp
next
  case False
  then show ?thesis using assms by (auto simp: MutexPreReadLock_def promises_def)
qed

lemma repair_promises:
  assumes "MutexRepair env t pc a w = Some w'" "meta_ok X Y (sw_map w)"
  shows "promises X Y a (mutex_spec env t DoRepair (mutex_at w a)) w w'"
proof -
  obtain i w1 where i: "get_or_create env t pc a w = Some (i, w1)"
      "w' = upd_obj i (\<lambda>s. s\<lparr>sv_owner := kInvalidOwner, sv_recursion := 0\<rparr>) w1"
    using assms(1) unfolding MutexRepair_def by (auto split: bind_splits)
  have "step_to i ((mstate (obj i w1))\<lparr>ms_owner := kInvalidOwner, ms_levels := 0\<rparr>) [] w1 w'"
    unfolding i(2) by (rule step_upd) (simp_all add: mstate_def)
  then show ?thesis by (intro on_object [OF i(1) assms(2)]) simp
qed

lemma invalid_promises:
  assumes "MutexInvalidAccess env t pc a w = Some w'" "meta_ok X Y (sw_map w)"
  shows "promises X Y a (mutex_spec env t DoInvalidAccess (mutex_at w a)) w w'"
proof -
  obtain i w1 where i: "get_or_create env t pc a w = Some (i, w1)"
      "w' = ReportMutexMisuse ReportTypeMutexInvalidAccess a (SyncVar_GetId (obj i w1)) w1"
    using assms(1) unfolding MutexInvalidAccess_def by (auto split: bind_splits)
  have "step_to i (mstate (obj i w1)) [(Some ReportTypeMutexInvalidAccess, a)] w1 w'"
    unfolding i(2) by (rule step_misuse)
  then show ?thesis by (intro on_object [OF i(1) assms(2)]) simp
qed

subsection \<open>Locking and unlocking\<close>

definition take_spec :: "sync_env \<Rightarrow> nat \<Rightarrow> mutex_state \<Rightarrow> mutex_state \<times> misuse option list" where
  "take_spec env t s =
     (if ms_owner s = kInvalidOwner then (s\<lparr>ms_owner := int t\<rparr>, []) else if ms_owner s = int t then (s, [])
      else misused (report_mutex_bugs env) ReportTypeMutexDoubleLock s)"

lemma take_ownership_step:
  assumes "take_ownership env t i w = Some (r, w')"
  shows "step_to i (fst (take_spec env t (mstate (obj i w)))) [] w w' \<and> r = (snd (take_spec env t (mstate (obj i w))) \<noteq> [])"
proof -
  let ?s = "mstate (obj i w)" and ?take = "upd_obj i (\<lambda>s. s\<lparr>sv_owner := int t, sv_last_lock := fast_state (st_state (sw_threads w t))\<rparr>) w"
  consider "sv_owner (obj i w) = kInvalidOwner" "r = False" "w' = ?take"
    | "sv_owner (obj i w) \<noteq> kInvalidOwner" "sv_owner (obj i w) = int t" "r = False" "w' = w"
    | "sv_owner (obj i w) \<noteq> kInvalidOwner" "sv_owner (obj i w) \<noteq> int t" "mark_broken (report_mutex_bugs env) i w = (r, w')"
    using assms unfolding take_ownership_def by (auto split: if_splits)
  then show ?thesis
  proof cases
    case 1
    have "step_to i (?s\<lparr>ms_owner := int t\<rparr>) [] w ?take" by (rule step_upd) (simp_all add: mstate_def)
    then show ?thesis using 1 by (simp add: take_spec_def)
  next
    case 2
    then show ?thesis by (simp add: take_spec_def)
  next
    case 3
    then show ?thesis using mark_broken_step [OF 3(3), of ReportTypeMutexDoubleLock] by (simp add: take_spec_def)
  qed
qed

lemma take_reports: "snd (take_spec env t s) = (if snd (take_spec env t s) \<noteq> [] then [Some ReportTypeMutexDoubleLock] else [])"
  by (simp add: take_spec_def misused_def)

lemma add_recursion_Some: "add_recursion r n = Some k \<longleftrightarrow> k = r + n \<and> r + n < 2 ^ 31"
  by (auto simp: add_recursion_def)

lemma upd_depth: "upd_obj i (\<lambda>s. s\<lparr>sv_recursion := sv_recursion (obj i w) + n\<rparr>) w = upd_obj i (\<lambda>s. s\<lparr>sv_recursion := sv_recursion s + n\<rparr>) w"
  by (simp add: upd_obj_def obj_def upd_sync_def)

text \<open>The levels a lock adds.\<close>

definition levels_added :: "mutex_call \<Rightarrow> int" where
  "levels_added c = (case c of DoPostLock f rec \<Rightarrow> if has_flag f MutexFlagRecursiveLock then rec else 1 | _ \<Rightarrow> 0)"

lemma postlock_promises:
  assumes "MutexPostLock env t pc a f rec w = Some w'" "meta_ok X Y (sw_map w)"
  shows "promises X Y a (mutex_spec env t (DoPostLock f rec) (mutex_at w a)) w w' \<and>
    ms_levels (mutex_at w a) + levels_added (DoPostLock f rec) < 2 ^ 31"
proof -
  let ?add = "\<lambda>n i w. upd_obj i (\<lambda>s. s\<lparr>sv_recursion := sv_recursion s + n\<rparr>) w"
    and ?first = "\<lambda>i w. sv_recursion (obj i w) = 0" and ?trylock = "has_flag f MutexFlagTryLock"
  let ?pre = "\<lambda>i w. ?first i w \<and> detect_deadlocks env \<and> has_flag f MutexFlagDoPreLockOnPostLock \<and> \<not> ?trylock"
  obtain n w0 i w1 r w3 k w5 w6 w7 where
      n: "(if has_flag f MutexFlagRecursiveLock then if rec > 0 then Some rec else None else Some 1) = Some n"
    and w0: "touch_mutex env t pc a w = Some w0" and i: "get_or_create env t pc a w0 = Some (i, w1)"
    and w3: "take_ownership env t i (increment_epoch t (upd_obj i (UpdateFlags f) w1)) = Some (r, w3)"
    and k: "add_recursion (sv_recursion (obj i w3)) n = Some k"
    and w5': "(if ?first i w3 then do { w \<leftarrow> AcquireImpl t False i (upd_obj i (\<lambda>s. s\<lparr>sv_recursion := k\<rparr>) w3); AcquireImpl t True i w }
              else Some (upd_obj i (\<lambda>s. s\<lparr>sv_recursion := k\<rparr>) w3)) = Some w5"
    and w6: "with_mset t (MutexSet_Add (SyncVar_GetId (obj i w5)) True (thread_epoch t w5)) w5 = Some w6"
    and w7: "(if ?first i w3 \<and> detect_deadlocks env
              then do { w \<leftarrow> (if ?pre i w3 then before_lock env t pc i w6 else Some w6); after_lock env t pc i True ?trylock w }
              else Some w6) = Some w7"
    and fin: "Some (if ?first i w3 \<and> ?pre i w3 \<and> detect_deadlocks env
              then ReportDeadlock t (if r then ReportMutexMisuse ReportTypeMutexDoubleLock a (SyncVar_GetId (obj i w7)) w7 else w7)
              else if r then ReportMutexMisuse ReportTypeMutexDoubleLock a (SyncVar_GetId (obj i w7)) w7 else w7) = Some w'"
    using assms(1) unfolding MutexPostLock_def by (elim bindE2 bindE letE) (rule that)
  let ?T = "take_spec env t (adopt_flags f (mutex_at w a))"
  have k': "k = sv_recursion (obj i w3) + n" "sv_recursion (obj i w3) + n < 2 ^ 31" using k by (simp_all add: add_recursion_Some)
  have w5: "(if ?first i w3 then do { w \<leftarrow> AcquireImpl t False i (?add n i w3); AcquireImpl t True i w } else Some (?add n i w3)) = Some w5"
    using w5' unfolding k'(1) upd_depth .
  have "mstate (obj i w1) = mutex_at w a"
  proof -
    have m: "sw_map w0 = sw_map w" "sw_reports w0 = sw_reports w" using touch_map [OF w0] by simp_all
    then show ?thesis using get_or_create_state [OF i] assms(2) mutex_at_cong [OF m(1)] by simp
  qed
  moreover have "ms_levels (mutex_at w a) = sv_recursion (obj i w3)" if m: "mstate (obj i w1) = mutex_at w a"
  proof -
    have s2: "step_to i (adopt_flags f (mutex_at w a)) [] w1 (increment_epoch t (upd_obj i (UpdateFlags f) w1))"
      using step_quiet [OF step_UpdateFlags quiet_epoch, of i f w1] by (simp add: m)
    have "mstate (obj i w3) = fst ?T"
      using step_state [OF conjunct1 [OF take_ownership_step [OF w3]]] unfolding step_state [OF s2] .
    then have "sv_recursion (obj i w3) = ms_levels (fst ?T)" by (simp flip: mstate_sel(2) del: mstate_sel)
    then show ?thesis by (simp add: take_spec_def misused_def adopt_flags_def)
  qed
  moreover have "n = levels_added (DoPostLock f rec)" using n by (simp add: levels_added_def split: if_splits)
  ultimately have bound: "ms_levels (mutex_at w a) + levels_added (DoPostLock f rec) < 2 ^ 31" using k'(2) by simp
  have "promises X Y a (mutex_spec env t (DoPostLock f rec) (mutex_at w a)) w w'"
  proof (rule on_touched [OF w0 i assms(2)])
    assume m: "mstate (obj i w1) = mutex_at w a"
    have s2: "step_to i (adopt_flags f (mutex_at w a)) [] w1 (increment_epoch t (upd_obj i (UpdateFlags f) w1))"
      using step_quiet [OF step_UpdateFlags quiet_epoch, of i f w1] by (simp add: m)
    note T = take_ownership_step [OF w3, unfolded step_state [OF s2]]
    have s3: "step_to i (fst ?T) [] w1 w3" using step_trans [OF s2 conjunct1 [OF T]] by simp
    have "step_to i (add_levels n (fst ?T)) [] w3 (upd_obj i (\<lambda>s. s\<lparr>sv_recursion := sv_recursion s + n\<rparr>) w3)"
      by (rule step_upd) (simp_all add: add_levels_def mstate_def flip: step_state [OF s3])
    then have s4: "step_to i (add_levels n (fst ?T)) [] w1 (upd_obj i (\<lambda>s. s\<lparr>sv_recursion := sv_recursion s + n\<rparr>) w3)"
      using step_trans [OF s3] by simp
    have "quiet i (upd_obj i (\<lambda>s. s\<lparr>sv_recursion := sv_recursion s + n\<rparr>) w3) w5"
      using w5 by (auto split: if_splits elim!: bindE intro: step_quiet quiet_AcquireImpl)
    moreover have "quiet i w5 w6" using w6 by (rule quiet_mset)
    moreover have "quiet i w6 w7"
      using w7 by (auto split: if_splits elim!: bindE intro: step_quiet quiet_before_lock quiet_after_lock)
    ultimately have s7: "step_to i (add_levels n (fst ?T)) [] w1 w7" using s4 by (blast intro: step_quiet)
    have "snd ?T = (if r then [Some ReportTypeMutexDoubleLock] else [])" using conjunct2 [OF T] take_reports by simp
    from report_late [OF s7 this, of a "SyncVar_GetId (obj i w7)"]
    have "step_to i (add_levels n (fst ?T)) (map (\<lambda>k. (k, a)) (snd ?T)) w1 w'"
      using fin step_quiet [OF _ quiet_ReportDeadlock] by (auto split: if_splits)
    moreover have "mutex_spec env t (DoPostLock f rec) (mutex_at w a) = (add_levels n (fst ?T), snd ?T)"
      using n by (auto simp: take_spec_def Let_def map_prod_def split: if_splits prod.splits)
    ultimately show "step_to i (fst (mutex_spec env t (DoPostLock f rec) (mutex_at w a)))
        (map (\<lambda>k. (k, a)) (snd (mutex_spec env t (DoPostLock f rec) (mutex_at w a)))) w1 w'" by simp
  qed
  then show ?thesis using bound by blast
qed

text \<open>The owner gives up levels of an object it holds, and releases it with the last.\<close>

lemma drop_step:
  assumes "(if sv_recursion (obj i (upd_obj i (\<lambda>s. s\<lparr>sv_recursion := sv_recursion s - n\<rparr>) w)) = 0
      then ReleaseStoreImpl t False i (upd_obj i (\<lambda>s. s\<lparr>sv_owner := kInvalidOwner\<rparr>) (upd_obj i (\<lambda>s. s\<lparr>sv_recursion := sv_recursion s - n\<rparr>) w))
      else Some (upd_obj i (\<lambda>s. s\<lparr>sv_recursion := sv_recursion s - n\<rparr>) w)) = Some w'"
  shows "step_to i (drop_levels n (mstate (obj i w))) [] w w'"
proof -
  let ?d = "upd_obj i (\<lambda>s. s\<lparr>sv_recursion := sv_recursion s - n\<rparr>)" and ?f = "upd_obj i (\<lambda>s. s\<lparr>sv_owner := kInvalidOwner\<rparr>)"
  have r: "sv_recursion (obj i (?d w)) = sv_recursion (obj i w) - n" by (simp add: obj_def upd_obj_def)
  have "step_to i ((mstate (obj i w))\<lparr>ms_levels := sv_recursion (obj i w) - n\<rparr>) [] w (?d w)"
    by (rule step_upd) (simp_all add: mstate_def)
  moreover have "step_to i ((mstate (obj i v))\<lparr>ms_owner := kInvalidOwner\<rparr>) [] v (?f v)" for v
    by (rule step_upd) (simp_all add: mstate_def)
  note step_trans [OF calculation this]
  ultimately show ?thesis
    using assms unfolding r
    by (auto simp: drop_levels_def mstate_def step_state [unfolded mstate_def] split: if_splits
        intro: step_quiet [OF _ quiet_releases(2)])
qed

definition give_spec :: "sync_env \<Rightarrow> nat \<Rightarrow> u32 \<Rightarrow> mutex_state \<Rightarrow> mutex_state \<times> misuse option list" where
  "give_spec env t f s =
     (if ms_levels s = 0 \<or> ms_owner s \<noteq> int t then misused (report_mutex_bugs env) ReportTypeMutexBadUnlock s
      else (drop_levels (if has_flag f MutexFlagRecursiveUnlock then ms_levels s else 1) s, []))"

lemma give_up_step:
  assumes "give_up env t f i w = Some (r, n, w')"
  shows "step_to i (fst (give_spec env t f (mstate (obj i w)))) [] w w' \<and> r = (snd (give_spec env t f (mstate (obj i w))) \<noteq> [])"
proof (cases "sv_recursion (obj i w) = 0 \<or> sv_owner (obj i w) \<noteq> int t")
  case True
  then have "mark_broken (report_mutex_bugs env) i w = (r, w')"
    using assms by (auto simp: give_up_def Let_def split: prod.splits)
  from mark_broken_step [OF this, of ReportTypeMutexBadUnlock] show ?thesis using True by (auto simp: give_spec_def)
next
  case False
  let ?n = "if has_flag f MutexFlagRecursiveUnlock then sv_recursion (obj i w) else 1"
  from assms False have "r = False" and d: "(if sv_recursion (obj i (upd_obj i (\<lambda>s. s\<lparr>sv_recursion := sv_recursion s - ?n\<rparr>) w)) = 0
      then ReleaseStoreImpl t False i (upd_obj i (\<lambda>s. s\<lparr>sv_owner := kInvalidOwner\<rparr>) (upd_obj i (\<lambda>s. s\<lparr>sv_recursion := sv_recursion s - ?n\<rparr>) w))
      else Some (upd_obj i (\<lambda>s. s\<lparr>sv_recursion := sv_recursion s - ?n\<rparr>) w)) = Some w'"
    unfolding give_up_def Let_def by (simp_all only: if_False bind_eq_Some_conv prod.inject option.inject) auto
  from drop_step [OF d] show ?thesis using False \<open>r = False\<close> by (auto simp: give_spec_def split: if_splits)
qed

lemma give_reports: "snd (give_spec env t f s) = (if snd (give_spec env t f s) \<noteq> [] then [Some ReportTypeMutexBadUnlock] else [])"
  by (simp add: give_spec_def misused_def)

lemma unlock_promises:
  assumes "MutexUnlock env t pc a f w = Some (n, w')" "meta_ok X Y (sw_map w)"
  shows "promises X Y a (mutex_spec env t (DoUnlock f) (mutex_at w a)) w w'"
proof -
  obtain w0 i w1 r n w3 w4 w5 where
      w0: "touch_mutex env t pc a w = Some w0" and i: "get_or_create env t pc a w0 = Some (i, w1)"
    and w3: "give_up env t f i (increment_epoch t w1) = Some (r, n, w3)"
    and w4: "with_mset t (MutexSet_Del (SyncVar_GetId (obj i w3)) True) w3 = Some w4"
    and w5: "(if detect_deadlocks env \<and> sv_recursion (obj i w4) = 0 \<and> \<not> r then before_unlock t i w4 else Some w4) = Some w5"
    and fin: "Some (n, if detect_deadlocks env \<and> \<not> r
              then ReportDeadlock t (if r then ReportMutexMisuse ReportTypeMutexBadUnlock a (SyncVar_GetId (obj i w5)) w5 else w5)
              else if r then ReportMutexMisuse ReportTypeMutexBadUnlock a (SyncVar_GetId (obj i w5)) w5 else w5) = Some (n, w')"
    using assms(1) unfolding MutexUnlock_def by (elim bindE3 bindE2 bindE letE) (rule that, simp_all)
  let ?T = "give_spec env t f (mutex_at w a)"
  show ?thesis
  proof (rule on_touched [OF w0 i assms(2)])
    assume m: "mstate (obj i w1) = mutex_at w a"
    have s2: "step_to i (mutex_at w a) [] w1 (increment_epoch t w1)" using quiet_epoch [of i w1 t] by (simp add: m)
    note T = give_up_step [OF w3, unfolded step_state [OF s2]]
    have s3: "step_to i (fst ?T) [] w1 w3" using step_trans [OF s2 conjunct1 [OF T]] by simp
    have "quiet i w3 w4" using w4 by (rule quiet_mset)
    moreover have "quiet i w4 w5" using w5 by (auto split: if_splits intro: quiet_before_unlock)
    ultimately have s5: "step_to i (fst ?T) [] w1 w5" using s3 by (blast intro: step_quiet)
    have "snd ?T = (if r then [Some ReportTypeMutexBadUnlock] else [])" using conjunct2 [OF T] give_reports by simp
    from report_late [OF s5 this, of a "SyncVar_GetId (obj i w5)"]
    have "step_to i (fst ?T) (map (\<lambda>k. (k, a)) (snd ?T)) w1 w'"
      using fin step_quiet [OF _ quiet_ReportDeadlock] by (auto split: if_splits)
    then show "step_to i (fst (mutex_spec env t (DoUnlock f) (mutex_at w a)))
        (map (\<lambda>k. (k, a)) (snd (mutex_spec env t (DoUnlock f) (mutex_at w a)))) w1 w'" by (simp add: give_spec_def)
  qed
qed

text \<open>A misuse that depends only on whether the mutex is owned.\<close>

definition owned_spec :: "bool \<Rightarrow> misuse \<Rightarrow> mutex_state \<Rightarrow> mutex_state \<times> misuse option list" where
  "owned_spec b k s = (if ms_owner s \<noteq> kInvalidOwner then misused b k s else (s, []))"

lemma owned_step:
  assumes "(if sv_owner (obj i w) \<noteq> kInvalidOwner then mark_broken b i w else (False, w)) = (r, w')"
  shows "step_to i (fst (owned_spec b k (mstate (obj i w)))) [] w w' \<and>
    snd (owned_spec b k (mstate (obj i w))) = (if r then [Some k] else [])"
  using assms mark_broken_step [of b i w r w' k]
  by (auto simp: owned_spec_def misused_def split: if_splits)

lemma postread_promises:
  assumes "MutexPostReadLock env t pc a f w = Some w'" "meta_ok X Y (sw_map w)"
  shows "promises X Y a (mutex_spec env t (DoPostReadLock f) (mutex_at w a)) w w'"
proof -
  let ?w2 = "\<lambda>i w. increment_epoch t (upd_obj i (UpdateFlags f) w)" and ?trylock = "has_flag f MutexFlagTryLock"
    and ?last = "\<lambda>i w. upd_obj i (\<lambda>s. s\<lparr>sv_last_lock := fast_state (st_state (sw_threads w t))\<rparr>) w"
  let ?pre = "detect_deadlocks env \<and> has_flag f MutexFlagDoPreLockOnPostLock \<and> \<not> ?trylock"
  obtain w0 i w1 r w3 w4 w6 w7 where
      w0: "touch_mutex env t pc a w = Some w0" and i: "get_or_create env t pc a w0 = Some (i, w1)"
    and w3: "(if sv_owner (obj i (?w2 i w1)) \<noteq> kInvalidOwner then mark_broken (report_mutex_bugs env) i (?w2 i w1) else (False, ?w2 i w1)) = (r, w3)"
    and w4: "AcquireImpl t False i w3 = Some w4"
    and w6: "with_mset t (MutexSet_Add (SyncVar_GetId (obj i (?last i w4))) False (thread_epoch t (?last i w4))) (?last i w4) = Some w6"
    and w7: "(if detect_deadlocks env
              then do { w \<leftarrow> (if ?pre then before_lock env t pc i w6 else Some w6); after_lock env t pc i False ?trylock w }
              else Some w6) = Some w7"
    and fin: "Some (if ?pre \<and> detect_deadlocks env
              then ReportDeadlock t (if r then ReportMutexMisuse ReportTypeMutexBadReadLock a (SyncVar_GetId (obj i w7)) w7 else w7)
              else if r then ReportMutexMisuse ReportTypeMutexBadReadLock a (SyncVar_GetId (obj i w7)) w7 else w7) = Some w'"
    using assms(1) unfolding MutexPostReadLock_def by (elim bindE2 bindE letE2 letE) (rule that)
  let ?T = "owned_spec (report_mutex_bugs env) ReportTypeMutexBadReadLock (adopt_flags f (mutex_at w a))"
  show ?thesis
  proof (rule on_touched [OF w0 i assms(2)])
    assume m: "mstate (obj i w1) = mutex_at w a"
    have s2: "step_to i (adopt_flags f (mutex_at w a)) [] w1 (?w2 i w1)"
      using step_quiet [OF step_UpdateFlags quiet_epoch, of i f w1] by (simp add: m)
    note T = owned_step [OF w3, of ReportTypeMutexBadReadLock, unfolded step_state [OF s2]]
    have s3: "step_to i (fst ?T) [] w1 w3" using step_trans [OF s2 conjunct1 [OF T]] by simp
    have "quiet i w3 w4" using w4 by (rule quiet_AcquireImpl)
    moreover have "quiet i w4 (?last i w4)" by (rule quiet_upd) (simp_all add: mstate_def)
    moreover have "quiet i (?last i w4) w6" using w6 by (rule quiet_mset)
    moreover have "quiet i w6 w7"
      using w7 by (auto split: if_splits elim!: bindE intro: step_quiet quiet_before_lock quiet_after_lock)
    ultimately have s7: "step_to i (fst ?T) [] w1 w7" using s3 by (blast intro: step_quiet)
    from report_late [OF s7 conjunct2 [OF T], of a "SyncVar_GetId (obj i w7)"]
    have "step_to i (fst ?T) (map (\<lambda>k. (k, a)) (snd ?T)) w1 w'"
      using fin step_quiet [OF _ quiet_ReportDeadlock] by (auto split: if_splits)
    then show "step_to i (fst (mutex_spec env t (DoPostReadLock f) (mutex_at w a)))
        (map (\<lambda>k. (k, a)) (snd (mutex_spec env t (DoPostReadLock f) (mutex_at w a)))) w1 w'" by (simp add: owned_spec_def Let_def)
  qed
qed

lemma readunlock_promises:
  assumes "MutexReadUnlock env t pc a w = Some w'" "meta_ok X Y (sw_map w)"
  shows "promises X Y a (mutex_spec env t DoReadUnlock (mutex_at w a)) w w'"
proof -
  let ?w2 = "increment_epoch t" and ?k = ReportTypeMutexBadReadUnlock
  obtain w0 i w1 r w3 w4 w5 w6 where
      w0: "touch_mutex env t pc a w = Some w0" and i: "get_or_create env t pc a w0 = Some (i, w1)"
    and w3: "(if sv_owner (obj i (?w2 w1)) \<noteq> kInvalidOwner then mark_broken (report_mutex_bugs env) i (?w2 w1) else (False, ?w2 w1)) = (r, w3)"
    and w4: "ReleaseImpl t True i w3 = Some w4"
    and w5: "(if detect_deadlocks env \<and> sv_recursion (obj i w4) = 0 then before_unlock t i w4 else Some w4) = Some w5"
    and w6: "with_mset t (MutexSet_Del (SyncVar_GetId (obj i w5)) False) w5 = Some w6"
    and fin: "Some (if detect_deadlocks env then ReportDeadlock t (if r then ReportMutexMisuse ?k a (SyncVar_GetId (obj i w5)) w6 else w6)
              else if r then ReportMutexMisuse ?k a (SyncVar_GetId (obj i w5)) w6 else w6) = Some w'"
    using assms(1) unfolding MutexReadUnlock_def by (elim bindE2 bindE letE2 letE) (rule that)
  let ?T = "owned_spec (report_mutex_bugs env) ?k (mutex_at w a)"
  show ?thesis
  proof (rule on_touched [OF w0 i assms(2)])
    assume m: "mstate (obj i w1) = mutex_at w a"
    have s2: "step_to i (mutex_at w a) [] w1 (?w2 w1)" using quiet_epoch [of i w1 t] by (simp add: m)
    note T = owned_step [OF w3, of ?k, unfolded step_state [OF s2]]
    have s3: "step_to i (fst ?T) [] w1 w3" using step_trans [OF s2 conjunct1 [OF T]] by simp
    have "quiet i w3 w4" using w4 by (rule quiet_releases(1))
    moreover have "quiet i w4 w5" using w5 by (auto split: if_splits intro: quiet_before_unlock)
    moreover have "quiet i w5 w6" using w6 by (rule quiet_mset)
    ultimately have s6: "step_to i (fst ?T) [] w1 w6" using s3 by (blast intro: step_quiet)
    from report_late [OF s6 conjunct2 [OF T], of a "SyncVar_GetId (obj i w5)"]
    have "step_to i (fst ?T) (map (\<lambda>k. (k, a)) (snd ?T)) w1 w'"
      using fin step_quiet [OF _ quiet_ReportDeadlock] by (auto split: if_splits)
    then show "step_to i (fst (mutex_spec env t DoReadUnlock (mutex_at w a)))
        (map (\<lambda>k. (k, a)) (snd (mutex_spec env t DoReadUnlock (mutex_at w a)))) w1 w'" by (simp add: owned_spec_def)
  qed
qed

lemma release_either_step:
  assumes "release_either t i w = Some (wr, r, w')"
  shows "step_to i (fst (mutex_spec env t DoReadOrWriteUnlock (mstate (obj i w)))) [] w w' \<and>
    snd (mutex_spec env t DoReadOrWriteUnlock (mstate (obj i w))) = (if r then [Some ReportTypeMutexBadUnlock] else [])"
proof -
  consider "sv_owner (obj i w) = kInvalidOwner" | "sv_owner (obj i w) \<noteq> kInvalidOwner" "sv_owner (obj i w) = int t"
    | "sv_owner (obj i w) \<noteq> kInvalidOwner" "sv_owner (obj i w) \<noteq> int t" by blast
  then show ?thesis
  proof cases
    case 1
    then have "ReleaseImpl t True i (increment_epoch t w) = Some w'" "r = False"
      using assms by (auto simp: release_either_def split: bind_splits)
    then show ?thesis using 1 step_quiet [OF quiet_epoch quiet_releases(1)] by simp
  next
    case 2
    let ?w = "increment_epoch t w"
    have st: "mstate (obj i ?w) = mstate (obj i w)" by (rule quiet_state) simp
    have "r = False" and d: "(if sv_recursion (obj i (upd_obj i (\<lambda>s. s\<lparr>sv_recursion := sv_recursion s - 1\<rparr>) ?w)) = 0
      then ReleaseStoreImpl t False i (upd_obj i (\<lambda>s. s\<lparr>sv_owner := kInvalidOwner\<rparr>) (upd_obj i (\<lambda>s. s\<lparr>sv_recursion := sv_recursion s - 1\<rparr>) ?w))
      else Some (upd_obj i (\<lambda>s. s\<lparr>sv_recursion := sv_recursion s - 1\<rparr>) ?w)) = Some w'"
      using assms 2 unfolding release_either_def Let_def
      by (simp_all only: if_False if_True simp_thms bind_eq_Some_conv prod.inject option.inject split: if_splits) auto
    from quiet_step [OF quiet_epoch drop_step [OF d, unfolded st]] show ?thesis using 2 \<open>r = False\<close> by simp
  next
    case 3
    then have "mark_broken True i w = (r, w')"
      using assms by (auto simp: release_either_def Let_def split: prod.splits)
    from mark_broken_step [OF this, of ReportTypeMutexBadUnlock] show ?thesis using 3 by (auto simp: misused_def)
  qed
qed

lemma eitherunlock_promises:
  assumes "MutexReadOrWriteUnlock env t pc a w = Some w'" "meta_ok X Y (sw_map w)"
  shows "promises X Y a (mutex_spec env t DoReadOrWriteUnlock (mutex_at w a)) w w'"
proof -
  let ?k = ReportTypeMutexBadUnlock
  obtain w0 i w1 wr r w3 w4 w5 where
      w0: "touch_mutex env t pc a w = Some w0" and i: "get_or_create env t pc a w0 = Some (i, w1)"
    and w3: "release_either t i w1 = Some (wr, r, w3)"
    and w4: "with_mset t (MutexSet_Del (SyncVar_GetId (obj i w3)) wr) w3 = Some w4"
    and w5: "(if detect_deadlocks env \<and> sv_recursion (obj i w4) = 0 then before_unlock t i w4 else Some w4) = Some w5"
    and fin: "Some (if detect_deadlocks env then ReportDeadlock t (if r then ReportMutexMisuse ?k a (SyncVar_GetId (obj i w5)) w5 else w5)
              else if r then ReportMutexMisuse ?k a (SyncVar_GetId (obj i w5)) w5 else w5) = Some w'"
    using assms(1) unfolding MutexReadOrWriteUnlock_def by (elim bindE3 bindE2 bindE letE) (rule that)
  let ?T = "mutex_spec env t DoReadOrWriteUnlock (mutex_at w a)"
  show ?thesis
  proof (rule on_touched [OF w0 i assms(2)])
    assume m: "mstate (obj i w1) = mutex_at w a"
    note T = release_either_step [OF w3, of env, unfolded m]
    have "quiet i w3 w4" using w4 by (rule quiet_mset)
    moreover have "quiet i w4 w5" using w5 by (auto split: if_splits intro: quiet_before_unlock)
    ultimately have s5: "step_to i (fst ?T) [] w1 w5" using conjunct1 [OF T] by (blast intro: step_quiet)
    from report_late [OF s5 conjunct2 [OF T], of a "SyncVar_GetId (obj i w5)"]
    show "step_to i (fst ?T) (map (\<lambda>k. (k, a)) (snd ?T)) w1 w'"
      using fin step_quiet [OF _ quiet_ReportDeadlock] by (auto split: if_splits)
  qed
qed

subsection \<open>Destroying\<close>

lemma reset_step: "reset_obj i w = Some w' \<Longrightarrow> step_to i free_mutex [] w w'"
  unfolding reset_obj_def SyncVar_Reset_def Let_def
  by (auto split: bind_splits prod.splits simp: step_to_def same_meta_def obj_def misuses_def mstate_def free_mutex_def)

lemma old_world: "w\<lparr>sw_map := sw_map w\<rparr> = (w :: sync_world)"
  by simp

lemma quiet_map_dd: "quiet i w (w\<lparr>sw_map := (sw_map w)\<lparr>mm_dd := dd\<rparr>\<rparr>)"
  by (simp add: step_to_def same_meta_def obj_def misuses_def)

lemma destroy_promises:
  assumes "MutexDestroy env t pc a f w = Some w'" "meta_ok X Y (sw_map w)"
  shows "promises X Y a (mutex_spec env t (DoDestroy f) (mutex_at w a)) w w'"
proof (cases "sync_at (sw_map w) a")
  case None
  then have "w' = w" "mutex_at w a = free_mutex"
    using assms get_if_exists_effect [OF assms(2), of a] by (simp_all add: MutexDestroy_def mutex_at_def)
  then show ?thesis using assms(2) by (auto simp: promises_def free_mutex_def fun_upd_idem_iff)
next
  case (Some i)
  have m: "mstate (obj i w) = mutex_at w a" using Some by (simp add: mutex_at_def)
  let ?skip = "has_flag f MutexFlagLinkerInit \<or> IsFlagSet MutexFlagLinkerInit (obj i w) \<or>
    (has_flag f MutexFlagNotStatic \<and> \<not> IsFlagSet MutexFlagNotStatic (obj i w))"
  show ?thesis
  proof (cases ?skip)
    case True
    then have "w' = w" using assms Some get_if_exists_effect [OF assms(2), of a] by (simp add: MutexDestroy_def)
    moreover have "mutex_spec env t (DoDestroy f) (mutex_at w a) = (mutex_at w a, [])"
      using True by (simp add: flag_set m del: mstate_sel)
    ultimately show ?thesis using assms(2) by (simp add: promises_def)
  next
    case False
    let ?locked = "\<lambda>w. report_destroy_locked env \<and> sv_owner (obj i w) \<noteq> kInvalidOwner \<and> \<not> IsFlagSet MutexFlagBroken (obj i w)"
    let ?w2 = "\<lambda>w. if ?locked w then upd_obj i (SetFlags MutexFlagBroken) w else w"
    let ?again = "\<lambda>w. do { let w = report (MutexDestroyLocked a (SyncVar_GetId (obj i w)) (sv_last_lock (obj i w))) w;
        (s, m) \<leftarrow> GetIfExistsAndLock a (sw_map w);
        let w = w\<lparr>sw_map := m\<rparr>;
        case s of None \<Rightarrow> Some w | Some i \<Rightarrow> reset_obj i w }"
    have g: "GetIfExistsAndLock a (sw_map w) = Some (Some i, sw_map w)" using Some get_if_exists_effect [OF assms(2), of a] by simp
    obtain w1 w3 w4 where
        w1: "(if detect_deadlocks env
              then do { dd \<leftarrow> dd_MutexDestroy (dd_key i) (mm_dd (sw_map w));
                        Some (w\<lparr>sw_map := (sw_map w)\<lparr>mm_dd := dd_MutexInit (CurrentStackId env t pc w) (dd_key i) dd\<rparr>\<rparr>) }
              else Some w) = Some w1"
      and w3: "(if \<not> ?locked w1 then reset_obj i (?w2 w1) else ?again (?w2 w1)) = Some w3"
      and w4: "with_mset t (MutexSet_Remove (SyncVar_GetId (obj i (?w2 w1)))) w3 = Some w4"
      and w': "(if IsAppMem a then imitate_write env t pc a w4 else Some w4) = Some w'"
      using assms(1) False unfolding MutexDestroy_def g bind.bind_lunit prod.case
      apply (elim letE)
      apply (simp only: option.case if_False old_world)
      apply (elim bindE letE)
      apply (rule that)
      apply assumption+
      done
    have q1: "quiet i w w1" using w1 by (auto split: if_splits elim!: bindE intro!: quiet_map_dd)
    have st1: "mstate (obj i w1) = mutex_at w a" using quiet_state [OF q1] m by simp
    have meta1: "meta_ok X Y (sw_map w1)" "sync_at (sw_map w1) a = Some i" using step_meta [OF assms(2) Some q1] Some by simp_all
    have "step_to i free_mutex (if ?locked w1 then [(None, a)] else []) w1 w3"
    proof (cases "?locked w1")
      case False
      have "reset_obj i w1 = Some w3" using w3 by (simp only: False not_False_eq_True if_True if_False)
      from reset_step [OF this] show ?thesis by (simp only: False if_False)
    next
      case True
      let ?v = "?w2 w1"
      let ?r = "report (MutexDestroyLocked a (SyncVar_GetId (obj i ?v)) (sv_last_lock (obj i ?v))) ?v"
      have "step_to i (mstate (obj i ?v)) [(None, a)] ?v ?r" by (rule step_report) (simp add: misuse_of_def)
      moreover have "step_to i ((mstate (obj i w1))\<lparr>ms_flags := ms_flags (mstate (obj i w1)) OR MutexFlagBroken\<rparr>) [] w1 ?v"
        using step_SetFlags [of i w1 MutexFlagBroken] True by simp
      ultimately have s: "step_to i (mstate (obj i ?v)) [(None, a)] w1 ?r" using step_trans by fastforce
      note step_meta [OF meta1 s]
      then have "?again ?v = reset_obj i ?r"
        using get_if_exists_effect [of X Y "sw_map ?r" a] meta1(2) by simp
      then have "reset_obj i ?r = Some w3" using w3 True by simp
      from step_trans [OF s reset_step [OF this]] show ?thesis using True by simp
    qed
    moreover have "quiet i w3 w4" using w4 by (rule quiet_mset)
    moreover have "quiet i w4 w'" using w' imitate_map by (auto split: if_splits intro: quiet_fields)
    ultimately have "step_to i free_mutex (if ?locked w1 then [(None, a)] else []) w w'"
      using quiet_step [OF q1] by (blast intro: step_quiet)
    moreover have "?locked w1 \<longleftrightarrow> report_destroy_locked env \<and> ms_owner (mutex_at w a) \<noteq> kInvalidOwner \<and> \<not> broken (mutex_at w a)"
      by (simp add: flag_set broken_def flip: st1)
    moreover have "\<not> ?skip \<longleftrightarrow> \<not> (has_flag f MutexFlagLinkerInit \<or> has_flag (ms_flags (mutex_at w a)) MutexFlagLinkerInit \<or>
         (has_flag f MutexFlagNotStatic \<and> \<not> has_flag (ms_flags (mutex_at w a)) MutexFlagNotStatic))"
      by (simp add: flag_set flip: m)
    ultimately show ?thesis using False by (intro step_promises [OF assms(2) Some]) auto
  qed
qed

section \<open>Every call is a step of the machine\<close>

lemma call_promises:
  assumes "run_call env t pc a c w = Some w'" "meta_ok X Y (sw_map w)"
  shows "promises X Y a (mutex_spec env t c (mutex_at w a)) w w'"
proof (cases c)
  case (DoUnlock f)
  then obtain n where "MutexUnlock env t pc a f w = Some (n, w')" using assms(1) by (auto simp: run_call_def)
  then show ?thesis using unlock_promises assms(2) DoUnlock by simp
qed (use assms create_promises destroy_promises prelock_promises conjunct1 [OF postlock_promises] preread_promises postread_promises
    readunlock_promises eitherunlock_promises repair_promises invalid_promises in
    \<open>simp_all only: run_call_def mutex_call.case\<close>)

text \<open>A call that returns has not overflowed the depth.\<close>

lemma call_depth:
  assumes "run_call env t pc a c w = Some w'" "meta_ok X Y (sw_map w)" "ms_levels (mutex_at w a) < 2 ^ 31"
  shows "ms_levels (mutex_at w a) + levels_added c < 2 ^ 31"
proof (cases c)
  case (DoPostLock f rec)
  then show ?thesis using postlock_promises [OF _ assms(2)] assms(1) by (simp add: run_call_def)
qed (use assms(3) in \<open>simp_all add: levels_added_def\<close>)

end
