(* ===== verification/MutexProperties.thy ===== *)
theory MutexProperties
  imports MutexSpec MemoryProperties
begin

text \<open>
  The properties of the mutex operations over whole executions: any sequence of calls, by any threads
  on any mutexes, takes the abstract machines of \<open>MutexSpec\<close> along, so what holds of the machine
  holds of the runtime.
\<close>

section \<open>Executions\<close>

type_synonym mutex_event = "nat \<times> u64 \<times> mutex_call"

text \<open>Calls that return, one after the other; each has its own program counter.\<close>

inductive mutex_run :: "sync_env \<Rightarrow> sync_world \<Rightarrow> mutex_event list \<Rightarrow> sync_world \<Rightarrow> bool" for env where
  run_done: "mutex_run env w [] w"
| run_step: "run_call env t pc a c w = Some w1 \<Longrightarrow> mutex_run env w1 es w2 \<Longrightarrow> mutex_run env w ((t, a, c) # es) w2"

inductive_cases run_nilE: "mutex_run env w [] w'"
inductive_cases run_consE: "mutex_run env w (e # es) w'"

text \<open>The machines of all addresses, and the misuses they report.\<close>

primrec spec_run :: "sync_env \<Rightarrow> mutex_event list \<Rightarrow> (u64 \<Rightarrow> mutex_state) \<Rightarrow> (u64 \<Rightarrow> mutex_state) \<times> (misuse option \<times> u64) list" where
  "spec_run env [] s = (s, [])"
| "spec_run env (e # es) s =
     (case e of (t, a, c) \<Rightarrow>
        (let (x, ks) = mutex_spec env t c (s a); (s', rs) = spec_run env es (s(a := x))
         in (s', map (\<lambda>k. (k, a)) ks @ rs)))"

lemma spec_run_cons:
  "fst (spec_run env ((t, a, c) # es) s) = fst (spec_run env es (s(a := fst (mutex_spec env t c (s a)))))"
  "snd (spec_run env ((t, a, c) # es) s) =
     map (\<lambda>k. (k, a)) (snd (mutex_spec env t c (s a))) @ snd (spec_run env es (s(a := fst (mutex_spec env t c (s a)))))"
  by (simp_all add: case_prod_beta Let_def)

lemma run_refines:
  assumes "mutex_run env w es w'" "meta_ok X Y (sw_map w)"
  shows "mutex_at w' = fst (spec_run env es (mutex_at w)) \<and> misuses w' = misuses w @ snd (spec_run env es (mutex_at w)) \<and>
    meta_ok X Y (sw_map w')"
  using assms
proof (induction rule: mutex_run.induct)
  case (run_step t pc a c w w1 es w2)
  have "promises X Y a (mutex_spec env t c (mutex_at w a)) w w1" by (rule call_promises [OF run_step.hyps(1) run_step.prems])
  then have p: "meta_ok X Y (sw_map w1)" "mutex_at w1 = (mutex_at w)(a := fst (mutex_spec env t c (mutex_at w a)))"
      "misuses w1 = misuses w @ map (\<lambda>k. (k, a)) (snd (mutex_spec env t c (mutex_at w a)))"
    by (simp_all add: promises_def)
  show ?case unfolding spec_run_cons using run_step.IH [OF p(1)] by (simp only: p(2,3) append_assoc simp_thms)
qed simp

text \<open>What holds of the machine of an address at every step of a run.\<close>

lemma spec_run_invariant:
  assumes "\<And>t c s. (t, a, c) \<in> set es \<Longrightarrow> P s \<Longrightarrow> P (fst (mutex_spec env t c s))" and "P (s a)"
  shows "P (fst (spec_run env es s) a)"
  using assms
proof (induction es arbitrary: s)
  case (Cons e es)
  obtain t b c where e: "e = (t, b, c)" by (cases e)
  have "P ((s(b := fst (mutex_spec env t c (s b)))) a)"
    using Cons.prems(1) [of t c "s b"] Cons.prems(2) e by (cases "b = a") simp_all
  then have "P (fst (spec_run env es (s(b := fst (mutex_spec env t c (s b))))) a)" using Cons by simp
  then show ?case unfolding e spec_run_cons .
qed simp

section \<open>Levels\<close>

definition levels_ok :: "mutex_state \<Rightarrow> bool" where
  "levels_ok s \<longleftrightarrow> 0 \<le> ms_levels s \<and> ms_levels s < 2 ^ 31 \<and> (ms_owner s = kInvalidOwner \<longleftrightarrow> ms_levels s = 0)"

text \<open>The depth a recursive lock restores is positive: its \<open>CHECK\<close>.\<close>

definition call_ok :: "mutex_call \<Rightarrow> bool" where
  "call_ok c = (case c of DoPostLock f rec \<Rightarrow> has_flag f MutexFlagRecursiveLock \<longrightarrow> rec > 0 | _ \<Rightarrow> True)"

lemma run_call_ok: "run_call env t pc a c w = Some w' \<Longrightarrow> call_ok c"
  by (cases c) (auto simp: run_call_def call_ok_def MutexPostLock_def split: if_splits)

lemma run_calls_ok: "mutex_run env w es w' \<Longrightarrow> (t, a, c) \<in> set es \<Longrightarrow> call_ok c"
  by (induction rule: mutex_run.induct) (auto dest: run_call_ok)

lemma adopt_flags_sel [simp]: "ms_owner (adopt_flags f s) = ms_owner s" "ms_levels (adopt_flags f s) = ms_levels s"
  by (simp_all add: adopt_flags_def)

lemma misused_sel [simp]: "ms_owner (fst (misused b k s)) = ms_owner s" "ms_levels (fst (misused b k s)) = ms_levels s"
  by (simp_all add: misused_def)

lemma levels_sel [simp]: "ms_owner (add_levels n s) = ms_owner s" "ms_levels (add_levels n s) = ms_levels s + n"
  "ms_owner (drop_levels n s) = (if ms_levels s = n then kInvalidOwner else ms_owner s)" "ms_levels (drop_levels n s) = ms_levels s - n"
  by (simp_all add: add_levels_def drop_levels_def)

lemma spec_levels:
  "levels_ok s \<Longrightarrow> call_ok c \<Longrightarrow> ms_levels s + levels_added c < 2 ^ 31 \<Longrightarrow> levels_ok (fst (mutex_spec env t c s))"
  by (cases c) (auto simp: levels_ok_def call_ok_def levels_added_def free_mutex_def kInvalidOwner_def Let_def)

lemma run_levels:
  assumes "mutex_run env w es w'" "meta_ok X Y (sw_map w)" "\<forall>a. levels_ok (mutex_at w a)"
  shows "levels_ok (mutex_at w' a)"
  using assms
proof (induction rule: mutex_run.induct)
  case (run_step t pc b c w w1 es w2)
  have p: "meta_ok X Y (sw_map w1)" "mutex_at w1 = (mutex_at w)(b := fst (mutex_spec env t c (mutex_at w b)))"
    using call_promises [OF run_step.hyps(1) run_step.prems(1)] by (simp_all add: promises_def)
  have "levels_ok (fst (mutex_spec env t c (mutex_at w b)))"
    using run_step.prems(2) call_depth [OF run_step.hyps(1) run_step.prems(1)] run_call_ok [OF run_step.hyps(1)]
    by (intro spec_levels) (simp_all add: levels_ok_def)
  then have "\<forall>a. levels_ok (mutex_at w1 a)" using run_step.prems(2) p(2) by simp
  then show ?case by (rule run_step.IH [OF p(1)])
qed simp

text \<open>A lock that adds more levels than the depth can count.\<close>

lemma post_lock_overflow:
  assumes "meta_ok X Y (sw_map w)" "2 ^ 31 \<le> ms_levels (mutex_at w a) + levels_added (DoPostLock f rec)"
  shows "MutexPostLock env t pc a f rec w = None"
proof (cases "MutexPostLock env t pc a f rec w")
  case (Some w')
  from postlock_promises [OF this assms(1)] show ?thesis using assms(2) by simp
qed

section \<open>Ownership\<close>

lemma take_ownership_returns: "levels_ok (mstate (obj i w)) \<Longrightarrow> take_ownership env t i w \<noteq> None"
  by (auto simp: take_ownership_def levels_ok_def)

text \<open>Calls on the mutex \<open>a\<close> by other threads than \<open>t\<close>, none of which destroys or repairs it.\<close>

definition others_only :: "nat \<Rightarrow> u64 \<Rightarrow> mutex_event list \<Rightarrow> bool" where
  "others_only t a es \<longleftrightarrow> (\<forall>(u, b, c) \<in> set es. b = a \<longrightarrow> u \<noteq> t \<and> c \<noteq> DoRepair \<and> (\<forall>f. c \<noteq> DoDestroy f))"

lemma spec_keeps_owner:
  assumes "ms_owner s = int t" "n \<le> ms_levels s" "u \<noteq> t" "c \<noteq> DoRepair" "\<forall>f. c \<noteq> DoDestroy f" "call_ok c"
  shows "ms_owner (fst (mutex_spec env u c s)) = int t \<and> n \<le> ms_levels (fst (mutex_spec env u c s))"
  using assms by (cases c) (auto simp: Let_def call_ok_def kInvalidOwner_def)

section \<open>Misuses\<close>

text \<open>The reports on the mutex \<open>a\<close>, other than those the program asks for by \<open>InvalidAccess\<close>.\<close>

definition misuses_of :: "u64 \<Rightarrow> (misuse option \<times> u64) list \<Rightarrow> (misuse option \<times> u64) list" where
  "misuses_of a rs = filter (\<lambda>(k, b). b = a \<and> k \<noteq> Some ReportTypeMutexInvalidAccess) rs"

lemma misuses_of_append [simp]: "misuses_of a (rs @ rs') = misuses_of a rs @ misuses_of a rs'" "misuses_of a [] = []"
  by (simp_all add: misuses_of_def)

lemma broken_bit: "bit MutexFlagBroken n \<longleftrightarrow> n = 30"
  unfolding MutexFlagBroken_def kFlagBlock_def [symmetric] by (rule kFlagBlock_bit)

lemma flag_bit: "has_flag f MutexFlagBroken \<longleftrightarrow> bit f 30"
proof -
  have "f AND MutexFlagBroken = (if bit f 30 then MutexFlagBroken else 0)"
    by (rule bit_word_eqI) (auto simp: broken_bit bit_and_iff)
  moreover have "MutexFlagBroken \<noteq> 0" by (simp add: MutexFlagBroken_def)
  ultimately show ?thesis by (simp add: has_flag_def)
qed

lemma broken_flags: "broken (s\<lparr>ms_flags := x\<rparr>) \<longleftrightarrow> bit x 30" "broken s \<longleftrightarrow> bit (ms_flags s) 30"
  by (simp_all add: broken_def flag_bit)

lemma creation_mask_bit: "\<not> bit MutexCreationFlagMask 30"
  by (simp add: MutexCreationFlagMask_def mutex_flags bit_simps)

lemma broken_sel [simp]: "broken (s\<lparr>ms_flags := ms_flags s OR (f AND MutexCreationFlagMask)\<rparr>) = broken s"
  "broken (adopt_flags f s) = broken s" "broken (add_levels n s) = broken s" "broken (drop_levels n s) = broken s"
  "broken (s\<lparr>ms_owner := x\<rparr>) = broken s" "broken (s\<lparr>ms_levels := y\<rparr>) = broken s"
  "broken (s\<lparr>ms_flags := ms_flags s OR MutexFlagBroken\<rparr>)"
  using creation_mask_bit
  by (auto simp: adopt_flags_def broken_flags bit_or_iff bit_and_iff broken_bit add_levels_def drop_levels_def)

text \<open>A misuse marks the mutex, a marked mutex is silent, and only its destruction removes the mark.\<close>

lemma spec_reports_once:
  assumes "\<forall>f. c \<noteq> DoDestroy f"
  shows "length (misuses_of a (map (\<lambda>k. (k, a)) (snd (mutex_spec env t c s)))) + (if broken s then 1 else 0) \<le>
    (if broken (fst (mutex_spec env t c s)) then 1 else 0 :: nat)"
  using assms by (cases c) (auto simp: Let_def misuses_of_def misused_def)

section \<open>An example\<close>

definition ex_sthread :: "nat \<Rightarrow> sync_thread" where
  "ex_sthread t = \<lparr>st_state = acc_thread,
     st_clock = \<lparr>tc_tid = t, tc_reused = 1, last_acquire = 0, global_acquire = 0, cached_idx = 0, cached_size = 0,
       cached_blocks = 0, tc_nclk = t + 1, tc_clk = (\<lambda>_. 0), prd_trace = True\<rparr>,
     st_mset = MutexSet_new,
     st_dd = \<lparr>lt_ctx = of_nat t, lt_dd = \<lparr>tls_bv = zero_bits, tls_epoch = 0, recursive_locks = [], all_locks = []\<rparr>, lt_rep = [],
       report_pending = False\<rparr>,
     st_unique_id = int t, st_inited = True, st_sleep_stack = 0,
     st_sleep_clock = \<lparr>tc_tid = 0, tc_reused = 0, last_acquire = 0, global_acquire = 0, cached_idx = 0, cached_size = 0,
       cached_blocks = 0, tc_nclk = 0, tc_clk = (\<lambda>_. 0), prd_trace = False\<rparr>\<rparr>"

definition ex_world :: sync_world where
  "ex_world = \<lparr>sw_threads = ex_sthread, sw_dfsan = dfsan_zero, sw_shadow = (\<lambda>_. 0), sw_map = ex_map, sw_registry = [],
     sw_log = [], sw_reports = []\<rparr>"

definition ex_senv :: sync_env where
  "ex_senv = \<lparr>se_access = acc_env, detect_deadlocks = False, second_deadlock_stack = False, report_mutex_bugs = True,
     report_destroy_locked = True, se_depot = (\<lambda>_. 7)\<rparr>"

lemma ex_senv_sel [simp]: "detect_deadlocks ex_senv = False" "report_mutex_bugs ex_senv = True" "report_destroy_locked ex_senv = True"
  by (simp_all add: ex_senv_def)

lemma ex_world_ok: "meta_ok (others_idx 1024) (others_idx 4096) (sw_map ex_world)" "mutex_at ex_world a = free_mutex" "misuses ex_world = []"
  using ex_map_ok(1) by (simp_all add: ex_world_def mutex_at_def ex_map_empty misuses_def List.map_filter_def)

lemma ex_world_levels: "levels_ok (mutex_at ex_world a)"
  by (simp add: ex_world_ok levels_ok_def free_mutex_def)

text \<open>The first thread locks a mutex outside the application's memory, then the second unlocks it twice.\<close>

lemma acquire_blank:
  assumes "sc_size (clk_of rd (obj i w)) = 0"
  shows "\<exists>w'. AcquireImpl t rd i w = Some w' \<and> (\<forall>j. obj j w' = obj j w) \<and> st_mset (sw_threads w' t) = st_mset (sw_threads w t)"
proof (cases "ignore_sync (st_state (sw_threads w t)) \<noteq> 0")
  case False
  have e: "obj j (set_epoch t w) = obj j w" "st_mset (sw_threads (set_epoch t w) t) = st_mset (sw_threads w t)" for j
    by (simp_all add: set_epoch_def upd_thread_def obj_def Let_def split: prod.splits)
  let ?w = "set_epoch t w"
  have "AcquireImpl t rd i w = Some (store_clocks t (st_clock (sw_threads ?w t)) (mm_clocks (sw_map ?w)) [] ?w)"
    using False assms e by (simp add: AcquireImpl_def acquire_def Let_def)
  then show ?thesis using e by (auto simp: store_clocks_def upd_thread_def obj_def)
qed (simp add: AcquireImpl_def)

lemma blank_size: "clock_blank sc \<Longrightarrow> sc_size sc = 0"
proof -
  have "sc_size (ResetImpl sc) = 0" by (simp add: ResetImpl_def)
  then show "clock_blank sc \<Longrightarrow> sc_size sc = 0" by (simp add: clock_blank_def)
qed

lemma not_app: "\<not> IsAppMem 0x10"
  by (simp add: IsAppMem_def mapping_consts)

lemma ex_lock: "\<exists>w. run_call ex_senv 1 5 0x10 (DoPostLock 0 0) ex_world = Some w"
proof -
  obtain i m where g: "GetOrCreateAndLock False (CurrentStackId ex_senv 1 5 ex_world) 0x10 ex_map = Some (i, m)"
      "sv_owner (mm_syncs m i) = kInvalidOwner" "sv_recursion (mm_syncs m i) = 0"
      "clock_blank (sv_clock (mm_syncs m i))" "clock_blank (sv_read_clock (mm_syncs m i))"
    using get_or_create_alloc [OF ex_map_ok(1) cached_alloc [OF ex_map_cache], where a = "0x10" and det = False
        and stk = "CurrentStackId ex_senv 1 5 ex_world"] by (auto simp: ex_map_empty)
  let ?w1 = "ex_world\<lparr>sw_map := m\<rparr>"
  let ?w2 = "increment_epoch 1 (upd_obj i (UpdateFlags 0) ?w1)"
  let ?w3 = "upd_obj i (\<lambda>s. s\<lparr>sv_owner := 1, sv_last_lock := fast_state (st_state (sw_threads ?w2 1))\<rparr>) ?w2"
  let ?w4 = "upd_obj i (\<lambda>s. s\<lparr>sv_recursion := 1\<rparr>) ?w3"
  note upd = upd_obj_def increment_epoch_def upd_thread_def obj_def UpdateFlags_def Let_def
  have s: "get_or_create ex_senv 1 5 0x10 ex_world = Some (i, ?w1)"
    using g(1) by (simp add: get_or_create_def) (simp add: ex_world_def)
  have t: "take_ownership ex_senv 1 i ?w2 = Some (False, ?w3)" "sv_recursion (obj i ?w3) = 0"
    using g(2,3) by (simp_all add: take_ownership_def) (simp_all add: upd)
  have c: "sc_size (clk_of rd (obj i ?w4)) = 0" for rd
    using blank_size [OF g(4)] blank_size [OF g(5)] by (simp add: clk_of_def upd)
  have st: "st_mset (sw_threads ?w4 1) = []" by (simp add: upd) (simp add: ex_world_def ex_sthread_def MutexSet_new_def)
  obtain w5 where w5: "AcquireImpl 1 False i ?w4 = Some w5" "\<forall>j. obj j w5 = obj j ?w4" "st_mset (sw_threads w5 1) = []"
    using acquire_blank [OF c, where t = 1] st by auto
  obtain w6 where w6: "AcquireImpl 1 True i w5 = Some w6" "st_mset (sw_threads w6 1) = []"
    using acquire_blank [of True i w5, where t = 1] c w5(2,3) by auto
  have "\<exists>w7. with_mset 1 (MutexSet_Add (SyncVar_GetId (obj i w6)) True (thread_epoch 1 w6)) w6 = Some w7"
    unfolding with_mset_def w6(2) by (simp add: MutexSet_Add_def find_mutex_def kMaxMutexes_def)
  then obtain w7 where w7: "with_mset 1 (MutexSet_Add (SyncVar_GetId (obj i w6)) True (thread_epoch 1 w6)) w6 = Some w7" ..
  have "MutexPostLock ex_senv 1 5 0x10 0 0 ex_world = Some w7"
    unfolding MutexPostLock_def touch_mutex_def by (simp only: not_app if_False bind.bind_lunit s prod.case t(1)) (simp add: t w5(1) w6(1) w7 has_flag_def add_recursion_def del: One_nat_def)
  then show ?thesis by (simp add: run_call_def)
qed

text \<open>A run: the lock, and an invalid access reported by the program.\<close>

lemma ex_run: "\<exists>w. mutex_run ex_senv ex_world [(1, 0x10, DoPostLock 0 0), (2, 0x10, DoRepair), (2, 0x10, DoInvalidAccess)] w"
proof -
  obtain w1 where w1: "run_call ex_senv 1 5 0x10 (DoPostLock 0 0) ex_world = Some w1" using ex_lock by blast
  note p = call_promises [OF w1 ex_world_ok(1), unfolded promises_def]
  have "mutex_at w1 0x10 \<noteq> free_mutex"
    using p by (simp add: ex_world_ok has_flag_def adopt_flags_def free_mutex_def kInvalidOwner_def add_levels_def)
  then obtain i where i: "sync_at (sw_map w1) 0x10 = Some i" by (cases "sync_at (sw_map w1) 0x10") (simp_all add: mutex_at_def)
  have g: "GetOrCreateAndLock det stk 0x10 (sw_map w) = Some (i, sw_map w)"
    if "meta_ok X Y (sw_map w)" "sync_at (sw_map w) 0x10 = Some i" for det stk X Y w
    using get_or_create_alloc [OF that(1), where a = "0x10" and det = det and stk = stk] that(2) by auto
  let ?w2 = "upd_obj i (\<lambda>s. s\<lparr>sv_owner := kInvalidOwner, sv_recursion := 0\<rparr>) w1"
  have w2: "run_call ex_senv 2 5 0x10 DoRepair w1 = Some ?w2"
    using g [OF conjunct1 [OF p] i] by (simp add: run_call_def MutexRepair_def get_or_create_def)
  have st: "step_to i ((mstate (obj i w1))\<lparr>ms_owner := kInvalidOwner, ms_levels := 0\<rparr>) [] w1 ?w2"
    by (rule step_upd) (simp_all add: mstate_def)
  note m = step_meta [OF conjunct1 [OF p] i st]
  have "\<exists>w3. run_call ex_senv 2 5 0x10 DoInvalidAccess ?w2 = Some w3"
    using g [of _ _ ?w2] m i by (auto simp: run_call_def MutexInvalidAccess_def get_or_create_def)
  then show ?thesis using w1 w2 by (blast intro: mutex_run.intros)
qed

text \<open>An unlock by a thread that does not own the mutex.\<close>

lemma MutexSet_Del_returns: "MutexSet_Del mid wr ds \<noteq> None"
  by (auto simp: MutexSet_Del_def find_mutex_def find_upt_Some_iff RemovePos_def Let_def split: option.splits)

lemma bad_unlock_returns:
  assumes "\<not> IsAppMem a" "\<not> detect_deadlocks env" "meta_ok X Y (sw_map w)" "ms_owner (mutex_at w a) \<noteq> int t"
    and "sync_at (sw_map w) a = Some i"
  shows "\<exists>w'. run_call env t pc a (DoUnlock f) w = Some w'"
proof -
  have g: "get_or_create env t pc a w = Some (i, w)"
    using get_or_create_alloc [OF assms(3), of a "detect_deadlocks env" "CurrentStackId env t pc w"] assms(5)
    by (auto simp: get_or_create_def)
  have o: "sv_owner (obj i (increment_epoch t w)) \<noteq> int t"
    using assms(4,5) by (simp add: mutex_at_def increment_epoch_def upd_thread_def obj_def)
  obtain r w1 where r: "mark_broken (report_mutex_bugs env) i (increment_epoch t w) = (r, w1)" by fastforce
  then have u: "give_up env t f i (increment_epoch t w) = Some (r, 0, w1)" using o by (simp add: give_up_def)
  obtain ds where "MutexSet_Del (SyncVar_GetId (obj i w1)) True (st_mset (sw_threads w1 t)) = Some ds"
    using MutexSet_Del_returns by blast
  then show ?thesis using assms(1,2) g u by (simp add: run_call_def MutexUnlock_def touch_mutex_def with_mset_def Let_def)
qed

text \<open>After the lock of the first thread, the second unlocks twice.\<close>

lemma ex_bad_unlocks:
  "\<exists>w w'. mutex_run ex_senv ex_world [(1, 0x10, DoPostLock 0 0)] w \<and> mutex_at w 0x10 = \<lparr>ms_owner = 1, ms_levels = 1, ms_flags = 0\<rparr> \<and>
    misuses w = [] \<and> meta_ok (others_idx 1024) (others_idx 4096) (sw_map w) \<and>
    mutex_run ex_senv w [(2, 0x10, DoUnlock 0), (2, 0x10, DoUnlock 0)] w'"
proof -
  let ?X = "others_idx 1024" and ?Y = "others_idx 4096"
  obtain w where w: "run_call ex_senv 1 5 0x10 (DoPostLock 0 0) ex_world = Some w" using ex_lock by blast
  then have r: "mutex_run ex_senv ex_world [(1, 0x10, DoPostLock 0 0)] w" by (blast intro: mutex_run.intros)
  have m: "mutex_at w 0x10 = \<lparr>ms_owner = 1, ms_levels = 1, ms_flags = 0\<rparr>" "misuses w = []" "meta_ok ?X ?Y (sw_map w)"
    using run_refines [OF r ex_world_ok(1)]
    by (simp_all add: ex_world_ok Let_def has_flag_def adopt_flags_def free_mutex_def kInvalidOwner_def add_levels_def)
  have ret: "\<exists>v'. run_call ex_senv 2 5 0x10 (DoUnlock 0) v = Some v'"
    if "meta_ok ?X ?Y (sw_map v)" "ms_owner (mutex_at v 0x10) = 1" for v
  proof -
    have "mutex_at v 0x10 \<noteq> free_mutex" using that(2) by (auto simp: free_mutex_def kInvalidOwner_def)
    then obtain i where "sync_at (sw_map v) 0x10 = Some i" by (cases "sync_at (sw_map v) 0x10") (simp_all add: mutex_at_def)
    from bad_unlock_returns [OF not_app _ that(1) _ this] that(2) show ?thesis by simp
  qed
  obtain w1 where w1: "run_call ex_senv 2 5 0x10 (DoUnlock 0) w = Some w1" using ret [OF m(3)] m(1) by auto
  note p = call_promises [OF w1 m(3), unfolded promises_def]
  have "ms_owner (mutex_at w1 0x10) = 1" using p by (simp add: m misused_def)
  then obtain w2 where w2: "run_call ex_senv 2 5 0x10 (DoUnlock 0) w1 = Some w2" using ret conjunct1 [OF p] by blast
  have "mutex_run ex_senv w [(2, 0x10, DoUnlock 0), (2, 0x10, DoUnlock 0)] w2" using w1 w2 by (blast intro: mutex_run.intros)
  then show ?thesis using r m by blast
qed

section \<open>Properties\<close>

text \<open>
  C12: Mutexes behave like their abstract machines: after any sequence of calls by any threads on any addresses, the owner,
  the nesting depth and the flags of the mutex at every address are what its machine computes from the calls on that address,
  and the misuses reported, with their addresses and in their order, are those of the machines.
\<close>
theorem mutex_runs_refine:
  assumes "mutex_run env w es w'" "meta_ok X Y (sw_map w)"
  shows "mutex_at w' = fst (spec_run env es (mutex_at w)) \<and> misuses w' = misuses w @ snd (spec_run env es (mutex_at w)) \<and>
    meta_ok X Y (sw_map w')"
  using run_refines [OF assms] .

theorem mutex_runs_refine_witness:
  "\<exists>w. mutex_run ex_senv ex_world [(1, 0x10, DoPostLock 0 0), (2, 0x10, DoRepair), (2, 0x10, DoInvalidAccess)] w \<and>
    mutex_at w 0x10 = free_mutex \<and> misuses w = [(Some ReportTypeMutexInvalidAccess, 0x10)]"
proof -
  obtain w where w: "mutex_run ex_senv ex_world [(1, 0x10, DoPostLock 0 0), (2, 0x10, DoRepair), (2, 0x10, DoInvalidAccess)] w"
    using ex_run by blast
  note r = mutex_runs_refine [OF w ex_world_ok(1)]
  have e: "spec_run ex_senv [(1, 0x10, DoPostLock 0 0), (2, 0x10, DoRepair), (2, 0x10, DoInvalidAccess)] s =
      (s(0x10 := free_mutex), [(Some ReportTypeMutexInvalidAccess, 0x10)])" if "s 0x10 = free_mutex" for s
    by (simp add: that Let_def has_flag_def adopt_flags_def free_mutex_def kInvalidOwner_def add_levels_def)
  show ?thesis using w r e [of "mutex_at ex_world"] by (auto simp: ex_world_ok)
qed

text \<open>
  C14: In every execution in which the 32-bit nesting depth does not overflow, a mutex has an owner exactly when its depth is not
  zero, and the depth is between zero and \<open>2 ^ 31 - 1\<close>. So the \<open>CHECK\<close>s of the lock operations on the two fields do
  not fail: taking ownership returns, an owner that unlocks has a level to give up, and adding levels that fit is exact.
  An execution consists of calls that return. The callers choose how many levels a recursive lock restores, and the code does not check the
  sum: a lock that takes the depth to \<open>2 ^ 31\<close> overflows, which C++ leaves undefined and which is no execution here
  (\<open>post_lock_overflow\<close>).
\<close>
theorem ownership_checks_hold:
  assumes "mutex_run env w es w'" "meta_ok X Y (sw_map w)" "\<forall>a. levels_ok (mutex_at w a)" "sync_at (sw_map w') a = Some i"
  shows "levels_ok (mutex_at w' a) \<and> take_ownership env t i w' \<noteq> None \<and>
    (sv_owner (obj i w') = int t \<longrightarrow> 0 < sv_recursion (obj i w')) \<and>
    0 \<le> sv_recursion (obj i w') \<and> sv_recursion (obj i w') < 2 ^ 31 \<and>
    (sv_owner (obj i w') = kInvalidOwner \<longleftrightarrow> sv_recursion (obj i w') = 0)"
proof -
  have "levels_ok (mutex_at w' a)" by (rule run_levels [OF assms(1-3)])
  moreover have "mstate (obj i w') = mutex_at w' a" using assms(4) by (simp add: mutex_at_def)
  ultimately show ?thesis
    using take_ownership_returns [of i w' env t]
    by (auto simp: levels_ok_def kInvalidOwner_def simp flip: mstate_sel simp del: mstate_sel)
qed

theorem ownership_checks_hold_witness:
  "\<exists>w i. run_call ex_senv 1 5 0x10 (DoPostLock 0 0) ex_world = Some w \<and> sync_at (sw_map w) 0x10 = Some i \<and>
    sv_owner (obj i w) = 1 \<and> 0 < sv_recursion (obj i w)"
proof -
  obtain w where w: "run_call ex_senv 1 5 0x10 (DoPostLock 0 0) ex_world = Some w" using ex_lock by blast
  then have r: "mutex_run ex_senv ex_world [(1, 0x10, DoPostLock 0 0)] w" by (blast intro: mutex_run.intros)
  have m: "mutex_at w 0x10 = \<lparr>ms_owner = 1, ms_levels = 1, ms_flags = 0\<rparr>"
    using run_refines [OF r ex_world_ok(1)]
    by (simp add: ex_world_ok Let_def has_flag_def adopt_flags_def free_mutex_def kInvalidOwner_def add_levels_def)
  then obtain i where i: "sync_at (sw_map w) 0x10 = Some i" "mstate (obj i w) = mutex_at w 0x10"
    by (auto simp: mutex_at_def free_mutex_def kInvalidOwner_def split: option.splits)
  have "sv_owner (obj i w) = int 1" using i m by (simp add: mstate_def)
  then show ?thesis using ownership_checks_hold [OF r ex_world_ok(1) _ i(1), of 1] ex_world_levels w i(1) by auto
qed

text \<open>
  C13: Locking excludes: while a thread owns a mutex, no calls by other threads, misuses included, make it lose the mutex or
  a level of it; only its own unlocking does, or destroying or repairing the mutex.
\<close>
theorem owner_keeps_mutex:
  assumes "mutex_run env w es w'" "meta_ok X Y (sw_map w)" "others_only t a es" "ms_owner (mutex_at w a) = int t"
  shows "ms_owner (mutex_at w' a) = int t \<and> ms_levels (mutex_at w a) \<le> ms_levels (mutex_at w' a)"
proof -
  let ?P = "\<lambda>s :: mutex_state. ms_owner s = int t \<and> ms_levels (mutex_at w a) \<le> ms_levels s"
  have "?P (fst (spec_run env es (mutex_at w)) a)"
  proof (rule spec_run_invariant)
    fix u c and s :: mutex_state
    assume e: "(u, a, c) \<in> set es" and s: "?P s"
    have "u \<noteq> t" "c \<noteq> DoRepair" "\<forall>f. c \<noteq> DoDestroy f" using assms(3) e by (auto simp: others_only_def)
    then show "?P (fst (mutex_spec env u c s))" using spec_keeps_owner s run_calls_ok [OF assms(1) e] by blast
  qed (simp add: assms(4))
  then show ?thesis using run_refines [OF assms(1,2)] by simp
qed

theorem owner_keeps_mutex_witness:
  "\<exists>w w'. mutex_run ex_senv w [(2, 0x10, DoUnlock 0), (2, 0x10, DoUnlock 0)] w' \<and> ms_owner (mutex_at w' 0x10) = 1 \<and>
    1 \<le> ms_levels (mutex_at w' 0x10)"
proof -
  obtain w w' where w: "mutex_at w 0x10 = \<lparr>ms_owner = 1, ms_levels = 1, ms_flags = 0\<rparr>"
      "meta_ok (others_idx 1024) (others_idx 4096) (sw_map w)"
      "mutex_run ex_senv w [(2, 0x10, DoUnlock 0), (2, 0x10, DoUnlock 0)] w'"
    using ex_bad_unlocks by blast
  have "others_only 1 0x10 [(2, 0x10, DoUnlock 0), (2, 0x10, DoUnlock 0)]" by (simp add: others_only_def)
  from owner_keeps_mutex [OF w(3,2) this] show ?thesis using w(1,3) by auto
qed

text \<open>
  C15: At most one misuse is reported for a mutex from its creation to its destruction, not counting invalid accesses that
  the program itself detects.
\<close>
theorem misuse_reported_once:
  assumes "mutex_run env w es w'" "meta_ok X Y (sw_map w)" "\<forall>(t, b, c) \<in> set es. b = a \<longrightarrow> (\<forall>f. c \<noteq> DoDestroy f)"
  shows "length (misuses_of a (misuses w')) \<le> length (misuses_of a (misuses w)) + 1"
proof -
  have "length (misuses_of a (snd (spec_run env es s))) + (if broken (s a) then 1 else 0) \<le> (1 :: nat)" for s
    using assms(3)
  proof (induction es arbitrary: s)
    case (Cons e es)
    obtain t b c where e: "e = (t, b, c)" by (cases e)
    obtain s' where s': "s(b := fst (mutex_spec env t c (s b))) = s'" by blast
    then have a: "b = a \<Longrightarrow> s' a = fst (mutex_spec env t c (s a))" "b \<noteq> a \<Longrightarrow> s' a = s a" by auto
    note IH = Cons.IH [of s']
    show ?case
    proof (cases "b = a")
      case True
      then show ?thesis
        using IH Cons.prems spec_reports_once [of c a env t "s a"] a unfolding e spec_run_cons s' by (simp split: if_splits)
    next
      case False
      then have "misuses_of a (map (\<lambda>k. (k, b)) ks) = []" for ks by (simp add: misuses_of_def)
      then show ?thesis using IH Cons.prems False a unfolding e spec_run_cons s' by simp
    qed
  qed simp
  from this [of "mutex_at w"] show ?thesis using run_refines [OF assms(1,2)] by simp
qed

theorem misuse_reported_once_witness:
  "\<exists>w w'. mutex_run ex_senv w [(2, 0x10, DoUnlock 0), (2, 0x10, DoUnlock 0)] w' \<and> length (misuses_of 0x10 (misuses w')) \<le> 1"
proof -
  obtain w w' where w: "misuses w = []" "meta_ok (others_idx 1024) (others_idx 4096) (sw_map w)"
      "mutex_run ex_senv w [(2, 0x10, DoUnlock 0), (2, 0x10, DoUnlock 0)] w'"
    using ex_bad_unlocks by blast
  show ?thesis using misuse_reported_once [OF w(3,2), of "0x10"] w(1,3) by auto
qed

end
