(* ===== verification/ThreadOpsProperties.thy ===== *)
theory ThreadOpsProperties
  imports ThreadOps ThreadProperties MutexProperties
begin

text \<open>
  The contexts of the race detector's threads under the registry: the clock that hands over between a thread and
  its parent or joiner is empty whenever the callbacks demand it.
\<close>

section \<open>A context in each stage of life\<close>

fun ctx_inv :: "thread_status \<Rightarrow> tsan_context \<Rightarrow> bool" where
  "ctx_inv ThreadStatusInvalid c = (sc_size (tctx_sync c) = 0)"
| "ctx_inv ThreadStatusCreated c = (\<not> tctx_thr c)"
| "ctx_inv ThreadStatusRunning c = (tctx_thr c \<and> sc_size (tctx_sync c) = 0)"
| "ctx_inv ThreadStatusFinished c = (\<not> tctx_thr c)"
| "ctx_inv ThreadStatusDead c = (sc_size (tctx_sync c) = 0)"

definition contexts_ok :: "nat set \<Rightarrow> threads \<Rightarrow> bool" where
  "contexts_ok X s \<longleftrightarrow> (\<forall>i < n_contexts (fst s). tb_tid (rg_threads (fst s) ! i) = i \<and>
     (i \<notin> X \<longrightarrow> ctx_inv (status_of (fst s) i) (tw_ctx (snd s) i)))"

lemma in_sync_ctx: "in_sync f w = Some w' \<Longrightarrow> tw_ctx w' = tw_ctx w"
  by (auto simp: in_sync_def split: bind_splits)

lemma reset_clock_ctx: "reset_clock tid w = Some w' \<Longrightarrow> tw_ctx w' = (tw_ctx w)(tid := (tw_ctx w tid)\<lparr>tctx_sync := ResetImpl (tctx_sync (tw_ctx w tid))\<rparr>)"
  by (auto simp: reset_clock_def SyncClock_Reset_def upd_tctx_def split: bind_splits)

lemma ResetImpl_size [simp]: "sc_size (ResetImpl c) = 0"
  by (simp add: ResetImpl_def)

text \<open>What a callback does to the contexts: at most its own changes, and how.\<close>

definition only_ctx :: "nat \<Rightarrow> (tsan_context \<Rightarrow> bool) \<Rightarrow> thread_world \<Rightarrow> thread_world \<Rightarrow> bool" where
  "only_ctx tid P w w' \<longleftrightarrow> (\<forall>i. i \<noteq> tid \<longrightarrow> tw_ctx w' i = tw_ctx w i) \<and> P (tw_ctx w' tid)"

lemma OnCreated_ctx: "ctx_OnCreated env t arg w = Some w' \<Longrightarrow> only_ctx (tb_tid t) (\<lambda>c. \<not> tctx_thr c) w w'"
  by (auto simp: ctx_OnCreated_def Let_def only_ctx_def upd_tctx_def split: if_splits option.splits prod.splits bind_splits)

lemma OnStarted_ctx: "ctx_OnStarted env t args w = Some w' \<Longrightarrow> only_ctx (tb_tid t) (\<lambda>c. tctx_thr c \<and> sc_size (tctx_sync c) = 0) w w'"
  by (auto simp: ctx_OnStarted_def Let_def only_ctx_def upd_tctx_def upd_frame_def enter_thread_def split: bind_splits
    dest!: in_sync_ctx reset_clock_ctx)

lemma OnFinished_ctx: "ctx_OnFinished t w = Some w' \<Longrightarrow>
    only_ctx (tb_tid t) (\<lambda>c. \<not> tctx_thr c \<and> (tb_detached t \<longrightarrow> tctx_sync c = tctx_sync (tw_ctx w (tb_tid t)))) w w' \<and> tctx_thr (tw_ctx w (tb_tid t))"
  by (auto simp: ctx_OnFinished_def Let_def only_ctx_def upd_tctx_def split: if_splits bind_splits dest!: in_sync_ctx)

lemma OnJoined_ctx: "ctx_OnJoined t caller w = Some w' \<Longrightarrow> only_ctx (tb_tid t) (\<lambda>c. sc_size (tctx_sync c) = 0) w w'"
  by (auto simp: ctx_OnJoined_def only_ctx_def split: bind_splits dest!: in_sync_ctx reset_clock_ctx)

lemma OnDetached_ctx: "ctx_OnDetached t caller w = Some w' \<Longrightarrow> only_ctx (tb_tid t) (\<lambda>c. sc_size (tctx_sync c) = 0 \<and> tctx_thr c = tctx_thr (tw_ctx w (tb_tid t))) w w'"
  by (auto simp: ctx_OnDetached_def only_ctx_def dest!: reset_clock_ctx)

section \<open>The registry's operations\<close>

lemma on_ctx_contexts:
  assumes "on_ctx tid f (r, w) = Some (r', w')" "contexts_ok X (r, w)"
    and "\<And>t'. tb_tid (rg_threads r ! tid) = tid \<Longrightarrow> tid < n_contexts r \<Longrightarrow> f (rg_threads r ! tid, w) = Some (t', w') \<Longrightarrow>
      tb_tid t' = tid \<and> only_ctx tid (ctx_inv (tb_status t')) w w'"
  shows "contexts_ok (X - {tid}) (r', w')"
proof -
  obtain t' where n: "tid < n_contexts r" and t': "f (rg_threads r ! tid, w) = Some (t', w')" and r': "r' = r\<lparr>rg_threads := (rg_threads r)[tid := t']\<rparr>"
    using assms(1) by (rule on_ctxE)
  have "tb_tid (rg_threads r ! tid) = tid" using assms(2) n by (simp add: contexts_ok_def)
  note a = assms(3) [OF this n t']
  show ?thesis
    using assms(2) a n unfolding contexts_ok_def
    by (auto simp: r' only_ctx_def status_of_def nth_list_update)
qed

lemma upd_contexts:
  assumes "contexts_ok X (r, w)" "\<And>t. tb_tid (f t) = tb_tid t \<and> tb_status (f t) = tb_status t"
  shows "contexts_ok X (upd_ctx tid f r, w)"
proof (cases "tid < n_contexts r")
  case True
  then show ?thesis using assms by (auto simp: contexts_ok_def status_of_def nth_list_update)
next
  case False
  then show ?thesis using assms(1) by (simp add: upd_ctx_def list_update_beyond contexts_ok_def status_of_def)
qed

lemma contexts_fields:
  "rg_threads r' = rg_threads r \<Longrightarrow> contexts_ok X (r', w) = contexts_ok X (r, w)"
  "tw_ctx w' = tw_ctx w \<Longrightarrow> contexts_ok X (r, w') = contexts_ok X (r, w)"
  by (simp_all add: contexts_ok_def status_of_def)

lemma cb_sel [simp]:
  "context_factory (tsan_callbacks env) = CreateThreadContext" "OnDead (tsan_callbacks env) = ctx_OnDead"
  "OnJoined (tsan_callbacks env) = ctx_OnJoined" "OnFinished (tsan_callbacks env) = ctx_OnFinished"
  "OnStarted (tsan_callbacks env) = ctx_OnStarted env" "OnCreated (tsan_callbacks env) = ctx_OnCreated env"
  "OnReset (tsan_callbacks env) = ctx_OnReset" "OnDetached (tsan_callbacks env) = ctx_OnDetached"
  by (simp_all add: tsan_callbacks_def)

lemma push_contexts:
  assumes "QuarantinePush (tsan_callbacks env) tid (r, w) = Some (r', w')" "contexts_ok {} (r, w)"
  shows "contexts_ok {} (r', w')"
proof -
  let ?x = "hd (dead_threads r @ [tid])"
  let ?r = "r\<lparr>dead_threads := tl (dead_threads r @ [tid])\<rparr>"
  have c: "contexts_ok {} (?r, w)" using assms(2) contexts_fields(1) [of ?r r] by simp
  consider "rg_threads r' = rg_threads r" "w' = w"
    | r1 where "on_ctx ?x (ctx_Reset (tsan_callbacks env)) (?r, w) = Some (r1, w')" "rg_threads r' = rg_threads (upd_ctx ?x (\<lambda>t. t\<lparr>tb_reuse_count := tb_reuse_count t + 1\<rparr>) r1)"
    using assms(1) by (auto simp: QuarantinePush_def Let_def split: if_splits bind_splits)
  then show ?thesis
  proof cases
    case 1
    then show ?thesis using assms(2) contexts_fields(1) [of r' r] by simp
  next
    case (2 r1)
    have "contexts_ok ({} - {?x}) (r1, w')"
      using 2(1) c
    proof (rule on_ctx_contexts)
      fix t'
      assume a: "tb_tid (rg_threads ?r ! ?x) = ?x" "ctx_Reset (tsan_callbacks env) (rg_threads ?r ! ?x, w) = Some (t', w')"
      then have "w' = w \<and> sc_size (tctx_sync (tw_ctx w ?x)) = 0"
        by (auto simp: ctx_Reset_def Let_def ctx_OnReset_def ctx_SetName_def split: if_splits bind_splits)
      then show "tb_tid t' = ?x \<and> only_ctx ?x (ctx_inv (tb_status t')) w w'"
        using ctx_Reset_base [OF a(2)] a(1) by (simp add: only_ctx_def)
    qed
    then have "contexts_ok {} (r1, w')" by simp
    then have "contexts_ok {} (upd_ctx ?x (\<lambda>t. t\<lparr>tb_reuse_count := tb_reuse_count t + 1\<rparr>) r1, w')"
      by (rule upd_contexts) simp
    then show ?thesis using contexts_fields(1) [OF 2(2)] by simp
  qed
qed

lemma create_contexts:
  assumes "CreateThread (tsan_callbacks env) user det parent arg (r, w) = Some (tid, r', w')" "contexts_ok {} (r, w)"
  shows "contexts_ok {} (r', w')"
proof -
  obtain r1 w1 r2 where t: "take_tid (tsan_callbacks env) (r, w) = Some (tid, r1, w1)"
    and m: "r2 = (let a = r1\<lparr>alive_threads := alive_threads r1 + 1\<rparr> in
      if max_alive_threads r1 < alive_threads r1 + 1 then a\<lparr>max_alive_threads := max_alive_threads r1 + 1\<rparr> else a)"
    and c: "on_ctx tid (SetCreated (tsan_callbacks env) user (total_threads r2) det parent arg) (r2\<lparr>total_threads := total_threads r2 + 1\<rparr>, w1) = Some (r', w')"
    using assms(1) by (rule create_parts)
  let ?r = "r2\<lparr>total_threads := total_threads r2 + 1\<rparr>"
  have r2: "rg_threads ?r = rg_threads r1" by (simp add: m Let_def)
  have "contexts_ok {} (r1, w1)"
  proof (cases "invalid_threads r")
    case Nil
    then have "r1 = r\<lparr>rg_threads := rg_threads r @ [ThreadContextBase_new (n_contexts r)]\<rparr>" "w1 = upd_tctx (n_contexts r) (\<lambda>_. ThreadContext_new) w"
      using t by (auto simp: take_tid_def QuarantinePop_def CreateThreadContext_def split: if_splits)
    then show ?thesis using assms(2)
      by (auto simp: contexts_ok_def status_of_def nth_append upd_tctx_def ThreadContextBase_new_def ThreadContext_new_def
        sync_clock_new_def ResetImpl_def less_Suc_eq)
  next
    case (Cons a list)
    then have "rg_threads r1 = rg_threads r" "w1 = w" using t by (auto simp: take_tid_def QuarantinePop_def)
    then show ?thesis using assms(2) contexts_fields(1) by blast
  qed
  then have "contexts_ok {} (?r, w1)" using contexts_fields(1) [OF r2] by simp
  from c this have "contexts_ok ({} - {tid}) (r', w')"
  proof (rule on_ctx_contexts)
    fix t'
    assume a: "tb_tid (rg_threads ?r ! tid) = tid" "SetCreated (tsan_callbacks env) user (total_threads r2) det parent arg (rg_threads ?r ! tid, w1) = Some (t', w')"
    have "ctx_OnCreated env t' arg w1 = Some w'" using a(2) by (auto simp: SetCreated_def Let_def split: bind_splits if_splits)
    then show "tb_tid t' = tid \<and> only_ctx tid (ctx_inv (tb_status t')) w1 w'"
      using OnCreated_ctx [of env t' arg w1 w'] SetCreated_base [OF a(2)] a(1) by (simp add: only_ctx_def)
  qed
  then show ?thesis by simp
qed

lemma start_contexts:
  assumes "StartThread (tsan_callbacks env) tid os ty arg (r, w) = Some (r', w')" "contexts_ok {} (r, w)"
  shows "contexts_ok {} (r', w')"
proof -
  let ?r = "r\<lparr>running_threads := running_threads r + 1\<rparr>"
  have c: "on_ctx tid (SetStarted (tsan_callbacks env) os ty arg) (?r, w) = Some (r', w')"
    using assms(1) by (auto simp: StartThread_def Let_def split: if_splits)
  have "contexts_ok {} (?r, w)" using assms(2) contexts_fields(1) [of ?r r] by simp
  with c have "contexts_ok ({} - {tid}) (r', w')"
  proof (rule on_ctx_contexts)
    fix t'
    assume a: "tb_tid (rg_threads ?r ! tid) = tid" "SetStarted (tsan_callbacks env) os ty arg (rg_threads ?r ! tid, w) = Some (t', w')"
    have "ctx_OnStarted env t' arg w = Some w'" using a(2) by (auto simp: SetStarted_def Let_def split: bind_splits)
    then show "tb_tid t' = tid \<and> only_ctx tid (ctx_inv (tb_status t')) w w'"
      using OnStarted_ctx [of env t' arg w w'] SetStarted_base [OF a(2)] a(1) by (simp add: only_ctx_def)
  qed
  then show ?thesis by simp
qed

text \<open>A thread whose clock is empty dies; then it is pushed.\<close>

lemma dead_contexts:
  assumes "on_ctx tid (SetDead (tsan_callbacks env)) (r, w) = Some (r', w')" "contexts_ok X (r, w)"
  shows "contexts_ok (X - {tid}) (r', w')"
  using assms
proof (rule on_ctx_contexts)
  fix t'
  assume a: "tb_tid (rg_threads r ! tid) = tid" "SetDead (tsan_callbacks env) (rg_threads r ! tid, w) = Some (t', w')"
  have "ctx_OnDead t' w = Some w'" using a(2) by (auto simp: SetDead_def Let_def split: bind_splits if_splits)
  then show "tb_tid t' = tid \<and> only_ctx tid (ctx_inv (tb_status t')) w w'"
    using SetDead_base [OF a(2)] a(1) by (auto simp: only_ctx_def ctx_OnDead_def split: if_splits)
qed

lemma join_contexts:
  assumes "join_round (tsan_callbacks env) tid arg (r, w) = Some (b, r', w')" "contexts_ok {} (r, w)"
  shows "contexts_ok {} (r', w')"
proof (cases "(r', w') = (r, w)")
  case False
  then obtain s where s: "on_ctx tid (SetJoined (tsan_callbacks env) arg) (r, w) = Some s" "QuarantinePush (tsan_callbacks env) tid s = Some (r', w')"
    using assms(1) by (auto simp: join_round_def split: if_splits bind_splits)
  obtain r1 w1 where p: "s = (r1, w1)" by (cases s)
  have "contexts_ok ({} - {tid}) (r1, w1)"
    using s(1) [unfolded p] assms(2)
  proof (rule on_ctx_contexts)
    fix t'
    assume a: "tb_tid (rg_threads r ! tid) = tid" "SetJoined (tsan_callbacks env) arg (rg_threads r ! tid, w) = Some (t', w1)"
    have "ctx_OnJoined t' arg w = Some w1" using a(2) by (auto simp: SetJoined_def Let_def split: bind_splits if_splits)
    then show "tb_tid t' = tid \<and> only_ctx tid (ctx_inv (tb_status t')) w w1"
      using OnJoined_ctx [of t' arg w w1] SetJoined_base [OF a(2)] a(1) by (simp add: only_ctx_def)
  qed
  then show ?thesis using push_contexts [OF s(2) [unfolded p]] by simp
qed (use assms(2) in simp)

lemma detach_contexts:
  assumes "DetachThread (tsan_callbacks env) tid arg (r, w) = Some (b, r', w')" "contexts_ok {} (r, w)"
  shows "contexts_ok {} (r', w')"
proof (cases "status_of r tid = ThreadStatusInvalid")
  case False
  then obtain w1 where n: "tid < n_contexts r" and w1: "ctx_OnDetached (rg_threads r ! tid) arg w = Some w1"
    and s: "if status_of r tid = ThreadStatusFinished
      then (\<exists>r2 w2. on_ctx tid (SetDead (tsan_callbacks env)) (r, w1) = Some (r2, w2) \<and> QuarantinePush (tsan_callbacks env) tid (r2, w2) = Some (r', w'))
      else r' = upd_ctx tid (\<lambda>t. t\<lparr>tb_detached := True\<rparr>) r \<and> w' = w1"
  proof -
    have n: "\<not> \<not> tid < n_contexts r" and d: "(if status_of r tid = ThreadStatusInvalid then Some (False, r, w)
        else do { w \<leftarrow> OnDetached (tsan_callbacks env) (rg_threads r ! tid) arg w;
          s \<leftarrow> (if status_of r tid = ThreadStatusFinished then do { s \<leftarrow> on_ctx tid (SetDead (tsan_callbacks env)) (r, w); QuarantinePush (tsan_callbacks env) tid s }
            else Some (upd_ctx tid (\<lambda>t. t\<lparr>tb_detached := True\<rparr>) r, w));
          Some (True, s) }) = Some (b, r', w')"
      using assms(1) unfolding DetachThread_def prod.case by (simp_all split: if_splits)
    obtain w1 s where w1: "OnDetached (tsan_callbacks env) (rg_threads r ! tid) arg w = Some w1"
      and s: "(if status_of r tid = ThreadStatusFinished then do { s \<leftarrow> on_ctx tid (SetDead (tsan_callbacks env)) (r, w1); QuarantinePush (tsan_callbacks env) tid s }
            else Some (upd_ctx tid (\<lambda>t. t\<lparr>tb_detached := True\<rparr>) r, w1)) = Some s" and fin: "Some (True, s) = Some (b, r', w')"
      using d unfolding if_not_P [OF False] by (elim bindE) (rule that)
    have e: "s = (r', w')" using fin by simp
    show ?thesis
    proof (rule that)
      show "tid < n_contexts r" using n by simp
      show "ctx_OnDetached (rg_threads r ! tid) arg w = Some w1" using w1 by simp
      show "if status_of r tid = ThreadStatusFinished
        then (\<exists>r2 w2. on_ctx tid (SetDead (tsan_callbacks env)) (r, w1) = Some (r2, w2) \<and> QuarantinePush (tsan_callbacks env) tid (r2, w2) = Some (r', w'))
        else r' = upd_ctx tid (\<lambda>t. t\<lparr>tb_detached := True\<rparr>) r \<and> w' = w1"
        using s unfolding e by (cases "status_of r tid = ThreadStatusFinished") (auto elim!: bindE)
    qed
  qed
  have o: "only_ctx tid (\<lambda>c. sc_size (tctx_sync c) = 0 \<and> tctx_thr c = tctx_thr (tw_ctx w tid)) w w1"
    using OnDetached_ctx [OF w1] assms(2) n by (simp add: contexts_ok_def)
  have "contexts_ok {} (r, w1)"
    unfolding contexts_ok_def
  proof (intro allI impI conjI)
    fix i
    assume i: "i < n_contexts (fst (r, w1))"
    then have c: "ctx_inv (status_of r i) (tw_ctx w i)" and "tb_tid (rg_threads (fst (r, w1)) ! i) = i"
      using assms(2) by (simp_all add: contexts_ok_def)
    then show "tb_tid (rg_threads (fst (r, w1)) ! i) = i" by simp
    show "ctx_inv (status_of (fst (r, w1)) i) (tw_ctx (snd (r, w1)) i)"
      using c o by (cases "i = tid"; cases "status_of r i") (auto simp: only_ctx_def)
  qed
  note k = this
  show ?thesis
  proof (cases "status_of r tid = ThreadStatusFinished")
    case True
    then obtain r2 w2 where d: "on_ctx tid (SetDead (tsan_callbacks env)) (r, w1) = Some (r2, w2)" "QuarantinePush (tsan_callbacks env) tid (r2, w2) = Some (r', w')"
      using s by auto
    have "contexts_ok {} (r2, w2)" using dead_contexts [OF d(1) k] by simp
    then show ?thesis by (rule push_contexts [OF d(2)])
  next
    case False
    then show ?thesis using s upd_contexts [OF k] by simp
  qed
next
  case True
  then show ?thesis using assms by (simp add: DetachThread_def split: if_splits)
qed

lemma finish_contexts:
  assumes "FinishThread (tsan_callbacks env) tid (r, w) = Some (r', w')" "contexts_ok {} (r, w)"
  shows "contexts_ok {} (r', w')"
proof -
  obtain dead r2 r3 w3 r5 where n: "tid < n_contexts r" and st: "status_of r tid = ThreadStatusRunning \<or> status_of r tid = ThreadStatusCreated"
    and dead: "dead \<longleftrightarrow> tb_detached (rg_threads r ! tid) \<or> status_of r tid = ThreadStatusCreated"
    and r2': "r2 = r\<lparr>alive_threads := alive_threads r - 1, running_threads := running_threads r - of_bool (running (rg_threads r ! tid))\<rparr>"
    and f: "on_ctx tid (SetFinished (tsan_callbacks env)) (r2, w) = Some (r3, w3)"
    and r5': "(if dead then do { s \<leftarrow> on_ctx tid (SetDead (tsan_callbacks env)) (r3, w3); QuarantinePush (tsan_callbacks env) tid s } else Some (r3, w3)) = Some (r5, w')"
    and r': "r' = upd_ctx tid SetDestroyed r5"
    using assms(1) by (rule finish_parts)
  have r2: "rg_threads r2 = rg_threads r" by (simp add: r2')
  have r5: "(r5, w') = (r3, w3) \<and> \<not> tb_detached (rg_threads r ! tid) \<or>
      (\<exists>r4 w4. on_ctx tid (SetDead (tsan_callbacks env)) (r3, w3) = Some (r4, w4) \<and> QuarantinePush (tsan_callbacks env) tid (r4, w4) = Some (r5, w'))"
    using r5' dead by (cases dead) (auto split: bind_splits)
  obtain t' where f': "SetFinished (tsan_callbacks env) (rg_threads r ! tid, w) = Some (t', w3)" and r3: "r3 = r2\<lparr>rg_threads := (rg_threads r)[tid := t']\<rparr>"
    using f by (rule on_ctxE) (simp add: r2)
  have t: "tb_tid (rg_threads r ! tid) = tid" "ctx_inv (status_of r tid) (tw_ctx w tid)" using assms(2) n by (simp_all add: contexts_ok_def)
  have "tb_tid t' = tid" "tb_detached t' = tb_detached (rg_threads r ! tid)" and o: "ctx_OnFinished t' w = Some w3"
    using f' t(1) by (auto simp: SetFinished_def Let_def split: bind_splits if_splits)
  note F = OnFinished_ctx [OF o, unfolded \<open>tb_tid t' = tid\<close>]
  have run: "status_of r tid = ThreadStatusRunning" using F t(2) st by auto
  have k3: "contexts_ok {tid} (r3, w3)"
    using assms(2) F n r2 \<open>tb_tid t' = tid\<close> by (auto simp: contexts_ok_def r3 only_ctx_def status_of_def nth_list_update)
  have "contexts_ok {} (r5, w')"
    using r5
  proof
    assume a: "(r5, w') = (r3, w3) \<and> \<not> tb_detached (rg_threads r ! tid)"
    then have "tb_status t' = ThreadStatusFinished" using SetFinished_base [OF f'] by simp
    then have "ctx_inv (status_of r3 tid) (tw_ctx w3 tid)" using F n by (simp add: status_of_def r3 only_ctx_def)
    then show ?thesis using k3 a by (auto simp: contexts_ok_def)
  next
    assume "\<exists>r4 w4. on_ctx tid (SetDead (tsan_callbacks env)) (r3, w3) = Some (r4, w4) \<and> QuarantinePush (tsan_callbacks env) tid (r4, w4) = Some (r5, w')"
    then obtain r4 w4 where d: "on_ctx tid (SetDead (tsan_callbacks env)) (r3, w3) = Some (r4, w4)" "QuarantinePush (tsan_callbacks env) tid (r4, w4) = Some (r5, w')"
      by blast
    have "contexts_ok {} (r4, w4)" using dead_contexts [OF d(1) k3] by simp
    then show ?thesis by (rule push_contexts [OF d(2)])
  qed
  then show ?thesis unfolding r' by (rule upd_contexts) (simp add: SetDestroyed_def)
qed

section \<open>Runs\<close>

text \<open>The rest of the runtime does not change the contexts.\<close>

definition elsewhere_ok :: "('c, 's, 'j, thread_world) registry_call \<Rightarrow> bool" where
  "elsewhere_ok c \<longleftrightarrow> (case c of Elsewhere f \<Rightarrow> (\<forall>w. tw_ctx (f w) = tw_ctx w) | _ \<Rightarrow> True)"

lemma step_contexts:
  assumes "registry_step (tsan_callbacks env) c (r, w) = Some (r', w')" "contexts_ok {} (r, w)" "elsewhere_ok c"
  shows "contexts_ok {} (r', w')"
proof (cases c)
  case (CreateCall user det parent arg)
  then obtain tid where "CreateThread (tsan_callbacks env) user det parent arg (r, w) = Some (tid, r', w')"
    using assms(1) by (auto simp: registry_step_def)
  then show ?thesis using assms(2) by (rule create_contexts)
next
  case (StartCall tid os ty arg)
  then show ?thesis using assms start_contexts by (auto simp: registry_step_def)
next
  case (FinishCall tid)
  then show ?thesis using assms finish_contexts by (auto simp: registry_step_def)
next
  case (DetachCall tid arg)
  then show ?thesis using assms detach_contexts by (auto simp: registry_step_def)
next
  case (JoinCall tid arg)
  then show ?thesis using assms join_contexts by (auto simp: registry_step_def)
next
  case (NameCall tid name)
  then have "r' = upd_ctx tid (ctx_SetName name) r" "w' = w" using assms(1) by (auto simp: registry_step_def SetThreadName_def split: if_splits)
  then show ?thesis using upd_contexts [OF assms(2), of "ctx_SetName name"] by (simp add: ctx_SetName_def)
next
  case (NameByUserCall user name)
  then have "r' = r \<or> (\<exists>tid. r' = upd_ctx tid (ctx_SetName name) r)" "w' = w"
    using assms(1) by (auto simp: registry_step_def SetThreadNameByUserId_def split: option.splits)
  then show ?thesis using upd_contexts [OF assms(2), of "ctx_SetName name"] assms(2) by (auto simp: ctx_SetName_def)
next
  case (UserIdCall tid user)
  then have "r' = upd_ctx tid (\<lambda>t. t\<lparr>tb_user_id := user\<rparr>) r" "w' = w"
    using assms(1) by (auto simp: registry_step_def SetThreadUserId_def split: if_splits)
  then show ?thesis using upd_contexts [OF assms(2), of "\<lambda>t. t\<lparr>tb_user_id := user\<rparr>"] by simp
next
  case (Elsewhere f)
  then have "tw_ctx w' = tw_ctx w" "r' = r" using assms(1,3) by (auto simp: registry_step_def elsewhere_ok_def)
  then show ?thesis using assms(2) contexts_fields(2) [of w' w] by simp
qed

lemma run_contexts:
  "registry_run (tsan_callbacks env) cs (r, w) = Some (r', w') \<Longrightarrow> contexts_ok {} (r, w) \<Longrightarrow> list_all elsewhere_ok cs \<Longrightarrow> contexts_ok {} (r', w')"
proof (induction cs arbitrary: r w)
  case (Cons c cs)
  then obtain r1 w1 where s: "registry_step (tsan_callbacks env) c (r, w) = Some (r1, w1)" "registry_run (tsan_callbacks env) cs (r1, w1) = Some (r', w')"
    by (auto split: bind_splits)
  have "contexts_ok {} (r1, w1)" using step_contexts [OF s(1)] Cons.prems by simp
  then show ?case using Cons.IH [OF s(2)] Cons.prems(3) by simp
qed simp

lemma push_returns:
  assumes "registry_ok r" "contexts_ok {} (r, w)"
  shows "QuarantinePush (tsan_callbacks env) tid (r, w) \<noteq> None"
proof (cases "tid = 0 \<or> length (dead_threads r) < thread_quarantine_size r")
  case True
  then show ?thesis by (auto simp: QuarantinePush_def Let_def)
next
  case False
  then have "dead_threads r \<noteq> []" using assms(1) by (auto simp: registry_ok_def reg_inv_def)
  then obtain x xs where x: "dead_threads r = x # xs" by (cases "dead_threads r") auto
  then have d: "x < n_contexts r" "status_of r x = ThreadStatusDead" using assms(1) by (auto simp: registry_ok_def reg_inv_def)
  then have c: "tb_tid (rg_threads r ! x) = x" "sc_size (tctx_sync (tw_ctx w x)) = 0"
    using assms(2) by (auto simp: contexts_ok_def)
  obtain t where "ctx_Reset (tsan_callbacks env) (rg_threads r ! x, w) = Some (t, w)"
    using c by (simp add: ctx_Reset_def Let_def ctx_SetName_def ctx_OnReset_def)
  then show ?thesis using False x d by (simp add: QuarantinePush_def Let_def on_ctx_def status_of_def)
qed

text \<open>
  C26: the \<open>CHECK\<close>s in the callbacks of a thread's context never fail. In every run from the start the clock of a context
  is empty unless its thread is created or finished; so a detached thread that ends, and a finished thread that is detached, pass the check
  of \<open>OnDead\<close>, and pushing a dead thread to the quarantine, which resets an older one, passes that of \<open>OnReset\<close>.
\<close>

theorem context_checks_hold:
  assumes "registry_run (tsan_callbacks env) cs (new_registry, w0) = Some (r, w)" "list_all elsewhere_ok cs" "i < n_contexts r"
  shows "(status_of r i \<noteq> ThreadStatusCreated \<and> status_of r i \<noteq> ThreadStatusFinished \<longrightarrow> sc_size (tctx_sync (tw_ctx w i)) = 0) \<and>
    (status_of r i = ThreadStatusRunning \<and> tb_detached (rg_threads r ! i) \<and> ctx_OnFinished (rg_threads r ! i) w = Some w1 \<longrightarrow>
       ctx_OnDead (rg_threads r ! i) w1 = Some w1) \<and>
    (ctx_OnDetached (rg_threads r ! i) caller w = Some w2 \<longrightarrow> ctx_OnDead (rg_threads r ! i) w2 = Some w2) \<and>
    QuarantinePush (tsan_callbacks env) i (r, w) \<noteq> None"
proof -
  have "registry_ok new_registry" unfolding new_registry_def by (rule new_ok) (simp add: kThreadQuarantineSize_def)
  then have ok: "registry_ok r" using registry_run_ok [OF assms(1)] by blast
  have "contexts_ok {} (new_registry, w0)" by (simp add: contexts_ok_def new_registry_def ThreadRegistry_new_def)
  then have c: "contexts_ok {} (r, w)" using run_contexts [OF assms(1) _ assms(2)] by blast
  then have i: "tb_tid (rg_threads r ! i) = i" "ctx_inv (status_of r i) (tw_ctx w i)" using assms(3) by (simp_all add: contexts_ok_def)
  then have "status_of r i \<noteq> ThreadStatusCreated \<and> status_of r i \<noteq> ThreadStatusFinished \<longrightarrow> sc_size (tctx_sync (tw_ctx w i)) = 0"
    by (cases "status_of r i") simp_all
  moreover have "ctx_OnDead (rg_threads r ! i) w1 = Some w1"
    if "status_of r i = ThreadStatusRunning" "tb_detached (rg_threads r ! i)" "ctx_OnFinished (rg_threads r ! i) w = Some w1"
    using OnFinished_ctx [OF that(3)] that(1,2) i by (simp add: only_ctx_def ctx_OnDead_def)
  moreover have "ctx_OnDead (rg_threads r ! i) w2 = Some w2" if "ctx_OnDetached (rg_threads r ! i) caller w = Some w2"
    using OnDetached_ctx [OF that] i(1) by (simp add: only_ctx_def ctx_OnDead_def)
  ultimately show ?thesis using push_returns [OF ok c] by blast
qed

definition ex_threads_env :: thread_env where
  "ex_threads_env = \<lparr>te_sync = ex_senv, history_size = 2, report_thread_leaks = True,
     te_dd_memory = (lt_dd (st_dd (sw_threads ex_world 0)), []), te_sizeof_state = 4096\<rparr>"

definition ex_threads :: thread_world where
  "ex_threads = \<lparr>tw_sync = ex_world, tw_ctx = (\<lambda>_. ThreadContext_new),
     tw_frame = (\<lambda>_. \<lparr>fr_stk_addr = 0, fr_stk_size = 0, fr_tls_addr = 0, fr_tls_size = 0, is_dead = False, proc1 = None\<rparr>),
     tw_procs = (\<lambda>_. None), tw_cur = 0\<rparr>"

definition main_starts :: "(nat option \<times> u64, started_args, nat, thread_world) registry_call list" where
  "main_starts = [CreateCall 0 True 0 (None, 0),
     StartCall 0 5 Regular \<lparr>sa_stk_addr = 0, sa_stk_size = 0, sa_tls_addr = 0, sa_tls_size = 0\<rparr>]"

lemmas run_ops = registry_step_def CreateThread_def StartThread_def take_tid_def QuarantinePop_def on_ctx_def status_of_def
  SetCreated_def SetStarted_def ThreadContextBase_new_def new_registry_def ThreadRegistry_new_def Let_def kMaxTid_def kClockCount_def

lemma first_acquire: "sc_size c = 0 \<Longrightarrow> \<exists>w'. acquire_from t c w = Some w'"
  by (simp add: acquire_from_def Let_def acquire_def)

lemma first_start:
  assumes "ThreadClock_new (tb_tid t) (tb_reuse_count t) True = Some c1" "ThreadClock_new (tb_tid t) 0 False = Some c2"
    and "sc_size (tctx_sync (tw_ctx w (tb_tid t))) = 0"
  shows "\<exists>w'. ctx_OnStarted ex_threads_env t args w = Some w'"
proof -
  let ?w = "enter_thread (tb_tid t) args w"
  let ?c = "tctx_sync (tw_ctx ?w (tb_tid t))"
  have c: "sc_size ?c = 0" using assms(3) by (simp add: enter_thread_def upd_frame_def upd_tctx_def)
  obtain thr where thr: "ThreadState_new (tb_tid t) (tb_unique_id t) (epoch0 (tw_ctx ?w (tb_tid t))) (tb_reuse_count t)
      (sw_threads (tw_sync ?w) (tb_tid t)) = Some thr"
    by (simp add: ThreadState_new_def assms(1,2))
  obtain fs where fs: "SetHistorySize (history_size ex_threads_env) (fast_state (st_state thr)) = Some fs"
    by (simp add: SetHistorySize_def ex_threads_env_def)
  have a: "\<exists>w2. in_sync (acquire_from (tb_tid t) ?c) (?w\<lparr>tw_sync := s\<rparr>) = Some w2 \<and> tw_ctx w2 = tw_ctx ?w" for s
  proof -
    obtain s' where "acquire_from (tb_tid t) ?c s = Some s'" using first_acquire [OF c] by blast
    then show ?thesis by (simp add: in_sync_def)
  qed
  have r: "\<exists>w'. reset_clock (tb_tid t) w1 = Some w'" if "tw_ctx w1 = tw_ctx ?w" for w1
    using c that by (simp add: reset_clock_def SyncClock_Reset_def)
  let ?thr = "thr\<lparr>st_state := (st_state thr)\<lparr>shadow_stack := [], fast_state := fs, fast_synch_epoch := epoch0 (tw_ctx ?w (tb_tid t))\<rparr>,
    st_dd := (if detect_deadlocks (te_sync ex_threads_env)
      then dd_CreateLogicalThread (tb_unique_id t) (fst (te_dd_memory ex_threads_env)) (snd (te_dd_memory ex_threads_env)) else st_dd thr)\<rparr>"
  obtain w2 where w2: "in_sync (acquire_from (tb_tid t) ?c) (?w\<lparr>tw_sync := upd_thread (tb_tid t) (\<lambda>_. ?thr) (tw_sync ?w)\<rparr>) = Some w2"
    and "tw_ctx w2 = tw_ctx ?w" using a by blast
  then obtain w3 where w3: "reset_clock (tb_tid t) w2 = Some w3" using r by blast
  have same: "tw_ctx (?w\<lparr>tw_sync := s\<rparr>) = tw_ctx ?w" for s by simp
  show ?thesis
    unfolding ctx_OnStarted_def Let_def thr bind.bind_lunit fs same w2 w3 by (rule exI, rule refl)
qed

lemma context_checks_hold_witness:
  "\<exists>r w. registry_run (tsan_callbacks ex_threads_env) main_starts (new_registry, ex_threads) = Some (r, w) \<and> n_contexts r = 1 \<and>
     status_of r 0 = ThreadStatusRunning \<and> sc_size (tctx_sync (tw_ctx w 0)) = 0"
proof -
  have k: "kMaxTidInClock = 16256" by (simp add: kMaxTidInClock_def kMaxTid_def kClockCount_def)
  have n: "\<exists>c. ThreadClock_new 0 0 b = Some c" for b
    by (simp add: ThreadClock_new_def k kClkBits_def)
  then obtain c1 c2 where cs: "ThreadClock_new 0 0 True = Some c1" "ThreadClock_new 0 0 False = Some c2" by blast
  let ?t = "(ThreadContextBase_new 0)\<lparr>tb_status := ThreadStatusCreated, tb_detached := True\<rparr>"
  let ?r = "new_registry\<lparr>rg_threads := [?t], alive_threads := 1, max_alive_threads := 1, total_threads := 1\<rparr>"
  let ?w = "upd_tctx 0 (\<lambda>_. ThreadContext_new) ex_threads"
  let ?args = "\<lparr>sa_stk_addr = 0, sa_stk_size = 0, sa_tls_addr = 0, sa_tls_size = 0\<rparr>"
  let ?t2 = "?t\<lparr>tb_status := ThreadStatusRunning, tb_os_id := 5, tb_type := Regular\<rparr>"
  have w: "upd_tctx 0 (\<lambda>x. x\<lparr>tctx_thr := False\<rparr>) ?w = ?w" by (simp add: upd_tctx_def ThreadContext_new_def)
  have s1: "registry_step (tsan_callbacks ex_threads_env) (CreateCall 0 True 0 (None, 0)) (new_registry, ex_threads) = Some (?r, ?w)"
    by (simp add: run_ops CreateThreadContext_def ctx_OnCreated_def w)
  obtain w2 where w2: "ctx_OnStarted ex_threads_env ?t2 ?args ?w = Some w2"
    using first_start [of ?t2 c1 c2 ?w ?args] cs
    by (auto simp: ThreadContextBase_new_def upd_tctx_def ThreadContext_new_def sync_clock_new_def)
  let ?r2 = "?r\<lparr>rg_threads := [?t2], running_threads := 1\<rparr>"
  have s2: "registry_step (tsan_callbacks ex_threads_env) (StartCall 0 5 Regular ?args) (?r, ?w) = Some (?r2, w2)"
    using w2 by (simp add: registry_step_def StartThread_def on_ctx_def SetStarted_def status_of_def Let_def) (simp add: new_registry_def ThreadRegistry_new_def)
  have r: "registry_run (tsan_callbacks ex_threads_env) main_starts (new_registry, ex_threads) = Some (?r2, w2)"
    unfolding main_starts_def registry_run.simps s1 bind.bind_lunit s2 by (rule refl)
  have "list_all elsewhere_ok main_starts" by (simp add: main_starts_def elsewhere_ok_def)
  then show ?thesis using context_checks_hold [OF r, of 0] r by (auto simp: status_of_def)
qed

end
