(* ===== verification/Spec2Isabelle.thy ===== *)
theory Spec2Isabelle
  imports CprdProperties ClockProperties ShadowProperties MemoryProperties DeadlockClaims ThreadOpsProperties
begin

text \<open>
  PRD finds races on persistent memory. Its runtime is a fork of ThreadSanitizer and
  DataFlowSanitizer (\<open>src/instrumentation/runtime/compiler-rt/lib\<close>, the paths below are relative to
  it) whose own code is \<open>tsan/rtl/cprd\<close>: LLVM passes insert a call at every memory access, cache line
  flush and fence; the runtime checks the access against shadow memory, and if it is new and
  touches persistent memory, writes it to a log, together with flushes, fences, happens-before
  edges and the dependencies that data-flow labels show. A script analyses the log afterwards.

  \<^bold>\<open>Parts and theories.\<close>

  \<^item> Base. \<^theory_text>\<open>Prelude\<close>: machine types, collections of facts, lemmas on lists and words.
    \<^theory_text>\<open>CommonArith\<close>: rounding, powers of two, bit scans and character tests of
    \<open>sanitizer_common/sanitizer_common.h\<close> and \<open>tsan/rtl/tsan_defs.h\<close>. \<^theory_text>\<open>SanitizerLibc\<close>: the string and
    memory routines of \<open>sanitizer_common/sanitizer_libc.cpp\<close>, a string being the bytes before the first
    zero of a list, and memory a map from addresses.

  \<^item> Persistent-memory runtime. \<^theory_text>\<open>CprdContainers\<close>: the two fixed-size containers of \<open>tsan/rtl/cprd\<close>, an
    append-only array with validity flags and an unordered collection, with their iterators, as
    locales interpreted for both. \<^theory_text>\<open>CprdRuntime\<close>: \<open>Cprd\<close> itself: pool files and mappings, the log of
    accesses, flushes and fences, the reads that wait for a dependent write. \<^theory_text>\<open>CprdProperties\<close>: every access is
    logged once under the next number of its thread, dependencies are reported exactly for the
    pending reads whose label reaches a write, fences log the flushed lines and forget them.

  \<^item> Data-flow labels. \<^theory_text>\<open>DfsanLabels\<close>: \<open>dfsan/dfsan.cpp\<close>: labels, the union table, label shadow; a
    label stands for a set of base labels, and a union for their union.

  \<^item> Clocks. \<^theory_text>\<open>DenseAlloc\<close>: \<open>tsan/rtl/tsan_dense_alloc.h\<close>, indices owned by caches and the free list.
    \<^theory_text>\<open>SyncClock\<close>, \<^theory_text>\<open>SyncClockLayout\<close>, \<^theory_text>\<open>ThreadClock\<close>: \<open>tsan/rtl/tsan_clock.cpp\<close>: a synchronisation
    clock is a table of blocks in the allocator, possibly shared, with up to two dirty elements kept aside.
    \<^theory_text>\<open>ClockProperties\<close>: what acquire and release do to the value of a clock, a vector of epochs, on their slow and their
    constant-time paths.

  \<^item> Shadow memory. \<^theory_text>\<open>ShadowMapping\<close>: the address maps of \<open>tsan/rtl/tsan_platform.h\<close> for Linux on
    x86-64. \<^theory_text>\<open>Shadow\<close>: the two packed words \<open>FastState\<close> and \<open>Shadow\<close> of \<open>tsan/rtl/tsan_rtl.h\<close> and the search for the
    same access with and without vector instructions. \<^theory_text>\<open>ShadowProperties\<close>: fields are bits, the two
    searches agree, addresses survive the map. \<^theory_text>\<open>MemoryAccess\<close>: \<open>tsan/rtl/tsan_rtl.cpp\<close> and its entry
    points: accesses of all kinds, ranges, flushes, fences, function entry and exit, ignored regions.
    \<^theory_text>\<open>MemoryProperties\<close>: a range or an unaligned access is the sequence of its pieces; a range of shadow is set exactly; a
    repeated store is filtered.

  \<^item> Deadlock detector. \<^theory_text>\<open>BitVector\<close>, \<^theory_text>\<open>BitVectorSets\<close>: \<open>sanitizer_common/sanitizer_bitvector.h\<close>, words and
    two-level vectors, which implement sets of numbers: a locale states the interface and the
    rule for draining loops, and is interpreted for both. \<^theory_text>\<open>BVGraph\<close>:
    \<open>sanitizer_common/sanitizer_bvgraph.h\<close>, a graph as a vector of successor sets, with reachability
    and shortest paths. \<^theory_text>\<open>DeadlockDetector\<close>: \<open>sanitizer_common/sanitizer_deadlock_detector.h\<close> and
    \<open>sanitizer_deadlock_detector1.cpp\<close>. \<^theory_text>\<open>DeadlockInvariant\<close>, \<^theory_text>\<open>DeadlockProperties\<close>: the invariants of the
    detector and of a thread's locks and the effect of each operation on the relation of
    lock acquisitions. \<^theory_text>\<open>DeadlockSystem\<close>: threads and mutexes as a step relation, whose reachable
    states keep the invariant. \<^theory_text>\<open>DeadlockClaims\<close>: a report is made exactly for a cycle and lists a shortest
    one; no handler stops as long as no mutex is destroyed while a thread holds it.

  \<^item> Synchronisation objects. \<^theory_text>\<open>MetaMap\<close>: \<open>tsan/rtl/tsan_sync.cpp\<close>: descriptors of heap blocks and
    synchronisation objects, chained per shadow cell, in two slab allocators. \<^theory_text>\<open>ClockBlocks\<close>: who owns the blocks of clocks.
    \<^theory_text>\<open>MetaInvariant\<close>, \<^theory_text>\<open>MetaCells\<close>, \<^theory_text>\<open>MetaProperties\<close>: the map is a partial function from addresses to objects, which
    getting, creating and freeing implement. \<^theory_text>\<open>MetaConcurrent\<close>: the same when other threads
    change the chain between the reads of the lock-free search and its compare-and-swap. Such a change is a complete creation by
    the operation itself, run on one index that the other thread's processor had in its cache; no update is lost.

  \<^item> Mutexes. \<^theory_text>\<open>MutexSet\<close>: \<open>tsan/rtl/tsan_mutexset.cpp\<close>. \<^theory_text>\<open>SyncOps\<close>: every operation of
    \<open>tsan/rtl/tsan_rtl_mutex.cpp\<close> on the whole runtime, the threads, the objects, the clocks, the shadow, the deadlock detector and
    the reports. \<^theory_text>\<open>MutexSpec\<close>: an abstract machine of owner, nesting and flags for one mutex, and that each
    operation that returns makes its step. \<^theory_text>\<open>MutexProperties\<close>: so do all sequences of calls; the owner keeps the mutex,
    misuse is reported once, the \<open>CHECK\<close>s on nesting hold.

  \<^item> Threads. \<^theory_text>\<open>ThreadRegistry\<close>: \<open>sanitizer_common/sanitizer_thread_registry.cpp\<close>, with the virtual methods of
    a context as an argument. \<^theory_text>\<open>ThreadLife\<close>, \<^theory_text>\<open>ThreadProperties\<close>: its invariant, the life of a thread, the quarantine
    of numbers, joining. \<^theory_text>\<open>ThreadOps\<close>: \<open>tsan/rtl/tsan_rtl_thread.cpp\<close>, the methods of the race detector's contexts, creation, start, end, join,
    fork and fibers. \<^theory_text>\<open>ThreadOpsProperties\<close>: the \<open>CHECK\<close>s of those methods never fail under the registry.

  \<^bold>\<open>Conventions.\<close> Integers have their width wherever the code could wrap around. Mutable objects are records passed on and
  returned; shared blocks and shadow memory are maps from indices or addresses. A failing \<open>CHECK\<close>, \<open>Die\<close> or an index
  outside an array is \<open>None\<close> or a value of a datatype of reasons. \<open>DCHECK\<close> is compiled out, as in a release build.
  Code that is not under \<open>src/\<close> is a parameter: the stack trace of an access, the content of the memory
  that an access reads, the settings of the flags. The trace of events and the statistics of ThreadSanitizer do not
  influence anything modelled and are left out. The caches of allocators are those of one processor that the threads share; an
  operation that holds a lock of the runtime is one step, and where the code works without one (the search for a synchronisation object,
  a join that waits) what the others do in between is an argument. The nesting depth of a mutex is an integer below \<open>2 ^ 31\<close>: the signed overflow of the code's \<open>int\<close>, undefined in C++, is
  \<open>None\<close>. The counts in mutex sets, nestings of ignored regions and thread numbers, \<open>int\<close> in the code, are integers and naturals.

  \<^bold>\<open>Loops.\<close> Loops over arrays are folds. Loops whose end depends on data are functions with a
  termination proof, or partial functions whose result is then proved to exist (draining of a
  vector, the graph search, the growth of a clock, the search of the label tree). No fuel is used, except that the recursive search for a
  path takes the length limit that the code passes.

  \<^bold>\<open>Bounds.\<close> The graph has \<open>4096 * N\<close> nodes with \<open>N \<le> 16\<close> (the code uses \<open>N = 1\<close>; edges are stored in 16 bits), and the handlers
  that can start a new epoch assume that the 64-bit epoch has room for one more.

  \<^bold>\<open>Findings.\<close> Repeated stores after a flush are not logged (\<open>repeated_write_not_logged\<close>); the vector search takes stale accesses for
  recorded ones once an epoch reaches \<open>2 ^ 31\<close>; labels are cleared past the end of large ranges; an array iterates its first
  element after its removal and never reuses slots; lengths of mappings are cut to 32 bits and epochs printed in 32;
  two pending reads with one label return it twice; \<open>internal_memset\<close> depends on alignment for values
  that are no bytes; the index checks of a two-level vector accept its size; an identifier of a mutex holds 12 bits of its
  number, where the comment has 14 (\<open>sync_id_roundtrip\<close>); nothing keeps a recursive lock from overflowing the nesting depth
  (\<open>post_lock_overflow\<close>); a mutex destroyed while held leaves its node in the thread's set, and the next mutex with
  that node fails a \<open>CHECK\<close> (\<open>held_node_reused\<close>).

  \<^bold>\<open>Not modelled.\<close> The LLVM passes and most interceptors work on interfaces outside \<open>src/\<close> (LLVM, libc, pthread). The calls of the program to
  atomic operations are not modelled. Allocators, process maps,
  symbolizers, stack unwinding, files and signals are system calls with glue. Reports and \<open>Printf\<close> only produce text.
  The platform tables (\<open>sanitizer_platform_limits_*\<close>, the system call hooks, the other operating systems and
  architectures) are not built on Linux x86-64 or hold constants of the system's headers. The second deadlock detector is
  not compiled (\<open>SANITIZER_DEADLOCK_DETECTOR_VERSION\<close> is 1).
\<close>

end
